(* ===== verification/Prelude.thy ===== *)
theory Prelude
  imports Main "HOL-Library.Word"
begin

text \<open>
  Shared vocabulary of the development: the machine integer types of the kernel, the
  result type of code that may panic or fault, and generic facts on lists, functions and
  words that the component theories use.

  A kernel \<open>panic\<close> (include/std/stdio.h, lib/print.c) never returns, so a panicking path is the
  value \<open>Inl (Panic msg)\<close>; \<open>assert\<close> panics when its condition fails.  A path that
  dereferences a null or invalid pointer is \<open>Inl (Fault msg)\<close>.
\<close>

section \<open>Types\<close>

type_synonym u8 = "8 word"
type_synonym u16 = "16 word"
type_synonym u32 = "32 word"
type_synonym u64 = "64 word"

text \<open>Addresses of kernel objects in the pointer level models; 0 is the null pointer.\<close>

type_synonym addr = nat

text \<open>Byte addressed memory.\<close>

type_synonym mem = "nat \<Rightarrow> u8"

datatype kerr = Panic string | Fault string

type_synonym 'a kres = "kerr + 'a"

section \<open>Results\<close>

definition kbind :: "'a kres \<Rightarrow> ('a \<Rightarrow> 'b kres) \<Rightarrow> 'b kres" where
  "kbind m f = (case m of Inl e \<Rightarrow> Inl e | Inr x \<Rightarrow> f x)"

definition kassert :: "bool \<Rightarrow> string \<Rightarrow> unit kres" where
  "kassert b msg = (if b then Inr () else Inl (Panic msg))"

named_theorems kres_simps \<open>evaluation of the result type\<close>

lemma kbind_Inr [simp, kres_simps]: "kbind (Inr x) f = f x"
  by (simp add: kbind_def)

lemma kbind_Inl [simp, kres_simps]: "kbind (Inl e) f = Inl e"
  by (simp add: kbind_def)

lemma kassert_True [simp, kres_simps]: "kassert True msg = Inr ()"
  by (simp add: kassert_def)

lemma kassert_False [simp, kres_simps]: "kassert False msg = Inl (Panic msg)"
  by (simp add: kassert_def)

lemma kbind_eq_Inr [kres_simps]: "kbind m f = Inr y \<longleftrightarrow> (\<exists>x. m = Inr x \<and> f x = Inr y)"
  by (cases m) auto

lemma kassert_eq_Inr [kres_simps]: "kassert b msg = Inr u \<longleftrightarrow> b"
  by (simp add: kassert_def)

lemma kbind_assoc: "kbind (kbind m f) g = kbind m (\<lambda>x. kbind (f x) g)"
  by (cases m) auto

section \<open>Lists\<close>

lemma remove1_middle: "x \<notin> set xs \<Longrightarrow> remove1 x (xs @ x # ys) = xs @ ys"
  by (simp add: remove1_append)

lemma distinct_only:
  assumes "distinct xs" "x \<in> set xs" "\<And>y. y \<in> set xs \<Longrightarrow> y = x"
  shows "xs = [x]"
proof -
  have "set xs = {x}" using assms(2,3) by blast
  then have "length xs = 1" using distinct_card [OF assms(1)] by simp
  then show ?thesis using assms(2) by (cases xs) auto
qed

section \<open>Words\<close>

lemma unat_less_width: "unat (w :: 'a::len word) < 2 ^ LENGTH('a)"
  by simp

lemma unat_of_nat_id: "n < 2 ^ LENGTH('a) \<Longrightarrow> unat (of_nat n :: 'a::len word) = n"
  by (simp add: unat_of_nat take_bit_nat_eq_self)

lemma unat_two_power: "k < LENGTH('a) \<Longrightarrow> unat ((2 :: 'a::len word) ^ k) = 2 ^ k"
  by (metis of_nat_numeral of_nat_power one_less_numeral_iff power_strict_increasing semiring_norm(76)
      unat_of_nat_id)

lemma unat_ucast_up:
  "LENGTH('a) \<le> LENGTH('b) \<Longrightarrow> unat (ucast (w :: 'a::len word) :: 'b::len word) = unat w"
  by (simp add: unsigned_ucast_eq take_bit_nat_eq_self order.strict_trans2 [OF unat_less_width])

lemma bit_unat: "bit (unat (w :: 'a::len word)) k = bit w k"
  by (simp add: bit_unsigned_iff)

lemma word_nonzero_cases: "(n :: 'a::len word) \<noteq> 0 \<Longrightarrow> n = 1 \<or> 1 < n"
  by (metis linorder_neqE word_less_1)

end
