(* ===== verification/CList.thy ===== *)
theory CList
  imports Prelude
begin

text \<open>
  The circular doubly linked list of include/lib/list.h at pointer level, and the queue of
  include/lib/fifo.h on top of it.

  Every \<open>struct list_head\<close> lives in a heap \<open>lheap\<close>; the operations are the pointer writes of
  the source in their order.  The predicate \<open>dll h hd xs\<close> says that the list anchored at \<open>hd\<close> holds
  the nodes \<open>xs\<close>.  Every operation is shown to implement the corresponding operation
  on HOL lists and to leave disjoint lists of the same heap alone; the other components of the
  development therefore use HOL lists for their intrusive lists.
\<close>

section \<open>Heap and operations\<close>

record list_head =
  l_prev :: addr
  l_next :: addr

type_synonym lheap = "addr \<Rightarrow> list_head"

definition set_next :: "addr \<Rightarrow> addr \<Rightarrow> lheap \<Rightarrow> lheap" where
  "set_next p v h = h(p := (h p)\<lparr>l_next := v\<rparr>)"

definition set_prev :: "addr \<Rightarrow> addr \<Rightarrow> lheap \<Rightarrow> lheap" where
  "set_prev p v h = h(p := (h p)\<lparr>l_prev := v\<rparr>)"

definition INIT_LIST_HEAD :: "addr \<Rightarrow> lheap \<Rightarrow> lheap" where
  "INIT_LIST_HEAD p h = set_prev p p (set_next p p h)"

text \<open>\<open>raw_list_add\<close> and \<open>raw_list_del\<close> are \<open>__list_add\<close> and \<open>__list_del\<close>.\<close>

definition raw_list_add :: "addr \<Rightarrow> addr \<Rightarrow> addr \<Rightarrow> lheap \<Rightarrow> lheap" where
  "raw_list_add new p n h =
     set_prev new p (set_next new n (set_next p new (set_prev n new h)))"

definition raw_list_del :: "addr \<Rightarrow> addr \<Rightarrow> lheap \<Rightarrow> lheap" where
  "raw_list_del p n h = set_prev n p (set_next p n h)"

definition list_del :: "addr \<Rightarrow> lheap \<Rightarrow> lheap" where
  "list_del e h = raw_list_del (l_prev (h e)) (l_next (h e)) h"

definition list_del_init :: "addr \<Rightarrow> lheap \<Rightarrow> lheap" where
  "list_del_init e h = INIT_LIST_HEAD e (raw_list_del (l_prev (h e)) (l_next (h e)) h)"

definition list_add_tail :: "addr \<Rightarrow> addr \<Rightarrow> lheap \<Rightarrow> lheap" where
  "list_add_tail new l h = raw_list_add new (l_prev (h l)) l h"

definition list_add_head :: "addr \<Rightarrow> addr \<Rightarrow> lheap \<Rightarrow> lheap" where
  "list_add_head new l h = raw_list_add new l (l_next (h l)) h"

definition list_is_first :: "addr \<Rightarrow> addr \<Rightarrow> lheap \<Rightarrow> bool" where
  "list_is_first e l h = (l_prev (h e) = l)"

definition list_is_last :: "addr \<Rightarrow> addr \<Rightarrow> lheap \<Rightarrow> bool" where
  "list_is_last e l h = (l_next (h e) = l)"

definition list_empty :: "addr \<Rightarrow> lheap \<Rightarrow> bool" where
  "list_empty l h = (l_next (h l) = l)"

definition list_first :: "addr \<Rightarrow> lheap \<Rightarrow> addr" where
  "list_first l h = l_next (h l)"

definition list_splice_head :: "addr \<Rightarrow> addr \<Rightarrow> lheap \<Rightarrow> lheap" where
  "list_splice_head old_list new_list h0 =
    (let h1 = set_next (l_prev (h0 old_list)) new_list h0;
         h2 = set_prev (l_next (h1 old_list)) (l_next (h1 new_list)) h1;
         h3 = set_prev (l_next (h2 new_list)) (l_next (h2 old_list)) h2;
         h4 = set_next new_list (l_prev (h3 old_list)) h3;
         h5 = set_prev old_list 0 h4
     in set_next old_list 0 h5)"

definition list_pop :: "addr \<Rightarrow> lheap \<Rightarrow> addr option \<times> lheap" where
  "list_pop l h =
    (if list_empty l h then (None, h)
     else (Some (l_next (h l)), list_del_init (l_next (h l)) h))"

text \<open>The loop of \<open>list_len\<close>: the panic on the 1000001st node bounds the traversal, so the
  function is total even on a corrupt list.\<close>

function list_len_from :: "addr \<Rightarrow> addr \<Rightarrow> nat \<Rightarrow> lheap \<Rightarrow> nat kres" where
  "list_len_from l pos len h =
    (if pos = l then Inr len
     else if len + 1 > 1000000 then Inl (Panic ''maybe len max'')
     else list_len_from l (l_next (h pos)) (len + 1) h)"
  by pat_completeness auto
termination
  by (relation "measure (\<lambda>(l, pos, len, h). 1000001 - len)") auto

declare list_len_from.simps [simp del]

definition list_len :: "addr \<Rightarrow> lheap \<Rightarrow> nat kres" where
  "list_len l h = list_len_from l (l_next (h l)) 0 h"

section \<open>The abstraction to HOL lists\<close>

fun dll_seg :: "lheap \<Rightarrow> addr \<Rightarrow> addr list \<Rightarrow> addr \<Rightarrow> bool" where
  "dll_seg h a [] e = (l_next (h a) = e \<and> l_prev (h e) = a)"
| "dll_seg h a (x # xs) e = (l_next (h a) = x \<and> l_prev (h x) = a \<and> dll_seg h x xs e)"

definition dll :: "lheap \<Rightarrow> addr \<Rightarrow> addr list \<Rightarrow> bool" where
  "dll h l xs = (distinct (l # xs) \<and> dll_seg h l xs l)"

named_theorems heap_simps \<open>reading a heap after a write\<close>

lemma set_next_next [heap_simps]: "l_next (set_next p v h q) = (if q = p then v else l_next (h q))"
  and set_next_prev [heap_simps]: "l_prev (set_next p v h q) = l_prev (h q)"
  and set_prev_prev [heap_simps]: "l_prev (set_prev p v h q) = (if q = p then v else l_prev (h q))"
  and set_prev_next [heap_simps]: "l_next (set_prev p v h q) = l_next (h q)"
  by (simp_all add: set_next_def set_prev_def)

lemma seg_frame_next: "b \<notin> set (a # xs) \<Longrightarrow> dll_seg (set_next b v h) a xs e = dll_seg h a xs e"
  by (induction xs arbitrary: a) (auto simp: heap_simps)

lemma seg_frame_prev: "b \<notin> set xs \<Longrightarrow> b \<noteq> e \<Longrightarrow> dll_seg (set_prev b v h) a xs e = dll_seg h a xs e"
  by (induction xs arbitrary: a) (auto simp: heap_simps)

lemma seg_append:
  "dll_seg h a (xs @ y # ys) e = (dll_seg h a xs y \<and> dll_seg h y ys e)"
  by (induction xs arbitrary: a) auto

lemma seg_last: "dll_seg h a xs e \<Longrightarrow> l_prev (h e) = last (a # xs)"
  by (induction xs arbitrary: a) auto

lemma seg_hd: "dll_seg h a xs e \<Longrightarrow> l_next (h a) = hd (xs @ [e])"
  by (cases xs) auto

lemma seg_insert:
  assumes "dll_seg h a (xs @ ys) e" "n \<notin> set (a # xs @ ys @ [e])"
    and "distinct (a # xs @ ys)" "distinct (xs @ ys @ [e])"
  shows "dll_seg (raw_list_add n (last (a # xs)) (hd (ys @ [e])) h) a (xs @ n # ys) e"
  using assms
proof (induction xs arbitrary: a)
  case Nil
  then show ?case
    by (cases ys) (auto simp: raw_list_add_def heap_simps seg_frame_next seg_frame_prev)
next
  case (Cons x xs)
  have q: "hd (ys @ [e]) \<in> set ys \<union> {e}" by (cases ys) auto
  have p: "last (x # xs) \<in> set (x # xs)" by (rule last_in_set) simp
  with q Cons.prems have "x \<noteq> hd (ys @ [e])" "a \<noteq> last (x # xs)" "a \<noteq> n" "x \<noteq> n" by auto
  with Cons show ?case by (simp add: raw_list_add_def heap_simps)
qed

lemma seg_delete:
  assumes "dll_seg h a (xs @ x # ys) e"
    and "distinct (a # xs @ x # ys)" "distinct (xs @ x # ys @ [e])"
  shows "dll_seg (raw_list_del (last (a # xs)) (hd (ys @ [e])) h) a (xs @ ys) e"
  using assms
proof (induction xs arbitrary: a)
  case Nil
  then show ?case
    by (cases ys) (auto simp: raw_list_del_def heap_simps seg_frame_next seg_frame_prev)
next
  case (Cons z xs)
  have q: "hd (ys @ [e]) \<in> set ys \<union> {e}" by (cases ys) auto
  have p: "last (z # xs) \<in> set (z # xs)" by (rule last_in_set) simp
  with q Cons.prems have "z \<noteq> hd (ys @ [e])" "a \<noteq> last (z # xs)" by auto
  with Cons show ?case by (simp add: raw_list_del_def heap_simps)
qed

lemma seg_neighbours:
  assumes "dll_seg h a (xs @ x # ys) e"
  shows "l_prev (h x) = last (a # xs)" "l_next (h x) = hd (ys @ [e])"
  using assms seg_last seg_hd by (auto simp: seg_append)

section \<open>Every operation implements its list counterpart\<close>

lemma INIT_LIST_HEAD_dll: "dll (INIT_LIST_HEAD p h) p []"
  by (simp add: dll_def INIT_LIST_HEAD_def heap_simps)

lemma raw_list_add_dll:
  assumes "dll h l (xs @ ys)" "n \<notin> set (l # xs @ ys)"
  shows "dll (raw_list_add n (last (l # xs)) (hd (ys @ [l])) h) l (xs @ n # ys)"
  using assms seg_insert [of h l xs ys l n] by (auto simp: dll_def)

lemma raw_list_del_dll:
  assumes "dll h l (xs @ x # ys)"
  shows "dll (raw_list_del (l_prev (h x)) (l_next (h x)) h) l (xs @ ys)"
  using assms seg_delete [of h l xs x ys l] seg_neighbours [of h l xs x ys l]
  by (auto simp: dll_def)

lemma list_add_tail_dll:
  assumes "dll h l xs" "n \<notin> set (l # xs)"
  shows "dll (list_add_tail n l h) l (xs @ [n])"
  using assms raw_list_add_dll [of h l xs "[]" n] seg_last [of h l xs l]
  by (simp add: list_add_tail_def dll_def)

lemma list_add_head_dll:
  assumes "dll h l xs" "n \<notin> set (l # xs)"
  shows "dll (list_add_head n l h) l (n # xs)"
  using assms raw_list_add_dll [of h l "[]" xs n] seg_hd [of h l xs l]
  by (simp add: list_add_head_def dll_def)

lemma dll_split:
  assumes "dll h l xs" "x \<in> set xs"
  obtains ys zs where "xs = ys @ x # zs" "x \<notin> set ys" "remove1 x xs = ys @ zs"
  using assms split_list_first [of x xs] by (metis remove1_middle)

lemma list_del_dll:
  assumes "dll h l xs" "x \<in> set xs"
  shows "dll (list_del x h) l (remove1 x xs)"
proof -
  obtain ys zs where "xs = ys @ x # zs" "remove1 x xs = ys @ zs" using assms dll_split by metis
  then show ?thesis using assms raw_list_del_dll by (simp add: list_del_def)
qed

lemma dll_frame:
  assumes "dll h l xs" "p \<notin> set (l # xs)"
  shows "dll (set_next p v h) l xs" "dll (set_prev p v h) l xs"
  using assms by (auto simp: dll_def seg_frame_next seg_frame_prev)

lemma list_del_init_dll:
  assumes "dll h l xs" "x \<in> set xs"
  shows "dll (list_del_init x h) l (remove1 x xs)"
proof -
  have "x \<notin> set (l # remove1 x xs)" using assms by (auto simp: dll_def)
  then show ?thesis using list_del_dll [OF assms]
    by (simp add: list_del_init_def INIT_LIST_HEAD_def list_del_def dll_frame)
qed

lemma list_del_init_self: "dll (list_del_init x h) x []"
  by (simp add: list_del_init_def INIT_LIST_HEAD_dll)

lemma list_empty_dll: "dll h l xs \<Longrightarrow> list_empty l h \<longleftrightarrow> xs = []"
  by (cases xs) (auto simp: dll_def list_empty_def)

lemma list_pop_dll:
  assumes "dll h l xs"
  shows "dll (snd (list_pop l h)) l (tl xs)"
    "fst (list_pop l h) = (case xs of [] \<Rightarrow> None | x # _ \<Rightarrow> Some x)"
proof (atomize (full), cases xs)
  case Nil
  then show "dll (snd (list_pop l h)) l (tl xs) \<and>
      fst (list_pop l h) = (case xs of [] \<Rightarrow> None | x # _ \<Rightarrow> Some x)"
    using assms list_empty_dll [OF assms] by (simp add: list_pop_def)
next
  case (Cons x ys)
  then have "l_next (h l) = x" using assms by (simp add: dll_def)
  then show "dll (snd (list_pop l h)) l (tl xs) \<and>
      fst (list_pop l h) = (case xs of [] \<Rightarrow> None | x # _ \<Rightarrow> Some x)"
    using Cons assms list_empty_dll [OF assms] list_del_init_dll [OF assms, of x]
    by (simp add: list_pop_def)
qed

lemma list_is_first_dll:
  assumes "dll h l xs" "x \<in> set xs"
  shows "list_is_first x l h \<longleftrightarrow> hd xs = x"
proof -
  obtain ys zs where xs: "xs = ys @ x # zs" using assms dll_split by metis
  then have "l_prev (h x) = last (l # ys)" "l \<notin> set ys" "x \<notin> set ys"
    using assms seg_neighbours(1) [of h l ys x zs l] by (auto simp: dll_def)
  then show ?thesis using xs by (cases ys rule: rev_cases) (auto simp: list_is_first_def hd_append)
qed

lemma list_is_last_dll:
  assumes "dll h l xs" "x \<in> set xs"
  shows "list_is_last x l h \<longleftrightarrow> last xs = x"
proof -
  obtain ys zs where xs: "xs = ys @ x # zs" using assms dll_split by metis
  then have "l_next (h x) = hd (zs @ [l])" "l \<notin> set zs" "x \<notin> set zs"
    using assms seg_neighbours(2) [of h l ys x zs l] by (auto simp: dll_def)
  then show ?thesis using xs by (cases zs) (auto simp: list_is_last_def)
qed

lemma list_len_from_seg:
  assumes "dll_seg h a xs l" "l \<notin> set xs" "len + length xs \<le> 1000000"
  shows "list_len_from l (l_next (h a)) len h = Inr (len + length xs)"
  using assms
proof (induction xs arbitrary: a len)
  case Nil
  then show ?case by (simp add: list_len_from.simps)
next
  case (Cons x xs)
  from Cons.prems have "list_len_from l (l_next (h x)) (Suc len) h = Inr (Suc len + length xs)"
    by (intro Cons.IH) auto
  with Cons.prems show ?case by (subst list_len_from.simps) auto
qed

lemma list_len_dll: "dll h l xs \<Longrightarrow> length xs \<le> 1000000 \<Longrightarrow> list_len l h = Inr (length xs)"
  unfolding list_len_def using list_len_from_seg [of h l xs l 0] by (auto simp: dll_def)

text \<open>Two lists over disjoint nodes: an operation on one leaves the other alone.\<close>

lemma list_add_tail_frame:
  assumes "dll h l xs" "dll h m ys" "n \<notin> set (l # xs)" "set (l # xs) \<inter> set (m # ys) = {}"
  shows "dll (list_add_tail n m h) l xs"
proof -
  have "l_prev (h m) \<in> set (m # ys)"
    using assms(2) seg_last [of h m ys m] last_in_set [of "m # ys"] by (auto simp: dll_def)
  with assms have "l_prev (h m) \<notin> set (l # xs)" "m \<notin> set (l # xs)" by auto
  with assms(1,3) show ?thesis by (simp add: list_add_tail_def raw_list_add_def dll_frame)
qed

lemma list_del_init_frame:
  assumes "dll h l xs" "dll h m ys" "x \<in> set ys" "set (l # xs) \<inter> set (m # ys) = {}"
  shows "dll (list_del_init x h) l xs"
proof -
  obtain as bs where ys: "ys = as @ x # bs" using assms(2,3) dll_split by metis
  have "last (m # as) \<in> set (m # as)" "hd (bs @ [m]) \<in> set (m # bs)"
    by (rule last_in_set) (simp, cases bs, auto)
  with ys have "l_prev (h x) \<in> set (m # ys)" "l_next (h x) \<in> set (m # ys)"
    using assms(2) seg_neighbours [of h m as x bs m] by (auto simp: dll_def split: if_splits)
  with assms have "l_prev (h x) \<notin> set (l # xs)" "l_next (h x) \<notin> set (l # xs)" "x \<notin> set (l # xs)"
    by auto
  with assms(1) show ?thesis
    by (simp add: list_del_init_def raw_list_del_def INIT_LIST_HEAD_def dll_frame)
qed

section \<open>Splicing\<close>

text \<open>
  \<open>list_splice_head\<close> wires the wrong pointers.  Whatever the two lists hold, a forward walk of the
  destination afterwards meets exactly one node, the last one of the source list: every
  other node of both lists is lost.
\<close>

theorem list_splice_head_loses:
  assumes "dll h old_list xs" "dll h new_list ys" "xs \<noteq> []"
    and "set (old_list # xs) \<inter> set (new_list # ys) = {}"
  shows "list_first new_list (list_splice_head old_list new_list h) = last xs \<and>
    list_len new_list (list_splice_head old_list new_list h) = Inr 1"
proof -
  let ?h = "list_splice_head old_list new_list h"
  have z: "l_prev (h old_list) = last xs" and a: "l_next (h old_list) = hd xs"
    and y: "l_next (h new_list) = hd (ys @ [new_list])"
    using assms seg_last [of h old_list xs old_list] seg_hd [of h old_list xs old_list]
      seg_hd [of h new_list ys new_list] by (auto simp: dll_def)
  have "old_list \<notin> set xs" using assms(1) by (simp add: dll_def)
  moreover have mem: "last xs \<in> set xs" "hd xs \<in> set xs" "hd (ys @ [new_list]) \<in> set (new_list # ys)"
    using assms(3) by simp_all (cases ys, auto)
  ultimately have ne: "last xs \<noteq> new_list" "last xs \<noteq> old_list" "old_list \<noteq> new_list" "hd xs \<noteq> old_list"
    "hd (ys @ [new_list]) \<noteq> old_list" "hd (ys @ [new_list]) \<noteq> last xs"
    using mem assms(4) by (metis IntI empty_iff list.set_intros)+
  have n: "l_next (?h new_list) = last xs" and b: "l_next (?h (last xs)) = new_list"
    using ne z a y by (simp_all add: list_splice_head_def Let_def heap_simps)
  show ?thesis
    using n b ne(1) by (simp add: list_first_def list_len_def list_len_from.simps)
qed

text \<open>A heap in which the empty list at 1 and the list at 2 with the nodes 3, 4 are both anchored.\<close>

definition splice_heap :: lheap where
  "splice_heap = (\<lambda>_. \<lparr>l_prev = 0, l_next = 0\<rparr>)
    (1 := \<lparr>l_prev = 1, l_next = 1\<rparr>, 2 := \<lparr>l_prev = 4, l_next = 3\<rparr>,
     3 := \<lparr>l_prev = 2, l_next = 4\<rparr>, 4 := \<lparr>l_prev = 3, l_next = 2\<rparr>)"

theorem list_splice_head_loses_witness:
  "dll splice_heap 2 [3, 4] \<and> dll splice_heap 1 [] \<and>
   list_first 1 (list_splice_head 2 1 splice_heap) = 4 \<and>
   list_len 1 (list_splice_head 2 1 splice_heap) = Inr 1"
  using list_splice_head_loses [of splice_heap 2 "[3, 4]" 1 "[]"]
  by (simp add: dll_def splice_heap_def)

end
