(* ===== verification/Fifo.thy ===== *)
theory Fifo
  imports CList
begin

text \<open>
  The queue of include/lib/fifo.h: an intrusive list plus a size counter.  \<open>fifo_push_p\<close> and its
  companions are the code at pointer level, over the heap of \<open>CList\<close>; \<open>fifo_push\<close> and its companions
  are the same operations over a HOL list, which is how the components that own a fifo (semaphores,
  work queue, signal queue, reader-writer lock) use it.  Both are instances of one contract, the locale
  \<open>queue_contract\<close>, whose client lemma says that any run of pushes and pops behaves as a
  first-in first-out queue.
\<close>

section \<open>The queue over a HOL list\<close>

record 'a fifo =
  f_size :: int
  f_list :: "'a list"

definition fifo_init :: "'a fifo" where
  "fifo_init = \<lparr>f_size = 0, f_list = []\<rparr>"

definition fifo_push :: "'a \<Rightarrow> 'a fifo \<Rightarrow> 'a fifo" where
  "fifo_push x f = f\<lparr>f_size := f_size f + 1, f_list := f_list f @ [x]\<rparr>"

definition fifo_empty :: "'a fifo \<Rightarrow> bool" where
  "fifo_empty f = (f_size f = 0)"

definition fifo_pop :: "'a fifo \<Rightarrow> 'a option \<times> 'a fifo" where
  "fifo_pop f = (case f_list f of
      [] \<Rightarrow> (None, f)
    | x # xs \<Rightarrow> (Some x, f\<lparr>f_size := f_size f - 1, f_list := xs\<rparr>))"

definition fifo_size :: "'a fifo \<Rightarrow> int" where
  "fifo_size f = f_size f"

definition fifo_wf :: "'a fifo \<Rightarrow> bool" where
  "fifo_wf f = (f_size f = int (length (f_list f)))"

lemma fifo_init_wf [simp]: "fifo_wf fifo_init"
  by (simp add: fifo_wf_def fifo_init_def)

lemma fifo_push_wf [simp]: "fifo_wf (fifo_push x f) = fifo_wf f"
  by (auto simp: fifo_wf_def fifo_push_def)

lemma fifo_pop_wf [simp]: "fifo_wf f \<Longrightarrow> fifo_wf (snd (fifo_pop f))"
  by (auto simp: fifo_wf_def fifo_pop_def split: list.splits)

lemma fifo_empty_iff: "fifo_wf f \<Longrightarrow> fifo_empty f \<longleftrightarrow> f_list f = []"
  by (auto simp: fifo_wf_def fifo_empty_def)

section \<open>The queue at pointer level\<close>

text \<open>The members of a \<open>struct fifo\<close> at address \<open>f\<close>: \<open>f_size\<close> in the map \<open>fsz\<close>, and the list head \<open>f_list\<close>
  in the heap at offset 8 of the structure.\<close>

record fstate =
  lh :: lheap
  fsz :: "addr \<Rightarrow> int"

definition fifo_list_at :: "addr \<Rightarrow> addr" where
  "fifo_list_at f = f + 8"

definition fifo_init_p :: "addr \<Rightarrow> fstate \<Rightarrow> fstate" where
  "fifo_init_p f s = s\<lparr>lh := INIT_LIST_HEAD (fifo_list_at f) (lh s), fsz := (fsz s)(f := 0)\<rparr>"

definition fifo_push_p :: "addr \<Rightarrow> addr \<Rightarrow> fstate \<Rightarrow> fstate kres" where
  "fifo_push_p f entry s =
    kbind (kassert (f \<noteq> 0) ''fifo'') (\<lambda>_.
    kbind (kassert (entry \<noteq> 0) ''entry'') (\<lambda>_.
    Inr (s\<lparr>lh := list_add_tail entry (fifo_list_at f) (lh s),
           fsz := (fsz s)(f := fsz s f + 1)\<rparr>)))"

definition fifo_empty_p :: "addr \<Rightarrow> fstate \<Rightarrow> bool" where
  "fifo_empty_p f s = (fsz s f = 0)"

definition fifo_pop_p :: "addr \<Rightarrow> fstate \<Rightarrow> addr option \<times> fstate" where
  "fifo_pop_p f s =
    (if list_empty (fifo_list_at f) (lh s) then (None, s)
     else (let (e, h) = list_pop (fifo_list_at f) (lh s)
           in (e, s\<lparr>lh := h, fsz := (fsz s)(f := fsz s f - 1)\<rparr>)))"

definition fifo_rel :: "addr \<Rightarrow> fstate \<Rightarrow> addr list \<Rightarrow> bool" where
  "fifo_rel f s xs = (f \<noteq> 0 \<and> dll (lh s) (fifo_list_at f) xs \<and> fsz s f = int (length xs))"

section \<open>The contract\<close>

datatype 'a qop = Push 'a | Pop

primrec run_queue ::
  "('a \<Rightarrow> 's \<Rightarrow> 's kres) \<Rightarrow> ('s \<Rightarrow> 'a option \<times> 's) \<Rightarrow> 'a qop list \<Rightarrow> 's \<Rightarrow> ('a option list \<times> 's) kres" where
  "run_queue push pop [] s = Inr ([], s)"
| "run_queue push pop (op # ops) s = (case op of
      Push x \<Rightarrow> kbind (push x s) (run_queue push pop ops)
    | Pop \<Rightarrow> (case pop s of (r, s') \<Rightarrow>
        kbind (run_queue push pop ops s') (\<lambda>(rs, t). Inr (r # rs, t))))"

text \<open>The specification of a run: what the pops return, and what is left in the queue.\<close>

fun queue_spec :: "'a qop list \<Rightarrow> 'a list \<Rightarrow> 'a option list \<times> 'a list" where
  "queue_spec [] xs = ([], xs)"
| "queue_spec (Push x # ops) xs = queue_spec ops (xs @ [x])"
| "queue_spec (Pop # ops) [] = (let (rs, ys) = queue_spec ops [] in (None # rs, ys))"
| "queue_spec (Pop # ops) (x # xs) = (let (rs, ys) = queue_spec ops xs in (Some x # rs, ys))"

text \<open>A run is admissible when no node is pushed while it is still queued (an intrusive node is on
  one list at a time).\<close>

fun ops_ok :: "('a \<Rightarrow> bool) \<Rightarrow> 'a qop list \<Rightarrow> 'a list \<Rightarrow> bool" where
  "ops_ok ok [] xs = True"
| "ops_ok ok (Push x # ops) xs = (ok x \<and> x \<notin> set xs \<and> ops_ok ok ops (xs @ [x]))"
| "ops_ok ok (Pop # ops) xs = ops_ok ok ops (tl xs)"

locale queue_contract =
  fixes rel :: "'s \<Rightarrow> 'a list \<Rightarrow> bool"
    and ok :: "'a \<Rightarrow> bool"
    and push :: "'a \<Rightarrow> 's \<Rightarrow> 's kres"
    and pop :: "'s \<Rightarrow> 'a option \<times> 's"
    and is_empty :: "'s \<Rightarrow> bool"
  assumes push_rel: "rel s xs \<Longrightarrow> ok x \<Longrightarrow> x \<notin> set xs \<Longrightarrow> \<exists>t. push x s = Inr t \<and> rel t (xs @ [x])"
    and pop_rel: "rel s xs \<Longrightarrow> rel (snd (pop s)) (tl xs)"
    and pop_val: "rel s xs \<Longrightarrow> fst (pop s) = (case xs of [] \<Rightarrow> None | x # _ \<Rightarrow> Some x)"
    and empty_rel: "rel s xs \<Longrightarrow> is_empty s = (xs = [])"
begin

lemma run_refines:
  assumes "rel s xs" "ops_ok ok ops xs"
  shows "\<exists>t. run_queue push pop ops s = Inr (fst (queue_spec ops xs), t) \<and> rel t (snd (queue_spec ops xs))"
  using assms
proof (induction ops xs arbitrary: s rule: queue_spec.induct)
  case (1 xs)
  then show ?case by simp
next
  case (2 x ops xs)
  then obtain t where "push x s = Inr t" "rel t (xs @ [x])" using push_rel by fastforce
  with 2 show ?case by simp
next
  case (3 ops)
  then show ?case using pop_rel [of s "[]"] pop_val [of s "[]"]
    by (fastforce split: prod.splits)
next
  case (4 ops x xs)
  then show ?case using pop_rel [of s "x # xs"] pop_val [of s "x # xs"]
    by (fastforce split: prod.splits)
qed

lemma run_empty:
  assumes "rel s xs" "ops_ok ok ops xs" "run_queue push pop ops s = Inr (rs, t)"
  shows "is_empty t \<longleftrightarrow> snd (queue_spec ops xs) = []"
  using run_refines [OF assms(1,2)] assms(3) empty_rel by auto

end

interpretation list_fifo: queue_contract
  "\<lambda>f xs. fifo_wf f \<and> f_list f = xs" "\<lambda>_. True" "\<lambda>x f. Inr (fifo_push x f)" fifo_pop fifo_empty
  by unfold_locales
    (auto simp: fifo_push_def fifo_pop_def fifo_wf_def fifo_empty_def split: list.splits)

lemma fifo_push_p_rel:
  assumes "fifo_rel f s xs" "x \<noteq> 0" "x \<noteq> fifo_list_at f" "x \<notin> set xs"
  shows "\<exists>t. fifo_push_p f x s = Inr t \<and> fifo_rel f t (xs @ [x])"
  using assms list_add_tail_dll [of "lh s" "fifo_list_at f" xs x]
  by (simp add: fifo_push_p_def fifo_rel_def)

lemma fifo_pop_p_rel:
  assumes "fifo_rel f s xs"
  shows "fifo_rel f (snd (fifo_pop_p f s)) (tl xs) \<and>
    fst (fifo_pop_p f s) = (case xs of [] \<Rightarrow> None | x # _ \<Rightarrow> Some x)"
  using assms list_pop_dll [of "lh s" "fifo_list_at f" xs] list_empty_dll [of "lh s" "fifo_list_at f" xs]
  by (cases xs) (auto simp: fifo_pop_p_def fifo_rel_def Let_def split: prod.splits)

interpretation ptr_fifo: queue_contract
  "fifo_rel f" "\<lambda>x. x \<noteq> 0 \<and> x \<noteq> fifo_list_at f" "fifo_push_p f" "fifo_pop_p f" "fifo_empty_p f" for f
  using fifo_push_p_rel fifo_pop_p_rel
  by unfold_locales (auto simp: fifo_empty_p_def fifo_rel_def)

lemma fifo_init_p_rel: "f \<noteq> 0 \<Longrightarrow> fifo_rel f (fifo_init_p f s) []"
  by (simp add: fifo_rel_def fifo_init_p_def INIT_LIST_HEAD_dll)

text \<open>
  C26: the pointer level fifo is a first-in first-out queue.  From a freshly initialised fifo, any
  sequence of pushes and pops in which no node is pushed twice while queued runs without a
  panic, its pops return the nodes in the order of their pushes, and the size counter and the
  linked list agree with the nodes still queued.
\<close>

theorem fifo_is_queue:
  assumes "f \<noteq> 0" "ops_ok (\<lambda>x. x \<noteq> 0 \<and> x \<noteq> fifo_list_at f) ops []"
  shows "\<exists>t. run_queue (fifo_push_p f) (fifo_pop_p f) ops (fifo_init_p f s) = Inr (fst (queue_spec ops []), t) \<and>
    dll (lh t) (fifo_list_at f) (snd (queue_spec ops [])) \<and>
    fsz t f = int (length (snd (queue_spec ops [])))"
  using ptr_fifo.run_refines [OF fifo_init_p_rel [OF assms(1)] assms(2)] by (auto simp: fifo_rel_def)

theorem fifo_is_queue_witness:
  "\<exists>t. run_queue (fifo_push_p 16) (fifo_pop_p 16) [Push 40, Push 50, Pop, Push 40, Pop]
      (fifo_init_p 16 \<lparr>lh = splice_heap, fsz = \<lambda>_. 0\<rparr>) = Inr ([Some 40, Some 50], t) \<and> fsz t 16 = 1"
  using fifo_is_queue [of 16 "[Push 40, Push 50, Pop, Push 40, Pop]" "\<lparr>lh = splice_heap, fsz = \<lambda>_. 0\<rparr>"]
  by (auto simp: fifo_list_at_def)

end
