(* ===== verification/Page.thy ===== *)
theory Page
  imports Prelude
begin

text \<open>
  include/lib/atomic.h, include/mm/page.h and mm/page.c: atomic counters, the descriptor of a physical
  page and the page array \<open>mem_map\<close>.  A page is named by its index in the array
  (\<open>page - mem_map.pages\<close> in the source); the list node \<open>buddy\<close> is part of the free lists of
  the buddy allocator.
\<close>

unbundle bit_operations_syntax

section \<open>Atomic counters\<close>

text \<open>A counter is a C \<open>int\<close>; \<open>amoadd.w\<close> wraps.  Each operation is one atomic step.\<close>

type_synonym atomic = u32

definition atomic_add :: "u32 \<Rightarrow> atomic \<Rightarrow> atomic" where
  "atomic_add i v = v + i"

definition atomic_sub :: "u32 \<Rightarrow> atomic \<Rightarrow> atomic" where
  "atomic_sub i v = v + (- i)"

definition atomic_inc :: "atomic \<Rightarrow> atomic" where
  "atomic_inc v = atomic_add 1 v"

definition atomic_dec :: "atomic \<Rightarrow> atomic" where
  "atomic_dec v = atomic_sub 1 v"

definition atomic_dec_and_test :: "atomic \<Rightarrow> bool \<times> atomic" where
  "atomic_dec_and_test v = (v = 1, v + (- 1))"

definition atomic_dec_and_test_1 :: "atomic \<Rightarrow> bool \<times> atomic" where
  "atomic_dec_and_test_1 v = (sint v > 1, v + (- 1))"

lemmas atomic_defs = atomic_add_def atomic_sub_def atomic_inc_def atomic_dec_def
  atomic_dec_and_test_def atomic_dec_and_test_1_def

section \<open>Pages\<close>

record page =
  pg_flags :: u32
  pg_refcnt :: atomic
  pg_order :: nat
  pg_slab :: addr

type_synonym pages = "nat \<Rightarrow> page"

definition PG_anon :: u32 where "PG_anon = push_bit 2 1"
definition PG_reserved :: u32 where "PG_reserved = push_bit 3 1"
definition PG_Slab :: u32 where "PG_Slab = push_bit 4 1"
definition PG_KMALLOC_PAGE :: u32 where "PG_KMALLOC_PAGE = push_bit 30 1"

definition MAX_LEVEL :: nat where "MAX_LEVEL = 11"
definition MAX_LEVEL_INDEX :: nat where "MAX_LEVEL_INDEX = 10"

text \<open>128 MiB of physical memory in pages of 4096 bytes, from \<open>KERNBASE\<close> on.\<close>

definition ALL_PFN :: nat where "ALL_PFN = 32768"
definition KERNBASE :: nat where "KERNBASE = 0x80000000"
definition PGSIZE :: nat where "PGSIZE = 4096"

definition I2PA :: "nat \<Rightarrow> nat" where
  "I2PA i = i * PGSIZE + KERNBASE"

definition PA2I :: "nat \<Rightarrow> nat" where
  "PA2I pa = (pa - KERNBASE) div PGSIZE"

definition init_page :: "u32 \<Rightarrow> page" where
  "init_page flags = \<lparr>pg_flags = flags, pg_refcnt = 0, pg_order = MAX_LEVEL, pg_slab = 0\<rparr>"

definition page_count :: "page \<Rightarrow> int" where
  "page_count pg = sint (pg_refcnt pg)"

definition page_is_free :: "page \<Rightarrow> bool" where
  "page_is_free pg = (page_count pg = 0)"

definition get_page :: "page \<Rightarrow> page" where
  "get_page pg = pg\<lparr>pg_refcnt := atomic_inc (pg_refcnt pg)\<rparr>"

definition put_page :: "page \<Rightarrow> page" where
  "put_page pg = pg\<lparr>pg_refcnt := atomic_dec (pg_refcnt pg)\<rparr>"

definition put_page_test :: "page \<Rightarrow> bool \<times> page" where
  "put_page_test pg =
    (fst (atomic_dec_and_test (pg_refcnt pg)), pg\<lparr>pg_refcnt := snd (atomic_dec_and_test (pg_refcnt pg))\<rparr>)"

definition set_page_slab :: "addr \<Rightarrow> page \<Rightarrow> page" where
  "set_page_slab slab pg = pg\<lparr>pg_flags := pg_flags pg OR PG_Slab, pg_slab := slab\<rparr>"

definition clear_page_slab :: "page \<Rightarrow> page" where
  "clear_page_slab pg = pg\<lparr>pg_flags := pg_flags pg AND NOT PG_Slab, pg_slab := 0\<rparr>"

definition set_page_kmalloc_page :: "page \<Rightarrow> page" where
  "set_page_kmalloc_page pg = pg\<lparr>pg_flags := pg_flags pg OR PG_KMALLOC_PAGE\<rparr>"

definition test_page_kmalloc_page :: "page \<Rightarrow> bool" where
  "test_page_kmalloc_page pg = (pg_flags pg AND PG_KMALLOC_PAGE \<noteq> 0)"

definition clear_page_kmalloc_page :: "page \<Rightarrow> page" where
  "clear_page_kmalloc_page pg = pg\<lparr>pg_flags := pg_flags pg AND NOT PG_KMALLOC_PAGE\<rparr>"

text \<open>The two loops of \<open>first_all_page_init\<close>; \<open>kernel_pfn_end\<close> depends on the linked image.\<close>

definition first_all_page_init :: "nat \<Rightarrow> pages \<Rightarrow> pages" where
  "first_all_page_init kernel_pfn_end ps =
    (let ps1 = foldl (\<lambda>ps i. ps(i := init_page 0)) ps [0..<ALL_PFN]
     in foldl (\<lambda>ps i. ps(i := (get_page (ps i))
          \<lparr>pg_flags := pg_flags (get_page (ps i)) OR (PG_reserved OR PG_anon)\<rparr>)) ps1 [0..<kernel_pfn_end])"

section \<open>Facts\<close>

lemma page_is_free_iff [simp]: "page_is_free pg \<longleftrightarrow> pg_refcnt pg = 0"
  by (simp add: page_is_free_def page_count_def signed_eq_0_iff)

lemma refcnt_simps [simp]:
  "pg_refcnt (get_page pg) = pg_refcnt pg + 1" "pg_order (get_page pg) = pg_order pg"
  "pg_refcnt (put_page pg) = pg_refcnt pg - 1" "pg_order (put_page pg) = pg_order pg"
  "fst (put_page_test pg) \<longleftrightarrow> pg_refcnt pg = 1"
  "pg_refcnt (snd (put_page_test pg)) = pg_refcnt pg - 1" "pg_order (snd (put_page_test pg)) = pg_order pg"
  by (simp_all add: get_page_def put_page_def put_page_test_def atomic_defs)

lemma foldl_upd:
  "foldl (\<lambda>f i. f(i := g (f i))) f [0..<n] = (\<lambda>i. if i < n then g (f i) else f i)"
  by (induction n) (auto simp: fun_eq_iff less_Suc_eq)

lemma first_all_page_init_nth:
  assumes "i < ALL_PFN" "k \<le> ALL_PFN"
  shows "pg_order (first_all_page_init k ps i) = MAX_LEVEL"
    "pg_refcnt (first_all_page_init k ps i) = (if i < k then 1 else 0)"
  using assms
  by (simp_all add: first_all_page_init_def Let_def foldl_upd [of "\<lambda>_. init_page 0"]
      foldl_upd [of "\<lambda>pg. (get_page pg)\<lparr>pg_flags := pg_flags (get_page pg) OR (PG_reserved OR PG_anon)\<rparr>"])
    (simp_all add: init_page_def)

text \<open>Page indices and physical addresses correspond one to one.\<close>

lemma PA2I_I2PA [simp]: "PA2I (I2PA i) = i"
  by (simp add: PA2I_def I2PA_def PGSIZE_def)

lemma PA2I_inside: "off < PGSIZE \<Longrightarrow> PA2I (I2PA i + off) = i"
  by (simp add: PA2I_def I2PA_def PGSIZE_def)

lemma test_set_kmalloc_page [simp]:
  "test_page_kmalloc_page (set_page_kmalloc_page pg)"
  "\<not> test_page_kmalloc_page (clear_page_kmalloc_page pg)"
proof -
  have "(w AND PG_KMALLOC_PAGE \<noteq> 0) \<longleftrightarrow> bit w 30" for w
    by (simp only: PG_KMALLOC_PAGE_def push_bit_eq_mult mult_1 and_exp_eq_0_iff_not_bit not_not)
  then show "test_page_kmalloc_page (set_page_kmalloc_page pg)"
    "\<not> test_page_kmalloc_page (clear_page_kmalloc_page pg)"
    by (simp_all add: test_page_kmalloc_page_def set_page_kmalloc_page_def clear_page_kmalloc_page_def
        bit_simps PG_KMALLOC_PAGE_def)
qed

end
