(* ===== verification/Buddy.thy ===== *)
theory Buddy
  imports Page
begin

text \<open>
  mm/mm.c: the buddy allocator.  The state is the page array, the free lists by order and
  the counter of free pages; the section under \<open>Buddy.lock\<close> is one step.

  \<open>buddy_inv\<close> says that the managed pages are partitioned into aligned blocks of power-of-two size whose
  heads carry the order, that the free lists hold exactly the heads with reference count 0,
  that no two free buddies of one order coexist, and that the counter is the number of free
  pages.  \<open>alloc_pages\<close> and \<open>free_pages\<close> keep it; the last section shows what goes wrong when the
  stores that \<open>buddy_alloc\<close> makes after it has released the lock are delayed.
\<close>

unbundle bit_operations_syntax

section \<open>Definitions\<close>

record mm =
  mm_pages :: pages
  mm_free :: u64
  mm_lists :: "nat \<Rightarrow> nat list"

definition upd_page :: "nat \<Rightarrow> (page \<Rightarrow> page) \<Rightarrow> mm \<Rightarrow> mm" where
  "upd_page i f s = s\<lparr>mm_pages := (mm_pages s)(i := f (mm_pages s i))\<rparr>"

definition set_order :: "nat \<Rightarrow> nat \<Rightarrow> mm \<Rightarrow> mm" where
  "set_order i k = upd_page i (\<lambda>pg. pg\<lparr>pg_order := k\<rparr>)"

definition push_free :: "nat \<Rightarrow> nat \<Rightarrow> mm \<Rightarrow> mm" where
  "push_free i k s = s\<lparr>mm_lists := (mm_lists s)(k := i # mm_lists s k)\<rparr>"

text \<open>\<open>list_del_init\<close> of a page's node: it leaves the list it is on, if it is on one.\<close>

definition unlink_free :: "nat \<Rightarrow> mm \<Rightarrow> mm" where
  "unlink_free i s = s\<lparr>mm_lists := (\<lambda>k. remove1 i (mm_lists s k))\<rparr>"

definition find_buddy :: "nat \<Rightarrow> nat \<Rightarrow> nat option" where
  "find_buddy index order =
    (let buddy_index = index XOR 2 ^ order in if buddy_index \<ge> ALL_PFN then None else Some buddy_index)"

definition get_free_pages :: "mm \<Rightarrow> u32" where
  "get_free_pages s = ucast (mm_free s)"

text \<open>The splitting loop of \<open>buddy_alloc\<close>, from level \<open>j\<close> down to \<open>order\<close>.\<close>

fun split_loop :: "nat \<Rightarrow> nat \<Rightarrow> nat \<Rightarrow> mm \<Rightarrow> mm kres" where
  "split_loop page order 0 s = Inr s"
| "split_loop page order (Suc j) s =
    (if Suc j > order then
       (case find_buddy page j of
          None \<Rightarrow> Inl (Panic ''BUDDY!'')
        | Some buddy_page \<Rightarrow>
            if \<not> page_is_free (mm_pages s buddy_page) then Inl (Panic ''BUDDY!'')
            else split_loop page order j (push_free buddy_page j (set_order buddy_page j s)))
     else Inr s)"

text \<open>The search loop of \<open>buddy_alloc\<close>, under the lock.\<close>

function alloc_loop :: "nat \<Rightarrow> nat \<Rightarrow> mm \<Rightarrow> (nat \<times> mm) kres" where
  "alloc_loop order i s =
    (if i < MAX_LEVEL then
       (case mm_lists s i of
          [] \<Rightarrow> alloc_loop order (i + 1) s
        | page # rest \<Rightarrow>
            kbind (split_loop page order i (s\<lparr>mm_lists := (mm_lists s)(i := rest)\<rparr>)) (\<lambda>s1.
            if page_count (mm_pages s1 page) \<noteq> 0 then Inl (Panic ''buddy_alloc page_count'')
            else Inr (page, s1\<lparr>mm_free := mm_free s1 - 2 ^ order\<rparr>)))
     else Inl (Panic ''BUDDY!''))"
  by pat_completeness auto
termination
  by (relation "measure (\<lambda>(order, i, s). MAX_LEVEL - i)") auto

declare alloc_loop.simps [simp del]

text \<open>After the lock is released the order is stored in the page.\<close>

definition buddy_alloc :: "int \<Rightarrow> mm \<Rightarrow> (nat option \<times> mm) kres" where
  "buddy_alloc order s =
    (if order < 0 \<or> order > int MAX_LEVEL_INDEX then Inr (None, s)
     else kbind (alloc_loop (nat order) (nat order) s) (\<lambda>(page, s1). Inr (Some page, set_order page (nat order) s1)))"

text \<open>The merging loop of \<open>buddy_free\<close>.\<close>

function merge_loop :: "nat \<Rightarrow> nat \<Rightarrow> mm \<Rightarrow> nat \<times> nat \<times> mm" where
  "merge_loop page level s =
    (if level < MAX_LEVEL_INDEX then
       (case find_buddy page level of
          None \<Rightarrow> (page, level, s)
        | Some buddy_page \<Rightarrow>
            if \<not> page_is_free (mm_pages s buddy_page) \<or> pg_order (mm_pages s buddy_page) \<noteq> level
            then (page, level, s)
            else merge_loop (min page buddy_page) (level + 1)
                   (unlink_free buddy_page (set_order buddy_page MAX_LEVEL (set_order page MAX_LEVEL s))))
     else (page, level, s))"
  by pat_completeness auto
termination
  by (relation "measure (\<lambda>(page, level, s). MAX_LEVEL_INDEX - level)") auto

declare merge_loop.simps [simp del]

definition buddy_free :: "nat \<Rightarrow> mm \<Rightarrow> mm kres" where
  "buddy_free pg s =
    kbind (kassert (page_count (mm_pages s pg) = 0) ''buddy_free'') (\<lambda>_.
    let order = pg_order (mm_pages s pg);
        (page, level, s1) = merge_loop pg order s;
        s2 = push_free page level (set_order page level s1)
    in Inr (s2\<lparr>mm_free := mm_free s2 + 2 ^ order\<rparr>))"

function init_loop :: "nat \<Rightarrow> mm \<Rightarrow> mm" where
  "init_loop i s =
    (if i + 2 ^ MAX_LEVEL_INDEX \<le> ALL_PFN then
       init_loop (i + 2 ^ MAX_LEVEL_INDEX)
         (let s1 = set_order i MAX_LEVEL_INDEX (push_free i MAX_LEVEL_INDEX s)
          in s1\<lparr>mm_free := mm_free s1 + 2 ^ MAX_LEVEL_INDEX\<rparr>)
     else s)"
  by pat_completeness auto
termination
  by (relation "measure (\<lambda>(i, s). ALL_PFN - i)") (auto simp: MAX_LEVEL_INDEX_def)

declare init_loop.simps [simp del]

definition start_pfn :: "nat \<Rightarrow> nat" where
  "start_pfn kernel_pfn_end =
    (kernel_pfn_end + 2 ^ MAX_LEVEL_INDEX) div 2 ^ MAX_LEVEL_INDEX * 2 ^ MAX_LEVEL_INDEX"

definition buddy_init :: "nat \<Rightarrow> mm \<Rightarrow> mm" where
  "buddy_init kernel_pfn_end s =
    init_loop (start_pfn kernel_pfn_end) (s\<lparr>mm_free := 0, mm_lists := (\<lambda>_. [])\<rparr>)"

text \<open>\<open>alloc_pages\<close> takes the reference without a check: on an invalid order it dereferences the
  null page.\<close>

definition alloc_pages :: "int \<Rightarrow> mm \<Rightarrow> (nat \<times> mm) kres" where
  "alloc_pages order s = kbind (buddy_alloc order s) (\<lambda>(r, s1). case r of
      None \<Rightarrow> Inl (Fault ''get_page NULL'')
    | Some page \<Rightarrow> Inr (page, upd_page page get_page s1))"

definition alloc_page :: "mm \<Rightarrow> (nat \<times> mm) kres" where
  "alloc_page s = alloc_pages 0 s"

definition free_pages :: "nat \<Rightarrow> mm \<Rightarrow> mm kres" where
  "free_pages pg s =
    kbind (kassert (page_count (mm_pages s pg) > 0) ''free_pages page_count'') (\<lambda>_.
    let s1 = upd_page pg (\<lambda>p. snd (put_page_test p)) s
    in if fst (put_page_test (mm_pages s pg)) then buddy_free pg s1 else Inr s1)"

text \<open>\<open>__alloc_pages\<close> and \<open>__free_pages\<close>: the same by physical address; address 0 is the null pointer.\<close>

definition alloc_pages_pa :: "int \<Rightarrow> mm \<Rightarrow> (nat \<times> mm) kres" where
  "alloc_pages_pa order s = kbind (alloc_pages order s) (\<lambda>(page, s1). Inr (I2PA page, s1))"

definition free_pages_pa :: "nat \<Rightarrow> mm \<Rightarrow> mm kres" where
  "free_pages_pa pa s = (if pa = 0 then Inr s else free_pages (PA2I pa) s)"

text \<open>The page and buddy part of \<open>mm_init\<close>.\<close>

definition mm_init :: "nat \<Rightarrow> mm \<Rightarrow> mm" where
  "mm_init kernel_pfn_end s =
    buddy_init kernel_pfn_end (s\<lparr>mm_pages := first_all_page_init kernel_pfn_end (mm_pages s)\<rparr>)"

section \<open>Buddies of aligned blocks\<close>

definition blk :: "nat \<Rightarrow> nat \<Rightarrow> nat set" where
  "blk p k = {p..<p + 2 ^ k}"

lemma xor_aligned:
  assumes "2 ^ k dvd (p::nat)"
  shows "p XOR 2 ^ k = (if 2 ^ Suc k dvd p then p + 2 ^ k else p - 2 ^ k)"
proof -
  obtain m where m: "p = 2 ^ k * m" using assms by blast
  have "p XOR 2 ^ k = push_bit k m XOR push_bit k 1" by (simp add: m push_bit_eq_mult mult.commute)
  also have "\<dots> = push_bit k (m XOR 1)" by (rule push_bit_xor [symmetric])
  also have "m XOR 1 = (if even m then m + 1 else m - 1)" unfolding xor_one_eq by simp
  finally show ?thesis by (auto simp: m algebra_simps push_bit_eq_mult)
qed


text \<open>The pair of an aligned block and its buddy: the lower one is aligned for the next order, the
  upper one follows it.\<close>

lemma buddy_pair:
  assumes "2 ^ k dvd (p::nat)" "b = p XOR 2 ^ k"
  shows "2 ^ Suc k dvd min p b" "max p b = min p b + 2 ^ k" "2 ^ k dvd b" "b \<noteq> p" "b XOR 2 ^ k = p"
proof -
  obtain m where m: "p = 2 ^ k * m" using assms(1) by blast
  have d: "2 ^ Suc k dvd p \<longleftrightarrow> even m" by (simp add: m)
  have "2 ^ Suc k dvd min p b \<and> max p b = min p b + 2 ^ k \<and> 2 ^ k dvd b \<and> b \<noteq> p"
  proof (cases "even m")
    case True
    then have "b = p + 2 ^ k" using assms d by (simp add: xor_aligned)
    then show ?thesis using True assms(1) d by simp
  next
    case False
    then obtain c where c: "m = Suc c" "even c" by (cases m) auto
    then have "p = 2 ^ k * c + 2 ^ k" by (simp add: m)
    moreover have "b = p - 2 ^ k" using assms d False by (simp add: xor_aligned)
    ultimately show ?thesis using c(2) by simp
  qed
  then show "2 ^ Suc k dvd min p b" "max p b = min p b + 2 ^ k" "2 ^ k dvd b" "b \<noteq> p" by auto
  show "b XOR 2 ^ k = p" by (simp add: assms(2) xor.assoc)
qed

lemma blk_split: "blk p (Suc k) = blk p k \<union> blk (p + 2 ^ k) k" "blk p k \<inter> blk (p + 2 ^ k) k = {}"
  by (auto simp: blk_def)

lemma blk_self [simp]: "p \<in> blk p k"
  by (simp add: blk_def)

text \<open>An aligned block that reaches into another region aligned for its order lies inside it.\<close>

lemma blk_within:
  assumes "2 ^ k dvd p" "2 ^ k dvd n" "p < n"
  shows "p + 2 ^ k \<le> (n::nat)"
proof -
  obtain a c where "p = 2 ^ k * a" "n = 2 ^ k * c" using assms by blast
  with assms(3) have "a + 1 \<le> c" by simp
  then have "2 ^ k * (a + 1) \<le> 2 ^ k * c" by (rule mult_le_mono2)
  then show ?thesis by (simp add: \<open>p = _\<close> \<open>n = _\<close>)
qed

lemma pow_dvd_1024: "k \<le> 10 \<Longrightarrow> 1024 dvd n \<Longrightarrow> 2 ^ k dvd (n::nat)"
  using le_imp_power_dvd [of k 10 "2::nat"] by (auto intro: dvd_trans)


section \<open>Partition into blocks\<close>

text \<open>\<open>ord x\<close> is the order stored in page x: at most 10 for the head of a block, 11 for every other page.\<close>

definition head :: "nat \<Rightarrow> (nat \<Rightarrow> nat) \<Rightarrow> nat \<Rightarrow> bool" where
  "head lo ord p = (lo \<le> p \<and> p < ALL_PFN \<and> ord p \<le> 10)"

definition part :: "nat \<Rightarrow> (nat \<Rightarrow> nat) \<Rightarrow> bool" where
  "part lo ord = (1024 dvd lo \<and> lo \<le> ALL_PFN \<and> (\<forall>x<ALL_PFN. ord x \<le> 11) \<and> (\<forall>x<lo. ord x = 11) \<and>
    (\<forall>p. head lo ord p \<longrightarrow> 2 ^ ord p dvd p) \<and>
    (\<forall>p q. head lo ord p \<and> head lo ord q \<and> p \<noteq> q \<longrightarrow> blk p (ord p) \<inter> blk q (ord q) = {}) \<and>
    (\<forall>x. lo \<le> x \<and> x < ALL_PFN \<longrightarrow> (\<exists>p. head lo ord p \<and> x \<in> blk p (ord p))))"

lemma ALL_PFN_dvd: "1024 dvd ALL_PFN"
  by (simp add: ALL_PFN_def)

lemma part_head_blk:
  assumes "part lo ord" "head lo ord p"
  shows "2 ^ ord p dvd p" "blk p (ord p) \<subseteq> {lo..<ALL_PFN}"
proof -
  show d: "2 ^ ord p dvd p" using assms by (simp add: part_def)
  have "2 ^ ord p dvd ALL_PFN" using assms(2) ALL_PFN_dvd by (auto simp: head_def intro: pow_dvd_1024)
  then have "p + 2 ^ ord p \<le> ALL_PFN" using d assms(2) by (intro blk_within) (auto simp: head_def)
  then show "blk p (ord p) \<subseteq> {lo..<ALL_PFN}" using assms(2) by (auto simp: blk_def head_def)
qed

lemma part_disjoint:
  "part lo ord \<Longrightarrow> head lo ord p \<Longrightarrow> head lo ord q \<Longrightarrow> p \<noteq> q \<Longrightarrow> x \<in> blk p (ord p) \<Longrightarrow> x \<notin> blk q (ord q)"
  unfolding part_def by (meson disjoint_iff)

text \<open>Pages strictly inside a block are not heads.\<close>

lemma part_inside:
  assumes "part lo ord" "head lo ord p" "x \<in> blk p (ord p)" "x \<noteq> p"
  shows "ord x = 11"
proof (rule ccontr)
  assume "ord x \<noteq> 11"
  moreover have "x < ALL_PFN" using part_head_blk(2) [OF assms(1,2)] assms(3) by auto
  then have "ord x \<le> 11" using assms(1) by (simp add: part_def)
  ultimately have "head lo ord x" using part_head_blk(2) [OF assms(1,2)] assms(3) by (auto simp: head_def)
  then show False using part_disjoint [OF assms(1,2), of x x] assms(3,4) by auto
qed

lemma buddy_managed:
  assumes "1024 dvd lo" "lo \<le> p" "p < ALL_PFN" "2 ^ k dvd p" "k < 10"
  shows "lo \<le> p XOR 2 ^ k" "p XOR 2 ^ k < ALL_PFN"
proof -
  let ?b = "p XOR 2 ^ k"
  have al: "2 ^ Suc k dvd lo" "2 ^ Suc k dvd ALL_PFN"
    using pow_dvd_1024 [of "Suc k"] assms(1,5) ALL_PFN_dvd by simp_all
  have pr: "2 ^ Suc k dvd min p ?b" "max p ?b = min p ?b + 2 ^ k"
    using buddy_pair [OF assms(4) refl] by auto
  have pos: "(0::nat) < 2 ^ k" by simp
  have "min p ?b < ALL_PFN" using assms(3) by auto
  then have "min p ?b + 2 ^ Suc k \<le> ALL_PFN" using pr(1) al(2) by (intro blk_within)
  then have "max p ?b < ALL_PFN" using pr(2) pos unfolding power_Suc by linarith
  then show "?b < ALL_PFN" by simp
  show "lo \<le> ?b"
  proof (rule ccontr)
    assume "\<not> lo \<le> ?b"
    then have "min p ?b < lo" by auto
    then have "min p ?b + 2 ^ Suc k \<le> lo" using pr(1) al(1) by (intro blk_within)
    then have "max p ?b < lo" using pr(2) pos unfolding power_Suc by linarith
    then show False using assms(2) by simp
  qed
qed

text \<open>Splitting a block into two halves, and merging two buddies.\<close>

lemma part_split:
  assumes "part lo ord" "head lo ord p" "ord p = Suc k"
  shows "part lo (ord(p := k, p + 2 ^ k := k))" "ord (p + 2 ^ k) = 11"
    "head lo (ord(p := k, p + 2 ^ k := k)) (p + 2 ^ k)" "p XOR 2 ^ k = p + 2 ^ k"
proof -
  let ?b = "p + 2 ^ k" and ?ord = "ord(p := k, p + 2 ^ k := k)"
  have d: "2 ^ Suc k dvd p" "blk p (Suc k) \<subseteq> {lo..<ALL_PFN}" using part_head_blk [OF assms(1,2)] assms(3) by auto
  then have d': "2 ^ k dvd p" by (metis dvd_mult_right power_Suc)
  then show "p XOR 2 ^ k = ?b" using d(1) by (simp add: xor_aligned)
  have bin: "?b \<in> blk p (Suc k)" by (simp add: blk_def)
  show b11: "ord ?b = 11" using part_inside [OF assms(1,2)] bin assms(3) by simp
  have brange: "lo \<le> ?b" "?b < ALL_PFN" using bin d(2) by auto
  then show "head lo ?ord ?b" using assms(2,3) by (auto simp: head_def)
  have heads: "head lo ?ord q \<longleftrightarrow> q = p \<or> q = ?b \<or> (q \<noteq> p \<and> q \<noteq> ?b \<and> head lo ord q)" for q
    using assms(2,3) brange by (auto simp: head_def)
  have dis: "blk q (ord q) \<inter> blk p (Suc k) = {}" if "head lo ord q" "q \<noteq> p" for q
    using part_disjoint [OF assms(1) that(1) assms(2) that(2)] assms(3) by auto
  have new: "blk q (?ord q) \<subseteq> blk p (Suc k)" if "q = p \<or> q = ?b" for q
    using that blk_split(1) [of p k] by auto
  have old: "head lo ord q \<and> q \<noteq> p \<and> blk q (?ord q) = blk q (ord q)" if "head lo ?ord q" "\<not> (q = p \<or> q = ?b)" for q
    using that unfolding heads by auto
  have pair: "blk q (?ord q) \<inter> blk r (?ord r) = {}" if "head lo ?ord q" "head lo ?ord r" "q \<noteq> r" for q r
  proof (cases "q = p \<or> q = ?b"; cases "r = p \<or> r = ?b")
    assume "q = p \<or> q = ?b" "r = p \<or> r = ?b"
    then show ?thesis using that(3) blk_split(2) [of p k] by (auto simp: Int_commute)
  next
    assume "q = p \<or> q = ?b" and r: "\<not> (r = p \<or> r = ?b)"
    then show ?thesis using new [of q] old [OF that(2) r] dis [of r] by blast
  next
    assume q: "\<not> (q = p \<or> q = ?b)" and "r = p \<or> r = ?b"
    then show ?thesis using new [of r] old [OF that(1) q] dis [of q] by blast
  next
    assume q: "\<not> (q = p \<or> q = ?b)" and r: "\<not> (r = p \<or> r = ?b)"
    then show ?thesis using old [OF that(1) q] old [OF that(2) r] part_disjoint [OF assms(1), of q r] that(3)
      by auto
  qed
  have cover: "\<exists>q. head lo ?ord q \<and> x \<in> blk q (?ord q)" if x: "lo \<le> x" "x < ALL_PFN" for x
  proof -
    obtain q where q: "head lo ord q" "x \<in> blk q (ord q)" using assms(1) x unfolding part_def by blast
    show ?thesis
    proof (cases "q = p")
      case True
      then have "x \<in> blk p k \<or> x \<in> blk ?b k" using q assms(3) blk_split by auto
      then show ?thesis unfolding heads
        by (elim disjE) (rule exI [of _ p], simp, rule exI [of _ ?b], simp)
    next
      case False
      moreover have "q \<noteq> ?b" using q(1) b11 by (auto simp: head_def)
      ultimately show ?thesis using q unfolding heads by (intro exI [of _ q]) auto
    qed
  qed
  have al: "2 ^ ?ord q dvd q" if "head lo ?ord q" for q
    using that d' part_head_blk(1) [OF assms(1), of q] unfolding heads by auto
  have "1024 dvd lo" "lo \<le> ALL_PFN" "\<forall>x<ALL_PFN. ?ord x \<le> 11" "\<forall>x<lo. ?ord x = 11"
    using assms brange by (auto simp: part_def head_def)
  then show "part lo ?ord" unfolding part_def using al pair cover by blast
qed


lemma part_merge:
  assumes "part lo ord" "head lo ord p" "head lo ord b" "b = p XOR 2 ^ k" "ord p = k" "ord b = k" "k < 10"
  shows "part lo (ord(p := 11, b := 11, min p b := Suc k))"
    "head lo (ord(p := 11, b := 11, min p b := Suc k)) (min p b)"
proof -
  let ?m = "min p b" and ?ord = "ord(p := 11, b := 11, min p b := Suc k)"
  have d: "2 ^ k dvd p" using part_head_blk [OF assms(1,2)] assms(5) by simp
  note pr = buddy_pair [OF d assms(4)]
  have range: "lo \<le> ?m" "?m < ALL_PFN" using assms(2,3) by (auto simp: head_def)
  then show hm: "head lo ?ord ?m" using assms(7) by (simp add: head_def)
  have heads: "head lo ?ord q \<longleftrightarrow> q = ?m \<or> (q \<noteq> p \<and> q \<noteq> b \<and> head lo ord q)" for q
    using range assms(7) by (auto simp: head_def)
  have un: "blk ?m (Suc k) = blk p (ord p) \<union> blk b (ord b)"
    using blk_split(1) [of ?m k] pr(2) assms(5,6) by (auto simp: min_def max_def split: if_splits)
  have old: "head lo ord q \<and> blk q (?ord q) = blk q (ord q) \<and> blk q (ord q) \<inter> blk ?m (Suc k) = {}"
    if "head lo ?ord q" "q \<noteq> ?m" for q
  proof -
    have q: "q \<noteq> p" "q \<noteq> b" "head lo ord q" using that unfolding heads by auto
    then show ?thesis using part_disjoint [OF assms(1) q(3)] assms(2,3) that(2) un by auto
  qed
  have pair: "blk q (?ord q) \<inter> blk r (?ord r) = {}" if "head lo ?ord q" "head lo ?ord r" "q \<noteq> r" for q r
  proof (cases "q = ?m"; cases "r = ?m")
    assume q: "q \<noteq> ?m" and r: "r \<noteq> ?m"
    then show ?thesis using old [OF that(1) q] old [OF that(2) r] part_disjoint [OF assms(1), of q r] that(3) by auto
  qed (use that old [of q] old [of r] in auto)
  have cover: "\<exists>q. head lo ?ord q \<and> x \<in> blk q (?ord q)" if x: "lo \<le> x" "x < ALL_PFN" for x
  proof -
    obtain q where q: "head lo ord q" "x \<in> blk q (ord q)" using assms(1) x unfolding part_def by blast
    show ?thesis
    proof (cases "q = p \<or> q = b")
      case True
      then have "x \<in> blk ?m (Suc k)" using q un by auto
      then show ?thesis using hm by (intro exI [of _ ?m]) simp
    next
      case False
      then have "q \<noteq> ?m" by (auto simp: min_def)
      then show ?thesis using q False unfolding heads by (intro exI [of _ q]) auto
    qed
  qed
  have al: "2 ^ ?ord q dvd q" if "head lo ?ord q" for q
    using that pr(1) part_head_blk(1) [OF assms(1), of q] unfolding heads by auto
  have "1024 dvd lo" "lo \<le> ALL_PFN" "\<forall>x<ALL_PFN. ?ord x \<le> 11" "\<forall>x<lo. ?ord x = 11"
    using assms range by (auto simp: part_def)
  then show "part lo ?ord" unfolding part_def using al pair cover by blast
qed


section \<open>The invariant\<close>

definition ord_of :: "mm \<Rightarrow> nat \<Rightarrow> nat" where
  "ord_of s x = pg_order (mm_pages s x)"

definition ref_of :: "mm \<Rightarrow> nat \<Rightarrow> u32" where
  "ref_of s x = pg_refcnt (mm_pages s x)"

definition free_total :: "(nat \<Rightarrow> nat list) \<Rightarrow> nat" where
  "free_total L = (\<Sum>k\<le>10. 2 ^ k * length (L k))"

text \<open>\<open>H\<close> is the set of free heads that are held outside of the lists by an operation in progress.\<close>

definition binv :: "nat \<Rightarrow> nat set \<Rightarrow> (nat \<Rightarrow> nat) \<Rightarrow> (nat \<Rightarrow> u32) \<Rightarrow> (nat \<Rightarrow> nat list) \<Rightarrow> bool" where
  "binv lo H ord ref L = (part lo ord \<and>
    (\<forall>x. lo \<le> x \<and> x < ALL_PFN \<and> ord x = 11 \<longrightarrow> ref x = 0) \<and>
    (\<forall>k\<le>10. distinct (L k) \<and> set (L k) = {p. head lo ord p \<and> ord p = k \<and> ref p = 0 \<and> p \<notin> H}) \<and>
    (\<forall>k<10. \<forall>p\<in>set (L k). p XOR 2 ^ k \<notin> set (L k)))"

definition buddy_inv :: "nat \<Rightarrow> mm \<Rightarrow> bool" where
  "buddy_inv lo s = (binv lo {} (ord_of s) (ref_of s) (mm_lists s) \<and>
    mm_free s = of_nat (free_total (mm_lists s)))"

text \<open>The state inside an operation: block \<open>p\<close> of order \<open>j\<close> is held; the order stored in its page may be stale.\<close>

definition hinv :: "nat \<Rightarrow> nat \<Rightarrow> nat \<Rightarrow> mm \<Rightarrow> bool" where
  "hinv lo p j s = (binv lo {p} ((ord_of s)(p := j)) (ref_of s) (mm_lists s) \<and>
    lo \<le> p \<and> p < ALL_PFN \<and> j \<le> 10 \<and> ref_of s p = 0)"

text \<open>The allocated blocks.\<close>

definition allocated :: "nat \<Rightarrow> mm \<Rightarrow> (nat \<times> nat) set" where
  "allocated lo s = {(p, ord_of s p) |p. head lo (ord_of s) p \<and> ref_of s p \<noteq> 0}"

lemma allocated_iff: "(q, l) \<in> allocated lo s \<longleftrightarrow> head lo (ord_of s) q \<and> ref_of s q \<noteq> 0 \<and> l = ord_of s q"
  by (auto simp: allocated_def)

named_theorems mm_simps \<open>reading the allocator state after a write\<close>

lemma mm_upd_simps [mm_simps]:
  "ord_of (set_order i k s) = (ord_of s)(i := k)" "ref_of (set_order i k s) = ref_of s"
  "mm_lists (set_order i k s) = mm_lists s" "mm_free (set_order i k s) = mm_free s"
  "ord_of (push_free i k s) = ord_of s" "ref_of (push_free i k s) = ref_of s"
  "mm_lists (push_free i k s) = (mm_lists s)(k := i # mm_lists s k)" "mm_free (push_free i k s) = mm_free s"
  "ord_of (unlink_free i s) = ord_of s" "ref_of (unlink_free i s) = ref_of s"
  "mm_lists (unlink_free i s) = (\<lambda>k. remove1 i (mm_lists s k))" "mm_free (unlink_free i s) = mm_free s"
  "ord_of (s\<lparr>mm_lists := L\<rparr>) = ord_of s" "ref_of (s\<lparr>mm_lists := L\<rparr>) = ref_of s"
  "ord_of (s\<lparr>mm_free := f\<rparr>) = ord_of s" "ref_of (s\<lparr>mm_free := f\<rparr>) = ref_of s"
  by (auto simp: ord_of_def ref_of_def set_order_def upd_page_def push_free_def unlink_free_def fun_eq_iff)

lemma mm_ref_simps [mm_simps]:
  "ord_of (upd_page i get_page s) = ord_of s" "ref_of (upd_page i get_page s) = (ref_of s)(i := ref_of s i + 1)"
  "ord_of (upd_page i (\<lambda>pg. snd (put_page_test pg)) s) = ord_of s"
  "ref_of (upd_page i (\<lambda>pg. snd (put_page_test pg)) s) = (ref_of s)(i := ref_of s i - 1)"
  "mm_lists (upd_page i f s) = mm_lists s" "mm_free (upd_page i f s) = mm_free s"
  by (auto simp: ord_of_def ref_of_def upd_page_def fun_eq_iff)

lemma free_total_upd:
  assumes "k \<le> 10"
  shows "free_total (L(k := xs)) + 2 ^ k * length (L k) = free_total L + 2 ^ k * length xs"
proof -
  have "(\<Sum>i\<le>10. 2 ^ i * length ((L(k := xs)) i)) =
    2 ^ k * length xs + (\<Sum>i\<in>{..10} - {k}. 2 ^ i * length ((L(k := xs)) i))"
    using assms by (subst sum.remove [of _ k]) auto
  moreover have "(\<Sum>i\<le>10. 2 ^ i * length (L i)) = 2 ^ k * length (L k) + (\<Sum>i\<in>{..10} - {k}. 2 ^ i * length (L i))"
    using assms by (subst sum.remove [of _ k]) auto
  moreover have "(\<Sum>i\<in>{..10} - {k}. 2 ^ i * length ((L(k := xs)) i)) = (\<Sum>i\<in>{..10} - {k}. 2 ^ i * length (L i))"
    by (rule sum.cong) auto
  ultimately show ?thesis by (simp add: free_total_def)
qed

lemma free_total_push: "k \<le> 10 \<Longrightarrow> free_total (L(k := x # L k)) = free_total L + 2 ^ k"
  using free_total_upd [of k L "x # L k"] by simp

lemma free_total_remove:
  assumes "k \<le> 10" "x \<in> set (L k)" "\<And>l. l \<noteq> k \<Longrightarrow> l \<le> 10 \<Longrightarrow> x \<notin> set (L l)"
  shows "free_total (\<lambda>l. remove1 x (L l)) + 2 ^ k = free_total L"
proof -
  have "free_total (\<lambda>l. remove1 x (L l)) = free_total (L(k := remove1 x (L k)))"
    unfolding free_total_def by (rule sum.cong) (use assms(3) in \<open>auto simp: remove1_idem\<close>)
  moreover obtain n where n: "length (L k) = Suc n" using assms(2) by (cases "L k") auto
  moreover from n have "length (remove1 x (L k)) = n" using assms(2) by (simp add: length_remove1)
  ultimately show ?thesis using free_total_upd [OF assms(1), of L "remove1 x (L k)"] by simp
qed


section \<open>Steps of the operations\<close>

lemma binv_list:
  "binv lo H ord ref L \<Longrightarrow> k \<le> 10 \<Longrightarrow> p \<in> set (L k) \<longleftrightarrow> head lo ord p \<and> ord p = k \<and> ref p = 0 \<and> p \<notin> H"
  by (auto simp: binv_def)

lemma binvI:
  assumes "part lo ord" "\<And>x. lo \<le> x \<Longrightarrow> x < ALL_PFN \<Longrightarrow> ord x = 11 \<Longrightarrow> ref x = 0"
    and "\<And>k. k \<le> 10 \<Longrightarrow> distinct (L k)"
    and "\<And>k p. k \<le> 10 \<Longrightarrow> p \<in> set (L k) \<longleftrightarrow> head lo ord p \<and> ord p = k \<and> ref p = 0 \<and> p \<notin> H"
    and "\<And>k p. k < 10 \<Longrightarrow> p \<in> set (L k) \<Longrightarrow> p XOR 2 ^ k \<notin> set (L k)"
  shows "binv lo H ord ref L"
  unfolding binv_def using assms by blast

lemma binv_coalesced:
  "binv lo H ord ref L \<Longrightarrow> k < 10 \<Longrightarrow> p \<in> set (L k) \<Longrightarrow> p XOR 2 ^ k \<notin> set (L k)"
  unfolding binv_def by blast

lemma xor_cancel: "(p::nat) XOR 2 ^ k = q \<longleftrightarrow> q XOR 2 ^ k = p"
  by (metis xor.assoc xor.right_neutral xor_self_eq)

text \<open>Taking the first block of a list holds it.\<close>

lemma hold_pop:
  assumes "binv lo {} (ord_of s) (ref_of s) (mm_lists s)" "mm_lists s i = p # rest" "i \<le> 10"
  shows "hinv lo p i (s\<lparr>mm_lists := (mm_lists s)(i := rest)\<rparr>)"
    "free_total ((mm_lists s)(i := rest)) + 2 ^ i = free_total (mm_lists s)"
proof -
  have p: "head lo (ord_of s) p" "ord_of s p = i" "ref_of s p = 0"
    using binv_list [OF assms(1,3), of p] assms(2) by auto
  have "binv lo {p} (ord_of s) (ref_of s) ((mm_lists s)(i := rest))"
  proof (rule binvI)
    show "part lo (ord_of s)" using assms(1) by (simp add: binv_def)
    have d: "distinct (mm_lists s k)" if "k \<le> 10" for k using assms(1) that by (simp add: binv_def)
    then show "distinct (((mm_lists s)(i := rest)) k)" if "k \<le> 10" for k using that assms(2) d [of i] by auto
    show "q \<in> set (((mm_lists s)(i := rest)) k) \<longleftrightarrow>
        head lo (ord_of s) q \<and> ord_of s q = k \<and> ref_of s q = 0 \<and> q \<notin> {p}" if "k \<le> 10" for k q
      using binv_list [OF assms(1) that, of q] assms(2) p d [of i] assms(3) by auto
    show "q XOR 2 ^ k \<notin> set (((mm_lists s)(i := rest)) k)"
      if "k < 10" "q \<in> set (((mm_lists s)(i := rest)) k)" for k q
      using binv_coalesced [OF assms(1), of k q] assms(2) that by (auto split: if_splits)
  qed (use assms(1) in \<open>simp add: binv_def\<close>)
  moreover have "(ord_of s)(p := i) = ord_of s" using p(2) by auto
  ultimately show "hinv lo p i (s\<lparr>mm_lists := (mm_lists s)(i := rest)\<rparr>)"
    using p assms(3) by (simp add: hinv_def mm_simps head_def)
  show "free_total ((mm_lists s)(i := rest)) + 2 ^ i = free_total (mm_lists s)"
    using free_total_upd [OF assms(3), of "mm_lists s" rest] assms(2) by simp
qed

text \<open>Splitting a held block puts its upper half on the list of the next lower order.\<close>

lemma hold_split:
  assumes "hinv lo p (Suc k) s"
  shows "find_buddy p k = Some (p + 2 ^ k)" "ref_of s (p + 2 ^ k) = 0"
    "hinv lo p k (push_free (p + 2 ^ k) k (set_order (p + 2 ^ k) k s))"
proof -
  let ?b = "p + 2 ^ k" and ?ord = "(ord_of s)(p := Suc k)"
  let ?ord' = "(ord_of s)(?b := k, p := k)" and ?L = "(mm_lists s)(k := ?b # mm_lists s k)"
  have inv: "binv lo {p} ?ord (ref_of s) (mm_lists s)" and k: "k < 10" and r: "ref_of s p = 0"
    using assms by (auto simp: hinv_def)
  then have pt: "part lo ?ord" by (simp add: binv_def)
  have hp: "head lo ?ord p" using assms by (simp add: hinv_def head_def)
  have eq: "?ord(p := k, ?b := k) = ?ord'" by auto
  note sp = part_split [OF pt hp, of k, unfolded eq, simplified]
  have b: "lo \<le> ?b" "?b < ALL_PFN" using sp(3) by (auto simp: head_def)
  then show "find_buddy p k = Some ?b" using sp(4) by (simp add: find_buddy_def)
  have ob: "ord_of s ?b = 11" using sp(2) by simp
  show rb: "ref_of s ?b = 0" using inv b ob by (auto simp: binv_def)
  have list: "q \<in> set (?L l) \<longleftrightarrow> head lo ?ord' q \<and> ?ord' q = l \<and> ref_of s q = 0 \<and> q \<notin> {p}" if "l \<le> 10" for l q
    using binv_list [OF inv that, of q] sp(3) rb ob that by (auto simp: head_def)
  have "binv lo {p} ?ord' (ref_of s) ?L"
  proof (rule binvI)
    show "part lo ?ord'" by (rule sp(1))
    show "ref_of s x = 0" if "lo \<le> x" "x < ALL_PFN" "?ord' x = 11" for x
      using inv that k by (auto simp: binv_def split: if_splits)
    show "distinct (?L l)" if "l \<le> 10" for l
      using inv binv_list [OF inv, of k ?b] ob that by (auto simp: binv_def)
    have "p \<notin> set (mm_lists s k)" using binv_list [OF inv, of k p] k by simp
    then show "q XOR 2 ^ l \<notin> set (?L l)" if "l < 10" "q \<in> set (?L l)" for l q
      using binv_coalesced [OF inv that(1), of q] that sp(4) xor_cancel [of p k ?b] xor_cancel [of q k ?b]
      by (auto split: if_splits)
  qed (rule list)
  then show "hinv lo p k (push_free ?b k (set_order ?b k s))"
    using assms k by (simp add: hinv_def mm_simps)
qed


lemma page_free_ref: "page_is_free (mm_pages s x) \<longleftrightarrow> ref_of s x = 0"
  "page_count (mm_pages s x) = 0 \<longleftrightarrow> ref_of s x = 0"
  "pg_refcnt (mm_pages s x) = ref_of s x" "pg_order (mm_pages s x) = ord_of s x"
  by (simp_all add: ref_of_def ord_of_def page_count_def signed_eq_0_iff)

lemma split_loop_hold:
  assumes "hinv lo p j s" "order \<le> j"
  shows "\<exists>t. split_loop p order j s = Inr t \<and> hinv lo p order t \<and>
    free_total (mm_lists t) + 2 ^ order = free_total (mm_lists s) + 2 ^ j \<and> mm_free t = mm_free s \<and>
    ref_of t = ref_of s \<and> (\<forall>x. ref_of s x \<noteq> 0 \<longrightarrow> ord_of t x = ord_of s x)"
  using assms
proof (induction j arbitrary: s)
  case 0
  then show ?case by simp
next
  case (Suc j)
  show ?case
  proof (cases "order = Suc j")
    case True
    then show ?thesis using Suc.prems by simp
  next
    case False
    let ?b = "p + 2 ^ j" and ?s = "push_free (p + 2 ^ j) j (set_order (p + 2 ^ j) j s)"
    note sp = hold_split [OF Suc.prems(1)]
    have "j \<le> 10" using Suc.prems(1) by (simp add: hinv_def)
    then have tot: "free_total (mm_lists ?s) + 2 ^ j = free_total (mm_lists s) + 2 ^ Suc j"
      by (simp add: mm_simps free_total_push)
    have eq: "split_loop p order (Suc j) s = split_loop p order j ?s"
      using sp False Suc.prems(2) by (simp add: page_free_ref)
    have "order \<le> j" using False Suc.prems(2) by simp
    then obtain t where t: "split_loop p order j ?s = Inr t" "hinv lo p order t"
      "free_total (mm_lists t) + 2 ^ order = free_total (mm_lists ?s) + 2 ^ j" "mm_free t = mm_free ?s"
      "ref_of t = ref_of ?s" "\<forall>x. ref_of ?s x \<noteq> 0 \<longrightarrow> ord_of t x = ord_of ?s x"
      using Suc.IH [OF sp(3)] by blast
    then have "\<forall>x. ref_of s x \<noteq> 0 \<longrightarrow> ord_of t x = ord_of s x" using sp(2) by (auto simp: mm_simps)
    moreover have "free_total (mm_lists t) + 2 ^ order = free_total (mm_lists s) + 2 ^ Suc j" using t(3) tot by simp
    ultimately show ?thesis using t eq by (simp add: mm_simps)
  qed
qed

text \<open>Giving a held block to the caller: the order is stored and a reference is taken.\<close>

lemma hold_give:
  assumes "hinv lo p k s"
  shows "binv lo {} ((ord_of s)(p := k)) ((ref_of s)(p := 1)) (mm_lists s)"
proof -
  have inv: "binv lo {p} ((ord_of s)(p := k)) (ref_of s) (mm_lists s)" and k: "k \<le> 10"
    using assms by (auto simp: hinv_def)
  show ?thesis
  proof (rule binvI)
    show "((ref_of s)(p := 1)) x = 0" if "lo \<le> x" "x < ALL_PFN" "((ord_of s)(p := k)) x = 11" for x
      using inv that k by (auto simp: binv_def split: if_splits)
    show "q \<in> set (mm_lists s l) \<longleftrightarrow> head lo ((ord_of s)(p := k)) q \<and> ((ord_of s)(p := k)) q = l \<and>
        ((ref_of s)(p := 1)) q = 0 \<and> q \<notin> {}" if "l \<le> 10" for l q
      using binv_list [OF inv that, of q] by auto
    show "q XOR 2 ^ l \<notin> set (mm_lists s l)" if "l < 10" "q \<in> set (mm_lists s l)" for l q
      using binv_coalesced [OF inv that] .
  qed (use inv in \<open>simp_all add: binv_def\<close>)
qed

lemma allocated_disjoint:
  assumes "buddy_inv lo s" "(p, k) \<in> allocated lo s" "(q, l) \<in> allocated lo s" "p \<noteq> q"
  shows "blk p k \<inter> blk q l = {}"
  using assms part_disjoint [of lo "ord_of s" p q] by (auto simp: allocated_def buddy_inv_def binv_def)

lemma alloc_loop_success:
  assumes "buddy_inv lo s" "order \<le> i" "\<exists>k. i \<le> k \<and> k \<le> 10 \<and> mm_lists s k \<noteq> []"
  shows "\<exists>p t. alloc_loop order i s = Inr (p, t) \<and> hinv lo p order t \<and>
    free_total (mm_lists t) + 2 ^ order = free_total (mm_lists s) \<and> mm_free t = mm_free s - 2 ^ order \<and>
    ref_of t = ref_of s \<and> (\<forall>x. ref_of s x \<noteq> 0 \<longrightarrow> ord_of t x = ord_of s x)"
  using assms
proof (induction order i s rule: alloc_loop.induct)
  case (1 order i s)
  have i: "i < MAX_LEVEL" "i \<le> 10" using "1.prems" by (auto simp: MAX_LEVEL_def)
  show ?case
  proof (cases "mm_lists s i")
    case Nil
    then have "\<exists>k. i + 1 \<le> k \<and> k \<le> 10 \<and> mm_lists s k \<noteq> []"
      using "1.prems"(3) by (metis Suc_eq_plus1 Suc_leI le_neq_implies_less)
    moreover have "alloc_loop order i s = alloc_loop order (i + 1) s"
      using Nil i by (subst alloc_loop.simps) simp
    ultimately show ?thesis using "1.IH" [OF i(1) Nil] "1.prems"(1,2) by simp
  next
    case (Cons p rest)
    let ?s = "s\<lparr>mm_lists := (mm_lists s)(i := rest)\<rparr>"
    have binv: "binv lo {} (ord_of s) (ref_of s) (mm_lists s)" using "1.prems"(1) by (simp add: buddy_inv_def)
    note pop = hold_pop [OF binv Cons i(2)]
    obtain t where t: "split_loop p order i ?s = Inr t" "hinv lo p order t"
      "free_total (mm_lists t) + 2 ^ order = free_total (mm_lists ?s) + 2 ^ i" "mm_free t = mm_free s"
      "ref_of t = ref_of s" "\<forall>x. ref_of s x \<noteq> 0 \<longrightarrow> ord_of t x = ord_of s x"
      using split_loop_hold [OF pop(1) "1.prems"(2)] by (auto simp: mm_simps)
    have "ref_of t p = 0" using t(2) by (simp add: hinv_def)
    then have "alloc_loop order i s = Inr (p, t\<lparr>mm_free := mm_free s - 2 ^ order\<rparr>)"
      using t Cons i by (subst alloc_loop.simps) (simp add: page_free_ref)
    then show ?thesis using t pop(2) by (auto simp: hinv_def mm_simps)
  qed
qed

lemma alloc_loop_fail:
  assumes "\<forall>k. i \<le> k \<and> k \<le> 10 \<longrightarrow> mm_lists s k = []"
  shows "alloc_loop order i s = Inl (Panic ''BUDDY!'')"
  using assms
proof (induction order i s rule: alloc_loop.induct)
  case (1 order i s)
  then show ?case by (subst alloc_loop.simps) (auto simp: MAX_LEVEL_def)
qed


section \<open>Allocation\<close>

lemma binv_part: "binv lo H ord ref L \<Longrightarrow> part lo ord"
  by (simp add: binv_def)

lemma give_inv:
  assumes "hinv lo p k t" "mm_free t = of_nat (free_total (mm_lists t))"
  defines "u \<equiv> upd_page p get_page (set_order p k t)"
  shows "buddy_inv lo u" "ref_of u p = 1" "2 ^ k dvd p" "blk p k \<subseteq> {lo..<ALL_PFN}"
    "head lo (ord_of u) p" "ord_of u p = k"
proof -
  have u: "ord_of u = (ord_of t)(p := k)" "ref_of u = (ref_of t)(p := 1)" "mm_lists u = mm_lists t" "mm_free u = mm_free t"
    using assms(1) by (auto simp: u_def mm_simps hinv_def)
  show "buddy_inv lo u" using hold_give [OF assms(1)] assms(2) by (simp add: buddy_inv_def u)
  then have pt: "part lo (ord_of u)" by (auto simp: buddy_inv_def intro: binv_part)
  show h: "head lo (ord_of u) p" "ord_of u p = k" "ref_of u p = 1" using assms(1) by (auto simp: u head_def hinv_def)
  show "2 ^ k dvd p" "blk p k \<subseteq> {lo..<ALL_PFN}" using part_head_blk [OF pt h(1)] h(2) by auto
qed

lemma allocated_give:
  assumes "ref_of t = ref_of s" "\<forall>x. ref_of s x \<noteq> 0 \<longrightarrow> ord_of t x = ord_of s x" "ref_of s p = 0"
    and "head lo ((ord_of t)(p := k)) p"
  shows "allocated lo (upd_page p get_page (set_order p k t)) = insert (p, k) (allocated lo s)"
proof -
  have "(ref_of t)(p := ref_of t p + 1) = (ref_of s)(p := 1)" using assms(1,3) by simp
  then have "(q, l) \<in> allocated lo (upd_page p get_page (set_order p k t)) \<longleftrightarrow>
      q = p \<and> l = k \<or> q \<noteq> p \<and> (q, l) \<in> allocated lo s" for q l
    using assms(2,4) by (auto simp: allocated_def mm_simps head_def)
  moreover have "(p, l) \<notin> allocated lo s" for l using assms(3) by (simp add: allocated_def)
  ultimately show ?thesis by auto
qed

lemma alloc_pages_success:
  assumes "buddy_inv lo s" "order \<le> 10" "\<exists>k. order \<le> k \<and> k \<le> 10 \<and> mm_lists s k \<noteq> []"
  shows "\<exists>p t. alloc_pages (int order) s = Inr (p, t) \<and> buddy_inv lo t \<and> 2 ^ order dvd p \<and>
    blk p order \<subseteq> {lo..<ALL_PFN} \<and> (\<forall>q l. (q, l) \<in> allocated lo s \<longrightarrow> blk p order \<inter> blk q l = {}) \<and>
    allocated lo t = insert (p, order) (allocated lo s) \<and> ref_of t = (ref_of s)(p := 1) \<and> ref_of s p = 0 \<and>
    mm_free t = mm_free s - 2 ^ order"
proof -
  obtain p t where t: "alloc_loop order order s = Inr (p, t)" "hinv lo p order t"
    "free_total (mm_lists t) + 2 ^ order = free_total (mm_lists s)" "mm_free t = mm_free s - 2 ^ order"
    "ref_of t = ref_of s" "\<forall>x. ref_of s x \<noteq> 0 \<longrightarrow> ord_of t x = ord_of s x"
    using alloc_loop_success [OF assms(1) order.refl assms(3)] by blast
  let ?t = "upd_page p get_page (set_order p order t)"
  have eq: "alloc_pages (int order) s = Inr (p, ?t)"
    using t(1) assms(2) by (simp add: alloc_pages_def buddy_alloc_def MAX_LEVEL_INDEX_def)
  have "of_nat (free_total (mm_lists t)) + 2 ^ order = (of_nat (free_total (mm_lists s)) :: u64)"
    using arg_cong [OF t(3), of of_nat] by simp
  then have "mm_free t = of_nat (free_total (mm_lists t))"
    using t(4) assms(1) by (metis add_diff_cancel_right' buddy_inv_def)
  note g = give_inv [OF t(2) this]
  have r0: "ref_of s p = 0" using t(2,5) by (simp add: hinv_def)
  have al: "allocated lo ?t = insert (p, order) (allocated lo s)"
    using allocated_give [OF t(5,6) r0] g(5) by (simp add: mm_simps)
  have "blk p order \<inter> blk q l = {}" if "(q, l) \<in> allocated lo s" for q l
  proof (rule allocated_disjoint [OF g(1)])
    show "p \<noteq> q" using that r0 by (auto simp: allocated_def)
  qed (use al that in auto)
  moreover have "mm_free ?t = mm_free s - 2 ^ order" "ref_of ?t = (ref_of s)(p := 1)"
    using t(4,5) r0 by (simp_all add: mm_simps)
  ultimately show ?thesis using eq g al r0 by blast
qed

lemma alloc_pages_fail:
  assumes "order \<le> 10" "\<not> (\<exists>k. order \<le> k \<and> k \<le> 10 \<and> mm_lists s k \<noteq> [])"
  shows "alloc_pages (int order) s = Inl (Panic ''BUDDY!'')"
  using assms alloc_loop_fail [of order s order]
  by (auto simp: alloc_pages_def buddy_alloc_def MAX_LEVEL_INDEX_def)

text \<open>
  C5: on a consistent allocator \<open>alloc_pages\<close> with an order from 0 to 10 succeeds exactly when a free
  block of that or a larger order exists, and panics otherwise.  The block it returns is aligned to its
  size, lies in the managed range, is disjoint from every allocated block and starts with one
  reference; it becomes the only new allocated block, the free page counter drops by its size, and
  the allocator stays consistent.
\<close>

theorem alloc_pages_correct:
  assumes "buddy_inv lo s" "order \<le> 10"
  shows "if \<exists>k. order \<le> k \<and> k \<le> 10 \<and> mm_lists s k \<noteq> []
    then \<exists>p t. alloc_pages (int order) s = Inr (p, t) \<and> buddy_inv lo t \<and> 2 ^ order dvd p \<and>
      blk p order \<subseteq> {lo..<ALL_PFN} \<and> (\<forall>q l. (q, l) \<in> allocated lo s \<longrightarrow> blk p order \<inter> blk q l = {}) \<and>
      allocated lo t = insert (p, order) (allocated lo s) \<and> ref_of t p = 1 \<and> mm_free t = mm_free s - 2 ^ order
    else alloc_pages (int order) s = Inl (Panic ''BUDDY!'')"
proof (cases "\<exists>k. order \<le> k \<and> k \<le> 10 \<and> mm_lists s k \<noteq> []")
  case True
  obtain p t where "alloc_pages (int order) s = Inr (p, t)" "buddy_inv lo t" "2 ^ order dvd p"
    "blk p order \<subseteq> {lo..<ALL_PFN}" "\<forall>q l. (q, l) \<in> allocated lo s \<longrightarrow> blk p order \<inter> blk q l = {}"
    "allocated lo t = insert (p, order) (allocated lo s)" "ref_of t p = 1" "mm_free t = mm_free s - 2 ^ order"
    using alloc_pages_success [OF assms True] by (metis fun_upd_same)
  then show ?thesis unfolding if_P [OF True] by blast
next
  case False
  then show ?thesis using alloc_pages_fail [OF assms(2) False] by simp
qed

section \<open>Freeing\<close>

lemma hold_merge:
  assumes "hinv lo p k s" "k < 10" "b = p XOR 2 ^ k" "ref_of s b = 0" "ord_of s b = k"
  defines "u \<equiv> unlink_free b (set_order b MAX_LEVEL (set_order p MAX_LEVEL s))"
  shows "hinv lo (min p b) (Suc k) u" "free_total (mm_lists u) + 2 ^ k = free_total (mm_lists s)"
proof -
  let ?ord = "(ord_of s)(p := k)" and ?m = "min p b"
  let ?ord' = "(ord_of s)(p := 11, b := 11, ?m := Suc k)" and ?L = "\<lambda>l. remove1 b (mm_lists s l)"
  have inv: "binv lo {p} ?ord (ref_of s) (mm_lists s)" and p: "lo \<le> p" "p < ALL_PFN" "ref_of s p = 0"
    using assms(1) by (auto simp: hinv_def)
  note pt = binv_part [OF inv]
  have hp: "head lo ?ord p" using p assms(2) by (simp add: head_def)
  have d: "2 ^ k dvd p" using part_head_blk(1) [OF pt hp] by simp
  have bp: "b \<noteq> p" using buddy_pair(4) [OF d assms(3)] .
  have b: "lo \<le> b" "b < ALL_PFN" using buddy_managed [OF _ p(1,2) d assms(2)] pt assms(3) by (auto simp: part_def)
  then have hb: "head lo ?ord b" using bp assms(2,5) by (simp add: head_def)
  have eq: "?ord(p := 11, b := 11, ?m := Suc k) = ?ord'" by auto
  note mg = part_merge [OF pt hp hb assms(3) _ _ assms(2), unfolded eq]
  have bin: "b \<in> set (mm_lists s k)" using binv_list [OF inv, of k b] hb bp assms(2,4,5) by simp
  have bnot: "b \<notin> set (mm_lists s l)" if "l \<noteq> k" "l \<le> 10" for l using binv_list [OF inv that(2), of b] that bp assms(5) by simp
  show tot: "free_total (mm_lists u) + 2 ^ k = free_total (mm_lists s)"
    using free_total_remove [of k b "mm_lists s"] bin bnot assms(2) by (simp add: u_def mm_simps)
  have ds: "distinct (mm_lists s l)" if "l \<le> 10" for l using inv that by (simp add: binv_def)
  have m: "?m = p \<or> ?m = b" by (simp add: min_def)
  have "binv lo {?m} ?ord' (ref_of s) ?L"
  proof (rule binvI)
    show "part lo ?ord'" using mg(1) assms(5) bp by simp
    show "ref_of s x = 0" if "lo \<le> x" "x < ALL_PFN" "?ord' x = 11" for x
      using inv that p(3) assms(4) unfolding binv_def by (cases "x = p"; cases "x = b") (auto split: if_splits)
    show "distinct (?L l)" if "l \<le> 10" for l using ds [OF that] by (rule distinct_remove1)
    show "q \<in> set (?L l) \<longleftrightarrow> head lo ?ord' q \<and> ?ord' q = l \<and> ref_of s q = 0 \<and> q \<notin> {?m}" if "l \<le> 10" for l q
      using binv_list [OF inv that, of q] ds [OF that] m that by (auto simp: head_def)
    show "q XOR 2 ^ l \<notin> set (?L l)" if "l < 10" "q \<in> set (?L l)" for l q
      using binv_coalesced [OF inv that(1), of q] that(2) ds [of l] that(1) by (auto dest: notin_set_remove1)
  qed
  moreover have "ord_of u = (ord_of s)(p := 11, b := 11)" "ref_of u = ref_of s" "mm_lists u = ?L"
    by (simp_all add: u_def mm_simps MAX_LEVEL_def)
  ultimately show "hinv lo ?m (Suc k) u" using p b assms(2,4) m by (auto simp: hinv_def)
qed


lemma merge_loop_hold:
  assumes "hinv lo p k s" "merge_loop p k s = (p', k', t)"
  shows "hinv lo p' k' t \<and> free_total (mm_lists t) + 2 ^ k' = free_total (mm_lists s) + 2 ^ k \<and>
    mm_free t = mm_free s \<and> ref_of t = ref_of s \<and> (\<forall>x. ref_of s x \<noteq> 0 \<longrightarrow> ord_of t x = ord_of s x) \<and>
    (k' < 10 \<longrightarrow> p' XOR 2 ^ k' \<notin> set (mm_lists t k'))"
  using assms
proof (induction p k s rule: merge_loop.induct)
  case (1 p k s)
  let ?b = "p XOR 2 ^ k"
  let ?u = "unlink_free ?b (set_order ?b MAX_LEVEL (set_order p MAX_LEVEL s))"
  have inv: "binv lo {p} ((ord_of s)(p := k)) (ref_of s) (mm_lists s)" and p: "lo \<le> p" "p < ALL_PFN" "ref_of s p = 0" "k \<le> 10"
    using "1.prems"(1) by (auto simp: hinv_def)
  have hp: "head lo ((ord_of s)(p := k)) p" using p by (simp add: head_def)
  have d: "2 ^ k dvd p" using part_head_blk(1) [OF binv_part [OF inv] hp] by simp
  have fb: "find_buddy p k = Some ?b" if "k < 10"
    using buddy_managed(2) [OF _ p(1,2) d that] binv_part [OF inv] by (simp add: find_buddy_def part_def)
  show ?case
  proof (cases "k < 10 \<and> ref_of s ?b = 0 \<and> ord_of s ?b = k")
    case True
    then have c: "k < MAX_LEVEL_INDEX" "\<not> (\<not> page_is_free (mm_pages s ?b) \<or> pg_order (mm_pages s ?b) \<noteq> k)"
      by (simp_all add: MAX_LEVEL_INDEX_def page_free_ref)
    have eq: "merge_loop p k s = merge_loop (min p ?b) (k + 1) ?u"
      using c fb True by (subst merge_loop.simps) simp
    have hm: "hinv lo (min p ?b) (k + 1) ?u" "free_total (mm_lists ?u) + 2 ^ k = free_total (mm_lists s)"
      using hold_merge [OF "1.prems"(1) _ refl] True by auto
    have IH: "hinv lo p' k' t \<and> free_total (mm_lists t) + 2 ^ k' = free_total (mm_lists ?u) + 2 ^ (k + 1) \<and>
      mm_free t = mm_free ?u \<and> ref_of t = ref_of ?u \<and> (\<forall>x. ref_of ?u x \<noteq> 0 \<longrightarrow> ord_of t x = ord_of ?u x) \<and>
      (k' < 10 \<longrightarrow> p' XOR 2 ^ k' \<notin> set (mm_lists t k'))"
      using "1.IH" [OF c(1) fb c(2) hm(1)] eq "1.prems"(2) True by simp
    then have "\<forall>x. ref_of s x \<noteq> 0 \<longrightarrow> ord_of t x = ord_of s x" using p(3) True by (auto simp: mm_simps)
    moreover have "free_total (mm_lists t) + 2 ^ k' = free_total (mm_lists s) + 2 ^ k" using IH hm(2) by simp
    ultimately show ?thesis using IH by (simp add: mm_simps)
  next
    case False
    have "?b \<notin> set (mm_lists s k)" if "k < 10"
      using False that binv_list [OF inv, of k ?b] buddy_pair(4) [OF d refl] by auto
    moreover have "merge_loop p k s = (p, k, s)"
      using False fb by (subst merge_loop.simps) (auto simp: MAX_LEVEL_INDEX_def page_free_ref)
    ultimately show ?thesis using "1.prems" by auto
  qed
qed

text \<open>Returning a held block to its list.\<close>

lemma hold_return:
  assumes "hinv lo p k s" "k < 10 \<longrightarrow> p XOR 2 ^ k \<notin> set (mm_lists s k)"
  shows "binv lo {} ((ord_of s)(p := k)) (ref_of s) ((mm_lists s)(k := p # mm_lists s k))"
proof -
  let ?ord = "(ord_of s)(p := k)" and ?L = "(mm_lists s)(k := p # mm_lists s k)"
  have inv: "binv lo {p} ?ord (ref_of s) (mm_lists s)" and k: "k \<le> 10" "ref_of s p = 0" "head lo ?ord p"
    using assms(1) by (auto simp: hinv_def head_def)
  show ?thesis
  proof (rule binvI)
    show "distinct (?L l)" if "l \<le> 10" for l using inv binv_list [OF inv, of k p] that by (auto simp: binv_def)
    show "q \<in> set (?L l) \<longleftrightarrow> head lo ?ord q \<and> ?ord q = l \<and> ref_of s q = 0 \<and> q \<notin> {}" if "l \<le> 10" for l q
      using binv_list [OF inv that, of q] k by auto
    have "p XOR 2 ^ k \<noteq> p" using buddy_pair(4) [OF _ refl] part_head_blk(1) [OF binv_part [OF inv] k(3)] by simp
    then show "q XOR 2 ^ l \<notin> set (?L l)" if "l < 10" "q \<in> set (?L l)" for l q
      using binv_coalesced [OF inv that(1), of q] that assms(2) xor_cancel [of q k p] by (auto split: if_splits)
  qed (use inv in \<open>simp_all add: binv_def\<close>)
qed

text \<open>Dropping the last reference of an allocated block holds it.\<close>

lemma hold_put:
  assumes "buddy_inv lo s" "head lo (ord_of s) p" "ref_of s p = 1"
  shows "hinv lo p (ord_of s p) (upd_page p (\<lambda>pg. snd (put_page_test pg)) s)"
proof -
  have inv: "binv lo {} (ord_of s) (ref_of s) (mm_lists s)" using assms(1) by (simp add: buddy_inv_def)
  have "binv lo {p} (ord_of s) ((ref_of s)(p := 0)) (mm_lists s)"
  proof (rule binvI)
    show "((ref_of s)(p := 0)) x = 0" if "lo \<le> x" "x < ALL_PFN" "ord_of s x = 11" for x
      using inv that by (auto simp: binv_def)
    show "q \<in> set (mm_lists s l) \<longleftrightarrow> head lo (ord_of s) q \<and> ord_of s q = l \<and> ((ref_of s)(p := 0)) q = 0 \<and> q \<notin> {p}"
      if "l \<le> 10" for l q using binv_list [OF inv that, of q] assms(3) by auto
    show "q XOR 2 ^ l \<notin> set (mm_lists s l)" if "l < 10" "q \<in> set (mm_lists s l)" for l q
      using binv_coalesced [OF inv that] .
  qed (use inv in \<open>simp_all add: binv_def\<close>)
  then show ?thesis using assms(2,3) by (simp add: hinv_def mm_simps head_def)
qed


lemma buddy_free_hold:
  assumes "hinv lo p (ord_of s p) s" "mm_free s = of_nat (free_total (mm_lists s))"
  shows "\<exists>t. buddy_free p s = Inr t \<and> buddy_inv lo t \<and> ref_of t = ref_of s \<and>
    (\<forall>x. ref_of s x \<noteq> 0 \<longrightarrow> ord_of t x = ord_of s x) \<and> mm_free t = mm_free s + 2 ^ ord_of s p"
proof -
  obtain q l u where m: "merge_loop p (ord_of s p) s = (q, l, u)" by (metis prod_cases3)
  note h = merge_loop_hold [OF assms(1) m]
  have q: "l \<le> 10" "ref_of s q = 0" using h by (auto simp: hinv_def)
  let ?t = "(push_free q l (set_order q l u))\<lparr>mm_free := mm_free u + 2 ^ ord_of s p\<rparr>"
  have "ref_of s p = 0" using assms(1) by (simp add: hinv_def)
  then have eq: "buddy_free p s = Inr ?t"
    using m by (simp add: buddy_free_def page_free_ref mm_simps Let_def)
  have t: "ord_of ?t = (ord_of u)(q := l)" "ref_of ?t = ref_of s" "mm_lists ?t = (mm_lists u)(l := q # mm_lists u l)"
    using h by (simp_all add: mm_simps push_free_def)
  have "free_total (mm_lists ?t) = free_total (mm_lists s) + 2 ^ ord_of s p"
    unfolding t(3) using h free_total_push [OF q(1)] by simp
  then have "mm_free ?t = of_nat (free_total (mm_lists ?t))" using h assms(2) by simp
  moreover have "binv lo {} (ord_of ?t) (ref_of ?t) (mm_lists ?t)"
    unfolding t using hold_return [of lo q l u] h by simp
  ultimately have "buddy_inv lo ?t" unfolding buddy_inv_def by blast
  then show ?thesis using eq h q t by auto
qed

lemma free_pages_last:
  assumes "buddy_inv lo s" "(p, k) \<in> allocated lo s" "ref_of s p = 1"
  shows "\<exists>t. free_pages p s = Inr t \<and> buddy_inv lo t \<and> allocated lo t = allocated lo s - {(p, k)} \<and>
    mm_free t = mm_free s + 2 ^ k \<and> ref_of t = (ref_of s)(p := 0)"
proof -
  let ?u = "upd_page p (\<lambda>pg. snd (put_page_test pg)) s"
  have hp: "head lo (ord_of s) p" "k = ord_of s p" using assms(2) by (auto simp: allocated_def)
  have h: "hinv lo p (ord_of ?u p) ?u" using hold_put [OF assms(1) hp(1) assms(3)] by (simp add: mm_simps)
  have "mm_free ?u = of_nat (free_total (mm_lists ?u))" using assms(1) by (simp add: mm_simps buddy_inv_def)
  then obtain t where t: "buddy_free p ?u = Inr t" "buddy_inv lo t" "ref_of t = (ref_of s)(p := 0)"
    "\<And>x. ((ref_of s)(p := 0)) x \<noteq> 0 \<Longrightarrow> ord_of t x = ord_of s x" "mm_free t = mm_free s + 2 ^ ord_of s p"
    using buddy_free_hold [OF h] assms(3) by (auto simp: mm_simps)
  have "page_count (mm_pages s p) > 0" using assms(3) by (simp add: page_count_def page_free_ref)
  then have eq: "free_pages p s = Inr t" using t(1) assms(3) by (simp add: free_pages_def page_free_ref Let_def)
  have "(q, l) \<in> allocated lo t \<longleftrightarrow> q \<noteq> p \<and> (q, l) \<in> allocated lo s" for q l
    using t(3) t(4) [of q] by (auto simp: allocated_iff head_def)
  then have "allocated lo t = allocated lo s - {(p, k)}" using hp by (auto simp: allocated_iff)
  then show ?thesis using t eq hp by auto
qed

lemma free_pages_unreferenced: "ref_of s p = 0 \<Longrightarrow> free_pages p s = Inl (Panic ''free_pages page_count'')"
  using page_free_ref(2) [of s p] by (simp add: free_pages_def)

text \<open>
  C6: \<open>free_pages\<close> on the head of an allocated block.  When the caller holds the last reference
  the block leaves the set of allocated blocks, its pages are counted as free, the allocator
  stays consistent, and a second \<open>free_pages\<close> of the block panics.  With more references one is dropped and
  the block stays allocated.
\<close>

theorem free_pages_correct:
  assumes "buddy_inv lo s" "(p, k) \<in> allocated lo s" "0 < sint (ref_of s p)"
  shows "\<exists>t. free_pages p s = Inr t \<and> buddy_inv lo t \<and>
    (if ref_of s p = 1
     then allocated lo t = allocated lo s - {(p, k)} \<and> mm_free t = mm_free s + 2 ^ k \<and>
       free_pages p t = Inl (Panic ''free_pages page_count'')
     else allocated lo t = allocated lo s \<and> ref_of t p = ref_of s p - 1 \<and> mm_free t = mm_free s)"
proof (cases "ref_of s p = 1")
  case True
  then show ?thesis using free_pages_last [OF assms(1,2)] free_pages_unreferenced by fastforce
next
  case False
  let ?u = "upd_page p (\<lambda>pg. snd (put_page_test pg)) s"
  have r: "ref_of s p - 1 \<noteq> 0" using False by (metis diff_add_cancel add_0)
  then have "binv lo {} (ord_of s) ((ref_of s)(p := ref_of s p - 1)) (mm_lists s)"
    using assms(1,2) unfolding buddy_inv_def binv_def by (auto simp: allocated_def head_def)
  then have "buddy_inv lo ?u" using assms(1) by (simp add: buddy_inv_def mm_simps)
  moreover have "page_count (mm_pages s p) > 0" using assms(3) by (simp add: page_count_def page_free_ref)
  then have "free_pages p s = Inr ?u" using False by (simp add: free_pages_def page_free_ref Let_def)
  moreover have "allocated lo ?u = allocated lo s" using r assms(2) by (auto simp: allocated_def mm_simps)
  ultimately show ?thesis using False by (auto simp: mm_simps)
qed

end
