(* ===== verification/BuddyRun.thy ===== *)
theory BuddyRun
  imports Buddy
begin

text \<open>
  The buddy allocator in use: the initial state, absence of fragmentation once everything
  has been freed, the page provider contract that the slab allocator and \<open>kmalloc\<close> rely on
  (locale \<open>page_provider\<close>), and the race between \<open>alloc_pages\<close> and \<open>free_pages\<close> on two cores.
\<close>

unbundle bit_operations_syntax

section \<open>The initial state\<close>

text \<open>The loop of \<open>buddy_init\<close> has put the chunks from \<open>lo\<close> up to \<open>i\<close> on the highest list.\<close>

definition init_upto :: "nat \<Rightarrow> nat \<Rightarrow> mm \<Rightarrow> bool" where
  "init_upto lo i s = (1024 dvd i \<and> lo \<le> i \<and> i \<le> ALL_PFN \<and>
    (\<forall>x<ALL_PFN. ord_of s x = (if lo \<le> x \<and> x < i \<and> 1024 dvd x then 10 else 11)) \<and>
    set (mm_lists s 10) = {x. lo \<le> x \<and> x < i \<and> 1024 dvd x} \<and> distinct (mm_lists s 10) \<and>
    (\<forall>k. k \<noteq> 10 \<longrightarrow> mm_lists s k = []) \<and>
    mm_free s = of_nat (free_total (mm_lists s)) \<and> mm_free s = of_nat (i - lo))"

lemma init_upto_step:
  assumes "init_upto lo i s" "i + 1024 \<le> ALL_PFN"
  defines "t \<equiv> set_order i 10 (push_free i 10 s)"
  shows "init_upto lo (i + 1024) (t\<lparr>mm_free := mm_free t + 1024\<rparr>)"
proof -
  have i: "1024 dvd i" "lo \<le> i" using assms(1) by (auto simp: init_upto_def)
  have between: "lo \<le> x \<and> x < i + 1024 \<and> 1024 dvd x \<longleftrightarrow> lo \<le> x \<and> x < i \<and> 1024 dvd x \<or> x = i" for x
  proof -
    have "x = i" if "i \<le> x" "x < i + 1024" "1024 dvd x"
      using that i(1) blk_within [of 10 i x] by fastforce
    then show ?thesis using i by (cases "i \<le> x") auto
  qed
  have ord: "\<forall>x<ALL_PFN. ord_of t x = (if lo \<le> x \<and> x < i + 1024 \<and> 1024 dvd x then 10 else 11)"
    using assms(1) between by (auto simp: init_upto_def t_def mm_simps)
  have tot: "free_total (mm_lists t) = free_total (mm_lists s) + 1024"
    using free_total_push [of 10 "mm_lists s" i] by (simp add: t_def mm_simps)
  have f: "mm_free s = of_nat (i - lo)" "mm_free s = of_nat (free_total (mm_lists s))" "mm_free t = mm_free s"
    using assms(1) unfolding init_upto_def by (blast, blast, simp add: t_def mm_simps)
  then have "mm_free t + 1024 = of_nat (i + 1024 - lo)" using i(2) by (simp add: of_nat_diff)
  moreover have "mm_free t + 1024 = of_nat (free_total (mm_lists t))" unfolding tot using f(2,3) by simp
  moreover have "set (mm_lists t 10) = {x. lo \<le> x \<and> x < i + 1024 \<and> 1024 dvd x}"
    unfolding between using assms(1) by (auto simp: init_upto_def t_def mm_simps)
  moreover have "distinct (mm_lists t 10)" "\<forall>k. k \<noteq> 10 \<longrightarrow> mm_lists t k = []"
    using assms(1) by (auto simp: init_upto_def t_def mm_simps)
  ultimately show ?thesis using assms(2) i ord by (simp add: init_upto_def mm_simps)
qed

lemma init_loop_upto:
  assumes "init_upto lo i s"
  shows "init_upto lo ALL_PFN (init_loop i s) \<and> ref_of (init_loop i s) = ref_of s"
  using assms
proof (induction i s rule: init_loop.induct)
  case (1 i s)
  show ?case
  proof (cases "i + 1024 \<le> ALL_PFN")
    case True
    then show ?thesis using "1.IH" init_upto_step [OF "1.prems" True]
      by (subst (1 2) init_loop.simps) (simp add: MAX_LEVEL_INDEX_def Let_def mm_simps)
  next
    case False
    have "i = ALL_PFN" using False "1.prems" blk_within [of 10 i ALL_PFN] ALL_PFN_dvd
      by (fastforce simp: init_upto_def)
    then show ?thesis using "1.prems" False by (subst (1 2) init_loop.simps) (simp add: MAX_LEVEL_INDEX_def)
  qed
qed

lemma init_upto_inv:
  assumes "init_upto lo ALL_PFN s" "1024 dvd lo" "\<forall>x. lo \<le> x \<and> x < ALL_PFN \<longrightarrow> ref_of s x = 0"
  shows "buddy_inv lo s"
proof -
  have ord: "ord_of s x = (if lo \<le> x \<and> 1024 dvd x then 10 else 11)" if "x < ALL_PFN" for x
    using assms(1) that by (simp add: init_upto_def)
  then have hd: "head lo (ord_of s) p \<longleftrightarrow> lo \<le> p \<and> p < ALL_PFN \<and> 1024 dvd p" for p
    by (auto simp: head_def split: if_splits)
  have sep: "blk p 10 \<inter> blk q 10 = {}" if "1024 dvd p" "1024 dvd q" "p \<noteq> q" for p q
    using that blk_within [of 10 p q] blk_within [of 10 q p] by (cases "p < q") (auto simp: blk_def)
  have pt: "part lo (ord_of s)"
    unfolding part_def
  proof (intro conjI allI impI)
    show "\<exists>p. head lo (ord_of s) p \<and> x \<in> blk p (ord_of s p)" if "lo \<le> x \<and> x < ALL_PFN" for x
    proof (rule exI [of _ "x div 1024 * 1024"])
      have "lo div 1024 * 1024 \<le> x div 1024 * 1024" using that by (intro mult_le_mono1 div_le_mono) simp
      then have "lo \<le> x div 1024 * 1024" using assms(2) by simp
      moreover have "x div 1024 * 1024 \<le> x" "x < x div 1024 * 1024 + 1024"
        using dividend_less_div_times [of 1024 x] by (simp_all add: add.commute)
      moreover have "x div 1024 * 1024 < ALL_PFN" using that by (meson div_times_less_eq_dividend le_less_trans)
      ultimately show "head lo (ord_of s) (x div 1024 * 1024) \<and> x \<in> blk (x div 1024 * 1024) (ord_of s (x div 1024 * 1024))"
        using that ord [of "x div 1024 * 1024"] by (simp add: hd blk_def)
    qed
  qed (use assms(1,2) ord hd sep in \<open>auto simp: init_upto_def\<close>)
  have "binv lo {} (ord_of s) (ref_of s) (mm_lists s)"
  proof (rule binvI [OF pt])
    show "q \<in> set (mm_lists s l) \<longleftrightarrow> head lo (ord_of s) q \<and> ord_of s q = l \<and> ref_of s q = 0 \<and> q \<notin> {}" if "l \<le> 10" for l q
      using assms(1,3) hd ord [of q] by (cases "l = 10") (auto simp: init_upto_def)
    show "distinct (mm_lists s l)" for l using assms(1) by (cases "l = 10") (auto simp: init_upto_def)
    show "q XOR 2 ^ l \<notin> set (mm_lists s l)" if "l < 10" for l q using assms(1) that by (auto simp: init_upto_def)
  qed (use assms(3) in auto)
  then show ?thesis using assms(1) by (simp add: buddy_inv_def init_upto_def)
qed


lemma start_pfn_facts:
  assumes "kernel_pfn_end < ALL_PFN"
  shows "1024 dvd start_pfn kernel_pfn_end" "kernel_pfn_end < start_pfn kernel_pfn_end"
    "start_pfn kernel_pfn_end \<le> ALL_PFN"
proof -
  let ?s = "start_pfn kernel_pfn_end"
  have s: "?s = kernel_pfn_end div 1024 * 1024 + 1024"
    using div_add_self2 [of 1024 kernel_pfn_end] by (simp add: start_pfn_def MAX_LEVEL_INDEX_def)
  then show d: "1024 dvd ?s" by simp
  show "kernel_pfn_end < ?s" using s dividend_less_div_times [of 1024 kernel_pfn_end] by simp
  have "kernel_pfn_end div 1024 * 1024 < ALL_PFN" using assms by (meson div_times_less_eq_dividend le_less_trans)
  then show "?s \<le> ALL_PFN" using blk_within [of 10 "kernel_pfn_end div 1024 * 1024" ALL_PFN] ALL_PFN_dvd
    by (simp add: s)
qed

lemma mm_init_upto:
  assumes "kernel_pfn_end < ALL_PFN"
  shows "init_upto (start_pfn kernel_pfn_end) ALL_PFN (mm_init kernel_pfn_end s)"
    "\<forall>x. start_pfn kernel_pfn_end \<le> x \<and> x < ALL_PFN \<longrightarrow> ref_of (mm_init kernel_pfn_end s) x = 0"
proof -
  let ?lo = "start_pfn kernel_pfn_end"
  let ?t = "s\<lparr>mm_pages := first_all_page_init kernel_pfn_end (mm_pages s), mm_free := 0, mm_lists := (\<lambda>_. [])\<rparr>"
  note f = start_pfn_facts [OF assms]
  have pages: "ord_of ?t x = 11" "ref_of ?t x = (if x < kernel_pfn_end then 1 else 0)" if "x < ALL_PFN" for x
    using first_all_page_init_nth [OF that, of kernel_pfn_end "mm_pages s"] assms
    by (simp_all add: ord_of_def ref_of_def MAX_LEVEL_def)
  have "init_upto ?lo ?lo ?t"
    using f pages(1) by (auto simp: init_upto_def free_total_def)
  then have l: "init_upto ?lo ALL_PFN (init_loop ?lo ?t) \<and> ref_of (init_loop ?lo ?t) = ref_of ?t"
    by (rule init_loop_upto)
  moreover have "mm_init kernel_pfn_end s = init_loop ?lo ?t" by (simp add: mm_init_def buddy_init_def)
  ultimately show "init_upto ?lo ALL_PFN (mm_init kernel_pfn_end s)"
    "\<forall>x. ?lo \<le> x \<and> x < ALL_PFN \<longrightarrow> ref_of (mm_init kernel_pfn_end s) x = 0"
    using pages(2) f(2) by auto
qed

text \<open>
  C22: initialisation.  Whatever the memory held before, after \<open>first_all_page_init\<close> and \<open>buddy_init\<close>
  the allocator is consistent, nothing is allocated, and the counter shows all pages from the
  first aligned chunk above the kernel image to the end of memory.
\<close>

theorem mm_init_correct:
  assumes "kernel_pfn_end < ALL_PFN"
  shows "buddy_inv (start_pfn kernel_pfn_end) (mm_init kernel_pfn_end s) \<and>
    allocated (start_pfn kernel_pfn_end) (mm_init kernel_pfn_end s) = {} \<and>
    unat (mm_free (mm_init kernel_pfn_end s)) = ALL_PFN - start_pfn kernel_pfn_end"
proof -
  let ?t = "mm_init kernel_pfn_end s" and ?lo = "start_pfn kernel_pfn_end"
  note m = mm_init_upto [OF assms, of s]
  have "buddy_inv ?lo ?t" using init_upto_inv [OF m(1) start_pfn_facts(1) [OF assms] m(2)] .
  moreover have "allocated ?lo ?t = {}" using m(2) by (auto simp: allocated_def head_def)
  moreover have "mm_free ?t = of_nat (ALL_PFN - ?lo)" using m(1) unfolding init_upto_def by blast
  then have "unat (mm_free ?t) = ALL_PFN - ?lo" by (simp add: unat_of_nat_id ALL_PFN_def)
  ultimately show ?thesis by blast
qed

definition blank_mm :: mm where
  "blank_mm = \<lparr>mm_pages = (\<lambda>_. init_page 7), mm_free = 5, mm_lists = (\<lambda>_. [3])\<rparr>"

theorem mm_init_correct_witness:
  "buddy_inv 2048 (mm_init 1500 blank_mm) \<and> unat (mm_free (mm_init 1500 blank_mm)) = 30720"
  using mm_init_correct [of 1500 blank_mm] by (simp add: start_pfn_def MAX_LEVEL_INDEX_def ALL_PFN_def)

text \<open>The facts about the initial state that the examples below use.\<close>

lemma mm_init_example:
  "buddy_inv 2048 (mm_init 1500 blank_mm)" "allocated 2048 (mm_init 1500 blank_mm) = {}"
  "mm_lists (mm_init 1500 blank_mm) 10 \<noteq> []"
proof -
  have st: "start_pfn 1500 = 2048" "1500 < ALL_PFN" by (simp_all add: start_pfn_def MAX_LEVEL_INDEX_def ALL_PFN_def)
  note m = mm_init_upto [OF st(2), of blank_mm, unfolded st(1)]
  show "buddy_inv 2048 (mm_init 1500 blank_mm)" using init_upto_inv [OF m(1) _ m(2)] by simp
  show "allocated 2048 (mm_init 1500 blank_mm) = {}" using m(2) by (auto simp: allocated_def head_def)
  have "2048 \<in> set (mm_lists (mm_init 1500 blank_mm) 10)" using m(1) by (simp add: init_upto_def ALL_PFN_def)
  then show "mm_lists (mm_init 1500 blank_mm) 10 \<noteq> []" by auto
qed

theorem alloc_pages_correct_witness:
  "\<exists>p t. alloc_pages 3 (mm_init 1500 blank_mm) = Inr (p, t) \<and> buddy_inv 2048 t \<and> 8 dvd p \<and> ref_of t p = 1"
proof -
  have "\<exists>k. 3 \<le> k \<and> k \<le> 10 \<and> mm_lists (mm_init 1500 blank_mm) k \<noteq> []"
    using mm_init_example(3) by (intro exI [of _ 10]) simp
  then show ?thesis using alloc_pages_correct [OF mm_init_example(1), of 3] by auto
qed

section \<open>No fragmentation without allocations\<close>

lemma smallest_block_has_buddy:
  assumes "part lo ord" "head lo ord p" "ord p < 10" "\<And>q. head lo ord q \<Longrightarrow> ord p \<le> ord q"
  shows "head lo ord (p XOR 2 ^ ord p) \<and> ord (p XOR 2 ^ ord p) = ord p"
proof -
  let ?k = "ord p" and ?b = "p XOR 2 ^ ord p"
  have d: "2 ^ ?k dvd p" using part_head_blk(1) [OF assms(1,2)] .
  note pr = buddy_pair [OF d refl]
  have "lo \<le> ?b" "?b < ALL_PFN" using buddy_managed [of lo p ?k] assms d by (auto simp: part_def head_def)
  then obtain q where q: "head lo ord q" "?b \<in> blk q (ord q)" using assms(1) unfolding part_def by blast
  have dq: "2 ^ ord q dvd q" using part_head_blk(1) [OF assms(1) q(1)] .
  show ?thesis
  proof (cases "ord q = ?k")
    case True
    then have "q = ?b" using q(2) blk_within [of ?k q ?b] dq pr(3) by (fastforce simp: blk_def)
    then show ?thesis using q(1) True by simp
  next
    case False
    then have lt: "Suc ?k \<le> ord q" using assms(4) [OF q(1)] by simp
    have al: "2 ^ Suc ?k dvd q" "2 ^ Suc ?k dvd q + 2 ^ ord q"
      using dq le_imp_power_dvd [OF lt, of "2::nat"] by (auto intro: dvd_trans)
    have pos: "(0::nat) < 2 ^ ?k" by simp
    have b: "q \<le> ?b" "?b < q + 2 ^ ord q" using q(2) by (auto simp: blk_def)
    have low: "q \<le> min p ?b"
    proof (rule ccontr)
      assume "\<not> q \<le> min p ?b"
      then have "min p ?b + 2 ^ Suc ?k \<le> q" using pr(1) al(1) by (intro blk_within) auto
      then have "max p ?b < q" using pr(2) pos unfolding power_Suc by linarith
      then show False using b(1) by simp
    qed
    have "min p ?b < q + 2 ^ ord q" using b(2) by auto
    then have "min p ?b + 2 ^ Suc ?k \<le> q + 2 ^ ord q" using pr(1) al(2) by (intro blk_within)
    then have "max p ?b < q + 2 ^ ord q" using pr(2) pos unfolding power_Suc by linarith
    then have "p \<in> blk q (ord q)" using low by (auto simp: blk_def)
    then show ?thesis using part_disjoint [OF assms(1) q(1) assms(2)] False by fastforce
  qed
qed

lemma no_small_blocks:
  assumes "buddy_inv lo s" "allocated lo s = {}"
  shows "(\<forall>k<10. mm_lists s k = []) \<and> (\<forall>p. head lo (ord_of s) p \<longrightarrow> ord_of s p = 10)"
proof -
  have inv: "binv lo {} (ord_of s) (ref_of s) (mm_lists s)" using assms(1) by (simp add: buddy_inv_def)
  have free: "ref_of s p = 0" if "head lo (ord_of s) p" for p using that assms(2) by (auto simp: allocated_def)
  have "\<not> (head lo (ord_of s) p \<and> ord_of s p < 10)" for p
  proof
    assume h: "head lo (ord_of s) p \<and> ord_of s p < 10"
    obtain q where q: "head lo (ord_of s) q" "\<And>r. head lo (ord_of s) r \<Longrightarrow> ord_of s q \<le> ord_of s r"
      using ex_has_least_nat [of "head lo (ord_of s)" p "ord_of s"] h by blast
    then have k: "ord_of s q < 10" using h by (meson le_less_trans)
    note b = smallest_block_has_buddy [OF binv_part [OF inv] q(1) k q(2)]
    have "q \<in> set (mm_lists s (ord_of s q))" "q XOR 2 ^ ord_of s q \<in> set (mm_lists s (ord_of s q))"
      using binv_list [OF inv, of "ord_of s q"] q(1) b free k by auto
    then show False using binv_coalesced [OF inv k] by blast
  qed
  then have small: "\<And>p. head lo (ord_of s) p \<Longrightarrow> ord_of s p = 10" by (metis head_def le_neq_implies_less)
  moreover have "mm_lists s k = []" if "k < 10" for k
  proof -
    have "p \<notin> set (mm_lists s k)" for p using binv_list [OF inv, of k p] small that by fastforce
    then show ?thesis by (cases "mm_lists s k") auto
  qed
  ultimately show ?thesis by blast
qed

text \<open>
  no external fragmentation.  In a consistent allocator without allocated blocks every free
  block has the maximal order: all memory has been merged back into chunks of 1024 pages.
\<close>

theorem buddy_defragments:
  assumes "buddy_inv lo s" "allocated lo s = {}"
  shows "(\<forall>k<10. mm_lists s k = []) \<and> (\<forall>p. head lo (ord_of s) p \<longrightarrow> ord_of s p = 10)"
  using no_small_blocks [OF assms] .

theorem buddy_defragments_witness: "mm_lists (mm_init 1500 blank_mm) 4 = []"
  using buddy_defragments [OF mm_init_example(1,2)] by simp


text \<open>With nothing allocated the last list holds every chunk of 1024 pages once, which fixes the counter of free pages.\<close>

lemma merged_chunks:
  assumes "buddy_inv lo s" "allocated lo s = {}"
  shows "distinct (mm_lists s 10)" "set (mm_lists s 10) = {p. lo \<le> p \<and> p < ALL_PFN \<and> 1024 dvd p}"
    "mm_free s = of_nat (1024 * card {p. lo \<le> p \<and> p < ALL_PFN \<and> 1024 dvd p})"
proof -
  have inv: "binv lo {} (ord_of s) (ref_of s) (mm_lists s)" using assms(1) by (simp add: buddy_inv_def)
  note pt = binv_part [OF inv]
  have big: "ord_of s p = 10" if "head lo (ord_of s) p" for p using no_small_blocks [OF assms] that by blast
  have free: "ref_of s p = 0" if "head lo (ord_of s) p" for p using that assms(2) by (auto simp: allocated_def)
  have "head lo (ord_of s) p \<longleftrightarrow> lo \<le> p \<and> p < ALL_PFN \<and> 1024 dvd p" for p
  proof
    show "lo \<le> p \<and> p < ALL_PFN \<and> 1024 dvd p" if "head lo (ord_of s) p"
      using part_head_blk(1) [OF pt that] big [OF that] that by (simp add: head_def)
    assume p: "lo \<le> p \<and> p < ALL_PFN \<and> 1024 dvd p"
    then obtain q where q: "head lo (ord_of s) q" "p \<in> blk q (ord_of s q)" using pt unfolding part_def by blast
    then have "1024 dvd q" "q \<le> p" "p < q + 1024" using part_head_blk(1) [OF pt q(1)] big [OF q(1)] by (simp_all add: blk_def)
    then have "1024 dvd p - q" "p - q < 1024" using p by (simp_all add: dvd_diff_nat)
    then have "p - q = 0" by (metis dvd_imp_le not_less neq0_conv)
    then show "head lo (ord_of s) p" using q(1) \<open>q \<le> p\<close> by simp
  qed
  then show set: "set (mm_lists s 10) = {p. lo \<le> p \<and> p < ALL_PFN \<and> 1024 dvd p}"
    using binv_list [OF inv, of 10] big free by auto
  show d: "distinct (mm_lists s 10)" using inv by (simp add: binv_def)
  have "2 ^ k * length (mm_lists s k) = (if k = 10 then 1024 * length (mm_lists s 10) else 0)" if "k \<le> 10" for k
    using no_small_blocks [OF assms] that by (cases "k = 10") auto
  then have "free_total (mm_lists s) = (\<Sum>k\<le>(10::nat). if k = 10 then 1024 * length (mm_lists s 10) else 0)"
    unfolding free_total_def by (intro sum.cong) auto
  then have "free_total (mm_lists s) = 1024 * length (mm_lists s 10)" by simp
  then show "mm_free s = of_nat (1024 * card {p. lo \<le> p \<and> p < ALL_PFN \<and> 1024 dvd p})"
    using assms(1) distinct_card [OF d] unfolding set buddy_inv_def by simp
qed

section \<open>The page provider contract\<close>

text \<open>What the clients of the page allocator rely on: a new block is disjoint from all blocks in
  use, and freeing a block gives back exactly that block.\<close>

locale page_provider =
  fixes inv :: "'s \<Rightarrow> bool"
    and owned :: "'s \<Rightarrow> (nat \<times> nat) set"
    and alloc :: "nat \<Rightarrow> 's \<Rightarrow> (nat \<times> 's) kres"
    and free :: "nat \<Rightarrow> 's \<Rightarrow> 's kres"
  assumes alloc_law: "inv s \<Longrightarrow> k \<le> 10 \<Longrightarrow> alloc k s = Inr (p, t) \<Longrightarrow>
      inv t \<and> owned t = insert (p, k) (owned s) \<and> p \<notin> fst ` owned s \<and>
      (\<forall>q l. (q, l) \<in> owned s \<longrightarrow> blk p k \<inter> blk q l = {}) \<and> blk p k \<subseteq> {..<ALL_PFN} \<and> 2 ^ k dvd p"
    and free_law: "inv s \<Longrightarrow> (p, k) \<in> owned s \<Longrightarrow> \<exists>t. free p s = Inr t \<and> inv t \<and> owned t = owned s - {(p, k)}"
    and owned_fun: "inv s \<Longrightarrow> (p, k) \<in> owned s \<Longrightarrow> (p, l) \<in> owned s \<Longrightarrow> k = l"

primrec alloc_many :: "(nat \<Rightarrow> 's \<Rightarrow> (nat \<times> 's) kres) \<Rightarrow> nat list \<Rightarrow> 's \<Rightarrow> (nat list \<times> 's) kres" where
  "alloc_many alloc [] s = Inr ([], s)"
| "alloc_many alloc (k # ks) s = kbind (alloc k s) (\<lambda>(p, t).
    kbind (alloc_many alloc ks t) (\<lambda>(ps, u). Inr (p # ps, u)))"

primrec free_many :: "(nat \<Rightarrow> 's \<Rightarrow> 's kres) \<Rightarrow> nat list \<Rightarrow> 's \<Rightarrow> 's kres" where
  "free_many free [] s = Inr s"
| "free_many free (p # ps) s = kbind (free p s) (free_many free ps)"

context page_provider
begin

lemma alloc_many_owned:
  assumes "inv s" "\<forall>k\<in>set ks. k \<le> 10" "alloc_many alloc ks s = Inr (ps, t)"
  shows "inv t \<and> length ps = length ks \<and> owned t = owned s \<union> set (zip ps ks) \<and> distinct ps \<and>
    set ps \<inter> fst ` owned s = {}"
  using assms
proof (induction ks arbitrary: s ps)
  case Nil
  then show ?case by auto
next
  case (Cons k ks)
  then obtain p u ps' where a: "alloc k s = Inr (p, u)" "alloc_many alloc ks u = Inr (ps', t)" "ps = p # ps'"
    by (auto simp: kbind_eq_Inr)
  note l = alloc_law [OF Cons.prems(1) _ a(1)]
  have "inv t \<and> length ps' = length ks \<and> owned t = owned u \<union> set (zip ps' ks) \<and> distinct ps' \<and> set ps' \<inter> fst ` owned u = {}"
    using Cons.IH [OF _ _ a(2)] l Cons.prems(2) by simp
  then show ?case using l Cons.prems(2) a(3) by auto
qed

lemma free_many_owned:
  assumes "inv s" "distinct ps" "set ps \<subseteq> fst ` owned s"
  shows "\<exists>t. free_many free ps s = Inr t \<and> inv t \<and> owned t = {b \<in> owned s. fst b \<notin> set ps}"
  using assms
proof (induction ps arbitrary: s)
  case Nil
  then show ?case by auto
next
  case (Cons p ps)
  then obtain k where k: "(p, k) \<in> owned s" by auto
  then obtain t where t: "free p s = Inr t" "inv t" "owned t = owned s - {(p, k)}"
    using free_law [OF Cons.prems(1)] by blast
  have "set ps \<subseteq> fst ` owned t" using Cons.prems(2,3) t(3) by (force simp: image_iff)
  then obtain u where u: "free_many free ps t = Inr u" "inv u" "owned u = {b \<in> owned t. fst b \<notin> set ps}"
    using Cons.IH [OF t(2)] Cons.prems(2) by auto
  have un: "b = (p, k)" if "b \<in> owned s" "fst b = p" for b
    using that owned_fun [OF Cons.prems(1) k, of "snd b"] by (metis prod.collapse)
  have "{b \<in> owned t. fst b \<notin> set ps} = {b \<in> owned s. fst b \<notin> set (p # ps)}"
    unfolding t(3)
  proof (rule Collect_cong)
    show "b \<in> owned s - {(p, k)} \<and> fst b \<notin> set ps \<longleftrightarrow> b \<in> owned s \<and> fst b \<notin> set (p # ps)" for b
      using un [of b] by (cases "fst b = p") auto
  qed
  then show ?case using t(1) u by simp
qed

lemma alloc_free_round:
  assumes "inv s" "\<forall>k\<in>set ks. k \<le> 10" "alloc_many alloc ks s = Inr (ps, t)" "distinct qs" "set qs = set ps"
  shows "\<exists>u. free_many free qs t = Inr u \<and> inv u \<and> owned u = owned s"
proof -
  note a = alloc_many_owned [OF assms(1-3)]
  have "fst ` set (zip ps ks) = set ps" using a map_fst_zip [of ps ks] by (metis list.set_map)
  then have sub: "set qs \<subseteq> fst ` owned t" using a assms(5) by (simp add: image_Un)
  have "{b \<in> owned t. fst b \<notin> set qs} = owned s"
    using a assms(5) by (auto dest: set_zip_leftD)
  then show ?thesis using free_many_owned [OF _ assms(4) sub] a by auto
qed

end

definition single_owner :: "nat \<Rightarrow> mm \<Rightarrow> bool" where
  "single_owner lo s = (buddy_inv lo s \<and> (\<forall>p k. (p, k) \<in> allocated lo s \<longrightarrow> ref_of s p = 1))"

lemma alloc_pages_law:
  assumes "single_owner lo s" "k \<le> 10" "alloc_pages (int k) s = Inr (p, t)"
  shows "single_owner lo t \<and> allocated lo t = insert (p, k) (allocated lo s) \<and> p \<notin> fst ` allocated lo s \<and>
    (\<forall>q l. (q, l) \<in> allocated lo s \<longrightarrow> blk p k \<inter> blk q l = {}) \<and> blk p k \<subseteq> {..<ALL_PFN} \<and> 2 ^ k dvd p"
proof -
  have inv: "buddy_inv lo s" using assms(1) by (simp add: single_owner_def)
  have "\<exists>l. k \<le> l \<and> l \<le> 10 \<and> mm_lists s l \<noteq> []" using alloc_pages_fail [OF assms(2)] assms(3) by force
  from alloc_pages_success [OF inv assms(2) this] assms(3)
  have r: "buddy_inv lo t" "2 ^ k dvd p" "blk p k \<subseteq> {lo..<ALL_PFN}"
    "\<forall>q l. (q, l) \<in> allocated lo s \<longrightarrow> blk p k \<inter> blk q l = {}" "allocated lo t = insert (p, k) (allocated lo s)"
    "ref_of t = (ref_of s)(p := 1)" "ref_of s p = 0" by auto
  have "p \<notin> fst ` allocated lo s" using r(7) by (auto simp: allocated_def)
  moreover have "single_owner lo t" using assms(1) r(1,5,6) by (auto simp: single_owner_def)
  moreover have "{lo..<ALL_PFN} \<subseteq> {..<ALL_PFN}" by auto
  ultimately show ?thesis using r(2-5) by (meson subset_trans)
qed

interpretation buddy_pages: page_provider
  "single_owner lo" "allocated lo" "\<lambda>k. alloc_pages (int k)" free_pages for lo
proof
  show "\<exists>t. free_pages p s = Inr t \<and> single_owner lo t \<and> allocated lo t = allocated lo s - {(p, k)}"
    if "single_owner lo s" "(p, k) \<in> allocated lo s" for s p k
    using that free_pages_last [of lo s p k] by (fastforce simp: single_owner_def allocated_iff)
qed (use alloc_pages_law in blast, auto simp: allocated_iff)

text \<open>
  C7: any batch of allocations from the initial state, followed by freeing its blocks in
  any order, is clean: the blocks are pairwise disjoint, every free succeeds, and at the end nothing
  is allocated, the lists of the smaller orders are empty, the list of order 10 holds each aligned chunk of 1024 pages
  above the kernel exactly once, and the counter of free pages has its initial value.
\<close>

theorem alloc_free_batch:
  assumes "kernel_pfn_end < ALL_PFN" "\<forall>k\<in>set ks. k \<le> 10"
    and "alloc_many (\<lambda>k. alloc_pages (int k)) ks (mm_init kernel_pfn_end s) = Inr (ps, t)"
    and "distinct qs" "set qs = set ps"
  shows "(\<forall>i j. i < j \<and> j < length ps \<longrightarrow> blk (ps ! i) (ks ! i) \<inter> blk (ps ! j) (ks ! j) = {}) \<and>
    (\<exists>u. free_many free_pages qs t = Inr u \<and> allocated (start_pfn kernel_pfn_end) u = {} \<and>
      (\<forall>k<10. mm_lists u k = []) \<and> distinct (mm_lists u 10) \<and>
      set (mm_lists u 10) = {p. start_pfn kernel_pfn_end \<le> p \<and> p < ALL_PFN \<and> 1024 dvd p} \<and>
      mm_free u = mm_free (mm_init kernel_pfn_end s) \<and> unat (mm_free u) = ALL_PFN - start_pfn kernel_pfn_end)"
proof -
  let ?lo = "start_pfn kernel_pfn_end" and ?s = "mm_init kernel_pfn_end s"
  note m = mm_init_upto [OF assms(1), of s]
  have "buddy_inv ?lo ?s" using init_upto_inv [OF m(1) start_pfn_facts(1) [OF assms(1)] m(2)] .
  moreover have e: "allocated ?lo ?s = {}" using m(2) by (auto simp: allocated_def head_def)
  ultimately have so: "single_owner ?lo ?s" by (simp add: single_owner_def)
  note a = buddy_pages.alloc_many_owned [OF so assms(2,3)]
  have "blk (ps ! i) (ks ! i) \<inter> blk (ps ! j) (ks ! j) = {}" if "i < j" "j < length ps" for i j
  proof (rule allocated_disjoint)
    show "buddy_inv ?lo t" using a by (simp add: single_owner_def)
    show "(ps ! i, ks ! i) \<in> allocated ?lo t" "(ps ! j, ks ! j) \<in> allocated ?lo t"
      using a that by (auto simp: set_zip)
    show "ps ! i \<noteq> ps ! j" using a that by (simp add: nth_eq_iff_index_eq)
  qed
  moreover obtain u where u: "free_many free_pages qs t = Inr u" "single_owner ?lo u" "allocated ?lo u = {}"
    using buddy_pages.alloc_free_round [OF so assms(2-5)] e by auto
  moreover have "mm_free ?s = of_nat (ALL_PFN - ?lo)" using m(1) unfolding init_upto_def by blast
  then have "unat (mm_free ?s) = ALL_PFN - ?lo" by (simp add: unat_of_nat_id ALL_PFN_def)
  moreover have inv: "buddy_inv ?lo u" "buddy_inv ?lo ?s" using u(2) so by (simp_all add: single_owner_def)
  then have "mm_free u = mm_free ?s" using merged_chunks(3) [OF _ u(3)] merged_chunks(3) [OF _ e] by simp
  ultimately show ?thesis using no_small_blocks [OF inv(1) u(3)] merged_chunks(1,2) [OF inv(1) u(3)] by auto
qed


lemma alloc_example:
  obtains p t where "alloc_pages 3 (mm_init 1500 blank_mm) = Inr (p, t)" "buddy_inv 2048 t"
    "allocated 2048 t = {(p, 3)}" "ref_of t p = 1"
proof -
  have "\<exists>k. 3 \<le> k \<and> k \<le> 10 \<and> mm_lists (mm_init 1500 blank_mm) k \<noteq> []"
    using mm_init_example(3) by (intro exI [of _ 10]) simp
  then show thesis using that alloc_pages_success [OF mm_init_example(1), of 3] mm_init_example(2) by auto
qed

theorem free_pages_correct_witness:
  "\<exists>p t u. alloc_pages 3 (mm_init 1500 blank_mm) = Inr (p, t) \<and> free_pages p t = Inr u \<and>
    buddy_inv 2048 u \<and> allocated 2048 u = {} \<and> free_pages p u = Inl (Panic ''free_pages page_count'')"
proof -
  obtain p t where t: "alloc_pages 3 (mm_init 1500 blank_mm) = Inr (p, t)" "buddy_inv 2048 t"
    "allocated 2048 t = {(p, 3)}" "ref_of t p = 1" by (rule alloc_example)
  then show ?thesis using free_pages_correct [OF t(2), of p 3] by auto
qed

theorem alloc_free_batch_witness:
  "\<exists>ps t u. alloc_many (\<lambda>k. alloc_pages (int k)) [3] (mm_init 1500 blank_mm) = Inr (ps, t) \<and>
    free_many free_pages ps t = Inr u \<and> allocated 2048 u = {} \<and> unat (mm_free u) = 30720 \<and>
    set (mm_lists u 10) = {p. 2048 \<le> p \<and> p < 32768 \<and> 1024 dvd p}"
proof -
  obtain p t where t: "alloc_pages 3 (mm_init 1500 blank_mm) = Inr (p, t)" by (rule alloc_example)
  then have "alloc_many (\<lambda>k. alloc_pages (int k)) [3] (mm_init 1500 blank_mm) = Inr ([p], t)" by simp
  then show ?thesis
    using alloc_free_batch [of 1500 "[3]" blank_mm "[p]" t "[p]"]
    by (auto simp: start_pfn_def MAX_LEVEL_INDEX_def ALL_PFN_def)
qed

end
