(* ===== verification/Containers.thy ===== *)
theory Containers
  imports Prelude
begin

text \<open>
  The remaining containers of the library: the pointer stack of include/lib/stack.h, the hash
  table of include/lib/hash.h and lib/hash.c, and the two level LRU list of lib/lru.c.

  A hash table with distinct keys is shown to be a finite map (locale \<open>map_contract\<close>), the
  contract the block cache, the inode cache and the dentry cache rely on.
\<close>

section \<open>Stack\<close>

text \<open>The stack stores 64-bit words in an array owned by its user; \<open>top\<close> and \<open>base\<close> are word
  indices into that array.  The words are of a type \<open>'v\<close> with a zero: \<open>u64\<close>, or addresses where the
  user stores pointers.  \<open>STACK_UNLIMIT\<close> is -1.\<close>

type_synonym 'v wmem = "nat \<Rightarrow> 'v"

record sstack =
  stk_top :: nat
  stk_base :: nat
  stk_max_size :: int

definition sstack_is_empty :: "sstack \<Rightarrow> bool" where
  "sstack_is_empty ss = (stk_top ss = stk_base ss)"

definition sstack_is_full :: "sstack \<Rightarrow> bool" where
  "sstack_is_full ss =
    (if stk_max_size ss = -1 then False else int (stk_top ss) - int (stk_base ss) = stk_max_size ss)"

definition sstack_init :: "nat \<Rightarrow> int \<Rightarrow> sstack" where
  "sstack_init base max_size = \<lparr>stk_top = base, stk_base = base, stk_max_size = max_size\<rparr>"

definition sstack_push :: "'v \<Rightarrow> sstack \<times> 'v wmem \<Rightarrow> int \<times> sstack \<times> 'v wmem" where
  "sstack_push a s = (case s of (ss, m) \<Rightarrow>
    if sstack_is_full ss then (-1, ss, m)
    else (0, ss\<lparr>stk_top := stk_top ss + 1\<rparr>, m(stk_top ss := a)))"

definition sstack_pop :: "sstack \<times> 'v::zero wmem \<Rightarrow> 'v \<times> sstack \<times> 'v wmem" where
  "sstack_pop s = (case s of (ss, m) \<Rightarrow>
    if sstack_is_empty ss then (0, ss, m)
    else (m (stk_top ss - 1), ss\<lparr>stk_top := stk_top ss - 1\<rparr>, m))"

definition sstack_list :: "sstack \<times> 'v wmem \<Rightarrow> 'v list" where
  "sstack_list s = (case s of (ss, m) \<Rightarrow> map m [stk_base ss..<stk_top ss])"

definition sstack_wf :: "sstack \<Rightarrow> bool" where
  "sstack_wf ss = (stk_base ss \<le> stk_top ss \<and>
    (stk_max_size ss = -1 \<or> int (stk_top ss) - int (stk_base ss) \<le> stk_max_size ss))"

lemma sstack_push_list:
  assumes "sstack_wf (fst s)" "\<not> sstack_is_full (fst s)"
  shows "fst (sstack_push a s) = 0" "sstack_wf (fst (snd (sstack_push a s)))"
    "sstack_list (snd (sstack_push a s)) = sstack_list s @ [a]"
  using assms
  by (auto simp: sstack_push_def sstack_wf_def sstack_list_def sstack_is_full_def split: prod.splits if_splits)

lemma sstack_pop_list:
  assumes "sstack_wf (fst s)" "\<not> sstack_is_empty (fst s)"
  shows "fst (sstack_pop s) = last (sstack_list s)" "sstack_wf (fst (snd (sstack_pop s)))"
    "sstack_list (snd (sstack_pop s)) = butlast (sstack_list s)"
proof -
  obtain ss m where s: "s = (ss, m)" by (cases s)
  obtain t where t: "stk_top ss = Suc t" "stk_base ss \<le> t"
    using assms s by (cases "stk_top ss") (auto simp: sstack_wf_def sstack_is_empty_def)
  show "fst (sstack_pop s) = last (sstack_list s)" "sstack_wf (fst (snd (sstack_pop s)))"
    "sstack_list (snd (sstack_pop s)) = butlast (sstack_list s)"
    using assms s t by (auto simp: sstack_pop_def sstack_wf_def sstack_list_def sstack_is_empty_def)
qed

lemma sstack_empty_list: "sstack_wf (fst s) \<Longrightarrow> sstack_is_empty (fst s) \<longleftrightarrow> sstack_list s = []"
  by (auto simp: sstack_is_empty_def sstack_list_def sstack_wf_def split: prod.splits)

lemma sstack_init_list: "sstack_list (sstack_init b n, m) = []" "0 \<le> n \<or> n = -1 \<Longrightarrow> sstack_wf (sstack_init b n)"
  by (auto simp: sstack_init_def sstack_list_def sstack_wf_def)

lemma sstack_pop_push:
  assumes "sstack_wf (fst s)" "\<not> sstack_is_full (fst s)"
  shows "fst (sstack_pop (snd (sstack_push a s))) = a \<and>
    sstack_list (snd (sstack_pop (snd (sstack_push a s)))) = sstack_list s"
  using sstack_push_list [OF assms, of a] sstack_pop_list [of "snd (sstack_push a s)"]
    sstack_empty_list [of "snd (sstack_push a s)"] by simp

section \<open>Hash table\<close>

text \<open>Buckets are HOL lists of the entries (the intrusive lists of the source, see \<open>CList\<close>).  Keys are
  C ints; a negative key would index before the array, and a size of 0 divides by
  zero: both are faults.\<close>

record 'v hash_table =
  ht_size :: int
  ht_count :: int
  ht_heads :: "'v list list"

definition hash_slot :: "'v hash_table \<Rightarrow> int \<Rightarrow> nat kres" where
  "hash_slot ht key =
    (if ht_size ht > 0 \<and> key \<ge> 0 then Inr (nat (key mod ht_size ht)) else Inl (Fault ''hash index''))"

text \<open>\<open>hash_init\<close>: \<open>alloc\<close> says whether the kmalloc of the bucket array succeeds; MAX_KMALLOC_PAGE
  is 4 MiB and a list head is 16 bytes.\<close>

definition hash_init :: "int \<Rightarrow> bool \<Rightarrow> (int \<times> 'v hash_table) kres" where
  "hash_init sz alloc =
    (if (16 * sz) mod 2 ^ 64 > 4096 * 1024 then Inl (Panic ''hash_init kmalloc over'')
     else if \<not> alloc then Inr (0, \<lparr>ht_size = sz, ht_count = 0, ht_heads = []\<rparr>)
     else Inr (1, \<lparr>ht_size = sz, ht_count = 0, ht_heads = replicate (nat sz) []\<rparr>))"

definition hash_empty :: "'v hash_table \<Rightarrow> int \<Rightarrow> bool kres" where
  "hash_empty ht key = kbind (hash_slot ht key) (\<lambda>i. Inr (ht_heads ht ! i = []))"

definition hash_add_tail :: "int \<Rightarrow> 'v \<Rightarrow> 'v hash_table \<Rightarrow> 'v hash_table kres" where
  "hash_add_tail key v ht = kbind (hash_slot ht key) (\<lambda>i.
    Inr (ht\<lparr>ht_heads := (ht_heads ht)[i := ht_heads ht ! i @ [v]], ht_count := ht_count ht + 1\<rparr>))"

definition hash_add_head :: "int \<Rightarrow> 'v \<Rightarrow> 'v hash_table \<Rightarrow> 'v hash_table kres" where
  "hash_add_head key v ht = kbind (hash_slot ht key) (\<lambda>i.
    Inr (ht\<lparr>ht_heads := (ht_heads ht)[i := v # ht_heads ht ! i], ht_count := ht_count ht + 1\<rparr>))"

definition hash_find :: "('v \<Rightarrow> int) \<Rightarrow> int \<Rightarrow> 'v hash_table \<Rightarrow> 'v option kres" where
  "hash_find key_member key ht = kbind (hash_slot ht key) (\<lambda>i.
    Inr (find (\<lambda>v. key_member v = key) (ht_heads ht ! i)))"

text \<open>\<open>list_del_init\<close> unlinks the entry from the bucket it is in.\<close>

definition hash_del_node :: "'v \<Rightarrow> 'v hash_table \<Rightarrow> 'v hash_table" where
  "hash_del_node v ht = ht\<lparr>ht_heads := map (remove1 v) (ht_heads ht), ht_count := ht_count ht - 1\<rparr>"

definition hash_del :: "('v \<Rightarrow> int) \<Rightarrow> int \<Rightarrow> 'v hash_table \<Rightarrow> ('v option \<times> 'v hash_table) kres" where
  "hash_del key_member key ht = kbind (hash_find key_member key ht) (\<lambda>pos.
    case pos of None \<Rightarrow> Inr (None, ht) | Some v \<Rightarrow> Inr (Some v, hash_del_node v ht))"


definition hash_wf :: "('v \<Rightarrow> int) \<Rightarrow> 'v hash_table \<Rightarrow> bool" where
  "hash_wf keyf ht = (ht_size ht > 0 \<and> length (ht_heads ht) = nat (ht_size ht) \<and>
    (\<forall>i<length (ht_heads ht). distinct (map keyf (ht_heads ht ! i)) \<and>
      (\<forall>v\<in>set (ht_heads ht ! i). 0 \<le> keyf v \<and> nat (keyf v mod ht_size ht) = i)) \<and>
    ht_count ht = int (sum_list (map length (ht_heads ht))))"

definition hash_map :: "('v \<Rightarrow> int) \<Rightarrow> 'v hash_table \<Rightarrow> int \<Rightarrow> 'v option" where
  "hash_map keyf ht k =
    (if 0 \<le> k then find (\<lambda>v. keyf v = k) (ht_heads ht ! nat (k mod ht_size ht)) else None)"

lemma hash_slot_wf:
  assumes "hash_wf keyf ht" "0 \<le> k"
  shows "hash_slot ht k = Inr (nat (k mod ht_size ht))" "nat (k mod ht_size ht) < length (ht_heads ht)"
  using assms by (auto simp: hash_wf_def hash_slot_def nat_less_iff)

lemma hash_init_wf:
  assumes "0 < sz" "sz \<le> 262144"
  shows "\<exists>ht. hash_init sz True = Inr (1, ht) \<and> hash_wf keyf ht \<and> hash_map keyf ht = Map.empty"
proof -
  have "(16 * sz) mod 2 ^ 64 = 16 * sz" using assms by (intro mod_pos_pos_trivial) auto
  then show ?thesis using assms
    by (auto simp: hash_init_def hash_wf_def hash_map_def fun_eq_iff nat_less_iff sum_list_replicate)
qed

lemma find_map_distinct:
  assumes "distinct (map f xs)" "v \<in> set xs"
  shows "find (\<lambda>w. f w = f v) xs = Some v"
  using assms by (induction xs) auto

lemma find_remove1:
  assumes "distinct (map f xs)" "v \<in> set xs"
  shows "find (\<lambda>w. f w = k) (remove1 v xs) = (if f v = k then None else find (\<lambda>w. f w = k) xs)"
  using assms by (induction xs) (auto simp: find_None_iff dest: notin_set_remove1 intro: rev_image_eqI)

lemma sum_list_update_length:
  "i < length xss \<Longrightarrow> int (sum_list (map length (xss[i := ys]))) =
    int (sum_list (map length xss)) + int (length ys) - int (length (xss ! i))"
  by (induction xss arbitrary: i) (auto split: nat.splits)

text \<open>Both additions replace the bucket of the key by one that holds the new entry as well.\<close>

lemma hash_add_refines:
  assumes "hash_wf keyf ht" "0 \<le> keyf v" "hash_map keyf ht (keyf v) = None"
    and i: "i = nat (keyf v mod ht_size ht)"
    and b: "b = ht_heads ht ! i @ [v] \<or> b = v # ht_heads ht ! i"
    and ht': "ht' = ht\<lparr>ht_heads := (ht_heads ht)[i := b], ht_count := ht_count ht + 1\<rparr>"
  shows "hash_wf keyf ht' \<and> hash_map keyf ht' = (hash_map keyf ht)(keyf v \<mapsto> v)"
proof -
  have il: "i < length (ht_heads ht)" using hash_slot_wf [OF assms(1,2)] i by simp
  have none: "keyf v \<notin> keyf ` set (ht_heads ht ! i)"
    using assms(2,3) i by (auto simp: hash_map_def find_None_iff)
  have db: "distinct (map keyf b) \<and> set b = insert v (set (ht_heads ht ! i)) \<and> length b = length (ht_heads ht ! i) + 1"
    using assms(1) b il none unfolding hash_wf_def by (elim disjE) simp_all
  have "hash_wf keyf ht'"
    using assms(1,2) il db sum_list_update_length [OF il, of b]
    by (auto simp: hash_wf_def ht' i nth_list_update)
  moreover have "find (\<lambda>w. keyf w = k) b = (if k = keyf v then Some v else find (\<lambda>w. keyf w = k) (ht_heads ht ! i))" for k
  proof (cases "k = keyf v")
    case True
    then show ?thesis using db find_map_distinct [of keyf b v] by auto
  next
    case False
    have "find P (xs @ [x]) = find P xs" if "\<not> P x" for P and x :: 'a and xs using that by (induction xs) auto
    then show ?thesis using False b by auto
  qed
  then have "hash_map keyf ht' = (hash_map keyf ht)(keyf v \<mapsto> v)"
    using assms(2) il by (auto simp: hash_map_def ht' i fun_eq_iff nth_list_update)
  ultimately show ?thesis by simp
qed

lemma hash_del_node_refines:
  assumes "hash_wf keyf ht" "hash_map keyf ht (keyf v) = Some v"
  shows "hash_wf keyf (hash_del_node v ht) \<and>
    hash_map keyf (hash_del_node v ht) = (hash_map keyf ht)(keyf v := None)"
proof -
  define i where "i = nat (keyf v mod ht_size ht)"
  have k: "0 \<le> keyf v" using assms(2) by (auto simp: hash_map_def split: if_splits)
  have il: "i < length (ht_heads ht)" using hash_slot_wf [OF assms(1) k] i_def by simp
  have vin: "v \<in> set (ht_heads ht ! i)"
    using assms(2) k by (auto simp: hash_map_def i_def find_Some_iff in_set_conv_nth)
  have other: "v \<notin> set (ht_heads ht ! j)" if "j < length (ht_heads ht)" "j \<noteq> i" for j
    using assms(1) that by (auto simp: hash_wf_def i_def)
  have eq: "map (remove1 v) (ht_heads ht) = (ht_heads ht)[i := remove1 v (ht_heads ht ! i)]"
    by (rule nth_equalityI) (use il other in \<open>auto simp: nth_list_update remove1_idem\<close>)
  have d: "distinct (map keyf (ht_heads ht ! i))" using assms(1) il by (simp add: hash_wf_def)
  then have db: "distinct (map keyf (remove1 v (ht_heads ht ! i)))"
    by (simp add: distinct_map inj_on_def)
  have len: "int (length (remove1 v (ht_heads ht ! i))) - int (length (ht_heads ht ! i)) = -1"
    using length_pos_if_in_set [OF vin] vin by (simp add: length_remove1 int_ops(6))
  have "hash_wf keyf (hash_del_node v ht)"
    using assms(1) il db sum_list_update_length [OF il, of "remove1 v (ht_heads ht ! i)"] len
    by (auto simp: hash_wf_def hash_del_node_def eq nth_list_update dest: subsetD [OF set_remove1_subset])
  moreover have "hash_map keyf (hash_del_node v ht) = (hash_map keyf ht)(keyf v := None)"
    using k il find_remove1 [OF d vin]
    by (auto simp: hash_map_def hash_del_node_def eq fun_eq_iff nth_list_update i_def)
  ultimately show ?thesis by simp
qed


subsection \<open>The map contract\<close>

datatype ('k, 'v) mop = MAdd 'v | MDel 'k | MFind 'k

text \<open>A run of table operations; an addition returns nothing, a search and a deletion return the
  entry found.\<close>

primrec run_table ::
  "('v \<Rightarrow> 's \<Rightarrow> 's kres) \<Rightarrow> ('k \<Rightarrow> 's \<Rightarrow> ('v option \<times> 's) kres) \<Rightarrow> ('k \<Rightarrow> 's \<Rightarrow> 'v option kres)
    \<Rightarrow> ('k, 'v) mop list \<Rightarrow> 's \<Rightarrow> ('v option list \<times> 's) kres" where
  "run_table add del look [] s = Inr ([], s)"
| "run_table add del look (op # ops) s = (case op of
      MAdd v \<Rightarrow> kbind (add v s) (run_table add del look ops)
    | MDel k \<Rightarrow> kbind (del k s) (\<lambda>(r, t). kbind (run_table add del look ops t) (\<lambda>(rs, u). Inr (r # rs, u)))
    | MFind k \<Rightarrow> kbind (look k s) (\<lambda>r. kbind (run_table add del look ops s) (\<lambda>(rs, u). Inr (r # rs, u))))"

primrec table_spec :: "('v \<Rightarrow> 'k) \<Rightarrow> ('k, 'v) mop list \<Rightarrow> ('k \<rightharpoonup> 'v) \<Rightarrow> 'v option list \<times> ('k \<rightharpoonup> 'v)" where
  "table_spec keyf [] M = ([], M)"
| "table_spec keyf (op # ops) M = (case op of
      MAdd v \<Rightarrow> table_spec keyf ops (M(keyf v \<mapsto> v))
    | MDel k \<Rightarrow> (let (rs, N) = table_spec keyf ops (M(k := None)) in (M k # rs, N))
    | MFind k \<Rightarrow> (let (rs, N) = table_spec keyf ops M in (M k # rs, N)))"

text \<open>Admissible runs: valid keys only, and no addition of a key that is present.\<close>

primrec table_ok :: "('v \<Rightarrow> 'k) \<Rightarrow> ('k \<Rightarrow> bool) \<Rightarrow> ('k, 'v) mop list \<Rightarrow> ('k \<rightharpoonup> 'v) \<Rightarrow> bool" where
  "table_ok keyf valid [] M = True"
| "table_ok keyf valid (op # ops) M = (case op of
      MAdd v \<Rightarrow> valid (keyf v) \<and> M (keyf v) = None \<and> table_ok keyf valid ops (M(keyf v \<mapsto> v))
    | MDel k \<Rightarrow> valid k \<and> table_ok keyf valid ops (M(k := None))
    | MFind k \<Rightarrow> valid k \<and> table_ok keyf valid ops M)"

locale map_contract =
  fixes wf :: "'s \<Rightarrow> bool"
    and amap :: "'s \<Rightarrow> 'k \<Rightarrow> 'v option"
    and keyf :: "'v \<Rightarrow> 'k"
    and valid :: "'k \<Rightarrow> bool"
    and add :: "'v \<Rightarrow> 's \<Rightarrow> 's kres"
    and del :: "'k \<Rightarrow> 's \<Rightarrow> ('v option \<times> 's) kres"
    and look :: "'k \<Rightarrow> 's \<Rightarrow> 'v option kres"
  assumes add_law: "wf s \<Longrightarrow> valid (keyf v) \<Longrightarrow> amap s (keyf v) = None \<Longrightarrow>
      \<exists>t. add v s = Inr t \<and> wf t \<and> amap t = (amap s)(keyf v \<mapsto> v)"
    and del_law: "wf s \<Longrightarrow> valid k \<Longrightarrow> \<exists>t. del k s = Inr (amap s k, t) \<and> wf t \<and> amap t = (amap s)(k := None)"
    and look_law: "wf s \<Longrightarrow> valid k \<Longrightarrow> look k s = Inr (amap s k)"
begin

lemma run_table_refines:
  assumes "wf s" "table_ok keyf valid ops (amap s)"
  shows "\<exists>t. run_table add del look ops s = Inr (fst (table_spec keyf ops (amap s)), t) \<and>
    wf t \<and> amap t = snd (table_spec keyf ops (amap s))"
  using assms
proof (induction ops arbitrary: s)
  case Nil
  then show ?case by simp
next
  case (Cons op ops)
  show ?case
  proof (cases op)
    case (MAdd v)
    then obtain t where t: "add v s = Inr t" "wf t" "amap t = (amap s)(keyf v \<mapsto> v)"
      using Cons.prems add_law [of s v] by auto
    show ?thesis using Cons.IH [OF t(2), unfolded t(3)] Cons.prems MAdd t(1) by (simp del: fun_upd_apply)
  next
    case (MDel k)
    then obtain t where t: "del k s = Inr (amap s k, t)" "wf t" "amap t = (amap s)(k := None)"
      using Cons.prems del_law [of s k] by auto
    show ?thesis using Cons.IH [OF t(2), unfolded t(3)] Cons.prems MDel t(1)
      by (auto simp: split_beta simp del: fun_upd_apply)
  next
    case (MFind k)
    with Cons.IH [of s] Cons.prems look_law [of s k] show ?thesis by (auto simp: split_beta)
  qed
qed

end

lemma hash_add_head_law:
  assumes "hash_wf keyf ht" "0 \<le> keyf v" "hash_map keyf ht (keyf v) = None"
  shows "\<exists>t. hash_add_head (keyf v) v ht = Inr t \<and> hash_wf keyf t \<and> hash_map keyf t = (hash_map keyf ht)(keyf v \<mapsto> v)"
  using hash_add_refines [OF assms refl] hash_slot_wf [OF assms(1,2)] by (simp add: hash_add_head_def)

lemma hash_add_tail_law:
  assumes "hash_wf keyf ht" "0 \<le> keyf v" "hash_map keyf ht (keyf v) = None"
  shows "\<exists>t. hash_add_tail (keyf v) v ht = Inr t \<and> hash_wf keyf t \<and> hash_map keyf t = (hash_map keyf ht)(keyf v \<mapsto> v)"
  using hash_add_refines [OF assms refl] hash_slot_wf [OF assms(1,2)] by (simp add: hash_add_tail_def)

lemma hash_find_law:
  "hash_wf keyf ht \<Longrightarrow> 0 \<le> k \<Longrightarrow> hash_find keyf k ht = Inr (hash_map keyf ht k)"
  by (simp add: hash_find_def hash_slot_wf hash_map_def)

lemma hash_del_law:
  assumes "hash_wf keyf ht" "0 \<le> k"
  shows "\<exists>t. hash_del keyf k ht = Inr (hash_map keyf ht k, t) \<and> hash_wf keyf t \<and>
    hash_map keyf t = (hash_map keyf ht)(k := None)"
proof (cases "hash_map keyf ht k")
  case None
  then show ?thesis using assms by (auto simp: hash_del_def hash_find_law fun_upd_idem)
next
  case (Some v)
  then have "keyf v = k" using assms(2) by (auto simp: hash_map_def find_Some_iff)
  then show ?thesis using assms Some hash_del_node_refines [OF assms(1), of v]
    by (auto simp: hash_del_def hash_find_law)
qed

interpretation hash_head: map_contract
  "hash_wf keyf" "hash_map keyf" keyf "\<lambda>k. 0 \<le> k" "\<lambda>v. hash_add_head (keyf v) v" "hash_del keyf" "hash_find keyf"
  for keyf :: "'v \<Rightarrow> int"
  by unfold_locales (auto simp: hash_add_head_law hash_del_law hash_find_law)

interpretation hash_tail: map_contract
  "hash_wf keyf" "hash_map keyf" keyf "\<lambda>k. 0 \<le> k" "\<lambda>v. hash_add_tail (keyf v) v" "hash_del keyf" "hash_find keyf"
  for keyf :: "'v \<Rightarrow> int"
  by unfold_locales (auto simp: hash_add_tail_law hash_del_law hash_find_law)

text \<open>
  C25: the hash table is a finite map.  After \<open>hash_init\<close> with a positive size, any run of
  \<open>hash_add_head\<close>, \<open>hash_del\<close> and \<open>hash_find\<close> with non-negative keys that never adds a present
  key returns what a map returns, and ends in a table whose \<open>count\<close> is the number of
  entries and whose contents are those of the map.
\<close>

theorem hash_is_map:
  assumes "0 < sz" "sz \<le> 262144" "table_ok keyf (\<lambda>k. 0 \<le> k) ops Map.empty"
  shows "\<exists>ht t. hash_init sz True = Inr (1, ht) \<and>
    run_table (\<lambda>v. hash_add_head (keyf v) v) (hash_del keyf) (hash_find keyf) ops ht
      = Inr (fst (table_spec keyf ops Map.empty), t) \<and>
    hash_map keyf t = snd (table_spec keyf ops Map.empty) \<and>
    ht_count t = int (length (concat (ht_heads t)))"
proof -
  obtain ht where ht: "hash_init sz True = Inr (1, ht)" "hash_wf keyf ht" "hash_map keyf ht = Map.empty"
    using hash_init_wf [OF assms(1,2)] by metis
  then show ?thesis using hash_head.run_table_refines [of keyf ht ops] assms(3)
    by (auto simp: hash_wf_def length_concat)
qed

theorem hash_is_map_witness:
  "\<exists>ht t. hash_init 4 True = Inr (1, ht) \<and>
    run_table (\<lambda>v. hash_add_head (fst v) v) (hash_del fst) (hash_find fst)
      [MAdd (1, ''a''), MAdd (5, ''b''), MFind 1, MDel 5, MFind 5] ht
      = Inr ([Some (1, ''a''), Some (5, ''b''), None], t) \<and> hash_map fst t 1 = Some (1, ''a'')"
  using hash_is_map [of 4 fst "[MAdd (1, ''a''), MAdd (5, ''b''), MFind 1, MDel 5, MFind 5]"] by auto

section \<open>Two level LRU list\<close>

text \<open>The nodes are numbers; \<open>lru_access\<close> is the \<open>access\<close> member of each node.\<close>

record lru2_list =
  act_list :: "nat list"
  ina_list :: "nat list"
  lru_access :: "nat \<Rightarrow> nat"

definition lru2_init :: "(nat \<Rightarrow> nat) \<Rightarrow> lru2_list" where
  "lru2_init acc = \<lparr>act_list = [], ina_list = [], lru_access = acc\<rparr>"

definition lru2_node_init :: "nat \<Rightarrow> lru2_list \<Rightarrow> lru2_list" where
  "lru2_node_init n l = l\<lparr>lru_access := (lru_access l)(n := 0)\<rparr>"

definition lru2_up :: "nat \<Rightarrow> lru2_list \<Rightarrow> lru2_list kres" where
  "lru2_up n l =
    (if lru_access l n = 2 then Inr (l\<lparr>act_list := remove1 n (act_list l) @ [n]\<rparr>)
     else if lru_access l n = 1 then
       Inr (l\<lparr>lru_access := (lru_access l)(n := 2), ina_list := remove1 n (ina_list l),
              act_list := act_list l @ [n]\<rparr>)
     else if lru_access l n = 0 then
       Inr (l\<lparr>lru_access := (lru_access l)(n := 1), ina_list := ina_list l @ [n]\<rparr>)
     else Inl (Panic ''lru2_upgrade''))"

definition lru2_down :: "nat \<Rightarrow> lru2_list \<Rightarrow> lru2_list kres" where
  "lru2_down n l =
    (if lru_access l n = 2 then
       Inr (l\<lparr>lru_access := (lru_access l)(n := 1), act_list := remove1 n (act_list l),
              ina_list := ina_list l @ [n]\<rparr>)
     else if lru_access l n = 1 then
       Inr (l\<lparr>lru_access := (lru_access l)(n := 0), ina_list := remove1 n (ina_list l)\<rparr>)
     else Inl (Panic ''lru2_downgrade''))"

definition lru2_wf :: "lru2_list \<Rightarrow> bool" where
  "lru2_wf l = (distinct (act_list l) \<and> distinct (ina_list l) \<and>
    (\<forall>n. lru_access l n \<le> 2 \<and> (n \<in> set (act_list l) \<longleftrightarrow> lru_access l n = 2) \<and>
      (n \<in> set (ina_list l) \<longleftrightarrow> lru_access l n = 1)))"

lemma lru2_cases:
  assumes "lru2_wf l"
  obtains "lru_access l n = 0" "n \<notin> set (act_list l)" "n \<notin> set (ina_list l)"
  | "lru_access l n = 1" "n \<notin> set (act_list l)" "n \<in> set (ina_list l)"
  | "lru_access l n = 2" "n \<in> set (act_list l)" "n \<notin> set (ina_list l)"
proof -
  have "lru_access l n \<le> 2" using assms by (simp add: lru2_wf_def)
  then have "lru_access l n = 0 \<or> lru_access l n = 1 \<or> lru_access l n = 2" by linarith
  then show thesis using that assms by (auto simp: lru2_wf_def)
qed

text \<open>On well-formed lists no promotion panics, and only the demotion of an unlisted node does.\<close>

lemma lru2_up_wf:
  assumes "lru2_wf l"
  shows "\<exists>l'. lru2_up n l = Inr l' \<and> lru2_wf l'"
  by (rule lru2_cases [OF assms, of n]) (use assms in \<open>auto simp: lru2_wf_def lru2_up_def\<close>)

lemma lru2_down_wf:
  assumes "lru2_wf l" "lru_access l n \<noteq> 0"
  shows "\<exists>l'. lru2_down n l = Inr l' \<and> lru2_wf l'"
  by (rule lru2_cases [OF assms(1), of n]) (use assms in \<open>auto simp: lru2_wf_def lru2_down_def\<close>)

lemma lru2_down_unlisted: "lru2_wf l \<Longrightarrow> lru_access l n = 0 \<Longrightarrow> lru2_down n l = Inl (Panic ''lru2_downgrade'')"
  by (simp add: lru2_down_def)

end
