(* ===== verification/LibMath.thy ===== *)
theory LibMath
  imports Prelude
begin

text \<open>
  lib/math.c: rounding up to a power of two by bit smearing, binary order, integer logarithm
  and power, on the unsigned types of the source with wrap-around.
\<close>

unbundle bit_operations_syntax

section \<open>Definitions\<close>

text \<open>One step \<open>n |= n >> k\<close>.\<close>

definition smear :: "nat \<Rightarrow> 'a::len word \<Rightarrow> 'a word" where
  "smear k n = n OR drop_bit k n"

definition next_power_of_2 :: "u64 \<Rightarrow> u64" where
  "next_power_of_2 n =
    (if n = 0 then 1
     else smear 32 (smear 16 (smear 8 (smear 4 (smear 2 (smear 1 (n - 1)))))) + 1)"

function order_loop :: "u32 \<Rightarrow> u32 \<Rightarrow> u32" where
  "order_loop sz order = (if sz > 1 then order_loop (drop_bit 1 sz) (order + 1) else order)"
  by pat_completeness auto
termination
proof (relation "measure (\<lambda>(sz, order). unat sz)")
  fix sz order :: u32
  assume "sz > 1"
  then have "unat (1::u32) < unat sz" by (rule unat_mono)
  then show "((drop_bit 1 sz, order + 1), (sz, order)) \<in> measure (\<lambda>(sz, order). unat sz)"
    by (simp add: drop_bit_eq_div unat_div_distrib)
qed simp

declare order_loop.simps [simp del]

definition math_order2 :: "u32 \<Rightarrow> u32" where
  "math_order2 sz =
    (if sz = 0 then 0
     else order_loop (smear 16 (smear 8 (smear 4 (smear 2 (smear 1 (sz - 1))))) + 1) 0)"

text \<open>The loop of \<open>math_log\<close>; the source enters it only with \<open>base > 1\<close>, which is part of the
  loop test here so that the function is total.\<close>

function log_loop :: "u32 \<Rightarrow> u32 \<Rightarrow> u32 \<Rightarrow> u32" where
  "log_loop num base result =
    (if base > 1 \<and> num \<ge> base then log_loop (num div base) base (result + 1) else result)"
  by pat_completeness auto
termination
proof (relation "measure (\<lambda>(num, base, result). unat num)")
  fix num base result :: u32
  assume "base > 1 \<and> num \<ge> base"
  then have "unat (1::u32) < unat base" "unat base \<le> unat num"
    by (auto simp: word_less_nat_alt word_le_nat_alt)
  then show "((num div base, base, result + 1), (num, base, result)) \<in> measure (\<lambda>(num, base, result). unat num)"
    by (simp add: unat_div_distrib)
qed simp

declare log_loop.simps [simp del]

definition math_log :: "u32 \<Rightarrow> u16 \<Rightarrow> u32" where
  "math_log num base = (if base \<le> 1 \<or> num \<le> 0 then 0 else log_loop num (ucast base) 0)"

function pow_loop :: "u32 \<Rightarrow> u32 \<Rightarrow> u16 \<Rightarrow> u32" where
  "pow_loop result base exponent =
    (if exponent > 0 then pow_loop (result * base) base (exponent - 1) else result)"
  by pat_completeness auto
termination
  by (relation "measure (\<lambda>(result, base, exponent). unat exponent)") (auto simp: unat_minus_one word_gt_0 unat_gt_0)

declare pow_loop.simps [simp del]

definition math_pow :: "u32 \<Rightarrow> u16 \<Rightarrow> u32" where
  "math_pow base exponent = (if exponent = 0 then 1 else pow_loop 1 base exponent)"

section \<open>Bit smearing\<close>

text \<open>\<open>window x y w\<close>: bit i of y is set iff one of the bits i, ..., i + w - 1 of x is set.\<close>

definition window :: "'a::len word \<Rightarrow> 'a word \<Rightarrow> nat \<Rightarrow> bool" where
  "window x y w = (\<forall>i. bit y i \<longleftrightarrow> (\<exists>d<w. bit x (i + d)))"

lemma window_self: "window x x 1"
  by (simp add: window_def)

lemma window_smear:
  assumes "window x y w" "v = w + w"
  shows "window x (smear w y) v"
  unfolding window_def assms(2)
proof
  fix i
  have "bit (smear w y) i \<longleftrightarrow> (\<exists>d<w. bit x (i + d)) \<or> (\<exists>d<w. bit x (i + w + d))"
    using assms(1) by (simp add: smear_def bit_or_iff bit_drop_bit_eq window_def add.commute)
  also have "\<dots> \<longleftrightarrow> (\<exists>d<w+w. bit x (i + d))"
  proof
    assume "(\<exists>d<w. bit x (i + d)) \<or> (\<exists>d<w. bit x (i + w + d))"
    then show "\<exists>d<w+w. bit x (i + d)" by (metis add.assoc add_less_mono trans_less_add1 nat_add_left_cancel_less)
  next
    assume "\<exists>d<w+w. bit x (i + d)"
    then obtain d where d: "d < w + w" "bit x (i + d)" by blast
    show "(\<exists>d<w. bit x (i + d)) \<or> (\<exists>d<w. bit x (i + w + d))"
    proof (cases "d < w")
      case False
      with d have "d - w < w" "bit x (i + w + (d - w))" by auto
      then show ?thesis by blast
    qed (use d in blast)
  qed
  finally show "bit (smear w y) i \<longleftrightarrow> (\<exists>d<w+w. bit x (i + d))" .
qed

lemma top_bit:
  fixes x :: "'a::len word"
  assumes "x \<noteq> 0"
  obtains k where "k < LENGTH('a)" "2 ^ k \<le> unat x" "unat x < 2 ^ Suc k"
    "bit x k" "\<And>j. k < j \<Longrightarrow> \<not> bit x j"
proof -
  have "1 \<le> unat x" using assms by (simp add: Suc_le_eq unat_gt_0)
  then obtain k where k: "2 ^ k \<le> unat x" "unat x < 2 ^ (k + 1)" using ex_power_ivl1 [of 2 "unat x"] by auto
  have "(2::nat) ^ k < 2 ^ LENGTH('a)" using k(1) unat_less_width [of x] by (rule order.strict_trans1)
  then have "k < LENGTH('a)" by simp
  moreover have "unat x div 2 ^ k = 1" using k by (intro div_nat_eqI) auto
  then have "bit x k" by (simp add: bit_unat [symmetric] bit_iff_odd)
  moreover have "\<not> bit x j" if "k < j" for j
  proof -
    have "(2::nat) ^ (k + 1) \<le> 2 ^ j" using that by (intro power_increasing) auto
    then have "unat x < 2 ^ j" using k(2) by linarith
    then have "\<not> bit (unat x) j" by (simp add: bit_iff_odd)
    then show ?thesis by (simp add: bit_unat)
  qed
  ultimately show thesis using that k by auto
qed

lemma window_full:
  fixes x y :: "'a::len word"
  assumes "window x y LENGTH('a)" "bit x k" "\<And>j. k < j \<Longrightarrow> \<not> bit x j"
  shows "y + 1 = 2 ^ Suc k"
proof -
  have k: "k < LENGTH('a)" using assms(2) by (rule bit_imp_le_length)
  have y: "bit y i \<longleftrightarrow> i \<le> k" for i
  proof
    assume "bit y i"
    then obtain d where "bit x (i + d)" using assms(1) by (auto simp: window_def)
    then show "i \<le> k" using assms(3) [of "i + d"] by (metis le_add1 le_trans not_le)
  next
    assume "i \<le> k"
    then show "bit y i" using assms(1,2) k by (auto simp: window_def intro!: exI [of _ "k - i"])
  qed
  have "y = mask (Suc k)" by (rule bit_word_eqI) (simp add: y bit_mask_iff less_Suc_eq_le)
  then show ?thesis by (simp only: mask_eq_exp_minus_1 diff_add_cancel)
qed

text \<open>Smearing \<open>n - 1\<close> over the whole width and adding one gives the least power of two above n,
  or 0 when that power does not fit the width.\<close>

lemma smeared_power:
  fixes n :: "'a::len word"
  assumes "1 < n" "window (n - 1) y LENGTH('a)"
  obtains k where "y + 1 = 2 ^ k" "unat n \<le> 2 ^ k" "2 ^ k < 2 * unat n" "k \<le> LENGTH('a)"
proof -
  have "n \<noteq> 0" using assms(1) by auto
  then have n: "unat (n - 1) = unat n - 1" "1 < unat n"
    using assms(1) unat_minus_one [of n] by (simp_all add: word_less_nat_alt)
  then have "unat (n - 1) \<noteq> 0" by linarith
  then have "n - 1 \<noteq> 0" by (rule contrapos_nn) (simp only: unsigned_0)
  then obtain j where j: "j < LENGTH('a)" "2 ^ j \<le> unat (n - 1)" "unat (n - 1) < 2 ^ Suc j"
    "bit (n - 1) j" "\<And>i. j < i \<Longrightarrow> \<not> bit (n - 1) i"
    using top_bit [of "n - 1"] by blast
  have y: "y + 1 = 2 ^ Suc j" by (rule window_full [OF assms(2) j(4,5)])
  have "unat n \<le> 2 ^ Suc j" "2 ^ Suc j < 2 * unat n" using j(2,3) n by auto
  with y show thesis using j(1) by (intro that [of "Suc j"]) auto
qed


lemma smear_32_window:
  fixes x :: u32
  shows "window x (smear 16 (smear 8 (smear 4 (smear 2 (smear 1 x))))) 32"
  by (intro window_smear window_self) simp_all

lemma smear_64_window:
  fixes x :: u64
  shows "window x (smear 32 (smear 16 (smear 8 (smear 4 (smear 2 (smear 1 x)))))) 64"
  by (intro window_smear window_self) simp_all

lemma next_power_of_2_spec:
  assumes "n \<noteq> 0" "unat n \<le> 2 ^ 63"
  shows "\<exists>k\<le>63. unat (next_power_of_2 n) = 2 ^ k \<and> unat n \<le> 2 ^ k \<and> 2 ^ k < 2 * unat n"
proof (cases "n = 1")
  case True
  then show ?thesis by (auto simp: next_power_of_2_def smear_def intro!: exI [of _ 0])
next
  case False
  let ?y = "smear 32 (smear 16 (smear 8 (smear 4 (smear 2 (smear 1 (n - 1))))))"
  from False have "1 < n" using word_nonzero_cases assms(1) by blast
  then obtain k where k: "?y + 1 = 2 ^ k" "unat n \<le> 2 ^ k" "2 ^ k < 2 * unat n"
    using smear_64_window [of "n - 1"] by (auto elim!: smeared_power)
  have "(2::nat) ^ k < 2 ^ 64" using k(3) assms(2) by simp
  then have "k \<le> 63" using power_less_imp_less_exp [of "2::nat" k 64] by simp
  moreover from this have "unat ((2::u64) ^ k) = 2 ^ k" by (intro unat_two_power) simp
  ultimately show ?thesis using k assms(1) by (auto simp: next_power_of_2_def intro!: exI [of _ k])
qed

text \<open>Above \<open>2 ^ 63\<close> the addition wraps and the result is 0.\<close>

lemma next_power_of_2_wraps:
  assumes "2 ^ 63 < unat n"
  shows "next_power_of_2 n = 0"
proof -
  let ?y = "smear 32 (smear 16 (smear 8 (smear 4 (smear 2 (smear 1 (n - 1))))))"
  have "1 < n" using assms by (simp add: word_less_nat_alt)
  then obtain k where k: "?y + 1 = 2 ^ k" "unat n \<le> 2 ^ k" "k \<le> 64"
    using smear_64_window [of "n - 1"] by (auto elim!: smeared_power)
  have "\<not> k \<le> 63"
  proof
    assume "k \<le> 63"
    then have "(2::nat) ^ k \<le> 2 ^ 63" by (intro power_increasing) auto
    with k assms show False by linarith
  qed
  with k(3) have "k = 64" by simp
  have "(2::u64) ^ 64 = 0" by simp
  then show ?thesis using k(1) \<open>1 < n\<close> unfolding next_power_of_2_def \<open>k = 64\<close> by auto
qed

text \<open>
  C27: for every argument up to \<open>2 ^ 63\<close>, zero included, \<open>next_power_of_2\<close> returns the least power of two that is at
  least its argument; above \<open>2 ^ 63\<close>, where that power does not fit 64 bits, it returns 0.
\<close>

theorem next_power_of_2_least:
  "(unat n \<le> 2 ^ 63 \<longrightarrow> (\<exists>k\<le>63. unat (next_power_of_2 n) = 2 ^ k \<and> unat n \<le> 2 ^ k \<and> (\<forall>j. unat n \<le> 2 ^ j \<longrightarrow> k \<le> j))) \<and>
   (2 ^ 63 < unat n \<longrightarrow> next_power_of_2 n = 0)"
proof (intro conjI impI)
  assume n: "unat n \<le> 2 ^ 63"
  show "\<exists>k\<le>63. unat (next_power_of_2 n) = 2 ^ k \<and> unat n \<le> 2 ^ k \<and> (\<forall>j. unat n \<le> 2 ^ j \<longrightarrow> k \<le> j)"
  proof (cases "n = 0")
    case True
    then show ?thesis by (intro exI [of _ 0]) (simp add: next_power_of_2_def)
  next
    case False
    obtain k where k: "k \<le> 63" "unat (next_power_of_2 n) = 2 ^ k" "unat n \<le> 2 ^ k" "2 ^ k < 2 * unat n"
      using next_power_of_2_spec [OF False n] by blast
    have "k \<le> j" if "unat n \<le> 2 ^ j" for j
    proof -
      have "(2::nat) ^ k < 2 ^ Suc j" using k(4) that by simp
      then have "k < Suc j" by (rule power_less_imp_less_exp [rotated]) simp
      then show ?thesis by simp
    qed
    then show ?thesis using k by blast
  qed
qed (rule next_power_of_2_wraps)

theorem next_power_of_2_least_witness:
  "(\<exists>k\<le>63. unat (next_power_of_2 0) = 2 ^ k \<and> (\<forall>j. (0::nat) \<le> 2 ^ j \<longrightarrow> k \<le> j)) \<and>
   (\<exists>k\<le>63. unat (next_power_of_2 1000) = 2 ^ k \<and> (1000::nat) \<le> 2 ^ k \<and> (\<forall>j. (1000::nat) \<le> 2 ^ j \<longrightarrow> k \<le> j)) \<and>
   next_power_of_2 (2 ^ 63 + 1) = 0"
  using next_power_of_2_least [of 0] next_power_of_2_least [of 1000] next_power_of_2_least [of "2 ^ 63 + 1"] by simp

lemma order_loop_power:
  assumes "k < 32"
  shows "order_loop (2 ^ k) r = r + of_nat k"
  using assms
proof (induction k arbitrary: r)
  case 0
  then show ?case by (simp add: order_loop.simps)
next
  case (Suc k)
  have "unat ((2::u32) ^ Suc k) = 2 ^ Suc k" using Suc.prems by (intro unat_two_power) simp
  moreover have "(1::nat) < 2 ^ Suc k" by (rule one_less_power) simp_all
  ultimately have "(1::u32) < 2 ^ Suc k" by (simp add: word_less_nat_alt)
  moreover have "drop_bit 1 ((2::u32) ^ Suc k) = 2 ^ k"
    using Suc.prems by (intro bit_word_eqI) (auto simp: bit_simps)
  ultimately show ?case using Suc by (subst order_loop.simps) (simp add: algebra_simps)
qed

lemma math_order2_spec:
  assumes "sz \<noteq> 0" "unat sz \<le> 2 ^ 31"
  shows "unat (math_order2 sz) \<le> 31 \<and> unat sz \<le> 2 ^ unat (math_order2 sz) \<and>
    2 ^ unat (math_order2 sz) < 2 * unat sz"
proof (cases "sz = 1")
  case True
  then show ?thesis by (simp add: math_order2_def smear_def order_loop.simps)
next
  case False
  let ?y = "smear 16 (smear 8 (smear 4 (smear 2 (smear 1 (sz - 1)))))"
  from False have "1 < sz" using word_nonzero_cases assms(1) by blast
  then obtain k where k: "?y + 1 = 2 ^ k" "unat sz \<le> 2 ^ k" "2 ^ k < 2 * unat sz"
    using smear_32_window [of "sz - 1"] by (auto elim!: smeared_power)
  have "(2::nat) ^ k < 2 ^ 32" using k(3) assms(2) by simp
  then have k31: "k < 32" using power_less_imp_less_exp [of "2::nat" k 32] by simp
  then have "math_order2 sz = of_nat k" using k(1) assms(1) by (simp add: math_order2_def order_loop_power)
  moreover have "unat (of_nat k :: u32) = k" using k31 by (intro unat_of_nat_id) simp
  ultimately show ?thesis using k k31 by simp
qed

text \<open>
  \<open>math_order2\<close> returns the binary order of the least power of two that is at least its
  argument: the order of the smallest block of pages or size class that holds it.
\<close>

theorem math_order2_least:
  assumes "sz \<noteq> 0" "unat sz \<le> 2 ^ 31"
  shows "unat (math_order2 sz) \<le> 31 \<and> unat sz \<le> 2 ^ unat (math_order2 sz) \<and>
    2 ^ unat (math_order2 sz) < 2 * unat sz"
  using math_order2_spec [OF assms] .

theorem math_order2_least_witness:
  "unat (math_order2 5000) \<le> 31 \<and> (5000::nat) \<le> 2 ^ unat (math_order2 5000) \<and>
   2 ^ unat (math_order2 5000) < (10000::nat)"
  using math_order2_least [of 5000] by simp

section \<open>Logarithm and power\<close>

lemma log_loop_spec:
  assumes "1 < base" "num \<noteq> 0"
  shows "\<exists>r. log_loop num base res = res + of_nat r \<and>
    unat base ^ r \<le> unat num \<and> unat num < unat base ^ Suc r"
  using assms
proof (induction num base res rule: log_loop.induct)
  case (1 num base res)
  have b: "1 < unat base" using 1(2) by (simp add: word_less_nat_alt)
  show ?case
  proof (cases "num \<ge> base")
    case False
    then show ?thesis using 1(2,3)
      by (intro exI [of _ 0]) (auto simp: log_loop.simps word_le_nat_alt Suc_le_eq unat_gt_0)
  next
    case True
    have q: "unat (num div base) = unat num div unat base" by (rule unat_div_distrib)
    have "unat base \<le> unat num" using True by (simp add: word_le_nat_alt)
    then have "0 < unat num div unat base" using b by (simp add: div_greater_zero_iff)
    then have "num div base \<noteq> 0" using q by (metis less_irrefl unat_0)
    then obtain r where r: "log_loop (num div base) base (res + 1) = (res + 1) + of_nat r"
      "unat base ^ r \<le> unat num div unat base" "unat num div unat base < unat base ^ Suc r"
      using 1(1) True 1(2) q by auto
    have "unat base ^ Suc r \<le> unat num" using r(2) b by (simp add: less_eq_div_iff_mult_less_eq mult.commute)
    moreover have "unat num < unat base ^ Suc (Suc r)" using r(3) b by (simp add: div_less_iff_less_mult mult.commute)
    ultimately show ?thesis using r(1) True 1(2)
      by (intro exI [of _ "Suc r"]) (simp add: log_loop.simps [of num] algebra_simps)
  qed
qed

lemma math_log_spec:
  assumes "1 < base" "num \<noteq> 0"
  shows "\<exists>r. math_log num base = of_nat r \<and> unat base ^ r \<le> unat num \<and> unat num < unat base ^ Suc r"
proof -
  have "unat (ucast base :: u32) = unat base" by (simp add: unat_ucast_up)
  moreover from this have "1 < (ucast base :: u32)" using assms(1) by (simp add: word_less_nat_alt)
  ultimately show ?thesis using log_loop_spec [of "ucast base" num 0] assms
    by (auto simp: math_log_def)
qed

lemma pow_loop_power: "pow_loop r base e = r * base ^ unat e"
proof (induction r base e rule: pow_loop.induct)
  case (1 r base e)
  show ?case
  proof (cases "e = 0")
    case False
    then obtain m where m: "unat e = Suc m" by (metis not0_implies_Suc unat_eq_zero)
    then have "unat (e - 1) = m" using False by (simp add: unat_minus_one)
    then show ?thesis using 1 False m by (subst pow_loop.simps) (simp add: word_gt_0 mult.assoc)
  qed (simp add: pow_loop.simps)
qed

lemma math_pow_power: "math_pow base e = base ^ unat e"
  by (simp add: math_pow_def pow_loop_power)

end
