(* ===== verification/Slab.thy ===== *)
theory Slab
  imports BuddyRun Containers LibMath
begin

text \<open>
  mm/slab.c: the object caches on top of the buddy allocator.  A slab is named by the physical
  address of its descriptor page and a cache by its address; 0 is the null pointer.  The slab lists hold
  slab addresses; the node of a slab that is on neither list of its cache is linked to itself, which is
  how \<open>kmem_cache_free\<close> recognises a per-core slab.  The locked sections are single steps; \<open>cpu\<close>
  is the core that runs the operation.

  \<open>slab_inv\<close> ties the free stacks, the counters, the slab lists, the page descriptors and the
  buddy allocator together.  Allocation, freeing, creation and destruction of caches keep it, and
  under it the objects in use are pairwise disjoint byte ranges.
\<close>

section \<open>Definitions\<close>

record slab =
  sl_kc :: addr
  sl_objs :: addr
  sl_inuse :: nat
  sl_free :: "sstack \<times> addr wmem"

record kmem_cache =
  kc_cpu :: "addr list"
  kc_size :: nat
  kc_order :: nat
  kc_count :: nat
  kc_part :: "addr list"
  kc_full :: "addr list"

record kmem =
  km_mm :: mm
  km_slab :: "addr \<Rightarrow> slab"
  km_cache :: "addr \<Rightarrow> kmem_cache"
  km_list :: "addr list"

definition FREE_LIST_MAX_LEN :: nat where "FREE_LIST_MAX_LEN = PGSIZE div 16"
definition MIN_OBJ_COUNT_PER_PAGE :: nat where "MIN_OBJ_COUNT_PER_PAGE = 4"
definition NCPU :: nat where "NCPU = 4"

text \<open>\<open>inuse\<close> is a 16-bit counter.\<close>

definition inc16 :: "nat \<Rightarrow> nat" where "inc16 n = (n + 1) mod 65536"
definition dec16 :: "nat \<Rightarrow> nat" where "dec16 n = (n + 65535) mod 65536"

definition upd_slab :: "addr \<Rightarrow> (slab \<Rightarrow> slab) \<Rightarrow> kmem \<Rightarrow> kmem" where
  "upd_slab a f st = st\<lparr>km_slab := (km_slab st)(a := f (km_slab st a))\<rparr>"

definition upd_cache :: "addr \<Rightarrow> (kmem_cache \<Rightarrow> kmem_cache) \<Rightarrow> kmem \<Rightarrow> kmem" where
  "upd_cache c f st = st\<lparr>km_cache := (km_cache st)(c := f (km_cache st c))\<rparr>"

text \<open>The loops that mark and unmark the pages of a slab, and the one that fills its free stack.\<close>

definition mark_pages :: "(page \<Rightarrow> page) \<Rightarrow> nat \<Rightarrow> nat \<Rightarrow> mm \<Rightarrow> mm" where
  "mark_pages f page n m = foldl (\<lambda>m i. upd_page (page + i) f m) m [0..<n]"

definition fill_stack :: "addr \<Rightarrow> nat \<Rightarrow> nat \<Rightarrow> sstack \<times> addr wmem \<Rightarrow> sstack \<times> addr wmem" where
  "fill_stack objs sz count stk = foldl (\<lambda>stk i. snd (sstack_push (objs + i * sz) stk)) stk [0..<count]"

text \<open>The descriptor page is zeroed by \<open>__alloc_page\<close>; the words of the stack follow the descriptor in
  that page and are indexed from 0 here.\<close>

definition slab_create :: "addr \<Rightarrow> kmem \<Rightarrow> (addr \<times> kmem) kres" where
  "slab_create c st =
    (let cache = km_cache st c in
     kbind (alloc_pages_pa 0 (km_mm st)) (\<lambda>(slab, m1).
     if slab = 0 then Inr (0, st\<lparr>km_mm := m1\<rparr>) else
     kbind (alloc_pages_pa (int (kc_order cache)) m1) (\<lambda>(objs, m2).
     if objs = 0 then kbind (free_pages_pa slab m2) (\<lambda>m3. Inr (0, st\<lparr>km_mm := m3\<rparr>)) else
     let m3 = mark_pages (set_page_slab slab) (PA2I objs) (2 ^ kc_order cache) m2;
         stk = fill_stack objs (kc_size cache) (kc_count cache)
                 (sstack_init 0 (int FREE_LIST_MAX_LEN), \<lambda>_. 0)
     in Inr (slab, st\<lparr>km_mm := m3,
          km_slab := (km_slab st)(slab := \<lparr>sl_kc = c, sl_objs = objs, sl_inuse = 0, sl_free = stk\<rparr>)\<rparr>))))"

definition slab_destory :: "addr \<Rightarrow> kmem \<Rightarrow> kmem kres" where
  "slab_destory slab st =
    (let sl = km_slab st slab;
         m1 = mark_pages clear_page_slab (PA2I (sl_objs sl)) (2 ^ kc_order (km_cache st (sl_kc sl))) (km_mm st)
     in kbind (free_pages_pa (sl_objs sl) m1) (\<lambda>m2.
        kbind (free_pages_pa slab m2) (\<lambda>m3. Inr (st\<lparr>km_mm := m3\<rparr>))))"

text \<open>The loop keeps \<open>slab_size = PGSIZE << order\<close>.\<close>

function calc_order_from :: "nat \<Rightarrow> nat \<Rightarrow> nat" where
  "calc_order_from require_size order =
    (if require_size > PGSIZE * 2 ^ order then calc_order_from require_size (order + 1) else order)"
  by pat_completeness auto
termination
proof (relation "measure (\<lambda>(r, k). r - k)")
  fix r k :: nat
  assume "PGSIZE * 2 ^ k < r"
  moreover have "k < 2 ^ k" by simp
  moreover have "2 ^ k \<le> PGSIZE * 2 ^ k" by (simp add: PGSIZE_def)
  ultimately have "k < r" by linarith
  then show "((r, k + 1), r, k) \<in> measure (\<lambda>(r, k). r - k)" by simp
qed simp

declare calc_order_from.simps [simp del]

definition calc_slab_order :: "nat \<Rightarrow> nat" where
  "calc_slab_order obj_size = calc_order_from (obj_size * MIN_OBJ_COUNT_PER_PAGE) 0"

definition obj_pop :: "addr \<Rightarrow> kmem \<Rightarrow> (addr \<times> kmem) kres" where
  "obj_pop slab st =
    (let (tmp, stk) = sstack_pop (sl_free (km_slab st slab)) in
     if tmp = 0 then Inl (Panic ''obj_pop empty'')
     else Inr (tmp, upd_slab slab (\<lambda>sl. sl\<lparr>sl_free := stk, sl_inuse := inc16 (sl_inuse sl)\<rparr>) st))"

definition obj_push :: "addr \<Rightarrow> addr \<Rightarrow> kmem \<Rightarrow> kmem kres" where
  "obj_push slab obj st =
    (let (r, stk) = sstack_push obj (sl_free (km_slab st slab)) in
     if r \<noteq> -1 then Inr (upd_slab slab (\<lambda>sl. sl\<lparr>sl_free := stk, sl_inuse := dec16 (sl_inuse sl)\<rparr>) st)
     else Inl (Panic ''obj_push''))"

definition is_slab_full :: "addr \<Rightarrow> addr \<Rightarrow> kmem \<Rightarrow> bool" where
  "is_slab_full slab c st = (sl_inuse (km_slab st slab) = kc_count (km_cache st c))"

text \<open>The loop of \<open>cache_cpu_init\<close> from core \<open>i\<close> on, \<open>n\<close> cores to go.\<close>

primrec cache_cpu_loop :: "nat \<Rightarrow> nat \<Rightarrow> addr \<Rightarrow> kmem \<Rightarrow> kmem kres" where
  "cache_cpu_loop 0 i c st = Inr st"
| "cache_cpu_loop (Suc n) i c st = kbind (slab_create c st) (\<lambda>(cpu_slab, st1).
     if cpu_slab = 0 then Inl (Panic ''cache_cpu_init'')
     else cache_cpu_loop n (i + 1) c (upd_cache c (\<lambda>k. k\<lparr>kc_cpu := (kc_cpu k)[i := cpu_slab]\<rparr>) st1))"

definition cache_cpu_init :: "addr \<Rightarrow> kmem \<Rightarrow> kmem kres" where
  "cache_cpu_init c st = cache_cpu_loop NCPU 0 c st"

definition kmem_cache_add_slab :: "addr \<Rightarrow> kmem \<Rightarrow> (addr \<times> kmem) kres" where
  "kmem_cache_add_slab c st = kbind (slab_create c st) (\<lambda>(new_slab, st1).
     if new_slab = 0 then Inl (Fault ''list_add_head NULL'')
     else Inr (new_slab, upd_cache c (\<lambda>k. k\<lparr>kc_part := new_slab # kc_part k\<rparr>) st1))"

text \<open>\<open>size\<close> is a 16-bit argument, and the rounded size is stored in 16 bits.\<close>

definition kmem_cache_create :: "addr \<Rightarrow> u16 \<Rightarrow> kmem \<Rightarrow> kmem kres" where
  "kmem_cache_create c sz st =
    (let size = unat (next_power_of_2 (ucast sz)) mod 65536;
         order = calc_slab_order size;
         count = 2 ^ order * PGSIZE div size mod 65536
     in if size = 0 then Inl (Fault ''division by zero'') else
        kbind (kassert (count \<le> FREE_LIST_MAX_LEN) ''kmem_cache_create'') (\<lambda>_.
        kbind (cache_cpu_init c (upd_cache c (\<lambda>k. k\<lparr>kc_size := size, kc_order := order, kc_count := count,
          kc_part := [], kc_full := []\<rparr>) st)) (\<lambda>st1.
        Inr (st1\<lparr>km_list := c # km_list st1\<rparr>))))"

primrec destory_slabs :: "addr list \<Rightarrow> kmem \<Rightarrow> kmem kres" where
  "destory_slabs [] st = Inr st"
| "destory_slabs (slab # slabs) st = kbind (slab_destory slab st) (destory_slabs slabs)"

definition kmem_cache_destory :: "addr \<Rightarrow> kmem \<Rightarrow> kmem kres" where
  "kmem_cache_destory c st =
    (if c = 0 then Inl (Panic ''kmem_cache_destory'') else
     kbind (destory_slabs (map (\<lambda>i. kc_cpu (km_cache st c) ! i) [0..<NCPU]) st) (\<lambda>st1.
     kbind (destory_slabs (kc_part (km_cache st1 c)) st1) (\<lambda>st2.
     kbind (destory_slabs (kc_full (km_cache st2 c)) st2) (\<lambda>st3.
     Inr (st3\<lparr>km_list := remove1 c (km_list st3)\<rparr>)))))"

definition kmem_cache_alloc :: "nat \<Rightarrow> addr \<Rightarrow> kmem \<Rightarrow> (addr \<times> kmem) kres" where
  "kmem_cache_alloc cpu c st =
    (if c = 0 then Inl (Panic ''kmem_cache_alloc'') else
     let cpu_slab = kc_cpu (km_cache st c) ! cpu in
     if \<not> is_slab_full cpu_slab c st then obj_pop cpu_slab st
     else if kc_part (km_cache st c) = [] then
       kbind (kmem_cache_add_slab c st) (\<lambda>(slab, st1). obj_pop slab st1)
     else
       let slab = hd (kc_part (km_cache st c)) in
       kbind (obj_pop slab st) (\<lambda>(addr, st1).
       Inr (addr, if is_slab_full slab c st1
         then upd_cache c (\<lambda>k. k\<lparr>kc_part := remove1 slab (kc_part k), kc_full := slab # kc_full k\<rparr>) st1
         else st1)))"

definition kmem_cache_free :: "addr \<Rightarrow> kmem \<Rightarrow> kmem kres" where
  "kmem_cache_free obj st =
    (if obj = 0 then Inl (Panic ''kmem_cache_free obj NULL'') else
     let slab = pg_slab (mm_pages (km_mm st) (PA2I obj)) in
     if slab = 0 then Inl (Fault ''slab NULL'') else
     let c = sl_kc (km_slab st slab) in
     if c = 0 then Inl (Panic ''kmem_cache_free'')
     else if slab \<notin> set (kc_part (km_cache st c)) \<and> slab \<notin> set (kc_full (km_cache st c)) then obj_push slab obj st
     else obj_push slab obj
       (if is_slab_full slab c st
        then upd_cache c (\<lambda>k. k\<lparr>kc_full := remove1 slab (kc_full k),
               kc_part := slab # remove1 slab (kc_part k)\<rparr>) st
        else st))"

text \<open>\<open>kmem_cache_init\<close> creates the ten dedicated caches.  The sizes of the structures are fixed by the
  compiler and are arguments here; the stack cache has objects of two pages.\<close>

primrec create_caches :: "(addr \<times> u16) list \<Rightarrow> kmem \<Rightarrow> kmem kres" where
  "create_caches [] st = Inr st"
| "create_caches (cs # css) st = kbind (kmem_cache_create (fst cs) (snd cs) st) (create_caches css)"

record struct_sizes =
  sz_task_struct :: u16
  sz_buf_head :: u16
  sz_bio :: u16
  sz_timer :: u16
  sz_m_inode :: u16
  sz_dentry :: u16
  sz_file :: u16
  sz_trapframe :: u16
  sz_vm_area :: u16

definition kmem_cache_init :: "struct_sizes \<Rightarrow> kmem \<Rightarrow> kmem kres" where
  "kmem_cache_init szs st = create_caches
    [(1, sz_task_struct szs), (2, of_nat (2 * PGSIZE)), (3, sz_buf_head szs), (4, sz_bio szs), (5, sz_timer szs),
     (6, sz_m_inode szs), (7, sz_dentry szs), (8, sz_file szs), (9, sz_trapframe szs), (10, sz_vm_area szs)]
    (st\<lparr>km_list := []\<rparr>)"

section \<open>The buddy allocator leaves the marks of the pages alone\<close>

definition marks :: "mm \<Rightarrow> nat \<Rightarrow> u32 \<times> addr" where
  "marks m x = (pg_flags (mm_pages m x), pg_slab (mm_pages m x))"

named_theorems marks_simps \<open>marks of the pages after an operation of the buddy allocator\<close>

lemma marks_upd [marks_simps]:
  "marks (set_order i k m) = marks m" "marks (push_free i k m) = marks m" "marks (unlink_free i m) = marks m"
  "marks (m\<lparr>mm_lists := L\<rparr>) = marks m" "marks (m\<lparr>mm_free := f\<rparr>) = marks m"
  "marks (upd_page i get_page m) = marks m" "marks (upd_page i (\<lambda>pg. snd (put_page_test pg)) m) = marks m"
  by (auto simp: marks_def fun_eq_iff set_order_def push_free_def unlink_free_def upd_page_def get_page_def
      put_page_test_def)

lemma split_loop_marks: "split_loop p k j m = Inr t \<Longrightarrow> marks t = marks m"
  by (induction p k j m rule: split_loop.induct)
    (auto simp: marks_simps split: if_splits option.splits)

lemma alloc_loop_marks: "alloc_loop k i m = Inr (p, t) \<Longrightarrow> marks t = marks m"
proof (induction k i m rule: alloc_loop.induct)
  case (1 k i m)
  show ?case
  proof (cases "mm_lists m i")
    case Nil
    then show ?thesis using 1 by (cases "i < MAX_LEVEL") (simp_all add: alloc_loop.simps [of k i m])
  next
    case (Cons q qs)
    then obtain u where "split_loop q k i (m\<lparr>mm_lists := (mm_lists m)(i := qs)\<rparr>) = Inr u"
      "t = u\<lparr>mm_free := mm_free u - 2 ^ k\<rparr>"
      using 1(2) by (auto simp: alloc_loop.simps [of k i m] kbind_eq_Inr split: if_splits)
    then show ?thesis using split_loop_marks by (metis marks_upd(4,5))
  qed
qed

lemma alloc_pages_marks: "alloc_pages k m = Inr (p, t) \<Longrightarrow> marks t = marks m"
  using alloc_loop_marks
  by (fastforce simp: alloc_pages_def buddy_alloc_def kbind_eq_Inr marks_simps split: if_splits)

lemma merge_loop_marks: "marks (snd (snd (merge_loop p k m))) = marks m"
proof (induction p k m rule: merge_loop.induct)
  case (1 p k m)
  then show ?case by (simp add: merge_loop.simps [of p k m] marks_simps split: option.split)
qed

lemma buddy_free_marks: "buddy_free p m = Inr t \<Longrightarrow> marks t = marks m"
  using merge_loop_marks [of p "pg_order (mm_pages m p)" m]
  by (cases "merge_loop p (pg_order (mm_pages m p)) m")
    (auto simp: buddy_free_def kbind_eq_Inr Let_def marks_simps)

lemma free_pages_marks: "free_pages p m = Inr t \<Longrightarrow> marks t = marks m"
  using buddy_free_marks [of p "upd_page p (\<lambda>pg. snd (put_page_test pg)) m" t]
  by (auto simp: free_pages_def kbind_eq_Inr Let_def marks_simps split: if_splits)

lemma upd_page_mark:
  assumes "\<And>pg. pg_order (f pg) = pg_order pg" "\<And>pg. pg_refcnt (f pg) = pg_refcnt pg"
  shows "ord_of (upd_page i f m) = ord_of m" "ref_of (upd_page i f m) = ref_of m"
  using assms by (auto simp: ord_of_def ref_of_def upd_page_def)

lemma mark_pages_same:
  assumes "\<And>pg. pg_order (f pg) = pg_order pg" "\<And>pg. pg_refcnt (f pg) = pg_refcnt pg"
  shows "ord_of (mark_pages f p n m) = ord_of m \<and> ref_of (mark_pages f p n m) = ref_of m \<and>
    mm_lists (mark_pages f p n m) = mm_lists m \<and> mm_free (mark_pages f p n m) = mm_free m"
proof -
  note u = upd_page_mark [of f, OF assms]
  show ?thesis unfolding mark_pages_def
    by (induction n) (simp_all add: u mm_simps)
qed

lemma mark_pages_marks:
  "mm_pages (mark_pages f p n m) x = (if p \<le> x \<and> x < p + n then f (mm_pages m x) else mm_pages m x)"
  unfolding mark_pages_def by (induction n) (auto simp: upd_page_def)

text \<open>Operations that only mark pages keep the state of the buddy allocator.\<close>

lemma buddy_cong:
  assumes "ord_of t = ord_of m" "ref_of t = ref_of m" "mm_lists t = mm_lists m" "mm_free t = mm_free m"
  shows "buddy_inv lo t = buddy_inv lo m" "allocated lo t = allocated lo m"
  using assms by (simp_all add: buddy_inv_def allocated_def)

section \<open>Invariant\<close>

text \<open>The objects of a slab, and a free stack that holds each free object once.\<close>

definition objs_of :: "kmem_cache \<Rightarrow> slab \<Rightarrow> addr set" where
  "objs_of k sl = (\<lambda>i. sl_objs sl + i * kc_size k) ` {..<kc_count k}"

definition free_ok :: "kmem_cache \<Rightarrow> slab \<Rightarrow> bool" where
  "free_ok k sl = (sstack_wf (fst (sl_free sl)) \<and> stk_max_size (fst (sl_free sl)) = int FREE_LIST_MAX_LEN \<and>
    distinct (sstack_list (sl_free sl)) \<and> set (sstack_list (sl_free sl)) \<subseteq> objs_of k sl \<and>
    sl_inuse sl + length (sstack_list (sl_free sl)) = kc_count k)"

definition geom_ok :: "kmem_cache \<Rightarrow> bool" where
  "geom_ok k = (0 < kc_size k \<and> 4 \<le> kc_count k \<and> kc_count k \<le> FREE_LIST_MAX_LEN \<and> kc_order k \<le> 10 \<and>
    kc_count k * kc_size k \<le> 2 ^ kc_order k * PGSIZE)"

text \<open>The block of order \<open>k\<close> at address \<open>a\<close> is allocated with a single reference.\<close>

definition owns :: "nat \<Rightarrow> mm \<Rightarrow> addr \<Rightarrow> nat \<Rightarrow> bool" where
  "owns lo m a k = (I2PA (PA2I a) = a \<and> (PA2I a, k) \<in> allocated lo m \<and> ref_of m (PA2I a) = 1)"

definition slab_ok :: "nat \<Rightarrow> mm \<Rightarrow> kmem_cache \<Rightarrow> addr \<Rightarrow> slab \<Rightarrow> bool" where
  "slab_ok lo m k a sl = (owns lo m a 0 \<and> owns lo m (sl_objs sl) (kc_order k) \<and> a \<noteq> sl_objs sl \<and>
    (\<forall>x\<in>blk (PA2I (sl_objs sl)) (kc_order k). pg_slab (mm_pages m x) = a) \<and> free_ok k sl)"

definition claims :: "kmem \<Rightarrow> addr \<Rightarrow> addr set" where
  "claims st a = {a, sl_objs (km_slab st a)}"

definition kpage :: "mm \<Rightarrow> nat \<Rightarrow> bool" where
  "kpage m x = test_page_kmalloc_page (mm_pages m x)"

text \<open>The invariant for the slabs \<open>P\<close>, pairs of a cache and one of its slabs: every slab is well formed,
  no two slabs share a page block, and the blocks handed out by \<open>kmalloc\<close> are allocated and not slabs.\<close>

definition sinv :: "nat \<Rightarrow> kmem \<Rightarrow> (addr \<times> addr) set \<Rightarrow> bool" where
  "sinv lo st P = (buddy_inv lo (km_mm st) \<and>
    (\<forall>c a. (c, a) \<in> P \<longrightarrow> c \<noteq> 0 \<and> geom_ok (km_cache st c) \<and> sl_kc (km_slab st a) = c \<and>
      slab_ok lo (km_mm st) (km_cache st c) a (km_slab st a)) \<and>
    (\<forall>c a d b. (c, a) \<in> P \<longrightarrow> (d, b) \<in> P \<longrightarrow> a \<noteq> b \<longrightarrow> claims st a \<inter> claims st b = {}) \<and>
    (\<forall>x. kpage (km_mm st) x \<longrightarrow> owns lo (km_mm st) (I2PA x) (ord_of (km_mm st) x) \<and>
      (\<forall>c a. (c, a) \<in> P \<longrightarrow> I2PA x \<notin> claims st a)))"

text \<open>The objects and blocks in use, with their sizes.\<close>

definition live_in :: "kmem \<Rightarrow> addr \<Rightarrow> addr \<Rightarrow> (addr \<times> nat) set" where
  "live_in st c a = {(x, kc_size (km_cache st c)) |x.
    x \<in> objs_of (km_cache st c) (km_slab st a) \<and> x \<notin> set (sstack_list (sl_free (km_slab st a)))}"

definition live_of :: "kmem \<Rightarrow> (addr \<times> addr) set \<Rightarrow> (addr \<times> nat) set" where
  "live_of st P = (\<Union>(c, a)\<in>P. live_in st c a) \<union>
    {(I2PA x, PGSIZE * 2 ^ ord_of (km_mm st) x) |x. kpage (km_mm st) x}"

definition slabs_of :: "kmem_cache \<Rightarrow> addr list" where
  "slabs_of k = kc_cpu k @ kc_part k @ kc_full k"

definition all_slabs :: "kmem \<Rightarrow> (addr \<times> addr) set" where
  "all_slabs st = {(c, a). c \<in> set (km_list st) \<and> a \<in> set (slabs_of (km_cache st c))}"

definition lists_ok :: "kmem \<Rightarrow> addr \<Rightarrow> bool" where
  "lists_ok st c = (length (kc_cpu (km_cache st c)) = NCPU \<and> distinct (slabs_of (km_cache st c)) \<and>
    (\<forall>a\<in>set (kc_part (km_cache st c)). \<not> is_slab_full a c st) \<and>
    (\<forall>a\<in>set (kc_full (km_cache st c)). is_slab_full a c st))"

definition slab_inv :: "nat \<Rightarrow> kmem \<Rightarrow> bool" where
  "slab_inv lo st = (sinv lo st (all_slabs st) \<and> distinct (km_list st) \<and> (\<forall>c\<in>set (km_list st). lists_ok st c))"

definition live :: "kmem \<Rightarrow> (addr \<times> nat) set" where
  "live st = live_of st (all_slabs st)"

section \<open>Byte ranges of blocks and objects\<close>

definition span :: "addr \<times> nat \<Rightarrow> nat set" where
  "span u = {fst u..<fst u + snd u}"

lemma I2PA_pos [simp]: "I2PA x > 0" "I2PA x \<noteq> 0"
  by (simp_all add: I2PA_def KERNBASE_def)

lemma I2PA_eq [simp]: "I2PA x = I2PA y \<longleftrightarrow> x = y"
  by (metis PA2I_I2PA)

lemma PA2I_block: "a \<in> span (I2PA p, PGSIZE * 2 ^ k) \<Longrightarrow> PA2I a \<in> blk p k"
proof -
  assume a: "a \<in> span (I2PA p, PGSIZE * 2 ^ k)"
  then obtain d where "a = I2PA p + d" "d < PGSIZE * 2 ^ k"
    by (auto simp: span_def) (metis add_less_cancel_left le_Suc_ex)
  then have "PA2I a = p + d div PGSIZE" "d div PGSIZE < 2 ^ k"
    by (simp_all add: PA2I_def I2PA_def PGSIZE_def less_mult_imp_div_less mult.commute)
  then show ?thesis by (simp add: blk_def)
qed

lemma spans_disjoint:
  "blk p k \<inter> blk q l = {} \<Longrightarrow> span (I2PA p, PGSIZE * 2 ^ k) \<inter> span (I2PA q, PGSIZE * 2 ^ l) = {}"
  using PA2I_block by fastforce

lemma owns_disjoint:
  assumes "buddy_inv lo m" "owns lo m a k" "owns lo m b l" "a \<noteq> b"
  shows "span (a, PGSIZE * 2 ^ k) \<inter> span (b, PGSIZE * 2 ^ l) = {}"
proof -
  have "PA2I a \<noteq> PA2I b" using assms(2-4) by (auto simp: owns_def)
  then have "blk (PA2I a) k \<inter> blk (PA2I b) l = {}"
    using allocated_disjoint [OF assms(1)] assms(2,3) by (auto simp: owns_def)
  from spans_disjoint [OF this] show ?thesis using assms(2,3) by (simp add: owns_def)
qed

lemma obj_in_block:
  assumes "geom_ok k" "x \<in> objs_of k sl"
  shows "span (x, kc_size k) \<subseteq> span (sl_objs sl, PGSIZE * 2 ^ kc_order k)" "x \<in> span (x, kc_size k)"
proof -
  obtain i where i: "x = sl_objs sl + i * kc_size k" "i < kc_count k" using assms(2) by (auto simp: objs_of_def)
  then have "Suc i * kc_size k \<le> kc_count k * kc_size k" by (intro mult_le_mono1) simp
  then have "i * kc_size k + kc_size k \<le> PGSIZE * 2 ^ kc_order k"
    using assms(1) by (simp add: geom_ok_def mult.commute)
  then show "span (x, kc_size k) \<subseteq> span (sl_objs sl, PGSIZE * 2 ^ kc_order k)"
    using i(1) by (auto simp: span_def)
  show "x \<in> span (x, kc_size k)" using assms(1) by (simp add: span_def geom_ok_def)
qed

lemma objs_apart:
  assumes "x \<in> objs_of k sl" "y \<in> objs_of k sl" "x \<noteq> y"
  shows "span (x, kc_size k) \<inter> span (y, kc_size k) = {}"
proof -
  obtain i j where ij: "x = sl_objs sl + i * kc_size k" "y = sl_objs sl + j * kc_size k"
    using assms(1,2) by (auto simp: objs_of_def)
  have "Suc i * kc_size k \<le> j * kc_size k \<or> Suc j * kc_size k \<le> i * kc_size k"
    using ij assms(3) by (metis linorder_neqE_nat Suc_leI mult_le_mono1)
  then show ?thesis using ij by (auto simp: span_def)
qed

lemma card_objs_of: "geom_ok k \<Longrightarrow> card (objs_of k sl) = kc_count k"
  unfolding objs_of_def by (subst card_image) (auto simp: inj_on_def geom_ok_def)

section \<open>Objects in use do not overlap\<close>

lemma sinvD:
  assumes "sinv lo st P" "(c, a) \<in> P"
  shows "c \<noteq> 0" "geom_ok (km_cache st c)" "sl_kc (km_slab st a) = c"
    "owns lo (km_mm st) a 0" "owns lo (km_mm st) (sl_objs (km_slab st a)) (kc_order (km_cache st c))"
    "a \<noteq> sl_objs (km_slab st a)"
    "\<And>x. x \<in> blk (PA2I (sl_objs (km_slab st a))) (kc_order (km_cache st c)) \<Longrightarrow> pg_slab (mm_pages (km_mm st) x) = a"
    "free_ok (km_cache st c) (km_slab st a)"
  using assms by (auto simp: sinv_def slab_ok_def)

lemma sinv_buddy: "sinv lo st P \<Longrightarrow> buddy_inv lo (km_mm st)"
  by (simp add: sinv_def)

lemma sinv_claims: "sinv lo st P \<Longrightarrow> (c, a) \<in> P \<Longrightarrow> (d, b) \<in> P \<Longrightarrow> a \<noteq> b \<Longrightarrow> claims st a \<inter> claims st b = {}"
  by (simp add: sinv_def)

lemma sinv_kpage:
  assumes "sinv lo st P" "kpage (km_mm st) x"
  shows "owns lo (km_mm st) (I2PA x) (ord_of (km_mm st) x)" "(c, a) \<in> P \<Longrightarrow> I2PA x \<notin> claims st a"
  using assms by (auto simp: sinv_def)

text \<open>Every object in use lies in a block that the buddy allocator counts as allocated.\<close>

lemma live_in_home:
  assumes "sinv lo st P" "(c, a) \<in> P" "u \<in> live_in st c a"
  shows "snd u = kc_size (km_cache st c)" "fst u \<in> objs_of (km_cache st c) (km_slab st a)"
    "span u \<subseteq> span (sl_objs (km_slab st a), PGSIZE * 2 ^ kc_order (km_cache st c))"
  using assms(3) obj_in_block(1) [OF sinvD(2) [OF assms(1,2)], of "fst u" "km_slab st a"] by (auto simp: live_in_def)

lemma live_in_disjoint:
  assumes "sinv lo st P" "(c, a) \<in> P" "(d, b) \<in> P" "u \<in> live_in st c a" "v \<in> live_in st d b" "u \<noteq> v"
  shows "span u \<inter> span v = {}"
proof (cases "a = b")
  case True
  then have "c = d" using sinvD(3) [OF assms(1,2)] sinvD(3) [OF assms(1,3)] by simp
  then show ?thesis using assms(4-6) True objs_apart by (fastforce simp: live_in_def)
next
  case False
  then have "sl_objs (km_slab st a) \<noteq> sl_objs (km_slab st b)"
    using sinv_claims [OF assms(1-3)] by (auto simp: claims_def)
  from owns_disjoint [OF sinv_buddy [OF assms(1)] sinvD(5) [OF assms(1,2)] sinvD(5) [OF assms(1,3)] this]
  show ?thesis using live_in_home(3) [OF assms(1,2,4)] live_in_home(3) [OF assms(1,3,5)] by blast
qed

lemma live_kpage_disjoint:
  assumes "sinv lo st P" "(c, a) \<in> P" "u \<in> live_in st c a" "kpage (km_mm st) x"
  shows "span u \<inter> span (I2PA x, PGSIZE * 2 ^ ord_of (km_mm st) x) = {}"
proof -
  have "sl_objs (km_slab st a) \<noteq> I2PA x" using sinv_kpage(2) [OF assms(1,4,2)] by (auto simp: claims_def)
  from owns_disjoint [OF sinv_buddy [OF assms(1)] sinvD(5) [OF assms(1,2)] sinv_kpage(1) [OF assms(1,4)] this]
  show ?thesis using live_in_home(3) [OF assms(1-3)] by blast
qed

lemma live_cases:
  assumes "u \<in> live_of st P"
  obtains c a where "(c, a) \<in> P" "u \<in> live_in st c a"
  | x where "kpage (km_mm st) x" "u = (I2PA x, PGSIZE * 2 ^ ord_of (km_mm st) x)"
  using assms by (auto simp: live_of_def)

lemma live_of_disjoint:
  assumes "sinv lo st P" "u \<in> live_of st P" "v \<in> live_of st P" "u \<noteq> v"
  shows "span u \<inter> span v = {}"
  using assms(2)
proof (cases rule: live_cases)
  case u: (1 c a)
  from assms(3) show ?thesis
  proof (cases rule: live_cases)
    case (1 d b)
    then show ?thesis using live_in_disjoint [OF assms(1) u(1) _ u(2)] assms(4) by blast
  next
    case (2 x)
    then show ?thesis using live_kpage_disjoint [OF assms(1) u] by blast
  qed
next
  case u: (2 x)
  from assms(3) show ?thesis
  proof (cases rule: live_cases)
    case (1 d b)
    then show ?thesis using live_kpage_disjoint [OF assms(1) 1 u(1)] u(2) by blast
  next
    case (2 y)
    then show ?thesis
      using owns_disjoint [OF sinv_buddy [OF assms(1)] sinv_kpage(1) [OF assms(1) u(1)] sinv_kpage(1) [OF assms(1) 2(1)]]
        u(2) assms(4) by auto
  qed
qed

section \<open>The free stack of a slab\<close>

text \<open>Changing the stack and counter of one slab, the objects staying where they are.\<close>

lemma sinv_upd_slab:
  assumes "sinv lo st P" "(c, a) \<in> P" "\<And>sl. sl_objs (f sl) = sl_objs sl" "\<And>sl. sl_kc (f sl) = sl_kc sl"
    and "free_ok (km_cache st c) (f (km_slab st a))"
  shows "sinv lo (upd_slab a f st) P"
proof -
  have cl: "claims (upd_slab a f st) = claims st" using assms(3) by (auto simp: claims_def upd_slab_def fun_eq_iff)
  show ?thesis unfolding sinv_def cl
  proof (intro conjI allI impI)
    fix d b assume db: "(d, b) \<in> P"
    note s = sinvD [OF assms(1) db]
    show "d \<noteq> 0" "geom_ok (km_cache (upd_slab a f st) d)" "sl_kc (km_slab (upd_slab a f st) b) = d"
      using s assms(4) by (auto simp: upd_slab_def)
    have "b = a \<Longrightarrow> d = c" using s(3) sinvD(3) [OF assms(1,2)] by simp
    then show "slab_ok lo (km_mm (upd_slab a f st)) (km_cache (upd_slab a f st) d) b (km_slab (upd_slab a f st) b)"
      using s assms(3,5) by (auto simp: slab_ok_def upd_slab_def)
  qed (use assms(1) in \<open>auto simp: sinv_def upd_slab_def\<close>)
qed

lemma UN_replace:
  assumes "i \<in> I" "\<And>j. j \<in> I \<Longrightarrow> j \<noteq> i \<Longrightarrow> g j = f j \<and> f j \<inter> f i = {}"
  shows "(\<Union>j\<in>I. g j) = ((\<Union>j\<in>I. f j) - f i) \<union> g i"
proof -
  have "(\<Union>j\<in>I. h j) = h i \<union> (\<Union>j\<in>I - {i}. h j)" for h using assms(1) by blast
  from this [of g] this [of f] show ?thesis using assms(2) by (auto; blast)
qed

lemma live_upd_slab:
  assumes "sinv lo st P" "(c, a) \<in> P"
  shows "live_of (upd_slab a f st) P = (live_of st P - live_in st c a) \<union> live_in (upd_slab a f st) c a"
proof -
  have other: "live_in (upd_slab a f st) d b = live_in st d b" if "b \<noteq> a" for d b
    using that by (simp add: live_in_def upd_slab_def)
  have same: "d = c" if "(d, a) \<in> P" for d
    using sinvD(3) [OF assms] sinvD(3) [OF assms(1) that] by simp
  have apart: "u \<notin> live_in st c a" if "(d, b) \<in> P" "b \<noteq> a" "u \<in> live_in st d b" for u d b
  proof
    assume u: "u \<in> live_in st c a"
    have "sl_objs (km_slab st a) \<noteq> sl_objs (km_slab st b)"
      using sinv_claims [OF assms that(1)] that(2) by (auto simp: claims_def)
    from owns_disjoint [OF sinv_buddy [OF assms(1)] sinvD(5) [OF assms] sinvD(5) [OF assms(1) that(1)] this]
    have "span u = {}" using live_in_home(3) [OF assms u] live_in_home(3) [OF assms(1) that(1,3)] by blast
    then show False using live_in_home(1) [OF assms u] sinvD(2) [OF assms] by (simp add: span_def geom_ok_def)
  qed
  have kp: "(I2PA x, n) \<notin> live_in st c a" if "kpage (km_mm st) x" for x n
  proof
    assume u: "(I2PA x, n) \<in> live_in st c a"
    then have "n = kc_size (km_cache st c)" using live_in_home(1) [OF assms u] by simp
    then have "I2PA x \<in> span (I2PA x, n)" using sinvD(2) [OF assms] by (simp add: span_def geom_ok_def)
    moreover have "I2PA x \<in> span (I2PA x, PGSIZE * 2 ^ ord_of (km_mm st) x)" by (simp add: span_def PGSIZE_def)
    ultimately show False using live_kpage_disjoint [OF assms u that] by blast
  qed
  have mm: "km_mm (upd_slab a f st) = km_mm st" by (simp add: upd_slab_def)
  have "(\<Union>u\<in>P. (\<lambda>(d, b). live_in (upd_slab a f st) d b) u) =
      ((\<Union>u\<in>P. (\<lambda>(d, b). live_in st d b) u) - (\<lambda>(d, b). live_in st d b) (c, a)) \<union>
      (\<lambda>(d, b). live_in (upd_slab a f st) d b) (c, a)"
  proof (rule UN_replace [OF assms(2)])
    fix u assume u: "u \<in> P" "u \<noteq> (c, a)"
    obtain d b where db: "u = (d, b)" by (cases u)
    then have "b \<noteq> a" using u same by blast
    then show "(\<lambda>(d, b). live_in (upd_slab a f st) d b) u = (\<lambda>(d, b). live_in st d b) u \<and>
        (\<lambda>(d, b). live_in st d b) u \<inter> (\<lambda>(d, b). live_in st d b) (c, a) = {}"
      using u(1) db other apart by auto
  qed
  then have "(\<Union>(d, b)\<in>P. live_in (upd_slab a f st) d b) =
      ((\<Union>(d, b)\<in>P. live_in st d b) - live_in st c a) \<union> live_in (upd_slab a f st) c a" by simp
  then show ?thesis unfolding live_of_def mm using kp by blast
qed

lemma free_ok_pop:
  assumes "free_ok k sl" "sl_inuse sl < kc_count k" "kc_count k \<le> FREE_LIST_MAX_LEN"
  defines "x \<equiv> last (sstack_list (sl_free sl))"
  shows "fst (sstack_pop (sl_free sl)) = x" "x \<in> set (sstack_list (sl_free sl))"
    "free_ok k (sl\<lparr>sl_free := snd (sstack_pop (sl_free sl)), sl_inuse := inc16 (sl_inuse sl)\<rparr>)"
    "set (sstack_list (snd (sstack_pop (sl_free sl)))) = set (sstack_list (sl_free sl)) - {x}"
    "inc16 (sl_inuse sl) = sl_inuse sl + 1"
proof -
  let ?l = "sstack_list (sl_free sl)"
  have ne: "?l \<noteq> []" using assms(1,2) by (auto simp: free_ok_def)
  have wf: "sstack_wf (fst (sl_free sl))" "\<not> sstack_is_empty (fst (sl_free sl))"
    using assms(1) ne sstack_empty_list [of "sl_free sl"] by (auto simp: free_ok_def)
  note p = sstack_pop_list [OF wf]
  have l: "?l = butlast ?l @ [x]" using ne by (simp add: x_def)
  show "fst (sstack_pop (sl_free sl)) = x" using p by (simp add: x_def)
  show "x \<in> set ?l" using ne by (simp add: x_def)
  have "distinct ?l" using assms(1) by (simp add: free_ok_def)
  then have "distinct (butlast ?l @ [x])" using l by simp
  then have d: "x \<notin> set (butlast ?l)" "distinct (butlast ?l)" by auto
  have "set ?l = insert x (set (butlast ?l))" using l by (metis list.simps(15) rotate1.simps(2) set_rotate1)
  then show "set (sstack_list (snd (sstack_pop (sl_free sl)))) = set ?l - {x}" using d p(3) by auto
  show i: "inc16 (sl_inuse sl) = sl_inuse sl + 1"
    using assms(2,3) by (simp add: inc16_def FREE_LIST_MAX_LEN_def PGSIZE_def)
  have mx: "stk_max_size (fst (snd (sstack_pop (sl_free sl)))) = stk_max_size (fst (sl_free sl))"
    by (simp add: sstack_pop_def split: prod.split)
  have ob: "objs_of k (sl\<lparr>sl_free := f, sl_inuse := n\<rparr>) = objs_of k sl" for f n by (simp add: objs_of_def)
  have "length ?l = Suc (length (butlast ?l))" using ne by simp
  then show "free_ok k (sl\<lparr>sl_free := snd (sstack_pop (sl_free sl)), sl_inuse := inc16 (sl_inuse sl)\<rparr>)"
    using assms(1) p(2,3) d i mx \<open>set ?l = insert x (set (butlast ?l))\<close>
    by (simp add: free_ok_def ob)
qed

lemma free_ok_push:
  assumes "free_ok k sl" "x \<in> objs_of k sl" "x \<notin> set (sstack_list (sl_free sl))" "geom_ok k"
  shows "fst (sstack_push x (sl_free sl)) = 0"
    "free_ok k (sl\<lparr>sl_free := snd (sstack_push x (sl_free sl)), sl_inuse := dec16 (sl_inuse sl)\<rparr>)"
    "set (sstack_list (snd (sstack_push x (sl_free sl)))) = insert x (set (sstack_list (sl_free sl)))"
    "0 < sl_inuse sl" "dec16 (sl_inuse sl) = sl_inuse sl - 1"
proof -
  let ?l = "sstack_list (sl_free sl)"
  have fin: "finite (objs_of k sl)" by (simp add: objs_of_def)
  have "card (set ?l) < card (objs_of k sl)"
    using assms(1-3) by (intro psubset_card_mono [OF fin]) (auto simp: free_ok_def)
  then have lt: "length ?l < kc_count k"
    using assms(1) card_objs_of [OF assms(4)] by (simp add: free_ok_def distinct_card)
  then show i: "0 < sl_inuse sl" using assms(1) by (simp add: free_ok_def)
  have wf: "sstack_wf (fst (sl_free sl))" using assms(1) by (simp add: free_ok_def)
  have len: "length ?l = stk_top (fst (sl_free sl)) - stk_base (fst (sl_free sl))"
    by (simp add: sstack_list_def split: prod.split)
  have nf: "\<not> sstack_is_full (fst (sl_free sl))"
    using lt len wf assms(1,4) by (auto simp: sstack_is_full_def free_ok_def geom_ok_def sstack_wf_def)
  note p = sstack_push_list [OF wf nf, of x]
  show "fst (sstack_push x (sl_free sl)) = 0" using p by simp
  show "set (sstack_list (snd (sstack_push x (sl_free sl)))) = insert x (set ?l)" using p by simp
  have le: "sl_inuse sl \<le> 256" using assms(1,4) by (simp add: free_ok_def geom_ok_def FREE_LIST_MAX_LEN_def PGSIZE_def)
  have "sl_inuse sl + 65535 = (sl_inuse sl - 1) + 65536" using i by simp
  then have "dec16 (sl_inuse sl) = (sl_inuse sl - 1) mod 65536" unfolding dec16_def by (metis mod_add_self2)
  then show d: "dec16 (sl_inuse sl) = sl_inuse sl - 1" using le by simp
  have mx: "stk_max_size (fst (snd (sstack_push x (sl_free sl)))) = stk_max_size (fst (sl_free sl))"
    by (simp add: sstack_push_def split: prod.split)
  have ob: "objs_of k (sl\<lparr>sl_free := f, sl_inuse := n\<rparr>) = objs_of k sl" for f n by (simp add: objs_of_def)
  show "free_ok k (sl\<lparr>sl_free := snd (sstack_push x (sl_free sl)), sl_inuse := dec16 (sl_inuse sl)\<rparr>)"
    using assms(1-3) p d mx i by (simp add: free_ok_def ob)
qed

lemma fill_stack_list:
  assumes "n \<le> FREE_LIST_MAX_LEN" "m = (\<lambda>_. 0)"
  defines "s0 \<equiv> (sstack_init 0 (int FREE_LIST_MAX_LEN), m)"
  shows "sstack_wf (fst (fill_stack objs sz n s0)) \<and> stk_base (fst (fill_stack objs sz n s0)) = 0 \<and>
    stk_max_size (fst (fill_stack objs sz n s0)) = int FREE_LIST_MAX_LEN \<and>
    sstack_list (fill_stack objs sz n s0) = map (\<lambda>i. objs + i * sz) [0..<n]"
  using assms(1)
proof (induction n)
  case 0
  then show ?case using sstack_init_list(1) [of 0 "int FREE_LIST_MAX_LEN" m]
    by (simp add: fill_stack_def s0_def sstack_init_list) (simp add: sstack_init_def)
next
  case (Suc n)
  let ?s = "fill_stack objs sz n s0"
  have IH: "sstack_wf (fst ?s)" "stk_base (fst ?s) = 0" "stk_max_size (fst ?s) = int FREE_LIST_MAX_LEN"
    "sstack_list ?s = map (\<lambda>i. objs + i * sz) [0..<n]" using Suc by auto
  have "length (sstack_list ?s) = n" using IH(4) by simp
  then have "stk_top (fst ?s) = n" using IH(2) by (simp add: sstack_list_def split: prod.splits)
  then have nf: "\<not> sstack_is_full (fst ?s)" using IH Suc.prems by (simp add: sstack_is_full_def)
  have e: "fill_stack objs sz (Suc n) s0 = snd (sstack_push (objs + n * sz) ?s)" by (simp add: fill_stack_def)
  have "stk_base (fst (snd (sstack_push x ?s))) = stk_base (fst ?s)"
    "stk_max_size (fst (snd (sstack_push x ?s))) = stk_max_size (fst ?s)" for x
    by (simp_all add: sstack_push_def split: prod.split)
  then show ?case unfolding e using sstack_push_list [OF IH(1) nf, of "objs + n * sz"] IH by simp
qed

section \<open>Taking and returning objects\<close>

lemma objs_pos:
  assumes "sinv lo st P" "(c, a) \<in> P" "x \<in> objs_of (km_cache st c) (km_slab st a)"
  shows "x \<noteq> 0" "pg_slab (mm_pages (km_mm st) (PA2I x)) = a"
proof -
  let ?o = "sl_objs (km_slab st a)"
  have o: "I2PA (PA2I ?o) = ?o" using sinvD(5) [OF assms(1,2)] by (simp add: owns_def)
  then have "0 < ?o" using I2PA_pos(1) [of "PA2I ?o"] by simp
  then show "x \<noteq> 0" using assms(3) by (auto simp: objs_of_def)
  have "PA2I x \<in> blk (PA2I ?o) (kc_order (km_cache st c))"
    using PA2I_block [of x "PA2I ?o" "kc_order (km_cache st c)"] obj_in_block [OF sinvD(2) [OF assms(1,2)] assms(3)] o by auto
  then show "pg_slab (mm_pages (km_mm st) (PA2I x)) = a" by (rule sinvD(7) [OF assms(1,2)])
qed

lemma obj_pop_sinv:
  assumes "sinv lo st P" "(c, a) \<in> P" "\<not> is_slab_full a c st"
  shows "\<exists>x st1. obj_pop a st = Inr (x, st1) \<and> sinv lo st1 P \<and>
    (x, kc_size (km_cache st c)) \<notin> live_of st P \<and>
    live_of st1 P = insert (x, kc_size (km_cache st c)) (live_of st P) \<and>
    km_mm st1 = km_mm st \<and> km_cache st1 = km_cache st \<and> km_list st1 = km_list st \<and>
    (\<forall>b. sl_inuse (km_slab st1 b) = (if b = a then sl_inuse (km_slab st a) + 1 else sl_inuse (km_slab st b)))"
proof -
  let ?sl = "km_slab st a" and ?k = "km_cache st c"
  note s = sinvD [OF assms(1,2)]
  have lt: "sl_inuse ?sl < kc_count ?k" "kc_count ?k \<le> FREE_LIST_MAX_LEN"
    using s(2,8) assms(3) by (auto simp: is_slab_full_def free_ok_def geom_ok_def)
  note f = free_ok_pop [OF s(8) lt]
  define x where "x = last (sstack_list (sl_free ?sl))"
  define g where "g = (\<lambda>sl :: slab. sl\<lparr>sl_free := snd (sstack_pop (sl_free ?sl)), sl_inuse := inc16 (sl_inuse sl)\<rparr>)"
  have xo: "x \<in> objs_of ?k ?sl" using f(2) s(8) by (auto simp: free_ok_def x_def)
  have x0: "x \<noteq> 0" using objs_pos(1) [OF assms(1,2) xo] .
  have eq: "obj_pop a st = Inr (x, upd_slab a g st)"
    using x0 f(1) by (cases "sstack_pop (sl_free ?sl)") (simp add: obj_pop_def x_def g_def)
  have inv: "sinv lo (upd_slab a g st) P"
    by (rule sinv_upd_slab [OF assms(1,2)]) (use f(3) in \<open>simp_all add: g_def\<close>)
  have "objs_of ?k (g ?sl) = objs_of ?k ?sl" by (simp add: objs_of_def g_def)
  then have li: "live_in (upd_slab a g st) c a = insert (x, kc_size ?k) (live_in st c a)"
    using f(4) xo by (auto simp: live_in_def upd_slab_def g_def x_def)
  have nl: "(x, kc_size ?k) \<notin> live_in st c a" using f(2) by (simp add: live_in_def x_def)
  have "live_in st c a \<subseteq> live_of st P" using assms(2) by (auto simp: live_of_def)
  then have lv: "live_of (upd_slab a g st) P = insert (x, kc_size ?k) (live_of st P)"
    using live_upd_slab [OF assms(1,2), of g] li by auto
  have "(x, kc_size ?k) \<notin> live_of st P"
  proof
    assume "(x, kc_size ?k) \<in> live_of st P"
    then show False
    proof (cases rule: live_cases)
      case (1 d b)
      have "(d, b) \<noteq> (c, a)" using 1 nl by auto
      then have "b \<noteq> a" using sinvD(3) [OF assms(1) 1(1)] s(3) by auto
      then have "sl_objs ?sl \<noteq> sl_objs (km_slab st b)"
        using sinv_claims [OF assms(1,2) 1(1)] by (auto simp: claims_def)
      from owns_disjoint [OF sinv_buddy [OF assms(1)] s(5) sinvD(5) [OF assms(1) 1(1)] this]
      show False using live_in_home(3) [OF assms(1) 1] obj_in_block [OF s(2) xo] by fastforce
    next
      case (2 y)
      have "sl_objs ?sl \<noteq> I2PA y" using sinv_kpage(2) [OF assms(1) 2(1) assms(2)] by (auto simp: claims_def)
      from owns_disjoint [OF sinv_buddy [OF assms(1)] s(5) sinv_kpage(1) [OF assms(1) 2(1)] this]
      show False using obj_in_block [OF s(2) xo] unfolding 2(2) by blast
    qed
  qed
  then show ?thesis using eq inv lv f(5) by (auto simp: upd_slab_def g_def)
qed

lemma obj_push_sinv:
  assumes "sinv lo st P" "(c, a) \<in> P" "(x, n) \<in> live_in st c a"
  shows "\<exists>st1. obj_push a x st = Inr st1 \<and> sinv lo st1 P \<and> live_of st1 P = live_of st P - {(x, n)} \<and>
    km_mm st1 = km_mm st \<and> km_cache st1 = km_cache st \<and> km_list st1 = km_list st \<and> 0 < sl_inuse (km_slab st a) \<and>
    (\<forall>b. sl_inuse (km_slab st1 b) = (if b = a then sl_inuse (km_slab st a) - 1 else sl_inuse (km_slab st b)))"
proof -
  let ?sl = "km_slab st a" and ?k = "km_cache st c"
  note s = sinvD [OF assms(1,2)]
  have x: "x \<in> objs_of ?k ?sl" "x \<notin> set (sstack_list (sl_free ?sl))" "n = kc_size ?k"
    using assms(3) by (auto simp: live_in_def)
  note f = free_ok_push [OF s(8) x(1,2) s(2)]
  define g where "g = (\<lambda>sl :: slab. sl\<lparr>sl_free := snd (sstack_push x (sl_free ?sl)), sl_inuse := dec16 (sl_inuse sl)\<rparr>)"
  have eq: "obj_push a x st = Inr (upd_slab a g st)"
    using f(1) by (cases "sstack_push x (sl_free ?sl)") (simp add: obj_push_def g_def)
  have inv: "sinv lo (upd_slab a g st) P"
    by (rule sinv_upd_slab [OF assms(1,2)]) (use f(2) in \<open>simp_all add: g_def\<close>)
  have "objs_of ?k (g ?sl) = objs_of ?k ?sl" by (simp add: objs_of_def g_def)
  then have li: "live_in (upd_slab a g st) c a = live_in st c a - {(x, n)}"
    using f(3) x by (auto simp: live_in_def upd_slab_def g_def)
  have "live_in st c a \<subseteq> live_of st P" using assms(2) by (auto simp: live_of_def)
  then have "live_of (upd_slab a g st) P = live_of st P - {(x, n)}"
    using live_upd_slab [OF assms(1,2), of g] li assms(3) by auto
  then show ?thesis using eq inv f(4,5) by (auto simp: upd_slab_def g_def)
qed

section \<open>Creating and destroying slabs\<close>

lemma kpage_marks: "marks t = marks m \<Longrightarrow> kpage t = kpage m \<and> (\<forall>x. pg_slab (mm_pages t x) = pg_slab (mm_pages m x))"
  by (auto simp: marks_def kpage_def test_page_kmalloc_page_def fun_eq_iff)

lemma slab_marks_kpage [simp]:
  "test_page_kmalloc_page (set_page_slab a pg) = test_page_kmalloc_page pg"
  "test_page_kmalloc_page (clear_page_slab pg) = test_page_kmalloc_page pg"
proof -
  have "(w AND PG_KMALLOC_PAGE \<noteq> 0) \<longleftrightarrow> bit w 30" for w
    by (simp only: PG_KMALLOC_PAGE_def push_bit_eq_mult mult_1 and_exp_eq_0_iff_not_bit not_not)
  then show "test_page_kmalloc_page (set_page_slab a pg) = test_page_kmalloc_page pg"
    "test_page_kmalloc_page (clear_page_slab pg) = test_page_kmalloc_page pg"
    by (simp_all add: test_page_kmalloc_page_def set_page_slab_def clear_page_slab_def bit_simps PG_Slab_def)
qed

lemma kpage_mark_pages:
  "kpage (mark_pages (set_page_slab a) p n m) = kpage m" "kpage (mark_pages clear_page_slab p n m) = kpage m"
  by (auto simp: kpage_def mark_pages_marks fun_eq_iff)

lemma mark_pages_buddy:
  "buddy_inv lo (mark_pages (set_page_slab a) p n m) = buddy_inv lo m"
  "buddy_inv lo (mark_pages clear_page_slab p n m) = buddy_inv lo m"
  "owns lo (mark_pages (set_page_slab a) p n m) = owns lo m" "owns lo (mark_pages clear_page_slab p n m) = owns lo m"
  "allocated lo (mark_pages (set_page_slab a) p n m) = allocated lo m"
  "allocated lo (mark_pages clear_page_slab p n m) = allocated lo m"
proof -
  have f: "pg_order (set_page_slab a pg) = pg_order pg" "pg_refcnt (set_page_slab a pg) = pg_refcnt pg"
    "pg_order (clear_page_slab pg) = pg_order pg" "pg_refcnt (clear_page_slab pg) = pg_refcnt pg" for pg
    by (simp_all add: set_page_slab_def clear_page_slab_def)
  note m1 = mark_pages_same [OF f(1,2), of p n m] and m2 = mark_pages_same [OF f(3,4), of p n m]
  note b1 = buddy_cong [of "mark_pages (set_page_slab a) p n m" m lo]
  note b2 = buddy_cong [of "mark_pages clear_page_slab p n m" m lo]
  show "buddy_inv lo (mark_pages (set_page_slab a) p n m) = buddy_inv lo m"
    "buddy_inv lo (mark_pages clear_page_slab p n m) = buddy_inv lo m" using m1 m2 b1(1) b2(1) by blast+
  show "allocated lo (mark_pages (set_page_slab a) p n m) = allocated lo m"
    "allocated lo (mark_pages clear_page_slab p n m) = allocated lo m" using m1 m2 b1(2) b2(2) by blast+
  then show "owns lo (mark_pages (set_page_slab a) p n m) = owns lo m"
    "owns lo (mark_pages clear_page_slab p n m) = owns lo m" using m1 m2 by (auto simp: owns_def fun_eq_iff)
qed

lemma owns_ord: "owns lo m a k \<Longrightarrow> ord_of m (PA2I a) = k"
  by (simp add: owns_def allocated_iff)

lemma alloc_pages_pa_law:
  assumes "buddy_inv lo m" "k \<le> 10" "alloc_pages_pa (int k) m = Inr (a, t)"
  shows "buddy_inv lo t" "owns lo t a k" "a \<noteq> 0" "marks t = marks m"
    "allocated lo t = insert (PA2I a, k) (allocated lo m)" "PA2I a \<notin> fst ` allocated lo m"
    "\<And>b l. owns lo m b l \<Longrightarrow> owns lo t b l \<and> b \<noteq> a"
proof -
  obtain p where p: "alloc_pages (int k) m = Inr (p, t)" "a = I2PA p"
    using assms(3) by (auto simp: alloc_pages_pa_def kbind_eq_Inr)
  have "\<exists>l. k \<le> l \<and> l \<le> 10 \<and> mm_lists m l \<noteq> []" using alloc_pages_fail [OF assms(2)] p(1) by force
  from alloc_pages_success [OF assms(1,2) this] p(1)
  have r: "buddy_inv lo t" "allocated lo t = insert (p, k) (allocated lo m)" "ref_of t = (ref_of m)(p := 1)"
    "ref_of m p = 0" by auto
  have n: "(p, l) \<notin> allocated lo m" for l using r(4) by (auto simp: allocated_def)
  show "buddy_inv lo t" "marks t = marks m" "a \<noteq> 0" using r alloc_pages_marks [OF p(1)] p(2) by simp_all
  show "owns lo t a k" using r p(2) by (simp add: owns_def)
  show "allocated lo t = insert (PA2I a, k) (allocated lo m)" using r p(2) by simp
  show "PA2I a \<notin> fst ` allocated lo m" using n p(2) by auto
  show "owns lo t b l \<and> b \<noteq> a" if "owns lo m b l" for b l
    using that r p(2) by (auto simp: owns_def)
qed

text \<open>A change of the page state that keeps the blocks of the slabs and of \<open>kmalloc\<close> keeps the invariant.\<close>

lemma sinv_mm:
  assumes "sinv lo st P" "buddy_inv lo m" "kpage m = kpage (km_mm st)"
    and "\<And>b l. owns lo (km_mm st) b l \<Longrightarrow> (\<exists>c a. (c, a) \<in> P \<and> b \<in> claims st a) \<or> (\<exists>x. kpage (km_mm st) x \<and> b = I2PA x) \<Longrightarrow>
      owns lo m b l \<and> (\<forall>x\<in>blk (PA2I b) l. pg_slab (mm_pages m x) = pg_slab (mm_pages (km_mm st) x))"
  shows "sinv lo (st\<lparr>km_mm := m\<rparr>) P" "live_of (st\<lparr>km_mm := m\<rparr>) Q = live_of st Q"
proof -
  have kp: "owns lo m (I2PA x) (ord_of (km_mm st) x)" "ord_of m x = ord_of (km_mm st) x" if "kpage (km_mm st) x" for x
  proof -
    show "owns lo m (I2PA x) (ord_of (km_mm st) x)" using assms(4) sinv_kpage(1) [OF assms(1) that] that by blast
    then show "ord_of m x = ord_of (km_mm st) x" using owns_ord by fastforce
  qed
  have cl: "claims (st\<lparr>km_mm := m\<rparr>) = claims st" by (simp add: claims_def fun_eq_iff)
  show "sinv lo (st\<lparr>km_mm := m\<rparr>) P" unfolding sinv_def cl
  proof (intro conjI allI impI)
    fix c a assume ca: "(c, a) \<in> P"
    note s = sinvD [OF assms(1) ca]
    have "owns lo m a 0" using assms(4) [OF s(4)] ca by (auto simp: claims_def)
    moreover have "owns lo m (sl_objs (km_slab st a)) (kc_order (km_cache st c)) \<and>
        (\<forall>x\<in>blk (PA2I (sl_objs (km_slab st a))) (kc_order (km_cache st c)). pg_slab (mm_pages m x) = a)"
      using assms(4) [OF s(5)] ca s(7) by (auto simp: claims_def)
    ultimately show "slab_ok lo (km_mm (st\<lparr>km_mm := m\<rparr>)) (km_cache (st\<lparr>km_mm := m\<rparr>) c) a (km_slab (st\<lparr>km_mm := m\<rparr>) a)"
      using s by (auto simp: slab_ok_def)
  qed (use assms(1-3) kp in \<open>auto simp: sinv_def\<close>)
  show "live_of (st\<lparr>km_mm := m\<rparr>) Q = live_of st Q"
    using kp(2) assms(3) by (auto simp: live_of_def live_in_def)
qed

lemma sinv_mono:
  assumes "sinv lo st P" "Q \<subseteq> P"
  shows "sinv lo st Q"
  unfolding sinv_def
proof (intro conjI allI impI)
  show "buddy_inv lo (km_mm st)" by (rule sinv_buddy [OF assms(1)])
  have q: "(c, a) \<in> P" if "(c, a) \<in> Q" for c a using assms(2) that by blast
  fix c a assume "(c, a) \<in> Q"
  note s = sinvD [OF assms(1) q [OF this]]
  show "c \<noteq> 0" "geom_ok (km_cache st c)" "sl_kc (km_slab st a) = c"
    "slab_ok lo (km_mm st) (km_cache st c) a (km_slab st a)" using s by (auto simp: slab_ok_def)
qed (use sinv_claims [OF assms(1)] sinv_kpage [OF assms(1)] assms(2) in blast)+

lemma owns_blk_disjoint:
  assumes "buddy_inv lo m" "owns lo m a k" "owns lo m b l" "a \<noteq> b" "x \<in> blk (PA2I a) k"
  shows "x \<notin> blk (PA2I b) l"
proof -
  have "PA2I a \<noteq> PA2I b" using assms(2-4) by (auto simp: owns_def)
  then show ?thesis
    using allocated_disjoint [OF assms(1), of "PA2I a" k "PA2I b" l] assms(2,3,5) by (auto simp: owns_def)
qed

lemma new_slab_sinv:
  assumes "sinv lo st P" "c \<noteq> 0" "geom_ok (km_cache st c)" "slab_ok lo (km_mm st) (km_cache st c) a sl"
    and "sl_kc sl = c" "\<And>d b. (d, b) \<in> P \<Longrightarrow> {a, sl_objs sl} \<inter> claims st b = {}"
    and "\<And>x. kpage (km_mm st) x \<Longrightarrow> I2PA x \<notin> {a, sl_objs sl}"
  shows "sinv lo (st\<lparr>km_slab := (km_slab st)(a := sl)\<rparr>) (insert (c, a) P)"
proof -
  have na: "b \<noteq> a" if "(d, b) \<in> P" for d b using assms(6) [OF that] by (auto simp: claims_def)
  have cl: "claims (st\<lparr>km_slab := (km_slab st)(a := sl)\<rparr>) = (claims st)(a := {a, sl_objs sl})"
    by (simp add: claims_def fun_eq_iff)
  show ?thesis unfolding sinv_def cl
  proof (intro conjI allI impI)
    show "buddy_inv lo (km_mm (st\<lparr>km_slab := (km_slab st)(a := sl)\<rparr>))" using sinv_buddy [OF assms(1)] by simp
  next
    fix d b assume "(d, b) \<in> insert (c, a) P"
    then consider "d = c" "b = a" | "(d, b) \<in> P" by auto
    then have "d \<noteq> 0 \<and> geom_ok (km_cache st d) \<and> sl_kc (((km_slab st)(a := sl)) b) = d \<and>
      slab_ok lo (km_mm st) (km_cache st d) b (((km_slab st)(a := sl)) b)"
    proof cases
      case 2
      then show ?thesis using assms(1) na [OF 2] by (simp add: sinv_def)
    qed (use assms(2-5) in simp)
    then show "d \<noteq> 0" "geom_ok (km_cache (st\<lparr>km_slab := (km_slab st)(a := sl)\<rparr>) d)"
      "sl_kc (km_slab (st\<lparr>km_slab := (km_slab st)(a := sl)\<rparr>) b) = d"
      "slab_ok lo (km_mm (st\<lparr>km_slab := (km_slab st)(a := sl)\<rparr>)) (km_cache (st\<lparr>km_slab := (km_slab st)(a := sl)\<rparr>) d)
         b (km_slab (st\<lparr>km_slab := (km_slab st)(a := sl)\<rparr>) b)" by simp_all
  next
    fix d b d' b' assume *: "(d, b) \<in> insert (c, a) P" "(d', b') \<in> insert (c, a) P" "b \<noteq> b'"
    then consider "b = a" "(d', b') \<in> P" | "b' = a" "(d, b) \<in> P" | "(d, b) \<in> P" "(d', b') \<in> P" by auto
    then show "((claims st)(a := {a, sl_objs sl})) b \<inter> ((claims st)(a := {a, sl_objs sl})) b' = {}"
    proof cases
      case 1
      then show ?thesis using assms(6) na by simp
    next
      case 2
      then show ?thesis using assms(6) [OF 2(2)] na [OF 2(2)] by (simp add: Int_commute)
    next
      case 3
      then show ?thesis using sinv_claims [OF assms(1) 3 *(3)] na by simp
    qed
  qed (use sinv_kpage [OF assms(1)] assms(7) na in auto)
qed

lemma live_new_slab:
  assumes "\<And>d b. (d, b) \<in> P \<Longrightarrow> b \<noteq> a" "objs_of (km_cache st c) sl \<subseteq> set (sstack_list (sl_free sl))"
  shows "live_of (st\<lparr>km_slab := (km_slab st)(a := sl)\<rparr>) (insert (c, a) P) = live_of st P"
proof -
  have "live_in (st\<lparr>km_slab := (km_slab st)(a := sl)\<rparr>) d b = live_in st d b" if "(d, b) \<in> P" for d b
    using assms(1) [OF that] by (simp add: live_in_def)
  moreover have "live_in (st\<lparr>km_slab := (km_slab st)(a := sl)\<rparr>) c a = {}"
    using assms(2) by (auto simp: live_in_def)
  ultimately show ?thesis by (auto simp: live_of_def)
qed

lemma slab_create_sinv:
  assumes "sinv lo st P" "c \<noteq> 0" "geom_ok (km_cache st c)" "slab_create c st = Inr (a, st1)"
  shows "a \<noteq> 0" "sinv lo st1 (insert (c, a) P)" "a \<notin> snd ` P" "live_of st1 (insert (c, a) P) = live_of st P"
    "km_cache st1 = km_cache st" "km_list st1 = km_list st" "sl_inuse (km_slab st1 a) = 0"
    "\<And>b. b \<noteq> a \<Longrightarrow> km_slab st1 b = km_slab st b"
    "\<exists>objs. allocated lo (km_mm st1) =
      {(PA2I a, 0), (PA2I objs, kc_order (km_cache st c))} \<union> allocated lo (km_mm st) \<and>
      sl_objs (km_slab st1 a) = objs \<and> {PA2I a, PA2I objs} \<inter> fst ` allocated lo (km_mm st) = {}"
proof -
  let ?k = "km_cache st c"
  have k: "kc_order ?k \<le> 10" "kc_count ?k \<le> FREE_LIST_MAX_LEN" using assms(3) by (auto simp: geom_ok_def)
  note b0 = sinv_buddy [OF assms(1)]
  obtain s m1 where m1: "alloc_pages_pa 0 (km_mm st) = Inr (s, m1)"
    using assms(4) by (auto simp: slab_create_def kbind_eq_Inr Let_def)
  note l1 = alloc_pages_pa_law [OF b0, of 0, simplified, OF m1]
  obtain objs m2 where m2: "alloc_pages_pa (int (kc_order ?k)) m1 = Inr (objs, m2)"
    using assms(4) m1 l1(3) by (auto simp: slab_create_def kbind_eq_Inr Let_def)
  note l2 = alloc_pages_pa_law [OF l1(1) k(1) m2]
  define m3 where "m3 = mark_pages (set_page_slab s) (PA2I objs) (2 ^ kc_order ?k) m2"
  define stk where "stk = fill_stack objs (kc_size ?k) (kc_count ?k) (sstack_init 0 (int FREE_LIST_MAX_LEN), \<lambda>_. 0)"
  define sl where "sl = \<lparr>sl_kc = c, sl_objs = objs, sl_inuse = 0, sl_free = stk\<rparr>"
  have st1: "a = s" "st1 = st\<lparr>km_mm := m3\<rparr>\<lparr>km_slab := (km_slab (st\<lparr>km_mm := m3\<rparr>))(s := sl)\<rparr>"
    using assms(4) m1 m2 l1(3) l2(3) by (auto simp: slab_create_def Let_def m3_def stk_def sl_def)
  have own3: "owns lo m3 b l \<longleftrightarrow> owns lo m2 b l" for b l by (simp add: m3_def mark_pages_buddy)
  have keep: "owns lo m3 b l \<and> b \<noteq> s \<and> b \<noteq> objs" if "owns lo (km_mm st) b l" for b l
    using l1(7) l2(7) that own3 by blast
  have so: "owns lo m3 s 0" "owns lo m3 objs (kc_order ?k)" "s \<noteq> objs" using l1(2) l2(2,7) own3 by blast+
  have b3: "buddy_inv lo m3" using l2(1) by (simp add: m3_def mark_pages_buddy)
  have kp: "kpage m3 = kpage (km_mm st)"
    using kpage_marks [OF l1(4)] kpage_marks [OF l2(4)] by (simp add: m3_def kpage_mark_pages)
  have pg: "pg_slab (mm_pages m3 x) = (if x \<in> blk (PA2I objs) (kc_order ?k) then s else pg_slab (mm_pages (km_mm st) x))" for x
    using kpage_marks [OF l1(4)] kpage_marks [OF l2(4)] by (simp add: m3_def mark_pages_marks blk_def set_page_slab_def)
  have "owns lo m3 b l \<and> (\<forall>x\<in>blk (PA2I b) l. pg_slab (mm_pages m3 x) = pg_slab (mm_pages (km_mm st) x))"
    if "owns lo (km_mm st) b l" for b l
    using keep [OF that] owns_blk_disjoint [OF b3 _ so(2), of b l] pg by auto
  note base = sinv_mm [OF assms(1) b3 kp this]
  have fill: "sstack_wf (fst stk)" "stk_max_size (fst stk) = int FREE_LIST_MAX_LEN"
    "sstack_list stk = map (\<lambda>i. objs + i * kc_size ?k) [0..<kc_count ?k]"
    using fill_stack_list [OF k(2) refl, of objs "kc_size ?k"] by (auto simp: stk_def)
  have fl: "set (sstack_list (sl_free sl)) = objs_of ?k sl" using fill(3) by (auto simp: sl_def objs_of_def)
  have "inj_on (\<lambda>i. objs + i * kc_size ?k) {0..<kc_count ?k}" using assms(3) by (auto simp: inj_on_def geom_ok_def)
  then have fo: "free_ok ?k sl" using fill fl by (simp add: free_ok_def sl_def distinct_map)
  have so_ok: "slab_ok lo m3 ?k s sl" using so pg fo by (simp add: slab_ok_def sl_def)
  have cl: "{s, objs} \<inter> claims st b = {}" if "(d, b) \<in> P" for d b
    using keep [OF sinvD(4) [OF assms(1) that]] keep [OF sinvD(5) [OF assms(1) that]] by (auto simp: claims_def)
  have clm: "claims (st\<lparr>km_mm := m3\<rparr>) = claims st" by (simp add: claims_def fun_eq_iff)
  show "sinv lo st1 (insert (c, a) P)" unfolding st1
  proof (rule new_slab_sinv [OF base(1) assms(2)])
    show "I2PA x \<notin> {s, sl_objs sl}" if "kpage (km_mm (st\<lparr>km_mm := m3\<rparr>)) x" for x
      using keep [OF sinv_kpage(1) [OF assms(1)], of x] that kp by (auto simp: sl_def)
  qed (use assms(3) so_ok cl clm in \<open>auto simp: sl_def\<close>)
  show np: "a \<notin> snd ` P" using keep [OF sinvD(4) [OF assms(1)]] st1(1) by fastforce
  have "live_of st1 (insert (c, a) P) = live_of (st\<lparr>km_mm := m3\<rparr>) P" unfolding st1
    by (rule live_new_slab) (use np st1(1) fl in \<open>force simp: image_iff\<close>)+
  then show "live_of st1 (insert (c, a) P) = live_of st P" by (simp add: base(2))
  show "a \<noteq> 0" using l1(3) st1 by simp
  show "km_cache st1 = km_cache st" "km_list st1 = km_list st" "sl_inuse (km_slab st1 a) = 0"
    "\<And>b. b \<noteq> a \<Longrightarrow> km_slab st1 b = km_slab st b" using st1 by (simp_all add: sl_def)
  have "allocated lo m3 = allocated lo m2" by (simp add: m3_def mark_pages_buddy)
  then show "\<exists>objs. allocated lo (km_mm st1) =
      {(PA2I a, 0), (PA2I objs, kc_order (km_cache st c))} \<union> allocated lo (km_mm st) \<and>
      sl_objs (km_slab st1 a) = objs \<and> {PA2I a, PA2I objs} \<inter> fst ` allocated lo (km_mm st) = {}"
    using st1 l1(5,6) l2(5,6) by (intro exI [of _ objs]) (auto simp: sl_def)
qed

lemma free_pages_pa_law:
  assumes "buddy_inv lo m" "owns lo m a k"
  shows "\<exists>t. free_pages_pa a m = Inr t \<and> buddy_inv lo t \<and> allocated lo t = allocated lo m - {(PA2I a, k)} \<and>
    marks t = marks m \<and> (\<forall>b l. owns lo m b l \<longrightarrow> b \<noteq> a \<longrightarrow> owns lo t b l)"
proof -
  have o: "(PA2I a, k) \<in> allocated lo m" "ref_of m (PA2I a) = 1" "I2PA (PA2I a) = a"
    using assms(2) by (auto simp: owns_def)
  obtain t where t: "free_pages (PA2I a) m = Inr t" "buddy_inv lo t" "allocated lo t = allocated lo m - {(PA2I a, k)}"
    "ref_of t = (ref_of m)(PA2I a := 0)" using free_pages_last [OF assms(1) o(1,2)] by blast
  have "a \<noteq> 0" using o(3) I2PA_pos by metis
  then have "free_pages_pa a m = Inr t" using t(1) by (simp add: free_pages_pa_def)
  moreover have "owns lo t b l" if "owns lo m b l" "b \<noteq> a" for b l
  proof -
    have "PA2I b \<noteq> PA2I a" using that o(3) by (auto simp: owns_def)
    then show ?thesis using that(1) t by (simp add: owns_def)
  qed
  ultimately show ?thesis using t free_pages_marks [OF t(1)] by blast
qed

lemma slab_destory_sinv:
  assumes "sinv lo st P" "(c, a) \<in> P"
  shows "\<exists>st1. slab_destory a st = Inr st1 \<and> sinv lo st1 (P - {(c, a)}) \<and>
    (\<forall>Q. live_of st1 Q = live_of st Q) \<and>
    allocated lo (km_mm st1) =
      allocated lo (km_mm st) - {(PA2I a, 0), (PA2I (sl_objs (km_slab st a)), kc_order (km_cache st c))} \<and>
    km_cache st1 = km_cache st \<and> km_list st1 = km_list st \<and> km_slab st1 = km_slab st"
proof -
  let ?o = "sl_objs (km_slab st a)" and ?k = "km_cache st c" and ?P = "P - {(c, a)}"
  note s = sinvD [OF assms]
  define m1 where "m1 = mark_pages clear_page_slab (PA2I ?o) (2 ^ kc_order ?k) (km_mm st)"
  have m1: "buddy_inv lo m1" "owns lo m1 = owns lo (km_mm st)" "allocated lo m1 = allocated lo (km_mm st)"
    using sinv_buddy [OF assms(1)] by (simp_all add: m1_def mark_pages_buddy)
  obtain m2 where m2: "free_pages_pa ?o m1 = Inr m2" "buddy_inv lo m2"
    "allocated lo m2 = allocated lo m1 - {(PA2I ?o, kc_order ?k)}" "marks m2 = marks m1"
    "\<And>b l. owns lo m1 b l \<Longrightarrow> b \<noteq> ?o \<Longrightarrow> owns lo m2 b l"
    using free_pages_pa_law [OF m1(1), of ?o "kc_order ?k"] s(5) m1(2) by auto
  have "owns lo m2 a 0" using m2(5) s(4,6) m1(2) by simp
  then obtain m3 where m3: "free_pages_pa a m2 = Inr m3" "buddy_inv lo m3"
    "allocated lo m3 = allocated lo m2 - {(PA2I a, 0)}" "marks m3 = marks m2"
    "\<And>b l. owns lo m2 b l \<Longrightarrow> b \<noteq> a \<Longrightarrow> owns lo m3 b l"
    using free_pages_pa_law [OF m2(2), of a 0] by auto
  have eq: "slab_destory a st = Inr (st\<lparr>km_mm := m3\<rparr>)"
    using m2(1) m3(1) s(3) by (simp add: slab_destory_def Let_def m1_def)
  have kp: "kpage m3 = kpage (km_mm st)"
    using kpage_marks [OF m2(4)] kpage_marks [OF m3(4)] by (simp add: m1_def kpage_mark_pages)
  have pg: "pg_slab (mm_pages m3 x) = pg_slab (mm_pages (km_mm st) x)" if "x \<notin> blk (PA2I ?o) (kc_order ?k)" for x
    using that kpage_marks [OF m2(4)] kpage_marks [OF m3(4)] by (auto simp: m1_def mark_pages_marks blk_def)
  have sub: "sinv lo st ?P" using sinv_mono [OF assms(1)] by blast
  have "owns lo m3 b l \<and> (\<forall>x\<in>blk (PA2I b) l. pg_slab (mm_pages m3 x) = pg_slab (mm_pages (km_mm st) x))"
    if b: "owns lo (km_mm st) b l"
      "(\<exists>c a. (c, a) \<in> ?P \<and> b \<in> claims st a) \<or> (\<exists>x. kpage (km_mm st) x \<and> b = I2PA x)" for b l
  proof -
    have "b \<notin> claims st a"
    proof
      assume ba: "b \<in> claims st a"
      from b(2) show False
      proof (elim disjE exE conjE)
        fix d e assume "(d, e) \<in> ?P" "b \<in> claims st e"
        moreover from this have "e \<noteq> a" using sinvD(3) [OF assms(1), of d e] s(3) by auto
        ultimately show False using sinv_claims [OF assms(1), of d e c a] assms(2) ba by auto
      next
        fix x assume "kpage (km_mm st) x" "b = I2PA x"
        then show False using sinv_kpage(2) [OF assms(1) _ assms(2)] ba by blast
      qed
    qed
    then have "b \<noteq> ?o" "b \<noteq> a" by (auto simp: claims_def)
    then show ?thesis
      using m3(5) m2(5) m1(2) b(1) pg owns_blk_disjoint [OF sinv_buddy [OF assms(1)] b(1) s(5)] by simp
  qed
  note r = sinv_mm [OF sub m3(2) kp this]
  show ?thesis using eq r m3(3) m2(3) m1(3) by auto
qed

end
