(* ===== verification/SlabCache.thy ===== *)
theory SlabCache
  imports Slab
begin

text \<open>
  mm/slab.c, the operations on a cache: \<open>kmem_cache_alloc\<close>, \<open>kmem_cache_free\<close>, \<open>kmem_cache_create\<close> and
  \<open>kmem_cache_destory\<close> keep \<open>slab_inv\<close> and change the set of objects in use by exactly the object they take or
  return.
\<close>

section \<open>The slab lists of a cache\<close>

lemma sinv_upd_cache:
  assumes "\<And>k. kc_size (f k) = kc_size k" "\<And>k. kc_order (f k) = kc_order k" "\<And>k. kc_count (f k) = kc_count k"
  shows "sinv lo (upd_cache c f st) P = sinv lo st P" "live_of (upd_cache c f st) P = live_of st P"
proof -
  have e: "kc_size (km_cache (upd_cache c f st) d) = kc_size (km_cache st d)"
    "kc_order (km_cache (upd_cache c f st) d) = kc_order (km_cache st d)"
    "kc_count (km_cache (upd_cache c f st) d) = kc_count (km_cache st d)"
    "km_slab (upd_cache c f st) = km_slab st" "km_mm (upd_cache c f st) = km_mm st" for d
    using assms by (simp_all add: upd_cache_def)
  have o: "objs_of (km_cache (upd_cache c f st) d) sl = objs_of (km_cache st d) sl" for d sl
    by (simp add: objs_of_def e)
  have g: "geom_ok (km_cache (upd_cache c f st) d) = geom_ok (km_cache st d)"
    "free_ok (km_cache (upd_cache c f st) d) sl = free_ok (km_cache st d) sl"
    "slab_ok lo m (km_cache (upd_cache c f st) d) a sl = slab_ok lo m (km_cache st d) a sl" for d a sl m
    by (simp_all add: geom_ok_def free_ok_def slab_ok_def e o)
  have c: "claims (upd_cache c f st) = claims st" by (simp add: claims_def e fun_eq_iff)
  show "sinv lo (upd_cache c f st) P = sinv lo st P" by (simp add: sinv_def g e c)
  have "live_in (upd_cache c f st) d b = live_in st d b" for d b by (simp add: live_in_def e o)
  then show "live_of (upd_cache c f st) P = live_of st P" by (simp add: live_of_def e)
qed

lemma slab_invD:
  assumes "slab_inv lo st" "c \<in> set (km_list st)"
  shows "sinv lo st (all_slabs st)" "distinct (km_list st)" "length (kc_cpu (km_cache st c)) = NCPU"
    "distinct (slabs_of (km_cache st c))" "lists_ok st c"
    "\<And>a. a \<in> set (kc_part (km_cache st c)) \<Longrightarrow> \<not> is_slab_full a c st"
    "\<And>a. a \<in> set (kc_full (km_cache st c)) \<Longrightarrow> is_slab_full a c st"
    "\<And>a. a \<in> set (slabs_of (km_cache st c)) \<Longrightarrow> (c, a) \<in> all_slabs st"
  using assms by (auto simp: slab_inv_def lists_ok_def all_slabs_def)

text \<open>The lists of the other caches are not concerned by a change of the counter of slab \<open>a\<close> of cache \<open>c\<close>.\<close>

lemma lists_ok_other:
  assumes "slab_inv lo st" "(c, a) \<in> all_slabs st" "d \<in> set (km_list st)" "d \<noteq> c"
    and "km_cache st1 d = km_cache st d" "\<And>b. b \<noteq> a \<Longrightarrow> sl_inuse (km_slab st1 b) = sl_inuse (km_slab st b)"
  shows "lists_ok st1 d"
proof -
  note s = slab_invD [OF assms(1,3)]
  have "b \<noteq> a" if "b \<in> set (slabs_of (km_cache st d))" for b
    using sinvD(3) [OF s(1) s(8) [OF that]] sinvD(3) [OF s(1) assms(2)] assms(4) by auto
  then have "is_slab_full b d st1 = is_slab_full b d st" if "b \<in> set (slabs_of (km_cache st d))" for b
    using that assms(5,6) by (simp add: is_slab_full_def)
  then show ?thesis using s(5) assms(5) by (simp add: lists_ok_def slabs_of_def)
qed

lemma all_slabs_same:
  assumes "km_list st1 = km_list st" "\<And>c. set (slabs_of (km_cache st1 c)) = set (slabs_of (km_cache st c))"
  shows "all_slabs st1 = all_slabs st"
  using assms by (auto simp: all_slabs_def)

section \<open>Allocation\<close>

lemma pop_listed:
  assumes "slab_inv lo st" "c \<in> set (km_list st)" "a \<in> set (slabs_of (km_cache st c))" "\<not> is_slab_full a c st"
  obtains x st1 where "obj_pop a st = Inr (x, st1)" "sinv lo st1 (all_slabs st)"
    "(x, kc_size (km_cache st c)) \<notin> live st"
    "live_of st1 (all_slabs st) = insert (x, kc_size (km_cache st c)) (live st)"
    "km_cache st1 = km_cache st" "km_list st1 = km_list st"
    "\<forall>b. sl_inuse (km_slab st1 b) = (if b = a then sl_inuse (km_slab st a) + 1 else sl_inuse (km_slab st b))"
  using obj_pop_sinv [OF slab_invD(1) [OF assms(1,2)] slab_invD(8) [OF assms(1-3)] assms(4)]
  unfolding live_def by blast

lemma cpu_slab_listed: "slab_inv lo st \<Longrightarrow> c \<in> set (km_list st) \<Longrightarrow> cpu < NCPU \<Longrightarrow>
    kc_cpu (km_cache st c) ! cpu \<in> set (kc_cpu (km_cache st c))"
  using slab_invD(3) by simp

lemma alloc_from_cpu:
  assumes "slab_inv lo st" "c \<in> set (km_list st)" "a \<in> set (kc_cpu (km_cache st c))" "\<not> is_slab_full a c st"
  shows "\<exists>x st1. obj_pop a st = Inr (x, st1) \<and> slab_inv lo st1 \<and> (x, kc_size (km_cache st c)) \<notin> live st \<and>
    live st1 = insert (x, kc_size (km_cache st c)) (live st) \<and> km_list st1 = km_list st \<and>
    (\<forall>d. kc_size (km_cache st1 d) = kc_size (km_cache st d) \<and> kc_order (km_cache st1 d) = kc_order (km_cache st d))"
proof -
  have a: "a \<in> set (slabs_of (km_cache st c))" using assms(3) by (simp add: slabs_of_def)
  note s = slab_invD [OF assms(1,2)]
  obtain x st1 where p: "obj_pop a st = Inr (x, st1)" "sinv lo st1 (all_slabs st)"
    "(x, kc_size (km_cache st c)) \<notin> live st" "live_of st1 (all_slabs st) = insert (x, kc_size (km_cache st c)) (live st)"
    "km_cache st1 = km_cache st" "km_list st1 = km_list st"
    "\<forall>b. sl_inuse (km_slab st1 b) = (if b = a then sl_inuse (km_slab st a) + 1 else sl_inuse (km_slab st b))"
    by (rule pop_listed [OF assms(1,2) a assms(4)])
  have al: "all_slabs st1 = all_slabs st" using p by (intro all_slabs_same) simp_all
  have "a \<notin> set (kc_part (km_cache st c))" "a \<notin> set (kc_full (km_cache st c))"
    using s(4) assms(3) by (auto simp: slabs_of_def)
  then have "is_slab_full b c st1 = is_slab_full b c st"
    if "b \<in> set (kc_part (km_cache st c)) \<union> set (kc_full (km_cache st c))" for b
    using that p(5,7) by (auto simp: is_slab_full_def)
  then have "lists_ok st1 c" using s(3-7) p(5) by (simp add: lists_ok_def)
  moreover have "lists_ok st1 d" if "d \<in> set (km_list st)" "d \<noteq> c" for d
    by (rule lists_ok_other [OF assms(1) s(8) [OF a] that]) (simp_all add: p(5,7))
  ultimately have "\<forall>d\<in>set (km_list st). lists_ok st1 d" by blast
  then show ?thesis using p al s(2) by (simp add: slab_inv_def live_def)
qed

lemma alloc_from_part:
  assumes "slab_inv lo st" "c \<in> set (km_list st)" "kc_part (km_cache st c) = a # rest"
  shows "\<exists>x st1. obj_pop a st = Inr (x, st1) \<and> (x, kc_size (km_cache st c)) \<notin> live st \<and>
    (let st2 = (if is_slab_full a c st1
       then upd_cache c (\<lambda>k. k\<lparr>kc_part := remove1 a (kc_part k), kc_full := a # kc_full k\<rparr>) st1 else st1)
     in slab_inv lo st2 \<and> live st2 = insert (x, kc_size (km_cache st c)) (live st) \<and> km_list st2 = km_list st \<and>
      (\<forall>d. kc_size (km_cache st2 d) = kc_size (km_cache st d) \<and> kc_order (km_cache st2 d) = kc_order (km_cache st d)))"
proof -
  have a: "a \<in> set (slabs_of (km_cache st c))" "a \<in> set (kc_part (km_cache st c))" using assms(3) by (simp_all add: slabs_of_def)
  note s = slab_invD [OF assms(1,2)]
  obtain x st1 where p: "obj_pop a st = Inr (x, st1)" "sinv lo st1 (all_slabs st)"
    "(x, kc_size (km_cache st c)) \<notin> live st" "live_of st1 (all_slabs st) = insert (x, kc_size (km_cache st c)) (live st)"
    "km_cache st1 = km_cache st" "km_list st1 = km_list st"
    "\<forall>b. sl_inuse (km_slab st1 b) = (if b = a then sl_inuse (km_slab st a) + 1 else sl_inuse (km_slab st b))"
    by (rule pop_listed [OF assms(1,2) a(1) s(6) [OF a(2)]])
  define f where "f = (\<lambda>k :: kmem_cache. k\<lparr>kc_part := remove1 a (kc_part k), kc_full := a # kc_full k\<rparr>)"
  define st2 where "st2 = (if is_slab_full a c st1 then upd_cache c f st1 else st1)"
  have d: "a \<notin> set rest" "a \<notin> set (kc_full (km_cache st c))" using s(4) assms(3) by (auto simp: slabs_of_def)
  have sl: "km_cache st2 e = km_cache st e" if "e \<noteq> c" for e
    using that p(5,6) by (auto simp: st2_def upd_cache_def)
  have sl1: "km_slab st2 = km_slab st1" "km_list st2 = km_list st" using p(6) by (auto simp: st2_def upd_cache_def)
  have kc: "km_cache st2 c = (if is_slab_full a c st1 then f (km_cache st c) else km_cache st c)"
    using p(5) by (simp add: st2_def upd_cache_def)
  have ct: "kc_count (km_cache st2 c) = kc_count (km_cache st c)" using kc by (simp add: f_def)
  have fl: "is_slab_full b c st2 = is_slab_full b c st" if "b \<noteq> a" for b
    using that p(7) sl1 ct by (simp add: is_slab_full_def)
  have fa: "is_slab_full a c st2 = is_slab_full a c st1" using sl1 ct p(5) by (simp add: is_slab_full_def)
  have lc: "lists_ok st2 c"
  proof (cases "is_slab_full a c st1")
    case True
    have "\<not> is_slab_full b c st2" if "b \<in> set rest" for b using fl [of b] d that s(6) assms(3) by auto
    moreover have "is_slab_full b c st2" if "b \<in> set (kc_full (km_cache st c))" for b
      using fl [of b] d that s(7) by auto
    ultimately show ?thesis using True kc fa s(3,4) assms(3)
      by (simp add: lists_ok_def f_def slabs_of_def)
  next
    case False
    then have "st2 = st1" by (simp add: st2_def)
    have "\<not> is_slab_full b c st2" if "b \<in> set (a # rest)" for b
      using fl [of b] that s(6) assms(3) fa False by (cases "b = a") auto
    moreover have "is_slab_full b c st2" if "b \<in> set (kc_full (km_cache st c))" for b
      using fl [of b] d that s(7) by auto
    ultimately show ?thesis using False kc s(3,4) assms(3) by (simp add: lists_ok_def)
  qed
  have lo: "lists_ok st2 e" if "e \<in> set (km_list st)" "e \<noteq> c" for e
    by (rule lists_ok_other [OF assms(1) s(8) [OF a(1)] that]) (simp_all add: p(7) sl1 sl that)
  have "set (slabs_of (km_cache st2 e)) = set (slabs_of (km_cache st e))" for e
    using kc sl [of e] assms(3) by (cases "e = c") (auto simp: slabs_of_def f_def)
  then have al: "all_slabs st2 = all_slabs st" using sl1 by (intro all_slabs_same) simp_all
  have sv: "sinv lo st2 (all_slabs st)" "live_of st2 (all_slabs st) = live_of st1 (all_slabs st)"
    using p(2) sinv_upd_cache(1) [of f lo c st1 "all_slabs st"] sinv_upd_cache(2) [of f c st1 "all_slabs st"] by (simp_all add: st2_def f_def)
  have "kc_size (km_cache st2 e) = kc_size (km_cache st e) \<and> kc_order (km_cache st2 e) = kc_order (km_cache st e)" for e
    using kc sl [of e] by (cases "e = c") (simp_all add: f_def)
  then have "slab_inv lo st2 \<and> live st2 = insert (x, kc_size (km_cache st c)) (live st) \<and> km_list st2 = km_list st \<and>
      (\<forall>d. kc_size (km_cache st2 d) = kc_size (km_cache st d) \<and> kc_order (km_cache st2 d) = kc_order (km_cache st d))"
    using sv al lc lo s(2) sl1 p(4) by (auto simp: slab_inv_def live_def)
  then show ?thesis using p(1,3) unfolding st2_def f_def by (auto simp: Let_def)
qed

lemma alloc_from_new:
  assumes "slab_inv lo st" "c \<in> set (km_list st)" "kc_part (km_cache st c) = []"
    and "kmem_cache_add_slab c st = Inr (a, st1)"
  shows "\<exists>x st2. obj_pop a st1 = Inr (x, st2) \<and> slab_inv lo st2 \<and> (x, kc_size (km_cache st c)) \<notin> live st \<and>
    live st2 = insert (x, kc_size (km_cache st c)) (live st) \<and> km_list st2 = km_list st \<and>
    (\<forall>d. kc_size (km_cache st2 d) = kc_size (km_cache st d) \<and> kc_order (km_cache st2 d) = kc_order (km_cache st d))"
proof -
  note s = slab_invD [OF assms(1,2)]
  have len: "kc_cpu (km_cache st c) \<noteq> []" using s(3) by (auto simp: NCPU_def)
  then obtain b where "(c, b) \<in> all_slabs st" using s(8) by (cases "kc_cpu (km_cache st c)") (auto simp: slabs_of_def)
  note g = sinvD(1,2) [OF s(1) this]
  define f where "f = (\<lambda>k :: kmem_cache. k\<lparr>kc_part := a # kc_part k\<rparr>)"
  obtain u where u: "slab_create c st = Inr (a, u)" "st1 = upd_cache c f u"
    using assms(4) by (auto simp: kmem_cache_add_slab_def kbind_eq_Inr f_def split: if_splits)
  note n = slab_create_sinv [OF s(1) g u(1)]
  have al: "all_slabs st1 = insert (c, a) (all_slabs st)"
    using assms(2) n(5,6) u(2) by (auto simp: all_slabs_def upd_cache_def slabs_of_def f_def split: if_splits)
  have "sinv lo st1 (insert (c, a) (all_slabs st))"
    unfolding u(2) using n(2) sinv_upd_cache(1) [of f] by (simp add: f_def)
  then have sv: "sinv lo st1 (all_slabs st1)" by (simp only: al)
  have lv: "live st1 = live st" unfolding live_def al unfolding u(2)
    using n(4) sinv_upd_cache(2) [of f] by (simp add: f_def)
  have kc: "km_cache st1 = (km_cache st)(c := f (km_cache st c))" "km_slab st1 = km_slab u" "km_list st1 = km_list st"
    using u(2) n(5,6) by (simp_all add: upd_cache_def)
  have ge: "kc_size (km_cache st1 d) = kc_size (km_cache st d)" "kc_count (km_cache st1 d) = kc_count (km_cache st d)"
    "kc_order (km_cache st1 d) = kc_order (km_cache st d)" for d
    using kc by (simp_all add: f_def)
  have nf: "\<not> is_slab_full a c st1" using n(7) kc(2) ge(2) [of c] g(2) by (simp add: is_slab_full_def geom_ok_def)
  have an: "b \<noteq> a" if "d \<in> set (km_list st)" "b \<in> set (slabs_of (km_cache st d))" for b d
    using that n(3) by (force simp: all_slabs_def image_iff)
  have fl: "is_slab_full b d st1 = is_slab_full b d st" if "b \<noteq> a" for b d
    using that n(8) kc(2) ge by (simp add: is_slab_full_def)
  have lo: "lists_ok st1 d" if "d \<in> set (km_list st)" for d
  proof (cases "d = c")
    case True
    have "a \<notin> set (slabs_of (km_cache st c))" using an assms(2) by blast
    then show ?thesis using s(3,4,7) nf fl an [OF assms(2)] kc True assms(3)
      by (auto simp: lists_ok_def f_def slabs_of_def)
  next
    case False
    then show ?thesis using slab_invD(3-7) [OF assms(1) that] fl an [OF that] kc
      by (auto simp: lists_ok_def slabs_of_def)
  qed
  have inv: "slab_inv lo st1" using sv lo s(2) kc by (simp add: slab_inv_def)
  have "c \<in> set (km_list st1)" "kc_part (km_cache st1 c) = [a]" using assms(2,3) kc by (simp_all add: f_def)
  from alloc_from_part [OF inv this] obtain x st2 where
    p: "obj_pop a st1 = Inr (x, st2)" "(x, kc_size (km_cache st1 c)) \<notin> live st1"
    and q: "let st3 = (if is_slab_full a c st2
       then upd_cache c (\<lambda>k. k\<lparr>kc_part := remove1 a (kc_part k), kc_full := a # kc_full k\<rparr>) st2 else st2)
     in slab_inv lo st3 \<and> live st3 = insert (x, kc_size (km_cache st1 c)) (live st1) \<and> km_list st3 = km_list st1 \<and>
      (\<forall>d. kc_size (km_cache st3 d) = kc_size (km_cache st1 d) \<and> kc_order (km_cache st3 d) = kc_order (km_cache st1 d))" by blast
  have ca: "(c, a) \<in> all_slabs st1" using al by simp
  have "sl_inuse (km_slab st2 a) = 1" "km_cache st2 = km_cache st1"
    using obj_pop_sinv [OF sv ca nf] p(1) n(7) kc(2) by auto
  then have "\<not> is_slab_full a c st2" using ge(2) [of c] g(2) by (simp add: is_slab_full_def geom_ok_def)
  then show ?thesis using p q lv ge kc(3) by (simp add: Let_def)
qed

lemma alloc_panic: "k \<le> 10 \<Longrightarrow> buddy_inv lo m \<Longrightarrow> alloc_pages_pa (int k) m = Inl e \<Longrightarrow> e = Panic ''BUDDY!''"
  using alloc_pages_success [of lo m k] alloc_pages_fail [of k m]
  by (cases "\<exists>l. k \<le> l \<and> l \<le> 10 \<and> mm_lists m l \<noteq> []") (auto simp: alloc_pages_pa_def)

lemma slab_create_panic:
  assumes "sinv lo st P" "geom_ok (km_cache st c)" "slab_create c st = Inl e"
  shows "e = Panic ''BUDDY!''"
proof (cases "alloc_pages_pa 0 (km_mm st)")
  case (Inl d)
  then show ?thesis using alloc_panic [of 0 lo "km_mm st" d] sinv_buddy [OF assms(1)] assms(3)
    by (simp add: slab_create_def Let_def)
next
  case (Inr u)
  obtain a m where u: "u = (a, m)" by (cases u)
  note l = alloc_pages_pa_law [OF sinv_buddy [OF assms(1)], of 0, simplified, OF Inr [unfolded u]]
  have k: "kc_order (km_cache st c) \<le> 10" using assms(2) by (simp add: geom_ok_def)
  show ?thesis
  proof (cases "alloc_pages_pa (int (kc_order (km_cache st c))) m")
    case E: (Inl d)
    then show ?thesis using alloc_panic [OF k l(1) E] Inr u l(3) assms(3) by (simp add: slab_create_def Let_def)
  next
    case F: (Inr v)
    obtain b m' where v: "v = (b, m')" by (cases v)
    then show ?thesis using alloc_pages_pa_law(3) [OF l(1) k F [unfolded v]] F Inr u l(3) assms(3)
      by (simp add: slab_create_def Let_def)
  qed
qed

text \<open>Allocation from a cache: either the buddy allocator has no block for a new slab and panics, or
  a new object of the size of the cache is returned.\<close>

lemma kmem_cache_alloc_inv:
  assumes "slab_inv lo st" "c \<in> set (km_list st)" "cpu < NCPU"
  shows "kmem_cache_alloc cpu c st = Inl (Panic ''BUDDY!'') \<and> (\<exists>e. slab_create c st = Inl e) \<or>
    (\<exists>x st1. kmem_cache_alloc cpu c st = Inr (x, st1) \<and> slab_inv lo st1 \<and> (x, kc_size (km_cache st c)) \<notin> live st \<and>
      live st1 = insert (x, kc_size (km_cache st c)) (live st) \<and> km_list st1 = km_list st \<and>
      (\<forall>d. kc_size (km_cache st1 d) = kc_size (km_cache st d) \<and> kc_order (km_cache st1 d) = kc_order (km_cache st d)))"
proof -
  let ?a = "kc_cpu (km_cache st c) ! cpu"
  note s = slab_invD [OF assms(1,2)]
  note m = cpu_slab_listed [OF assms]
  have ca: "(c, ?a) \<in> all_slabs st" using s(8) m by (simp add: slabs_of_def)
  note g = sinvD(1,2) [OF s(1) ca]
  consider "\<not> is_slab_full ?a c st" | "is_slab_full ?a c st" "kc_part (km_cache st c) = []"
    | a rest where "is_slab_full ?a c st" "kc_part (km_cache st c) = a # rest"
    by (cases "kc_part (km_cache st c)") auto
  then show ?thesis
  proof cases
    case 1
    then show ?thesis using alloc_from_cpu [OF assms(1,2) m] g(1) by (simp add: kmem_cache_alloc_def Let_def)
  next
    case 2
    show ?thesis
    proof (cases "kmem_cache_add_slab c st")
      case (Inl e)
      then have "slab_create c st = Inl e \<or> (\<exists>u. slab_create c st = Inr (0, u))"
        by (cases "slab_create c st") (auto simp: kmem_cache_add_slab_def split: if_splits)
      then have "e = Panic ''BUDDY!''" "slab_create c st = Inl e"
        using slab_create_panic [OF s(1) g(2)] slab_create_sinv(1) [OF s(1) g] by auto
      then show ?thesis using Inl 2 g(1) by (simp add: kmem_cache_alloc_def Let_def)
    next
      case (Inr u)
      then show ?thesis using alloc_from_new [OF assms(1,2) 2(2), of "fst u" "snd u"] 2 g(1)
        by (cases u) (auto simp: kmem_cache_alloc_def Let_def)
    qed
  next
    case (3 a rest)
    then show ?thesis using alloc_from_part [OF assms(1,2) 3(2)] g(1)
      by (fastforce simp: kmem_cache_alloc_def Let_def)
  qed
qed

section \<open>Freeing\<close>

lemma kmem_cache_free_inv:
  assumes "slab_inv lo st" "(c, a) \<in> all_slabs st" "(x, n) \<in> live_in st c a"
  shows "\<exists>st1. kmem_cache_free x st = Inr st1 \<and> slab_inv lo st1 \<and> live st1 = live st - {(x, n)} \<and>
    km_list st1 = km_list st \<and> (\<forall>d. kc_size (km_cache st1 d) = kc_size (km_cache st d) \<and> kc_order (km_cache st1 d) = kc_order (km_cache st d))"
proof -
  have c: "c \<in> set (km_list st)" "a \<in> set (slabs_of (km_cache st c))" using assms(2) by (auto simp: all_slabs_def)
  note s = slab_invD [OF assms(1) c(1)]
  have x: "x \<in> objs_of (km_cache st c) (km_slab st a)" using assms(3) by (simp add: live_in_def)
  note xp = objs_pos [OF s(1) assms(2) x]
  have a0: "a \<noteq> 0" using sinvD(4) [OF s(1) assms(2)] I2PA_pos(2) by (metis owns_def)
  note c0 = sinvD(1,3) [OF s(1) assms(2)]
  let ?plain = "a \<notin> set (kc_part (km_cache st c)) \<and> a \<notin> set (kc_full (km_cache st c))"
  define f where "f = (\<lambda>k :: kmem_cache. k\<lparr>kc_full := remove1 a (kc_full k), kc_part := a # remove1 a (kc_part k)\<rparr>)"
  define move where "move \<longleftrightarrow> \<not> ?plain \<and> is_slab_full a c st"
  define st0 where "st0 = (if move then upd_cache c f st else st)"
  have eq: "kmem_cache_free x st = obj_push a x st0"
    using xp a0 c0 by (simp add: kmem_cache_free_def st0_def move_def f_def)
  have sv0: "sinv lo st0 (all_slabs st)" "live_of st0 (all_slabs st) = live st"
    using s(1) sinv_upd_cache(1) [of f lo c st "all_slabs st"] sinv_upd_cache(2) [of f c st "all_slabs st"]
    by (simp_all add: st0_def f_def live_def)
  have kc0: "km_cache st0 d = (if move \<and> d = c then f (km_cache st c) else km_cache st d)" "km_slab st0 = km_slab st"
    "km_list st0 = km_list st" for d by (simp_all add: st0_def upd_cache_def)
  have ge: "kc_size (km_cache st0 d) = kc_size (km_cache st d)" "kc_count (km_cache st0 d) = kc_count (km_cache st d)"
    "kc_order (km_cache st0 d) = kc_order (km_cache st d)" for d
    by (simp_all add: kc0 f_def)
  have "objs_of (km_cache st0 c) = objs_of (km_cache st c)" by (simp add: objs_of_def fun_eq_iff ge)
  then have "(x, n) \<in> live_in st0 c a" using assms(3) kc0(2) ge by (simp add: live_in_def)
  from obj_push_sinv [OF sv0(1) assms(2) this] obtain st1 where
    p: "obj_push a x st0 = Inr st1" "sinv lo st1 (all_slabs st)" "live_of st1 (all_slabs st) = live st - {(x, n)}"
    "km_cache st1 = km_cache st0" "km_list st1 = km_list st" "0 < sl_inuse (km_slab st a)"
    "\<forall>b. sl_inuse (km_slab st1 b) = (if b = a then sl_inuse (km_slab st a) - 1 else sl_inuse (km_slab st b))"
    using sv0(2) kc0 by auto
  have fl: "is_slab_full b d st1 = is_slab_full b d st" if "b \<noteq> a" for b d
    using that p(4,7) ge by (simp add: is_slab_full_def)
  have "sl_inuse (km_slab st a) \<le> kc_count (km_cache st c)"
    using sinvD(8) [OF s(1) assms(2)] by (simp add: free_ok_def)
  then have fa: "\<not> is_slab_full a c st1" using p(4,6,7) ge by (simp add: is_slab_full_def)
  have lc: "lists_ok st1 c"
  proof (cases move)
    case True
    then have m: "a \<in> set (kc_full (km_cache st c))" "a \<notin> set (kc_part (km_cache st c))"
      using s(4,6) by (auto simp: move_def slabs_of_def)
    have k: "km_cache st1 c = f (km_cache st c)" using True p(4) kc0 by simp
    have d: "distinct (kc_cpu (km_cache st c) @ (a # kc_part (km_cache st c)) @ remove1 a (kc_full (km_cache st c)))"
      using s(4) m by (auto simp: slabs_of_def distinct_remove1)
    have "is_slab_full b c st1" if "b \<in> set (remove1 a (kc_full (km_cache st c)))" for b
    proof -
      have "b \<noteq> a" using that s(4) by (auto simp: slabs_of_def)
      then show ?thesis using fl s(7) that notin_set_remove1 by metis
    qed
    moreover have "\<not> is_slab_full b c st1" if "b \<in> set (a # kc_part (km_cache st c))" for b
      using that fa fl [of b c] s(6) by (cases "b = a") auto
    ultimately show ?thesis using d m(2) s(3) unfolding lists_ok_def k
      by (simp add: f_def slabs_of_def remove1_idem)
  next
    case False
    have k: "km_cache st1 c = km_cache st c" using False p(4) kc0 by simp
    have "a \<notin> set (kc_full (km_cache st c))" using False s(7) by (auto simp: move_def)
    then have "is_slab_full b c st1" if "b \<in> set (kc_full (km_cache st c))" for b using that fl s(7) by metis
    moreover have "\<not> is_slab_full b c st1" if "b \<in> set (kc_part (km_cache st c))" for b
      using that fa fl [of b c] s(6) by (cases "b = a") auto
    ultimately show ?thesis using s(3,4) unfolding lists_ok_def k by blast
  qed
  have lo: "lists_ok st1 d" if "d \<in> set (km_list st)" "d \<noteq> c" for d
    by (rule lists_ok_other [OF assms(1,2) that]) (simp_all add: p(4,7) kc0 that)
  have "set (slabs_of (km_cache st1 d)) = set (slabs_of (km_cache st d))" for d
  proof (cases "move \<and> d = c")
    case True
    then have "a \<in> set (kc_full (km_cache st c))" "a \<notin> set (kc_part (km_cache st c))"
      "distinct (kc_full (km_cache st c))" using s(4,6) by (auto simp: move_def slabs_of_def)
    then show ?thesis using True p(4) kc0(1) [of c] by (auto simp: slabs_of_def f_def remove1_idem)
  qed (use p(4) kc0 in auto)
  then have al: "all_slabs st1 = all_slabs st" using p(5) by (intro all_slabs_same) simp_all
  have "slab_inv lo st1" using p al lc lo s(2) by (auto simp: slab_inv_def)
  then show ?thesis using eq p al ge by (simp add: live_def)
qed

section \<open>Creating and destroying caches\<close>

definition slab_blocks :: "kmem \<Rightarrow> addr \<Rightarrow> addr \<Rightarrow> (nat \<times> nat) set" where
  "slab_blocks st c a = {(PA2I a, 0), (PA2I (sl_objs (km_slab st a)), kc_order (km_cache st c))}"

definition blocks_of :: "kmem \<Rightarrow> addr \<Rightarrow> addr list \<Rightarrow> (nat \<times> nat) set" where
  "blocks_of st c as = (\<Union>a\<in>set as. slab_blocks st c a)"

lemma destory_slabs_inv:
  assumes "sinv lo st P" "distinct as" "\<forall>a\<in>set as. (c, a) \<in> P"
  shows "\<exists>st1. destory_slabs as st = Inr st1 \<and> sinv lo st1 (P - {c} \<times> set as) \<and>
    (\<forall>Q. live_of st1 Q = live_of st Q) \<and>
    allocated lo (km_mm st1) = allocated lo (km_mm st) - blocks_of st c as \<and>
    km_cache st1 = km_cache st \<and> km_list st1 = km_list st \<and> km_slab st1 = km_slab st"
  using assms
proof (induction as arbitrary: st P)
  case Nil
  then show ?case by (simp add: blocks_of_def)
next
  case (Cons a as)
  then obtain u where u: "slab_destory a st = Inr u" "sinv lo u (P - {(c, a)})"
    "\<forall>Q. live_of u Q = live_of st Q" "allocated lo (km_mm u) = allocated lo (km_mm st) - slab_blocks st c a"
    "km_cache u = km_cache st" "km_list u = km_list st" "km_slab u = km_slab st"
    using slab_destory_sinv [OF Cons.prems(1), of c a] by (auto simp: slab_blocks_def)
  have "\<forall>b\<in>set as. (c, b) \<in> P - {(c, a)}" using Cons.prems(2,3) by auto
  from Cons.IH [OF u(2) _ this] Cons.prems(2) obtain st1 where st1: "destory_slabs as u = Inr st1"
    "sinv lo st1 (P - {(c, a)} - {c} \<times> set as)" "\<forall>Q. live_of st1 Q = live_of u Q"
    "allocated lo (km_mm st1) = allocated lo (km_mm u) - blocks_of u c as"
    "km_cache st1 = km_cache u" "km_list st1 = km_list u" "km_slab st1 = km_slab u" by auto
  have "P - {(c, a)} - {c} \<times> set as = P - {c} \<times> set (a # as)" by auto
  moreover have "blocks_of u c as = blocks_of st c as" using u(5,7) by (simp add: blocks_of_def slab_blocks_def)
  moreover have "blocks_of st c (a # as) = slab_blocks st c a \<union> blocks_of st c as" by (simp add: blocks_of_def)
  ultimately show ?case using u st1 by auto
qed

lemma listed_cache:
  assumes "slab_inv lo st" "c \<in> set (km_list st)"
  shows "c \<noteq> 0" "geom_ok (km_cache st c)"
proof -
  note s = slab_invD [OF assms]
  have "kc_cpu (km_cache st c) ! 0 \<in> set (slabs_of (km_cache st c))" using s(3) by (simp add: slabs_of_def NCPU_def)
  from sinvD(1,2) [OF s(1) s(8) [OF this]] show "c \<noteq> 0" "geom_ok (km_cache st c)" .
qed

lemma kmem_cache_destory_inv:
  assumes "slab_inv lo st" "c \<in> set (km_list st)"
  shows "\<exists>st1. kmem_cache_destory c st = Inr st1 \<and> slab_inv lo st1 \<and>
    km_list st1 = remove1 c (km_list st) \<and>
    live st1 = live_of st {(d, a) \<in> all_slabs st. d \<noteq> c} \<and>
    allocated lo (km_mm st1) = allocated lo (km_mm st) - blocks_of st c (slabs_of (km_cache st c))"
proof -
  let ?k = "km_cache st c" and ?P = "all_slabs st"
  note s = slab_invD [OF assms]
  have mp: "map (\<lambda>i. kc_cpu ?k ! i) [0..<NCPU] = kc_cpu ?k" using s(3) map_nth [of "kc_cpu ?k"] by simp
  have d: "distinct (kc_cpu ?k)" "distinct (kc_part ?k)" "distinct (kc_full ?k)" using s(4) by (auto simp: slabs_of_def)
  have m: "\<forall>a\<in>set (kc_cpu ?k). (c, a) \<in> ?P" using s(8) by (auto simp: slabs_of_def)
  obtain u where u: "destory_slabs (kc_cpu ?k) st = Inr u" "sinv lo u (?P - {c} \<times> set (kc_cpu ?k))"
    "\<forall>Q. live_of u Q = live_of st Q" "allocated lo (km_mm u) = allocated lo (km_mm st) - blocks_of st c (kc_cpu ?k)"
    "km_cache u = km_cache st" "km_list u = km_list st" "km_slab u = km_slab st"
    using destory_slabs_inv [OF s(1) d(1) m] by blast
  have m: "\<forall>a\<in>set (kc_part ?k). (c, a) \<in> ?P - {c} \<times> set (kc_cpu ?k)" using s(4,8) by (auto simp: slabs_of_def)
  obtain v where v: "destory_slabs (kc_part ?k) u = Inr v"
    "sinv lo v (?P - {c} \<times> set (kc_cpu ?k) - {c} \<times> set (kc_part ?k))"
    "\<forall>Q. live_of v Q = live_of u Q" "allocated lo (km_mm v) = allocated lo (km_mm u) - blocks_of u c (kc_part ?k)"
    "km_cache v = km_cache u" "km_list v = km_list u" "km_slab v = km_slab u"
    using destory_slabs_inv [OF u(2) d(2) m] by blast
  have m: "\<forall>a\<in>set (kc_full ?k). (c, a) \<in> ?P - {c} \<times> set (kc_cpu ?k) - {c} \<times> set (kc_part ?k)"
    using s(4,8) by (auto simp: slabs_of_def)
  obtain w where w: "destory_slabs (kc_full ?k) v = Inr w"
    "sinv lo w (?P - {c} \<times> set (kc_cpu ?k) - {c} \<times> set (kc_part ?k) - {c} \<times> set (kc_full ?k))"
    "\<forall>Q. live_of w Q = live_of v Q" "allocated lo (km_mm w) = allocated lo (km_mm v) - blocks_of v c (kc_full ?k)"
    "km_cache w = km_cache v" "km_list w = km_list v" "km_slab w = km_slab v"
    using destory_slabs_inv [OF v(2) d(3) m] by blast
  let ?t = "w\<lparr>km_list := remove1 c (km_list w)\<rparr>"
  have c0: "c \<noteq> 0" using listed_cache(1) [OF assms] .
  have eq: "kmem_cache_destory c st = Inr ?t"
    using u(1,5) v(1,5) w(1) c0 by (simp add: kmem_cache_destory_def mp)
  have P: "?P - {c} \<times> set (kc_cpu ?k) - {c} \<times> set (kc_part ?k) - {c} \<times> set (kc_full ?k) = {(d, a) \<in> ?P. d \<noteq> c}"
    by (auto simp: all_slabs_def slabs_of_def)
  have ts: "all_slabs ?t = {(d, a) \<in> ?P. d \<noteq> c}"
    using s(2) u(5,6) v(5,6) w(5,6) by (auto simp: all_slabs_def)
  have sv: "sinv lo ?t Q = sinv lo w Q" "live_of ?t Q = live_of w Q" for Q
    by (simp_all add: sinv_def live_of_def live_in_def claims_def)
  have "sinv lo ?t (all_slabs ?t)" using w(2) unfolding P ts sv .
  moreover have "lists_ok ?t d" if "d \<in> set (km_list st)" for d
    using slab_invD(5) [OF assms(1) that] u(5,7) v(5,7) w(5,7) by (simp add: lists_ok_def is_slab_full_def)
  ultimately have "slab_inv lo ?t"
    using s(2) u(6) v(6) w(6) by (auto simp: slab_inv_def)
  moreover have "live ?t = live_of st {(d, a) \<in> ?P. d \<noteq> c}" using u(3) v(3) w(3) by (simp add: live_def ts sv)
  moreover have "allocated lo (km_mm ?t) = allocated lo (km_mm st) - blocks_of st c (slabs_of ?k)"
    using u(4,5,7) v(4,5,7) w(4) by (auto simp: blocks_of_def slab_blocks_def slabs_of_def)
  ultimately show ?thesis using eq u(6) v(6) w(6) by auto
qed

lemma calc_order_from_spec:
  "require_size \<le> PGSIZE * 2 ^ calc_order_from require_size k \<and> k \<le> calc_order_from require_size k \<and>
   (k < calc_order_from require_size k \<longrightarrow> PGSIZE * 2 ^ (calc_order_from require_size k - 1) < require_size)"
proof (induction require_size k rule: calc_order_from.induct)
  case (1 r k)
  show ?case
  proof (cases "PGSIZE * 2 ^ k < r")
    case True
    then have e: "calc_order_from r k = calc_order_from r (k + 1)" by (simp add: calc_order_from.simps [of r k])
    show ?thesis
    proof (cases "k + 1 < calc_order_from r (k + 1)")
      case False
      then have "calc_order_from r (k + 1) = k + 1" using 1 [OF True] by simp
      then show ?thesis using 1 [OF True] True e by simp
    qed (use 1 [OF True] e in simp)
  next
    case False
    then show ?thesis by (simp add: calc_order_from.simps [of r k])
  qed
qed

lemma cache_geometry:
  assumes "16 \<le> sz" "sz \<le> 32768"
  defines "order \<equiv> calc_slab_order sz"
  shows "order \<le> 5" "4 \<le> 2 ^ order * PGSIZE div sz" "2 ^ order * PGSIZE div sz \<le> 256"
proof -
  have o: "sz * 4 \<le> PGSIZE * 2 ^ order" "0 < order \<Longrightarrow> PGSIZE * 2 ^ (order - 1) < sz * 4"
    using calc_order_from_spec [of "sz * 4" 0] by (auto simp: order_def calc_slab_order_def MIN_OBJ_COUNT_PER_PAGE_def)
  show "order \<le> 5"
  proof (rule ccontr)
    assume n: "\<not> order \<le> 5"
    then have "(2::nat) ^ 5 \<le> 2 ^ (order - 1)" by (intro power_increasing) auto
    then show False using o(2) assms(2) n by (simp add: PGSIZE_def)
  qed
  show "4 \<le> 2 ^ order * PGSIZE div sz" using o(1) assms(1) by (simp add: less_eq_div_iff_mult_less_eq mult.commute)
  show "2 ^ order * PGSIZE div sz \<le> 256"
  proof (cases "order = 0")
    case True
    have "4096 div sz \<le> 4096 div 16" using assms(1) by (intro div_le_mono2) auto
    then show ?thesis using True by (simp add: PGSIZE_def)
  next
    case False
    then have "2 ^ order * PGSIZE < sz * 8" using o(2) by (cases order) simp_all
    then have "2 ^ order * PGSIZE div sz < 8" using less_mult_imp_div_less mult.commute by metis
    then show ?thesis by simp
  qed
qed

lemma cache_cpu_loop_inv:
  assumes "sinv lo st P" "c \<noteq> 0" "geom_ok (km_cache st c)" "length (kc_cpu (km_cache st c)) = i + n"
    and "cache_cpu_loop n i c st = Inr st1"
  shows "\<exists>as. length as = n \<and> distinct as \<and> set as \<inter> snd ` P = {} \<and>
    km_cache st1 = (km_cache st)(c := (km_cache st c)\<lparr>kc_cpu := take i (kc_cpu (km_cache st c)) @ as\<rparr>) \<and>
    sinv lo st1 (P \<union> {c} \<times> set as) \<and> live_of st1 (P \<union> {c} \<times> set as) = live_of st P \<and> km_list st1 = km_list st \<and>
    (\<forall>b. b \<notin> set as \<longrightarrow> km_slab st1 b = km_slab st b) \<and> (\<forall>a\<in>set as. sl_inuse (km_slab st1 a) = 0) \<and>
    allocated lo (km_mm st1) = allocated lo (km_mm st) \<union> blocks_of st1 c as \<and>
    blocks_of st1 c as \<inter> allocated lo (km_mm st) = {}"
  using assms
proof (induction n arbitrary: i st P)
  case 0
  then show ?case by (intro exI [of _ "[]"]) (simp add: blocks_of_def)
next
  case (Suc n)
  from Suc.prems(5) obtain a u where u: "slab_create c st = Inr (a, u)" by (auto simp: kbind_eq_Inr)
  note n = slab_create_sinv [OF Suc.prems(1-3) u]
  define f where "f = (\<lambda>k :: kmem_cache. k\<lparr>kc_cpu := (kc_cpu k)[i := a]\<rparr>)"
  let ?v = "upd_cache c f u"
  have v: "cache_cpu_loop n (Suc i) c ?v = Inr st1" using Suc.prems(5) u n(1) by (simp add: f_def)
  have kv: "km_cache ?v = (km_cache st)(c := f (km_cache st c))" "km_slab ?v = km_slab u" "km_list ?v = km_list st"
    "km_mm ?v = km_mm u" using n(5,6) by (simp_all add: upd_cache_def)
  have sv: "sinv lo ?v (insert (c, a) P)" "live_of ?v (insert (c, a) P) = live_of st P"
    using n(2,4) sinv_upd_cache(1) [of f lo c u "insert (c, a) P"] sinv_upd_cache(2) [of f c u "insert (c, a) P"]
    by (simp_all add: f_def)
  have "geom_ok (km_cache ?v c)" "length (kc_cpu (km_cache ?v c)) = Suc i + n"
    using Suc.prems(3,4) kv by (simp_all add: geom_ok_def f_def)
  from Suc.IH [OF sv(1) Suc.prems(2) this v] obtain as where
    as: "length as = n" "distinct as" "set as \<inter> snd ` insert (c, a) P = {}"
    "km_cache st1 = (km_cache ?v)(c := (km_cache ?v c)\<lparr>kc_cpu := take (Suc i) (kc_cpu (km_cache ?v c)) @ as\<rparr>)"
    "sinv lo st1 (insert (c, a) P \<union> {c} \<times> set as)" "live_of st1 (insert (c, a) P \<union> {c} \<times> set as) = live_of st P"
    "km_list st1 = km_list st" "\<forall>b. b \<notin> set as \<longrightarrow> km_slab st1 b = km_slab u b"
    "allocated lo (km_mm st1) = allocated lo (km_mm u) \<union> blocks_of st1 c as"
    "blocks_of st1 c as \<inter> allocated lo (km_mm u) = {}" "\<forall>b\<in>set as. sl_inuse (km_slab st1 b) = 0"
    unfolding sv(2) kv by blast
  have "take (Suc i) ((kc_cpu (km_cache st c))[i := a]) = take i (kc_cpu (km_cache st c)) @ [a]"
    using Suc.prems(4) by (simp add: take_Suc_conv_app_nth)
  then have kc: "km_cache st1 = (km_cache st)(c := (km_cache st c)\<lparr>kc_cpu := take i (kc_cpu (km_cache st c)) @ a # as\<rparr>)"
    using as(4) kv by (simp add: f_def)
  have P: "insert (c, a) P \<union> {c} \<times> set as = P \<union> {c} \<times> set (a # as)" by auto
  have sa: "km_slab st1 a = km_slab u a" using as(3,8) by auto
  obtain objs where o: "allocated lo (km_mm u) = {(PA2I a, 0), (PA2I objs, kc_order (km_cache st c))} \<union> allocated lo (km_mm st)"
    "sl_objs (km_slab u a) = objs" "{PA2I a, PA2I objs} \<inter> fst ` allocated lo (km_mm st) = {}" using n(9) by blast
  have b: "blocks_of st1 c (a # as) = {(PA2I a, 0), (PA2I objs, kc_order (km_cache st c))} \<union> blocks_of st1 c as"
    using sa o(2) kc by (simp add: blocks_of_def slab_blocks_def)
  have "allocated lo (km_mm st1) = allocated lo (km_mm st) \<union> blocks_of st1 c (a # as)"
    unfolding b as(9) o(1) by blast
  moreover have "blocks_of st1 c (a # as) \<inter> allocated lo (km_mm st) = {}"
    unfolding b using as(10) o(1,3) by (auto simp: image_iff)
  moreover have "\<forall>b. b \<notin> set (a # as) \<longrightarrow> km_slab st1 b = km_slab st b" using as(8) n(8) by auto
  moreover have "distinct (a # as)" "set (a # as) \<inter> snd ` P = {}" using as(2,3) n(3) by auto
  moreover have "\<forall>b\<in>set (a # as). sl_inuse (km_slab st1 b) = 0" using as(11) sa n(7) by simp
  ultimately show ?case using as(1,5,6,7) kc unfolding P by (intro exI [of _ "a # as"]) simp
qed

lemma cache_size:
  fixes sz :: u16
  defines "osz \<equiv> unat (next_power_of_2 (ucast sz)) mod 65536"
  shows "8 < unat sz \<Longrightarrow> unat sz \<le> 32768 \<Longrightarrow> 16 \<le> osz \<and> osz \<le> 32768 \<and> unat sz \<le> osz \<and> osz < 2 * unat sz"
    "unat sz \<le> 8 \<Longrightarrow> 1 \<le> osz \<and> osz \<le> 8" "32768 < unat sz \<Longrightarrow> osz = 0"
proof -
  have u: "unat (ucast sz :: u64) = unat sz" by (rule unat_ucast_up) simp
  have b: "unat sz < 65536" using unat_less_width [of sz] by simp
  obtain k where k: "unat (next_power_of_2 (ucast sz)) = 2 ^ k" "unat sz \<le> 2 ^ k" "sz \<noteq> 0 \<Longrightarrow> 2 ^ k < 2 * unat sz" "sz = 0 \<Longrightarrow> k = 0"
  proof (cases "sz = 0")
    case True
    then show ?thesis using that [of 0] by (simp add: next_power_of_2_def)
  next
    case False
    then have "(ucast sz :: u64) \<noteq> 0" using u by (metis unat_eq_zero)
    then show ?thesis using next_power_of_2_spec [of "ucast sz"] u b that False by auto
  qed
  have pw: "a \<le> k" if "(2::nat) ^ a < 2 * 2 ^ k" for a
    using that power_less_imp_less_exp [of "2::nat" a "Suc k"] by simp
  have pk: "k \<le> a" if "(2::nat) ^ k < 2 * 2 ^ a" for a
    using that power_less_imp_less_exp [of "2::nat" k "Suc a"] by simp
  show "16 \<le> osz \<and> osz \<le> 32768 \<and> unat sz \<le> osz \<and> osz < 2 * unat sz" if a: "8 < unat sz" "unat sz \<le> 32768"
  proof -
    have z: "sz \<noteq> 0" using a(1) by auto
    have "4 \<le> k" using pw [of 4] k(2) a(1) by simp
    then have "(2::nat) ^ 4 \<le> 2 ^ k" by (rule power_increasing) simp
    moreover have "k \<le> 15" using pk [of 15] k(3) [OF z] a(2) by simp
    then have "(2::nat) ^ k \<le> 2 ^ 15" by (rule power_increasing) simp
    ultimately show ?thesis using k z by (simp add: osz_def)
  qed
  show "1 \<le> osz \<and> osz \<le> 8" if "unat sz \<le> 8"
  proof -
    have "k \<le> 3" using pk [of 3] k(3,4) that by (cases "sz = 0") auto
    then have "(2::nat) ^ k \<le> 2 ^ 3" by (intro power_increasing) auto
    then show ?thesis using k(1) by (simp add: osz_def)
  qed
  show "osz = 0" if "32768 < unat sz"
  proof -
    have z: "sz \<noteq> 0" using that by auto
    have "16 \<le> k" using pw [of 16] k(2) that by simp
    moreover have "k \<le> 16" using pk [of 16] k(3) [OF z] b by simp
    ultimately show ?thesis using k(1) by (simp add: osz_def)
  qed
qed

text \<open>
  \<open>kmem_cache_create\<close> rejects the object sizes it cannot serve.  Up to 8 bytes the objects of a page
  outnumber the free stack and the assertion fails; above 32768 bytes the rounded size is truncated to zero
  and the next statement divides by it.
\<close>

theorem kmem_cache_create_rejects:
  shows "(unat sz \<le> 8 \<longrightarrow> kmem_cache_create c sz st = Inl (Panic ''kmem_cache_create'')) \<and>
    (32768 < unat sz \<longrightarrow> kmem_cache_create c sz st = Inl (Fault ''division by zero''))"
proof (intro conjI impI)
  let ?s = "unat (next_power_of_2 (ucast sz)) mod 65536"
  assume "unat sz \<le> 8"
  from cache_size(2) [OF this] have s: "1 \<le> ?s" "?s \<le> 8" by auto
  have o: "calc_slab_order ?s = 0"
    using s by (simp add: calc_slab_order_def calc_order_from.simps MIN_OBJ_COUNT_PER_PAGE_def PGSIZE_def)
  have "(4096::nat) div 8 \<le> 4096 div ?s" using s by (intro div_le_mono2) auto
  then have "\<not> 4096 div ?s mod 65536 \<le> 256" 
    using mod_less [OF le_less_trans [OF div_le_dividend, of 4096 65536 ?s]] by simp
  then show "kmem_cache_create c sz st = Inl (Panic ''kmem_cache_create'')"
    using s o by (simp add: kmem_cache_create_def Let_def PGSIZE_def FREE_LIST_MAX_LEN_def)
next
  assume "32768 < unat sz"
  from cache_size(3) [OF this] show "kmem_cache_create c sz st = Inl (Fault ''division by zero'')"
    by (simp add: kmem_cache_create_def Let_def)
qed

theorem kmem_cache_create_rejects_witness:
  "\<forall>st. kmem_cache_create 1 4 st = Inl (Panic ''kmem_cache_create'') \<and>
   kmem_cache_create 1 40000 st = Inl (Fault ''division by zero'')"
  using kmem_cache_create_rejects [of 4 1] kmem_cache_create_rejects [of 40000 1] by simp

lemma sinv_upd_unused:
  assumes "\<And>a. (c, a) \<notin> P"
  shows "sinv lo (upd_cache c f st) P = sinv lo st P" "live_of (upd_cache c f st) P = live_of st P"
proof -
  have e: "km_slab (upd_cache c f st) = km_slab st" "km_mm (upd_cache c f st) = km_mm st"
    "claims (upd_cache c f st) = claims st" by (simp_all add: upd_cache_def claims_def fun_eq_iff)
  have k: "km_cache (upd_cache c f st) d = km_cache st d" if "(d, a) \<in> P" for d a
    using that assms by (auto simp: upd_cache_def)
  show "sinv lo (upd_cache c f st) P = sinv lo st P" unfolding sinv_def e by (simp add: k cong: imp_cong)
  have "live_in (upd_cache c f st) d a = live_in st d a" if "(d, a) \<in> P" for d a
    using k [OF that] e by (simp add: live_in_def)
  then show "live_of (upd_cache c f st) P = live_of st P" unfolding live_of_def e by auto
qed

lemma unused_slab:
  assumes "sinv lo st P" "(c, a) \<in> P" "sl_inuse (km_slab st a) = 0"
  shows "live_in st c a = {}"
proof -
  let ?l = "sstack_list (sl_free (km_slab st a))" and ?o = "objs_of (km_cache st c) (km_slab st a)"
  note f = sinvD(2,8) [OF assms(1,2)]
  have "card (set ?l) = card ?o" "set ?l \<subseteq> ?o"
    using f(2) assms(3) card_objs_of [OF f(1)] by (simp_all add: free_ok_def distinct_card)
  then have "set ?l = ?o" by (intro card_subset_eq) (simp_all add: objs_of_def)
  then show ?thesis by (auto simp: live_in_def)
qed

lemma kmem_cache_create_inv:
  assumes "slab_inv lo st" "c \<notin> set (km_list st)" "c \<noteq> 0" "length (kc_cpu (km_cache st c)) = NCPU"
    and "8 < unat sz" "unat sz \<le> 32768" "kmem_cache_create c sz st = Inr st1"
  shows "slab_inv lo st1 \<and> km_list st1 = c # km_list st \<and> live st1 = live st \<and>
    unat sz \<le> kc_size (km_cache st1 c) \<and> kc_size (km_cache st1 c) < 2 * unat sz \<and>
    (\<forall>d. d \<noteq> c \<longrightarrow> km_cache st1 d = km_cache st d) \<and>
    allocated lo (km_mm st1) = allocated lo (km_mm st) \<union> blocks_of st1 c (slabs_of (km_cache st1 c)) \<and>
    blocks_of st1 c (slabs_of (km_cache st1 c)) \<inter> allocated lo (km_mm st) = {} \<and>
    live_of st1 {(d, a) \<in> all_slabs st1. d \<noteq> c} = live st"
proof -
  define osz where "osz = unat (next_power_of_2 (ucast sz)) mod 65536"
  have o: "16 \<le> osz" "osz \<le> 32768" "unat sz \<le> osz" "osz < 2 * unat sz"
    using cache_size(1) [OF assms(5,6)] by (simp_all add: osz_def)
  define order where "order = calc_slab_order osz"
  note g = cache_geometry [OF o(1,2), folded order_def]
  define count where "count = 2 ^ order * PGSIZE div osz"
  define f where "f = (\<lambda>k :: kmem_cache. k\<lparr>kc_size := osz, kc_order := order, kc_count := count, kc_part := [], kc_full := []\<rparr>)"
  have cnt: "2 ^ order * PGSIZE div osz mod 65536 = count" using g(3) by (simp add: count_def)
  obtain u where u: "cache_cpu_loop NCPU 0 c (upd_cache c f st) = Inr u" "st1 = u\<lparr>km_list := c # km_list u\<rparr>"
    using assms(7) unfolding kmem_cache_create_def Let_def osz_def [symmetric] order_def [symmetric] cnt
    by (auto simp: kbind_eq_Inr cache_cpu_init_def f_def split: if_splits)
  have nP: "(c, a) \<notin> all_slabs st" for a using assms(2) by (simp add: all_slabs_def)
  have s: "sinv lo st (all_slabs st)" "distinct (km_list st)" using assms(1) by (auto simp: slab_inv_def)
  note sv = sinv_upd_unused [of c "all_slabs st", OF nP]
  have k: "km_cache (upd_cache c f st) c = f (km_cache st c)" by (simp add: upd_cache_def)
  have "count * osz \<le> 2 ^ order * PGSIZE" by (simp add: count_def)
  then have geo: "geom_ok (km_cache (upd_cache c f st) c)"
    using g o(1) unfolding k by (simp add: geom_ok_def f_def count_def FREE_LIST_MAX_LEN_def PGSIZE_def)
  have len: "length (kc_cpu (km_cache (upd_cache c f st) c)) = 0 + NCPU" using assms(4) by (simp add: upd_cache_def f_def)
  have v: "live_of (upd_cache c f st) (all_slabs st) = live st" "km_list (upd_cache c f st) = km_list st"
    "km_slab (upd_cache c f st) = km_slab st" "km_mm (upd_cache c f st) = km_mm st" "\<And>xs. take 0 xs @ ys = ys" for ys :: "addr list"
    by (simp_all add: sv(2) live_def) (simp_all add: upd_cache_def)
  obtain as where as: "length as = NCPU" "distinct as" "set as \<inter> snd ` all_slabs st = {}"
    "km_cache u = (km_cache (upd_cache c f st))(c := (km_cache (upd_cache c f st) c)\<lparr>kc_cpu := as\<rparr>)"
    "sinv lo u (all_slabs st \<union> {c} \<times> set as)" "live_of u (all_slabs st \<union> {c} \<times> set as) = live st"
    "km_list u = km_list st" "\<forall>b. b \<notin> set as \<longrightarrow> km_slab u b = km_slab st b" "\<forall>a\<in>set as. sl_inuse (km_slab u a) = 0"
    "allocated lo (km_mm u) = allocated lo (km_mm st) \<union> blocks_of u c as" "blocks_of u c as \<inter> allocated lo (km_mm st) = {}"
    using cache_cpu_loop_inv [OF sv(1) [THEN iffD2, OF s(1)] assms(3) geo len u(1), unfolded v] by blast
  have kc: "km_cache st1 c = (f (km_cache st c))\<lparr>kc_cpu := as\<rparr>" "\<And>d. d \<noteq> c \<Longrightarrow> km_cache st1 d = km_cache st d"
    "km_list st1 = c # km_list st" "km_slab st1 = km_slab u" "km_mm st1 = km_mm u"
    using as(4,7) u(2) by (simp_all add: upd_cache_def)
  have sl: "slabs_of (km_cache st1 c) = as" using kc(1) by (simp add: slabs_of_def f_def)
  have kd: "km_cache st1 d = km_cache st d" if "d \<in> set (km_list st)" for d using kc(2) [of d] that assms(2) by (cases "d = c") simp_all
  have al: "all_slabs st1 = all_slabs st \<union> {c} \<times> set as" "{(d, a) \<in> all_slabs st1. d \<noteq> c} = all_slabs st"
    using kc(3) sl assms(2) kd by (auto simp: all_slabs_def)
  have sv1: "sinv lo st1 Q = sinv lo u Q" "live_of st1 Q = live_of u Q" "blocks_of st1 = blocks_of u" for Q
    using u(2) by (simp_all add: sinv_def live_of_def live_in_def claims_def blocks_of_def slab_blocks_def fun_eq_iff)
  have "live_in u c a = {}" if "a \<in> set as" for a using unused_slab [OF as(5), of c a] as(9) that by simp
  then have lv: "live_of u (all_slabs st) = live st" using as(6) by (auto simp: live_of_def)
  have "lists_ok st1 c" using sl as(1,2) kc(1) by (simp add: lists_ok_def f_def)
  moreover have "lists_ok st1 d" if "d \<in> set (km_list st)" for d
  proof -
    have d: "d \<noteq> c" using that assms(2) by blast
    have "a \<notin> set as" if "a \<in> set (slabs_of (km_cache st d))" for a
      using slab_invD(8) [OF assms(1) \<open>d \<in> set (km_list st)\<close> that] as(3) by force
    then have "is_slab_full a d st1 = is_slab_full a d st" if "a \<in> set (slabs_of (km_cache st d))" for a
      using that as(8) kc(2,4) d by (simp add: is_slab_full_def)
    then show ?thesis using slab_invD(5) [OF assms(1) that] kc(2) [OF d] by (simp add: lists_ok_def slabs_of_def)
  qed
  ultimately have "slab_inv lo st1" using as(5) s(2) kc(3) assms(2) al(1) by (auto simp: slab_inv_def sv1)
  moreover have "live st1 = live st" using as(6) by (simp add: live_def al(1) sv1)
  moreover have "kc_size (km_cache st1 c) = osz" using kc(1) by (simp add: f_def)
  ultimately show ?thesis using kc o(3,4) as(10,11) sl lv al(2) by (simp add: sv1)
qed

text \<open>
  C30: creating a cache for objects of 9 to 32768 bytes and destroying it again is clean.  The new cache
  serves objects of at least the requested and less than twice the requested size, no object
  becomes live or is lost, and the destruction gives back exactly the page blocks that the cache took.
\<close>

theorem cache_create_destory:
  assumes "slab_inv lo st" "c \<notin> set (km_list st)" "c \<noteq> 0" "length (kc_cpu (km_cache st c)) = NCPU"
    and "8 < unat sz" "unat sz \<le> 32768" "kmem_cache_create c sz st = Inr st1"
  shows "slab_inv lo st1 \<and> live st1 = live st \<and> unat sz \<le> kc_size (km_cache st1 c) \<and>
    kc_size (km_cache st1 c) < 2 * unat sz \<and>
    (\<exists>st2. kmem_cache_destory c st1 = Inr st2 \<and> slab_inv lo st2 \<and> km_list st2 = km_list st \<and> live st2 = live st \<and>
      allocated lo (km_mm st2) = allocated lo (km_mm st))"
proof -
  note c = kmem_cache_create_inv [OF assms]
  have "c \<in> set (km_list st1)" using c by simp
  from kmem_cache_destory_inv [OF conjunct1 [OF c] this] show ?thesis using c by auto
qed

end
