(* ===== verification/LibString.thy ===== *)
theory LibString
  imports Prelude
begin

text \<open>
  lib/string.c over byte addressed memory.  The loops that run to a terminating zero byte may not
  end on a memory without one, so they are partial functions with \<open>None\<close> for not returning;
  \<open>cstr m p s\<close> says that the string \<open>s\<close> is stored at \<open>p\<close>, and every such loop is
  shown to return on it.
\<close>

unbundle bit_operations_syntax

section \<open>Definitions\<close>

definition memset :: "mem \<Rightarrow> nat \<Rightarrow> u32 \<Rightarrow> nat \<Rightarrow> mem" where
  "memset m dst c n = foldl (\<lambda>m i. m(dst + i := ucast c)) m [0..<n]"

definition memcpy :: "mem \<Rightarrow> nat \<Rightarrow> nat \<Rightarrow> nat \<Rightarrow> mem" where
  "memcpy m dst src n = foldl (\<lambda>m i. m(dst + i := m (src + i))) m [0..<n]"

partial_function (option) strdup_loop :: "mem \<Rightarrow> nat \<Rightarrow> nat \<Rightarrow> nat \<Rightarrow> (nat \<times> mem) option" where
  "strdup_loop m dst src len =
    (let c = m (src + len); m' = m(dst + len := c)
     in if c = 0 then Some (len + 1, m') else strdup_loop m' dst src (len + 1))"

definition strdup :: "mem \<Rightarrow> nat \<Rightarrow> nat \<Rightarrow> (nat \<times> mem) option" where
  "strdup m dst src = strdup_loop m dst src 0"

text \<open>The loop of \<open>strncpy\<close> returns the number of bytes copied, the offset reached by \<open>_dst\<close> and the
  memory; \<open>_dst\<close> has moved past a copied zero byte.\<close>

function strncpy_loop :: "mem \<Rightarrow> nat \<Rightarrow> nat \<Rightarrow> nat \<Rightarrow> nat \<Rightarrow> nat \<times> nat \<times> mem" where
  "strncpy_loop m dst src len copied =
    (if copied < len then
       (let c = m (src + copied); m' = m(dst + copied := c)
        in if c \<noteq> 0 then strncpy_loop m' dst src len (copied + 1) else (copied, copied + 1, m'))
     else (copied, copied, m))"
  by pat_completeness auto
termination
  by (relation "measure (\<lambda>(m, dst, src, len, copied). len - copied)") auto

declare strncpy_loop.simps [simp del]

definition strncpy :: "mem \<Rightarrow> nat \<Rightarrow> nat \<Rightarrow> nat \<Rightarrow> nat \<times> mem" where
  "strncpy m dst src len =
    (let (copied, off, m') = strncpy_loop m dst src len 0
     in (copied, if copied < len then m'(dst + off := 0) else m'))"

function strncmp :: "mem \<Rightarrow> nat \<Rightarrow> nat \<Rightarrow> nat \<Rightarrow> int" where
  "strncmp m p q n =
    (if n > 0 \<and> m p \<noteq> 0 \<and> m p = m q then strncmp m (p + 1) (q + 1) (n - 1)
     else if n = 0 then 0 else uint (m p) - uint (m q))"
  by pat_completeness auto
termination
  by (relation "measure (\<lambda>(m, p, q, n). n)") auto

declare strncmp.simps [simp del]

partial_function (option) strcmp :: "mem \<Rightarrow> nat \<Rightarrow> nat \<Rightarrow> int option" where
  "strcmp m p q =
    (if m p \<noteq> 0 \<and> m p = m q then strcmp m (p + 1) (q + 1) else Some (uint (m p) - uint (m q)))"

partial_function (option) strhash_loop :: "mem \<Rightarrow> nat \<Rightarrow> u64 \<Rightarrow> u64 option" where
  "strhash_loop m p hash =
    (if m p \<noteq> 0 then strhash_loop m (p + 1) ((push_bit 5 hash + hash) + ucast (m p)) else Some hash)"

definition strhash :: "mem \<Rightarrow> nat \<Rightarrow> int option" where
  "strhash m p = map_option (\<lambda>hash. sint (ucast (hash AND 0x7FFFFFFF) :: u32)) (strhash_loop m p 5381)"

partial_function (option) strlen_loop :: "mem \<Rightarrow> nat \<Rightarrow> nat option" where
  "strlen_loop m p = (if m p \<noteq> 0 then strlen_loop m (p + 1) else Some p)"

definition strlen :: "mem \<Rightarrow> nat \<Rightarrow> u32 option" where
  "strlen m start = map_option (\<lambda>p. of_nat (p - start)) (strlen_loop m start)"

section \<open>Strings in memory\<close>

fun cstr :: "mem \<Rightarrow> nat \<Rightarrow> u8 list \<Rightarrow> bool" where
  "cstr m p [] = (m p = 0)"
| "cstr m p (c # s) = (m p = c \<and> c \<noteq> 0 \<and> cstr m (p + 1) s)"

lemma cstr_nth: "cstr m p s \<Longrightarrow> i < length s \<Longrightarrow> m (p + i) = s ! i \<and> s ! i \<noteq> 0"
proof (induction s arbitrary: p i)
  case (Cons c s)
  then show ?case using Cons.IH [of "p + 1" "i - 1"] by (cases i) simp_all
qed simp

lemma cstr_end: "cstr m p s \<Longrightarrow> m (p + length s) = 0"
  by (induction s arbitrary: p) fastforce+

lemma cstrI:
  "(\<And>i. i < length s \<Longrightarrow> m (p + i) = s ! i \<and> s ! i \<noteq> 0) \<Longrightarrow> m (p + length s) = 0 \<Longrightarrow> cstr m p s"
proof (induction s arbitrary: p)
  case (Cons c s)
  have "m (p + 1 + i) = s ! i \<and> s ! i \<noteq> 0" if "i < length s" for i
    using Cons.prems(1) [of "Suc i"] that by simp
  moreover have "m (p + 1 + length s) = 0" using Cons.prems(2) by simp
  ultimately have "cstr m (p + 1) s" by (intro Cons.IH)
  then show ?case using Cons.prems(1) [of 0] by simp
qed simp

lemma cstr_cong:
  "cstr m p s \<Longrightarrow> (\<And>i. i \<le> length s \<Longrightarrow> m' (p + i) = m (p + i)) \<Longrightarrow> cstr m' p s"
  by (rule cstrI) (auto simp: cstr_nth cstr_end)

section \<open>Memory blocks\<close>

lemma memset_nth:
  "memset m dst c n a = (if dst \<le> a \<and> a < dst + n then ucast c else m a)"
  by (induction n) (auto simp: memset_def)

text \<open>A forward copy is correct when the destination does not start inside the source.\<close>

lemma memcpy_nth:
  assumes "dst \<le> src \<or> src + n \<le> dst"
  shows "memcpy m dst src n a = (if dst \<le> a \<and> a < dst + n then m (src + (a - dst)) else m a)"
  using assms
proof (induction n arbitrary: a)
  case (Suc n)
  have "memcpy m dst src (Suc n) = (memcpy m dst src n)(dst + n := memcpy m dst src n (src + n))"
    by (simp add: memcpy_def)
  moreover have "memcpy m dst src n (src + n) = m (src + n)" using Suc by auto
  ultimately show ?case using Suc by auto
qed (auto simp: memcpy_def)

section \<open>Length, comparison, hash\<close>

lemma strlen_loop_cstr: "cstr m p s \<Longrightarrow> strlen_loop m p = Some (p + length s)"
  by (induction s arbitrary: p) (simp_all add: strlen_loop.simps)

lemma strlen_cstr: "cstr m p s \<Longrightarrow> strlen m p = Some (of_nat (length s))"
  by (simp add: strlen_def strlen_loop_cstr)

definition djb2 :: "u8 list \<Rightarrow> u64" where
  "djb2 s = foldl (\<lambda>h c. 33 * h + ucast c) 5381 s"

lemma strhash_loop_cstr:
  "cstr m p s \<Longrightarrow> strhash_loop m p h = Some (foldl (\<lambda>h c. 33 * h + ucast c) h s)"
proof (induction s arbitrary: p h)
  case (Cons c s)
  have "push_bit 5 h + h = 33 * h" by (simp add: push_bit_eq_mult)
  with Cons show ?case by (simp add: strhash_loop.simps)
qed (simp add: strhash_loop.simps)

lemma mask31_sint: "0 \<le> sint (ucast (h AND 0x7FFFFFFF :: u64) :: u32) \<and>
    sint (ucast (h AND 0x7FFFFFFF :: u64) :: u32) = uint h mod 2 ^ 31"
proof -
  have "h AND 0x7FFFFFFF = take_bit 31 h" by (simp add: take_bit_eq_mask mask_eq_exp_minus_1)
  moreover have u: "uint (ucast (take_bit 31 h) :: u32) = take_bit 31 (uint h)"
    by (simp add: unsigned_ucast_eq unsigned_take_bit_eq)
  have "sint (ucast (take_bit 31 h) :: u32) = take_bit 31 (uint h)"
    unfolding sint_uint u by (subst signed_take_bit_eq_if_positive) (simp_all add: bit_take_bit_iff)
  ultimately show ?thesis by (simp add: take_bit_eq_mod)
qed

lemma strhash_cstr: "cstr m p s \<Longrightarrow> strhash m p = Some (uint (djb2 s) mod 2 ^ 31)"
  by (simp add: strhash_def strhash_loop_cstr djb2_def mask31_sint)


text \<open>The order on strings: lexicographic on unsigned bytes.\<close>

definition str_less :: "u8 list \<Rightarrow> u8 list \<Rightarrow> bool" where
  "str_less s t = ((s, t) \<in> lexord {(a, b). a < b})"

lemma str_less_simps [simp]:
  "\<not> str_less s []" "str_less [] (d # t)"
  "str_less (c # s) (d # t) \<longleftrightarrow> c < d \<or> c = d \<and> str_less s t"
  by (auto simp: str_less_def)

lemma uint_diff_cases [simp]:
  "uint (a :: u8) - uint b = 0 \<longleftrightarrow> a = b" "uint a - uint b < 0 \<longleftrightarrow> a < b"
  "uint a = uint b \<longleftrightarrow> a = b" "uint a < uint b \<longleftrightarrow> a < b"
  "uint a = 0 \<longleftrightarrow> a = 0" "0 < uint a \<longleftrightarrow> a \<noteq> 0" "\<not> uint a < 0"
  by (auto simp: word_less_def word_uint_eq_iff order_less_le)

text \<open>
  C28: on two stored strings \<open>strcmp\<close> returns, with 0 exactly for equal strings and a negative
  value exactly when the first is smaller in the lexicographic order of unsigned bytes.
\<close>

theorem strcmp_order:
  assumes "cstr m p s" "cstr m q t"
  shows "\<exists>r. strcmp m p q = Some r \<and> (r = 0 \<longleftrightarrow> s = t) \<and> (r < 0 \<longleftrightarrow> str_less s t)"
  using assms
proof (induction s t arbitrary: p q rule: list_induct2')
  case 1
  then show ?case by (simp add: strcmp.simps)
next
  case (2 c s)
  then show ?case by (auto simp: strcmp.simps [of m p])
next
  case (3 d t)
  then show ?case by (auto simp: strcmp.simps [of m p])
next
  case (4 c s d t)
  then show ?case by (cases "c = d") (simp_all add: strcmp.simps [of m p])
qed

definition two_strings :: mem where
  "two_strings = (\<lambda>_. 0)(1 := 97, 2 := 98, 11 := 97, 12 := 99)"

theorem strcmp_order_witness:
  "\<exists>r. strcmp two_strings 1 11 = Some r \<and> r \<noteq> 0 \<and> r < 0"
  using strcmp_order [of two_strings 1 "[97, 98]" 11 "[97, 99]"] by (simp add: two_strings_def)

lemma strncmp_order:
  assumes "cstr m p s" "cstr m q t"
  shows "(strncmp m p q n = 0 \<longleftrightarrow> take n s = take n t) \<and>
    (strncmp m p q n < 0 \<longleftrightarrow> str_less (take n s) (take n t))"
  using assms
proof (induction n arbitrary: p q s t)
  case 0
  then show ?case by (simp add: strncmp.simps)
next
  case (Suc n)
  show ?case
  proof (cases s; cases t)
    fix c s' d t'
    assume "s = c # s'" "t = d # t'"
    with Suc show ?thesis by (cases "c = d") (simp_all add: strncmp.simps [of m p])
  qed (use Suc.prems in \<open>auto simp: strncmp.simps [of m p]\<close>)
qed

section \<open>Copying strings\<close>

lemma strdup_loop_cstr:
  assumes "cstr m (src + len) s" "\<forall>i\<le>length s. src + len + i < dst + len \<or> dst + len + length s < src + len + i"
  shows "\<exists>m'. strdup_loop m dst src len = Some (len + length s + 1, m') \<and>
    (\<forall>a. m' a = (if dst + len \<le> a \<and> a \<le> dst + len + length s then m (src + (a - dst)) else m a))"
  using assms
proof (induction s arbitrary: m len)
  case Nil
  then show ?case by (auto simp: strdup_loop.simps [of m] Let_def)
next
  case (Cons c s)
  let ?m = "m(dst + len := c)"
  have c: "m (src + len) = c" "c \<noteq> 0" "cstr m (src + (len + 1)) s" using Cons.prems by simp_all
  have far: "src + len + i \<noteq> dst + len" if "i \<le> Suc (length s)" for i
    using Cons.prems(2) that by (metis add.right_neutral le_add1 length_Cons less_irrefl not_less)
  have "cstr ?m (src + (len + 1)) s"
    by (rule cstr_cong [OF c(3)]) (use far in \<open>fastforce simp: add.assoc\<close>)
  moreover have "\<forall>i\<le>length s. src + (len + 1) + i < dst + (len + 1) \<or> dst + (len + 1) + length s < src + (len + 1) + i"
    using Cons.prems(2) by (auto dest: spec [of _ "Suc _"])
  ultimately obtain m' where m': "strdup_loop ?m dst src (len + 1) = Some (len + 1 + length s + 1, m')"
    "\<And>a. m' a = (if dst + (len + 1) \<le> a \<and> a \<le> dst + (len + 1) + length s then ?m (src + (a - dst)) else ?m a)"
    using Cons.IH [of ?m "len + 1"] by blast
  have "strdup_loop m dst src len = Some (len + length (c # s) + 1, m')"
    using m'(1) c by (subst strdup_loop.simps) (simp add: Let_def)
  moreover have "m' a = (if dst + len \<le> a \<and> a \<le> dst + len + length (c # s) then m (src + (a - dst)) else m a)" for a
  proof (cases "a = dst + len")
    case False
    have "src + (a - dst) \<noteq> dst + len" if "dst + len + 1 \<le> a" "a \<le> dst + len + Suc (length s)"
      using far [of "a - dst - len"] that by auto
    with False show ?thesis by (auto simp: m'(2))
  qed (simp add: m'(2) c)
  ultimately show ?case by blast
qed


lemma strdup_cstr:
  assumes "cstr m src s" "src + length s < dst \<or> dst + length s < src"
  shows "\<exists>m'. strdup m dst src = Some (length s + 1, m') \<and> cstr m' dst s \<and>
    (\<forall>a. a < dst \<or> dst + length s < a \<longrightarrow> m' a = m a)"
proof -
  obtain m' where m': "strdup m dst src = Some (length s + 1, m')"
    "\<And>a. m' a = (if dst \<le> a \<and> a \<le> dst + length s then m (src + (a - dst)) else m a)"
    using strdup_loop_cstr [of m src 0 s dst] assms by (auto simp: strdup_def)
  then have "cstr m' dst s" using assms(1) by (intro cstrI) (auto simp: cstr_nth cstr_end)
  with m' show ?thesis by auto
qed

text \<open>The copy loop of \<open>strncpy\<close>, with source and destination apart.\<close>

lemma strncpy_loop_nth:
  assumes "cstr m (src + copied) s" "copied \<le> len"
    and "src + copied + length s < dst \<or> dst + len \<le> src"
  shows "strncpy_loop m dst src len copied =
    (let n = min (length s) (len - copied)
     in (copied + n, if n < len - copied then copied + n + 1 else copied + n,
         \<lambda>a. if dst + copied \<le> a \<and> a < dst + copied + n + (if n < len - copied then 1 else 0)
             then m (src + (a - dst)) else m a))"
  using assms
proof (induction s arbitrary: m copied)
  case Nil
  then show ?case
    by (subst strncpy_loop.simps) (auto simp: Let_def fun_eq_iff)
next
  case (Cons c s)
  show ?case
  proof (cases "copied < len")
    case False
    then show ?thesis using Cons.prems by (subst strncpy_loop.simps) (auto simp: Let_def fun_eq_iff)
  next
    case True
    let ?m = "m(dst + copied := c)"
    have c: "m (src + copied) = c" "c \<noteq> 0" "cstr m (src + (copied + 1)) s" using Cons.prems by simp_all
    have far: "src + i \<noteq> dst + copied" if "copied \<le> i" "i \<le> copied + Suc (length s)" for i
      using Cons.prems(3) that True by auto
    have "cstr ?m (src + (copied + 1)) s"
    proof (rule cstr_cong [OF c(3)])
      fix i
      assume "i \<le> length s"
      then show "?m (src + (copied + 1) + i) = m (src + (copied + 1) + i)"
        using far [of "copied + 1 + i"] by (simp add: add.assoc)
    qed
    then have IH: "strncpy_loop ?m dst src len (copied + 1) =
      (let n = min (length s) (len - (copied + 1))
       in (copied + 1 + n, if n < len - (copied + 1) then copied + 1 + n + 1 else copied + 1 + n,
         \<lambda>a. if dst + (copied + 1) \<le> a \<and> a < dst + (copied + 1) + n + (if n < len - (copied + 1) then 1 else 0)
             then ?m (src + (a - dst)) else ?m a))"
      by (rule Cons.IH) (use True Cons.prems(3) in simp_all)
    have mem: "src + (a - dst) \<noteq> dst + copied \<and> src + a - dst \<noteq> dst + copied"
      if "Suc (dst + copied) \<le> a" "a \<le> Suc (dst + copied + length s)" for a
      using far [of "a - dst"] that by auto
    have "len - copied = Suc (len - Suc copied)" using True by simp
    then show ?thesis using IH True c mem
      by (subst strncpy_loop.simps) (auto simp: Let_def fun_eq_iff min_def split: if_splits)
  qed
qed


lemma strncpy_nth:
  assumes "cstr m src s" "src + length s < dst \<or> dst + len \<le> src"
  shows "strncpy m dst src len =
    (min (length s) len,
     \<lambda>a. if length s < len \<and> a = dst + length s + 1 then 0
         else if dst \<le> a \<and> a < dst + len \<and> a \<le> dst + length s then m (src + (a - dst)) else m a)"
  using strncpy_loop_nth [of m src 0 s len dst] assms
  by (auto simp: strncpy_def Let_def fun_eq_iff min_def split: if_splits)

text \<open>
  \<open>strncpy\<close> on a string and a buffer that do not overlap.  It returns the number of bytes of
  the string that fit; a string shorter than the buffer arrives complete and terminated; and the bytes
  before the buffer and those more than one byte after it keep their values.
\<close>

theorem strncpy_copies:
  assumes "cstr m src s" "src + length s < dst \<or> dst + len \<le> src"
  shows "fst (strncpy m dst src len) = min (length s) len \<and>
    (length s < len \<longrightarrow> cstr (snd (strncpy m dst src len)) dst s) \<and>
    (\<forall>i<min (length s) len. snd (strncpy m dst src len) (dst + i) = s ! i) \<and>
    (\<forall>a. a < dst \<or> dst + len < a \<longrightarrow> snd (strncpy m dst src len) a = m a)"
proof -
  have "cstr (snd (strncpy m dst src len)) dst s" if "length s < len"
    using assms that by (intro cstrI) (auto simp: strncpy_nth [OF assms] cstr_nth cstr_end)
  then show ?thesis using assms by (auto simp: strncpy_nth [OF assms] cstr_nth)
qed

theorem strncpy_copies_witness:
  "fst (strncpy two_strings 100 1 8) = 2 \<and> cstr (snd (strncpy two_strings 100 1 8)) 100 [97, 98] \<and>
   snd (strncpy two_strings 100 1 8) 11 = 97"
  using strncpy_copies [of two_strings 1 "[97, 98]" 100 8] by (simp add: two_strings_def)

text \<open>
  a string of exactly \<open>len - 1\<close> bytes makes \<open>strncpy\<close> write a zero byte to \<open>dst[len]\<close>, one past
  the end of the buffer, whatever was stored there.
\<close>

theorem strncpy_overflows:
  assumes "cstr m src s" "src + length s < dst \<or> dst + len \<le> src" "length s + 1 = len"
  shows "snd (strncpy m dst src len) (dst + len) = 0"
  using assms(3) by (auto simp: strncpy_nth [OF assms(1,2)])

theorem strncpy_overflows_witness:
  "two_strings (9 + 3) = 99 \<and> snd (strncpy two_strings 9 1 3) (9 + 3) = 0"
  using strncpy_overflows [of two_strings 1 "[97, 98]" 9 3] by (simp add: two_strings_def)

end
