(* ===== verification/Kmalloc.thy ===== *)
theory Kmalloc
  imports SlabCache LibString
begin

text \<open>
  mm/kmalloc.c: the general purpose allocator.  Requests of up to 8192 bytes are served by ten size class
  caches, larger ones by whole page blocks that are marked in the descriptor of their first page.  The state is
  the allocator state and the contents of memory, which \<open>kmalloc\<close> clears.

  The lemmas show that an allocation is fresh, large enough, zeroed and disjoint from everything in use, that every
  object in use can be freed, and that any run of allocations and frees keeps this.
\<close>

section \<open>Definitions\<close>

definition MAX_KMALLOC_SLAB :: int where "MAX_KMALLOC_SLAB = 8192"
definition MAX_KMALLOC_PAGE :: int where "MAX_KMALLOC_PAGE = int PGSIZE * 2 ^ MAX_LEVEL_INDEX"

definition PGROUNDUP :: "int \<Rightarrow> int" where
  "PGROUNDUP sz = (sz + int PGSIZE - 1) AND NOT (int PGSIZE - 1)"

text \<open>The static caches are named by their object size, from \<open>kmalloc16\<close> to \<open>kmalloc8192\<close>.\<close>

definition kmalloc_caches :: "addr list" where
  "kmalloc_caches = [16, 16, 16, 16, 16, 32, 64, 128, 256, 512, 1024, 2048, 4096, 8192]"

definition kmalloc_init :: "kmem \<Rightarrow> kmem kres" where
  "kmalloc_init st = create_caches
    [(16, 16), (32, 32), (64, 64), (128, 128), (256, 256), (512, 512), (1024, 1024), (2048, 2048),
     (4096, 4096), (8192, 8192)] st"

definition kmalloc :: "nat \<Rightarrow> int \<Rightarrow> kmem \<times> mem \<Rightarrow> (addr \<times> kmem \<times> mem) kres" where
  "kmalloc cpu sz s = (case s of (st, m) \<Rightarrow>
    if sz < 1 \<or> sz > MAX_KMALLOC_PAGE then Inl (Panic ''kmalloc: size illegal'') else
    kbind (if sz \<le> MAX_KMALLOC_SLAB then
             kmem_cache_alloc cpu (kmalloc_caches ! unat (math_order2 (word_of_int sz))) st
           else if sz \<le> MAX_KMALLOC_PAGE then
             let order = math_order2 (word_of_int (PGROUNDUP sz div int PGSIZE)) in
             kbind (alloc_pages_pa (int (unat order)) (km_mm st)) (\<lambda>(addr, m1).
             Inr (addr, st\<lparr>km_mm := upd_page (PA2I addr) set_page_kmalloc_page m1\<rparr>))
           else Inl (Panic ''kmalloc''))
      (\<lambda>(addr, st1).
         if addr = 0 then Inl (Panic ''kmalloc: Allocation failed'')
         else Inr (addr, st1, memset m addr 0 (nat sz))))"

definition kfree :: "addr \<Rightarrow> kmem \<Rightarrow> kmem kres" where
  "kfree obj st =
    (if obj = 0 then Inl (Panic ''kfree'')
     else if \<not> test_page_kmalloc_page (mm_pages (km_mm st) (PA2I obj)) then kmem_cache_free obj st
     else kbind (free_pages_pa obj (upd_page (PA2I obj) clear_page_kmalloc_page (km_mm st))) (\<lambda>m.
       Inr (st\<lparr>km_mm := m\<rparr>)))"

section \<open>Size classes\<close>

lemma PGROUNDUP_div: "PGROUNDUP sz div int PGSIZE = (sz + 4095) div 4096"
proof -
  have "(x::int) AND NOT (mask 12) = push_bit 12 (drop_bit 12 x)" for x
    by (rule bit_eqI) (auto simp: bit_simps)
  then have "(x::int) AND NOT 4095 = x div 4096 * 4096" for x
    by (simp add: mask_eq_exp_minus_1 push_bit_eq_mult drop_bit_eq_div)
  then show ?thesis by (simp add: PGROUNDUP_def PGSIZE_def)
qed

lemma order2_int:
  assumes "1 \<le> n" "n \<le> 2 ^ 31"
  defines "k \<equiv> unat (math_order2 (word_of_int n))"
  shows "nat n \<le> 2 ^ k" "2 ^ k < 2 * nat n"
proof -
  have u: "unat (word_of_int n :: u32) = nat n" using assms(1,2) by (simp add: unat_eq_nat_uint uint_word_of_int)
  then have "(word_of_int n :: u32) \<noteq> 0" using assms(1) by auto
  from math_order2_spec [OF this] show "nat n \<le> 2 ^ k" "2 ^ k < 2 * nat n" using u assms(2) by (auto simp: k_def)
qed

lemma size_class:
  assumes "1 \<le> sz" "sz \<le> 8192"
  defines "c \<equiv> kmalloc_caches ! unat (math_order2 (word_of_int sz))"
  shows "c \<in> set kmalloc_caches" "nat sz \<le> c" "c < 2 * nat sz \<or> c = 16"
proof -
  define k where "k = unat (math_order2 (word_of_int sz))"
  have k: "nat sz \<le> 2 ^ k" "2 ^ k < 2 * nat sz" using order2_int [of sz] assms(1,2) by (auto simp: k_def)
  have "(2::nat) ^ k < 2 ^ 14" using k(2) assms(2) by simp
  then have "k < 14" using power_less_imp_less_exp [of "2::nat" k 14] by simp
  then have "k \<in> set [0..<14]" by simp
  then have "c \<in> set kmalloc_caches \<and> c = max 16 (2 ^ k)"
    unfolding c_def k_def [symmetric] by (auto simp: kmalloc_caches_def upt_rec)
  then have c: "c \<in> set kmalloc_caches" "2 ^ k \<le> c" "c = 2 ^ k \<or> c = 16" by (auto simp: max_def)
  then show "c \<in> set kmalloc_caches" "c < 2 * nat sz \<or> c = 16" using k(2) by auto
  show "nat sz \<le> c" using k(1) c(2) by (rule order_trans)
qed

lemma page_class:
  assumes "1 \<le> sz" "sz \<le> MAX_KMALLOC_PAGE"
  defines "k \<equiv> unat (math_order2 (word_of_int (PGROUNDUP sz div int PGSIZE)))"
  shows "k \<le> 10" "nat sz \<le> PGSIZE * 2 ^ k" "PGSIZE * 2 ^ k < 2 * (nat sz + PGSIZE)"
proof -
  let ?n = "(sz + 4095) div 4096"
  have s: "sz \<le> 4194304" using assms(2) by (simp add: MAX_KMALLOC_PAGE_def PGSIZE_def MAX_LEVEL_INDEX_def)
  then have n: "1 \<le> ?n" "?n \<le> 1024" using assms(1) by auto
  then have k: "nat ?n \<le> 2 ^ k" "2 ^ k < 2 * nat ?n" using order2_int [of ?n] by (auto simp: k_def PGROUNDUP_div)
  then have "(2::nat) ^ k < 2 ^ 11" using n(2) by simp
  then show "k \<le> 10" using power_less_imp_less_exp [of "2::nat" k 11] by simp
  have "sz \<le> 4096 * ?n" "4096 * ?n \<le> sz + 4095" by auto
  then have b: "nat sz \<le> 4096 * nat ?n" "4096 * nat ?n \<le> nat sz + 4095" using n(1) assms(1) by linarith+
  have ar: "x \<le> 4096 * p \<and> 4096 * p < 2 * (x + 4096)" if "y \<le> p" "p < 2 * y" "x \<le> 4096 * y" "4096 * y \<le> x + 4095"
    for x y p :: nat using that by auto
  show "nat sz \<le> PGSIZE * 2 ^ k" "PGSIZE * 2 ^ k < 2 * (nat sz + PGSIZE)"
    using ar [OF k b] by (simp_all only: PGSIZE_def)
qed

section \<open>Allocation\<close>

definition kmalloc_ready :: "kmem \<Rightarrow> bool" where
  "kmalloc_ready st = (\<forall>c\<in>set kmalloc_caches. c \<in> set (km_list st) \<and> kc_size (km_cache st c) = c \<and>
    kc_order (km_cache st c) \<le> 3)"

definition heap_inv :: "nat \<Rightarrow> kmem \<Rightarrow> bool" where
  "heap_inv lo st = (slab_inv lo st \<and> kmalloc_ready st)"

lemma slab_inv_mm:
  assumes "slab_inv lo st" "sinv lo (st\<lparr>km_mm := m\<rparr>) (all_slabs st)"
  shows "slab_inv lo (st\<lparr>km_mm := m\<rparr>)"
  using assms by (simp add: slab_inv_def all_slabs_def lists_ok_def is_slab_full_def)

lemma live_mm: "live (st\<lparr>km_mm := m\<rparr>) = live_of (st\<lparr>km_mm := m\<rparr>) (all_slabs st)"
  by (simp add: live_def all_slabs_def)

text \<open>Setting the mark on a fresh block makes it live; clearing it on a live block makes it dead.\<close>

lemma kpage_upd:
  "kpage (upd_page p set_page_kmalloc_page m) = (kpage m)(p := True)"
  "kpage (upd_page p clear_page_kmalloc_page m) = (kpage m)(p := False)"
  by (auto simp: kpage_def upd_page_def fun_eq_iff)

lemma live_in_mm: "live_in (st\<lparr>km_mm := m\<rparr>) = live_in st"
  by (simp add: live_in_def fun_eq_iff)

lemma live_kpages:
  "live_of st P = (\<Union>(c, a)\<in>P. live_in st c a) \<union> (\<lambda>x. (I2PA x, PGSIZE * 2 ^ ord_of (km_mm st) x)) ` {x. kpage (km_mm st) x}"
  by (auto simp: live_of_def)

lemma Collect_upd: "{x. (P(p := True)) x} = insert p {x. P x}" "{x. (P(p := False)) x} = {x. P x} - {p}"
  by auto

lemma kmark_same:
  "ord_of (upd_page p set_page_kmalloc_page m) = ord_of m" "ref_of (upd_page p set_page_kmalloc_page m) = ref_of m"
  "ord_of (upd_page p clear_page_kmalloc_page m) = ord_of m" "ref_of (upd_page p clear_page_kmalloc_page m) = ref_of m"
  by (rule upd_page_mark; simp add: set_page_kmalloc_page_def clear_page_kmalloc_page_def)+

lemma kmark_buddy:
  "buddy_inv lo (upd_page p set_page_kmalloc_page m) = buddy_inv lo m"
  "buddy_inv lo (upd_page p clear_page_kmalloc_page m) = buddy_inv lo m"
  "owns lo (upd_page p set_page_kmalloc_page m) = owns lo m" "owns lo (upd_page p clear_page_kmalloc_page m) = owns lo m"
  "pg_slab (mm_pages (upd_page p set_page_kmalloc_page m) x) = pg_slab (mm_pages m x)"
  "pg_slab (mm_pages (upd_page p clear_page_kmalloc_page m) x) = pg_slab (mm_pages m x)"
  by (simp_all add: allocated_def buddy_inv_def kmark_same mm_simps owns_def fun_eq_iff)
    (simp_all add: upd_page_def set_page_kmalloc_page_def clear_page_kmalloc_page_def)

lemma kpages_alloc:
  assumes "slab_inv lo st" "k \<le> 10" "alloc_pages_pa (int k) (km_mm st) = Inr (a, m)"
  defines "t \<equiv> st\<lparr>km_mm := upd_page (PA2I a) set_page_kmalloc_page m\<rparr>"
  shows "slab_inv lo t" "live t = insert (a, PGSIZE * 2 ^ k) (live st)" "(a, PGSIZE * 2 ^ k) \<notin> live st" "a \<noteq> 0"
proof -
  let ?P = "all_slabs st"
  have s: "sinv lo st ?P" using assms(1) by (simp add: slab_inv_def)
  note l = alloc_pages_pa_law [OF sinv_buddy [OF s] assms(2,3)]
  have ns: "\<not> kpage (km_mm st) (PA2I a)" using l(7) [OF sinv_kpage(1) [OF s]] l(2) by (auto simp: owns_def)
  have keep: "owns lo m b j \<and> (\<forall>x\<in>blk (PA2I b) j. pg_slab (mm_pages m x) = pg_slab (mm_pages (km_mm st) x))"
    if "owns lo (km_mm st) b j" for b j
    using l(7) [OF that] kpage_marks [OF l(4)] by simp
  have kp: "kpage m = kpage (km_mm st)" using kpage_marks [OF l(4)] by simp
  note u = sinv_mm [OF s l(1) kp keep]
  let ?u = "st\<lparr>km_mm := m\<rparr>"
  have t: "t = ?u\<lparr>km_mm := upd_page (PA2I a) set_page_kmalloc_page (km_mm ?u)\<rparr>" by (simp add: t_def)
  have nc: "a \<notin> claims st b" if "(c, b) \<in> ?P" for c b
    using l(7) [OF sinvD(4) [OF s that]] l(7) [OF sinvD(5) [OF s that]] by (auto simp: claims_def)
  have a: "I2PA (PA2I a) = a" "ord_of m (PA2I a) = k" using l(2) owns_ord by (auto simp: owns_def)
  have "sinv lo t ?P"
    using u(1) l(2) nc a unfolding t sinv_def
    by (simp add: kmark_buddy kpage_upd kmark_same slab_ok_def claims_def)
  then show "slab_inv lo t" unfolding t_def by (rule slab_inv_mm [OF assms(1)])
  have "live t = insert (a, PGSIZE * 2 ^ k) (live_of ?u ?P)"
    unfolding t_def live_mm live_kpages using a
    by (simp add: live_in_mm kpage_upd kmark_same Collect_upd del: fun_upd_apply)
  then show "live t = insert (a, PGSIZE * 2 ^ k) (live st)" using u(2) by (simp add: live_def)
  show "a \<noteq> 0" using l(3) .
  show "(a, PGSIZE * 2 ^ k) \<notin> live st"
  proof
    assume "(a, PGSIZE * 2 ^ k) \<in> live st"
    then have "(a, PGSIZE * 2 ^ k) \<in> live_of st ?P" by (simp add: live_def)
    then show False
    proof (cases rule: live_cases)
      case (1 c b)
      note h = live_in_home [OF s 1]
      have "span (a, PGSIZE * 2 ^ k) \<inter> span (sl_objs (km_slab st b), PGSIZE * 2 ^ kc_order (km_cache st c)) = {}"
        using l(7) [OF sinvD(5) [OF s 1(1)]] by (intro owns_disjoint [OF l(1,2)]) auto
      moreover have "a \<in> span (a, PGSIZE * 2 ^ k)" by (simp add: span_def PGSIZE_def)
      ultimately show False using h(3) by blast
    next
      case (2 x)
      then show False using ns by simp
    qed
  qed
qed

lemma slab_obj_not_kpage:
  assumes "slab_inv lo st" "(c, b) \<in> all_slabs st" "(x, n) \<in> live_in st c b"
  shows "\<not> kpage (km_mm st) (PA2I x)"
proof
  assume k: "kpage (km_mm st) (PA2I x)"
  have s: "sinv lo st (all_slabs st)" using assms(1) by (simp add: slab_inv_def)
  let ?o = "sl_objs (km_slab st b)" and ?k = "kc_order (km_cache st c)"
  note own = sinvD(5) [OF s assms(2)]
  have "x \<in> span (?o, PGSIZE * 2 ^ ?k)"
    using obj_in_block [OF sinvD(2) [OF s assms(2)], of x "km_slab st b"] live_in_home(2) [OF s assms(2,3)] by auto
  then have "PA2I x \<in> blk (PA2I ?o) ?k" using PA2I_block own by (metis owns_def)
  moreover have "PA2I x \<notin> blk (PA2I ?o) ?k"
  proof (rule owns_blk_disjoint [OF sinv_buddy [OF s] sinv_kpage(1) [OF s k] own])
    show "I2PA (PA2I x) \<noteq> ?o" using sinv_kpage(2) [OF s k assms(2)] by (auto simp: claims_def)
  qed simp
  ultimately show False by blast
qed

lemma kpages_free:
  assumes "slab_inv lo st" "kpage (km_mm st) x"
  shows "\<exists>m. free_pages_pa (I2PA x) (upd_page x clear_page_kmalloc_page (km_mm st)) = Inr m \<and>
    slab_inv lo (st\<lparr>km_mm := m\<rparr>) \<and> live (st\<lparr>km_mm := m\<rparr>) = live st - {(I2PA x, PGSIZE * 2 ^ ord_of (km_mm st) x)}"
proof -
  let ?P = "all_slabs st" and ?m = "upd_page x clear_page_kmalloc_page (km_mm st)"
  let ?u = "st\<lparr>km_mm := ?m\<rparr>" and ?k = "ord_of (km_mm st) x"
  have s: "sinv lo st ?P" using assms(1) by (simp add: slab_inv_def)
  note kx = sinv_kpage [OF s assms(2)]
  have su: "sinv lo ?u ?P"
    using s unfolding sinv_def by (simp add: kmark_buddy kpage_upd kmark_same slab_ok_def claims_def)
  have "(I2PA x, PGSIZE * 2 ^ ?k) \<notin> live_in st c b" if "(c, b) \<in> ?P" for c b
    using slab_obj_not_kpage [OF assms(1) that] assms(2) by fastforce
  moreover have inj: "inj (\<lambda>x. (I2PA x, PGSIZE * 2 ^ ord_of (km_mm st) x))" by (auto simp: inj_def)
  ultimately have lu: "live_of ?u ?P = live st - {(I2PA x, PGSIZE * 2 ^ ?k)}"
    unfolding live_def live_kpages using inj
    by (simp add: live_in_mm kpage_upd kmark_same Collect_upd image_set_diff del: fun_upd_apply) blast
  have "owns lo ?m (I2PA x) ?k" using kx(1) by (simp add: kmark_buddy)
  from free_pages_pa_law [OF _ this] obtain m where m: "free_pages_pa (I2PA x) ?m = Inr m" "buddy_inv lo m"
    "marks m = marks ?m" "\<forall>b l. owns lo ?m b l \<longrightarrow> b \<noteq> I2PA x \<longrightarrow> owns lo m b l"
    using sinv_buddy [OF su] by auto
  have kp: "kpage m = kpage (km_mm ?u)" using kpage_marks [OF m(3)] by simp
  have keep: "owns lo m b j \<and> (\<forall>y\<in>blk (PA2I b) j. pg_slab (mm_pages m y) = pg_slab (mm_pages (km_mm ?u) y))"
    if "owns lo (km_mm ?u) b j" "(\<exists>c a. (c, a) \<in> ?P \<and> b \<in> claims ?u a) \<or> (\<exists>y. kpage (km_mm ?u) y \<and> b = I2PA y)" for b j
  proof -
    have "b \<noteq> I2PA x" using that(2) kx(2) by (auto simp: claims_def kpage_upd)
    then show ?thesis using m(4) that(1) kpage_marks [OF m(3)] by simp
  qed
  note r = sinv_mm [OF su m(2) kp keep]
  have "slab_inv lo (st\<lparr>km_mm := m\<rparr>)" using slab_inv_mm [OF assms(1), of m] r(1) by simp
  moreover have "live (st\<lparr>km_mm := m\<rparr>) = live_of ?u ?P" unfolding live_mm using r(2) [of ?P] by simp
  ultimately show ?thesis using m(1) lu by auto
qed

section \<open>The allocator contract\<close>

lemma kmalloc_ok:
  assumes "heap_inv lo st" "1 \<le> sz" "sz \<le> MAX_KMALLOC_PAGE" "cpu < NCPU"
  shows "kmalloc cpu sz (st, m) = Inl (Panic ''BUDDY!'') \<or>
    (\<exists>a n st1. kmalloc cpu sz (st, m) = Inr (a, st1, memset m a 0 (nat sz)) \<and> heap_inv lo st1 \<and> nat sz \<le> n \<and>
      n \<le> 2 * nat sz + 2 * PGSIZE \<and> (a, n) \<notin> live st \<and> live st1 = insert (a, n) (live st))"
proof (cases "sz \<le> MAX_KMALLOC_SLAB")
  case True
  define c where "c = kmalloc_caches ! unat (math_order2 (word_of_int sz))"
  have cl: "c \<in> set kmalloc_caches" "nat sz \<le> c" "c < 2 * nat sz \<or> c = 16"
    using size_class [OF assms(2)] True by (auto simp: c_def MAX_KMALLOC_SLAB_def)
  have s: "slab_inv lo st" "c \<in> set (km_list st)" "kc_size (km_cache st c) = c" "kmalloc_ready st"
    using assms(1) cl(1) by (auto simp: heap_inv_def kmalloc_ready_def)
  have eq: "kmalloc cpu sz (st, m) = kbind (kmem_cache_alloc cpu c st) (\<lambda>(addr, st1).
      if addr = 0 then Inl (Panic ''kmalloc: Allocation failed'') else Inr (addr, st1, memset m addr 0 (nat sz)))"
    using assms(2,3) True by (simp add: kmalloc_def c_def)
  from kmem_cache_alloc_inv [OF s(1,2) assms(4)] show ?thesis
  proof (elim disjE exE conjE)
    fix a st1 assume a: "kmem_cache_alloc cpu c st = Inr (a, st1)" "slab_inv lo st1" "(a, kc_size (km_cache st c)) \<notin> live st"
      "live st1 = insert (a, kc_size (km_cache st c)) (live st)" "km_list st1 = km_list st"
      "\<forall>d. kc_size (km_cache st1 d) = kc_size (km_cache st d) \<and> kc_order (km_cache st1 d) = kc_order (km_cache st d)"
    have "(a, c) \<in> live_of st1 (all_slabs st1)" using a(4) s(3) by (simp add: live_def)
    then have "a \<noteq> 0"
    proof (cases rule: live_cases)
      case (1 d b)
      have "sinv lo st1 (all_slabs st1)" using a(2) by (simp add: slab_inv_def)
      from objs_pos(1) [OF this 1(1)] show ?thesis using 1(2) by (auto simp: live_in_def)
    qed simp
    then show ?thesis using eq a s(3,4) cl(2,3)
      by (auto simp: heap_inv_def kmalloc_ready_def PGSIZE_def intro!: exI [of _ c])
  qed (simp add: eq)
next
  case False
  define k where "k = unat (math_order2 (word_of_int (PGROUNDUP sz div int PGSIZE)))"
  have pc: "k \<le> 10" "nat sz \<le> PGSIZE * 2 ^ k" "PGSIZE * 2 ^ k < 2 * (nat sz + PGSIZE)"
    using page_class [OF assms(2,3)] by (simp_all add: k_def)
  have s: "slab_inv lo st" "kmalloc_ready st" using assms(1) by (simp_all add: heap_inv_def)
  show ?thesis
  proof (cases "alloc_pages_pa (int k) (km_mm st)")
    case (Inl e)
    then have "e = Panic ''BUDDY!''"
      using alloc_panic [OF pc(1) sinv_buddy] s(1) by (auto simp: slab_inv_def)
    then show ?thesis using assms(2,3) False Inl by (simp add: kmalloc_def k_def)
  next
    case (Inr u)
    obtain a m1 where u: "u = (a, m1)" by (cases u)
    note al = kpages_alloc [OF s(1) pc(1) Inr [unfolded u]]
    let ?t = "st\<lparr>km_mm := upd_page (PA2I a) set_page_kmalloc_page m1\<rparr>"
    have "kmalloc cpu sz (st, m) = Inr (a, ?t, memset m a 0 (nat sz))"
      using assms(2,3) False Inr u al(4) by (simp add: kmalloc_def k_def Let_def)
    moreover have "heap_inv lo ?t" using al(1) s(2) by (simp add: heap_inv_def kmalloc_ready_def)
    ultimately show ?thesis using al(2,3) pc(2,3) by (intro disjI2 exI conjI) auto
  qed
qed

lemma kfree_ok:
  assumes "heap_inv lo st" "(a, n) \<in> live st"
  shows "\<exists>st1. kfree a st = Inr st1 \<and> heap_inv lo st1 \<and> live st1 = live st - {(a, n)}"
proof -
  have s: "slab_inv lo st" "kmalloc_ready st" using assms(1) by (simp_all add: heap_inv_def)
  then have sv: "sinv lo st (all_slabs st)" by (simp add: slab_inv_def)
  have "(a, n) \<in> live_of st (all_slabs st)" using assms(2) by (simp add: live_def)
  then show ?thesis
  proof (cases rule: live_cases)
    case (1 c b)
    have "a \<noteq> 0" using objs_pos(1) [OF sv 1(1)] 1(2) by (auto simp: live_in_def)
    moreover have "\<not> test_page_kmalloc_page (mm_pages (km_mm st) (PA2I a))"
      using slab_obj_not_kpage [OF s(1) 1] by (simp add: kpage_def)
    ultimately have "kfree a st = kmem_cache_free a st" by (simp add: kfree_def)
    then show ?thesis using kmem_cache_free_inv [OF s(1) 1] s(2) by (auto simp: heap_inv_def kmalloc_ready_def)
  next
    case (2 x)
    then have t: "test_page_kmalloc_page (mm_pages (km_mm st) (PA2I (I2PA x)))" by (simp add: kpage_def)
    have "heap_inv lo (st\<lparr>km_mm := m\<rparr>)" if "slab_inv lo (st\<lparr>km_mm := m\<rparr>)" for m
      using that s(2) by (simp add: heap_inv_def kmalloc_ready_def)
    then show ?thesis using kpages_free [OF s(1) 2(1)] 2(2) t by (auto simp: kfree_def)
  qed
qed

lemma heap_apart:
  assumes "heap_inv lo st" "u \<in> live st" "v \<in> live st" "u \<noteq> v"
  shows "span u \<inter> span v = {}"
  using live_of_disjoint [of lo st "all_slabs st" u v] assms by (simp add: heap_inv_def slab_inv_def live_def)

text \<open>
  C3: \<open>kmalloc\<close> on a consistent heap.  For every size from 1 byte to 4 MiB it either panics because the
  buddy allocator has no block left, or returns an object that was not in use, is at least as large as
  requested, overlaps no object in use and reads as zero over the requested size.  The other objects keep their
  contents and the heap stays consistent.
\<close>

theorem kmalloc_correct:
  assumes "heap_inv lo st" "1 \<le> sz" "sz \<le> MAX_KMALLOC_PAGE" "cpu < NCPU"
  shows "kmalloc cpu sz (st, m) = Inl (Panic ''BUDDY!'') \<or>
    (\<exists>a n st1 m1. kmalloc cpu sz (st, m) = Inr (a, st1, m1) \<and> heap_inv lo st1 \<and>
      nat sz \<le> n \<and> n \<le> 2 * nat sz + 2 * PGSIZE \<and> live st1 = insert (a, n) (live st) \<and>
      (\<forall>u\<in>live st. span u \<inter> span (a, n) = {} \<and> (\<forall>x\<in>span u. m1 x = m x)) \<and>
      (\<forall>i<nat sz. m1 (a + i) = 0))"
  using kmalloc_ok [OF assms, of m]
proof (elim disjE exE conjE)
  fix a n st1
  assume a: "kmalloc cpu sz (st, m) = Inr (a, st1, memset m a 0 (nat sz))" "heap_inv lo st1" "nat sz \<le> n"
    "n \<le> 2 * nat sz + 2 * PGSIZE" "(a, n) \<notin> live st" "live st1 = insert (a, n) (live st)"
  have ap: "span u \<inter> span (a, n) = {}" if "u \<in> live st" for u
    using heap_apart [OF a(2), of u "(a, n)"] a(5,6) that by auto
  have "memset m a 0 (nat sz) x = m x" if "u \<in> live st" "x \<in> span u" for u x
  proof -
    have "x \<notin> span (a, n)" using ap [OF that(1)] that(2) by blast
    then show ?thesis using a(3) by (auto simp: memset_nth span_def)
  qed
  moreover have "\<forall>i<nat sz. memset m a 0 (nat sz) (a + i) = 0" by (simp add: memset_nth)
  ultimately show ?thesis using a ap by blast
qed simp

text \<open>
  C4: \<open>kfree\<close> of any object in use succeeds, returns exactly that object, whether it came from a size class or from a
  page block, and keeps the heap consistent; a null pointer panics.
\<close>

theorem kfree_correct:
  assumes "heap_inv lo st" "(a, n) \<in> live st"
  shows "(\<exists>st1. kfree a st = Inr st1 \<and> heap_inv lo st1 \<and> live st1 = live st - {(a, n)}) \<and>
    kfree 0 st = Inl (Panic ''kfree'')"
  using kfree_ok [OF assms] by (simp add: kfree_def)

end
