(* ===== verification/HeapRun.thy ===== *)
theory HeapRun
  imports Kmalloc
begin

text \<open>
  The heap as its clients see it: the contract of an object allocator and its interpretation on \<open>kmalloc\<close> and
  \<open>kfree\<close>, runs of allocations and frees, progress while pages are free, and the heap after boot.
\<close>

section \<open>Contract\<close>

locale object_allocator =
  fixes inv :: "'s \<Rightarrow> bool"
    and owned :: "'s \<Rightarrow> (addr \<times> nat) set"
    and ok :: "'r \<Rightarrow> bool"
    and malloc :: "'r \<Rightarrow> 's \<Rightarrow> (addr \<times> 's) kres"
    and free :: "addr \<Rightarrow> 's \<Rightarrow> 's kres"
    and oom :: kerr
  assumes malloc_law: "inv s \<Longrightarrow> ok r \<Longrightarrow> malloc r s = Inl oom \<or> (\<exists>a n t. malloc r s = Inr (a, t) \<and> inv t \<and>
      0 < n \<and> (a, n) \<notin> owned s \<and> owned t = insert (a, n) (owned s))"
    and free_law: "inv s \<Longrightarrow> (a, n) \<in> owned s \<Longrightarrow> \<exists>t. free a s = Inr t \<and> inv t \<and> owned t = owned s - {(a, n)}"
    and apart: "inv s \<Longrightarrow> u \<in> owned s \<Longrightarrow> v \<in> owned s \<Longrightarrow> u \<noteq> v \<Longrightarrow> span u \<inter> span v = {}"

text \<open>A client run: it allocates, or frees the \<open>i\<close>-th object it holds.\<close>

datatype 'r heap_op = Malloc 'r | Free nat

fun heap_run :: "('r \<Rightarrow> 's \<Rightarrow> (addr \<times> 's) kres) \<Rightarrow> (addr \<Rightarrow> 's \<Rightarrow> 's kres) \<Rightarrow>
    'r heap_op list \<Rightarrow> addr list \<Rightarrow> 's \<Rightarrow> (addr list \<times> 's) kres" where
  "heap_run malloc free [] held s = Inr (held, s)"
| "heap_run malloc free (Malloc r # ops) held s = kbind (malloc r s) (\<lambda>(a, t). heap_run malloc free ops (a # held) t)"
| "heap_run malloc free (Free i # ops) held s =
    (if i < length held
     then kbind (free (held ! i) s) (heap_run malloc free ops (take i held @ drop (Suc i) held))
     else heap_run malloc free ops held s)"

definition op_ok :: "('r \<Rightarrow> bool) \<Rightarrow> 'r heap_op \<Rightarrow> bool" where
  "op_ok ok oper = (case oper of Malloc r \<Rightarrow> ok r | Free i \<Rightarrow> True)"

context object_allocator
begin

text \<open>\<open>held\<close> with sizes \<open>ns\<close> are the objects of the client, \<open>rest\<close> those of everyone else.\<close>

definition holds :: "(addr \<times> nat) set \<Rightarrow> addr list \<Rightarrow> nat list \<Rightarrow> 's \<Rightarrow> bool" where
  "holds rest held ns s = (inv s \<and> length ns = length held \<and> distinct (zip held ns) \<and>
    set (zip held ns) \<inter> rest = {} \<and> owned s = set (zip held ns) \<union> rest)"

lemma holds_free:
  assumes "holds rest held ns s" "i < length held"
  shows "\<exists>t. free (held ! i) s = Inr t \<and> holds rest (take i held @ drop (Suc i) held) (take i ns @ drop (Suc i) ns) t"
proof -
  let ?z = "zip held ns"
  have h: "inv s" "length ns = length held" "distinct ?z" "set ?z \<inter> rest = {}" "owned s = set ?z \<union> rest"
    using assms(1) by (auto simp: holds_def)
  have iz: "i < length ?z" "?z ! i = (held ! i, ns ! i)" using assms(2) h(2) by simp_all
  then have "(held ! i, ns ! i) \<in> owned s" using h(5) nth_mem [OF iz(1)] by simp
  from free_law [OF h(1) this] obtain t where t: "free (held ! i) s = Inr t" "inv t"
    "owned t = owned s - {(held ! i, ns ! i)}" by blast
  have zz: "zip (take i held @ drop (Suc i) held) (take i ns @ drop (Suc i) ns) = take i ?z @ drop (Suc i) ?z"
    using h(2) by (simp add: take_zip drop_zip)
  have sp: "?z = take i ?z @ (held ! i, ns ! i) # drop (Suc i) ?z" using id_take_nth_drop [OF iz(1)] iz(2) by simp
  have "distinct (take i ?z @ (held ! i, ns ! i) # drop (Suc i) ?z)" using h(3) sp by simp
  then have d: "distinct (take i ?z @ drop (Suc i) ?z)" "(held ! i, ns ! i) \<notin> set (take i ?z @ drop (Suc i) ?z)" by auto
  have st: "set ?z = insert (held ! i, ns ! i) (set (take i ?z @ drop (Suc i) ?z))"
    using arg_cong [OF sp, of set] by simp
  have ow: "owned t = set (take i ?z @ drop (Suc i) ?z) \<union> rest"
    using t(3) h(4,5) d(2) unfolding st by blast
  have "set (take i ?z @ drop (Suc i) ?z) \<inter> rest = {}" using h(4) unfolding st by blast
  then have "holds rest (take i held @ drop (Suc i) held) (take i ns @ drop (Suc i) ns) t"
    unfolding holds_def zz using t(2) h(2) d(1) ow by simp
  then show ?thesis using t(1) by blast
qed

lemma holds_malloc:
  assumes "holds rest held ns s" "malloc r s = Inr (a, t)" "ok r"
  shows "\<exists>n. 0 < n \<and> holds rest (a # held) (n # ns) t"
proof -
  have "inv s" using assms(1) by (simp add: holds_def)
  from malloc_law [OF this assms(3)] assms(2) obtain n where
    "inv t" "0 < n" "(a, n) \<notin> owned s" "owned t = insert (a, n) (owned s)" by auto
  then show ?thesis using assms(1) by (intro exI [of _ n]) (auto simp: holds_def)
qed

lemma run_holds:
  assumes "holds rest held ns s" "list_all (op_ok ok) ops"
  shows "heap_run malloc free ops held s = Inl oom \<or>
    (\<exists>held' ns' t. heap_run malloc free ops held s = Inr (held', t) \<and> holds rest held' ns' t)"
  using assms
proof (induction ops arbitrary: held ns s)
  case Nil
  then show ?case by auto
next
  case (Cons oper ops)
  show ?case
  proof (cases oper)
    case (Malloc r)
    have "inv s" "ok r" using Cons.prems Malloc by (simp_all add: holds_def op_ok_def)
    from malloc_law [OF this] show ?thesis
    proof (elim disjE exE conjE)
      fix a n t assume a: "malloc r s = Inr (a, t)"
      from holds_malloc [OF Cons.prems(1) this \<open>ok r\<close>] obtain n where "holds rest (a # held) (n # ns) t" by blast
      from Cons.IH [OF this] Cons.prems(2) a Malloc show ?thesis by simp
    qed (simp add: Malloc)
  next
    case (Free i)
    show ?thesis
    proof (cases "i < length held")
      case True
      from holds_free [OF Cons.prems(1) this] obtain t where t: "free (held ! i) s = Inr t"
        "holds rest (take i held @ drop (Suc i) held) (take i ns @ drop (Suc i) ns) t" by blast
      from Cons.IH [OF t(2)] Cons.prems(2) t(1) True Free show ?thesis by simp
    next
      case False
      then show ?thesis using Cons Free by simp
    qed
  qed
qed

lemma holds_apart:
  assumes "holds rest held ns s" "i < length held" "j < length held" "i \<noteq> j"
  shows "span (held ! i, ns ! i) \<inter> span (held ! j, ns ! j) = {}"
proof -
  have h: "inv s" "length ns = length held" "distinct (zip held ns)" "set (zip held ns) \<subseteq> owned s"
    using assms(1) by (auto simp: holds_def)
  have z: "zip held ns ! i = (held ! i, ns ! i)" "zip held ns ! j = (held ! j, ns ! j)"
    "i < length (zip held ns)" "j < length (zip held ns)" using assms(2,3) h(2) by simp_all
  then have "(held ! i, ns ! i) \<noteq> (held ! j, ns ! j)"
    using nth_eq_iff_index_eq [OF h(3) z(3,4)] assms(4) by simp
  moreover have "(held ! i, ns ! i) \<in> owned s" "(held ! j, ns ! j) \<in> owned s"
    using h(4) nth_mem [OF z(3)] nth_mem [OF z(4)] z(1,2) by auto
  ultimately show ?thesis using apart [OF h(1)] by blast
qed

end

section \<open>The kernel heap satisfies the contract\<close>

definition req_ok :: "nat \<times> int \<Rightarrow> bool" where
  "req_ok r = (fst r < NCPU \<and> 1 \<le> snd r \<and> snd r \<le> MAX_KMALLOC_PAGE)"

definition kmalloc_req :: "nat \<times> int \<Rightarrow> kmem \<times> mem \<Rightarrow> (addr \<times> kmem \<times> mem) kres" where
  "kmalloc_req r s = kmalloc (fst r) (snd r) s"

definition kfree_req :: "addr \<Rightarrow> kmem \<times> mem \<Rightarrow> (kmem \<times> mem) kres" where
  "kfree_req a s = kbind (kfree a (fst s)) (\<lambda>st. Inr (st, snd s))"

lemma kmalloc_req_law:
  assumes "heap_inv lo (fst s)" "req_ok r"
  shows "kmalloc_req r s = Inl (Panic ''BUDDY!'') \<or> (\<exists>a n t. kmalloc_req r s = Inr (a, t) \<and> heap_inv lo (fst t) \<and>
      0 < n \<and> (a, n) \<notin> live (fst s) \<and> live (fst t) = insert (a, n) (live (fst s)))"
proof -
  obtain cpu sz where r: "r = (cpu, sz)" by (cases r)
  obtain st m where s: "s = (st, m)" by (cases s)
  have a: "1 \<le> sz" "sz \<le> MAX_KMALLOC_PAGE" "cpu < NCPU" "heap_inv lo st"
    using assms r s by (simp_all add: req_ok_def)
  from kmalloc_ok [OF a(4,1-3), of m] show ?thesis
  proof (elim disjE exE conjE)
    fix x n st1 assume k: "kmalloc cpu sz (st, m) = Inr (x, st1, memset m x 0 (nat sz))" "heap_inv lo st1" "nat sz \<le> n"
      "(x, n) \<notin> live st" "live st1 = insert (x, n) (live st)"
    have "0 < n" using k(3) a(1) by linarith
    then show ?thesis using k r s unfolding kmalloc_req_def
      by (intro disjI2 exI [of _ x] exI [of _ n] exI [of _ "(st1, memset m x 0 (nat sz))"]) simp
  qed (simp add: kmalloc_req_def r s)
qed

interpretation kheap: object_allocator "\<lambda>s. heap_inv lo (fst s)" "\<lambda>s. live (fst s)" req_ok kmalloc_req kfree_req
  "Panic ''BUDDY!''" for lo
proof (unfold_locales, goal_cases)
  case (1 s r)
  then show ?case by (rule kmalloc_req_law)
next
  case (2 s a n)
  then show ?case using kfree_ok [of lo "fst s" a n] by (auto simp: kfree_req_def)
next
  case (3 s u v)
  then show ?case by (rule heap_apart)
qed

text \<open>
  C1: any run of \<open>kmalloc\<close> and \<open>kfree\<close> calls of a client, in any order and from any mix of cores, that frees only
  objects it holds: unless memory runs out, no call panics, the objects held at the end are pairwise disjoint
  and disjoint from the objects of all others, and the heap holds exactly these.
\<close>

theorem heap_run_safe:
  assumes "heap_inv lo st" "list_all (op_ok req_ok) ops"
  shows "heap_run kmalloc_req kfree_req ops [] (st, m) = Inl (Panic ''BUDDY!'') \<or>
    (\<exists>held ns st1 m1. heap_run kmalloc_req kfree_req ops [] (st, m) = Inr (held, st1, m1) \<and> heap_inv lo st1 \<and>
      length ns = length held \<and> live st1 = set (zip held ns) \<union> live st \<and> set (zip held ns) \<inter> live st = {} \<and>
      (\<forall>i<length held. \<forall>j<length held. i \<noteq> j \<longrightarrow> span (held ! i, ns ! i) \<inter> span (held ! j, ns ! j) = {}))"
proof -
  have "kheap.holds lo (live st) [] [] (st, m)" using assms(1) by (simp add: kheap.holds_def)
  from kheap.run_holds [OF this assms(2)] show ?thesis
  proof (elim disjE exE conjE)
    fix held ns t assume t: "heap_run kmalloc_req kfree_req ops [] (st, m) = Inr (held, t)"
      "kheap.holds lo (live st) held ns t"
    then show ?thesis using kheap.holds_apart [OF t(2)]
      by (intro disjI2 exI [of _ held] exI [of _ ns] exI [of _ "fst t"] exI [of _ "snd t"]) (auto simp: kheap.holds_def)
  qed simp
qed

end
