(* ===== verification/HeapBoot.thy ===== *)
theory HeapBoot
  imports HeapRun
begin

text \<open>
  Progress of the allocators and the heap after boot.  \<open>room d\<close> counts the blocks of order \<open>d\<close> that can still be cut
  from the free lists.  A page allocation of order at most \<open>d\<close> uses up at most one of them, so allocations succeed
  while there is room, and \<open>mm_init\<close> followed by \<open>kmalloc_init\<close> yields a consistent heap.
\<close>

section \<open>Room in the free lists\<close>

definition room :: "nat \<Rightarrow> mm \<Rightarrow> nat" where
  "room d m = (\<Sum>k\<in>{d..10}. 2 ^ (k - d) * length (mm_lists m k))"

lemma split_loop_lengths:
  assumes "split_loop p k j m = Inr t" "k \<le> j"
  shows "length (mm_lists t l) = length (mm_lists m l) + (if k \<le> l \<and> l < j then 1 else 0)"
  using assms
proof (induction p k j m rule: split_loop.induct)
  case (2 p k j m)
  show ?case
  proof (cases "k < Suc j")
    case True
    obtain b where b: "find_buddy p j = Some b" "page_is_free (mm_pages m b)"
      "split_loop p k j (push_free b j (set_order b j m)) = Inr t"
      using 2(2) True by (auto split: option.splits if_splits)
    have "k \<le> j" using True by simp
    from 2(1) [OF True b(1) _ b(3) this] b(2)
    have "length (mm_lists t l) = length (mm_lists (push_free b j (set_order b j m)) l) + (if k \<le> l \<and> l < j then 1 else 0)"
      by simp
    then show ?thesis using \<open>k \<le> j\<close> by (auto simp: mm_simps)
  next
    case False
    then show ?thesis using 2(2,3) by auto
  qed
qed simp

lemma alloc_loop_lengths:
  assumes "alloc_loop k i m = Inr (p, t)" "k \<le> i"
  shows "\<exists>j. i \<le> j \<and> j \<le> 10 \<and> mm_lists m j \<noteq> [] \<and>
    (\<forall>l. length (mm_lists t l) + (if l = j then 1 else 0) = length (mm_lists m l) + (if k \<le> l \<and> l < j then 1 else 0))"
  using assms
proof (induction k i m rule: alloc_loop.induct)
  case (1 k i m)
  have i: "i < MAX_LEVEL" using 1(2) by (cases "i < MAX_LEVEL") (simp_all add: alloc_loop.simps [of k i m])
  show ?case
  proof (cases "mm_lists m i")
    case Nil
    then have "alloc_loop k (i + 1) m = Inr (p, t)" using 1(2) i by (simp add: alloc_loop.simps [of k i m])
    from 1(1) [OF i Nil this] 1(3) obtain j where j: "i + 1 \<le> j" "j \<le> 10" "mm_lists m j \<noteq> []"
      "\<forall>l. length (mm_lists t l) + (if l = j then 1 else 0) = length (mm_lists m l) + (if k \<le> l \<and> l < j then 1 else 0)"
      by auto
    then show ?thesis by (intro exI [of _ j]) simp
  next
    case (Cons q qs)
    let ?m = "m\<lparr>mm_lists := (mm_lists m)(i := qs)\<rparr>"
    obtain u where u: "split_loop q k i ?m = Inr u" "t = u\<lparr>mm_free := mm_free u - 2 ^ k\<rparr>"
      using 1(2) Cons i by (auto simp: alloc_loop.simps [of k i m] kbind_eq_Inr split: if_splits)
    have "length (mm_lists t l) + (if l = i then 1 else 0) = length (mm_lists m l) + (if k \<le> l \<and> l < i then 1 else 0)" for l
      using split_loop_lengths [OF u(1) 1(3), of l] u(2) Cons by simp
    then show ?thesis using Cons i by (intro exI [of _ i]) (simp add: MAX_LEVEL_def)
  qed
qed

lemma pow_tail_sum: "d \<le> i \<Longrightarrow> (\<Sum>l\<in>{d..<i}. (2::nat) ^ (l - d)) + 1 = 2 ^ (i - d)"
proof (induction i)
  case (Suc i)
  show ?case
  proof (cases "d = Suc i")
    case False
    then have "d \<le> i" using Suc.prems by simp
    then have "{d..<Suc i} = insert i {d..<i}" by auto
    then show ?thesis using Suc.IH [OF \<open>d \<le> i\<close>] \<open>d \<le> i\<close> by (simp add: Suc_diff_le)
  qed simp
qed simp

lemma room_step:
  assumes "j \<le> 10" "k \<le> d"
    and "\<forall>l. length (mm_lists t l) + (if l = j then 1 else 0) = length (mm_lists m l) + (if k \<le> l \<and> l < j then 1 else 0)"
  shows "room d m \<le> room d t + 1"
proof -
  let ?S = "{d..10}" and ?w = "\<lambda>l. (2::nat) ^ (l - d)"
  have w: "(if P then ?w l else 0) = ?w l * (if P then 1 else 0)" for P l by simp
  have "?w l * length (mm_lists t l) + (if l = j then ?w l else 0) =
      ?w l * length (mm_lists m l) + (if k \<le> l \<and> l < j then ?w l else 0)" for l
    unfolding w distrib_left [symmetric] spec [OF assms(3), of l] ..
  then have e: "room d t + (\<Sum>l\<in>?S. if l = j then ?w l else 0) = room d m + (\<Sum>l\<in>?S. if k \<le> l \<and> l < j then ?w l else 0)"
    unfolding room_def sum.distrib [symmetric] by (intro sum.cong) simp_all
  show ?thesis
  proof (cases "d \<le> j")
    case True
    have "(\<Sum>l\<in>?S. if l = j then ?w l else 0) = ?w j" using True assms(1) by (simp add: sum.delta)
    moreover have "(\<Sum>l\<in>?S. if k \<le> l \<and> l < j then ?w l else 0) = (\<Sum>l\<in>{d..<j}. ?w l)"
      using assms(1,2) True by (intro sum.mono_neutral_cong_right) auto
    ultimately show ?thesis using e pow_tail_sum [OF True] by simp
  next
    case False
    then have "(\<Sum>l\<in>?S. if l = j then ?w l else 0) = 0" by simp
    then show ?thesis using e by simp
  qed
qed

lemma alloc_pages_pa_room:
  assumes "buddy_inv lo m" "k \<le> d" "d \<le> 10" "0 < room d m"
  shows "\<exists>a t. alloc_pages_pa (int k) m = Inr (a, t) \<and> room d m \<le> room d t + 1"
proof -
  have "\<exists>j\<in>{d..10}. mm_lists m j \<noteq> []"
  proof (rule ccontr)
    assume "\<not> ?thesis"
    then show False using assms(4) by (simp add: room_def)
  qed
  then obtain j where j: "d \<le> j" "j \<le> 10" "mm_lists m j \<noteq> []" by auto
  have k: "k \<le> 10" using assms(2,3) by simp
  have "\<exists>j. k \<le> j \<and> j \<le> 10 \<and> mm_lists m j \<noteq> []" using j assms(2) by (intro exI [of _ j]) simp
  from alloc_pages_success [OF assms(1) k this] obtain p t where p: "alloc_pages (int k) m = Inr (p, t)" by blast
  then obtain u where u: "alloc_loop k k m = Inr (p, u)" "t = upd_page p get_page (set_order p k u)"
    using k by (auto simp: alloc_pages_def buddy_alloc_def MAX_LEVEL_INDEX_def kbind_eq_Inr)
  from alloc_loop_lengths [OF u(1)] obtain i where i: "i \<le> 10"
    "\<forall>l. length (mm_lists u l) + (if l = i then 1 else 0) = length (mm_lists m l) + (if k \<le> l \<and> l < i then 1 else 0)" by auto
  have "room d m \<le> room d u + 1" by (rule room_step [OF i(1) assms(2) i(2)])
  moreover have "room d t = room d u" using u(2) by (simp add: room_def mm_simps)
  ultimately show ?thesis using p by (auto simp: alloc_pages_pa_def)
qed

section \<open>Progress\<close>

lemma slab_create_room:
  assumes "sinv lo st P" "kc_order (km_cache st c) \<le> 3" "2 \<le> room 3 (km_mm st)"
  shows "\<exists>a st1. slab_create c st = Inr (a, st1) \<and> room 3 (km_mm st) \<le> room 3 (km_mm st1) + 2"
proof -
  let ?k = "kc_order (km_cache st c)"
  note b = sinv_buddy [OF assms(1)]
  obtain a m1 where m1: "alloc_pages_pa 0 (km_mm st) = Inr (a, m1)" "room 3 (km_mm st) \<le> room 3 m1 + 1"
    using alloc_pages_pa_room [OF b, of 0 3] assms(3) by auto
  note l1 = alloc_pages_pa_law [OF b, of 0, simplified, OF m1(1)]
  obtain o1 m2 where m2: "alloc_pages_pa (int ?k) m1 = Inr (o1, m2)" "room 3 m1 \<le> room 3 m2 + 1"
    using alloc_pages_pa_room [OF l1(1) assms(2)] m1(2) assms(3) by auto
  note l2 = alloc_pages_pa_law [OF l1(1) _ m2(1)]
  have "o1 \<noteq> 0" using l2(3) assms(2) by simp
  moreover have "pg_order (set_page_slab a pg) = pg_order pg" "pg_refcnt (set_page_slab a pg) = pg_refcnt pg" for a pg
    by (simp_all add: set_page_slab_def)
  then have "room 3 (mark_pages (set_page_slab a) p n m2) = room 3 m2" for p n
    using mark_pages_same [of "set_page_slab a" p n m2] by (simp add: room_def)
  ultimately show ?thesis using m1 m2 l1(3) by (simp add: slab_create_def Let_def)
qed

lemma kmalloc_room:
  assumes "heap_inv lo st" "1 \<le> sz" "sz \<le> MAX_KMALLOC_SLAB" "cpu < NCPU" "2 \<le> room 3 (km_mm st)"
  shows "\<exists>a st1 m1. kmalloc cpu sz (st, m) = Inr (a, st1, m1) \<and> heap_inv lo st1"
proof -
  define c where "c = kmalloc_caches ! unat (math_order2 (word_of_int sz))"
  have "c \<in> set kmalloc_caches" using size_class(1) [OF assms(2)] assms(3) by (simp add: c_def MAX_KMALLOC_SLAB_def)
  then have s: "slab_inv lo st" "c \<in> set (km_list st)" "kc_order (km_cache st c) \<le> 3"
    using assms(1) by (auto simp: heap_inv_def kmalloc_ready_def)
  have "sinv lo st (all_slabs st)" using s(1) by (simp add: slab_inv_def)
  then have "kmem_cache_alloc cpu c st \<noteq> Inl (Panic ''BUDDY!'')"
    using slab_create_room [OF _ s(3) assms(5)] kmem_cache_alloc_inv [OF s(1,2) assms(4)] by auto
  then have "kmalloc cpu sz (st, m) \<noteq> Inl (Panic ''BUDDY!'')"
    using assms(2,3) kmem_cache_alloc_inv [OF s(1,2) assms(4)]
    by (auto simp: kmalloc_def c_def [symmetric] MAX_KMALLOC_SLAB_def MAX_KMALLOC_PAGE_def PGSIZE_def MAX_LEVEL_INDEX_def
        split: if_splits)
  moreover have "sz \<le> MAX_KMALLOC_PAGE"
    using assms(3) by (simp add: MAX_KMALLOC_SLAB_def MAX_KMALLOC_PAGE_def PGSIZE_def MAX_LEVEL_INDEX_def)
  ultimately show ?thesis using kmalloc_ok [OF assms(1,2) _ assms(4), of m] by blast
qed

text \<open>
  C21: progress.  \<open>kmalloc\<close> of up to 8192 bytes succeeds on a consistent heap whenever two blocks of eight pages
  can still be cut from the free lists.
\<close>

theorem kmalloc_progress:
  assumes "heap_inv lo st" "1 \<le> sz" "sz \<le> MAX_KMALLOC_SLAB" "cpu < NCPU" "2 \<le> room 3 (km_mm st)"
  shows "\<exists>a st1 m1. kmalloc cpu sz (st, m) = Inr (a, st1, m1) \<and> heap_inv lo st1"
  by (rule kmalloc_room [OF assms])

lemma cache_cpu_loop_room:
  assumes "sinv lo st P" "c \<noteq> 0" "geom_ok (km_cache st c)" "kc_order (km_cache st c) \<le> 3" "2 * n \<le> room 3 (km_mm st)"
  shows "\<exists>st1. cache_cpu_loop n i c st = Inr st1 \<and> room 3 (km_mm st) \<le> room 3 (km_mm st1) + 2 * n"
  using assms
proof (induction n arbitrary: i st P)
  case (Suc n)
  have "2 \<le> room 3 (km_mm st)" using Suc.prems(5) by simp
  from slab_create_room [OF Suc.prems(1,4) this] obtain a u where
    u: "slab_create c st = Inr (a, u)" "room 3 (km_mm st) \<le> room 3 (km_mm u) + 2" by blast
  note n = slab_create_sinv [OF Suc.prems(1-3) u(1)]
  define f where "f = (\<lambda>k :: kmem_cache. k\<lparr>kc_cpu := (kc_cpu k)[i := a]\<rparr>)"
  let ?v = "upd_cache c f u"
  have v: "sinv lo ?v (insert (c, a) P)" using n(2) sinv_upd_cache(1) [of f] by (simp add: f_def)
  have g: "geom_ok (km_cache ?v c)" "kc_order (km_cache ?v c) \<le> 3" "km_mm ?v = km_mm u"
    using Suc.prems(3,4) n(5) by (simp_all add: upd_cache_def f_def geom_ok_def)
  have "2 * n \<le> room 3 (km_mm ?v)" using u(2) Suc.prems(5) g(3) by simp
  from Suc.IH [OF v Suc.prems(2) g(1,2) this, of "Suc i"] obtain st1 where
    "cache_cpu_loop n (Suc i) c ?v = Inr st1" "room 3 (km_mm ?v) \<le> room 3 (km_mm st1) + 2 * n" by blast
  then show ?case using u n(1) g(3) by (simp add: f_def)
qed auto

lemma small_order: "16 \<le> osz \<Longrightarrow> osz \<le> 8192 \<Longrightarrow> calc_slab_order osz \<le> 3"
proof (rule ccontr)
  let ?k = "calc_slab_order osz"
  assume s: "osz \<le> 8192" and n: "\<not> ?k \<le> 3"
  then have "PGSIZE * 2 ^ (?k - 1) < osz * 4"
    using calc_order_from_spec [of "osz * 4" 0] by (simp add: calc_slab_order_def MIN_OBJ_COUNT_PER_PAGE_def)
  moreover have "(2::nat) ^ 3 \<le> 2 ^ (?k - 1)" using n by (intro power_increasing) auto
  ultimately show False using s by (simp add: PGSIZE_def)
qed

section \<open>Boot\<close>

lemma cache_cpu_loop_geom:
  "cache_cpu_loop n i c st = Inr st1 \<Longrightarrow>
   kc_size (km_cache st1 c) = kc_size (km_cache st c) \<and> kc_order (km_cache st1 c) = kc_order (km_cache st c)"
proof (induction n arbitrary: i st)
  case (Suc n)
  then obtain a u where u: "slab_create c st = Inr (a, u)"
    "cache_cpu_loop n (i + 1) c (upd_cache c (\<lambda>k. k\<lparr>kc_cpu := (kc_cpu k)[i := a]\<rparr>) u) = Inr st1"
    by (auto simp: kbind_eq_Inr split: if_splits)
  have "km_cache u = km_cache st" using u(1) by (auto simp: slab_create_def Let_def kbind_eq_Inr split: if_splits)
  then show ?case using Suc.IH [OF u(2)] by (simp add: upd_cache_def)
qed simp

lemma kmem_cache_create_room:
  assumes "slab_inv lo st" "c \<notin> set (km_list st)" "c \<noteq> 0" "8 < unat sz" "unat sz \<le> 8192" "8 \<le> room 3 (km_mm st)"
  shows "\<exists>st1. kmem_cache_create c sz st = Inr st1 \<and> room 3 (km_mm st) \<le> room 3 (km_mm st1) + 8 \<and>
    kc_size (km_cache st1 c) = unat (next_power_of_2 (ucast sz)) mod 65536 \<and> kc_order (km_cache st1 c) \<le> 3"
proof -
  define osz where "osz = unat (next_power_of_2 (ucast sz)) mod 65536"
  have o: "16 \<le> osz" "osz \<le> 32768" "osz < 2 * unat sz"
    using cache_size(1) [OF assms(4)] assms(5) by (simp_all add: osz_def)
  have "osz \<le> 8192"
  proof -
    have u: "unat (ucast sz :: u64) = unat sz" by (rule unat_ucast_up) simp
    have "(ucast sz :: u64) \<noteq> 0" using u assms(4) by (metis gr_implies_not0 unat_0)
    from next_power_of_2_spec [OF this] obtain k where k: "unat (next_power_of_2 (ucast sz)) = 2 ^ k" "2 ^ k < 2 * unat sz"
      using u assms(5) by auto
    then have "(2::nat) ^ k < 2 ^ 14" using assms(5) by simp
    then have "k \<le> 13" using power_less_imp_less_exp [of "2::nat" k 14] by simp
    then have "(2::nat) ^ k \<le> 2 ^ 13" by (rule power_increasing) simp
    then show ?thesis using k(1) by (simp add: osz_def)
  qed
  define order where "order = calc_slab_order osz"
  have or: "order \<le> 3" using small_order [OF o(1) \<open>osz \<le> 8192\<close>] by (simp add: order_def)
  note g = cache_geometry [OF o(1,2), folded order_def]
  define count where "count = 2 ^ order * PGSIZE div osz"
  define f where "f = (\<lambda>k :: kmem_cache. k\<lparr>kc_size := osz, kc_order := order, kc_count := count, kc_part := [], kc_full := []\<rparr>)"
  have cnt: "2 ^ order * PGSIZE div osz mod 65536 = count" using g(3) by (simp add: count_def)
  have nP: "(c, a) \<notin> all_slabs st" for a using assms(2) by (simp add: all_slabs_def)
  let ?v = "upd_cache c f st"
  have sv: "sinv lo ?v (all_slabs st)"
    using sinv_upd_unused(1) [of c "all_slabs st", OF nP] assms(1) by (simp add: slab_inv_def)
  have k: "km_cache ?v c = f (km_cache st c)" "km_mm ?v = km_mm st" by (simp_all add: upd_cache_def)
  have "count * osz \<le> 2 ^ order * PGSIZE" by (simp add: count_def)
  then have geo: "geom_ok (km_cache ?v c)" "kc_order (km_cache ?v c) \<le> 3" "kc_size (km_cache ?v c) = osz"
    using g o(1) or unfolding k by (simp_all add: geom_ok_def f_def count_def FREE_LIST_MAX_LEN_def PGSIZE_def)
  obtain u where u: "cache_cpu_loop NCPU 0 c ?v = Inr u" "room 3 (km_mm ?v) \<le> room 3 (km_mm u) + 2 * NCPU"
    using cache_cpu_loop_room [OF sv assms(3) geo(1,2), of NCPU 0] assms(6) k(2) by (auto simp: NCPU_def)
  have "count \<le> FREE_LIST_MAX_LEN" using g(3) by (simp add: count_def FREE_LIST_MAX_LEN_def PGSIZE_def)
  then have "kmem_cache_create c sz st = Inr (u\<lparr>km_list := c # km_list u\<rparr>)"
    unfolding kmem_cache_create_def Let_def osz_def [symmetric] order_def [symmetric] cnt
    using u(1) o(1) by (simp add: cache_cpu_init_def f_def)
  then show ?thesis using u(2) k(2) cache_cpu_loop_geom [OF u(1)] geo by (simp add: NCPU_def osz_def)
qed

definition cache_req_ok :: "kmem \<Rightarrow> (addr \<times> u16) list \<Rightarrow> bool" where
  "cache_req_ok st css = (distinct (map fst css) \<and>
    (\<forall>(c, sz)\<in>set css. c \<noteq> 0 \<and> c \<notin> set (km_list st) \<and> length (kc_cpu (km_cache st c)) = NCPU \<and> 8 < unat sz \<and> unat sz \<le> 8192))"

lemma create_caches_room:
  assumes "slab_inv lo st" "cache_req_ok st css" "8 * length css \<le> room 3 (km_mm st)"
  shows "\<exists>st1. create_caches css st = Inr st1 \<and> slab_inv lo st1 \<and> live st1 = live st \<and>
    km_list st1 = rev (map fst css) @ km_list st \<and> room 3 (km_mm st) \<le> room 3 (km_mm st1) + 8 * length css \<and>
    (\<forall>d. d \<notin> fst ` set css \<longrightarrow> km_cache st1 d = km_cache st d) \<and>
    (\<forall>(c, sz)\<in>set css. kc_size (km_cache st1 c) = unat (next_power_of_2 (ucast sz)) mod 65536 \<and> kc_order (km_cache st1 c) \<le> 3)"
  using assms
proof (induction css arbitrary: st)
  case (Cons cs css)
  obtain c sz where cs: "cs = (c, sz)" by (cases cs)
  have h: "c \<noteq> 0" "c \<notin> set (km_list st)" "length (kc_cpu (km_cache st c)) = NCPU" "8 < unat sz" "unat sz \<le> 8192"
    "c \<notin> fst ` set css" using Cons.prems(2) cs by (auto simp: cache_req_ok_def)
  have r8: "8 \<le> room 3 (km_mm st)" using Cons.prems(3) by simp
  from kmem_cache_create_room [OF Cons.prems(1) h(2,1,4,5) r8] obtain u where
    u: "kmem_cache_create c sz st = Inr u" "room 3 (km_mm st) \<le> room 3 (km_mm u) + 8"
    "kc_size (km_cache u c) = unat (next_power_of_2 (ucast sz)) mod 65536" "kc_order (km_cache u c) \<le> 3" by blast
  have le: "unat sz \<le> 32768" using h(5) by simp
  note i = kmem_cache_create_inv [OF Cons.prems(1) h(2,1,3,4) le u(1)]
  have "cache_req_ok u css" unfolding cache_req_ok_def
  proof (intro conjI ballI)
    show "distinct (map fst css)" using Cons.prems(2) by (simp add: cache_req_ok_def)
    fix p assume p: "p \<in> set css"
    obtain d n where d: "p = (d, n)" by (cases p)
    have "d \<noteq> c" using h(6) p d by force
    then show "case p of (d, n) \<Rightarrow> d \<noteq> 0 \<and> d \<notin> set (km_list u) \<and> length (kc_cpu (km_cache u d)) = NCPU \<and> 8 < unat n \<and> unat n \<le> 8192"
      using Cons.prems(2) p d i by (auto simp: cache_req_ok_def)
  qed
  moreover have "8 * length css \<le> room 3 (km_mm u)" using Cons.prems(3) u(2) by simp
  ultimately obtain st1 where st1: "create_caches css u = Inr st1" "slab_inv lo st1" "live st1 = live u"
    "km_list st1 = rev (map fst css) @ km_list u" "room 3 (km_mm u) \<le> room 3 (km_mm st1) + 8 * length css"
    "\<forall>d. d \<notin> fst ` set css \<longrightarrow> km_cache st1 d = km_cache u d"
    "\<forall>(c, sz)\<in>set css. kc_size (km_cache st1 c) = unat (next_power_of_2 (ucast sz)) mod 65536 \<and> kc_order (km_cache st1 c) \<le> 3"
    using Cons.IH i by blast
  have "km_cache st1 c = km_cache u c" using st1(6) h(6) by blast
  then have "\<forall>(c, sz)\<in>set (cs # css). kc_size (km_cache st1 c) = unat (next_power_of_2 (ucast sz)) mod 65536 \<and> kc_order (km_cache st1 c) \<le> 3"
    using st1(7) u(3,4) cs by simp
  moreover have "\<forall>d. d \<notin> fst ` set (cs # css) \<longrightarrow> km_cache st1 d = km_cache st d" using st1(6) i cs by simp
  ultimately show ?case using u(1,2) st1 i cs by simp
qed auto

lemma init_loop_marks: "marks (init_loop i m) = marks m"
proof (induction i m rule: init_loop.induct)
  case (1 i m)
  then show ?case by (simp add: init_loop.simps [of i m] marks_simps Let_def)
qed

lemma boot_no_kpage:
  assumes "\<forall>x\<ge>ALL_PFN. \<not> kpage m x"
  shows "\<not> kpage (mm_init k m) x"
proof -
  have "marks (mm_init k m) = marks (m\<lparr>mm_pages := first_all_page_init k (mm_pages m)\<rparr>)"
    by (simp add: mm_init_def buddy_init_def init_loop_marks marks_def fun_eq_iff)
  then have "kpage (mm_init k m) x = kpage (m\<lparr>mm_pages := first_all_page_init k (mm_pages m)\<rparr>) x"
    using kpage_marks by metis
  moreover have "\<not> test_page_kmalloc_page (first_all_page_init k (mm_pages m) x)"
  proof -
    have f: "first_all_page_init k ps x =
        (let pg = (if x < ALL_PFN then init_page 0 else ps x)
         in if x < k then (get_page pg)\<lparr>pg_flags := pg_flags (get_page pg) OR (PG_reserved OR PG_anon)\<rparr> else pg)" for ps
      by (simp add: first_all_page_init_def Let_def foldl_upd [of "\<lambda>_. init_page 0"]
          foldl_upd [of "\<lambda>pg. (get_page pg)\<lparr>pg_flags := pg_flags (get_page pg) OR (PG_reserved OR PG_anon)\<rparr>"])
    have b: "(w AND PG_KMALLOC_PAGE \<noteq> 0) \<longleftrightarrow> bit w 30" for w
      by (simp only: PG_KMALLOC_PAGE_def push_bit_eq_mult mult_1 and_exp_eq_0_iff_not_bit not_not)
    show ?thesis using assms unfolding f Let_def kpage_def test_page_kmalloc_page_def b
      by (auto simp: init_page_def get_page_def bit_simps PG_reserved_def PG_anon_def not_le)
  qed
  ultimately show ?thesis by (simp add: kpage_def)
qed

lemma boot_room:
  assumes "start_pfn kernel_pfn_end + 2048 \<le> ALL_PFN" "kernel_pfn_end < ALL_PFN"
  shows "256 \<le> room 3 (mm_init kernel_pfn_end m)"
proof -
  let ?lo = "start_pfn kernel_pfn_end" and ?l = "mm_lists (mm_init kernel_pfn_end m) 10"
  have i: "init_upto ?lo ALL_PFN (mm_init kernel_pfn_end m)" by (rule mm_init_upto(1) [OF assms(2)])
  have "1024 dvd ?lo" by (rule start_pfn_facts(1) [OF assms(2)])
  then have "{?lo, ?lo + 1024} \<subseteq> set ?l" using i assms(1) by (auto simp: init_upto_def)
  then have "card {?lo, ?lo + 1024} \<le> card (set ?l)" by (intro card_mono) simp_all
  then have l: "2 \<le> length ?l" using card_length [of ?l] by simp
  have "{3..10} = {3, 4, 5, 6, 7, 8, 9, 10::nat}" by auto
  then have "2 ^ 7 * length ?l \<le> room 3 (mm_init kernel_pfn_end m)" by (simp add: room_def)
  then show ?thesis using l by simp
qed

lemma kmalloc_init_ok:
  assumes "slab_inv lo st" "80 \<le> room 3 (km_mm st)"
    and "\<forall>c\<in>set kmalloc_caches. c \<notin> set (km_list st) \<and> length (kc_cpu (km_cache st c)) = NCPU"
  shows "\<exists>st1. kmalloc_init st = Inr st1 \<and> heap_inv lo st1 \<and> live st1 = live st \<and>
    room 3 (km_mm st) \<le> room 3 (km_mm st1) + 80"
proof -
  let ?css = "[(16, 16), (32, 32), (64, 64), (128, 128), (256, 256), (512, 512), (1024, 1024), (2048, 2048),
     (4096, 4096), (8192, 8192)] :: (addr \<times> u16) list"
  have "cache_req_ok st ?css" using assms(3) by (simp add: cache_req_ok_def kmalloc_caches_def)
  from create_caches_room [OF assms(1) this] assms(2) obtain st1 where st1: "create_caches ?css st = Inr st1"
    "slab_inv lo st1" "live st1 = live st" "km_list st1 = rev (map fst ?css) @ km_list st"
    "room 3 (km_mm st) \<le> room 3 (km_mm st1) + 80"
    "\<forall>(c, sz)\<in>set ?css. kc_size (km_cache st1 c) = unat (next_power_of_2 (ucast sz)) mod 65536 \<and> kc_order (km_cache st1 c) \<le> 3"
    by auto
  have "kmalloc_ready st1" unfolding kmalloc_ready_def kmalloc_caches_def
    using st1(4,6) by (simp add: next_power_of_2_def smear_def)
  then show ?thesis using st1 by (auto simp: kmalloc_init_def heap_inv_def)
qed

lemma boot_slab_inv:
  assumes "kernel_pfn_end < ALL_PFN" "\<forall>x\<ge>ALL_PFN. \<not> kpage (km_mm st) x"
  shows "slab_inv (start_pfn kernel_pfn_end) (st\<lparr>km_mm := mm_init kernel_pfn_end (km_mm st)\<rparr>\<lparr>km_list := []\<rparr>)" (is "slab_inv ?lo ?s")
    "live (st\<lparr>km_mm := mm_init kernel_pfn_end (km_mm st)\<rparr>\<lparr>km_list := []\<rparr>) = {}"
proof -
  have bi: "buddy_inv ?lo (mm_init kernel_pfn_end (km_mm st))"
    using init_upto_inv [OF mm_init_upto(1) start_pfn_facts(1) mm_init_upto(2)] assms(1) by blast
  have nk: "\<not> kpage (mm_init kernel_pfn_end (km_mm st)) x" for x using boot_no_kpage [OF assms(2)] by blast
  have a: "all_slabs ?s = {}" by (simp add: all_slabs_def)
  show "slab_inv ?lo ?s" unfolding slab_inv_def a using bi nk by (simp add: sinv_def)
  show "live ?s = {}" unfolding live_def a using nk by (simp add: live_of_def)
qed

lemma boot_heap_room:
  assumes "kernel_pfn_end < ALL_PFN" "start_pfn kernel_pfn_end + 2048 \<le> ALL_PFN"
    and "\<forall>sz\<in>{sz_task_struct szs, sz_buf_head szs, sz_bio szs, sz_timer szs, sz_m_inode szs, sz_dentry szs, sz_file szs,
      sz_trapframe szs, sz_vm_area szs}. 8 < unat sz \<and> unat sz \<le> 8192"
    and "\<forall>c. length (kc_cpu (km_cache st c)) = NCPU" "\<forall>x\<ge>ALL_PFN. \<not> kpage (km_mm st) x"
  shows "\<exists>st1 st2. kmem_cache_init szs (st\<lparr>km_mm := mm_init kernel_pfn_end (km_mm st)\<rparr>) = Inr st1 \<and>
    kmalloc_init st1 = Inr st2 \<and> heap_inv (start_pfn kernel_pfn_end) st2 \<and> live st2 = {} \<and>
    96 \<le> room 3 (km_mm st2)"
proof -
  let ?lo = "start_pfn kernel_pfn_end" and ?m = "mm_init kernel_pfn_end (km_mm st)"
  let ?s = "st\<lparr>km_mm := ?m\<rparr>\<lparr>km_list := []\<rparr>"
  note s0 = boot_slab_inv(1) [OF assms(1,5)] and l0 = boot_slab_inv(2) [OF assms(1,5)]
  let ?css = "[(1, sz_task_struct szs), (2, of_nat (2 * PGSIZE)), (3, sz_buf_head szs), (4, sz_bio szs), (5, sz_timer szs),
     (6, sz_m_inode szs), (7, sz_dentry szs), (8, sz_file szs), (9, sz_trapframe szs), (10, sz_vm_area szs)] :: (addr \<times> u16) list"
  have "cache_req_ok ?s ?css" using assms(3,4) by (simp add: cache_req_ok_def PGSIZE_def)
  moreover have r: "256 \<le> room 3 (km_mm ?s)" using boot_room [OF assms(2,1)] by simp
  ultimately obtain st1 where st1: "create_caches ?css ?s = Inr st1" "slab_inv ?lo st1" "live st1 = live ?s"
    "km_list st1 = rev (map fst ?css) @ km_list ?s" "room 3 (km_mm ?s) \<le> room 3 (km_mm st1) + 80"
    "\<forall>d. d \<notin> fst ` set ?css \<longrightarrow> km_cache st1 d = km_cache ?s d"
    using create_caches_room [OF s0, of ?css] by auto
  have k: "kmem_cache_init szs (st\<lparr>km_mm := ?m\<rparr>) = Inr st1" using st1(1) by (simp add: kmem_cache_init_def)
  have "176 \<le> room 3 (km_mm st1)" using st1(5) r by simp
  moreover have "\<forall>c\<in>set kmalloc_caches. c \<notin> set (km_list st1) \<and> length (kc_cpu (km_cache st1 c)) = NCPU"
    using st1(4,6) assms(4) by (simp add: kmalloc_caches_def)
  ultimately show ?thesis using k kmalloc_init_ok [OF st1(2)] st1(3) l0 by fastforce
qed

text \<open>
  C2: boot.  When at least two chunks of memory lie above the kernel image and the structures served by the
  dedicated caches have 9 to 8192 bytes, \<open>mm_init\<close>, \<open>kmem_cache_init\<close> and \<open>kmalloc_init\<close> succeed and
  leave a consistent heap with no object in use.
\<close>

theorem boot_heap:
  assumes "kernel_pfn_end < ALL_PFN" "start_pfn kernel_pfn_end + 2048 \<le> ALL_PFN"
    and "\<forall>sz\<in>{sz_task_struct szs, sz_buf_head szs, sz_bio szs, sz_timer szs, sz_m_inode szs, sz_dentry szs, sz_file szs,
      sz_trapframe szs, sz_vm_area szs}. 8 < unat sz \<and> unat sz \<le> 8192"
    and "\<forall>c. length (kc_cpu (km_cache st c)) = NCPU" "\<forall>x\<ge>ALL_PFN. \<not> kpage (km_mm st) x"
  shows "\<exists>st1 st2. kmem_cache_init szs (st\<lparr>km_mm := mm_init kernel_pfn_end (km_mm st)\<rparr>) = Inr st1 \<and>
    kmalloc_init st1 = Inr st2 \<and> heap_inv (start_pfn kernel_pfn_end) st2 \<and> live st2 = {}"
  using boot_heap_room [OF assms] by blast

section \<open>Examples\<close>

definition blank_kmem :: kmem where
  "blank_kmem = \<lparr>km_mm = blank_mm,
    km_slab = (\<lambda>_. \<lparr>sl_kc = 0, sl_objs = 0, sl_inuse = 0, sl_free = (sstack_init 0 0, \<lambda>_. 0)\<rparr>),
    km_cache = (\<lambda>_. \<lparr>kc_cpu = [0, 0, 0, 0], kc_size = 0, kc_order = 0, kc_count = 0, kc_part = [], kc_full = []\<rparr>),
    km_list = []\<rparr>"

definition example_sizes :: struct_sizes where
  "example_sizes = \<lparr>sz_task_struct = 1000, sz_buf_head = 120, sz_bio = 64, sz_timer = 48, sz_m_inode = 300, sz_dentry = 200,
    sz_file = 64, sz_trapframe = 288, sz_vm_area = 80\<rparr>"

lemma blank_kmem_facts:
  "\<forall>c. length (kc_cpu (km_cache blank_kmem c)) = NCPU" "\<forall>x\<ge>ALL_PFN. \<not> kpage (km_mm blank_kmem) x"
  "start_pfn 1500 = 2048" "1500 < ALL_PFN" "start_pfn 1500 + 2048 \<le> ALL_PFN"
  "\<forall>sz\<in>{sz_task_struct example_sizes, sz_buf_head example_sizes, sz_bio example_sizes, sz_timer example_sizes,
     sz_m_inode example_sizes, sz_dentry example_sizes, sz_file example_sizes, sz_trapframe example_sizes,
     sz_vm_area example_sizes}. 8 < unat sz \<and> unat sz \<le> 8192"
  by (simp_all add: blank_kmem_def NCPU_def blank_mm_def kpage_def test_page_kmalloc_page_def init_page_def
      PG_KMALLOC_PAGE_def start_pfn_def MAX_LEVEL_INDEX_def ALL_PFN_def example_sizes_def)

theorem boot_heap_witness:
  "\<exists>st1 st2. kmem_cache_init example_sizes (blank_kmem\<lparr>km_mm := mm_init 1500 (km_mm blank_kmem)\<rparr>) = Inr st1 \<and>
    kmalloc_init st1 = Inr st2 \<and> heap_inv 2048 st2 \<and> live st2 = {}"
  using boot_heap [OF blank_kmem_facts(4,5,6,1,2)] by (simp only: blank_kmem_facts(3))

lemma boot_example:
  obtains st where "heap_inv 2048 st" "live st = {}" "96 \<le> room 3 (km_mm st)"
  using boot_heap_room [OF blank_kmem_facts(4,5,6,1,2)] unfolding blank_kmem_facts(3) by blast

lemma kmalloc_example:
  obtains st a st1 m1 where "heap_inv 2048 st" "live st = {}" "kmalloc 0 100 (st, \<lambda>_. 7) = Inr (a, st1, m1)"
proof -
  obtain st where st: "heap_inv 2048 st" "live st = {}" "96 \<le> room 3 (km_mm st)" by (rule boot_example)
  have "\<exists>a st1 m1. kmalloc 0 100 (st, \<lambda>_. 7) = Inr (a, st1, m1) \<and> heap_inv 2048 st1"
    using st by (intro kmalloc_room) (simp_all add: MAX_KMALLOC_SLAB_def NCPU_def)
  then show thesis using that st by blast
qed

theorem kmalloc_progress_witness:
  "\<exists>st a st1 m1. kmalloc 0 100 (st, \<lambda>_. 7) = Inr (a, st1, m1) \<and> heap_inv 2048 st1"
proof -
  obtain st where "heap_inv 2048 st" "live st = {}" "96 \<le> room 3 (km_mm st)" by (rule boot_example)
  then show ?thesis using kmalloc_progress [of 2048 st 100 0 "\<lambda>_. 7"] by (auto simp: MAX_KMALLOC_SLAB_def NCPU_def)
qed

theorem kmalloc_correct_witness:
  "\<exists>st a st1 m1 n. kmalloc 0 100 (st, \<lambda>_. 7) = Inr (a, st1, m1) \<and> heap_inv 2048 st1 \<and> live st1 = {(a, n)} \<and>
    100 \<le> n \<and> m1 (a + 99) = 0"
proof -
  obtain st a st1 m1 where s: "heap_inv 2048 st" "live st = {}" "kmalloc 0 100 (st, \<lambda>_. 7) = Inr (a, st1, m1)"
    by (rule kmalloc_example)
  have c: "(1::int) \<le> 100" "(100::int) \<le> MAX_KMALLOC_PAGE" "0 < NCPU"
    by (simp_all add: MAX_KMALLOC_PAGE_def PGSIZE_def MAX_LEVEL_INDEX_def NCPU_def)
  from kmalloc_correct [OF s(1) c, of "\<lambda>_. 7"] show ?thesis
  proof (elim disjE exE conjE)
    fix b n st2 m2
    assume "kmalloc 0 100 (st, \<lambda>_. 7) = Inr (b, st2, m2)" "heap_inv 2048 st2" "nat 100 \<le> n"
      "live st2 = insert (b, n) (live st)" "\<forall>i<nat 100. m2 (b + i) = 0"
    then show ?thesis using s(2) by (intro exI [of _ st] exI [of _ b] exI [of _ st2] exI [of _ m2] exI [of _ n]) simp
  qed (simp add: s(3))
qed

theorem kfree_correct_witness:
  "\<exists>st a st1 m1 st2. kmalloc 0 100 (st, \<lambda>_. 7) = Inr (a, st1, m1) \<and> kfree a st1 = Inr st2 \<and> live st2 = {} \<and>
    heap_inv 2048 st2"
proof -
  obtain st a st1 m1 where s: "heap_inv 2048 st" "live st = {}" "kmalloc 0 100 (st, \<lambda>_. 7) = Inr (a, st1, m1)"
    by (rule kmalloc_example)
  have c: "(1::int) \<le> 100" "(100::int) \<le> MAX_KMALLOC_PAGE" "0 < NCPU"
    by (simp_all add: MAX_KMALLOC_PAGE_def PGSIZE_def MAX_LEVEL_INDEX_def NCPU_def)
  from kmalloc_ok [OF s(1) c, of "\<lambda>_. 7"] obtain n where n: "heap_inv 2048 st1" "live st1 = {(a, n)}"
    unfolding s(2,3) by (elim disjE exE conjE) (simp, blast)
  then show ?thesis using kfree_correct [OF n(1), of a n] s(3) by auto
qed

theorem heap_run_safe_witness:
  "\<exists>st. heap_inv 2048 st \<and>
    (heap_run kmalloc_req kfree_req [Malloc (0, 100), Malloc (1, 20000), Free 1] [] (st, \<lambda>_. 7) = Inl (Panic ''BUDDY!'') \<or>
     (\<exists>held st1 m1. heap_run kmalloc_req kfree_req [Malloc (0, 100), Malloc (1, 20000), Free 1] [] (st, \<lambda>_. 7) =
       Inr (held, st1, m1) \<and> heap_inv 2048 st1))"
proof -
  obtain st where st: "heap_inv 2048 st" by (rule boot_example)
  have "list_all (op_ok req_ok) [Malloc (0, 100), Malloc (1, 20000), Free 1]"
    by (simp add: op_ok_def req_ok_def NCPU_def MAX_KMALLOC_PAGE_def PGSIZE_def MAX_LEVEL_INDEX_def)
  from heap_run_safe [OF st this, of "\<lambda>_. 7"] show ?thesis using st by blast
qed

theorem cache_create_destory_witness:
  "\<exists>st st1 st2. slab_inv 2048 st \<and> kmem_cache_create 99 64 st = Inr st1 \<and> kmem_cache_destory 99 st1 = Inr st2 \<and>
    live st2 = live st \<and> allocated 2048 (km_mm st2) = allocated 2048 (km_mm st)"
proof -
  let ?s = "blank_kmem\<lparr>km_mm := mm_init 1500 (km_mm blank_kmem)\<rparr>\<lparr>km_list := []\<rparr>"
  have s: "slab_inv 2048 ?s" using boot_slab_inv(1) [OF blank_kmem_facts(4,2)] unfolding blank_kmem_facts(3) .
  have r: "8 \<le> room 3 (km_mm ?s)" using boot_room [OF blank_kmem_facts(5,4), of "km_mm blank_kmem"] by simp
  obtain st1 where st1: "kmem_cache_create 99 64 ?s = Inr st1"
    using kmem_cache_create_room [OF s _ _ _ _ r, of 99 64] by auto
  have "length (kc_cpu (km_cache ?s 99)) = NCPU" using blank_kmem_facts(1) by simp
  then show ?thesis using cache_create_destory [OF s _ _ _ _ _ st1] st1 s by auto
qed

end
