(* ===== verification/Bitmap.thy ===== *)
theory Bitmap
  imports Prelude
begin

text \<open>
  lib/bitmap.c: the bit allocator of the file system (inode and block bitmaps).  The map is an array of
  64-bit words; \<open>allocation\<close> is the position from which the next search starts.  An access
  past the array is a fault.

  The allocator invariant \<open>bm_inv\<close> (the counter equals the number of clear bits, and everything
  below \<open>allocation\<close> is in use) is kept by allocation and freeing; outside of it the range
  test of \<open>bitmap_alloc\<close> lets the index \<open>size\<close> through.
\<close>

unbundle bit_operations_syntax

section \<open>Definitions\<close>

record bitmap =
  bm_map :: "u64 list"
  bm_size :: nat
  bm_unused :: int
  bm_allocation :: nat

text \<open>\<open>memset\<close> of the first \<open>(size_bits + 7) / 8\<close> bytes, on little-endian words.\<close>

definition clear_bytes :: "nat \<Rightarrow> u64 list \<Rightarrow> u64 list" where
  "clear_bytes n mp = map (\<lambda>i. (mp ! i) AND NOT (mask (8 * (n - 8 * i)))) [0..<length mp]"

definition bitmap_init :: "u64 list \<Rightarrow> nat \<Rightarrow> bitmap" where
  "bitmap_init mp size_bits =
    \<lparr>bm_map = clear_bytes ((size_bits + 7) div 8) mp, bm_size = size_bits,
     bm_unused = int size_bits, bm_allocation = 0\<rparr>"

definition bitmap_init_zone :: "u64 list \<Rightarrow> nat \<Rightarrow> bitmap" where
  "bitmap_init_zone mp size_bits =
    \<lparr>bm_map = mp, bm_size = size_bits, bm_unused = int size_bits, bm_allocation = 0\<rparr>"

definition bitmap_reset_unused :: "int \<Rightarrow> bitmap \<Rightarrow> bitmap" where
  "bitmap_reset_unused n bm = bm\<lparr>bm_unused := n\<rparr>"

text \<open>The inner loop of \<open>bitmap_alloc\<close>: the first clear bit of a word from \<open>bit\<close> on.\<close>

function scan_bits :: "u64 \<Rightarrow> nat \<Rightarrow> nat option" where
  "scan_bits w b = (if b < 64 then (if w AND push_bit b 1 = 0 then Some b else scan_bits w (b + 1)) else None)"
  by pat_completeness auto
termination
  by (relation "measure (\<lambda>(w, b). 64 - b)") auto

declare scan_bits.simps [simp del]

text \<open>The outer loop, over the words from \<open>i\<close> up to \<open>total_blocks\<close>.\<close>

function scan_words :: "u64 list \<Rightarrow> nat \<Rightarrow> nat \<Rightarrow> nat \<Rightarrow> nat \<Rightarrow> (nat \<times> nat) option kres" where
  "scan_words mp start_block start_bit tot i =
    (if i < tot then
       if \<not> i < length mp then Inl (Fault ''bitmap word'')
       else if mp ! i \<noteq> - 1 then
         (case scan_bits (mp ! i) (if i = start_block then start_bit else 0) of
            Some b \<Rightarrow> Inr (Some (i, b))
          | None \<Rightarrow> scan_words mp start_block start_bit tot (i + 1))
       else scan_words mp start_block start_bit tot (i + 1)
     else Inr None)"
  by pat_completeness auto
termination
  by (relation "measure (\<lambda>(mp, sb, sbit, tot, i). tot - i)") auto

declare scan_words.simps [simp del]

definition bitmap_alloc :: "bitmap \<Rightarrow> (int \<times> bitmap) kres" where
  "bitmap_alloc bm =
    (if bm_unused bm = 0 then Inr (-1, bm)
     else
       let total_blocks = (bm_size bm + 63) div 64;
           start_block = bm_allocation bm div 64;
           start_bit = bm_allocation bm mod 64
       in kbind (scan_words (bm_map bm) start_block start_bit total_blocks start_block) (\<lambda>r.
         case r of
           None \<Rightarrow> Inr (-1, bm)
         | Some (i, b) \<Rightarrow>
             (let res = i * 64 + b
              in if res > bm_size bm then Inr (-1, bm)
                 else Inr (int res,
                   bm\<lparr>bm_map := (bm_map bm)[i := bm_map bm ! i OR push_bit b 1],
                      bm_unused := bm_unused bm - 1, bm_allocation := res + 1\<rparr>))))"

definition bitmap_free :: "int \<Rightarrow> bitmap \<Rightarrow> bitmap kres" where
  "bitmap_free index bm =
    (if index < 0 \<or> index \<ge> int (bm_size bm) then Inr bm
     else
       let k = nat index; map_index = k div 64; b = k mod 64;
           bm1 = (if k < bm_allocation bm then bm\<lparr>bm_allocation := k\<rparr> else bm)
       in if \<not> map_index < length (bm_map bm) then Inl (Fault ''bitmap word'')
          else if bm_map bm ! map_index AND push_bit b 1 \<noteq> 0 then
            Inr (bm1\<lparr>bm_map := (bm_map bm)[map_index := bm_map bm ! map_index AND NOT (push_bit b 1)],
                    bm_unused := bm_unused bm + 1\<rparr>)
          else Inr bm1)"

definition bitmap_is_free :: "int \<Rightarrow> bitmap \<Rightarrow> int kres" where
  "bitmap_is_free index bm =
    (if index < 0 \<or> index \<ge> int (bm_size bm) then Inr (-1)
     else
       let map_index = nat index div 64; b = nat index mod 64
       in if \<not> map_index < length (bm_map bm) then Inl (Fault ''bitmap word'')
          else Inr (if bm_map bm ! map_index AND push_bit b 1 = 0 then 1 else 0))"

definition bitmap_reset_start :: "nat \<Rightarrow> bitmap \<Rightarrow> bitmap kres" where
  "bitmap_reset_start start bm =
    kbind (bitmap_alloc (bm\<lparr>bm_allocation := start\<rparr>)) (\<lambda>(index, bm1). bitmap_free index bm1)"

section \<open>Bits of the map\<close>

definition used :: "bitmap \<Rightarrow> nat \<Rightarrow> bool" where
  "used bm k = bit (bm_map bm ! (k div 64)) (k mod 64)"

definition bm_wf :: "bitmap \<Rightarrow> bool" where
  "bm_wf bm = (bm_size bm \<le> 64 * length (bm_map bm))"

definition bm_inv :: "bitmap \<Rightarrow> bool" where
  "bm_inv bm = (bm_wf bm \<and> bm_unused bm = int (card {k. k < bm_size bm \<and> \<not> used bm k}) \<and>
    (\<forall>k<bm_allocation bm. k < bm_size bm \<longrightarrow> used bm k))"

lemma and_push_bit:
  "(w AND push_bit b 1 = 0) \<longleftrightarrow> \<not> bit (w :: u64) b" "(w AND 2 ^ b = 0) \<longleftrightarrow> \<not> bit (w :: u64) b"
  by (simp_all add: push_bit_eq_mult and_exp_eq_0_iff_not_bit)

lemma scan_bits_Some:
  assumes "scan_bits w b = Some c"
  shows "b \<le> c \<and> c < 64 \<and> \<not> bit w c \<and> (\<forall>d. b \<le> d \<and> d < c \<longrightarrow> bit w d)"
  using assms
proof (induction w b rule: scan_bits.induct)
  case (1 w b)
  show ?case
  proof (cases "b < 64 \<and> bit w b")
    case True
    then have "b + 1 \<le> c \<and> c < 64 \<and> \<not> bit w c \<and> (\<forall>d. b + 1 \<le> d \<and> d < c \<longrightarrow> bit w d)"
      using 1 by (simp add: scan_bits.simps [of w b] and_push_bit)
    then show ?thesis using True by (metis Suc_eq_plus1 Suc_le_eq le_less)
  next
    case False
    then show ?thesis using 1(2) by (subst (asm) scan_bits.simps) (auto simp: and_push_bit split: if_splits)
  qed
qed

lemma scan_bits_None:
  assumes "scan_bits w b = None" "b \<le> d" "d < 64"
  shows "bit w d"
  using assms
proof (induction w b rule: scan_bits.induct)
  case (1 w b)
  then have "b < 64" by simp
  with 1 show ?case
    by (cases "d = b") (auto simp: scan_bits.simps [of w b] and_push_bit split: if_splits)
qed


abbreviation bitat :: "u64 list \<Rightarrow> nat \<Rightarrow> bool" where
  "bitat mp k \<equiv> bit (mp ! (k div 64)) (k mod 64)"

lemma div_mod_64:
  assumes "64 * i \<le> (k::nat)" "k < 64 * (i + 1)"
  shows "k div 64 = i" "k mod 64 = k - 64 * i"
proof -
  show q: "k div 64 = i" using assms by (intro div_nat_eqI) auto
  show "k mod 64 = k - 64 * i" using q by (simp add: modulo_nat_def mult.commute)
qed

lemma word_full:
  assumes "mp ! i = - 1 \<or> scan_bits (mp ! i) off = None" "64 * i + off \<le> k" "k < 64 * (i + 1)"
  shows "bitat mp k"
proof -
  have k: "k div 64 = i" "k mod 64 = k - 64 * i" "off \<le> k mod 64" "k mod 64 < 64"
    using assms(2,3) div_mod_64 [of i k] by auto
  then show ?thesis using assms(1) scan_bits_None [of "mp ! i" off "k mod 64"] by auto
qed

text \<open>What a scan from position \<open>p\<close> over \<open>tot\<close> words must return: the first clear bit, if any.\<close>

definition first_clear :: "u64 list \<Rightarrow> nat \<Rightarrow> nat \<Rightarrow> (nat \<times> nat) option \<Rightarrow> bool" where
  "first_clear mp tot p r = (case r of
      None \<Rightarrow> \<forall>k. p \<le> k \<and> k < 64 * tot \<longrightarrow> bitat mp k
    | Some (j, b) \<Rightarrow> b < 64 \<and> j < tot \<and> p \<le> 64 * j + b \<and> \<not> bitat mp (64 * j + b) \<and>
        (\<forall>k. p \<le> k \<and> k < 64 * j + b \<longrightarrow> bitat mp k))"

lemma first_clear_extend:
  assumes "first_clear mp tot q r" "p \<le> q" "\<And>k. p \<le> k \<Longrightarrow> k < q \<Longrightarrow> bitat mp k"
  shows "first_clear mp tot p r"
  using assms unfolding first_clear_def
  by (auto split: option.splits) (meson le_trans not_le)+

lemma first_clear_word:
  assumes "scan_bits (mp ! i) off = Some b" "i < tot"
  shows "first_clear mp tot (64 * i + off) (Some (i, b))"
proof -
  have "bitat mp k" if "64 * i + off \<le> k" "k < 64 * i + b" for k
  proof -
    have "off \<le> k - 64 * i" "k - 64 * i < b" "b < 64" using that scan_bits_Some [OF assms(1)] by auto
    moreover from this that have "k div 64 = i" "k mod 64 = k - 64 * i"
      using div_mod_64 [of i k] by auto
    ultimately show ?thesis using scan_bits_Some [OF assms(1)] by auto
  qed
  then show ?thesis using assms scan_bits_Some [OF assms(1)] by (simp add: first_clear_def)
qed

lemma scan_words_spec:
  assumes "tot \<le> length mp" "sb \<le> i" "sbit < 64"
  shows "\<exists>r. scan_words mp sb sbit tot i = Inr r \<and>
    first_clear mp tot (64 * i + (if i = sb then sbit else 0)) r"
  using assms
proof (induction mp sb sbit tot i rule: scan_words.induct)
  case (1 mp sb sbit tot i)
  define off where "off = (if i = sb then sbit else 0)"
  consider "\<not> i < tot" | "i < tot" "mp ! i = - 1 \<or> scan_bits (mp ! i) off = None"
    | b where "i < tot" "mp ! i \<noteq> - 1" "scan_bits (mp ! i) off = Some b" by (cases "scan_bits (mp ! i) off") auto
  then have "\<exists>r. scan_words mp sb sbit tot i = Inr r \<and> first_clear mp tot (64 * i + off) r"
  proof cases
    case 1
    then have "\<not> k < 64 * tot" if "64 * i + off \<le> k" for k using that by linarith
    with 1 show ?thesis by (auto simp: scan_words.simps first_clear_def)
  next
    case 2
    have eq: "scan_words mp sb sbit tot i = scan_words mp sb sbit tot (i + 1)"
      using 2 "1.prems" by (subst scan_words.simps) (auto simp: off_def)
    have "\<exists>r. scan_words mp sb sbit tot (i + 1) = Inr r \<and> first_clear mp tot (64 * (i + 1)) r"
      using "1.IH" 2 "1.prems" unfolding off_def by (cases "mp ! i = - 1") auto
    then show ?thesis unfolding eq
      using first_clear_extend word_full [OF 2(2)] "1.prems" by (fastforce simp: off_def)
  next
    case 3
    then have "scan_words mp sb sbit tot i = Inr (Some (i, b))"
      using "1.prems" by (subst scan_words.simps) (simp add: off_def)
    then show ?thesis using first_clear_word [OF 3(3,1)] by simp
  qed
  then show ?case by (simp add: off_def)
qed


section \<open>Allocation and freeing\<close>

lemma used_set:
  assumes "i < length (bm_map bm)" "b < 64" "j < 64 * length (bm_map bm)"
  shows "used (bm\<lparr>bm_map := (bm_map bm)[i := bm_map bm ! i OR push_bit b 1]\<rparr>) j \<longleftrightarrow> used bm j \<or> j = 64 * i + b"
proof -
  have "j = 64 * i + b \<longleftrightarrow> j div 64 = i \<and> j mod 64 = b" using assms(2) by auto
  then show ?thesis using assms
    by (cases "j div 64 = i") (auto simp: used_def nth_list_update bit_or_iff bit_exp_iff)
qed

lemma used_clear:
  assumes "i < length (bm_map bm)" "b < 64" "j < 64 * length (bm_map bm)"
  shows "used (bm\<lparr>bm_map := (bm_map bm)[i := bm_map bm ! i AND NOT (push_bit b 1)]\<rparr>) j \<longleftrightarrow> used bm j \<and> j \<noteq> 64 * i + b"
proof -
  have "j = 64 * i + b \<longleftrightarrow> j div 64 = i \<and> j mod 64 = b" using assms(2) by auto
  then show ?thesis using assms
    by (cases "j div 64 = i") (auto simp: used_def nth_list_update bit_simps)
qed

lemma used_cong [simp]:
  "used (bm\<lparr>bm_unused := u\<rparr>) = used bm" "used (bm\<lparr>bm_allocation := a\<rparr>) = used bm"
  by (simp_all add: used_def fun_eq_iff)

text \<open>The outcome of an allocation: no clear bit from \<open>allocation\<close> up to \<open>size\<close>, or the first one.\<close>

lemma bitmap_alloc_cases:
  assumes "bm_wf bm" "bm_unused bm \<noteq> 0"
  obtains (none) "bitmap_alloc bm = Inr (-1, bm)"
      "\<And>k. bm_allocation bm \<le> k \<Longrightarrow> k < 64 * ((bm_size bm + 63) div 64) \<Longrightarrow> k \<le> bm_size bm \<Longrightarrow> used bm k"
  | (some) k where "bitmap_alloc bm = Inr (int k,
        bm\<lparr>bm_map := (bm_map bm)[k div 64 := bm_map bm ! (k div 64) OR push_bit (k mod 64) 1],
           bm_unused := bm_unused bm - 1, bm_allocation := k + 1\<rparr>)"
      "bm_allocation bm \<le> k" "k \<le> bm_size bm" "k div 64 < length (bm_map bm)" "\<not> used bm k"
      "\<And>j. bm_allocation bm \<le> j \<Longrightarrow> j < k \<Longrightarrow> used bm j"
proof -
  let ?tot = "(bm_size bm + 63) div 64" and ?sb = "bm_allocation bm div 64"
  have tot: "?tot \<le> length (bm_map bm)" using assms(1) by (simp add: bm_wf_def)
  obtain r where r: "scan_words (bm_map bm) ?sb (bm_allocation bm mod 64) ?tot ?sb = Inr r"
    and f: "first_clear (bm_map bm) ?tot (bm_allocation bm) r"
    using scan_words_spec [OF tot, of ?sb ?sb "bm_allocation bm mod 64"] by auto
  show thesis
  proof (cases r)
    case None
    then show thesis using r f assms(2) by (intro none) (auto simp: bitmap_alloc_def first_clear_def used_def)
  next
    case (Some jb)
    obtain j b where jb: "jb = (j, b)" by (cases jb)
    define k where "k = 64 * j + b"
    have k: "k div 64 = j" "k mod 64 = b" "j < ?tot" "bm_allocation bm \<le> k" "\<not> used bm k"
      "\<And>i. bm_allocation bm \<le> i \<Longrightarrow> i < k \<Longrightarrow> used bm i"
      using f Some jb by (auto simp: first_clear_def k_def used_def)
    show thesis
    proof (cases "k \<le> bm_size bm")
      case True
      then show thesis using r Some jb k tot assms(2)
        by (intro some [of k]) (auto simp: bitmap_alloc_def Let_def k_def mult.commute)
    next
      case False
      then show thesis using r Some jb k assms(2)
        by (intro none) (auto simp: bitmap_alloc_def Let_def k_def mult.commute)
    qed
  qed
qed

lemma card_clear_set:
  assumes "k < (n::nat)" "\<not> P k" "\<And>j. j < n \<Longrightarrow> Q j \<longleftrightarrow> P j \<or> j = k"
  shows "int (card {j. j < n \<and> \<not> Q j}) = int (card {j. j < n \<and> \<not> P j}) - 1"
proof -
  have "{j. j < n \<and> \<not> P j} = insert k {j. j < n \<and> \<not> Q j}" using assms by auto
  moreover have "k \<notin> {j. j < n \<and> \<not> Q j}" using assms by auto
  moreover have "finite {j. j < n \<and> \<not> Q j}" by (rule finite_subset [of _ "{..<n}"]) auto
  ultimately show ?thesis by (simp only: card_insert_disjoint) simp
qed

text \<open>
  C29: under the allocator invariant, \<open>bitmap_alloc\<close> fails exactly when no bit is clear; otherwise it
  returns the least clear index, which is below \<open>size\<close>, marks that bit and no other, and keeps
  the invariant.
\<close>

theorem bitmap_alloc_correct:
  assumes "bm_inv bm"
  shows "if \<forall>j<bm_size bm. used bm j then bitmap_alloc bm = Inr (-1, bm)
    else \<exists>k bm'. bitmap_alloc bm = Inr (int k, bm') \<and> k < bm_size bm \<and> \<not> used bm k \<and>
      (\<forall>j<k. used bm j) \<and> (\<forall>j<bm_size bm. used bm' j \<longleftrightarrow> used bm j \<or> j = k) \<and> bm_inv bm'"
proof (cases "\<forall>j<bm_size bm. used bm j")
  case True
  then have "bm_unused bm = 0" using assms by (simp add: bm_inv_def card_eq_0_iff)
  then show ?thesis using True by (simp add: bitmap_alloc_def)
next
  case False
  then obtain f where f: "f < bm_size bm" "\<not> used bm f" by auto
  then have "bm_unused bm \<noteq> 0" using assms by (auto simp: bm_inv_def card_eq_0_iff)
  have low: "used bm j" if "j < bm_allocation bm" "j < bm_size bm" for j
    using assms that by (simp add: bm_inv_def)
  have wf: "bm_wf bm" using assms by (simp add: bm_inv_def)
  show ?thesis using wf \<open>bm_unused bm \<noteq> 0\<close>
  proof (cases rule: bitmap_alloc_cases)
    case none
    have "f < 64 * ((bm_size bm + 63) div 64)" using f by simp
    then show ?thesis using none(2) [of f] f low [of f] by (meson less_imp_le not_le)
  next
    case (some k)
    let ?bm = "bm\<lparr>bm_map := (bm_map bm)[k div 64 := bm_map bm ! (k div 64) OR push_bit (k mod 64) 1],
           bm_unused := bm_unused bm - 1, bm_allocation := k + 1\<rparr>"
    have k: "k < bm_size bm" "\<forall>j<k. used bm j"
      using some(6) [of f] f low some(3) by (metis le_less_trans linorder_neqE_nat not_le)
        (metis some(3,6) low not_le order.strict_trans2)
    have u: "used ?bm j \<longleftrightarrow> used bm j \<or> j = k" if "j < bm_size bm" for j
      using used_set [OF some(4), of "k mod 64" j] that wf by (simp add: bm_wf_def)
    have "bm_inv ?bm"
      using assms card_clear_set [OF k(1) some(5) u] u k(2) by (auto simp: bm_inv_def bm_wf_def less_Suc_eq)
    then show ?thesis using False some(1,5) k u by auto
  qed
qed


lemma bitmap_init_inv:
  assumes "size_bits \<le> 64 * length mp"
  shows "bm_inv (bitmap_init mp size_bits) \<and> (\<forall>k < size_bits. \<not> used (bitmap_init mp size_bits) k)"
proof -
  have "\<not> used (bitmap_init mp size_bits) k" if "k < size_bits" for k
  proof -
    have "k div 64 < length mp" using that assms by auto
    moreover have "size_bits \<le> 8 * ((size_bits + 7) div 8)" by simp
    then have "64 * (k div 64) + k mod 64 < 8 * ((size_bits + 7) div 8)"
      using that unfolding mult_div_mod_eq by linarith
    then have "k mod 64 < 8 * ((size_bits + 7) div 8 - 8 * (k div 64))"
      unfolding diff_mult_distrib2 by linarith
    ultimately show ?thesis by (simp add: used_def bitmap_init_def clear_bytes_def bit_simps)
  qed
  then have free: "\<forall>k < size_bits. \<not> used (bitmap_init mp size_bits) k" by blast
  then have "{k. k < size_bits \<and> \<not> used (bitmap_init mp size_bits) k} = {..<size_bits}" by auto
  then show ?thesis using assms free
    by (simp add: bm_inv_def bm_wf_def) (simp add: bitmap_init_def clear_bytes_def)
qed

theorem bitmap_alloc_correct_witness:
  "\<exists>k bm'. bitmap_alloc (bitmap_init [7] 3) = Inr (int k, bm') \<and> k < 3 \<and> bm_inv bm'"
proof -
  let ?bm = "bitmap_init [7] 3"
  have i: "bm_inv ?bm" "\<not> used ?bm 0" "bm_size ?bm = 3"
    using bitmap_init_inv [of 3 "[7]"] by (simp_all add: bitmap_init_def)
  then have "\<not> (\<forall>j<bm_size ?bm. used ?bm j)" by (metis zero_less_numeral)
  then show ?thesis using bitmap_alloc_correct [OF i(1)] i(3) by (metis (no_types, lifting))
qed

text \<open>
  under the allocator invariant, freeing an allocated index clears that bit and no other,
  counts it as unused and keeps the invariant; the index can then be allocated again.  Freeing
  an index out of range changes nothing.
\<close>

theorem bitmap_free_correct:
  assumes "bm_inv bm"
  shows "if 0 \<le> index \<and> index < int (bm_size bm) \<and> used bm (nat index)
    then \<exists>bm'. bitmap_free index bm = Inr bm' \<and> bm_inv bm' \<and> bm_unused bm' = bm_unused bm + 1 \<and>
      (\<forall>j<bm_size bm. used bm' j \<longleftrightarrow> used bm j \<and> j \<noteq> nat index)
    else \<exists>bm'. bitmap_free index bm = Inr bm' \<and> bm_unused bm' = bm_unused bm \<and> bm_map bm' = bm_map bm"
proof (cases "0 \<le> index \<and> index < int (bm_size bm) \<and> used bm (nat index)")
  case True
  define k where "k = nat index"
  have k: "k < bm_size bm" "used bm k" "index = int k" "k div 64 < length (bm_map bm)"
    using True assms by (auto simp: k_def bm_inv_def bm_wf_def)
  define bm' where "bm' = bm\<lparr>bm_map := (bm_map bm)[k div 64 := bm_map bm ! (k div 64) AND NOT (push_bit (k mod 64) 1)],
      bm_unused := bm_unused bm + 1, bm_allocation := min k (bm_allocation bm)\<rparr>"
  have eq: "bitmap_free index bm = Inr bm'"
    using k by (simp add: bitmap_free_def Let_def bm'_def used_def and_push_bit min_def)
  have u: "used bm' j \<longleftrightarrow> used bm j \<and> j \<noteq> k" if "j < bm_size bm" for j
    using used_clear [OF k(4), of "k mod 64" j] that assms by (simp add: bm'_def bm_inv_def bm_wf_def)
  have "int (card {j. j < bm_size bm \<and> \<not> used bm j}) = int (card {j. j < bm_size bm \<and> \<not> used bm' j}) - 1"
    by (rule card_clear_set [OF k(1)]) (use u k in auto)
  then have "bm_inv bm'" using assms u by (auto simp: bm_inv_def bm_wf_def bm'_def)
  then show ?thesis using True eq u by (auto simp: k_def bm'_def)
next
  case False
  then show ?thesis using assms
    by (auto simp: bitmap_free_def Let_def used_def and_push_bit bm_inv_def bm_wf_def)
qed

theorem bitmap_free_correct_witness:
  "\<exists>bm'. bitmap_free 5 (bitmap_init [7] 3) = Inr bm' \<and> bm_unused bm' = 3"
  using bitmap_free_correct [of "bitmap_init [7] 3" 5] bitmap_init_inv [of 3 "[7]"]
  by (auto simp: bitmap_init_def)

text \<open>
  the range test of \<open>bitmap_alloc\<close> is off by one.  When the counter still shows a free bit but
  every bit from \<open>allocation\<close> to \<open>size - 1\<close> is in use, and \<open>size\<close> is not a multiple of 64, the index
  \<open>size\<close> is handed out, although \<open>bitmap_is_free\<close> and \<open>bitmap_free\<close> treat it as out of range.
\<close>

theorem bitmap_alloc_off_by_one:
  assumes "bm_wf bm" "bm_unused bm \<noteq> 0" "bm_allocation bm \<le> bm_size bm"
    and "\<forall>j. bm_allocation bm \<le> j \<and> j < bm_size bm \<longrightarrow> used bm j"
    and "\<not> used bm (bm_size bm)" "bm_size bm mod 64 \<noteq> 0"
  shows "\<exists>bm'. bitmap_alloc bm = Inr (int (bm_size bm), bm') \<and>
    bitmap_is_free (int (bm_size bm)) bm' = Inr (-1) \<and> bitmap_free (int (bm_size bm)) bm' = Inr bm'"
  using assms(1,2)
proof (cases rule: bitmap_alloc_cases)
  case none
  have "64 * (bm_size bm div 64) + 64 \<le> bm_size bm + 63"
    using assms(6) mult_div_mod_eq [of 64 "bm_size bm"] by linarith
  then have "bm_size bm div 64 + 1 \<le> (bm_size bm + 63) div 64" by (simp add: less_eq_div_iff_mult_less_eq)
  then have "bm_size bm < 64 * ((bm_size bm + 63) div 64)" by linarith
  then show ?thesis using none(2) [of "bm_size bm"] assms(3,5) by simp
next
  case (some k)
  then have "k = bm_size bm" using assms(4) by (metis le_neq_implies_less)
  then show ?thesis using some(1) by (simp add: bitmap_is_free_def bitmap_free_def)
qed

text \<open>The situation arises from \<open>bitmap_reset_start\<close> with 1, as the file system does it: bit 0 stays clear
  and is counted as unused, but is never found again.\<close>

theorem bitmap_alloc_off_by_one_witness:
  "\<exists>bm'. bitmap_alloc \<lparr>bm_map = [6], bm_size = 3, bm_unused = 1, bm_allocation = 3\<rparr> = Inr (3, bm')"
proof -
  let ?bm = "\<lparr>bm_map = [6], bm_size = 3, bm_unused = 1, bm_allocation = 3\<rparr>"
  have "\<not> used ?bm 3" by (simp add: used_def)
  moreover have "\<forall>j. bm_allocation ?bm \<le> j \<and> j < bm_size ?bm \<longrightarrow> used ?bm j" by auto
  ultimately show ?thesis using bitmap_alloc_off_by_one [of ?bm] by (simp add: bm_wf_def) blast
qed

end
