(* ===== verification/BuddyRace.thy ===== *)
theory BuddyRace
  imports BuddyRun
begin

text \<open>
  Two cores in the buddy allocator.  \<open>buddy_alloc\<close> stores the order of the page and \<open>alloc_pages\<close> takes the
  reference only after \<open>Buddy.lock\<close> has been released, while \<open>buddy_free\<close> recognises a free buddy
  by its order and a reference count of 0.  The step relation \<open>mm_step\<close> interleaves these stores
  with the operations of another core, and the theorem shows a double allocation.
\<close>

unbundle bit_operations_syntax

section \<open>A race between allocation and freeing\<close>

text \<open>The stores of \<open>alloc_pages\<close> after the critical section, core by core: the block has left the
  lists (\<open>AOrder\<close>), its order is stored (\<open>ARef\<close>), the reference is taken (\<open>AGot\<close>).\<close>

datatype apc = AIdle | AOrder nat nat | ARef nat nat | AGot nat nat

inductive mm_step :: "mm \<times> (nat \<Rightarrow> apc) \<Rightarrow> mm \<times> (nat \<Rightarrow> apc) \<Rightarrow> bool" where
  alloc_locked: "pc c = AIdle \<Longrightarrow> k \<le> MAX_LEVEL_INDEX \<Longrightarrow> alloc_loop k k s = Inr (p, t) \<Longrightarrow>
    mm_step (s, pc) (t, pc(c := AOrder p k))"
| store_order: "pc c = AOrder p k \<Longrightarrow> mm_step (s, pc) (set_order p k s, pc(c := ARef p k))"
| take_ref: "pc c = ARef p k \<Longrightarrow> mm_step (s, pc) (upd_page p get_page s, pc(c := AGot p k))"
| free_block: "pc c = AGot p k \<Longrightarrow> free_pages p s = Inr t \<Longrightarrow> mm_step (s, pc) (t, pc(c := AIdle))"

lemma one_block_left:
  assumes "buddy_inv lo s" "allocated lo s = {(q, 1)}"
  shows "mm_lists s 0 = [] \<and> mm_lists s 1 = [q XOR 2]"
proof -
  have inv: "binv lo {} (ord_of s) (ref_of s) (mm_lists s)" using assms(1) by (simp add: buddy_inv_def)
  have q: "head lo (ord_of s) q" "ord_of s q = 1" "ref_of s q \<noteq> 0" using assms(2) allocated_iff [of q 1 lo s] by auto
  have free: "ref_of s p = 0" if "head lo (ord_of s) p" "p \<noteq> q" for p
    using that assms(2) allocated_iff [of p "ord_of s p" lo s] by auto
  have min: "1 \<le> ord_of s p" if "head lo (ord_of s) p" for p
  proof (rule ccontr)
    assume "\<not> 1 \<le> ord_of s p"
    then have p0: "ord_of s p = 0" by simp
    have b: "head lo (ord_of s) (p XOR 2 ^ 0) \<and> ord_of s (p XOR 2 ^ 0) = 0"
      using smallest_block_has_buddy [OF binv_part [OF inv] that] p0 by simp
    then have "p \<in> set (mm_lists s 0)" "p XOR 2 ^ 0 \<in> set (mm_lists s 0)"
      using binv_list [OF inv, of 0] that p0 q(2) free by (metis bot_nat_0.extremum empty_iff zero_neq_one)+
    then show False using binv_coalesced [OF inv, of 0 p] by simp
  qed
  have b: "head lo (ord_of s) (p XOR 2 ^ 1) \<and> ord_of s (p XOR 2 ^ 1) = 1"
    if "head lo (ord_of s) p" "ord_of s p = 1" for p
    using smallest_block_has_buddy [OF binv_part [OF inv] that(1)] that(2) min by simp
  have ne: "q XOR 2 ^ 1 \<noteq> q"
    using buddy_pair(4) [OF _ refl, of 1 q] part_head_blk(1) [OF binv_part [OF inv] q(1)] q(2) by simp
  have only: "p = q XOR 2 ^ 1" if "p \<in> set (mm_lists s 1)" for p
  proof (rule ccontr)
    assume "p \<noteq> q XOR 2 ^ 1"
    then have "p XOR 2 ^ 1 \<noteq> q" using xor_cancel by metis
    moreover have p: "head lo (ord_of s) p" "ord_of s p = 1" using binv_list [OF inv, of 1 p] that by auto
    ultimately have "p XOR 2 ^ 1 \<in> set (mm_lists s 1)"
      using binv_list [OF inv, of 1 "p XOR 2 ^ 1"] b [OF p] free by auto
    then show False using binv_coalesced [OF inv, of 1 p] that by simp
  qed
  have mem: "q XOR 2 ^ 1 \<in> set (mm_lists s 1)"
    using binv_list [OF inv, of 1 "q XOR 2 ^ 1"] b [OF q(1,2)] free [OF _ ne] by simp
  have d: "distinct (mm_lists s 1)" using inv by (simp add: binv_def)
  have "mm_lists s 1 = [q XOR 2 ^ 1]" by (rule distinct_only [OF d mem only])
  moreover have "p \<notin> set (mm_lists s 0)" for p using binv_list [OF inv, of 0 p] min by fastforce
  then have "mm_lists s 0 = []" by (cases "mm_lists s 0") auto
  ultimately show ?thesis by simp
qed

lemma alloc_single:
  assumes "mm_lists s 0 = p # r" "ref_of s p = 0"
  shows "alloc_loop 0 0 s = Inr (p, s\<lparr>mm_lists := (mm_lists s)(0 := r), mm_free := mm_free s - 1\<rparr>)"
  using assms by (subst alloc_loop.simps) (simp add: MAX_LEVEL_def page_free_ref mm_simps)

lemma alloc_split_pair:
  assumes "mm_lists s 0 = []" "mm_lists s 1 = p # r" "ref_of s p = 0" "find_buddy p 0 = Some b" "ref_of s b = 0"
  shows "alloc_loop 0 0 s = Inr (p, (push_free b 0 (set_order b 0 (s\<lparr>mm_lists := (mm_lists s)(1 := r)\<rparr>)))
    \<lparr>mm_free := mm_free s - 1\<rparr>)"
proof -
  let ?t = "push_free b 0 (set_order b 0 (s\<lparr>mm_lists := (mm_lists s)(1 := r)\<rparr>))"
  have "split_loop p 0 1 (s\<lparr>mm_lists := (mm_lists s)(1 := r)\<rparr>) = Inr ?t"
    using assms(4,5) by (simp add: page_free_ref mm_simps)
  moreover have "page_count (mm_pages ?t p) = 0" using assms(3) by (simp add: page_free_ref mm_simps)
  moreover have "mm_free ?t = mm_free s" by (simp add: mm_simps)
  ultimately have "alloc_loop 0 1 s = Inr (p, ?t\<lparr>mm_free := mm_free s - 1\<rparr>)"
    using assms(2) by (subst alloc_loop.simps) (simp add: MAX_LEVEL_def)
  then show ?thesis using assms(1) by (subst alloc_loop.simps) (simp add: MAX_LEVEL_def)
qed


text \<open>Freeing a page whose lower neighbour looks free with order 0, although it is being allocated:
  the two are merged and the lower one is put on the list of order 1.\<close>

lemma free_merges_pair:
  assumes "ref_of s b = 1" "ord_of s b = 0" "find_buddy b 0 = Some p" "p < b" "ref_of s p = 0" "ord_of s p = 0"
    and "find_buddy p 1 = Some q" "ref_of s q \<noteq> 0" "q \<noteq> p" "q \<noteq> b"
  shows "\<exists>t. free_pages b s = Inr t \<and> ref_of t = (ref_of s)(b := 0) \<and>
    mm_lists t = (\<lambda>k. remove1 p (mm_lists s k))(1 := p # remove1 p (mm_lists s 1))"
proof -
  let ?u = "upd_page b (\<lambda>pg. snd (put_page_test pg)) s"
  let ?v = "unlink_free p (set_order p MAX_LEVEL (set_order b MAX_LEVEL ?u))"
  have u: "ref_of ?u = (ref_of s)(b := 0)" "ord_of ?u = ord_of s" using assms(1) by (simp_all add: mm_simps)
  have "merge_loop p 1 ?v = (p, 1, ?v)"
    using assms(7-10) u by (subst merge_loop.simps) (simp add: MAX_LEVEL_INDEX_def page_free_ref mm_simps)
  moreover have "merge_loop b 0 ?u = merge_loop p 1 ?v"
    using assms(3-6) u by (subst merge_loop.simps) (simp add: MAX_LEVEL_INDEX_def page_free_ref min_def)
  ultimately have m: "merge_loop b 0 ?u = (p, 1, ?v)" by simp
  have "page_count (mm_pages s b) > 0" using assms(1) by (simp add: page_count_def page_free_ref)
  then have "free_pages b s = Inr ((push_free p 1 (set_order p 1 ?v))\<lparr>mm_free := mm_free ?v + 1\<rparr>)"
    using assms(1,2) m u by (simp add: free_pages_def buddy_free_def page_free_ref Let_def mm_simps)
  then show ?thesis using u by (simp add: mm_simps push_free_def fun_eq_iff)
qed

text \<open>The schedule: core 0 allocates p up to the order store, core 1 allocates b and frees it again and then
  allocates p, and only then does core 0 take its reference.\<close>

lemma race_schedule:
  assumes "alloc_loop 0 0 s = Inr (p, s1)" "alloc_loop 0 0 s1 = Inr (b, s2)"
    and "free_pages b (set_order p 0 (upd_page b get_page (set_order b 0 s2))) = Inr s6"
    and "alloc_loop 0 0 s6 = Inr (p, s7)"
  shows "\<exists>t pc. mm_step\<^sup>*\<^sup>* (s, \<lambda>_. AIdle) (t, pc) \<and> pc 0 = AGot p 0 \<and> pc 1 = AGot p 0"
proof -
  define run where "run = mm_step\<^sup>*\<^sup>* (s, \<lambda>_. AIdle)"
  have step: "run x \<Longrightarrow> mm_step x y \<Longrightarrow> run y" for x y unfolding run_def by (rule rtranclp.rtrancl_into_rtrancl)
  let ?i = "(\<lambda>_. AIdle) :: nat \<Rightarrow> apc"
  have "run (s, ?i)" by (simp add: run_def)
  from step [OF this alloc_locked [of _ 0 0, OF _ _ assms(1)]] have "run (s1, ?i(0 := AOrder p 0))" by simp
  from step [OF this alloc_locked [of _ 1 0, OF _ _ assms(2)]] have "run (s2, ?i(0 := AOrder p 0, 1 := AOrder b 0))" by simp
  from step [OF this store_order [of _ 1 b 0]]
  have "run (set_order b 0 s2, ?i(0 := AOrder p 0, 1 := ARef b 0))" by simp
  from step [OF this take_ref [of _ 1 b 0]]
  have "run (upd_page b get_page (set_order b 0 s2), ?i(0 := AOrder p 0, 1 := AGot b 0))" by simp
  from step [OF this store_order [of _ 0 p 0]]
  have "run (set_order p 0 (upd_page b get_page (set_order b 0 s2)), ?i(1 := AGot b 0, 0 := ARef p 0))"
    by (simp add: fun_upd_twist)
  from step [OF this free_block [of _ 1 b 0, OF _ assms(3)]] have "run (s6, ?i(1 := AGot b 0, 0 := ARef p 0, 1 := AIdle))" by simp
  from step [OF this alloc_locked [of _ 1 0, OF _ _ assms(4)]]
  have "run (s7, ?i(1 := AGot b 0, 0 := ARef p 0, 1 := AOrder p 0))" by simp
  from step [OF this store_order [of _ 1 p 0]]
  have "run (set_order p 0 s7, ?i(1 := AGot b 0, 0 := ARef p 0, 1 := ARef p 0))" by simp
  from step [OF this take_ref [of _ 1 p 0]]
  have "run (upd_page p get_page (set_order p 0 s7), ?i(1 := AGot b 0, 0 := ARef p 0, 1 := AGot p 0))" by simp
  from step [OF this take_ref [of _ 0 p 0]]
  have "run (upd_page p get_page (upd_page p get_page (set_order p 0 s7)),
      ?i(1 := AGot b 0, 0 := ARef p 0, 1 := AGot p 0, 0 := AGot p 0))" by simp
  then show ?thesis unfolding run_def by (intro exI conjI) (assumption, simp_all)
qed

text \<open>
  C23: \<open>alloc_pages\<close> is not safe against a concurrent \<open>free_pages\<close>.  From every consistent state in which
  one two-page block is allocated there is an interleaving of two cores after which both have
  returned from \<open>alloc_pages\<close> with the same page.  Core 0 has taken the page but not yet its
  reference when core 1 frees the neighbour: \<open>buddy_free\<close> takes the page for a free buddy and
  puts it back on a free list.
\<close>

theorem alloc_pages_race:
  assumes "buddy_inv lo s" "allocated lo s = {(q, 1)}"
  shows "\<exists>t pc. mm_step\<^sup>*\<^sup>* (s, \<lambda>_. AIdle) (t, pc) \<and> pc 0 = AGot (q XOR 2) 0 \<and> pc 1 = AGot (q XOR 2) 0"
proof -
  define p b where "p = q XOR 2" and "b = p + 1"
  have inv: "binv lo {} (ord_of s) (ref_of s) (mm_lists s)" using assms(1) by (simp add: buddy_inv_def)
  have l: "mm_lists s 0 = []" "mm_lists s 1 = [p]" using one_block_left [OF assms] by (simp_all add: p_def)
  have q: "head lo (ord_of s) q" "ord_of s q = 1" "ref_of s q \<noteq> 0" using assms(2) allocated_iff [of q 1 lo s] by auto
  have p: "head lo (ord_of s) p" "ord_of s p = 1" "ref_of s p = 0" using binv_list [OF inv, of 1 p] l(2) by auto
  have "ord_of s p = Suc 0" using p(2) by simp
  note sp = part_split [OF binv_part [OF inv] p(1) this, simplified, folded One_nat_def]
  have b: "p XOR 1 = b" "ord_of s b = 11" "lo \<le> b" "b < ALL_PFN"
    using sp(2-4) by (auto simp: b_def head_def)
  have rb: "ref_of s b = 0" using inv b(2-4) unfolding binv_def by blast
  have fb: "find_buddy p 0 = Some b" "find_buddy b 0 = Some p" "find_buddy p 1 = Some q"
    using b(1,4) p(1) q(1) xor_cancel [of p 0 b] xor_cancel [of q 1 p] by (auto simp: find_buddy_def head_def p_def)
  have ne: "q \<noteq> p" "q \<noteq> b" "b \<noteq> p" "p < b" using p(3) q(3) rb by (auto simp: b_def)
  define s1 where "s1 = (push_free b 0 (set_order b 0 (s\<lparr>mm_lists := (mm_lists s)(1 := [])\<rparr>)))\<lparr>mm_free := mm_free s - 1\<rparr>"
  have a1: "alloc_loop 0 0 s = Inr (p, s1)" using alloc_split_pair [OF l p(3) fb(1) rb] by (simp add: s1_def)
  have s1: "mm_lists s1 0 = [b]" "mm_lists s1 1 = []" "ref_of s1 = ref_of s" "ord_of s1 = (ord_of s)(b := 0)"
    using l by (simp_all add: s1_def mm_simps push_free_def)
  define s2 where "s2 = s1\<lparr>mm_lists := (mm_lists s1)(0 := []), mm_free := mm_free s1 - 1\<rparr>"
  have a2: "alloc_loop 0 0 s1 = Inr (b, s2)" using alloc_single [of s1 b "[]"] s1(1,3) rb by (simp add: s2_def)
  define s5 where "s5 = set_order p 0 (upd_page b get_page (set_order b 0 s2))"
  have s5: "mm_lists s5 0 = []" "mm_lists s5 1 = []" "ref_of s5 = (ref_of s)(b := 1)"
    "ord_of s5 = (ord_of s)(b := 0, p := 0)"
    using s1 rb ne by (auto simp: s5_def s2_def mm_simps)
  obtain s6 where s6: "free_pages b s5 = Inr s6" "ref_of s6 = (ref_of s)(b := 0)"
    "mm_lists s6 = (\<lambda>k. remove1 p (mm_lists s5 k))(1 := p # remove1 p (mm_lists s5 1))"
    using free_merges_pair [of s5 b p q] fb s5 ne p(3) q(3) rb by auto
  have "mm_lists s6 0 = []" "mm_lists s6 1 = [p]" using s6(3) s5 by simp_all
  then obtain s7 where a7: "alloc_loop 0 0 s6 = Inr (p, s7)"
    using alloc_split_pair [of s6 p "[]" b] fb(1) s6(2) p(3) rb by auto
  show ?thesis using race_schedule [OF a1 a2 s6(1) [unfolded s5_def] a7] unfolding p_def by blast
qed


theorem alloc_pages_race_witness:
  "\<exists>s q t pc. alloc_pages 1 (mm_init 1500 blank_mm) = Inr (q, s) \<and>
    mm_step\<^sup>*\<^sup>* (s, \<lambda>_. AIdle) (t, pc) \<and> pc 0 = AGot (q XOR 2) 0 \<and> pc 1 = AGot (q XOR 2) 0"
proof -
  have "\<exists>k. 1 \<le> k \<and> k \<le> 10 \<and> mm_lists (mm_init 1500 blank_mm) k \<noteq> []"
    using mm_init_example(3) by (intro exI [of _ 10]) simp
  then obtain q s where s: "alloc_pages 1 (mm_init 1500 blank_mm) = Inr (q, s)" "buddy_inv 2048 s"
    "allocated 2048 s = {(q, 1)}"
    using alloc_pages_success [OF mm_init_example(1), of 1] mm_init_example(2) by auto
  show ?thesis using alloc_pages_race [OF s(2,3)] s(1) by blast
qed

end
