(* ===== verification/Spinlock.thy ===== *)
theory Spinlock
  imports Prelude
begin

text \<open>
  kernel/locks/spinlock.c: the nesting of interrupt disabling on a core, and spin locks under arbitrary
  interleaving of the cores.  Every access to a shared variable of \<open>spin_lock\<close> and \<open>spin_unlock\<close> is a step of its own; the
  atomic swap is one step.

  Balanced uses of \<open>push_off\<close> and \<open>pop_off\<close> restore the interrupt state, and at most one core is between \<open>spin_lock\<close> and
  \<open>spin_unlock\<close>, with its interrupts off.
\<close>

section \<open>Interrupt nesting\<close>

text \<open>The part of \<open>struct cpu\<close> used here; \<open>cp_intr\<close> is the interrupt enable bit of the core, read by \<open>intr_get\<close> and
  written by \<open>intr_on\<close> and \<open>intr_off\<close>.\<close>

record cpu =
  cp_noff :: int
  cp_intena :: bool
  cp_intr :: bool

definition push_off :: "cpu \<Rightarrow> cpu" where
  "push_off c =
    (let old = cp_intr c;
         c1 = c\<lparr>cp_intr := False\<rparr>;
         c2 = (if cp_noff c1 = 0 then c1\<lparr>cp_intena := old\<rparr> else c1)
     in c2\<lparr>cp_noff := cp_noff c2 + 1\<rparr>)"

definition pop_off :: "cpu \<Rightarrow> cpu kres" where
  "pop_off c =
    (if cp_intr c then Inl (Panic ''pop_off: intr on'')
     else if cp_noff c < 1 then Inl (Panic ''pop_off: noff'')
     else let c1 = c\<lparr>cp_noff := cp_noff c - 1\<rparr>
          in Inr (if cp_noff c1 = 0 \<and> cp_intena c1 then c1\<lparr>cp_intr := True\<rparr> else c1))"

text \<open>A run of \<open>push_off\<close> (\<open>True\<close>) and \<open>pop_off\<close> (\<open>False\<close>) calls on a core.\<close>

primrec off_run :: "bool list \<Rightarrow> cpu \<Rightarrow> cpu kres" where
  "off_run [] c = Inr c"
| "off_run (b # bs) c = (if b then off_run bs (push_off c) else kbind (pop_off c) (off_run bs))"

text \<open>The depth after a run; a run is matched when no \<open>pop_off\<close> comes without its \<open>push_off\<close>.\<close>

fun off_depth :: "bool list \<Rightarrow> nat \<Rightarrow> nat option" where
  "off_depth [] d = Some d"
| "off_depth (True # bs) d = off_depth bs (Suc d)"
| "off_depth (False # bs) 0 = None"
| "off_depth (False # bs) (Suc d) = off_depth bs d"

definition off_state :: "bool \<Rightarrow> nat \<Rightarrow> cpu \<Rightarrow> bool" where
  "off_state on d c = (cp_noff c = int d \<and> cp_intr c = (on \<and> d = 0) \<and> (0 < d \<longrightarrow> cp_intena c = on))"

lemma push_off_state: "off_state on d c \<Longrightarrow> off_state on (Suc d) (push_off c)"
  by (auto simp: off_state_def push_off_def Let_def)

lemma pop_off_state: "off_state on (Suc d) c \<Longrightarrow> \<exists>c1. pop_off c = Inr c1 \<and> off_state on d c1"
  by (auto simp: off_state_def pop_off_def Let_def)

lemma off_run_state:
  "off_state on d c \<Longrightarrow> off_depth bs d = Some e \<Longrightarrow> \<exists>c1. off_run bs c = Inr c1 \<and> off_state on e c1"
proof (induction bs arbitrary: d c)
  case (Cons b bs)
  show ?case
  proof (cases b)
    case True
    then show ?thesis using Cons.IH [OF push_off_state [OF Cons.prems(1)]] Cons.prems(2) by simp
  next
    case False
    then obtain d' where d: "d = Suc d'" using Cons.prems(2) by (cases d) auto
    then obtain c1 where "pop_off c = Inr c1" "off_state on d' c1" using pop_off_state Cons.prems(1) by blast
    then show ?thesis using Cons.IH [of d' c1] Cons.prems(2) False d by simp
  qed
qed simp

text \<open>
  C31: matched \<open>push_off\<close> and \<open>pop_off\<close> calls on a core never panic; interrupts are off while at least one
  \<open>push_off\<close> is open, and when all are closed the core is back in the interrupt state it started in.
\<close>

theorem push_pop_nesting:
  assumes "cp_noff c = 0" "off_depth bs 0 = Some d"
  shows "\<exists>c1. off_run bs c = Inr c1 \<and> cp_noff c1 = int d \<and> cp_intr c1 = (cp_intr c \<and> d = 0)"
proof -
  have "off_state (cp_intr c) 0 c" using assms(1) by (simp add: off_state_def)
  then show ?thesis using off_run_state [OF _ assms(2)] by (auto simp: off_state_def)
qed

theorem push_pop_nesting_witness:
  "\<exists>c1. off_run [True, True, False, False] \<lparr>cp_noff = 0, cp_intena = False, cp_intr = True\<rparr> = Inr c1 \<and>
    cp_noff c1 = 0 \<and> cp_intr c1"
  using push_pop_nesting [of "\<lparr>cp_noff = 0, cp_intena = False, cp_intr = True\<rparr>" "[True, True, False, False]" 0] by simp

section \<open>Spin locks\<close>

text \<open>Program points of a core: outside, spinning on the swap, past the swap, inside the critical section, and
  before the release.\<close>

datatype spin_pc = SOut | SSpin | SGot | SIn | SRel | SPanic

record spin_sys =
  sp_lock :: int
  sp_cpuid :: int
  sp_cpu :: "nat \<Rightarrow> cpu"
  sp_pc :: "nat \<Rightarrow> spin_pc"

definition SPIN_UNLOCKED :: int where "SPIN_UNLOCKED = 0"
definition SPIN_LOCKED :: int where "SPIN_LOCKED = 1"

definition spin_init :: "spin_sys \<Rightarrow> spin_sys" where
  "spin_init s = s\<lparr>sp_lock := SPIN_UNLOCKED, sp_cpuid := -1\<rparr>"

definition holding :: "nat \<Rightarrow> spin_sys \<Rightarrow> bool" where
  "holding c s = (sp_lock s = SPIN_LOCKED \<and> sp_cpuid s = int c)"

definition goto :: "nat \<Rightarrow> spin_pc \<Rightarrow> spin_sys \<Rightarrow> spin_sys" where
  "goto c p s = s\<lparr>sp_pc := (sp_pc s)(c := p)\<rparr>"

text \<open>One step of core \<open>c\<close> in \<open>spin_lock\<close>.\<close>

definition spin_lock :: "nat \<Rightarrow> spin_sys \<Rightarrow> spin_sys" where
  "spin_lock c s = (case sp_pc s c of
      SOut \<Rightarrow> let s1 = s\<lparr>sp_cpu := (sp_cpu s)(c := push_off (sp_cpu s c))\<rparr>
              in goto c (if holding c s1 then SPanic else SSpin) s1
    | SSpin \<Rightarrow> goto c (if sp_lock s \<noteq> 0 then SSpin else SGot) (s\<lparr>sp_lock := SPIN_LOCKED\<rparr>)
    | SGot \<Rightarrow> goto c SIn (s\<lparr>sp_cpuid := int c\<rparr>)
    | _ \<Rightarrow> s)"

text \<open>One step of core \<open>c\<close> in \<open>spin_unlock\<close>.\<close>

definition spin_unlock :: "nat \<Rightarrow> spin_sys \<Rightarrow> spin_sys" where
  "spin_unlock c s = (case sp_pc s c of
      SIn \<Rightarrow> if \<not> holding c s then goto c SPanic s else goto c SRel (s\<lparr>sp_cpuid := -1\<rparr>)
    | SRel \<Rightarrow> (let s1 = s\<lparr>sp_lock := SPIN_UNLOCKED\<rparr> in case pop_off (sp_cpu s1 c) of
          Inl e \<Rightarrow> goto c SPanic s1
        | Inr k \<Rightarrow> goto c SOut (s1\<lparr>sp_cpu := (sp_cpu s1)(c := k)\<rparr>))
    | _ \<Rightarrow> s)"

inductive spin_reach :: "spin_sys \<Rightarrow> spin_sys \<Rightarrow> bool" for s0 where
  spin_start: "spin_reach s0 (spin_init s0)"
| spin_lock_step: "spin_reach s0 s \<Longrightarrow> spin_reach s0 (spin_lock c s)"
| spin_unlock_step: "spin_reach s0 s \<Longrightarrow> spin_reach s0 (spin_unlock c s)"

definition spin_crit :: "spin_sys \<Rightarrow> nat \<Rightarrow> bool" where
  "spin_crit s c = (sp_pc s c \<in> {SGot, SIn, SRel})"

fun pc_depth :: "spin_pc \<Rightarrow> nat" where
  "pc_depth SOut = 0"
| "pc_depth SSpin = 1"
| "pc_depth SGot = 1"
| "pc_depth SIn = 1"
| "pc_depth SRel = 1"
| "pc_depth SPanic = 1"

definition spin_inv :: "(nat \<Rightarrow> bool) \<Rightarrow> spin_sys \<Rightarrow> bool" where
  "spin_inv on s = ((\<forall>c. sp_pc s c \<noteq> SPanic) \<and> sp_lock s \<in> {0, 1} \<and>
    (\<forall>c. spin_crit s c \<longrightarrow> sp_lock s = 1) \<and>
    (\<forall>c d. spin_crit s c \<longrightarrow> spin_crit s d \<longrightarrow> c = d) \<and>
    (\<forall>c. sp_cpuid s = int c \<longleftrightarrow> sp_pc s c = SIn) \<and>
    (\<forall>c. off_state (on c) (pc_depth (sp_pc s c)) (sp_cpu s c)))"

lemma spin_invD:
  assumes "spin_inv on s"
  shows "off_state (on c) (pc_depth (sp_pc s c)) (sp_cpu s c)" "sp_cpuid s = int c \<longleftrightarrow> sp_pc s c = SIn"
    "spin_crit s c \<Longrightarrow> spin_crit s d \<Longrightarrow> c = d" "spin_crit s c \<Longrightarrow> sp_lock s = 1" "sp_pc s c \<noteq> SPanic"
    "sp_lock s \<in> {0, 1}"
  using assms by (auto simp: spin_inv_def)

text \<open>A step moves one core and may change the lock words.\<close>

lemma spin_inv_move:
  assumes "spin_inv on s" "p \<noteq> SPanic" "l \<in> {0, 1}" "off_state (on c) (pc_depth p) k"
    and "\<And>d. d \<noteq> c \<Longrightarrow> spin_crit s d \<Longrightarrow> l = 1 \<and> p \<notin> {SGot, SIn, SRel}" "p \<in> {SGot, SIn, SRel} \<Longrightarrow> l = 1"
    and "\<And>d. u = int d \<longleftrightarrow> (if d = c then p = SIn else sp_pc s d = SIn)"
  shows "spin_inv on (s\<lparr>sp_lock := l, sp_cpuid := u, sp_cpu := (sp_cpu s)(c := k), sp_pc := (sp_pc s)(c := p)\<rparr>)"
    (is "spin_inv on ?t")
proof -
  have cr: "spin_crit ?t d \<longleftrightarrow> (if d = c then p \<in> {SGot, SIn, SRel} else spin_crit s d)" for d
    by (simp add: spin_crit_def)
  have "\<forall>d. sp_pc ?t d \<noteq> SPanic" using spin_invD(5) [OF assms(1)] assms(2) by simp
  moreover have "\<forall>d. spin_crit ?t d \<longrightarrow> sp_lock ?t = 1" using assms(5,6) by (simp add: cr) blast
  moreover have "\<forall>d e. spin_crit ?t d \<longrightarrow> spin_crit ?t e \<longrightarrow> d = e"
    unfolding cr using spin_invD(3) [OF assms(1)] assms(5) by metis
  moreover have "\<forall>d. sp_cpuid ?t = int d \<longleftrightarrow> sp_pc ?t d = SIn" using assms(7) by simp
  moreover have "\<forall>d. off_state (on d) (pc_depth (sp_pc ?t d)) (sp_cpu ?t d)"
    using assms(4) spin_invD(1) [OF assms(1)] by simp
  ultimately show ?thesis using assms(3) by (simp add: spin_inv_def)
qed

lemma spin_lock_inv:
  assumes "spin_inv on s"
  shows "spin_inv on (spin_lock c s)"
proof (cases "sp_pc s c")
  case SOut
  have "off_state (on c) 0 (sp_cpu s c)" using spin_invD(1) [OF assms, of c] SOut by simp
  then have o: "off_state (on c) 1 (push_off (sp_cpu s c))" using push_off_state [of "on c" 0] by simp
  have n: "sp_cpuid s \<noteq> int c" using spin_invD(2) [OF assms, of c] SOut by simp
  have "spin_inv on (s\<lparr>sp_lock := sp_lock s, sp_cpuid := sp_cpuid s, sp_cpu := (sp_cpu s)(c := push_off (sp_cpu s c)),
      sp_pc := (sp_pc s)(c := SSpin)\<rparr>)"
    by (rule spin_inv_move [OF assms]) (use o n spin_invD [OF assms] in auto)
  then show ?thesis using SOut n by (simp add: spin_lock_def goto_def Let_def holding_def)
next
  case SSpin
  have o: "off_state (on c) 1 (sp_cpu s c)" using spin_invD(1) [OF assms, of c] SSpin by simp
  have u: "sp_cpuid s = int d \<longleftrightarrow> (if d = c then False else sp_pc s d = SIn)" for d
    using spin_invD(2) [OF assms, of d] SSpin by simp
  define p where "p = (if sp_lock s \<noteq> 0 then SSpin else SGot)"
  have "spin_inv on (s\<lparr>sp_lock := 1, sp_cpuid := sp_cpuid s, sp_cpu := (sp_cpu s)(c := sp_cpu s c),
      sp_pc := (sp_pc s)(c := p)\<rparr>)"
  proof (rule spin_inv_move [OF assms])
    show "1 = (1::int) \<and> p \<notin> {SGot, SIn, SRel}" if "spin_crit s d" for d
      using spin_invD(4) [OF assms that] by (simp add: p_def)
  qed (use o u in \<open>auto simp: p_def\<close>)
  then show ?thesis using SSpin by (simp add: spin_lock_def goto_def SPIN_LOCKED_def p_def)
next
  case SGot
  have c: "spin_crit s c" using SGot by (simp add: spin_crit_def)
  have o: "off_state (on c) 1 (sp_cpu s c)" using spin_invD(1) [OF assms, of c] SGot by simp
  have n: "\<not> spin_crit s d" if "d \<noteq> c" for d using spin_invD(3) [OF assms c, of d] that by blast
  have "spin_inv on (s\<lparr>sp_lock := sp_lock s, sp_cpuid := int c, sp_cpu := (sp_cpu s)(c := sp_cpu s c),
      sp_pc := (sp_pc s)(c := SIn)\<rparr>)"
  proof (rule spin_inv_move [OF assms])
    show "int c = int d \<longleftrightarrow> (if d = c then SIn = SIn else sp_pc s d = SIn)" for d
      using n [of d] by (auto simp: spin_crit_def)
  qed (use o n spin_invD(4) [OF assms c] in auto)
  then show ?thesis using SGot by (simp add: spin_lock_def goto_def)
qed (use assms in \<open>simp_all add: spin_lock_def\<close>)

lemma spin_unlock_inv:
  assumes "spin_inv on s"
  shows "spin_inv on (spin_unlock c s)"
proof (cases "sp_pc s c")
  case SIn
  have c: "spin_crit s c" using SIn by (simp add: spin_crit_def)
  have o: "off_state (on c) 1 (sp_cpu s c)" using spin_invD(1) [OF assms, of c] SIn by simp
  have n: "\<not> spin_crit s d" if "d \<noteq> c" for d using spin_invD(3) [OF assms c, of d] that by blast
  have h: "holding c s" using spin_invD(2,4) [OF assms, of c] SIn c by (simp add: holding_def SPIN_LOCKED_def)
  have "spin_inv on (s\<lparr>sp_lock := sp_lock s, sp_cpuid := -1, sp_cpu := (sp_cpu s)(c := sp_cpu s c),
      sp_pc := (sp_pc s)(c := SRel)\<rparr>)"
  proof (rule spin_inv_move [OF assms])
    show "- 1 = int d \<longleftrightarrow> (if d = c then SRel = SIn else sp_pc s d = SIn)" for d
      using n [of d] by (auto simp: spin_crit_def)
  qed (use o n spin_invD(4) [OF assms c] in auto)
  then show ?thesis using SIn h by (simp add: spin_unlock_def goto_def)
next
  case SRel
  have c: "spin_crit s c" using SRel by (simp add: spin_crit_def)
  have n: "\<not> spin_crit s d" if "d \<noteq> c" for d using spin_invD(3) [OF assms c, of d] that by blast
  have "off_state (on c) (Suc 0) (sp_cpu s c)" using spin_invD(1) [OF assms, of c] SRel by simp
  from pop_off_state [OF this] obtain k where k: "pop_off (sp_cpu s c) = Inr k" "off_state (on c) 0 k" by blast
  have "spin_inv on (s\<lparr>sp_lock := 0, sp_cpuid := sp_cpuid s, sp_cpu := (sp_cpu s)(c := k), sp_pc := (sp_pc s)(c := SOut)\<rparr>)"
  proof (rule spin_inv_move [OF assms])
    show "sp_cpuid s = int d \<longleftrightarrow> (if d = c then SOut = SIn else sp_pc s d = SIn)" for d
      using spin_invD(2) [OF assms, of d] SRel by simp
  qed (use k n in auto)
  then show ?thesis using SRel k(1) by (simp add: spin_unlock_def goto_def Let_def SPIN_UNLOCKED_def)
qed (use assms in \<open>simp_all add: spin_unlock_def\<close>)

lemma spin_reach_inv:
  assumes "spin_reach s0 s" "\<forall>c. sp_pc s0 c = SOut" "\<forall>c. cp_noff (sp_cpu s0 c) = 0"
  shows "spin_inv (\<lambda>c. cp_intr (sp_cpu s0 c)) s"
  using assms(1)
proof (induction rule: spin_reach.induct)
  case spin_start
  then show ?case using assms(2,3)
    by (simp add: spin_init_def spin_inv_def spin_crit_def SPIN_UNLOCKED_def off_state_def)
qed (rule spin_lock_inv spin_unlock_inv; assumption)+

text \<open>
  C24: spin locks give mutual exclusion under every interleaving of any number of cores.  No two cores are
  past the swap of \<open>spin_lock\<close> and before the release of \<open>spin_unlock\<close>, neither function panics, and a core in its
  critical section has interrupts off.
\<close>

theorem spin_mutual_exclusion:
  assumes "spin_reach s0 s" "\<forall>c. sp_pc s0 c = SOut" "\<forall>c. cp_noff (sp_cpu s0 c) = 0"
  shows "(\<forall>c d. spin_crit s c \<longrightarrow> spin_crit s d \<longrightarrow> c = d) \<and> (\<forall>c. sp_pc s c \<noteq> SPanic) \<and>
    (\<forall>c. spin_crit s c \<longrightarrow> \<not> cp_intr (sp_cpu s c))"
proof -
  note inv = spin_reach_inv [OF assms]
  have "\<not> cp_intr (sp_cpu s c)" if "spin_crit s c" for c
    using spin_invD(1) [OF inv, of c] that by (auto simp: off_state_def spin_crit_def)
  then show ?thesis using spin_invD(3,5) [OF inv] by blast
qed

theorem spin_mutual_exclusion_witness:
  "let s0 = \<lparr>sp_lock = 7, sp_cpuid = 3, sp_cpu = (\<lambda>_. \<lparr>cp_noff = 0, cp_intena = False, cp_intr = True\<rparr>), sp_pc = (\<lambda>_. SOut)\<rparr>;
       s = spin_lock 1 (spin_lock 0 (spin_lock 0 (spin_lock 1 (spin_lock 0 (spin_init s0)))))
   in spin_reach s0 s \<and> sp_pc s 0 = SIn \<and> sp_pc s 1 = SSpin \<and> \<not> cp_intr (sp_cpu s 0)"
proof -
  let ?init = "\<lparr>sp_lock = 7, sp_cpuid = 3, sp_cpu = (\<lambda>_. \<lparr>cp_noff = 0, cp_intena = False, cp_intr = True\<rparr>), sp_pc = (\<lambda>_. SOut)\<rparr>"
  let ?s = "spin_lock 1 (spin_lock 0 (spin_lock 0 (spin_lock 1 (spin_lock 0 (spin_init ?init)))))"
  have r: "spin_reach ?init ?s" by (intro spin_reach.intros)
  have p: "sp_pc ?s 0 = SIn" "sp_pc ?s 1 = SSpin"
    by (simp_all add: spin_lock_def spin_init_def goto_def Let_def holding_def push_off_def SPIN_LOCKED_def SPIN_UNLOCKED_def)
  have "\<not> cp_intr (sp_cpu ?s 0)" using spin_mutual_exclusion [OF r] p(1) by (simp add: spin_crit_def)
  then show ?thesis using r p by (simp only: Let_def simp_thms)
qed

end
