(* ===== verification/Sched.thy ===== *)
theory Sched
  imports Fifo Slab
begin

text \<open>
  include/core/proc.h and kernel/proc/sched.c: threads, the run queues of the cores and the scheduler.  A thread is named by
  its address; 0 is the null pointer.  Here a call of \<open>yield\<close>, \<open>do_pause\<close>, \<open>wakeup_process\<close> and a round of \<open>scheduler\<close> is one step, as
  it runs when nothing interferes between its locked sections, and a context switch is the change of the current thread of the core.  SchedLocks.thy
  takes the calls apart into their locked sections and proves that the sections in a row are the operations of this theory.

  \<open>sched_inv\<close> holds between the calls: each runnable thread is on exactly one run queue, each running thread is
  current on exactly one core.  A waiting thread is overtaken by at most as many dispatches as there are threads behind it in the queue.
\<close>

section \<open>Threads\<close>

datatype task_state = UNUSED | USED | SLEEPING | RUNNABLE | RUNNING | ZOMBIE | IDLE

text \<open>include/core/locks/semaphore.h; the waiters are threads, queued by their member \<open>sched\<close>.\<close>

record semaphore =
  sem_value :: u32
  sem_waiters :: "addr fifo"

record thread_info =
  ti_tid :: int
  ti_task :: addr
  ti_flags :: u32
  ti_state :: task_state
  ti_pid :: int
  ti_ticks :: u64
  ti_parent :: addr
  ti_child :: "addr list"
  ti_child_exit_sem :: semaphore
  ti_tf :: addr
  ti_func :: addr
  ti_args :: addr
  ti_cpu_affinity :: int
  ti_cpu_id :: nat
  ti_exit_code :: int

record sched =
  ss_th :: "addr \<Rightarrow> thread_info"
  ss_run :: "nat \<Rightarrow> addr list"
  ss_out :: "nat \<Rightarrow> addr list"
  ss_cur :: "nat \<Rightarrow> addr"
  ss_load :: int

definition NO_CPU_AFF :: int where "NO_CPU_AFF = -1"

definition upd_th :: "addr \<Rightarrow> (thread_info \<Rightarrow> thread_info) \<Rightarrow> sched \<Rightarrow> sched" where
  "upd_th t f s = s\<lparr>ss_th := (ss_th s)(t := f (ss_th s t))\<rparr>"

section \<open>Operations\<close>

definition sched_init :: "sched \<Rightarrow> sched" where
  "sched_init s = foldl (\<lambda>s i. s\<lparr>ss_run := (ss_run s)(i := []), ss_out := (ss_out s)(i := [])\<rparr>) s [0..<NCPU]"

text \<open>The first runnable thread from the tail of the queue; 0 when there is none.\<close>

definition pick_next_task :: "sched \<Rightarrow> addr list \<Rightarrow> addr" where
  "pick_next_task s run_list =
    (if run_list = [] then 0
     else case find (\<lambda>t. ti_state (ss_th s t) = RUNNABLE) (rev run_list) of None \<Rightarrow> 0 | Some t \<Rightarrow> t)"

definition add_runnable_task :: "addr \<Rightarrow> sched \<Rightarrow> sched" where
  "add_runnable_task t s =
    (let aff = ti_cpu_affinity (ss_th s t);
         (cpuid, s1) = (if aff = NO_CPU_AFF
           then let l = (ss_load s + 1) mod int NCPU in (nat l, s\<lparr>ss_load := l\<rparr>)
           else (nat aff, s))
     in s1\<lparr>ss_run := (ss_run s1)(cpuid := t # ss_run s1 cpuid)\<rparr>)"

text \<open>\<open>sched\<close>: the current thread of core \<open>c\<close> gives the core back to the scheduler, which clears the current thread.\<close>

definition sched_out :: "nat \<Rightarrow> sched \<Rightarrow> sched kres" where
  "sched_out c s =
    (if ti_state (ss_th s (ss_cur s c)) = RUNNING then Inl (Panic ''sched: is running'')
     else Inr (s\<lparr>ss_cur := (ss_cur s)(c := 0)\<rparr>))"

definition yield :: "nat \<Rightarrow> sched \<Rightarrow> sched kres" where
  "yield c s =
    (let t = ss_cur s c;
         s1 = upd_th t (\<lambda>x. x\<lparr>ti_ticks := 10, ti_state := RUNNABLE\<rparr>) s
     in sched_out c (add_runnable_task t s1))"

definition do_pause :: "nat \<Rightarrow> sched \<Rightarrow> sched kres" where
  "do_pause c s =
    (let t = ss_cur s c
     in sched_out c (add_runnable_task t (upd_th t (\<lambda>x. x\<lparr>ti_state := RUNNABLE\<rparr>) s)))"

text \<open>One round of the loop of \<open>scheduler\<close> on core \<open>c\<close>, up to the switch to the thread; an idle core changes nothing.\<close>

definition scheduler :: "nat \<Rightarrow> sched \<Rightarrow> sched" where
  "scheduler c s =
    (let t = pick_next_task s (ss_run s c) in
     if t \<noteq> 0 then upd_th t (\<lambda>x. x\<lparr>ti_cpu_id := c, ti_state := RUNNING\<rparr>)
       (s\<lparr>ss_run := (ss_run s)(c := remove1 t (ss_run s c)), ss_cur := (ss_cur s)(c := t)\<rparr>)
     else s)"

definition wakeup_process :: "addr \<Rightarrow> sched \<Rightarrow> sched" where
  "wakeup_process t s = add_runnable_task t (upd_th t (\<lambda>x. x\<lparr>ti_state := RUNNABLE\<rparr>) s)"

text \<open>What every blocking call does with the current thread (\<open>sem_wait\<close>, \<open>thread_timer_sleep\<close>, \<open>do_exit\<close>): a new state, then
  \<open>sched\<close>.\<close>

definition block :: "nat \<Rightarrow> task_state \<Rightarrow> sched \<Rightarrow> sched kres" where
  "block c st s = sched_out c (upd_th (ss_cur s c) (\<lambda>x. x\<lparr>ti_state := st\<rparr>) s)"

section \<open>Invariant\<close>

definition state_of :: "sched \<Rightarrow> addr \<Rightarrow> task_state" where
  "state_of s t = ti_state (ss_th s t)"

text \<open>The run queues hold exactly the runnable threads, each once; the cores run exactly the running threads.\<close>

definition run_ok :: "(addr \<Rightarrow> task_state) \<Rightarrow> (nat \<Rightarrow> addr list) \<Rightarrow> bool" where
  "run_ok st run = ((\<forall>c<NCPU. distinct (run c)) \<and>
    (\<forall>c<NCPU. \<forall>d<NCPU. \<forall>t. t \<in> set (run c) \<longrightarrow> t \<in> set (run d) \<longrightarrow> c = d) \<and>
    (\<forall>t. st t = RUNNABLE \<longleftrightarrow> (\<exists>c<NCPU. t \<in> set (run c))))"

definition cur_ok :: "(addr \<Rightarrow> task_state) \<Rightarrow> (nat \<Rightarrow> addr) \<Rightarrow> bool" where
  "cur_ok st cur = ((\<forall>t. t \<noteq> 0 \<longrightarrow> (st t = RUNNING \<longleftrightarrow> (\<exists>c<NCPU. cur c = t))) \<and>
    (\<forall>c<NCPU. \<forall>d<NCPU. cur c = cur d \<longrightarrow> cur c \<noteq> 0 \<longrightarrow> c = d))"

definition aff_ok :: "sched \<Rightarrow> bool" where
  "aff_ok s = (-1 \<le> ss_load s \<and>
    (\<forall>t. NO_CPU_AFF \<le> ti_cpu_affinity (ss_th s t) \<and> ti_cpu_affinity (ss_th s t) < int NCPU))"

definition sched_inv :: "sched \<Rightarrow> bool" where
  "sched_inv s = (state_of s 0 \<notin> {RUNNABLE, RUNNING} \<and> run_ok (state_of s) (ss_run s) \<and>
    cur_ok (state_of s) (ss_cur s) \<and> aff_ok s)"

text \<open>The steps of the system.  A core runs the scheduler when it has no current thread; only threads that are not
  runnable or running are woken.\<close>

datatype sched_act = Pick nat | Yield nat | Pause nat | Block nat task_state | Wake addr

definition act_ok :: "sched_act \<Rightarrow> sched \<Rightarrow> bool" where
  "act_ok a s = (case a of
      Pick c \<Rightarrow> c < NCPU \<and> ss_cur s c = 0
    | Yield c \<Rightarrow> c < NCPU \<and> ss_cur s c \<noteq> 0
    | Pause c \<Rightarrow> c < NCPU \<and> ss_cur s c \<noteq> 0
    | Block c st \<Rightarrow> c < NCPU \<and> ss_cur s c \<noteq> 0 \<and> st \<in> {SLEEPING, ZOMBIE}
    | Wake t \<Rightarrow> t \<noteq> 0 \<and> state_of s t \<in> {USED, SLEEPING})"

definition act :: "sched_act \<Rightarrow> sched \<Rightarrow> sched kres" where
  "act a s = (case a of
      Pick c \<Rightarrow> Inr (scheduler c s)
    | Yield c \<Rightarrow> yield c s
    | Pause c \<Rightarrow> do_pause c s
    | Block c st \<Rightarrow> block c st s
    | Wake t \<Rightarrow> Inr (wakeup_process t s))"

section \<open>Facts\<close>

lemma run_okD:
  assumes "run_ok st run"
  shows "c < NCPU \<Longrightarrow> distinct (run c)" "st t = RUNNABLE \<longleftrightarrow> (\<exists>c<NCPU. t \<in> set (run c))"
    "c < NCPU \<Longrightarrow> d < NCPU \<Longrightarrow> t \<in> set (run c) \<Longrightarrow> t \<in> set (run d) \<Longrightarrow> c = d"
  using assms unfolding run_ok_def by blast+

lemma cur_okD:
  assumes "cur_ok st cur"
  shows "t \<noteq> 0 \<Longrightarrow> st t = RUNNING \<longleftrightarrow> (\<exists>c<NCPU. cur c = t)"
    "c < NCPU \<Longrightarrow> d < NCPU \<Longrightarrow> cur c = cur d \<Longrightarrow> cur c \<noteq> 0 \<Longrightarrow> c = d"
  using assms unfolding cur_ok_def by blast+

lemma run_ok_add:
  assumes "run_ok st run" "st t \<noteq> RUNNABLE" "cpu < NCPU"
  shows "run_ok (st(t := RUNNABLE)) (run(cpu := t # run cpu))"
proof -
  have n: "t \<notin> set (run c)" if "c < NCPU" for c using run_okD(2) [OF assms(1), of t] assms(2) that by blast
  have m: "u \<in> set ((run(cpu := t # run cpu)) c) \<longleftrightarrow> (c = cpu \<and> u = t) \<or> u \<in> set (run c)" for u c by auto
  show ?thesis unfolding run_ok_def m
  proof (intro conjI allI impI)
    show "distinct ((run(cpu := t # run cpu)) c)" if "c < NCPU" for c
      using run_okD(1) [OF assms(1) that] n [OF that] by (cases "c = cpu") simp_all
    show "c = d" if "c < NCPU" "d < NCPU" "c = cpu \<and> u = t \<or> u \<in> set (run c)" "d = cpu \<and> u = t \<or> u \<in> set (run d)" for c d u
      using run_okD(3) [OF assms(1) that(1,2)] n [OF that(1)] n [OF that(2)] that(3,4) by blast
    show "((st(t := RUNNABLE)) u = RUNNABLE) = (\<exists>c<NCPU. c = cpu \<and> u = t \<or> u \<in> set (run c))" for u
      using run_okD(2) [OF assms(1), of u] assms(3) by (cases "u = t") auto
  qed
qed

lemma run_ok_other:
  assumes "run_ok st run" "st t \<noteq> RUNNABLE" "x \<noteq> RUNNABLE"
  shows "run_ok (st(t := x)) run"
  using assms by (auto simp: run_ok_def)

lemma run_ok_remove:
  assumes "run_ok st run" "c < NCPU" "t \<in> set (run c)" "x \<noteq> RUNNABLE"
  shows "run_ok (st(t := x)) (run(c := remove1 t (run c)))"
proof -
  have d: "distinct (run c)" using run_okD(1) [OF assms(1,2)] .
  have o: "t \<notin> set (run e)" if "e < NCPU" "e \<noteq> c" for e using run_okD(3) [OF assms(1,2) that(1) assms(3)] that(2) by blast
  have m: "u \<in> set ((run(c := remove1 t (run c))) e) \<longleftrightarrow> u \<noteq> t \<and> u \<in> set (run e)" if "e < NCPU" for u e
    using d o [OF that] by auto
  show ?thesis unfolding run_ok_def
  proof (intro conjI allI impI)
    show "distinct ((run(c := remove1 t (run c))) e)" if "e < NCPU" for e using run_okD(1) [OF assms(1) that] d by (cases "e = c") simp_all
    show "e = f" if "e < NCPU" "f < NCPU" "u \<in> set ((run(c := remove1 t (run c))) e)" "u \<in> set ((run(c := remove1 t (run c))) f)" for e f u
      using run_okD(3) [OF assms(1) that(1,2)] that(3,4) unfolding m [OF that(1)] m [OF that(2)] by blast
    have "(\<exists>e<NCPU. u \<in> set ((run(c := remove1 t (run c))) e)) \<longleftrightarrow> (\<exists>e<NCPU. u \<noteq> t \<and> u \<in> set (run e))" for u
      using m by blast
    then show "((st(t := x)) u = RUNNABLE) = (\<exists>e<NCPU. u \<in> set ((run(c := remove1 t (run c))) e))" for u
      using run_okD(2) [OF assms(1), of u] assms(4) by (cases "u = t") simp_all
  qed
qed

lemma cur_ok_other:
  assumes "cur_ok st cur" "st t \<noteq> RUNNING" "x \<noteq> RUNNING"
  shows "cur_ok (st(t := x)) cur"
  using assms by (auto simp: cur_ok_def)

lemma cur_ok_set:
  assumes "cur_ok st cur" "c < NCPU" "cur c = 0" "t \<noteq> 0" "st t \<noteq> RUNNING"
  shows "cur_ok (st(t := RUNNING)) (cur(c := t))"
proof -
  have n: "cur d \<noteq> t" if "d < NCPU" for d using cur_okD(1) [OF assms(1,4)] assms(5) that by blast
  show ?thesis unfolding cur_ok_def
  proof (intro conjI allI impI)
    have m: "(\<exists>d<NCPU. (cur(c := t)) d = u) \<longleftrightarrow> u = t \<or> (\<exists>d<NCPU. cur d = u)" if "u \<noteq> 0" for u
      using assms(2,3) that by (metis fun_upd_apply)
    show "((st(t := RUNNING)) u = RUNNING) = (\<exists>d<NCPU. (cur(c := t)) d = u)" if "u \<noteq> 0" for u
      unfolding m [OF that] using cur_okD(1) [OF assms(1) that] by (cases "u = t") simp_all
    show "d = e" if "d < NCPU" "e < NCPU" "(cur(c := t)) d = (cur(c := t)) e" "(cur(c := t)) d \<noteq> 0" for d e
      using cur_okD(2) [OF assms(1) that(1,2)] n [OF that(1)] n [OF that(2)] that(3,4) by (auto split: if_splits)
  qed
qed

lemma cur_ok_clear:
  assumes "cur_ok st cur" "c < NCPU" "cur c = t" "t \<noteq> 0" "x \<noteq> RUNNING"
  shows "cur_ok (st(t := x)) (cur(c := 0))"
proof -
  have n: "cur d \<noteq> t" if "d < NCPU" "d \<noteq> c" for d using cur_okD(2) [OF assms(1) that(1) assms(2)] assms(3,4) that by auto
  show ?thesis unfolding cur_ok_def
  proof (intro conjI allI impI)
    have m: "(\<exists>d<NCPU. (cur(c := 0)) d = u) \<longleftrightarrow> u \<noteq> t \<and> (\<exists>d<NCPU. cur d = u)" if "u \<noteq> 0" for u
      using assms(3) n that by (metis fun_upd_apply)
    show "((st(t := x)) u = RUNNING) = (\<exists>d<NCPU. (cur(c := 0)) d = u)" if "u \<noteq> 0" for u
      unfolding m [OF that] using cur_okD(1) [OF assms(1) that] assms(5) by (cases "u = t") simp_all
    show "d = e" if "d < NCPU" "e < NCPU" "(cur(c := 0)) d = (cur(c := 0)) e" "(cur(c := 0)) d \<noteq> 0" for d e
      using cur_okD(2) [OF assms(1) that(1,2)] that(3,4) by (auto split: if_splits)
  qed
qed

lemma add_runnable_task_eq:
  assumes "-1 \<le> ss_load s" "NO_CPU_AFF \<le> ti_cpu_affinity (ss_th s t)" "ti_cpu_affinity (ss_th s t) < int NCPU"
  obtains cpu l where "cpu < NCPU" "-1 \<le> l"
    "add_runnable_task t s = s\<lparr>ss_load := l, ss_run := (ss_run s)(cpu := t # ss_run s cpu)\<rparr>"
proof (cases "ti_cpu_affinity (ss_th s t) = NO_CPU_AFF")
  case True
  let ?l = "(ss_load s + 1) mod int NCPU"
  have "0 \<le> ?l" "?l < int NCPU" by (simp_all add: NCPU_def)
  then show ?thesis using that [of "nat ?l" ?l] True by (simp add: add_runnable_task_def Let_def)
next
  case False
  then show ?thesis using that [of "nat (ti_cpu_affinity (ss_th s t))" "ss_load s"] assms
    by (simp add: add_runnable_task_def NO_CPU_AFF_def Let_def NCPU_def nat_less_iff)
qed

lemma pick_last:
  assumes "\<forall>t\<in>set run. ti_state (ss_th s t) = RUNNABLE"
  shows "pick_next_task s run = (if run = [] then 0 else last run)"
  using assms by (cases run rule: rev_cases) (simp_all add: pick_next_task_def)

lemma state_of_upd:
  "state_of (upd_th t f s) = (state_of s)(t := ti_state (f (ss_th s t)))"
  "state_of (s\<lparr>ss_run := r\<rparr>) = state_of s" "state_of (s\<lparr>ss_cur := k\<rparr>) = state_of s" "state_of (s\<lparr>ss_load := l\<rparr>) = state_of s"
  "ss_run (upd_th t f s) = ss_run s" "ss_cur (upd_th t f s) = ss_cur s" "ss_load (upd_th t f s) = ss_load s"
  by (auto simp: state_of_def upd_th_def fun_eq_iff)

lemma aff_ok_upd:
  "(\<And>x. ti_cpu_affinity (f x) = ti_cpu_affinity x) \<Longrightarrow> aff_ok (upd_th t f s) = aff_ok s"
  "aff_ok (s\<lparr>ss_run := r\<rparr>) = aff_ok s" "aff_ok (s\<lparr>ss_cur := k\<rparr>) = aff_ok s"
  by (auto simp: aff_ok_def upd_th_def)

text \<open>Making a thread runnable that was not.\<close>

lemma wake_inv:
  assumes "state_of s 0 \<notin> {RUNNABLE, RUNNING}" "run_ok (state_of s) (ss_run s)" "aff_ok s" "state_of s t \<noteq> RUNNABLE" "t \<noteq> 0"
    and "\<And>x. ti_cpu_affinity (f x) = ti_cpu_affinity x" "\<And>x. ti_state (f x) = RUNNABLE"
    and "u = add_runnable_task t (upd_th t f s)"
  shows "state_of u = (state_of s)(t := RUNNABLE)" "run_ok (state_of u) (ss_run u)" "aff_ok u" "ss_cur u = ss_cur s"
    "\<exists>c<NCPU. ss_run u = (ss_run s)(c := t # ss_run s c)"
proof -
  let ?s = "upd_th t f s"
  have a: "aff_ok ?s" using assms(3,6) by (simp add: aff_ok_upd)
  obtain cpu l where u: "cpu < NCPU" "-1 \<le> l" "u = ?s\<lparr>ss_load := l, ss_run := (ss_run ?s)(cpu := t # ss_run ?s cpu)\<rparr>"
    using add_runnable_task_eq [of ?s t] a assms(8) unfolding aff_ok_def by metis
  show st: "state_of u = (state_of s)(t := RUNNABLE)" using u(3) assms(7) by (simp add: state_of_upd)
  show "run_ok (state_of u) (ss_run u)"
    unfolding st using run_ok_add [OF assms(2,4) u(1)] u(3) by (simp add: state_of_upd)
  show "aff_ok u" using a u(2,3) by (simp add: aff_ok_def)
  show "ss_cur u = ss_cur s" using u(3) by (simp add: state_of_upd)
  show "\<exists>c<NCPU. ss_run u = (ss_run s)(c := t # ss_run s c)" using u(1,3) by (auto simp: state_of_upd)
qed

lemma sched_invD:
  assumes "sched_inv s"
  shows "state_of s 0 \<notin> {RUNNABLE, RUNNING}" "run_ok (state_of s) (ss_run s)" "cur_ok (state_of s) (ss_cur s)" "aff_ok s"
  using assms by (simp_all add: sched_inv_def)

text \<open>The current thread leaves its core and becomes runnable again.\<close>

lemma requeue_inv:
  assumes "sched_inv s" "c < NCPU" "ss_cur s c \<noteq> 0"
    and "\<And>x. ti_cpu_affinity (f x) = ti_cpu_affinity x" "\<And>x. ti_state (f x) = RUNNABLE"
  shows "\<exists>u. sched_out c (add_runnable_task (ss_cur s c) (upd_th (ss_cur s c) f s)) = Inr u \<and> sched_inv u \<and>
    (\<exists>d<NCPU. ss_run u = (ss_run s)(d := ss_cur s c # ss_run s d))"
proof -
  let ?t = "ss_cur s c"
  note i = sched_invD [OF assms(1)]
  have r: "state_of s ?t = RUNNING" using cur_okD(1) [OF i(3) assms(3)] assms(2) by blast
  define v where "v = add_runnable_task ?t (upd_th ?t f s)"
  have nr: "state_of s ?t \<noteq> RUNNABLE" using r by simp
  note w = wake_inv [OF i(1,2,4) nr assms(3,4,5) v_def]
  have "ti_state (ss_th v (ss_cur v c)) \<noteq> RUNNING" using w(1,4) by (simp add: state_of_def [symmetric])
  then have eq: "sched_out c v = Inr (v\<lparr>ss_cur := (ss_cur v)(c := 0)\<rparr>)" by (simp add: sched_out_def)
  have "cur_ok ((state_of s)(?t := RUNNABLE)) ((ss_cur s)(c := 0))" using cur_ok_clear [OF i(3) assms(2) refl assms(3)] by simp
  then have "sched_inv (v\<lparr>ss_cur := (ss_cur v)(c := 0)\<rparr>)"
    using w i(1) assms(3) by (simp add: sched_inv_def state_of_upd aff_ok_upd)
  then show ?thesis using eq w(5) by (auto simp: v_def)
qed

lemma act_inv:
  assumes "sched_inv s" "act_ok a s"
  shows "\<exists>u. act a s = Inr u \<and> sched_inv u"
proof (cases a)
  case (Pick c)
  have c: "c < NCPU" "ss_cur s c = 0" using assms(2) Pick by (simp_all add: act_ok_def)
  note i = sched_invD [OF assms(1)]
  have "\<forall>t\<in>set (ss_run s c). ti_state (ss_th s t) = RUNNABLE"
    using run_okD(2) [OF i(2)] c(1) by (auto simp: state_of_def)
  note p = pick_last [OF this]
  show ?thesis
  proof (cases "ss_run s c = []")
    case True
    then show ?thesis using Pick p assms(1) by (simp add: act_def scheduler_def)
  next
    case False
    let ?t = "last (ss_run s c)"
    have t: "?t \<in> set (ss_run s c)" using False by simp
    have st: "state_of s ?t = RUNNABLE" using run_okD(2) [OF i(2), of ?t] c(1) t by blast
    have t0: "?t \<noteq> 0" using st i(1) by (metis insertI1)
    let ?u = "scheduler c s"
    have u: "?u = upd_th ?t (\<lambda>x. x\<lparr>ti_cpu_id := c, ti_state := RUNNING\<rparr>)
       (s\<lparr>ss_run := (ss_run s)(c := remove1 ?t (ss_run s c)), ss_cur := (ss_cur s)(c := ?t)\<rparr>)"
      using p False t0 by (simp add: scheduler_def Let_def)
    have "run_ok ((state_of s)(?t := RUNNING)) ((ss_run s)(c := remove1 ?t (ss_run s c)))"
      by (rule run_ok_remove [OF i(2) c(1) t]) simp
    moreover have "cur_ok ((state_of s)(?t := RUNNING)) ((ss_cur s)(c := ?t))"
      by (rule cur_ok_set [OF i(3) c t0]) (simp add: st)
    ultimately have "sched_inv ?u" unfolding u
      using i(1,4) t0 by (simp add: sched_inv_def state_of_upd aff_ok_upd)
    then show ?thesis using Pick by (simp add: act_def)
  qed
next
  case (Yield c)
  then show ?thesis using requeue_inv [OF assms(1), of c "\<lambda>x. x\<lparr>ti_ticks := 10, ti_state := RUNNABLE\<rparr>"] assms(2)
    by (auto simp: act_def act_ok_def yield_def Let_def)
next
  case (Pause c)
  then show ?thesis using requeue_inv [OF assms(1), of c "\<lambda>x. x\<lparr>ti_state := RUNNABLE\<rparr>"] assms(2)
    by (auto simp: act_def act_ok_def do_pause_def Let_def)
next
  case (Block c x)
  have c: "c < NCPU" "ss_cur s c \<noteq> 0" "x \<noteq> RUNNABLE" "x \<noteq> RUNNING" using assms(2) Block by (auto simp: act_ok_def)
  note i = sched_invD [OF assms(1)]
  let ?t = "ss_cur s c" and ?v = "upd_th (ss_cur s c) (\<lambda>y. y\<lparr>ti_state := x\<rparr>) s"
  have r: "state_of s ?t = RUNNING" using cur_okD(1) [OF i(3) c(2)] c(1) by blast
  have st: "state_of ?v = (state_of s)(?t := x)" by (simp add: state_of_upd)
  have "ti_state (ss_th ?v (ss_cur ?v c)) \<noteq> RUNNING" using c(4) by (simp add: upd_th_def)
  then have eq: "act a s = Inr (?v\<lparr>ss_cur := (ss_cur ?v)(c := 0)\<rparr>)" by (simp add: Block act_def block_def sched_out_def)
  have "run_ok ((state_of s)(?t := x)) (ss_run s)" by (rule run_ok_other [OF i(2) _ c(3)]) (simp add: r)
  moreover have "cur_ok ((state_of s)(?t := x)) ((ss_cur s)(c := 0))" by (rule cur_ok_clear [OF i(3) c(1) refl c(2,4)])
  ultimately have "sched_inv (?v\<lparr>ss_cur := (ss_cur ?v)(c := 0)\<rparr>)"
    using i(1,4) c(2) by (simp add: sched_inv_def state_of_upd aff_ok_upd)
  then show ?thesis using eq by blast
next
  case (Wake t)
  have t: "t \<noteq> 0" "state_of s t \<noteq> RUNNABLE" "state_of s t \<noteq> RUNNING" using assms(2) Wake by (auto simp: act_ok_def)
  note i = sched_invD [OF assms(1)]
  note w = wake_inv [OF i(1,2,4) t(2,1), of "\<lambda>x. x\<lparr>ti_state := RUNNABLE\<rparr>" "wakeup_process t s"]
  have "sched_inv (wakeup_process t s)"
    using w cur_ok_other [OF i(3) t(3), of RUNNABLE] i(1) t(1) by (simp add: sched_inv_def wakeup_process_def)
  then show ?thesis by (simp add: Wake act_def)
qed

text \<open>\<open>wakeup_process\<close> has no check of the state: waking a thread that is already runnable puts it on a queue a second time, so the condition on \<open>Wake\<close> is
  needed.\<close>

lemma wake_runnable_breaks:
  assumes "sched_inv s" "state_of s t = RUNNABLE"
  shows "\<not> sched_inv (wakeup_process t s)"
proof
  assume u: "sched_inv (wakeup_process t s)"
  let ?s = "upd_th t (\<lambda>x. x\<lparr>ti_state := RUNNABLE\<rparr>) s"
  note i = sched_invD [OF assms(1)]
  obtain c where c: "c < NCPU" "t \<in> set (ss_run s c)" using run_okD(2) [OF i(2)] assms(2) by blast
  have "aff_ok ?s" using i(4) by (simp add: aff_ok_upd)
  then obtain d l where d: "d < NCPU" "wakeup_process t s = ?s\<lparr>ss_load := l, ss_run := (ss_run ?s)(d := t # ss_run ?s d)\<rparr>"
    using add_runnable_task_eq [of ?s t] unfolding aff_ok_def wakeup_process_def by metis
  have r: "ss_run (wakeup_process t s) = (ss_run s)(d := t # ss_run s d)" using d(2) by (simp add: state_of_upd)
  note v = sched_invD(2) [OF u, unfolded r]
  have "d = c" using run_okD(3) [OF v d(1) c(1), of t] c(2) by (cases "d = c") simp_all
  then show False using run_okD(1) [OF v d(1)] c(2) by simp
qed

text \<open>An initial state: thread 5 runs on core 0, threads 7 and 8 wait on core 1, thread 9 sleeps.\<close>

definition blank_thread :: thread_info where
  "blank_thread = \<lparr>ti_tid = 0, ti_task = 0, ti_flags = 0, ti_state = UNUSED, ti_pid = 0, ti_ticks = 10, ti_parent = 0,
    ti_child = [], ti_child_exit_sem = \<lparr>sem_value = 0, sem_waiters = fifo_init\<rparr>, ti_tf = 0, ti_func = 0, ti_args = 0,
    ti_cpu_affinity = NO_CPU_AFF, ti_cpu_id = 0, ti_exit_code = 0\<rparr>"

definition sched_example :: sched where
  "sched_example = \<lparr>ss_th = (\<lambda>_. blank_thread)(5 := blank_thread\<lparr>ti_state := RUNNING\<rparr>, 7 := blank_thread\<lparr>ti_state := RUNNABLE\<rparr>,
      8 := blank_thread\<lparr>ti_state := RUNNABLE\<rparr>,
      9 := blank_thread\<lparr>ti_state := SLEEPING\<rparr>),
    ss_run = (\<lambda>_. [])(1 := [7, 8]), ss_out = (\<lambda>_. []), ss_cur = (\<lambda>_. 0)(0 := 5), ss_load = -1\<rparr>"

lemma sched_example_inv: "sched_inv sched_example"
proof -
  have "run_ok (state_of sched_example) (ss_run sched_example)"
    by (auto simp: run_ok_def state_of_def sched_example_def blank_thread_def NCPU_def split: if_splits)
  moreover have "cur_ok (state_of sched_example) (ss_cur sched_example)"
    by (auto simp: cur_ok_def state_of_def sched_example_def blank_thread_def NCPU_def split: if_splits)
  moreover have "aff_ok sched_example" by (simp add: aff_ok_def sched_example_def blank_thread_def NO_CPU_AFF_def NCPU_def)
  moreover have "state_of sched_example 0 \<notin> {RUNNABLE, RUNNING}" by (simp add: state_of_def sched_example_def blank_thread_def)
  ultimately show ?thesis by (simp add: sched_inv_def)
qed

section \<open>Bounded waiting\<close>

text \<open>The number of threads in front of \<open>t\<close>: those nearer to the tail of the queue, which is where the scheduler picks.\<close>

definition ahead :: "addr list \<Rightarrow> addr \<Rightarrow> nat" where
  "ahead run t = length (takeWhile (\<lambda>u. u \<noteq> t) (rev run))"

definition picks :: "nat \<Rightarrow> sched_act list \<Rightarrow> nat" where
  "picks c as = length (filter (\<lambda>a. a = Pick c) as)"

lemma ahead_add: "t \<in> set run \<Longrightarrow> ahead (u # run) t = ahead run t"
  by (simp add: ahead_def takeWhile_append1)

lemma ahead_pick:
  assumes "t \<in> set run" "last run \<noteq> t" "distinct run"
  shows "ahead run t = Suc (ahead (remove1 (last run) run) t)" "t \<in> set (remove1 (last run) run)"
proof -
  have "run \<noteq> []" using assms(1) by auto
  then obtain xs x where run: "run = xs @ [x]" by (cases run rule: rev_cases) auto
  then have "remove1 (last run) run = xs" using assms(3) by (simp add: remove1_append)
  then show "ahead run t = Suc (ahead (remove1 (last run) run) t)" "t \<in> set (remove1 (last run) run)"
    using assms(1,2) run by (auto simp: ahead_def)
qed

lemma act_ahead:
  assumes "sched_inv s" "act_ok a s" "act a s = Inr u" "c < NCPU" "t \<in> set (ss_run s c)" "t \<in> set (ss_run u c)"
  shows "ahead (ss_run s c) t = ahead (ss_run u c) t + (if a = Pick c then 1 else 0)"
proof -
  note i = sched_invD [OF assms(1)]
  have grow: "ahead (ss_run s c) t = ahead (ss_run u c) t" if "\<exists>d<NCPU. ss_run u = (ss_run s)(d := x # ss_run s d)" for x
    using that ahead_add [OF assms(5), of x] by (auto split: if_splits)
  show ?thesis
  proof (cases a)
    case (Pick d)
    have d: "d < NCPU" "ss_cur s d = 0" using assms(2) Pick by (simp_all add: act_ok_def)
    have "\<forall>t\<in>set (ss_run s d). ti_state (ss_th s t) = RUNNABLE"
      using run_okD(2) [OF i(2)] d(1) by (auto simp: state_of_def)
    note p = pick_last [OF this]
    have u: "u = scheduler d s" using assms(3) Pick by (simp add: act_def)
    show ?thesis
    proof (cases "d = c")
      case False
      then show ?thesis using Pick u by (simp add: scheduler_def Let_def upd_th_def)
    next
      case True
      have ne: "ss_run s c \<noteq> []" using assms(5) by auto
      let ?l = "last (ss_run s c)"
      have "state_of s ?l = RUNNABLE" using run_okD(2) [OF i(2), of ?l] assms(4) ne last_in_set by blast
      then have l0: "?l \<noteq> 0" using i(1) by (metis insertI1)
      have r: "ss_run u c = remove1 ?l (ss_run s c)"
        using u p True ne l0 by (simp add: scheduler_def Let_def upd_th_def)
      have dis: "distinct (ss_run s c)" by (rule run_okD(1) [OF i(2) assms(4)])
      have "?l \<noteq> t" using assms(6) r dis by auto
      then show ?thesis using ahead_pick [OF assms(5) _ dis] r Pick True by simp
    qed
  next
    case (Yield d)
    then show ?thesis
      using requeue_inv [OF assms(1), of d "\<lambda>x. x\<lparr>ti_ticks := 10, ti_state := RUNNABLE\<rparr>"] assms(2,3) grow
      by (auto simp: act_def act_ok_def yield_def Let_def)
  next
    case (Pause d)
    then show ?thesis
      using requeue_inv [OF assms(1), of d "\<lambda>x. x\<lparr>ti_state := RUNNABLE\<rparr>"] assms(2,3) grow
      by (auto simp: act_def act_ok_def do_pause_def Let_def)
  next
    case (Block d x)
    then show ?thesis using assms(3) by (auto simp: act_def block_def sched_out_def upd_th_def split: if_splits)
  next
    case (Wake x)
    have t: "x \<noteq> 0" "state_of s x \<noteq> RUNNABLE" using assms(2) Wake by (auto simp: act_ok_def)
    have "\<exists>d<NCPU. ss_run u = (ss_run s)(d := x # ss_run s d)"
      using wake_inv(5) [OF i(1,2,4) t(2,1), of "\<lambda>x. x\<lparr>ti_state := RUNNABLE\<rparr>" u] assms(3) Wake
      by (simp add: act_def wakeup_process_def)
    then show ?thesis using grow Wake by simp
  qed
qed

text \<open>A run during which \<open>t\<close> stays on the queue of core \<open>c\<close>.\<close>

inductive waits :: "nat \<Rightarrow> addr \<Rightarrow> sched \<Rightarrow> sched_act list \<Rightarrow> sched \<Rightarrow> bool" for c t where
  waits_refl: "t \<in> set (ss_run s c) \<Longrightarrow> waits c t s [] s"
| waits_step: "waits c t s as u \<Longrightarrow> act_ok a u \<Longrightarrow> act a u = Inr v \<Longrightarrow> t \<in> set (ss_run v c) \<Longrightarrow> waits c t s (as @ [a]) v"

lemma waits_facts:
  assumes "waits c t s as u" "sched_inv s" "c < NCPU"
  shows "sched_inv u \<and> t \<in> set (ss_run u c) \<and> ahead (ss_run s c) t = ahead (ss_run u c) t + picks c as"
  using assms
proof (induction rule: waits.induct)
  case (waits_refl s)
  then show ?case by (simp add: picks_def)
next
  case (waits_step s as u a v)
  then have u: "sched_inv u" "t \<in> set (ss_run u c)" "ahead (ss_run s c) t = ahead (ss_run u c) t + picks c as" by auto
  have "sched_inv v" using act_inv [OF u(1) waits_step.hyps(2)] waits_step.hyps(3) by auto
  then show ?case using act_ahead [OF u(1) waits_step.hyps(2,3) waits_step.prems(2) u(2) waits_step.hyps(4)] u(3) waits_step.hyps(4)
    by (simp add: picks_def)
qed

text \<open>
  C19: bounded waiting.  While a thread waits on the run queue of a core, that core dispatches at most as many
  other threads as were queued in front of it, whatever else is woken, yields or blocks meanwhile.
\<close>

theorem bounded_waiting:
  assumes "sched_inv s" "c < NCPU" "waits c t s as u"
  shows "picks c as \<le> ahead (ss_run s c) t"
  using waits_facts [OF assms(3,1,2)] by simp

lemma sched_example_waits: "waits 1 7 sched_example ([] @ [Pick 1]) (scheduler 1 sched_example)"
proof (rule waits_step)
  show "waits 1 7 sched_example [] sched_example" by (rule waits_refl) (simp add: sched_example_def)
  show "act_ok (Pick 1) sched_example" by (simp add: act_ok_def sched_example_def NCPU_def)
  show "act (Pick 1) sched_example = Inr (scheduler 1 sched_example)" by (simp add: act_def)
  show "7 \<in> set (ss_run (scheduler 1 sched_example) 1)"
    by (simp add: scheduler_def pick_next_task_def sched_example_def blank_thread_def upd_th_def)
qed

theorem bounded_waiting_witness: "picks 1 [Pick 1] \<le> ahead (ss_run sched_example 1) 7 \<and> picks 1 [Pick 1] = 1"
  using bounded_waiting [OF sched_example_inv _ sched_example_waits] by (simp add: NCPU_def picks_def)

end
