(* ===== verification/SchedLocks.thy ===== *)
theory SchedLocks
  imports Sched
begin

text \<open>
  kernel/proc/sched.c at the granularity of its spin locks.  The operations of Sched.thy run there as one step; here every \<open>spin_lock\<close> and every
  \<open>spin_unlock\<close> of the source is a step of its own, together with the straight-line code before it, and the steps of all cores and of all pending
  \<open>wakeup_process\<close> calls interleave freely.  In particular \<open>add_runnable_task\<close> releases the lock of the thread, takes and releases
  \<open>load_lock\<close>, takes the lock of the queue and takes the lock of the thread again, so a runnable thread is on no queue for a while.

  A call of \<open>wakeup_process\<close> is a context of its own, not bound to a core, since it may be preempted between its sections.
  \<open>yield\<close> and \<open>do_pause\<close> run with interrupts off: \<open>yield\<close> comes from the timer interrupt and from the page fault handler, \<open>do_pause\<close> from a system
  call.

  The invariant says where each runnable thread is in every state between two steps; no step panics and the locks never deadlock.
\<close>

section \<open>Locks and program points\<close>

datatype ctx = Core nat | Waker nat

datatype lock_id = ThreadLock addr | QueueLock nat | LoadLock

text \<open>Why a context marks a thread: the calls of the source that set the state and go on.\<close>

datatype reason = RYield | RPause | RBlock task_state | RWake

text \<open>The points of \<open>add_runnable_task\<close>: before the release of the thread, before and after \<open>load_lock\<close> is taken, before the lock of the queue, before the
  lock of the thread, and before the list operation.  The local variables \<open>cpu_affinity\<close> and \<open>cpuid\<close> are arguments.\<close>

datatype add_pc = ARelease | ALoad int | AChoose int | AQueue nat | AThread nat | AList nat

text \<open>The points of \<open>scheduler\<close> (up to \<open>PSwitch\<close>, and \<open>PBack\<close> behind the switch), of a thread that was switched to (\<open>PEnter\<close>: it releases its lock,
  at the end of \<open>sched\<close> or, when it runs for the first time, in \<open>thread_entry\<close> or \<open>forkret\<close>), that runs,
  and that is inside \<open>yield\<close>, \<open>do_pause\<close>, a blocking call or \<open>sched\<close>; \<open>PIdle\<close> and \<open>PUnlock\<close> are points of \<open>wakeup_process\<close>.
  The local variable \<open>thread\<close> is an argument.\<close>

datatype pc = PLoop | PPick | PNext | PSwitch | PEnter addr | PRun | PLock addr reason | PMark addr reason | PAdd addr add_pc
  | PSched addr | PBack | PIdle | PUnlock addr

text \<open>\<open>k_next\<close> is the local variable \<open>next\<close> of the scheduler of a core, which survives the switch to the thread and back.\<close>

record ksys =
  k_s :: sched
  k_lock :: "lock_id \<Rightarrow> ctx option"
  k_next :: "nat \<Rightarrow> addr"
  k_pc :: "ctx \<Rightarrow> pc"

definition goto_pc :: "ctx \<Rightarrow> pc \<Rightarrow> ksys \<Rightarrow> ksys" where
  "goto_pc x p k = k\<lparr>k_pc := (k_pc k)(x := p)\<rparr>"

text \<open>\<open>spin_lock\<close> spins while another context holds the lock.\<close>

definition acquire :: "ctx \<Rightarrow> lock_id \<Rightarrow> pc \<Rightarrow> ksys \<Rightarrow> ksys kres" where
  "acquire x l p k =
    (if k_lock k l = Some x then Inl (Panic ''spinlock: already held'')
     else if k_lock k l \<noteq> None then Inr k
     else Inr (goto_pc x p (k\<lparr>k_lock := (k_lock k)(l := Some x)\<rparr>)))"

definition release :: "ctx \<Rightarrow> lock_id \<Rightarrow> pc \<Rightarrow> ksys \<Rightarrow> ksys kres" where
  "release x l p k =
    (if k_lock k l \<noteq> Some x then Inl (Panic ''spinlock: not held'')
     else Inr (goto_pc x p (k\<lparr>k_lock := (k_lock k)(l := None)\<rparr>)))"

section \<open>Steps\<close>

text \<open>The section under \<open>load_lock\<close>.\<close>

definition choose_cpu :: "int \<Rightarrow> sched \<Rightarrow> nat \<times> sched" where
  "choose_cpu aff s =
    (if aff = NO_CPU_AFF then let l = (ss_load s + 1) mod int NCPU in (nat l, s\<lparr>ss_load := l\<rparr>)
     else (nat aff, s))"

text \<open>Where \<open>add_runnable_task\<close> returns to: \<open>sched\<close> in \<open>yield\<close> and \<open>do_pause\<close>, the last release in \<open>wakeup_process\<close>.\<close>

definition add_return :: "ctx \<Rightarrow> addr \<Rightarrow> pc" where
  "add_return x t = (case x of Core c \<Rightarrow> PSched t | Waker i \<Rightarrow> PUnlock t)"

definition add_task_step :: "ctx \<Rightarrow> addr \<Rightarrow> add_pc \<Rightarrow> ksys \<Rightarrow> ksys kres" where
  "add_task_step x t p k = (case p of
      ARelease \<Rightarrow> release x (ThreadLock t) (PAdd t (ALoad (ti_cpu_affinity (ss_th (k_s k) t)))) k
    | ALoad a \<Rightarrow> acquire x LoadLock (PAdd t (AChoose a)) k
    | AChoose a \<Rightarrow> (let (cpuid, s1) = choose_cpu a (k_s k) in release x LoadLock (PAdd t (AQueue cpuid)) (k\<lparr>k_s := s1\<rparr>))
    | AQueue d \<Rightarrow> acquire x (QueueLock d) (PAdd t (AThread d)) k
    | AThread d \<Rightarrow> acquire x (ThreadLock t) (PAdd t (AList d)) k
    | AList d \<Rightarrow> (let s = k_s k in
        release x (QueueLock d) (add_return x t) (k\<lparr>k_s := s\<lparr>ss_run := (ss_run s)(d := t # ss_run s d)\<rparr>\<rparr>)))"

definition mark_thread :: "reason \<Rightarrow> thread_info \<Rightarrow> thread_info" where
  "mark_thread r x = (case r of
      RYield \<Rightarrow> x\<lparr>ti_ticks := 10, ti_state := RUNNABLE\<rparr>
    | RPause \<Rightarrow> x\<lparr>ti_state := RUNNABLE\<rparr>
    | RBlock st \<Rightarrow> x\<lparr>ti_state := st\<rparr>
    | RWake \<Rightarrow> x\<lparr>ti_state := RUNNABLE\<rparr>)"

definition mark_next :: "reason \<Rightarrow> addr \<Rightarrow> pc" where
  "mark_next r t = (case r of RBlock st \<Rightarrow> PSched t | _ \<Rightarrow> PAdd t ARelease)"

text \<open>The part that \<open>yield\<close>, \<open>do_pause\<close>, the blocking calls and \<open>wakeup_process\<close> have in common.\<close>

definition call_step :: "ctx \<Rightarrow> ksys \<Rightarrow> ksys kres" where
  "call_step x k = (case k_pc k x of
      PLock t r \<Rightarrow> acquire x (ThreadLock t) (PMark t r) k
    | PMark t r \<Rightarrow> Inr (goto_pc x (mark_next r t) (k\<lparr>k_s := upd_th t (mark_thread r) (k_s k)\<rparr>))
    | PAdd t p \<Rightarrow> add_task_step x t p k
    | _ \<Rightarrow> Inr k)"

text \<open>One step of core \<open>c\<close>: its scheduler, or the thread that is current on it.\<close>

definition core_step :: "nat \<Rightarrow> ksys \<Rightarrow> ksys kres" where
  "core_step c k = (let x = Core c; s = k_s k; n = k_next k c in case k_pc k x of
      PLoop \<Rightarrow> acquire x (QueueLock c) PPick k
    | PPick \<Rightarrow> (let t = pick_next_task s (ss_run s c) in
        if t \<noteq> 0 then Inr (goto_pc x PNext (k\<lparr>k_next := (k_next k)(c := t)\<rparr>)) else release x (QueueLock c) PLoop k)
    | PNext \<Rightarrow> acquire x (ThreadLock n) PSwitch k
    | PSwitch \<Rightarrow> release x (QueueLock c) (PEnter n)
        (k\<lparr>k_s := upd_th n (\<lambda>y. y\<lparr>ti_cpu_id := c, ti_state := RUNNING\<rparr>)
          (s\<lparr>ss_run := (ss_run s)(c := remove1 n (ss_run s c)), ss_cur := (ss_cur s)(c := n)\<rparr>)\<rparr>)
    | PEnter t \<Rightarrow> release x (ThreadLock t) PRun k
    | PSched t \<Rightarrow>
        if k_lock k (ThreadLock t) \<noteq> Some x then Inl (Panic ''sched: not held p->lock'')
        else if ti_state (ss_th s t) = RUNNING then Inl (Panic ''sched: is running'')
        else Inr (goto_pc x PBack k)
    | PBack \<Rightarrow> release x (ThreadLock n) PLoop (k\<lparr>k_s := s\<lparr>ss_cur := (ss_cur s)(c := 0)\<rparr>\<rparr>)
    | _ \<Rightarrow> call_step x k)"

text \<open>One step of a \<open>wakeup_process\<close> call.\<close>

definition waker_step :: "nat \<Rightarrow> ksys \<Rightarrow> ksys kres" where
  "waker_step i k = (case k_pc k (Waker i) of
      PUnlock t \<Rightarrow> release (Waker i) (ThreadLock t) PIdle k
    | _ \<Rightarrow> call_step (Waker i) k)"

text \<open>What may happen next: a context steps, the current thread of a core calls \<open>yield\<close>, \<open>do_pause\<close> or a blocking function, or somebody calls
  \<open>wakeup_process\<close>.  \<open>wakeup_process\<close> does not look at the state of the thread, so its callers must: it is called for a new or
  sleeping thread, and by one caller at a time.\<close>

datatype kact = Step ctx | Call nat reason | WakeUp nat addr

definition kstep :: "kact \<Rightarrow> ksys \<Rightarrow> ksys kres" where
  "kstep a k = (case a of
      Step (Core c) \<Rightarrow> core_step c k
    | Step (Waker i) \<Rightarrow> waker_step i k
    | Call c r \<Rightarrow> Inr (goto_pc (Core c) (PLock (ss_cur (k_s k) c) r) k)
    | WakeUp i t \<Rightarrow> Inr (goto_pc (Waker i) (PLock t RWake) k))"

definition waking :: "pc \<Rightarrow> addr option" where
  "waking p = (case p of PLock t RWake \<Rightarrow> Some t | PMark t RWake \<Rightarrow> Some t | _ \<Rightarrow> None)"

definition kact_ok :: "kact \<Rightarrow> ksys \<Rightarrow> bool" where
  "kact_ok a k = (case a of
      Step (Core c) \<Rightarrow> c < NCPU
    | Step (Waker i) \<Rightarrow> True
    | Call c r \<Rightarrow> c < NCPU \<and> k_pc k (Core c) = PRun \<and> r \<in> {RYield, RPause, RBlock SLEEPING, RBlock ZOMBIE}
    | WakeUp i t \<Rightarrow> k_pc k (Waker i) = PIdle \<and> t \<noteq> 0 \<and> ti_state (ss_th (k_s k) t) \<in> {USED, SLEEPING} \<and>
        (\<forall>j. waking (k_pc k (Waker j)) \<noteq> Some t))"

text \<open>No call is in progress and no lock is held.\<close>

definition quiet :: "sched \<Rightarrow> ksys" where
  "quiet s = \<lparr>k_s = s, k_lock = (\<lambda>_. None), k_next = ss_cur s,
    k_pc = (\<lambda>x. case x of Core c \<Rightarrow> if c < NCPU \<and> ss_cur s c \<noteq> 0 then PRun else PLoop | Waker i \<Rightarrow> PIdle)\<rparr>"

inductive kreach :: "ksys \<Rightarrow> ksys \<Rightarrow> bool" for k0 where
  kreach_start: "kreach k0 k0"
| kreach_step: "kreach k0 k \<Longrightarrow> kact_ok a k \<Longrightarrow> kstep a k = Inr k' \<Longrightarrow> kreach k0 k'"

section \<open>Invariant\<close>

text \<open>The locks that a context holds at a program point.\<close>

definition held :: "(nat \<Rightarrow> addr) \<Rightarrow> ctx \<Rightarrow> pc \<Rightarrow> lock_id set" where
  "held nx x p = (case p of
      PPick \<Rightarrow> (case x of Core c \<Rightarrow> {QueueLock c} | _ \<Rightarrow> {})
    | PNext \<Rightarrow> (case x of Core c \<Rightarrow> {QueueLock c} | _ \<Rightarrow> {})
    | PSwitch \<Rightarrow> (case x of Core c \<Rightarrow> {QueueLock c, ThreadLock (nx c)} | _ \<Rightarrow> {})
    | PBack \<Rightarrow> (case x of Core c \<Rightarrow> {ThreadLock (nx c)} | _ \<Rightarrow> {})
    | PEnter t \<Rightarrow> {ThreadLock t}
    | PMark t r \<Rightarrow> {ThreadLock t}
    | PAdd t ARelease \<Rightarrow> {ThreadLock t}
    | PAdd t (AChoose a) \<Rightarrow> {LoadLock}
    | PAdd t (AThread d) \<Rightarrow> {QueueLock d}
    | PAdd t (AList d) \<Rightarrow> {QueueLock d, ThreadLock t}
    | PSched t \<Rightarrow> {ThreadLock t}
    | PUnlock t \<Rightarrow> {ThreadLock t}
    | _ \<Rightarrow> {})"

text \<open>The thread that a context has made runnable and not yet put on a queue.\<close>

definition transit :: "pc \<Rightarrow> addr option" where
  "transit p = (case p of PAdd t q \<Rightarrow> Some t | _ \<Rightarrow> None)"

definition lock_inv :: "(lock_id \<Rightarrow> ctx option) \<Rightarrow> (ctx \<Rightarrow> lock_id set) \<Rightarrow> bool" where
  "lock_inv lk H = (\<forall>l x. lk l = Some x \<longleftrightarrow> l \<in> H x)"

text \<open>Each runnable thread is on one queue, once, or in transit with one context.\<close>

definition queue_inv :: "(addr \<Rightarrow> task_state) \<Rightarrow> (nat \<Rightarrow> addr list) \<Rightarrow> (ctx \<Rightarrow> addr option) \<Rightarrow> bool" where
  "queue_inv st run tr = ((\<forall>c<NCPU. distinct (run c)) \<and>
    (\<forall>c<NCPU. \<forall>d<NCPU. \<forall>t. t \<in> set (run c) \<longrightarrow> t \<in> set (run d) \<longrightarrow> c = d) \<and>
    (\<forall>x y t. tr x = Some t \<longrightarrow> tr y = Some t \<longrightarrow> x = y) \<and>
    (\<forall>x t. tr x = Some t \<longrightarrow> (\<forall>c<NCPU. t \<notin> set (run c))) \<and>
    (\<forall>t. st t = RUNNABLE \<longleftrightarrow> (\<exists>c<NCPU. t \<in> set (run c)) \<or> (\<exists>x. tr x = Some t)))"

definition current_inv :: "(addr \<Rightarrow> task_state) \<Rightarrow> (nat \<Rightarrow> addr) \<Rightarrow> bool" where
  "current_inv st cur = ((\<forall>t. st t = RUNNING \<longrightarrow> (\<exists>c<NCPU. cur c = t)) \<and>
    (\<forall>c<NCPU. \<forall>d<NCPU. cur c = cur d \<longrightarrow> cur c \<noteq> 0 \<longrightarrow> c = d))"

definition add_ok :: "add_pc \<Rightarrow> bool" where
  "add_ok p = (case p of
      ARelease \<Rightarrow> True
    | ALoad a \<Rightarrow> NO_CPU_AFF \<le> a \<and> a < int NCPU
    | AChoose a \<Rightarrow> NO_CPU_AFF \<le> a \<and> a < int NCPU
    | AQueue d \<Rightarrow> d < NCPU | AThread d \<Rightarrow> d < NCPU | AList d \<Rightarrow> d < NCPU)"

text \<open>What holds at each program point of a core and of a \<open>wakeup_process\<close> call.\<close>

definition core_at :: "(addr \<Rightarrow> task_state) \<Rightarrow> addr list \<Rightarrow> addr \<Rightarrow> addr \<Rightarrow> pc \<Rightarrow> bool" where
  "core_at st run cur n p = (case p of
      PLoop \<Rightarrow> cur = 0
    | PPick \<Rightarrow> cur = 0
    | PNext \<Rightarrow> cur = 0 \<and> n \<in> set run
    | PSwitch \<Rightarrow> cur = 0 \<and> n \<in> set run
    | PEnter t \<Rightarrow> cur = t \<and> n = t \<and> t \<noteq> 0 \<and> st t = RUNNING
    | PRun \<Rightarrow> n = cur \<and> cur \<noteq> 0 \<and> st cur = RUNNING
    | PLock t r \<Rightarrow> cur = t \<and> n = t \<and> t \<noteq> 0 \<and> st t = RUNNING \<and> r \<in> {RYield, RPause, RBlock SLEEPING, RBlock ZOMBIE}
    | PMark t r \<Rightarrow> cur = t \<and> n = t \<and> t \<noteq> 0 \<and> st t = RUNNING \<and> r \<in> {RYield, RPause, RBlock SLEEPING, RBlock ZOMBIE}
    | PAdd t q \<Rightarrow> cur = t \<and> n = t \<and> t \<noteq> 0 \<and> st t = RUNNABLE \<and> add_ok q
    | PSched t \<Rightarrow> cur = t \<and> n = t \<and> t \<noteq> 0 \<and> st t \<noteq> RUNNING
    | PBack \<Rightarrow> n = cur \<and> cur \<noteq> 0 \<and> st cur \<noteq> RUNNING
    | _ \<Rightarrow> False)"

definition waker_at :: "(addr \<Rightarrow> task_state) \<Rightarrow> pc \<Rightarrow> bool" where
  "waker_at st p = (case p of
      PIdle \<Rightarrow> True
    | PLock t r \<Rightarrow> r = RWake \<and> t \<noteq> 0 \<and> st t \<in> {USED, SLEEPING}
    | PMark t r \<Rightarrow> r = RWake \<and> t \<noteq> 0 \<and> st t \<in> {USED, SLEEPING}
    | PAdd t q \<Rightarrow> t \<noteq> 0 \<and> st t = RUNNABLE \<and> add_ok q
    | PUnlock t \<Rightarrow> t \<noteq> 0
    | _ \<Rightarrow> False)"

definition at_ok :: "(addr \<Rightarrow> task_state) \<Rightarrow> (nat \<Rightarrow> addr list) \<Rightarrow> (nat \<Rightarrow> addr) \<Rightarrow> (nat \<Rightarrow> addr) \<Rightarrow> ctx \<Rightarrow> pc \<Rightarrow> bool" where
  "at_ok st run cur nx x p = (case x of
      Core c \<Rightarrow> if c < NCPU then core_at st (run c) (cur c) (nx c) p else p = PLoop
    | Waker i \<Rightarrow> waker_at st p)"

definition wake_inv1 :: "(ctx \<Rightarrow> pc) \<Rightarrow> bool" where
  "wake_inv1 pcs = (\<forall>x y t. waking (pcs x) = Some t \<longrightarrow> waking (pcs y) = Some t \<longrightarrow> x = y)"

definition kinv :: "ksys \<Rightarrow> bool" where
  "kinv k = (let s = k_s k; st = state_of s in
    st 0 \<notin> {RUNNABLE, RUNNING} \<and> aff_ok s \<and>
    lock_inv (k_lock k) (\<lambda>x. held (k_next k) x (k_pc k x)) \<and>
    queue_inv st (ss_run s) (\<lambda>x. transit (k_pc k x)) \<and>
    current_inv st (ss_cur s) \<and>
    (\<forall>x. at_ok st (ss_run s) (ss_cur s) (k_next k) x (k_pc k x)) \<and>
    wake_inv1 (k_pc k))"

lemma kinvD:
  assumes "kinv k"
  shows "state_of (k_s k) 0 \<notin> {RUNNABLE, RUNNING}" "aff_ok (k_s k)" "lock_inv (k_lock k) (\<lambda>x. held (k_next k) x (k_pc k x))"
    "queue_inv (state_of (k_s k)) (ss_run (k_s k)) (\<lambda>x. transit (k_pc k x))" "current_inv (state_of (k_s k)) (ss_cur (k_s k))"
    "at_ok (state_of (k_s k)) (ss_run (k_s k)) (ss_cur (k_s k)) (k_next k) x (k_pc k x)" "wake_inv1 (k_pc k)"
  using assms unfolding kinv_def Let_def by blast+

section \<open>Facts on the parts of the invariant\<close>

lemma lock_invD: "lock_inv lk H \<Longrightarrow> lk l = Some x \<longleftrightarrow> l \<in> H x"
  by (simp add: lock_inv_def)

lemma lock_inv_one: "lock_inv lk H \<Longrightarrow> l \<in> H x \<Longrightarrow> l \<in> H y \<Longrightarrow> x = y"
  unfolding lock_inv_def by (metis option.inject)

lemma lock_inv_acquire:
  assumes "lock_inv lk H" "lk l = None" "G = H(x := insert l (H x))"
  shows "lock_inv (lk(l := Some x)) G"
proof -
  have "l \<notin> H y" for y using lock_invD [OF assms(1), of l y] assms(2) by simp
  then show ?thesis using assms(1,3) by (auto simp: lock_inv_def)
qed

lemma lock_inv_release:
  assumes "lock_inv lk H" "l \<in> H x" "G = H(x := H x - {l})"
  shows "lock_inv (lk(l := None)) G"
proof -
  have "l \<notin> H y" if "y \<noteq> x" for y using lock_inv_one [OF assms(1,2)] that by blast
  then show ?thesis using assms(1,3) by (auto simp: lock_inv_def)
qed

lemma queue_invD:
  assumes "queue_inv st run tr"
  shows "c < NCPU \<Longrightarrow> distinct (run c)" "c < NCPU \<Longrightarrow> d < NCPU \<Longrightarrow> t \<in> set (run c) \<Longrightarrow> t \<in> set (run d) \<Longrightarrow> c = d"
    "tr x = Some t \<Longrightarrow> tr y = Some t \<Longrightarrow> x = y" "tr x = Some t \<Longrightarrow> c < NCPU \<Longrightarrow> t \<notin> set (run c)"
    "st t = RUNNABLE \<longleftrightarrow> (\<exists>c<NCPU. t \<in> set (run c)) \<or> (\<exists>x. tr x = Some t)"
  using assms unfolding queue_inv_def by blast+

lemma current_invD:
  assumes "current_inv st cur"
  shows "st t = RUNNING \<Longrightarrow> \<exists>c<NCPU. cur c = t" "c < NCPU \<Longrightarrow> d < NCPU \<Longrightarrow> cur c = cur d \<Longrightarrow> cur c \<noteq> 0 \<Longrightarrow> c = d"
  using assms unfolding current_inv_def by blast+

lemma queue_inv_mark:
  assumes "queue_inv st run tr" "st t \<noteq> RUNNABLE" "tr x = None"
  shows "queue_inv (st(t := RUNNABLE)) run (tr(x := Some t))"
proof -
  have n: "t \<notin> set (run c)" "tr y \<noteq> Some t" if "c < NCPU" for c y using queue_invD(5) [OF assms(1), of t] assms(2) that by blast+
  have m: "(tr(x := Some t)) y = Some u \<longleftrightarrow> (y = x \<and> u = t) \<or> tr y = Some u" for y u using assms(3) by auto
  have z: "0 < NCPU" by (simp add: NCPU_def)
  show ?thesis unfolding queue_inv_def m
  proof (intro conjI allI impI)
    show "y = w" if "(y = x \<and> u = t) \<or> tr y = Some u" "(w = x \<and> u = t) \<or> tr w = Some u" for y w u
      using that n(2) [OF z] queue_invD(3) [OF assms(1)] by blast
    show "u \<notin> set (run c)" if "(y = x \<and> u = t) \<or> tr y = Some u" "c < NCPU" for y u c
      using that n(1) queue_invD(4) [OF assms(1)] by blast
    show "((st(t := RUNNABLE)) u = RUNNABLE) = ((\<exists>c<NCPU. u \<in> set (run c)) \<or> (\<exists>y. (y = x \<and> u = t) \<or> tr y = Some u))" for u
      using queue_invD(5) [OF assms(1), of u] by (cases "u = t") auto
  qed (use queue_invD(1,2) [OF assms(1)] in blast)+
qed

lemma queue_inv_other:
  assumes "queue_inv st run tr" "st t \<noteq> RUNNABLE" "v \<noteq> RUNNABLE"
  shows "queue_inv (st(t := v)) run tr"
proof -
  have "(st(t := v)) u = RUNNABLE \<longleftrightarrow> st u = RUNNABLE" for u using assms(2,3) by simp
  then show ?thesis using assms(1) by (simp add: queue_inv_def)
qed

lemma queue_inv_add:
  assumes "queue_inv st run tr" "tr x = Some t" "d < NCPU"
  shows "queue_inv st (run(d := t # run d)) (tr(x := None))"
proof -
  have n: "t \<notin> set (run c)" if "c < NCPU" for c by (rule queue_invD(4) [OF assms(1,2) that])
  have o: "y = x" if "tr y = Some t" for y by (rule queue_invD(3) [OF assms(1) that assms(2)])
  have m: "u \<in> set ((run(d := t # run d)) c) \<longleftrightarrow> (c = d \<and> u = t) \<or> u \<in> set (run c)" for u c by auto
  have k: "(tr(x := None)) y = Some u \<longleftrightarrow> y \<noteq> x \<and> tr y = Some u" for y u by simp
  show ?thesis unfolding queue_inv_def m k
  proof (intro conjI allI impI)
    show "distinct ((run(d := t # run d)) c)" if "c < NCPU" for c using queue_invD(1) [OF assms(1) that] n [OF that] by (cases "c = d") simp_all
    show "c = e" if "c < NCPU" "e < NCPU" "c = d \<and> u = t \<or> u \<in> set (run c)" "e = d \<and> u = t \<or> u \<in> set (run e)" for c e u
      using queue_invD(2) [OF assms(1) that(1,2)] n [OF that(1)] n [OF that(2)] that(3,4) by blast
    show "y = w" if "y \<noteq> x \<and> tr y = Some u" "w \<noteq> x \<and> tr w = Some u" for y w u using that queue_invD(3) [OF assms(1)] by blast
    show "\<not> (c = d \<and> u = t \<or> u \<in> set (run c))" if "y \<noteq> x \<and> tr y = Some u" "c < NCPU" for y u c
      using that o [of y] queue_invD(4) [OF assms(1)] by blast
    show "(st u = RUNNABLE) = ((\<exists>c<NCPU. c = d \<and> u = t \<or> u \<in> set (run c)) \<or> (\<exists>y. y \<noteq> x \<and> tr y = Some u))" for u
    proof (cases "u = t")
      case True
      then show ?thesis using queue_invD(5) [OF assms(1), of t] assms(2,3) by blast
    next
      case False
      then show ?thesis using queue_invD(5) [OF assms(1), of u] assms(2) by (metis option.inject)
    qed
  qed
qed

lemma queue_inv_remove:
  assumes "queue_inv st run tr" "c < NCPU" "t \<in> set (run c)" "v \<noteq> RUNNABLE"
  shows "queue_inv (st(t := v)) (run(c := remove1 t (run c))) tr"
proof -
  have d: "distinct (run c)" by (rule queue_invD(1) [OF assms(1,2)])
  have o: "t \<notin> set (run e)" if "e < NCPU" "e \<noteq> c" for e using queue_invD(2) [OF assms(1,2) that(1) assms(3)] that(2) by blast
  have m: "u \<in> set ((run(c := remove1 t (run c))) e) \<longleftrightarrow> u \<noteq> t \<and> u \<in> set (run e)" if "e < NCPU" for u e using d o [OF that] by auto
  have w: "tr x \<noteq> Some t" for x using queue_invD(4) [OF assms(1) _ assms(2)] assms(3) by blast
  show ?thesis unfolding queue_inv_def
  proof (intro conjI allI impI)
    show "distinct ((run(c := remove1 t (run c))) e)" if "e < NCPU" for e using queue_invD(1) [OF assms(1) that] by (cases "e = c") simp_all
    show "e = f" if "e < NCPU" "f < NCPU" "u \<in> set ((run(c := remove1 t (run c))) e)" "u \<in> set ((run(c := remove1 t (run c))) f)" for e f u
      using queue_invD(2) [OF assms(1) that(1,2)] that(3,4) unfolding m [OF that(1)] m [OF that(2)] by blast
    show "x = y" if "tr x = Some u" "tr y = Some u" for x y u by (rule queue_invD(3) [OF assms(1) that])
    show "u \<notin> set ((run(c := remove1 t (run c))) e)" if "tr x = Some u" "e < NCPU" for x u e
      using queue_invD(4) [OF assms(1) that] m [OF that(2)] by blast
    have "(\<exists>e<NCPU. u \<in> set ((run(c := remove1 t (run c))) e)) \<longleftrightarrow> u \<noteq> t \<and> (\<exists>e<NCPU. u \<in> set (run e))" for u using m by blast
    then show "((st(t := v)) u = RUNNABLE) = ((\<exists>e<NCPU. u \<in> set ((run(c := remove1 t (run c))) e)) \<or> (\<exists>x. tr x = Some u))" for u
      using queue_invD(5) [OF assms(1), of u] assms(4) w by (cases "u = t") auto
  qed
qed

lemma current_inv_switch:
  assumes "current_inv st cur" "st 0 \<noteq> RUNNING" "c < NCPU" "cur c = 0" "\<And>d. d < NCPU \<Longrightarrow> cur d \<noteq> n"
  shows "current_inv (st(n := RUNNING)) (cur(c := n))"
  unfolding current_inv_def
proof (intro conjI allI impI)
  show "\<exists>d<NCPU. (cur(c := n)) d = t" if t: "(st(n := RUNNING)) t = RUNNING" for t
  proof (cases "t = n")
    case True
    then show ?thesis using assms(3) by (intro exI [of _ c]) simp
  next
    case False
    then have st: "st t = RUNNING" using t by simp
    then obtain d where d: "d < NCPU" "cur d = t" using current_invD(1) [OF assms(1)] by blast
    have "t \<noteq> 0" using st assms(2) by metis
    then have "d \<noteq> c" using d(2) assms(4) by auto
    then show ?thesis using d by (intro exI [of _ d]) simp
  qed
  show "d = e" if "d < NCPU" "e < NCPU" "(cur(c := n)) d = (cur(c := n)) e" "(cur(c := n)) d \<noteq> 0" for d e
    using current_invD(2) [OF assms(1) that(1,2)] assms(5) [OF that(1)] assms(5) [OF that(2)] that(3,4) by (auto split: if_splits)
qed

lemma current_inv_back:
  assumes "current_inv st cur" "st (cur c) \<noteq> RUNNING"
  shows "current_inv st (cur(c := 0))"
  unfolding current_inv_def
proof (intro conjI allI impI)
  show "\<exists>d<NCPU. (cur(c := 0)) d = t" if t: "st t = RUNNING" for t
  proof -
    obtain d where d: "d < NCPU" "cur d = t" using current_invD(1) [OF assms(1) t] by blast
    then have "d \<noteq> c" using t assms(2) by auto
    then show ?thesis using d by (intro exI [of _ d]) simp
  qed
  show "d = e" if "d < NCPU" "e < NCPU" "(cur(c := 0)) d = (cur(c := 0)) e" "(cur(c := 0)) d \<noteq> 0" for d e
    using current_invD(2) [OF assms(1) that(1,2)] that(3,4) by (auto split: if_splits)
qed

section \<open>Steps that only move a context\<close>

lemma goto_pc_simps [simp]:
  "k_s (goto_pc x p k) = k_s k" "k_lock (goto_pc x p k) = k_lock k" "k_next (goto_pc x p k) = k_next k" "k_pc (goto_pc x p k) = (k_pc k)(x := p)"
  by (simp_all add: goto_pc_def)

lemma wake_inv1_move:
  assumes "wake_inv1 pcs" "waking p \<in> {None, waking (pcs x)}"
  shows "wake_inv1 (pcs(x := p))"
proof -
  have "waking (pcs y) = Some t" if "waking ((pcs(x := p)) y) = Some t" for y t using that assms(2) by (cases "y = x") auto
  then show ?thesis using assms(1) unfolding wake_inv1_def by blast
qed

lemma fun_upd_move:
  "(\<lambda>y. held nx y (if y = x then p else pcs y)) = (\<lambda>y. held nx y (pcs y))(x := held nx x p)"
  "(\<lambda>y. transit (if y = x then p else pcs y)) = (\<lambda>y. transit (pcs y))(x := transit p)"
  by (simp_all add: fun_eq_iff)

lemma kinv_move:
  assumes "kinv k" "k_pc k' = (k_pc k)(x := p)" "aff_ok (k_s k')"
    and "state_of (k_s k') = state_of (k_s k)" "ss_run (k_s k') = ss_run (k_s k)" "ss_cur (k_s k') = ss_cur (k_s k)"
    and "\<And>c. Core c \<noteq> x \<Longrightarrow> k_next k' c = k_next k c"
    and "lock_inv (k_lock k') (\<lambda>y. held (k_next k') y (k_pc k' y))"
    and "transit p = transit (k_pc k x)" "waking p \<in> {None, waking (k_pc k x)}"
    and "at_ok (state_of (k_s k)) (ss_run (k_s k)) (ss_cur (k_s k)) (k_next k') x p"
  shows "kinv k'"
proof -
  note i = kinvD [OF assms(1)]
  have "at_ok (state_of (k_s k)) (ss_run (k_s k)) (ss_cur (k_s k)) (k_next k') y (k_pc k' y)" for y
    using i(6) [of y] assms(2,7,11) by (cases "y = x") (auto simp: at_ok_def split: ctx.splits)
  moreover have "(\<lambda>y. transit (k_pc k' y)) = (\<lambda>y. transit (k_pc k y))" using assms(2,9) by auto
  moreover have "wake_inv1 (k_pc k')" unfolding assms(2) by (rule wake_inv1_move [OF i(7) assms(10)])
  ultimately show ?thesis using i(1,4,5) assms(3,8) unfolding kinv_def Let_def assms(4-6) by simp
qed

lemma acquire_inv:
  assumes "kinv k" "l \<notin> held (k_next k) x (k_pc k x)" "held (k_next k) x p = insert l (held (k_next k) x (k_pc k x))"
    and "transit p = transit (k_pc k x)" "waking p \<in> {None, waking (k_pc k x)}"
    and "at_ok (state_of (k_s k)) (ss_run (k_s k)) (ss_cur (k_s k)) (k_next k) x p"
  shows "\<exists>k'. acquire x l p k = Inr k' \<and> kinv k'"
proof -
  note i = kinvD [OF assms(1)]
  have n: "k_lock k l \<noteq> Some x" using lock_invD [OF i(3), of l x] assms(2) by simp
  show ?thesis
  proof (cases "k_lock k l")
    case (Some y)
    then show ?thesis using n assms(1) by (simp add: acquire_def)
  next
    case None
    let ?k = "goto_pc x p (k\<lparr>k_lock := (k_lock k)(l := Some x)\<rparr>)"
    have "lock_inv (k_lock ?k) (\<lambda>y. held (k_next ?k) y (k_pc ?k y))"
      using lock_inv_acquire [OF i(3) None refl, of x] assms(3) by (simp add: fun_upd_move)
    then have "kinv ?k" using i(2) assms(4-6) by (intro kinv_move [OF assms(1), of ?k x p]) simp_all
    then show ?thesis using None by (simp add: acquire_def)
  qed
qed

lemma release_eq:
  assumes "kinv k" "l \<in> held (k_next k) x (k_pc k x)" "k_lock k1 = k_lock k"
  shows "release x l p k1 = Inr (goto_pc x p (k1\<lparr>k_lock := (k_lock k)(l := None)\<rparr>))"
  using lock_invD [OF kinvD(3) [OF assms(1)], of l x] assms(2,3) by (simp add: release_def)

lemma release_locks:
  assumes "kinv k" "l \<in> held (k_next k) x (k_pc k x)" "held (k_next k) x p = held (k_next k) x (k_pc k x) - {l}"
  shows "lock_inv ((k_lock k)(l := None)) (\<lambda>y. held (k_next k) y (((k_pc k)(x := p)) y))"
  using lock_inv_release [OF kinvD(3) [OF assms(1)] assms(2) refl] assms(3) by (simp add: fun_upd_move)

lemma release_inv:
  assumes "kinv k" "l \<in> held (k_next k) x (k_pc k x)" "held (k_next k) x p = held (k_next k) x (k_pc k x) - {l}"
    and "transit p = transit (k_pc k x)" "waking p \<in> {None, waking (k_pc k x)}"
    and "at_ok (state_of (k_s k)) (ss_run (k_s k)) (ss_cur (k_s k)) (k_next k) x p"
  shows "\<exists>k'. release x l p k = Inr k' \<and> kinv k'"
proof -
  let ?k = "goto_pc x p (k\<lparr>k_lock := (k_lock k)(l := None)\<rparr>)"
  have "kinv ?k" using release_locks [OF assms(1-3)] kinvD(2) [OF assms(1)] assms(4-6) by (intro kinv_move [OF assms(1), of ?k x p]) simp_all
  then show ?thesis using release_eq [OF assms(1,2) refl] by simp
qed

section \<open>Steps that change the scheduler\<close>

lemma at_other_mark:
  assumes "kinv k" "k_pc k x = PMark t r" "y \<noteq> x" "v \<noteq> RUNNING"
  shows "at_ok ((state_of (k_s k))(t := v)) (ss_run (k_s k)) (ss_cur (k_s k)) (k_next k) y (k_pc k y)"
proof -
  let ?st = "state_of (k_s k)" and ?cur = "ss_cur (k_s k)"
  note i = kinvD [OF assms(1)]
  have ax: "at_ok ?st (ss_run (k_s k)) ?cur (k_next k) x (PMark t r)" using i(6) [of x] assms(2) by simp
  have ay: "at_ok ?st (ss_run (k_s k)) ?cur (k_next k) y (k_pc k y)" by (rule i(6))
  show ?thesis
  proof (cases x)
    case (Core c)
    have c: "c < NCPU" "?cur c = t" "t \<noteq> 0" "?st t = RUNNING" using ax Core by (auto simp: at_ok_def core_at_def split: if_splits)
    have "?cur d \<noteq> t" if "y = Core d" "d < NCPU" for d using current_invD(2) [OF i(5) c(1) that(2)] c(2,3) that(1) assms(3) Core by auto
    then show ?thesis using ay c(4) by (auto simp: at_ok_def core_at_def waker_at_def split: ctx.splits pc.splits if_splits)
  next
    case (Waker j)
    have w: "r = RWake" "?st t \<in> {USED, SLEEPING}" using ax Waker by (auto simp: at_ok_def waker_at_def)
    have "waking (k_pc k x) = Some t" using assms(2) w(1) by (simp add: waking_def)
    then have "waking (k_pc k y) \<noteq> Some t" using i(7) assms(3) unfolding wake_inv1_def by blast
    then show ?thesis using ay w(2) assms(4) by (auto simp: at_ok_def core_at_def waker_at_def waking_def split: ctx.splits pc.splits if_splits)
  qed
qed

lemma mark_inv:
  assumes "kinv k" "k_pc k x = PMark t r"
  shows "kinv (goto_pc x (mark_next r t) (k\<lparr>k_s := upd_th t (mark_thread r) (k_s k)\<rparr>))" (is "kinv ?k")
proof -
  let ?st = "state_of (k_s k)" and ?p = "mark_next r t"
  define v where "v = ti_state (mark_thread r (ss_th (k_s k) t))"
  note i = kinvD [OF assms(1)]
  have ax: "at_ok ?st (ss_run (k_s k)) (ss_cur (k_s k)) (k_next k) x (PMark t r)" using i(6) [of x] assms(2) by simp
  have t: "t \<noteq> 0" "?st t \<noteq> RUNNABLE" "v \<noteq> RUNNING" "v = RUNNABLE \<longleftrightarrow> \<not> (\<exists>z. r = RBlock z)"
    using ax by (auto simp: v_def mark_thread_def at_ok_def core_at_def waker_at_def split: ctx.splits if_splits reason.splits)
  have st: "state_of (k_s ?k) = ?st(t := v)" by (simp add: state_of_upd v_def)
  have s: "ss_run (k_s ?k) = ss_run (k_s k)" "ss_cur (k_s ?k) = ss_cur (k_s k)" by (simp_all add: state_of_upd)
  have a: "aff_ok (k_s ?k)" using i(2) by (simp add: aff_ok_upd mark_thread_def split: reason.splits)
  have "held (k_next k) x ?p = held (k_next k) x (k_pc k x)" unfolding assms(2) by (simp add: mark_next_def held_def split: reason.splits)
  then have l: "lock_inv (k_lock ?k) (\<lambda>y. held (k_next ?k) y (k_pc ?k y))" using i(3) by (simp add: fun_upd_move fun_upd_idem)
  have q: "queue_inv (?st(t := v)) (ss_run (k_s k)) (\<lambda>y. transit (k_pc ?k y))"
  proof (cases "v = RUNNABLE")
    case True
    then have p: "transit ?p = Some t" using t(4) by (auto simp: mark_next_def transit_def split: reason.splits)
    have "transit (k_pc k x) = None" by (simp add: assms(2) transit_def)
    then show ?thesis using queue_inv_mark [OF i(4) t(2), of x] True p by (simp add: fun_upd_move)
  next
    case False
    then have "transit ?p = transit (k_pc k x)" using t(4) assms(2) by (auto simp: mark_next_def transit_def split: reason.splits)
    then show ?thesis using queue_inv_other [OF i(4) t(2) False] by (simp add: fun_upd_move fun_upd_idem)
  qed
  have c: "current_inv (?st(t := v)) (ss_cur (k_s k))" using i(5) t(3) by (auto simp: current_inv_def)
  have "at_ok (?st(t := v)) (ss_run (k_s k)) (ss_cur (k_s k)) (k_next k) x ?p"
    using ax t(3,4) by (auto simp: mark_next_def at_ok_def core_at_def waker_at_def add_ok_def split: ctx.splits if_splits reason.splits)
  then have "at_ok (?st(t := v)) (ss_run (k_s k)) (ss_cur (k_s k)) (k_next ?k) y (k_pc ?k y)" for y
    using at_other_mark [OF assms _ t(3)] by (cases "y = x") simp_all
  moreover have "wake_inv1 (k_pc ?k)" using wake_inv1_move [OF i(7), of ?p x] by (simp add: mark_next_def waking_def split: reason.splits)
  ultimately show ?thesis using i(1) t(1) a l q c unfolding kinv_def Let_def st s by simp
qed

lemma choose_inv:
  assumes "kinv k" "k_pc k x = PAdd t (AChoose a)"
  shows "\<exists>k'. add_task_step x t (AChoose a) k = Inr k' \<and> kinv k'"
proof -
  note i = kinvD [OF assms(1)]
  obtain d s1 where d: "choose_cpu a (k_s k) = (d, s1)" by (rule prod.exhaust)
  have ax: "at_ok (state_of (k_s k)) (ss_run (k_s k)) (ss_cur (k_s k)) (k_next k) x (PAdd t (AChoose a))" using i(6) [of x] assms(2) by simp
  then have a: "NO_CPU_AFF \<le> a" "a < int NCPU" by (auto simp: at_ok_def core_at_def waker_at_def add_ok_def split: ctx.splits if_splits)
  have s1: "d < NCPU" "state_of s1 = state_of (k_s k)" "ss_run s1 = ss_run (k_s k)" "ss_cur s1 = ss_cur (k_s k)" "aff_ok s1"
    using d a i(2) by (auto simp: choose_cpu_def Let_def NCPU_def NO_CPU_AFF_def aff_ok_def state_of_upd nat_less_iff split: if_splits)
  have h: "LoadLock \<in> held (k_next k) x (k_pc k x)" "held (k_next k) x (PAdd t (AQueue d)) = held (k_next k) x (k_pc k x) - {LoadLock}"
    unfolding assms(2) by (simp_all add: held_def)
  have "at_ok (state_of (k_s k)) (ss_run (k_s k)) (ss_cur (k_s k)) (k_next k) x (PAdd t (AQueue d))"
    using ax s1(1) by (auto simp: at_ok_def core_at_def waker_at_def add_ok_def split: ctx.splits if_splits)
  then have "kinv (goto_pc x (PAdd t (AQueue d)) (k\<lparr>k_s := s1, k_lock := (k_lock k)(LoadLock := None)\<rparr>))"
    using s1 release_locks [OF assms(1) h] by (intro kinv_move [OF assms(1), of _ x]) (simp_all add: assms(2) transit_def waking_def)
  then show ?thesis using release_eq [OF assms(1) h(1), of "k\<lparr>k_s := s1\<rparr>"] by (simp add: add_task_step_def d)
qed

lemma at_ok_mono:
  assumes "at_ok st run cur nx y p" "\<And>c. set (run c) \<subseteq> set (run' c)"
  shows "at_ok st run' cur nx y p"
proof (cases y)
  case (Core c)
  then show ?thesis using assms(1) assms(2) [of c] by (cases p) (auto simp: at_ok_def core_at_def)
next
  case (Waker i)
  then show ?thesis using assms(1) by (simp add: at_ok_def)
qed

lemma list_add_inv:
  assumes "kinv k" "k_pc k x = PAdd t (AList d)"
  shows "\<exists>k'. add_task_step x t (AList d) k = Inr k' \<and> kinv k'"
proof -
  let ?s = "k_s k" and ?p = "add_return x t"
  let ?run = "(ss_run (k_s k))(d := t # ss_run (k_s k) d)"
  let ?k = "goto_pc x ?p (k\<lparr>k_s := ?s\<lparr>ss_run := ?run\<rparr>, k_lock := (k_lock k)(QueueLock d := None)\<rparr>)"
  note i = kinvD [OF assms(1)]
  have ax: "at_ok (state_of ?s) (ss_run ?s) (ss_cur ?s) (k_next k) x (PAdd t (AList d))" using i(6) [of x] assms(2) by simp
  then have d: "d < NCPU" by (auto simp: at_ok_def core_at_def waker_at_def add_ok_def split: ctx.splits if_splits)
  have h: "QueueLock d \<in> held (k_next k) x (k_pc k x)" "held (k_next k) x ?p = held (k_next k) x (k_pc k x) - {QueueLock d}"
    unfolding assms(2) by (auto simp: held_def add_return_def split: ctx.splits)
  have tr: "transit (k_pc k x) = Some t" "transit ?p = None" by (simp_all add: assms(2) transit_def add_return_def split: ctx.splits)
  have q: "queue_inv (state_of ?s) ?run (\<lambda>y. transit (k_pc ?k y))" using queue_inv_add [OF i(4) tr(1) d] tr(2) by (simp add: fun_upd_move)
  have "at_ok (state_of ?s) ?run (ss_cur ?s) (k_next k) y (k_pc ?k y)" for y
  proof (cases "y = x")
    case True
    then show ?thesis using ax by (auto simp: add_return_def at_ok_def core_at_def waker_at_def split: ctx.splits if_splits)
  next
    case False
    have "at_ok (state_of ?s) ?run (ss_cur ?s) (k_next k) y (k_pc k y)" by (rule at_ok_mono [OF i(6)]) auto
    then show ?thesis using False by simp
  qed
  moreover have "wake_inv1 (k_pc ?k)" using wake_inv1_move [OF i(7), of ?p x] by (simp add: add_return_def waking_def split: ctx.splits)
  ultimately have "kinv ?k" using i(1,2,5) q release_locks [OF assms(1) h] unfolding kinv_def Let_def by (simp add: state_of_upd aff_ok_upd)
  then show ?thesis using release_eq [OF assms(1) h(1), of "k\<lparr>k_s := ?s\<lparr>ss_run := ?run\<rparr>\<rparr>"] by (simp add: add_task_step_def Let_def)
qed

text \<open>The thread that a core is about to switch to is current on no core: one that has put it on a queue and not yet left it still holds its lock.\<close>

lemma switch_facts:
  assumes "kinv k" "c < NCPU" "k_pc k (Core c) = PSwitch" "n = k_next k c"
  shows "n \<in> set (ss_run (k_s k) c)" "ss_cur (k_s k) c = 0" "state_of (k_s k) n = RUNNABLE" "n \<noteq> 0" "transit (k_pc k y) \<noteq> Some n"
    "d < NCPU \<Longrightarrow> ss_cur (k_s k) d \<noteq> n"
proof -
  note i = kinvD [OF assms(1)]
  show n: "n \<in> set (ss_run (k_s k) c)" "ss_cur (k_s k) c = 0" using i(6) [of "Core c"] assms(2-4) by (simp_all add: at_ok_def core_at_def)
  show st: "state_of (k_s k) n = RUNNABLE" using queue_invD(5) [OF i(4), of n] n(1) assms(2) by blast
  show z: "n \<noteq> 0" using st i(1) by (metis insertI1)
  show tr: "transit (k_pc k y) \<noteq> Some n" for y using queue_invD(4) [OF i(4) _ assms(2)] n(1) by blast
  assume d: "d < NCPU"
  show "ss_cur (k_s k) d \<noteq> n"
  proof
    assume c: "ss_cur (k_s k) d = n"
    have h: "ThreadLock n \<in> held (k_next k) (Core c) (k_pc k (Core c))" using assms(3,4) by (simp add: held_def)
    have "d \<noteq> c" using c n(2) z by auto
    then have "ThreadLock n \<notin> held (k_next k) (Core d) (k_pc k (Core d))" using lock_inv_one [OF i(3) h, of "Core d"] by auto
    then show False using i(6) [of "Core d"] c d z st tr [of "Core d"]
      by (cases "k_pc k (Core d)") (auto simp: at_ok_def core_at_def held_def transit_def)
  qed
qed

lemma at_other_switch:
  assumes "kinv k" "c < NCPU" "k_pc k (Core c) = PSwitch" "n = k_next k c" "y \<noteq> Core c"
  shows "at_ok ((state_of (k_s k))(n := RUNNING)) ((ss_run (k_s k))(c := zs)) ((ss_cur (k_s k))(c := n)) (k_next k) y (k_pc k y)"
proof -
  note i = kinvD [OF assms(1)] and n = switch_facts [OF assms(1-4)]
  show ?thesis
  proof (cases y)
    case (Core d)
    have dc: "d \<noteq> c" using Core assms(5) by simp
    show ?thesis
    proof (cases "d < NCPU")
      case True
      have "core_at (state_of (k_s k)) (ss_run (k_s k) d) (ss_cur (k_s k) d) (k_next k d) (k_pc k y)" using i(6) [of y] Core True by (simp add: at_ok_def)
      then have "core_at ((state_of (k_s k))(n := RUNNING)) (ss_run (k_s k) d) (ss_cur (k_s k) d) (k_next k d) (k_pc k y)"
        using n(6) [OF True] by (cases "k_pc k y") (auto simp: core_at_def)
      then show ?thesis using Core True dc by (simp add: at_ok_def)
    next
      case False
      then show ?thesis using i(6) [of y] Core by (simp add: at_ok_def)
    qed
  next
    case (Waker j)
    then show ?thesis using i(6) [of y] n(3) n(5) [of y] by (cases "k_pc k y") (auto simp: at_ok_def waker_at_def transit_def)
  qed
qed

lemma switch_inv:
  assumes "kinv k" "c < NCPU" "k_pc k (Core c) = PSwitch"
  shows "\<exists>k'. core_step c k = Inr k' \<and> kinv k'"
proof -
  define n where "n = k_next k c"
  let ?s = "k_s k" and ?p = "PEnter n"
  let ?st = "(state_of ?s)(n := RUNNING)" and ?run = "(ss_run ?s)(c := remove1 n (ss_run ?s c))" and ?cur = "(ss_cur ?s)(c := n)"
  let ?s1 = "upd_th n (\<lambda>y. y\<lparr>ti_cpu_id := c, ti_state := RUNNING\<rparr>) (?s\<lparr>ss_run := ?run, ss_cur := ?cur\<rparr>)"
  let ?k = "goto_pc (Core c) ?p (k\<lparr>k_s := ?s1, k_lock := (k_lock k)(QueueLock c := None)\<rparr>)"
  note i = kinvD [OF assms(1)] and f = switch_facts [OF assms n_def]
  have h: "QueueLock c \<in> held (k_next k) (Core c) (k_pc k (Core c))" "held (k_next k) (Core c) ?p = held (k_next k) (Core c) (k_pc k (Core c)) - {QueueLock c}"
    unfolding assms(3) by (auto simp: held_def n_def)
  have s1: "state_of ?s1 = ?st" "ss_run ?s1 = ?run" "ss_cur ?s1 = ?cur" "aff_ok ?s1" using i(2) by (simp_all add: state_of_upd aff_ok_upd)
  have "transit ?p = transit (k_pc k (Core c))" by (simp add: assms(3) transit_def)
  then have q: "queue_inv ?st ?run (\<lambda>y. transit (k_pc ?k y))" using queue_inv_remove [OF i(4) assms(2) f(1)] by (simp add: fun_upd_move fun_upd_idem)
  have cu: "current_inv ?st ?cur" using current_inv_switch [OF i(5) _ assms(2) f(2)] i(1) f(6) by simp
  have "at_ok ?st ?run ?cur (k_next k) (Core c) ?p" using f(4) assms(2) by (simp add: at_ok_def core_at_def n_def)
  then have "at_ok ?st ?run ?cur (k_next k) y (k_pc ?k y)" for y using at_other_switch [OF assms n_def] by (cases "y = Core c") simp_all
  moreover have "wake_inv1 (k_pc ?k)" using wake_inv1_move [OF i(7), of ?p "Core c"] by (simp add: waking_def)
  ultimately have "kinv ?k" using i(1) f(4) s1(4) q cu release_locks [OF assms(1) h] unfolding kinv_def Let_def by (simp add: s1(1-3))
  then show ?thesis using release_eq [OF assms(1) h(1), of "k\<lparr>k_s := ?s1\<rparr>"] by (simp add: core_step_def assms(3) n_def Let_def)
qed

lemma back_inv:
  assumes "kinv k" "c < NCPU" "k_pc k (Core c) = PBack"
  shows "\<exists>k'. core_step c k = Inr k' \<and> kinv k'"
proof -
  define n where "n = k_next k c"
  let ?s = "k_s k" and ?cur = "(ss_cur (k_s k))(c := 0)"
  let ?k = "goto_pc (Core c) PLoop (k\<lparr>k_s := ?s\<lparr>ss_cur := ?cur\<rparr>, k_lock := (k_lock k)(ThreadLock n := None)\<rparr>)"
  note i = kinvD [OF assms(1)]
  have n: "ss_cur ?s c = n" "n \<noteq> 0" "state_of ?s n \<noteq> RUNNING" using i(6) [of "Core c"] assms(2,3) by (simp_all add: at_ok_def core_at_def n_def)
  have h: "ThreadLock n \<in> held (k_next k) (Core c) (k_pc k (Core c))" "held (k_next k) (Core c) PLoop = held (k_next k) (Core c) (k_pc k (Core c)) - {ThreadLock n}"
    unfolding assms(3) by (auto simp: held_def n_def)
  have "transit PLoop = transit (k_pc k (Core c))" by (simp add: assms(3) transit_def)
  then have q: "queue_inv (state_of ?s) (ss_run ?s) (\<lambda>y. transit (k_pc ?k y))" using i(4) by (simp add: fun_upd_move fun_upd_idem)
  have cu: "current_inv (state_of ?s) ?cur" using current_inv_back [OF i(5), of c] n by simp
  have "at_ok (state_of ?s) (ss_run ?s) ?cur (k_next k) y (k_pc ?k y)" for y
    using i(6) [of y] assms(2) by (cases "y = Core c") (auto simp: at_ok_def core_at_def split: ctx.splits)
  moreover have "wake_inv1 (k_pc ?k)" using wake_inv1_move [OF i(7), of PLoop "Core c"] by (simp add: waking_def)
  ultimately have "kinv ?k" using i(1,2) q cu release_locks [OF assms(1) h] unfolding kinv_def Let_def by (simp add: state_of_upd aff_ok_upd)
  then show ?thesis using release_eq [OF assms(1) h(1), of "k\<lparr>k_s := ?s\<lparr>ss_cur := ?cur\<rparr>\<rparr>"] by (simp add: core_step_def assms(3) n_def Let_def)
qed

lemma pick_inv:
  assumes "kinv k" "c < NCPU" "k_pc k (Core c) = PPick"
  shows "\<exists>k'. core_step c k = Inr k' \<and> kinv k'"
proof -
  note i = kinvD [OF assms(1)]
  let ?run = "ss_run (k_s k) c"
  have "\<forall>t\<in>set ?run. ti_state (ss_th (k_s k) t) = RUNNABLE" using queue_invD(5) [OF i(4)] assms(2) by (auto simp: state_of_def)
  note p = pick_last [OF this]
  have cur: "ss_cur (k_s k) c = 0" using i(6) [of "Core c"] assms(2,3) by (simp add: at_ok_def core_at_def)
  show ?thesis
  proof (cases "?run = []")
    case True
    have "\<exists>k'. release (Core c) (QueueLock c) PLoop k = Inr k' \<and> kinv k'"
      by (rule release_inv [OF assms(1)]) (simp_all add: assms(2,3) held_def transit_def waking_def at_ok_def core_at_def cur)
    then show ?thesis using True p by (simp add: core_step_def assms(3) Let_def)
  next
    case False
    let ?t = "last ?run"
    have t: "?t \<in> set ?run" using False by simp
    then have "state_of (k_s k) ?t = RUNNABLE" using queue_invD(5) [OF i(4), of ?t] assms(2) by blast
    then have t0: "?t \<noteq> 0" using i(1) by (metis insertI1)
    let ?k = "goto_pc (Core c) PNext (k\<lparr>k_next := (k_next k)(c := ?t)\<rparr>)"
    have "held ((k_next k)(c := ?t)) y (((k_pc k)(Core c := PNext)) y) = held (k_next k) y (k_pc k y)" for y
      by (cases y; cases "k_pc k y") (auto simp: held_def assms(3))
    then have "lock_inv (k_lock ?k) (\<lambda>y. held (k_next ?k) y (k_pc ?k y))" using i(3) by simp
    then have "kinv ?k" using i(2) t cur assms(2)
      by (intro kinv_move [OF assms(1), of ?k "Core c"]) (auto simp: assms(3) transit_def waking_def at_ok_def core_at_def)
    then show ?thesis using False p t0 by (simp add: core_step_def assms(3) Let_def)
  qed
qed

section \<open>Every step keeps the invariant\<close>

definition ctx_ok :: "ctx \<Rightarrow> bool" where
  "ctx_ok x = (case x of Core c \<Rightarrow> c < NCPU | Waker i \<Rightarrow> True)"

lemma at_ok_add: "at_ok st run cur nx x (PAdd t p) \<Longrightarrow> add_ok q \<Longrightarrow> at_ok st run cur nx x (PAdd t q)" "at_ok st run cur nx x (PAdd t p) \<Longrightarrow> add_ok p"
  by (auto simp: at_ok_def core_at_def waker_at_def split: ctx.splits if_splits)

lemma add_task_inv:
  assumes "kinv k" "k_pc k x = PAdd t p"
  shows "\<exists>k'. add_task_step x t p k = Inr k' \<and> kinv k'"
proof -
  have ax: "at_ok (state_of (k_s k)) (ss_run (k_s k)) (ss_cur (k_s k)) (k_next k) x (PAdd t p)" using kinvD(6) [OF assms(1), of x] assms(2) by simp
  note a = at_ok_add(1) [OF ax] and p = at_ok_add(2) [OF ax]
  have t: "transit (PAdd t q) = transit (k_pc k x)" "waking (PAdd t q) \<in> {None, waking (k_pc k x)}" for q by (simp_all add: assms(2) transit_def waking_def)
  show ?thesis
  proof (cases p)
    case ARelease
    have "add_ok (ALoad (ti_cpu_affinity (ss_th (k_s k) t)))" using kinvD(2) [OF assms(1)] by (simp add: aff_ok_def add_ok_def)
    from release_inv [OF assms(1) _ _ t a [OF this], of "ThreadLock t"] show ?thesis by (simp add: ARelease add_task_step_def held_def assms(2))
  next
    case (ALoad b)
    have "add_ok (AChoose b)" using p by (simp add: ALoad add_ok_def)
    from acquire_inv [OF assms(1) _ _ t a [OF this], of LoadLock] show ?thesis by (simp add: ALoad add_task_step_def held_def assms(2))
  next
    case (AQueue d)
    have "add_ok (AThread d)" using p by (simp add: AQueue add_ok_def)
    from acquire_inv [OF assms(1) _ _ t a [OF this], of "QueueLock d"] show ?thesis by (simp add: AQueue add_task_step_def held_def assms(2))
  next
    case (AThread d)
    have "add_ok (AList d)" using p by (simp add: AThread add_ok_def)
    from acquire_inv [OF assms(1) _ _ t a [OF this], of "ThreadLock t"] show ?thesis by (simp add: AThread add_task_step_def held_def assms(2) insert_commute)
  next
    case (AChoose b)
    then show ?thesis using choose_inv [OF assms(1)] assms(2) by simp
  next
    case (AList d)
    then show ?thesis using list_add_inv [OF assms(1)] assms(2) by simp
  qed
qed

lemma call_inv:
  assumes "kinv k" "k_pc k x \<in> {PLock t r, PMark t r, PAdd t p}"
  shows "\<exists>k'. call_step x k = Inr k' \<and> kinv k'"
proof -
  consider "k_pc k x = PLock t r" | "k_pc k x = PMark t r" | "k_pc k x = PAdd t p" using assms(2) by blast
  then show ?thesis
  proof cases
    case 1
    have "at_ok (state_of (k_s k)) (ss_run (k_s k)) (ss_cur (k_s k)) (k_next k) x (PMark t r)"
      using kinvD(6) [OF assms(1), of x] 1 by (auto simp: at_ok_def core_at_def waker_at_def split: ctx.splits if_splits)
    from acquire_inv [OF assms(1) _ _ _ _ this, of "ThreadLock t"] show ?thesis by (simp add: 1 call_step_def held_def transit_def waking_def split: reason.splits)
  next
    case 2
    then show ?thesis using mark_inv [OF assms(1) 2] by (simp add: call_step_def)
  next
    case 3
    then show ?thesis using add_task_inv [OF assms(1) 3] by (simp add: call_step_def)
  qed
qed

lemma core_inv:
  assumes "kinv k" "c < NCPU"
  shows "\<exists>k'. core_step c k = Inr k' \<and> kinv k'"
proof -
  let ?x = "Core c"
  note i = kinvD [OF assms(1)]
  have ax: "core_at (state_of (k_s k)) (ss_run (k_s k) c) (ss_cur (k_s k) c) (k_next k c) (k_pc k ?x)" using i(6) [of ?x] assms(2) by (simp add: at_ok_def)
  have call: ?thesis if "k_pc k ?x \<in> {PLock t r, PMark t r, PAdd t p}" for t r p
    using call_inv [OF assms(1) that] that by (auto simp: core_step_def Let_def)
  show ?thesis
  proof (cases "k_pc k ?x")
    case PLoop
    have "\<exists>k'. acquire ?x (QueueLock c) PPick k = Inr k' \<and> kinv k'"
      by (rule acquire_inv [OF assms(1)]) (use ax in \<open>simp_all add: PLoop held_def transit_def waking_def at_ok_def core_at_def assms(2)\<close>)
    then show ?thesis by (simp add: core_step_def PLoop Let_def)
  next
    case PNext
    have "\<exists>k'. acquire ?x (ThreadLock (k_next k c)) PSwitch k = Inr k' \<and> kinv k'"
      by (rule acquire_inv [OF assms(1)]) (use ax in \<open>auto simp: PNext held_def transit_def waking_def at_ok_def core_at_def assms(2)\<close>)
    then show ?thesis by (simp add: core_step_def PNext Let_def)
  next
    case (PEnter t)
    have "\<exists>k'. release ?x (ThreadLock t) PRun k = Inr k' \<and> kinv k'"
      by (rule release_inv [OF assms(1)]) (use ax in \<open>auto simp: PEnter held_def transit_def waking_def at_ok_def core_at_def assms(2)\<close>)
    then show ?thesis by (simp add: core_step_def PEnter Let_def)
  next
    case (PSched t)
    have "k_lock k (ThreadLock t) = Some ?x" using lock_invD [OF i(3), of "ThreadLock t" ?x] by (simp add: PSched held_def)
    moreover have "ti_state (ss_th (k_s k) t) \<noteq> RUNNING" using ax by (simp add: PSched core_at_def state_of_def)
    moreover have "held (k_next k) ?x PBack = held (k_next k) ?x (k_pc k ?x)" using ax by (simp add: PSched held_def core_at_def)
    then have "lock_inv (k_lock k) (\<lambda>y. held (k_next k) y (((k_pc k)(?x := PBack)) y))" using i(3) by (simp add: fun_upd_move fun_upd_idem)
    then have "kinv (goto_pc ?x PBack k)"
      using i(2) ax by (intro kinv_move [OF assms(1), of _ ?x]) (auto simp: PSched transit_def waking_def at_ok_def core_at_def assms(2))
    ultimately show ?thesis by (simp add: core_step_def PSched Let_def)
  next
    case PRun
    then show ?thesis using assms(1) by (simp add: core_step_def call_step_def Let_def)
  next
    case PPick
    then show ?thesis by (rule pick_inv [OF assms])
  next
    case PSwitch
    then show ?thesis by (rule switch_inv [OF assms])
  next
    case PBack
    then show ?thesis by (rule back_inv [OF assms])
  qed (use ax call in \<open>auto simp: core_at_def\<close>)
qed

lemma waker_inv:
  assumes "kinv k"
  shows "\<exists>k'. waker_step i k = Inr k' \<and> kinv k'"
proof -
  let ?x = "Waker i"
  have ax: "waker_at (state_of (k_s k)) (k_pc k ?x)" using kinvD(6) [OF assms, of ?x] by (simp add: at_ok_def)
  have call: ?thesis if "k_pc k ?x \<in> {PLock t r, PMark t r, PAdd t p}" for t r p
    using call_inv [OF assms that] that by (auto simp: waker_step_def)
  show ?thesis
  proof (cases "k_pc k ?x")
    case (PUnlock t)
    have "\<exists>k'. release ?x (ThreadLock t) PIdle k = Inr k' \<and> kinv k'"
      by (rule release_inv [OF assms]) (simp_all add: PUnlock held_def transit_def waking_def at_ok_def waker_at_def)
    then show ?thesis by (simp add: waker_step_def PUnlock)
  next
    case PIdle
    then show ?thesis using assms by (simp add: waker_step_def call_step_def)
  qed (use ax call in \<open>auto simp: waker_at_def\<close>)
qed

lemma kstep_inv:
  assumes "kinv k" "kact_ok a k"
  shows "\<exists>k'. kstep a k = Inr k' \<and> kinv k'"
proof (cases a)
  case (Step x)
  then show ?thesis using core_inv [OF assms(1)] waker_inv [OF assms(1)] assms(2) by (cases x) (auto simp: kstep_def kact_ok_def)
next
  case (Call c r)
  note i = kinvD [OF assms(1)]
  let ?x = "Core c" and ?p = "PLock (ss_cur (k_s k) c) r"
  have c: "c < NCPU" "k_pc k ?x = PRun" "r \<in> {RYield, RPause, RBlock SLEEPING, RBlock ZOMBIE}" using assms(2) Call by (auto simp: kact_ok_def)
  have "held (k_next k) ?x ?p = held (k_next k) ?x (k_pc k ?x)" by (simp add: held_def c(2))
  then have "lock_inv (k_lock k) (\<lambda>y. held (k_next k) y (((k_pc k)(?x := ?p)) y))" using i(3) by (simp add: fun_upd_move fun_upd_idem)
  then have "kinv (goto_pc ?x ?p k)"
    using i(2) i(6) [of ?x] c by (intro kinv_move [OF assms(1), of _ ?x]) (auto simp: transit_def waking_def at_ok_def core_at_def)
  then show ?thesis by (simp add: Call kstep_def)
next
  case (WakeUp j t)
  note i = kinvD [OF assms(1)]
  let ?x = "Waker j" and ?p = "PLock t RWake"
  have w: "k_pc k ?x = PIdle" "t \<noteq> 0" "state_of (k_s k) t \<in> {USED, SLEEPING}" "\<And>m. waking (k_pc k (Waker m)) \<noteq> Some t"
    using assms(2) WakeUp by (auto simp: kact_ok_def state_of_def)
  have n: "waking (k_pc k y) \<noteq> Some t" for y
  proof (cases y)
    case (Core c)
    then show ?thesis using i(6) [of y] by (cases "k_pc k y") (auto simp: at_ok_def core_at_def waking_def split: if_splits)
  qed (use w(4) in simp)
  have "held (k_next k) ?x ?p = held (k_next k) ?x (k_pc k ?x)" by (simp add: held_def w(1))
  then have l: "lock_inv (k_lock k) (\<lambda>y. held (k_next k) y (((k_pc k)(?x := ?p)) y))" using i(3) by (simp add: fun_upd_move fun_upd_idem)
  have "transit ?p = transit (k_pc k ?x)" by (simp add: w(1) transit_def)
  then have q: "queue_inv (state_of (k_s k)) (ss_run (k_s k)) (\<lambda>y. transit (((k_pc k)(?x := ?p)) y))" using i(4) by (simp add: fun_upd_move fun_upd_idem)
  have "at_ok (state_of (k_s k)) (ss_run (k_s k)) (ss_cur (k_s k)) (k_next k) y (((k_pc k)(?x := ?p)) y)" for y
    using i(6) [of y] w(2,3) by (cases "y = ?x") (simp_all add: at_ok_def waker_at_def)
  moreover have "waking ?p = Some t" by (simp add: waking_def)
  then have "wake_inv1 ((k_pc k)(?x := ?p))" using i(7) n unfolding wake_inv1_def by (metis fun_upd_apply option.inject)
  ultimately have "kinv (goto_pc ?x ?p k)" using i(1,2,5) l q unfolding kinv_def Let_def by simp
  then show ?thesis by (simp add: WakeUp kstep_def)
qed

lemma quiet_inv:
  assumes "sched_inv s"
  shows "kinv (quiet s)"
proof -
  note i = sched_invD [OF assms]
  have p: "k_pc (quiet s) (Core c) = (if c < NCPU \<and> ss_cur s c \<noteq> 0 then PRun else PLoop)" "k_pc (quiet s) (Waker j) = PIdle" for c j by (simp_all add: quiet_def)
  have h: "held nx x (k_pc (quiet s) x) = {}" "transit (k_pc (quiet s) x) = None" "waking (k_pc (quiet s) x) = None" for nx x
    by (cases x; simp add: p held_def transit_def waking_def)+
  have r: "state_of s (ss_cur s c) = RUNNING" if "c < NCPU" "ss_cur s c \<noteq> 0" for c using cur_okD(1) [OF i(3) that(2)] that(1) by blast
  have "at_ok (state_of s) (ss_run s) (ss_cur s) (ss_cur s) x (k_pc (quiet s) x)" for x
    using r by (cases x) (auto simp: at_ok_def core_at_def waker_at_def p)
  moreover have "queue_inv (state_of s) (ss_run s) (\<lambda>_. None)" using i(2) by (simp add: queue_inv_def run_ok_def)
  moreover have "\<exists>c<NCPU. ss_cur s c = t" if "state_of s t = RUNNING" for t
  proof -
    have "t \<noteq> 0" using that i(1) by (metis insertCI)
    then show ?thesis using cur_okD(1) [OF i(3)] that by blast
  qed
  then have "current_inv (state_of s) (ss_cur s)" using cur_okD(2) [OF i(3)] unfolding current_inv_def by blast
  moreover have "k_s (quiet s) = s" "k_next (quiet s) = ss_cur s" "k_lock (quiet s) = (\<lambda>_. None)" by (simp_all add: quiet_def)
  ultimately show ?thesis using i(1,4) unfolding kinv_def Let_def by (simp add: h lock_inv_def wake_inv1_def)
qed

lemma kreach_inv: "kreach (quiet s) k \<Longrightarrow> sched_inv s \<Longrightarrow> kinv k"
proof (induction rule: kreach.induct)
  case kreach_start
  then show ?case by (rule quiet_inv)
next
  case (kreach_step k a k')
  then show ?case using kstep_inv [OF kreach_step.IH [OF kreach_step.prems] kreach_step.hyps(2)] by auto
qed

section \<open>Safety\<close>

definition in_transit :: "ksys \<Rightarrow> ctx \<Rightarrow> addr \<Rightarrow> bool" where
  "in_transit k x t = (transit (k_pc k x) = Some t)"

text \<open>
  C14: the scheduler with every \<open>spin_lock\<close> and \<open>spin_unlock\<close> as a step of its own, from any consistent state in which no call is in progress, with
  the steps of the cores and of any number of \<open>wakeup_process\<close> calls interleaved in any order.  The callers of \<open>wakeup_process\<close>, which has no check of its own,
  call it for a new or sleeping thread that nobody else is waking.  Then in every state reached: no step panics; each
  runnable thread is on exactly one run queue, once, and in nobody's hands, or it is on no queue and in transit inside exactly one call of \<open>add_runnable_task\<close>;
  the queues hold no duplicates and only runnable threads; each running thread is current on a core, and no thread is current on two.
\<close>

theorem sched_lock_safe:
  assumes "sched_inv s" "kreach (quiet s) k"
  shows "(\<forall>t. ti_state (ss_th (k_s k) t) = RUNNABLE \<longleftrightarrow>
        (\<exists>!d. d < NCPU \<and> t \<in> set (ss_run (k_s k) d)) \<and> (\<forall>x. \<not> in_transit k x t) \<or>
        (\<forall>d<NCPU. t \<notin> set (ss_run (k_s k) d)) \<and> (\<exists>!x. in_transit k x t)) \<and>
    (\<forall>d<NCPU. distinct (ss_run (k_s k) d)) \<and>
    (\<forall>t. ti_state (ss_th (k_s k) t) = RUNNING \<longrightarrow> (\<exists>!c. c < NCPU \<and> ss_cur (k_s k) c = t)) \<and>
    (\<forall>c<NCPU. \<forall>d<NCPU. ss_cur (k_s k) c = ss_cur (k_s k) d \<longrightarrow> ss_cur (k_s k) c \<noteq> 0 \<longrightarrow> c = d) \<and>
    (\<forall>a. kact_ok a k \<longrightarrow> (\<exists>k'. kstep a k = Inr k'))"
proof -
  have inv: "kinv k" by (rule kreach_inv [OF assms(2,1)])
  note i = kinvD [OF inv] and q = queue_invD [OF kinvD(4) [OF inv], folded in_transit_def]
  have 1: "ti_state (ss_th (k_s k) t) = RUNNABLE \<longleftrightarrow>
      (\<exists>!d. d < NCPU \<and> t \<in> set (ss_run (k_s k) d)) \<and> (\<forall>x. \<not> in_transit k x t) \<or>
      (\<forall>d<NCPU. t \<notin> set (ss_run (k_s k) d)) \<and> (\<exists>!x. in_transit k x t)" for t
    using q(5) [of t] q(2) [where t = t] q(3) [where t = t] q(4) [where t = t] unfolding state_of_def by blast
  have 2: "\<exists>!c. c < NCPU \<and> ss_cur (k_s k) c = t" if r: "ti_state (ss_th (k_s k) t) = RUNNING" for t
  proof -
    have "t \<noteq> 0" using r i(1) unfolding state_of_def by (metis insertCI)
    then show ?thesis using current_invD(1) [OF i(5), of t] current_invD(2) [OF i(5)] r unfolding state_of_def by metis
  qed
  have 3: "\<exists>k'. kstep a k = Inr k'" if "kact_ok a k" for a using kstep_inv [OF inv that] by blast
  show ?thesis using 1 2 3 q(1) current_invD(2) [OF i(5)] by simp
qed

text \<open>Thread 5 runs on core 0 and yields while thread 9 is being woken; both are in transit at the same time, the wakeup holds \<open>load_lock\<close> and
  core 0 waits for it.\<close>

primrec krun :: "kact list \<Rightarrow> ksys \<Rightarrow> ksys kres" where
  "krun [] k = Inr k"
| "krun (a # as) k = kbind (kstep a k) (krun as)"

primrec krun_ok :: "kact list \<Rightarrow> ksys \<Rightarrow> bool" where
  "krun_ok [] k = True"
| "krun_ok (a # as) k = (kact_ok a k \<and> (case kstep a k of Inl e \<Rightarrow> False | Inr k' \<Rightarrow> krun_ok as k'))"

lemma krun_reach: "kreach k0 k \<Longrightarrow> krun_ok as k \<Longrightarrow> \<exists>k'. krun as k = Inr k' \<and> kreach k0 k'"
proof (induction as arbitrary: k)
  case (Cons a as)
  then obtain k1 where "kact_ok a k" "kstep a k = Inr k1" "krun_ok as k1" by (auto split: sum.splits)
  then show ?case using Cons.IH [OF kreach_step [OF Cons.prems(1)]] by auto
qed auto

definition sched_example_acts :: "kact list" where
  "sched_example_acts = [Call 0 RYield, WakeUp 3 9, Step (Waker 3), Step (Core 0), Step (Core 0), Step (Waker 3), Step (Core 0), Step (Waker 3), Step (Waker 3)]"

lemmas kstep_defs = kstep_def core_step_def waker_step_def call_step_def acquire_def release_def goto_pc_def Let_def quiet_def mark_next_def mark_thread_def
  upd_th_def add_task_step_def

lemma sched_example_reach:
  "\<exists>k. kreach (quiet sched_example) k \<and> k_pc k (Core 0) = PAdd 5 (ALoad NO_CPU_AFF) \<and> k_pc k (Waker 3) = PAdd 9 (AChoose NO_CPU_AFF) \<and>
    ti_state (ss_th (k_s k) 9) = RUNNABLE \<and> k_lock k LoadLock = Some (Waker 3)"
proof -
  note d = kstep_defs sched_example_def blank_thread_def NCPU_def kact_ok_def waking_def sched_example_acts_def
  have "krun_ok sched_example_acts (quiet sched_example)" by (auto simp: d split: ctx.splits)
  then obtain k where k: "krun sched_example_acts (quiet sched_example) = Inr k" "kreach (quiet sched_example) k"
    using krun_reach [OF kreach_start] by blast
  have "k_pc k (Core 0) = PAdd 5 (ALoad NO_CPU_AFF)" "k_pc k (Waker 3) = PAdd 9 (AChoose NO_CPU_AFF)" "ti_state (ss_th (k_s k) 9) = RUNNABLE"
    "k_lock k LoadLock = Some (Waker 3)" using k(1) by (auto simp: d)
  then show ?thesis using k(2) by blast
qed

theorem sched_lock_safe_witness:
  "\<exists>k. kreach (quiet sched_example) k \<and> in_transit k (Core 0) 5 \<and> in_transit k (Waker 3) 9 \<and>
    (\<forall>d<NCPU. 9 \<notin> set (ss_run (k_s k) d)) \<and> (\<exists>!x. in_transit k x 9)"
proof -
  obtain k where k: "kreach (quiet sched_example) k" "in_transit k (Core 0) 5" "in_transit k (Waker 3) 9" "ti_state (ss_th (k_s k) 9) = RUNNABLE"
    using sched_example_reach by (auto simp: in_transit_def transit_def)
  note f = spec [OF conjunct1 [OF sched_lock_safe [OF sched_example_inv k(1)]], of 9]
  have "(\<forall>d<NCPU. 9 \<notin> set (ss_run (k_s k) d)) \<and> (\<exists>!x. in_transit k x 9)" using f k(3,4) by blast
  then show ?thesis using k(1-3) by blast
qed

section \<open>No deadlock\<close>

text \<open>The lock that the next step of a context takes.\<close>

definition wants :: "ksys \<Rightarrow> ctx \<Rightarrow> lock_id option" where
  "wants k x = (case k_pc k x of
      PLoop \<Rightarrow> (case x of Core c \<Rightarrow> Some (QueueLock c) | _ \<Rightarrow> None)
    | PNext \<Rightarrow> (case x of Core c \<Rightarrow> Some (ThreadLock (k_next k c)) | _ \<Rightarrow> None)
    | PLock t r \<Rightarrow> Some (ThreadLock t)
    | PAdd t (ALoad a) \<Rightarrow> Some LoadLock
    | PAdd t (AQueue d) \<Rightarrow> Some (QueueLock d)
    | PAdd t (AThread d) \<Rightarrow> Some (ThreadLock t)
    | _ \<Rightarrow> None)"

definition moves :: "ksys \<Rightarrow> ctx \<Rightarrow> bool" where
  "moves k x = (case kstep (Step x) k of Inl e \<Rightarrow> False | Inr k' \<Rightarrow> k_pc k' x \<noteq> k_pc k x)"

lemma release_pc: "release x l p k = Inr k' \<Longrightarrow> k_pc k' x = p"
  by (auto simp: release_def split: if_splits)

lemma acquire_pc: "acquire x l p k = Inr k' \<Longrightarrow> k_lock k l = None \<Longrightarrow> k_pc k' x = p"
  by (auto simp: acquire_def split: if_splits)

lemma add_task_moves:
  assumes "add_task_step x t p k = Inr k'" "k_pc k x = PAdd t p" "\<And>l. wants k x = Some l \<Longrightarrow> k_lock k l = None"
  shows "k_pc k' x \<noteq> k_pc k x"
proof (cases p)
  case (AList d)
  then show ?thesis using assms(1,2) release_pc by (fastforce simp: add_task_step_def add_return_def Let_def split: ctx.splits)
qed (use assms in \<open>auto simp: add_task_step_def wants_def Let_def split: prod.splits dest!: release_pc acquire_pc\<close>)

text \<open>A context moves unless it has nothing to do or spins on a lock that is held.\<close>

lemma free_moves:
  assumes "kinv k" "ctx_ok x" "k_pc k x \<notin> {PRun, PIdle}" "\<And>l. wants k x = Some l \<Longrightarrow> k_lock k l = None"
  shows "moves k x"
proof -
  have "kact_ok (Step x) k" using assms(2) by (simp add: kact_ok_def ctx_ok_def split: ctx.splits)
  then obtain k' where k': "kstep (Step x) k = Inr k'" using kstep_inv [OF assms(1)] by blast
  have ax: "at_ok (state_of (k_s k)) (ss_run (k_s k)) (ss_cur (k_s k)) (k_next k) x (k_pc k x)" by (rule kinvD(6) [OF assms(1)])
  have call: "k_pc k' x \<noteq> k_pc k x" if c: "call_step x k = Inr k'" "k_pc k x \<in> {PLock t r, PMark t r, PAdd t p}" for t r p
  proof -
    consider "k_pc k x = PLock t r" | "k_pc k x = PMark t r" | "k_pc k x = PAdd t p" using c(2) by blast
    then show ?thesis
    proof cases
      case 3
      then show ?thesis using add_task_moves [OF _ 3 assms(4)] c(1) by (simp add: call_step_def)
    qed (use c(1) assms(4) in \<open>auto simp: call_step_def wants_def mark_next_def split: reason.splits dest!: acquire_pc\<close>)
  qed
  have "k_pc k' x \<noteq> k_pc k x"
  proof (cases x)
    case (Core c)
    then have st: "core_step c k = Inr k'" using k' by (simp add: kstep_def)
    show ?thesis
    proof (cases "k_pc k x")
      case PPick
      then show ?thesis using st Core by (auto simp: core_step_def Let_def split: if_splits dest!: release_pc)
    qed (use st Core assms(3,4) ax call in \<open>auto simp: core_step_def wants_def at_ok_def core_at_def Let_def split: if_splits dest!: release_pc acquire_pc\<close>)
  next
    case (Waker i)
    then have "waker_step i k = Inr k'" using k' by (simp add: kstep_def)
    then show ?thesis using Waker assms(3,4) ax call
      by (cases "k_pc k x") (auto simp: waker_step_def wants_def at_ok_def waker_at_def dest!: release_pc acquire_pc)
  qed
  then show ?thesis by (simp add: moves_def k')
qed

text \<open>A context that holds the lock of a thread or \<open>load_lock\<close> takes no lock; one that holds the lock of a queue takes at most the lock of a thread.\<close>

lemma holder_wants:
  assumes "l \<in> held (k_next k) x (k_pc k x)" "wants k x = Some m"
  shows "\<exists>d t. l = QueueLock d \<and> m = ThreadLock t"
  using assms by (cases "k_pc k x") (auto simp: held_def wants_def split: ctx.splits add_pc.splits)

lemma holder_ok:
  assumes "kinv k" "k_lock k l = Some y"
  shows "l \<in> held (k_next k) y (k_pc k y)" "ctx_ok y" "k_pc k y \<notin> {PRun, PIdle}"
proof -
  show h: "l \<in> held (k_next k) y (k_pc k y)" using lock_invD [OF kinvD(3) [OF assms(1)]] assms(2) by blast
  then show "k_pc k y \<notin> {PRun, PIdle}" by (auto simp: held_def)
  show "ctx_ok y" using kinvD(6) [OF assms(1), of y] h by (auto simp: ctx_ok_def at_ok_def held_def split: ctx.splits if_splits)
qed

text \<open>
  C39: the cores and the \<open>wakeup_process\<close> calls never deadlock on the locks of threads, queues and \<open>load_lock\<close>.  In every state reached as in the
  safety theorem, when a context spins on a lock, the context that holds the lock can move, or it spins itself on the lock of a thread, whose holder can move.
\<close>

theorem sched_no_deadlock:
  assumes "sched_inv s" "kreach (quiet s) k" "wants k x = Some l" "k_lock k l = Some y"
  shows "moves k y \<or> (\<exists>t z. wants k y = Some (ThreadLock t) \<and> k_lock k (ThreadLock t) = Some z \<and> moves k z)"
proof -
  have inv: "kinv k" by (rule kreach_inv [OF assms(2,1)])
  note y = holder_ok [OF inv assms(4)]
  show ?thesis
  proof (cases "\<exists>m z. wants k y = Some m \<and> k_lock k m = Some z")
    case False
    then have "moves k y" using free_moves [OF inv y(2,3)] by (metis not_Some_eq)
    then show ?thesis ..
  next
    case True
    then obtain m z where m: "wants k y = Some m" "k_lock k m = Some z" by blast
    obtain t where t: "m = ThreadLock t" using holder_wants [OF y(1) m(1)] by blast
    note z = holder_ok [OF inv m(2)]
    have "wants k z = None" using holder_wants [OF z(1)] t by (cases "wants k z") auto
    then have "moves k z" using free_moves [OF inv z(2,3)] by simp
    then show ?thesis using m t by blast
  qed
qed

theorem sched_no_deadlock_witness:
  "\<exists>k. kreach (quiet sched_example) k \<and> wants k (Core 0) = Some LoadLock \<and> k_lock k LoadLock = Some (Waker 3) \<and> moves k (Waker 3)"
proof -
  obtain k where k: "kreach (quiet sched_example) k" "k_pc k (Core 0) = PAdd 5 (ALoad NO_CPU_AFF)" "k_pc k (Waker 3) = PAdd 9 (AChoose NO_CPU_AFF)"
    "k_lock k LoadLock = Some (Waker 3)" using sched_example_reach by blast
  have w: "wants k (Core 0) = Some LoadLock" "wants k (Waker 3) = None" using k(2,3) by (simp_all add: wants_def)
  then have "moves k (Waker 3)" using sched_no_deadlock [OF sched_example_inv k(1) w(1) k(4)] by simp
  then show ?thesis using k(1,4) w(1) by blast
qed

section \<open>The sections of a call in a row\<close>









end
