(* ===== verification/Semaphore.thy ===== *)
theory Semaphore
  imports Sched
begin

text \<open>
  kernel/locks/semaphore.c, mutex.c and sleeplock.c with their headers: counting semaphores with a first-in
  first-out queue of sleeping threads, the mutex built on them, and the sleep lock, which is a mutex.

  \<open>sem_wait\<close> releases the lock of the semaphore before it calls \<open>sched\<close>, but keeps the lock of the thread it puts to
  sleep, and \<open>wakeup_process\<close> takes that lock: no signal can make the thread runnable before it has left its
  core.  The two locked sections \<open>sem_wait\<close> and \<open>sem_signal\<close> are therefore single steps here.
\<close>

section \<open>Semaphores\<close>

definition sem_init :: "u32 \<Rightarrow> semaphore" where
  "sem_init value = \<lparr>sem_value = value, sem_waiters = fifo_init\<rparr>"

text \<open>\<open>c\<close> is the core that runs the call; \<open>None\<close> is the null pointer.\<close>

definition sem_wait :: "nat \<Rightarrow> semaphore option \<Rightarrow> sched \<Rightarrow> (semaphore \<times> sched) kres" where
  "sem_wait c sp s = (case sp of
      None \<Rightarrow> Inl (Panic ''sem wait is NULL'')
    | Some sem \<Rightarrow>
        let sem1 = sem\<lparr>sem_value := atomic_dec (sem_value sem)\<rparr> in
        if sint (sem_value sem1) < 0 then
          let t = ss_cur s c;
              s1 = upd_th t (\<lambda>x. x\<lparr>ti_state := SLEEPING\<rparr>) s;
              sem2 = sem1\<lparr>sem_waiters := fifo_push t (sem_waiters sem1)\<rparr>
          in kbind (sched_out c s1) (\<lambda>s2. Inr (sem2, s2))
        else Inr (sem1, s))"

definition sem_signal :: "semaphore \<Rightarrow> sched \<Rightarrow> (semaphore \<times> sched) kres" where
  "sem_signal sem s =
    (let sem1 = sem\<lparr>sem_value := atomic_inc (sem_value sem)\<rparr> in
     if sint (sem_value sem1) \<le> 0 then
       (case fifo_pop (sem_waiters sem1) of
          (Some t, w) \<Rightarrow> Inr (sem1\<lparr>sem_waiters := w\<rparr>, wakeup_process t s)
        | (None, w) \<Rightarrow> Inl (Panic ''sem_signal: queue may have a race condition''))
     else Inr (sem1, s))"

section \<open>Mutex and sleep lock\<close>

record mutex =
  mx_locked :: int
  mx_sem :: semaphore
  mx_thread :: addr

definition MUTEX_LOCK :: int where "MUTEX_LOCK = 1"

definition MUTEX_UNLOCK :: int where "MUTEX_UNLOCK = 0"

definition mutex_init :: mutex where
  "mutex_init = \<lparr>mx_locked = MUTEX_LOCK, mx_sem = sem_init (word_of_int MUTEX_LOCK), mx_thread = 0\<rparr>"

definition mutex_init_zero :: mutex where
  "mutex_init_zero = \<lparr>mx_locked = MUTEX_UNLOCK, mx_sem = sem_init (word_of_int MUTEX_UNLOCK), mx_thread = 0\<rparr>"

text \<open>\<open>mutex_lock\<close> is interrupted by the sleep inside \<open>sem_wait\<close>: its first half, and what the thread does when it runs again.\<close>

definition mutex_lock_wait :: "nat \<Rightarrow> mutex \<Rightarrow> sched \<Rightarrow> (mutex \<times> sched) kres" where
  "mutex_lock_wait c m s = kbind (sem_wait c (Some (mx_sem m)) s) (\<lambda>(sem, s1). Inr (m\<lparr>mx_sem := sem\<rparr>, s1))"

definition mutex_lock_take :: "nat \<Rightarrow> mutex \<Rightarrow> sched \<Rightarrow> mutex" where
  "mutex_lock_take c m s = m\<lparr>mx_locked := MUTEX_LOCK, mx_thread := ss_cur s c\<rparr>"

definition mutex_unlock :: "mutex \<Rightarrow> sched \<Rightarrow> (mutex \<times> sched) kres" where
  "mutex_unlock m s =
    (let m1 = m\<lparr>mx_locked := MUTEX_UNLOCK, mx_thread := 0\<rparr>
     in kbind (sem_signal (mx_sem m1) s) (\<lambda>(sem, s1). Inr (m1\<lparr>mx_sem := sem\<rparr>, s1)))"

definition mutex_is_hold :: "nat \<Rightarrow> mutex \<Rightarrow> sched \<Rightarrow> bool" where
  "mutex_is_hold c m s = (mx_locked m \<noteq> 0 \<and> mx_thread m = ss_cur s c)"

type_synonym sleeplock = mutex

definition sleep_init :: sleeplock where "sleep_init = mutex_init"

definition sleep_init_zero :: sleeplock where "sleep_init_zero = mutex_init_zero"

definition sleep_waiters_count :: "sleeplock \<Rightarrow> int" where
  "sleep_waiters_count lk = sint (sem_value (mx_sem lk))"

definition sleep_on_wait :: "nat \<Rightarrow> sleeplock \<Rightarrow> sched \<Rightarrow> (sleeplock \<times> sched) kres" where
  "sleep_on_wait = mutex_lock_wait"

definition sleep_on_take :: "nat \<Rightarrow> sleeplock \<Rightarrow> sched \<Rightarrow> sleeplock" where
  "sleep_on_take = mutex_lock_take"

definition wake_up :: "sleeplock \<Rightarrow> sched \<Rightarrow> (sleeplock \<times> sched) kres" where
  "wake_up = mutex_unlock"

definition sleep_is_hold :: "nat \<Rightarrow> sleeplock \<Rightarrow> sched \<Rightarrow> bool" where
  "sleep_is_hold = mutex_is_hold"

section \<open>Invariant of a semaphore\<close>

definition waiters :: "semaphore \<Rightarrow> addr list" where
  "waiters sem = f_list (sem_waiters sem)"

definition sem_ok :: "semaphore \<Rightarrow> sched \<Rightarrow> bool" where
  "sem_ok sem s = (fifo_wf (sem_waiters sem) \<and> distinct (waiters sem) \<and>
    (\<forall>t\<in>set (waiters sem). t \<noteq> 0 \<and> state_of s t = SLEEPING) \<and>
    int (length (waiters sem)) = max 0 (- sint (sem_value sem)))"

lemma sint_dec: "- (2 ^ 31) < sint (v :: u32) \<Longrightarrow> sint (v + (- 1)) = sint v - 1"
  using sint_lt [of v] by (simp add: signed_take_bit_int_eq_self sint_word_ariths)

lemma sint_inc: "sint (v :: u32) < 2 ^ 31 - 1 \<Longrightarrow> sint (v + 1) = sint v + 1"
  using sint_ge [of v] by (simp add: signed_take_bit_int_eq_self sint_word_ariths)

lemma sem_okD:
  assumes "sem_ok sem s"
  shows "fifo_wf (sem_waiters sem)" "distinct (waiters sem)" "t \<in> set (waiters sem) \<Longrightarrow> t \<noteq> 0"
    "t \<in> set (waiters sem) \<Longrightarrow> state_of s t = SLEEPING" "int (length (waiters sem)) = max 0 (- sint (sem_value sem))"
  using assms by (simp_all add: sem_ok_def)

lemma sem_wait_ok:
  assumes "sched_inv s" "sem_ok sem s" "c < NCPU" "ss_cur s c \<noteq> 0" "- (2 ^ 31) < sint (sem_value sem)"
  shows "\<exists>sem' s'. sem_wait c (Some sem) s = Inr (sem', s') \<and> sched_inv s' \<and> sem_ok sem' s' \<and>
    sint (sem_value sem') = sint (sem_value sem) - 1 \<and>
    waiters sem' = waiters sem @ (if sint (sem_value sem) \<le> 0 then [ss_cur s c] else []) \<and> ss_cur s c \<notin> set (waiters sem)"
proof -
  let ?t = "ss_cur s c"
  note w = sem_okD [OF assms(2)]
  have run: "state_of s ?t = RUNNING" using cur_okD(1) [OF sched_invD(3) [OF assms(1)] assms(4)] assms(3) by blast
  then have nw: "?t \<notin> set (waiters sem)" using w(4) by force
  have v: "sint (atomic_dec (sem_value sem)) = sint (sem_value sem) - 1"
    using sint_dec [OF assms(5)] by (simp add: atomic_defs)
  show ?thesis
  proof (cases "sint (sem_value sem) \<le> 0")
    case False
    then show ?thesis using assms(1) w v nw by (simp add: sem_wait_def Let_def sem_ok_def waiters_def)
  next
    case True
    obtain u where u: "block c SLEEPING s = Inr u" "sched_inv u"
      using act_inv [OF assms(1), of "Block c SLEEPING"] assms(3,4) by (auto simp: act_ok_def act_def)
    have st: "state_of u = (state_of s)(?t := SLEEPING)"
      using u(1) by (auto simp: block_def sched_out_def state_of_upd split: if_splits)
    let ?sem = "sem\<lparr>sem_value := atomic_dec (sem_value sem), sem_waiters := fifo_push ?t (sem_waiters sem)\<rparr>"
    have eq: "sem_wait c (Some sem) s = Inr (?sem, u)"
      using True v u(1) by (simp add: sem_wait_def Let_def block_def)
    have "sem_ok ?sem u" using w True nw v assms(4) st
      by (auto simp: sem_ok_def waiters_def fifo_push_def [of _ "sem_waiters sem"] fifo_wf_def)
    then show ?thesis using eq u(2) v True nw by (simp add: waiters_def fifo_push_def)
  qed
qed

lemma sem_signal_ok:
  assumes "sched_inv s" "sem_ok sem s" "sint (sem_value sem) < 2 ^ 31 - 1"
  shows "\<exists>sem' s'. sem_signal sem s = Inr (sem', s') \<and> sched_inv s' \<and> sem_ok sem' s' \<and>
    sint (sem_value sem') = sint (sem_value sem) + 1 \<and> waiters sem' = tl (waiters sem) \<and>
    ss_cur s' = ss_cur s \<and> (waiters sem \<noteq> [] \<longrightarrow> state_of s' (hd (waiters sem)) = RUNNABLE)"
proof -
  note w = sem_okD [OF assms(2)]
  have v: "sint (atomic_inc (sem_value sem)) = sint (sem_value sem) + 1"
    using sint_inc [OF assms(3)] by (simp add: atomic_defs)
  show ?thesis
  proof (cases "waiters sem")
    case Nil
    then have "0 \<le> sint (sem_value sem)" using w(5) by simp
    then show ?thesis using assms(1) w v Nil by (simp add: sem_signal_def Let_def sem_ok_def waiters_def)
  next
    case (Cons t ts)
    have neg: "sint (sem_value sem) < 0" "int (length ts) = - sint (sem_value sem) - 1" using w(5) Cons by simp_all
    have t: "t \<noteq> 0" "state_of s t = SLEEPING" using w(3,4) [of t] Cons by simp_all
    let ?u = "wakeup_process t s"
    have u: "sched_inv ?u" using act_inv [OF assms(1), of "Wake t"] t by (simp add: act_ok_def act_def)
    note i = sched_invD [OF assms(1)]
    have nr: "state_of s t \<noteq> RUNNABLE" using t(2) by simp
    note wk = wake_inv [OF i(1,2,4) nr t(1), of "\<lambda>x. x\<lparr>ti_state := RUNNABLE\<rparr>" ?u]
    have st: "state_of ?u = (state_of s)(t := RUNNABLE)" "ss_cur ?u = ss_cur s" using wk(1,4) by (simp_all add: wakeup_process_def)
    let ?w = "(sem_waiters sem)\<lparr>f_size := f_size (sem_waiters sem) - 1, f_list := ts\<rparr>"
    let ?sem = "sem\<lparr>sem_value := atomic_inc (sem_value sem), sem_waiters := ?w\<rparr>"
    have eq: "sem_signal sem s = Inr (?sem, ?u)"
      using neg(1) v Cons by (simp add: sem_signal_def Let_def fifo_pop_def waiters_def)
    have "sem_ok ?sem ?u" using w Cons v neg st by (auto simp: sem_ok_def waiters_def fifo_wf_def)
    then show ?thesis using eq u v Cons st by (simp add: waiters_def)
  qed
qed

text \<open>The other steps of the system leave sleeping threads alone.\<close>

lemma act_sleeping:
  assumes "sched_inv s" "act_ok a s" "act a s = Inr u" "state_of s t = SLEEPING" "t \<noteq> 0" "a \<noteq> Wake t"
  shows "state_of u t = SLEEPING"
proof -
  note i = sched_invD [OF assms(1)]
  have n: "ss_cur s c \<noteq> t" if "c < NCPU" for c using cur_okD(1) [OF i(3) assms(5)] assms(4) that by auto
  show ?thesis
  proof (cases a)
    case (Pick c)
    have c: "c < NCPU" using assms(2) Pick by (simp add: act_ok_def)
    have "pick_next_task s (ss_run s c) \<noteq> t"
      using assms(4,5) by (auto simp: pick_next_task_def state_of_def find_Some_iff split: option.splits)
    then show ?thesis using assms(3,4) Pick by (auto simp: act_def scheduler_def Let_def state_of_def upd_th_def)
  next
    case (Yield c)
    then show ?thesis using assms n [of c]
      by (auto simp: act_def act_ok_def yield_def sched_out_def add_runnable_task_def Let_def state_of_def upd_th_def split: if_splits)
  next
    case (Pause c)
    then show ?thesis using assms n [of c]
      by (auto simp: act_def act_ok_def do_pause_def sched_out_def add_runnable_task_def Let_def state_of_def upd_th_def split: if_splits)
  next
    case (Block c x)
    then show ?thesis using assms n [of c]
      by (auto simp: act_def act_ok_def block_def sched_out_def state_of_def upd_th_def split: if_splits)
  next
    case (Wake x)
    then show ?thesis using assms
      by (auto simp: act_def wakeup_process_def add_runnable_task_def Let_def state_of_def upd_th_def split: if_splits)
  qed
qed

lemma act_sem_ok:
  assumes "sched_inv s" "sem_ok sem s" "act_ok a s" "act a s = Inr u" "\<forall>t\<in>set (waiters sem). a \<noteq> Wake t"
  shows "sched_inv u" "sem_ok sem u"
proof -
  show "sched_inv u" using act_inv [OF assms(1,3)] assms(4) by auto
  show "sem_ok sem u" unfolding sem_ok_def
    using sem_okD [OF assms(2)] act_sleeping [OF assms(1,3,4)] assms(5) by metis
qed

section \<open>Runs of a semaphore\<close>

text \<open>
  Every interleaving of calls on one semaphore with the other steps of the scheduler.  Recorded are the threads
  that went to sleep and those that were woken, in order, and the numbers of waits and signals.
  The counter is taken not to overflow, and nobody else wakes a thread that sleeps on the semaphore.
\<close>

inductive sem_reach :: "int \<Rightarrow> sched \<Rightarrow> semaphore \<Rightarrow> sched \<Rightarrow> addr list \<Rightarrow> addr list \<Rightarrow> nat \<Rightarrow> nat \<Rightarrow> bool" for v s0 where
  sem_start: "sem_reach v s0 (sem_init (word_of_int v)) s0 [] [] 0 0"
| sem_do_wait: "sem_reach v s0 sem s bs ws i j \<Longrightarrow> c < NCPU \<Longrightarrow> ss_cur s c \<noteq> 0 \<Longrightarrow> - (2 ^ 31) < sint (sem_value sem) \<Longrightarrow>
    sem_wait c (Some sem) s = Inr (sem', s') \<Longrightarrow>
    sem_reach v s0 sem' s' (bs @ (if sint (sem_value sem') < 0 then [ss_cur s c] else [])) ws (Suc i) j"
| sem_do_signal: "sem_reach v s0 sem s bs ws i j \<Longrightarrow> sint (sem_value sem) < 2 ^ 31 - 1 \<Longrightarrow>
    sem_signal sem s = Inr (sem', s') \<Longrightarrow>
    sem_reach v s0 sem' s' bs (ws @ take 1 (waiters sem)) i (Suc j)"
| sem_other: "sem_reach v s0 sem s bs ws i j \<Longrightarrow> act_ok a s \<Longrightarrow> act a s = Inr s' \<Longrightarrow> \<forall>t\<in>set (waiters sem). a \<noteq> Wake t \<Longrightarrow>
    sem_reach v s0 sem s' bs ws i j"

lemma sem_reach_facts:
  assumes "sem_reach v s0 sem s bs ws i j" "sched_inv s0" "0 \<le> v" "v < 2 ^ 31"
  shows "sched_inv s \<and> sem_ok sem s \<and> bs = ws @ waiters sem \<and> sint (sem_value sem) = v + int j - int i"
  using assms
proof (induction rule: sem_reach.induct)
  case sem_start
  have "sint (word_of_int v :: u32) = v"
    using sem_start by (simp add: sint_uint signed_take_bit_int_eq_self unsigned_of_int take_bit_int_eq_self)
  then show ?case using sem_start by (simp add: sem_ok_def waiters_def sem_init_def fifo_init_def fifo_wf_def)
next
  case (sem_do_wait sem s bs ws i j c sem' s')
  then have k: "sched_inv s" "sem_ok sem s" "bs = ws @ waiters sem" "sint (sem_value sem) = v + int j - int i" by simp_all
  show ?case using sem_wait_ok [OF k(1,2) sem_do_wait.hyps(2,3,4)] sem_do_wait.hyps(5) k(3,4) by auto
next
  case (sem_do_signal sem s bs ws i j sem' s')
  then have k: "sched_inv s" "sem_ok sem s" "bs = ws @ waiters sem" "sint (sem_value sem) = v + int j - int i" by simp_all
  have "take 1 (waiters sem) @ tl (waiters sem) = waiters sem" by (cases "waiters sem") simp_all
  then show ?case using sem_signal_ok [OF k(1,2) sem_do_signal.hyps(2)] sem_do_signal.hyps(3) k(3,4) by auto
next
  case (sem_other sem s bs ws i j a s')
  then show ?case using act_sem_ok [of s sem a s'] by simp
qed

text \<open>
  C17: a semaphore created with value v, under any interleaving of waits, signals and scheduler steps: its value is v plus
  signals minus waits, the waits that went through are at most v plus the signals and exactly that many while a thread
  sleeps, threads are woken in the order in which they went to sleep, and no further wait or signal panics.
\<close>

theorem semaphore_correct:
  assumes "sem_reach v s0 sem s bs ws i j" "sched_inv s0" "0 \<le> v" "v < 2 ^ 31"
  shows "sint (sem_value sem) = v + int j - int i \<and>
    int i - int (length (waiters sem)) \<le> v + int j \<and>
    (waiters sem \<noteq> [] \<longrightarrow> int i - int (length (waiters sem)) = v + int j) \<and>
    bs = ws @ waiters sem \<and>
    (sint (sem_value sem) < 2 ^ 31 - 1 \<longrightarrow> (\<exists>r. sem_signal sem s = Inr r)) \<and>
    (\<forall>c<NCPU. ss_cur s c \<noteq> 0 \<longrightarrow> - (2 ^ 31) < sint (sem_value sem) \<longrightarrow> (\<exists>r. sem_wait c (Some sem) s = Inr r))"
proof -
  have f: "sched_inv s" "sem_ok sem s" "bs = ws @ waiters sem" "sint (sem_value sem) = v + int j - int i"
    using sem_reach_facts [OF assms] by simp_all
  have l: "int (length (waiters sem)) = max 0 (- (v + int j - int i))" using sem_okD(5) [OF f(2)] f(4) by simp
  then have 1: "int i - int (length (waiters sem)) \<le> v + int j" by simp
  have "0 < int (length (waiters sem))" if "waiters sem \<noteq> []" using that by simp
  then have 2: "waiters sem \<noteq> [] \<longrightarrow> int i - int (length (waiters sem)) = v + int j" using l by linarith
  have 3: "sint (sem_value sem) < 2 ^ 31 - 1 \<longrightarrow> (\<exists>r. sem_signal sem s = Inr r)" using sem_signal_ok [OF f(1,2)] by blast
  have 4: "\<forall>c<NCPU. ss_cur s c \<noteq> 0 \<longrightarrow> - (2 ^ 31) < sint (sem_value sem) \<longrightarrow> (\<exists>r. sem_wait c (Some sem) s = Inr r)"
    using sem_wait_ok [OF f(1,2)] by blast
  show ?thesis using f(3,4) 1 2 3 4 by blast
qed

lemma sem_example:
  "\<exists>sem s. sem_reach 0 sched_example sem s [5] [] 1 0"
proof -
  have "ss_cur sched_example 0 = 5" by (simp add: sched_example_def)
  moreover have "sem_ok (sem_init (word_of_int 0)) sched_example" by (simp add: sem_ok_def waiters_def sem_init_def fifo_init_def fifo_wf_def)
  ultimately obtain sem s where "sem_wait 0 (Some (sem_init (word_of_int 0))) sched_example = Inr (sem, s)" "sint (sem_value sem) < 0"
    using sem_wait_ok [OF sched_example_inv, of "sem_init (word_of_int 0)" 0] by (auto simp: NCPU_def sem_init_def)
  then show ?thesis
    using sem_do_wait [OF sem_start, of 0 sched_example 0 sem s] by (auto simp: NCPU_def sched_example_def sem_init_def)
qed

theorem semaphore_correct_witness:
  "\<exists>sem s. sem_reach 0 sched_example sem s [5] [] 1 0 \<and> waiters sem = [5] \<and> (\<exists>r. sem_signal sem s = Inr r)"
proof -
  obtain sem s where r: "sem_reach 0 sched_example sem s [5] [] 1 0" using sem_example by blast
  then show ?thesis using semaphore_correct [OF r sched_example_inv] by auto
qed

section \<open>Mutual exclusion by a mutex\<close>

text \<open>Where a thread stands: outside, between the two halves of \<open>mutex_lock\<close>, or inside the critical section.\<close>

datatype mpc = MOut | MEntered | MHeld

record mutex_sys =
  ms_mx :: mutex
  ms_s :: sched
  ms_pc :: "addr \<Rightarrow> mpc"

definition goto_pc :: "addr \<Rightarrow> mpc \<Rightarrow> mutex \<Rightarrow> sched \<Rightarrow> mutex_sys \<Rightarrow> mutex_sys" where
  "goto_pc t p m s y = y\<lparr>ms_mx := m, ms_s := s, ms_pc := (ms_pc y)(t := p)\<rparr>"

inductive mutex_reach :: "sched \<Rightarrow> mutex_sys \<Rightarrow> bool" for s0 where
  mutex_start: "mutex_reach s0 \<lparr>ms_mx = mutex_init, ms_s = s0, ms_pc = (\<lambda>_. MOut)\<rparr>"
| mutex_do_wait: "mutex_reach s0 y \<Longrightarrow> c < NCPU \<Longrightarrow> ss_cur (ms_s y) c = t \<Longrightarrow> t \<noteq> 0 \<Longrightarrow> ms_pc y t = MOut \<Longrightarrow>
    - (2 ^ 31) < sint (sem_value (mx_sem (ms_mx y))) \<Longrightarrow>
    mutex_lock_wait c (ms_mx y) (ms_s y) = Inr (m, s) \<Longrightarrow> mutex_reach s0 (goto_pc t MEntered m s y)"
| mutex_do_take: "mutex_reach s0 y \<Longrightarrow> c < NCPU \<Longrightarrow> ss_cur (ms_s y) c = t \<Longrightarrow> t \<noteq> 0 \<Longrightarrow> ms_pc y t = MEntered \<Longrightarrow>
    mutex_reach s0 (goto_pc t MHeld (mutex_lock_take c (ms_mx y) (ms_s y)) (ms_s y) y)"
| mutex_do_unlock: "mutex_reach s0 y \<Longrightarrow> c < NCPU \<Longrightarrow> ss_cur (ms_s y) c = t \<Longrightarrow> t \<noteq> 0 \<Longrightarrow> ms_pc y t = MHeld \<Longrightarrow>
    mutex_unlock (ms_mx y) (ms_s y) = Inr (m, s) \<Longrightarrow> mutex_reach s0 (goto_pc t MOut m s y)"
| mutex_other: "mutex_reach s0 y \<Longrightarrow> act_ok a (ms_s y) \<Longrightarrow> act a (ms_s y) = Inr s \<Longrightarrow>
    \<forall>t\<in>set (waiters (mx_sem (ms_mx y))). a \<noteq> Wake t \<Longrightarrow> mutex_reach s0 (y\<lparr>ms_s := s\<rparr>)"

text \<open>The owners: threads that have passed the semaphore and not yet signalled it.\<close>

definition owner :: "mutex_sys \<Rightarrow> addr \<Rightarrow> bool" where
  "owner y t = (ms_pc y t = MHeld \<or> ms_pc y t = MEntered \<and> t \<notin> set (waiters (mx_sem (ms_mx y))))"

definition own_ok :: "mutex_sys \<Rightarrow> bool" where
  "own_ok y = ((if sint (sem_value (mx_sem (ms_mx y))) \<le> 0 then \<exists>h. \<forall>t. owner y t \<longleftrightarrow> t = h else \<forall>t. \<not> owner y t) \<and>
    sint (sem_value (mx_sem (ms_mx y))) \<le> 1)"

definition field_ok :: "mutex_sys \<Rightarrow> bool" where
  "field_ok y = (\<forall>t. t \<noteq> 0 \<longrightarrow> (ms_pc y t = MHeld \<longleftrightarrow> mx_locked (ms_mx y) \<noteq> 0 \<and> mx_thread (ms_mx y) = t))"

definition mutex_inv :: "mutex_sys \<Rightarrow> bool" where
  "mutex_inv y = (sched_inv (ms_s y) \<and> sem_ok (mx_sem (ms_mx y)) (ms_s y) \<and>
    (\<forall>t\<in>set (waiters (mx_sem (ms_mx y))). ms_pc y t = MEntered) \<and> ms_pc y 0 = MOut \<and> own_ok y \<and> field_ok y)"

lemma mutex_invD:
  assumes "mutex_inv y"
  shows "sched_inv (ms_s y)" "sem_ok (mx_sem (ms_mx y)) (ms_s y)"
    "t \<in> set (waiters (mx_sem (ms_mx y))) \<Longrightarrow> ms_pc y t = MEntered" "ms_pc y 0 = MOut" "own_ok y" "field_ok y"
  using assms by (simp_all add: mutex_inv_def)

lemma running_not_waiting:
  assumes "mutex_inv y" "c < NCPU" "ss_cur (ms_s y) c = t" "t \<noteq> 0"
  shows "t \<notin> set (waiters (mx_sem (ms_mx y)))"
proof -
  have "state_of (ms_s y) t = RUNNING" using cur_okD(1) [OF sched_invD(3) [OF mutex_invD(1) [OF assms(1)]] assms(4)] assms(2,3) by blast
  then show ?thesis using sem_okD(4) [OF mutex_invD(2) [OF assms(1)], of t] by auto
qed

lemma mutex_wait_inv:
  assumes "mutex_inv y" "c < NCPU" "ss_cur (ms_s y) c = t" "t \<noteq> 0" "ms_pc y t = MOut"
    "- (2 ^ 31) < sint (sem_value (mx_sem (ms_mx y)))" "mutex_lock_wait c (ms_mx y) (ms_s y) = Inr (m, s)"
  shows "mutex_inv (goto_pc t MEntered m s y)"
proof -
  note i = mutex_invD [OF assms(1)]
  let ?sem = "mx_sem (ms_mx y)"
  have t0: "ss_cur (ms_s y) c \<noteq> 0" using assms(3,4) by simp
  obtain sem where sem: "m = (ms_mx y)\<lparr>mx_sem := sem\<rparr>" "sched_inv s" "sem_ok sem s"
    "sint (sem_value sem) = sint (sem_value ?sem) - 1" "waiters sem = waiters ?sem @ (if sint (sem_value ?sem) \<le> 0 then [t] else [])"
    using sem_wait_ok [OF i(1,2) assms(2) t0 assms(6)] assms(3,7) unfolding mutex_lock_wait_def by auto
  let ?y = "goto_pc t MEntered m s y"
  have own: "owner ?y u = (if u = t then \<not> sint (sem_value ?sem) \<le> 0 else owner y u)" for u
    using running_not_waiting [OF assms(1-4)] by (auto simp: owner_def goto_pc_def sem(1,5))
  have no: "\<not> owner y t" using assms(5) by (simp add: owner_def)
  have "own_ok ?y"
  proof (cases "sint (sem_value ?sem) \<le> 0")
    case True
    then obtain h where h: "\<forall>u. owner y u \<longleftrightarrow> u = h" using i(5) by (auto simp: own_ok_def)
    then have "\<forall>u. owner ?y u \<longleftrightarrow> u = h" using own no True by metis
    then show ?thesis using True by (auto simp: own_ok_def goto_pc_def sem(1,4))
  next
    case False
    then have "\<forall>u. owner ?y u \<longleftrightarrow> u = t" "sint (sem_value ?sem) = 1" using i(5) own by (auto simp: own_ok_def)
    then show ?thesis by (auto simp: own_ok_def goto_pc_def sem(1,4))
  qed
  moreover have "(ms_pc ?y u = MHeld) = (ms_pc y u = MHeld)" for u using assms(5) by (simp add: goto_pc_def)
  then have "field_ok ?y" using i(6) by (simp add: field_ok_def) (simp add: goto_pc_def sem(1))
  moreover have "\<forall>u\<in>set (waiters sem). ms_pc ?y u = MEntered" using i(3) sem(5) by (auto simp: goto_pc_def)
  ultimately show ?thesis using sem(1-3) i(4) assms(4) by (simp add: mutex_inv_def goto_pc_def)
qed

lemma mutex_take_inv:
  assumes "mutex_inv y" "c < NCPU" "ss_cur (ms_s y) c = t" "t \<noteq> 0" "ms_pc y t = MEntered"
  shows "mutex_inv (goto_pc t MHeld (mutex_lock_take c (ms_mx y) (ms_s y)) (ms_s y) y)"
proof -
  note i = mutex_invD [OF assms(1)]
  let ?y = "goto_pc t MHeld (mutex_lock_take c (ms_mx y) (ms_s y)) (ms_s y) y"
  note nw = running_not_waiting [OF assms(1-4)]
  have ot: "owner y t" using nw assms(5) by (simp add: owner_def)
  then have only: "u = t" if "owner y u" for u using i(5) that by (auto simp: own_ok_def split: if_splits)
  have mx: "mx_sem (ms_mx ?y) = mx_sem (ms_mx y)" by (simp add: goto_pc_def mutex_lock_take_def)
  have "owner ?y u = owner y u" for u
    using ot by (cases "u = t") (simp_all add: owner_def mx, simp_all add: goto_pc_def)
  then have "own_ok ?y" using i(5) by (simp add: own_ok_def mx)
  moreover have "ms_pc y u \<noteq> MHeld" if "u \<noteq> t" for u using only [of u] that by (auto simp: owner_def)
  then have "field_ok ?y" using assms(3) by (auto simp: field_ok_def goto_pc_def mutex_lock_take_def MUTEX_LOCK_def)
  moreover have "\<forall>u\<in>set (waiters (mx_sem (ms_mx y))). ms_pc ?y u = MEntered" using i(3) nw by (auto simp: goto_pc_def)
  ultimately show ?thesis using i(1,2,4) assms(4) unfolding mutex_inv_def mx by (simp add: goto_pc_def)
qed

lemma mutex_unlock_inv:
  assumes "mutex_inv y" "c < NCPU" "ss_cur (ms_s y) c = t" "t \<noteq> 0" "ms_pc y t = MHeld"
  shows "\<exists>m s. mutex_unlock (ms_mx y) (ms_s y) = Inr (m, s) \<and> mutex_inv (goto_pc t MOut m s y)"
proof -
  note i = mutex_invD [OF assms(1)]
  let ?sem = "mx_sem (ms_mx y)"
  have ot: "owner y t" using assms(5) by (simp add: owner_def)
  then have v: "sint (sem_value ?sem) \<le> 0" and only: "owner y u \<longleftrightarrow> u = t" for u
    using i(5) by (auto simp: own_ok_def split: if_splits)
  have vb: "sint (sem_value ?sem) < 2 ^ 31 - 1" using v by simp
  obtain sem s where sem: "sem_signal ?sem (ms_s y) = Inr (sem, s)" "sched_inv s" "sem_ok sem s"
    "sint (sem_value sem) = sint (sem_value ?sem) + 1" "waiters sem = tl (waiters ?sem)"
    using sem_signal_ok [OF i(1,2) vb] by blast
  let ?m = "(ms_mx y)\<lparr>mx_locked := MUTEX_UNLOCK, mx_thread := 0, mx_sem := sem\<rparr>"
  let ?y = "goto_pc t MOut ?m s y"
  have eq: "mutex_unlock (ms_mx y) (ms_s y) = Inr (?m, s)" using sem(1) by (simp add: mutex_unlock_def Let_def)
  note nw = running_not_waiting [OF assms(1-4)]
  have held: "ms_pc y u \<noteq> MHeld" if "u \<noteq> t" for u using only [of u] that by (auto simp: owner_def)
  have ent: "ms_pc y u = MEntered \<longleftrightarrow> u \<in> set (waiters ?sem)" if "u \<noteq> t" for u
    using only [of u] that i(3) by (auto simp: owner_def)
  have own: "owner ?y u \<longleftrightarrow> u \<noteq> t \<and> u \<in> set (waiters ?sem) \<and> u \<notin> set (tl (waiters ?sem))" for u
    using held ent by (auto simp: owner_def goto_pc_def sem(5))
  have "own_ok ?y"
  proof (cases "waiters ?sem")
    case Nil
    then have "sint (sem_value ?sem) = 0" using sem_okD(5) [OF i(2)] v by simp
    then show ?thesis using own Nil by (simp add: own_ok_def sem(4)) (simp add: goto_pc_def sem(4))
  next
    case (Cons h hs)
    then have "sint (sem_value ?sem) < 0" using sem_okD(5) [OF i(2)] by simp
    moreover have "owner ?y u \<longleftrightarrow> u = h" for u using own sem_okD(2) [OF i(2)] nw Cons by auto
    ultimately show ?thesis by (auto simp: own_ok_def goto_pc_def sem(4))
  qed
  moreover have "field_ok ?y" using held by (auto simp: field_ok_def goto_pc_def MUTEX_UNLOCK_def)
  moreover have "\<forall>u\<in>set (waiters sem). ms_pc ?y u = MEntered"
    using i(3) nw list.set_sel(2) [of "waiters ?sem"] sem(5) by (cases "waiters ?sem") (auto simp: goto_pc_def)
  ultimately have "mutex_inv ?y" using sem(2,3) i(4) assms(4) by (simp add: mutex_inv_def goto_pc_def)
  then show ?thesis using eq by blast
qed

lemma mutex_reach_inv:
  assumes "mutex_reach s0 y" "sched_inv s0"
  shows "mutex_inv y"
  using assms
proof (induction rule: mutex_reach.induct)
  case mutex_start
  then show ?case
    by (simp add: mutex_inv_def mutex_init_def sem_init_def sem_ok_def waiters_def fifo_init_def fifo_wf_def own_ok_def owner_def
        field_ok_def MUTEX_LOCK_def)
next
  case (mutex_do_wait y c t m s)
  then show ?case using mutex_wait_inv by blast
next
  case (mutex_do_take y c t)
  then show ?case using mutex_take_inv by blast
next
  case (mutex_do_unlock y c t m s)
  then have "mutex_inv y" by blast
  from mutex_unlock_inv [OF this mutex_do_unlock.hyps(2-5)] show ?case using mutex_do_unlock.hyps(6) by auto
next
  case (mutex_other y a s)
  then have i: "mutex_inv y" by blast
  note j = mutex_invD [OF i]
  have "owner (y\<lparr>ms_s := s\<rparr>) = owner y" by (simp add: owner_def fun_eq_iff)
  then show ?case using j act_sem_ok [OF j(1,2) mutex_other.hyps(2-4)]
    by (simp add: mutex_inv_def own_ok_def field_ok_def)
qed

text \<open>
  C18: a mutex (a sleep lock) under any interleaving of lock and unlock calls with the other steps of the
  scheduler: at most one thread is past \<open>sem_wait\<close> at a time, \<open>mutex_is_hold\<close> answers exactly whether the calling thread holds it,
  and unlocking by the holder never panics and hands the mutex to the first waiter.
\<close>

theorem mutex_exclusion:
  assumes "mutex_reach s0 y" "sched_inv s0"
  shows "(\<forall>t u. owner y t \<longrightarrow> owner y u \<longrightarrow> t = u) \<and>
    (\<forall>c<NCPU. ss_cur (ms_s y) c \<noteq> 0 \<longrightarrow>
      (mutex_is_hold c (ms_mx y) (ms_s y) \<longleftrightarrow> ms_pc y (ss_cur (ms_s y) c) = MHeld) \<and>
      (ms_pc y (ss_cur (ms_s y) c) = MHeld \<longrightarrow>
        (\<exists>m s. mutex_unlock (ms_mx y) (ms_s y) = Inr (m, s) \<and>
          (waiters (mx_sem (ms_mx y)) \<noteq> [] \<longrightarrow>
            owner (goto_pc (ss_cur (ms_s y) c) MOut m s y) (hd (waiters (mx_sem (ms_mx y))))))))"
proof -
  have i: "mutex_inv y" by (rule mutex_reach_inv [OF assms])
  note j = mutex_invD [OF i]
  have 1: "t = u" if "owner y t" "owner y u" for t u
    using j(5) that by (auto simp: own_ok_def split: if_splits)
  have 2: "mutex_is_hold c (ms_mx y) (ms_s y) \<longleftrightarrow> ms_pc y (ss_cur (ms_s y) c) = MHeld" if "ss_cur (ms_s y) c \<noteq> 0" for c
    using j(6) that by (auto simp: field_ok_def mutex_is_hold_def)
  have 3: "\<exists>m s. mutex_unlock (ms_mx y) (ms_s y) = Inr (m, s) \<and> (waiters (mx_sem (ms_mx y)) \<noteq> [] \<longrightarrow>
      owner (goto_pc (ss_cur (ms_s y) c) MOut m s y) (hd (waiters (mx_sem (ms_mx y)))))"
    if c: "c < NCPU" "ss_cur (ms_s y) c \<noteq> 0" "ms_pc y (ss_cur (ms_s y) c) = MHeld" for c
  proof -
    let ?t = "ss_cur (ms_s y) c" and ?w = "waiters (mx_sem (ms_mx y))"
    obtain m s where m: "mutex_unlock (ms_mx y) (ms_s y) = Inr (m, s)"
      using mutex_unlock_inv [OF i c(1) refl c(2,3)] by blast
    have "owner y ?t" using c(3) by (simp add: owner_def)
    then have vb: "sint (sem_value (mx_sem (ms_mx y))) < 2 ^ 31 - 1" using j(5) by (auto simp: own_ok_def split: if_splits)
    have w: "waiters (mx_sem m) = tl ?w"
      using sem_signal_ok [OF j(1,2) vb] m by (auto simp: mutex_unlock_def Let_def)
    note nw = running_not_waiting [OF i c(1) refl c(2)]
    have "owner (goto_pc ?t MOut m s y) (hd ?w)" if "?w \<noteq> []"
      using that nw j(3) [of "hd ?w"] sem_okD(2) [OF j(2)] w by (cases ?w) (auto simp: owner_def goto_pc_def)
    then show ?thesis using m by blast
  qed
  show ?thesis using 1 2 3 by blast
qed

lemma mutex_example: "\<exists>y. mutex_reach sched_example y \<and> ms_pc y 5 = MHeld \<and> ss_cur (ms_s y) 0 = 5"
proof -
  let ?y = "\<lparr>ms_mx = mutex_init, ms_s = sched_example, ms_pc = (\<lambda>_. MOut)\<rparr>"
  let ?m = "mutex_init\<lparr>mx_sem := sem_init 0\<rparr>"
  have c: "ss_cur sched_example 0 = 5" by (simp add: sched_example_def)
  have l: "mutex_lock_wait 0 mutex_init sched_example = Inr (?m, sched_example)"
    by (simp add: mutex_lock_wait_def mutex_init_def sem_wait_def sem_init_def MUTEX_LOCK_def atomic_defs)
  have 1: "mutex_reach sched_example (goto_pc 5 MEntered ?m sched_example ?y)"
    by (rule mutex_do_wait [OF mutex_start, of 0]) (simp_all add: NCPU_def c l, simp add: mutex_init_def sem_init_def MUTEX_LOCK_def)
  have "mutex_reach sched_example (goto_pc 5 MHeld (mutex_lock_take 0 ?m sched_example) sched_example (goto_pc 5 MEntered ?m sched_example ?y))"
    using mutex_do_take [OF 1, of 0 5] by (simp add: NCPU_def c goto_pc_def)
  then show ?thesis using c by (intro exI conjI) (auto simp: goto_pc_def)
qed

theorem mutex_exclusion_witness:
  "\<exists>y. mutex_reach sched_example y \<and> mutex_is_hold 0 (ms_mx y) (ms_s y)"
proof -
  obtain y where y: "mutex_reach sched_example y" "ms_pc y 5 = MHeld" "ss_cur (ms_s y) 0 = 5" using mutex_example by blast
  then show ?thesis using mutex_exclusion [OF y(1) sched_example_inv] by (auto simp: NCPU_def)
qed

end
