(* ===== verification/Rwlock.thy ===== *)
theory Rwlock
  imports Semaphore
begin

text \<open>
  kernel/locks/rwlock.c and include/core/locks/rwlock.h: the readers-writer lock with reader or writer
  priority.  Every section under the spin lock of the rwlock is one step; \<open>read_lock\<close> and \<open>write_lock\<close> are cut where
  the thread sleeps, and a thread that sleeps keeps its own lock until it has left its core, as in \<open>sem_wait\<close>.
\<close>

section \<open>Operations\<close>

unbundle bit_operations_syntax

record rwlock =
  rw_flags :: u32
  rw_r_cnt :: int
  rw_readers :: "addr fifo"
  rw_writers :: "addr fifo"

definition SET_FLAG :: "u32 \<Rightarrow> u32 \<Rightarrow> u32" where "SET_FLAG flags flag = flags OR flag"

definition CLEAR_FLAG :: "u32 \<Rightarrow> u32 \<Rightarrow> u32" where "CLEAR_FLAG flags flag = flags AND NOT flag"

definition TEST_FLAG :: "u32 \<Rightarrow> u32 \<Rightarrow> u32" where "TEST_FLAG flags flag = flags AND flag"

definition RW_PRIOR :: u32 where "RW_PRIOR = push_bit 0 1"

definition WRITING :: u32 where "WRITING = push_bit 1 1"

definition get_rw_prior :: "rwlock \<Rightarrow> u32" where
  "get_rw_prior rw = rw_flags rw AND RW_PRIOR"

definition set_rw_prior :: "u32 \<Rightarrow> rwlock \<Rightarrow> rwlock" where
  "set_rw_prior prior rw = rw\<lparr>rw_flags := SET_FLAG (rw_flags rw) prior\<rparr>"

text \<open>The flags are not stored before the priority is set, so the old contents of the memory are the argument.\<close>

definition rwlock_init :: "u32 \<Rightarrow> rwlock \<Rightarrow> rwlock" where
  "rwlock_init prior rw = (set_rw_prior prior rw)\<lparr>rw_r_cnt := 0, rw_readers := fifo_init, rw_writers := fifo_init\<rparr>"

text \<open>\<open>list_empty(&t->sched)\<close>: the node of the thread is on no run queue and on none of the two queues.\<close>

definition node_free :: "addr \<Rightarrow> rwlock \<Rightarrow> sched \<Rightarrow> bool" where
  "node_free t rw s = ((\<forall>c<NCPU. t \<notin> set (ss_run s c)) \<and> t \<notin> set (f_list (rw_readers rw)) \<and> t \<notin> set (f_list (rw_writers rw)))"

definition sleep_fifo :: "addr \<Rightarrow> bool \<Rightarrow> addr fifo \<Rightarrow> sched \<Rightarrow> (addr fifo \<times> sched) kres" where
  "sleep_fifo t free fifo s =
    kbind (kassert free ''__sleep_fifo list_empty(&t->sched)'') (\<lambda>_.
    Inr (fifo_push t fifo, upd_th t (\<lambda>x. x\<lparr>ti_state := SLEEPING\<rparr>) s))"

definition wakeup_fifo :: "addr fifo \<Rightarrow> sched \<Rightarrow> (addr fifo \<times> sched) kres" where
  "wakeup_fifo fifo s = (case fifo_pop fifo of
      (Some t, f) \<Rightarrow> Inr (f, wakeup_process t s)
    | (None, f) \<Rightarrow> Inl (Panic ''__wakeup_fifo: queue may have a race condition''))"

definition wakeup_reader :: "rwlock \<Rightarrow> sched \<Rightarrow> (rwlock \<times> sched) kres" where
  "wakeup_reader rw s =
    (if fifo_empty (rw_readers rw) then Inr (rw, s)
     else kbind (wakeup_fifo (rw_readers rw) s) (\<lambda>(f, s1). Inr (rw\<lparr>rw_readers := f\<rparr>, s1)))"

definition wakeup_writer :: "rwlock \<Rightarrow> sched \<Rightarrow> (rwlock \<times> sched) kres" where
  "wakeup_writer rw s =
    (if fifo_empty (rw_writers rw) then Inr (rw, s)
     else let rw1 = rw\<lparr>rw_flags := SET_FLAG (rw_flags rw) WRITING\<rparr>
       in kbind (wakeup_fifo (rw_writers rw1) s) (\<lambda>(f, s1). Inr (rw1\<lparr>rw_writers := f\<rparr>, s1)))"

definition sleep_reader :: "nat \<Rightarrow> rwlock \<Rightarrow> sched \<Rightarrow> (rwlock \<times> sched) kres" where
  "sleep_reader c rw s =
    (let t = ss_cur s c
     in kbind (sleep_fifo t (node_free t rw s) (rw_readers rw) s) (\<lambda>(f, s1).
        kbind (sched_out c s1) (\<lambda>s2. Inr (rw\<lparr>rw_readers := f\<rparr>, s2))))"

definition sleep_writer :: "nat \<Rightarrow> rwlock \<Rightarrow> sched \<Rightarrow> (rwlock \<times> sched) kres" where
  "sleep_writer c rw s =
    (let t = ss_cur s c
     in kbind (sleep_fifo t (node_free t rw s) (rw_writers rw) s) (\<lambda>(f, s1).
        kbind (sched_out c s1) (\<lambda>s2. Inr (rw\<lparr>rw_writers := f\<rparr>, s2))))"

text \<open>\<open>read_lock\<close> from the label \<open>retry\<close>, entered again after every sleep; the flag tells whether the lock was taken.\<close>

definition read_lock :: "nat \<Rightarrow> rwlock \<Rightarrow> sched \<Rightarrow> (bool \<times> rwlock \<times> sched) kres" where
  "read_lock c rw s =
    (if TEST_FLAG (rw_flags rw) WRITING = WRITING then kbind (sleep_reader c rw s) (\<lambda>(rw1, s1). Inr (False, rw1, s1))
     else if get_rw_prior rw \<noteq> 0 \<and> \<not> fifo_empty (rw_writers rw) then kbind (sleep_reader c rw s) (\<lambda>(rw1, s1). Inr (False, rw1, s1))
     else kbind (wakeup_reader rw s) (\<lambda>(rw1, s1). Inr (True, rw1\<lparr>rw_r_cnt := rw_r_cnt rw1 + 1\<rparr>, s1)))"

definition read_unlock :: "rwlock \<Rightarrow> sched \<Rightarrow> (rwlock \<times> sched) kres" where
  "read_unlock rw s =
    (let rw1 = rw\<lparr>rw_r_cnt := rw_r_cnt rw - 1\<rparr>
     in if rw_r_cnt rw1 = 0 \<and> \<not> fifo_empty (rw_writers rw1) then wakeup_writer rw1 s else Inr (rw1, s))"

text \<open>\<open>write_lock\<close> up to the sleep, and the store it makes after the sleep or at once.\<close>

definition write_lock_mark :: "rwlock \<Rightarrow> rwlock" where
  "write_lock_mark rw = rw\<lparr>rw_flags := SET_FLAG (rw_flags rw) WRITING\<rparr>"

definition write_lock :: "nat \<Rightarrow> rwlock \<Rightarrow> sched \<Rightarrow> (bool \<times> rwlock \<times> sched) kres" where
  "write_lock c rw s =
    (if rw_r_cnt rw \<noteq> 0 \<or> TEST_FLAG (rw_flags rw) WRITING = WRITING
     then kbind (sleep_writer c rw s) (\<lambda>(rw1, s1). Inr (False, rw1, s1))
     else Inr (True, write_lock_mark rw, s))"

definition write_unlock :: "rwlock \<Rightarrow> sched \<Rightarrow> (rwlock \<times> sched) kres" where
  "write_unlock rw s =
    (let rw1 = rw\<lparr>rw_flags := CLEAR_FLAG (rw_flags rw) WRITING\<rparr>;
         res = (get_rw_prior rw1 = 0 \<and> \<not> fifo_empty (rw_readers rw1)) \<or> (get_rw_prior rw1 \<noteq> 0 \<and> fifo_empty (rw_writers rw1))
     in if res then wakeup_reader rw1 s else wakeup_writer rw1 s)"

section \<open>The system\<close>

datatype rpc = RWOut | RTry | RHeld | WTry | WHeld

record rw_sys =
  rs_rw :: rwlock
  rs_s :: sched
  rs_pc :: "addr \<Rightarrow> rpc"

definition rgoto :: "addr \<Rightarrow> rpc \<Rightarrow> rwlock \<Rightarrow> sched \<Rightarrow> rw_sys \<Rightarrow> rw_sys" where
  "rgoto t p rw s y = y\<lparr>rs_rw := rw, rs_s := s, rs_pc := (rs_pc y)(t := p)\<rparr>"

abbreviation running :: "rw_sys \<Rightarrow> nat \<Rightarrow> addr \<Rightarrow> bool" where
  "running y c t \<equiv> c < NCPU \<and> ss_cur (rs_s y) c = t \<and> t \<noteq> 0"

definition rs_readers :: "rw_sys \<Rightarrow> addr list" where "rs_readers y = f_list (rw_readers (rs_rw y))"

definition rs_writers :: "rw_sys \<Rightarrow> addr list" where "rs_writers y = f_list (rw_writers (rs_rw y))"

inductive rw_reach :: "rwlock \<Rightarrow> sched \<Rightarrow> rw_sys \<Rightarrow> bool" for rw0 s0 where
  rw_start: "rw_reach rw0 s0 \<lparr>rs_rw = rw0, rs_s = s0, rs_pc = (\<lambda>_. RWOut)\<rparr>"
| rw_read: "rw_reach rw0 s0 y \<Longrightarrow> running y c t \<Longrightarrow> rs_pc y t \<in> {RWOut, RTry} \<Longrightarrow>
    read_lock c (rs_rw y) (rs_s y) = Inr (ok, rw, s) \<Longrightarrow> rw_reach rw0 s0 (rgoto t (if ok then RHeld else RTry) rw s y)"
| rw_read_end: "rw_reach rw0 s0 y \<Longrightarrow> running y c t \<Longrightarrow> rs_pc y t = RHeld \<Longrightarrow>
    read_unlock (rs_rw y) (rs_s y) = Inr (rw, s) \<Longrightarrow> rw_reach rw0 s0 (rgoto t RWOut rw s y)"
| rw_write: "rw_reach rw0 s0 y \<Longrightarrow> running y c t \<Longrightarrow> rs_pc y t = RWOut \<Longrightarrow>
    write_lock c (rs_rw y) (rs_s y) = Inr (ok, rw, s) \<Longrightarrow> rw_reach rw0 s0 (rgoto t (if ok then WHeld else WTry) rw s y)"
| rw_write_resume: "rw_reach rw0 s0 y \<Longrightarrow> running y c t \<Longrightarrow> rs_pc y t = WTry \<Longrightarrow>
    rw_reach rw0 s0 (rgoto t WHeld (write_lock_mark (rs_rw y)) (rs_s y) y)"
| rw_write_end: "rw_reach rw0 s0 y \<Longrightarrow> running y c t \<Longrightarrow> rs_pc y t = WHeld \<Longrightarrow>
    write_unlock (rs_rw y) (rs_s y) = Inr (rw, s) \<Longrightarrow> rw_reach rw0 s0 (rgoto t RWOut rw s y)"
| rw_other: "rw_reach rw0 s0 y \<Longrightarrow> act_ok a (rs_s y) \<Longrightarrow> act a (rs_s y) = Inr s \<Longrightarrow>
    \<forall>t\<in>set (rs_readers y) \<union> set (rs_writers y). a \<noteq> Wake t \<Longrightarrow> rw_reach rw0 s0 (y\<lparr>rs_s := s\<rparr>)"

section \<open>Invariant\<close>

definition is_writing :: "rwlock \<Rightarrow> bool" where "is_writing rw = bit (rw_flags rw) 1"

definition is_wprior :: "rwlock \<Rightarrow> bool" where "is_wprior rw = bit (rw_flags rw) 0"

text \<open>Writers that own the lock, readers that own it, and readers on their way to another try.\<close>

definition wown :: "rw_sys \<Rightarrow> addr set" where
  "wown y = {t. rs_pc y t = WHeld \<or> rs_pc y t = WTry \<and> t \<notin> set (rs_writers y)}"

definition rheld :: "rw_sys \<Rightarrow> addr set" where "rheld y = {t. rs_pc y t = RHeld}"

definition rflight :: "rw_sys \<Rightarrow> addr set" where "rflight y = {t. rs_pc y t = RTry \<and> t \<notin> set (rs_readers y)}"

definition queues_ok :: "rw_sys \<Rightarrow> bool" where
  "queues_ok y = (fifo_wf (rw_readers (rs_rw y)) \<and> fifo_wf (rw_writers (rs_rw y)) \<and>
    distinct (rs_readers y) \<and> distinct (rs_writers y) \<and>
    (\<forall>t\<in>set (rs_readers y). rs_pc y t = RTry) \<and> (\<forall>t\<in>set (rs_writers y). rs_pc y t = WTry) \<and> rs_pc y 0 = RWOut)"

definition sleepers_ok :: "rw_sys \<Rightarrow> bool" where
  "sleepers_ok y = (sched_inv (rs_s y) \<and> (\<forall>t\<in>set (rs_readers y) \<union> set (rs_writers y). state_of (rs_s y) t = SLEEPING))"

definition excl_ok :: "rw_sys \<Rightarrow> bool" where
  "excl_ok y = (finite (rheld y) \<and> rw_r_cnt (rs_rw y) = int (card (rheld y)) \<and>
    (if is_writing (rs_rw y) then (\<exists>h. wown y = {h}) \<and> rheld y = {} else wown y = {}))"

definition progress_ok :: "rw_sys \<Rightarrow> bool" where
  "progress_ok y = ((rs_writers y \<noteq> [] \<longrightarrow> is_writing (rs_rw y) \<or> rheld y \<noteq> {} \<or> (\<not> is_wprior (rs_rw y) \<and> rflight y \<noteq> {})) \<and>
    (rs_readers y \<noteq> [] \<longrightarrow> is_writing (rs_rw y) \<or> rflight y \<noteq> {} \<or> rs_writers y \<noteq> []))"

definition rw_inv :: "rw_sys \<Rightarrow> bool" where
  "rw_inv y = (queues_ok y \<and> sleepers_ok y \<and> excl_ok y \<and> progress_ok y)"

section \<open>Flags\<close>

lemma flag_bits: "bit WRITING n \<longleftrightarrow> n = 1" "bit RW_PRIOR n \<longleftrightarrow> n = 0"
  by (auto simp: WRITING_def RW_PRIOR_def bit_simps)

lemma and_flag: "f AND WRITING = (if bit f 1 then WRITING else 0)" "f AND RW_PRIOR = (if bit f 0 then RW_PRIOR else 0)"
proof -
  show "f AND WRITING = (if bit f 1 then WRITING else 0)"
  proof (rule bit_eqI)
    show "bit (f AND WRITING) n = bit (if bit f 1 then WRITING else 0) n" for n
      by (cases "n = 1") (simp_all add: bit_and_iff flag_bits)
  qed
  show "f AND RW_PRIOR = (if bit f 0 then RW_PRIOR else 0)"
  proof (rule bit_eqI)
    show "bit (f AND RW_PRIOR) n = bit (if bit f 0 then RW_PRIOR else 0) n" for n
      by (cases "n = 0") (simp_all add: bit_and_iff flag_bits)
  qed
qed

lemma flags_nonzero: "WRITING \<noteq> 0" "RW_PRIOR \<noteq> 0"
  by (simp_all add: WRITING_def RW_PRIOR_def)

lemma test_writing: "TEST_FLAG (rw_flags rw) WRITING = WRITING \<longleftrightarrow> is_writing rw"
  using flags_nonzero by (simp add: TEST_FLAG_def is_writing_def and_flag)

lemma get_prior: "get_rw_prior rw \<noteq> 0 \<longleftrightarrow> is_wprior rw"
  using flags_nonzero by (simp add: get_rw_prior_def is_wprior_def and_flag)

lemma set_writing:
  "is_writing (rw\<lparr>rw_flags := SET_FLAG (rw_flags rw) WRITING\<rparr>)" "is_wprior (rw\<lparr>rw_flags := SET_FLAG (rw_flags rw) WRITING\<rparr>) = is_wprior rw"
  by (simp_all add: is_writing_def is_wprior_def SET_FLAG_def bit_or_iff flag_bits)

lemma clear_writing:
  "\<not> is_writing (rw\<lparr>rw_flags := CLEAR_FLAG (rw_flags rw) WRITING\<rparr>)"
  "is_wprior (rw\<lparr>rw_flags := CLEAR_FLAG (rw_flags rw) WRITING\<rparr>) = is_wprior rw"
  by (simp_all add: is_writing_def is_wprior_def CLEAR_FLAG_def bit_and_iff bit_not_iff flag_bits)

lemma flag_frame [simp]:
  "is_writing (rw\<lparr>rw_r_cnt := n\<rparr>) = is_writing rw" "is_wprior (rw\<lparr>rw_r_cnt := n\<rparr>) = is_wprior rw"
  "is_writing (rw\<lparr>rw_readers := f\<rparr>) = is_writing rw" "is_wprior (rw\<lparr>rw_readers := f\<rparr>) = is_wprior rw"
  "is_writing (rw\<lparr>rw_writers := f\<rparr>) = is_writing rw" "is_wprior (rw\<lparr>rw_writers := f\<rparr>) = is_wprior rw"
  by (simp_all add: is_writing_def is_wprior_def)

section \<open>Effects of the operations\<close>

lemma rw_invD:
  assumes "rw_inv y"
  shows "queues_ok y" "sleepers_ok y" "excl_ok y" "progress_ok y"
  using assms by (simp_all add: rw_inv_def)

lemma queues_okD:
  assumes "queues_ok y"
  shows "fifo_wf (rw_readers (rs_rw y))" "fifo_wf (rw_writers (rs_rw y))" "distinct (rs_readers y)" "distinct (rs_writers y)"
    "t \<in> set (rs_readers y) \<Longrightarrow> rs_pc y t = RTry" "t \<in> set (rs_writers y) \<Longrightarrow> rs_pc y t = WTry" "rs_pc y 0 = RWOut"
  using assms by (simp_all add: queues_ok_def)

lemma queue_nonzero: "queues_ok y \<Longrightarrow> t \<in> set (rs_readers y) \<union> set (rs_writers y) \<Longrightarrow> t \<noteq> 0"
  using queues_okD(5,6) [of y t] queues_okD(7) [of y] by (cases "t = 0") auto

lemma sleepers_okD:
  assumes "sleepers_ok y"
  shows "sched_inv (rs_s y)" "t \<in> set (rs_readers y) \<Longrightarrow> state_of (rs_s y) t = SLEEPING"
    "t \<in> set (rs_writers y) \<Longrightarrow> state_of (rs_s y) t = SLEEPING"
  using assms by (simp_all add: sleepers_ok_def)

lemma empty_queue:
  "queues_ok y \<Longrightarrow> fifo_empty (rw_readers (rs_rw y)) \<longleftrightarrow> rs_readers y = []"
  "queues_ok y \<Longrightarrow> fifo_empty (rw_writers (rs_rw y)) \<longleftrightarrow> rs_writers y = []"
  using queues_okD(1,2) by (auto simp: fifo_empty_iff rs_readers_def rs_writers_def)

lemma rw_running:
  assumes "sleepers_ok y" "running y c t"
  shows "t \<notin> set (rs_readers y)" "t \<notin> set (rs_writers y)" "node_free t (rs_rw y) (rs_s y)"
proof -
  note i = sched_invD [OF sleepers_okD(1) [OF assms(1)]]
  have r: "state_of (rs_s y) t = RUNNING" using cur_okD(1) [OF i(3), of t] assms(2) by blast
  show n: "t \<notin> set (rs_readers y)" "t \<notin> set (rs_writers y)" using sleepers_okD(2,3) [OF assms(1), of t] r by auto
  have "t \<notin> set (ss_run (rs_s y) d)" if "d < NCPU" for d using run_okD(2) [OF i(2), of t] r that by auto
  then show "node_free t (rs_rw y) (rs_s y)" using n by (simp add: node_free_def rs_readers_def rs_writers_def)
qed

lemma block_eq:
  assumes "sched_inv s" "c < NCPU" "ss_cur s c \<noteq> 0"
  shows "\<exists>u. sched_out c (upd_th (ss_cur s c) (\<lambda>x. x\<lparr>ti_state := SLEEPING\<rparr>) s) = Inr u \<and> sched_inv u \<and>
    state_of u = (state_of s)(ss_cur s c := SLEEPING)"
proof -
  obtain u where u: "block c SLEEPING s = Inr u" "sched_inv u"
    using act_inv [OF assms(1), of "Block c SLEEPING"] assms(2,3) by (auto simp: act_ok_def act_def)
  have "state_of u = (state_of s)(ss_cur s c := SLEEPING)"
    using u(1) by (auto simp: block_def sched_out_def state_of_upd split: if_splits)
  then show ?thesis using u by (simp add: block_def)
qed

lemma sleep_eq:
  assumes "sleepers_ok y" "running y c t"
  shows "\<exists>u. sleep_reader c (rs_rw y) (rs_s y) = Inr ((rs_rw y)\<lparr>rw_readers := fifo_push t (rw_readers (rs_rw y))\<rparr>, u) \<and>
      sleep_writer c (rs_rw y) (rs_s y) = Inr ((rs_rw y)\<lparr>rw_writers := fifo_push t (rw_writers (rs_rw y))\<rparr>, u) \<and>
      sched_inv u \<and> state_of u = (state_of (rs_s y))(t := SLEEPING)"
  using block_eq [OF sleepers_okD(1) [OF assms(1)], of c] rw_running(3) [OF assms] assms(2)
  by (auto simp: sleep_reader_def sleep_writer_def sleep_fifo_def Let_def)

lemma wakeup_fifo_eq:
  assumes "sched_inv s" "f_list f = t # ts" "t \<noteq> 0" "state_of s t = SLEEPING"
  shows "wakeup_fifo f s = Inr (f\<lparr>f_size := f_size f - 1, f_list := ts\<rparr>, wakeup_process t s)"
    "sched_inv (wakeup_process t s)" "state_of (wakeup_process t s) = (state_of s)(t := RUNNABLE)"
proof -
  show "wakeup_fifo f s = Inr (f\<lparr>f_size := f_size f - 1, f_list := ts\<rparr>, wakeup_process t s)"
    using assms(2) by (simp add: wakeup_fifo_def fifo_pop_def)
  show "sched_inv (wakeup_process t s)" using act_inv [OF assms(1), of "Wake t"] assms(3,4) by (simp add: act_ok_def act_def)
  note i = sched_invD [OF assms(1)]
  have nr: "state_of s t \<noteq> RUNNABLE" using assms(4) by simp
  show "state_of (wakeup_process t s) = (state_of s)(t := RUNNABLE)"
    using wake_inv(1) [OF i(1,2,4) nr assms(3), of "\<lambda>x. x\<lparr>ti_state := RUNNABLE\<rparr>" "wakeup_process t s"] by (simp add: wakeup_process_def)
qed

text \<open>Waking the first of a queue: what becomes of the queue, and that other threads keep their state.\<close>

definition woken :: "addr list \<Rightarrow> addr fifo \<Rightarrow> sched \<Rightarrow> sched \<Rightarrow> bool" where
  "woken q f s u = (fifo_wf f \<and> f_list f = tl q \<and> sched_inv u \<and> (\<forall>t. t \<notin> set (take 1 q) \<longrightarrow> state_of u t = state_of s t))"

lemma wakeup_reader_eq:
  assumes "queues_ok y" "sleepers_ok y" "rw_readers rw = rw_readers (rs_rw y)"
  shows "\<exists>f u. wakeup_reader rw (rs_s y) = Inr (rw\<lparr>rw_readers := f\<rparr>, u) \<and> woken (rs_readers y) f (rs_s y) u"
proof (cases "rs_readers y")
  case Nil
  then show ?thesis using empty_queue(1) [OF assms(1)] queues_okD(1) [OF assms(1)] sleepers_okD(1) [OF assms(2)] assms(3)
    by (intro exI [of _ "rw_readers rw"] exI [of _ "rs_s y"]) (simp add: wakeup_reader_def woken_def rs_readers_def)
next
  case (Cons t ts)
  have t: "t \<noteq> 0" "state_of (rs_s y) t = SLEEPING"
    using queue_nonzero [OF assms(1), of t] sleepers_okD(2) [OF assms(2), of t] Cons by simp_all
  note w = wakeup_fifo_eq [OF sleepers_okD(1) [OF assms(2)] Cons [unfolded rs_readers_def] t]
  show ?thesis using w empty_queue(1) [OF assms(1)] Cons queues_okD(1) [OF assms(1)] assms(3)
    by (intro exI [of _ "(rw_readers (rs_rw y))\<lparr>f_size := f_size (rw_readers (rs_rw y)) - 1, f_list := ts\<rparr>"] exI [of _ "wakeup_process t (rs_s y)"])
      (simp add: wakeup_reader_def woken_def fifo_wf_def rs_readers_def)
qed

lemma wakeup_writer_eq:
  assumes "queues_ok y" "sleepers_ok y" "rw_writers rw = rw_writers (rs_rw y)" "rs_writers y \<noteq> []"
  shows "\<exists>f u. wakeup_writer rw (rs_s y) = Inr (rw\<lparr>rw_flags := SET_FLAG (rw_flags rw) WRITING, rw_writers := f\<rparr>, u) \<and>
    woken (rs_writers y) f (rs_s y) u"
proof (cases "rs_writers y")
  case (Cons t ts)
  have t: "t \<noteq> 0" "state_of (rs_s y) t = SLEEPING"
    using queue_nonzero [OF assms(1), of t] sleepers_okD(3) [OF assms(2), of t] Cons by simp_all
  note w = wakeup_fifo_eq [OF sleepers_okD(1) [OF assms(2)] Cons [unfolded rs_writers_def] t]
  show ?thesis using w empty_queue(2) [OF assms(1)] Cons queues_okD(2) [OF assms(1)] assms(3)
    by (intro exI [of _ "(rw_writers (rs_rw y))\<lparr>f_size := f_size (rw_writers (rs_rw y)) - 1, f_list := ts\<rparr>"] exI [of _ "wakeup_process t (rs_s y)"])
      (simp add: wakeup_writer_def woken_def fifo_wf_def rs_writers_def Let_def)
qed (use assms(4) in simp)

section \<open>Preservation\<close>

lemma rw_swap: "rw\<lparr>rw_r_cnt := n, rw_readers := f\<rparr> = rw\<lparr>rw_readers := f, rw_r_cnt := n\<rparr>"
  by (cases rw) simp

lemma rgoto_sets:
  "rheld (rgoto t p rw s y) = (if p = RHeld then insert t (rheld y) else rheld y - {t})"
  "u \<in> wown (rgoto t p rw s y) \<longleftrightarrow> (if u = t then p = WHeld \<or> p = WTry \<and> t \<notin> set (f_list (rw_writers rw))
     else rs_pc y u = WHeld \<or> rs_pc y u = WTry \<and> u \<notin> set (f_list (rw_writers rw)))"
  "u \<in> rflight (rgoto t p rw s y) \<longleftrightarrow> (if u = t then p = RTry \<and> t \<notin> set (f_list (rw_readers rw))
     else rs_pc y u = RTry \<and> u \<notin> set (f_list (rw_readers rw)))"
  by (auto simp: rheld_def wown_def rflight_def rgoto_def rs_writers_def rs_readers_def)

lemma rgoto_sel [simp]:
  "rs_rw (rgoto t p rw s y) = rw" "rs_s (rgoto t p rw s y) = s" "rs_pc (rgoto t p rw s y) = (rs_pc y)(t := p)"
  "rs_readers (rgoto t p rw s y) = f_list (rw_readers rw)" "rs_writers (rgoto t p rw s y) = f_list (rw_writers rw)"
  by (simp_all add: rgoto_def rs_readers_def rs_writers_def)

text \<open>The queue and sleeper parts for the three things a step does to a queue: nothing, sleep, wake.\<close>

lemma base_same:
  assumes "queues_ok y" "sleepers_ok y" "running y c t" "rw_readers rw = rw_readers (rs_rw y)" "rw_writers rw = rw_writers (rs_rw y)"
  shows "queues_ok (rgoto t p rw (rs_s y) y) \<and> sleepers_ok (rgoto t p rw (rs_s y) y)"
  using assms(1,2,4,5) rw_running(1,2) [OF assms(2,3)] assms(3)
  by (auto simp: queues_ok_def sleepers_ok_def rs_readers_def rs_writers_def)

lemma base_sleep:
  assumes "queues_ok y" "sleepers_ok y" "running y c t" "sched_inv u" "state_of u = (state_of (rs_s y))(t := SLEEPING)"
  shows "queues_ok (rgoto t RTry ((rs_rw y)\<lparr>rw_readers := fifo_push t (rw_readers (rs_rw y))\<rparr>) u y) \<and>
      sleepers_ok (rgoto t RTry ((rs_rw y)\<lparr>rw_readers := fifo_push t (rw_readers (rs_rw y))\<rparr>) u y)"
    "queues_ok (rgoto t WTry ((rs_rw y)\<lparr>rw_writers := fifo_push t (rw_writers (rs_rw y))\<rparr>) u y) \<and>
      sleepers_ok (rgoto t WTry ((rs_rw y)\<lparr>rw_writers := fifo_push t (rw_writers (rs_rw y))\<rparr>) u y)"
  using assms rw_running(1,2) [OF assms(2,3)]
  by (auto simp: queues_ok_def sleepers_ok_def rs_readers_def rs_writers_def fifo_push_def fifo_wf_def)

lemma base_wake_reader:
  assumes "queues_ok y" "sleepers_ok y" "running y c t" "woken (rs_readers y) f (rs_s y) u" "rw_writers rw = rw_writers (rs_rw y)"
  shows "queues_ok (rgoto t p (rw\<lparr>rw_readers := f\<rparr>) u y) \<and> sleepers_ok (rgoto t p (rw\<lparr>rw_readers := f\<rparr>) u y)"
proof -
  note q = queues_okD [OF assms(1)] and n = rw_running(1,2) [OF assms(2,3)] and s = sleepers_okD [OF assms(2)]
  note w = assms(4) [unfolded woken_def]
  have tl: "set (tl (rs_readers y)) \<subseteq> set (rs_readers y)" by (cases "rs_readers y") auto
  have h: "u \<notin> set (take 1 (rs_readers y))" if "u \<in> set (tl (rs_readers y))" for u using q(3) that by (cases "rs_readers y") auto
  have h2: "u \<notin> set (take 1 (rs_readers y))" if "u \<in> set (rs_writers y)" for u
    using q(5,6) [of u] that by (auto dest: in_set_takeD)
  have "queues_ok (rgoto t p (rw\<lparr>rw_readers := f\<rparr>) u y)"
    using w q(1-4,7) q(5,6) n tl assms(3) assms(5) by (auto simp: queues_ok_def distinct_tl rs_writers_def)
  moreover have "sleepers_ok (rgoto t p (rw\<lparr>rw_readers := f\<rparr>) u y)"
    using w h h2 s tl assms(5) by (auto simp: sleepers_ok_def rs_writers_def)
  ultimately show ?thesis ..
qed

lemma base_wake_writer:
  assumes "queues_ok y" "sleepers_ok y" "running y c t" "woken (rs_writers y) f (rs_s y) u" "rw_readers rw = rw_readers (rs_rw y)"
  shows "queues_ok (rgoto t p (rw\<lparr>rw_flags := g, rw_writers := f\<rparr>) u y) \<and> sleepers_ok (rgoto t p (rw\<lparr>rw_flags := g, rw_writers := f\<rparr>) u y)"
proof -
  note q = queues_okD [OF assms(1)] and n = rw_running(1,2) [OF assms(2,3)] and s = sleepers_okD [OF assms(2)]
  note w = assms(4) [unfolded woken_def]
  have tl: "set (tl (rs_writers y)) \<subseteq> set (rs_writers y)" by (cases "rs_writers y") auto
  have h: "u \<notin> set (take 1 (rs_writers y))" if "u \<in> set (tl (rs_writers y))" for u using q(4) that by (cases "rs_writers y") auto
  have h2: "u \<notin> set (take 1 (rs_writers y))" if "u \<in> set (rs_readers y)" for u
    using q(5,6) [of u] that by (auto dest: in_set_takeD)
  have "queues_ok (rgoto t p (rw\<lparr>rw_flags := g, rw_writers := f\<rparr>) u y)"
    using w q(1-4,7) q(5,6) n tl assms(3) assms(5) by (auto simp: queues_ok_def distinct_tl rs_readers_def)
  moreover have "sleepers_ok (rgoto t p (rw\<lparr>rw_flags := g, rw_writers := f\<rparr>) u y)"
    using w h h2 s tl assms(5) by (auto simp: sleepers_ok_def rs_readers_def)
  ultimately show ?thesis ..
qed

text \<open>The thread woken from the readers is in flight, the one woken from the writers owns the lock.\<close>

lemma woken_reader_flies:
  assumes "queues_ok y" "rs_readers y = h # hs" "h \<noteq> t" "f_list (rw_readers rw) = hs"
  shows "h \<in> rflight (rgoto t p rw s y)"
  using queues_okD(3,5) [OF assms(1)] assms(2-4) by (auto simp: rgoto_sets)

lemma wown_woken:
  assumes "queues_ok y" "wown y \<subseteq> {t}" "t \<notin> set (rs_writers y)" "p = RWOut" "f_list (rw_writers rw) = tl (rs_writers y)"
  shows "wown (rgoto t p rw s y) = set (take 1 (rs_writers y))"
proof -
  note q = queues_okD [OF assms(1)]
  have o: "rs_pc y u \<noteq> WHeld" "rs_pc y u = WTry \<longleftrightarrow> u \<in> set (rs_writers y)" if "u \<noteq> t" for u
    using assms(2) that q(6) by (auto simp: wown_def)
  have "u \<in> wown (rgoto t p rw s y) \<longleftrightarrow> u \<in> set (take 1 (rs_writers y))" for u
    using o [of u] assms(3-5) q(4) by (cases "rs_writers y") (auto simp: rgoto_sets)
  then show ?thesis by blast
qed

lemma wown_same:
  assumes "rs_pc y t \<notin> {WHeld, WTry}" "p \<notin> {WHeld, WTry}" "f_list (rw_writers rw) = rs_writers y"
  shows "wown (rgoto t p rw s y) = wown y"
proof -
  have "u \<in> wown (rgoto t p rw s y) \<longleftrightarrow> u \<in> wown y" for u
    using assms by (auto simp: rgoto_sets wown_def)
  then show ?thesis by blast
qed

lemma excl_okD:
  assumes "excl_ok y"
  shows "finite (rheld y)" "rw_r_cnt (rs_rw y) = int (card (rheld y))" "is_writing (rs_rw y) \<Longrightarrow> \<exists>h. wown y = {h}"
    "is_writing (rs_rw y) \<Longrightarrow> rheld y = {}" "\<not> is_writing (rs_rw y) \<Longrightarrow> wown y = {}"
  using assms by (auto simp: excl_ok_def)

lemma read_inv:
  assumes "rw_inv y" "running y c t" "rs_pc y t \<in> {RWOut, RTry}"
  shows "\<exists>ok rw s. read_lock c (rs_rw y) (rs_s y) = Inr (ok, rw, s) \<and> rw_inv (rgoto t (if ok then RHeld else RTry) rw s y)"
proof -
  note i = rw_invD [OF assms(1)]
  note n = rw_running(1,2) [OF i(2) assms(2)] and x = excl_okD [OF i(3)]
  have th: "t \<notin> rheld y" using assms(3) by (auto simp: rheld_def)
  obtain u where u: "sleep_reader c (rs_rw y) (rs_s y) = Inr ((rs_rw y)\<lparr>rw_readers := fifo_push t (rw_readers (rs_rw y))\<rparr>, u)"
    "sched_inv u" "state_of u = (state_of (rs_s y))(t := SLEEPING)" using sleep_eq [OF i(2) assms(2)] by blast
  let ?rw = "(rs_rw y)\<lparr>rw_readers := fifo_push t (rw_readers (rs_rw y))\<rparr>"
  let ?y = "rgoto t RTry ?rw u y"
  have wo: "wown ?y = wown y" by (rule wown_same) (use assms(3) in \<open>auto simp: rs_writers_def\<close>)
  have rh: "rheld ?y = rheld y" using th by (simp add: rgoto_sets)
  have wr: "rs_writers ?y = rs_writers y" by (simp add: rs_writers_def)
  have ex: "excl_ok ?y" using i(3) wo rh by (simp add: excl_ok_def)
  have sleeps: "\<exists>ok rw s. read_lock c (rs_rw y) (rs_s y) = Inr (ok, rw, s) \<and> rw_inv (rgoto t (if ok then RHeld else RTry) rw s y)"
    if "read_lock c (rs_rw y) (rs_s y) = Inr (False, ?rw, u)" "is_writing (rs_rw y) \<or> is_wprior (rs_rw y) \<and> rs_writers y \<noteq> []"
  proof -
    have "progress_ok ?y" using that(2) i(4) rh wr by (auto simp: progress_ok_def)
    then have "rw_inv ?y" using base_sleep(1) [OF i(1,2) assms(2) u(2,3)] ex by (simp add: rw_inv_def)
    then show ?thesis using that(1) by (intro exI [of _ False] exI [of _ ?rw] exI [of _ u]) simp
  qed
  show ?thesis
  proof (cases "is_writing (rs_rw y) \<or> is_wprior (rs_rw y) \<and> rs_writers y \<noteq> []")
    case True
    moreover have "read_lock c (rs_rw y) (rs_s y) = Inr (False, ?rw, u)"
      using True u(1) empty_queue(2) [OF i(1)] by (auto simp: read_lock_def test_writing get_prior)
    ultimately show ?thesis using sleeps by blast
  next
    case False
    obtain f v where v: "wakeup_reader (rs_rw y) (rs_s y) = Inr ((rs_rw y)\<lparr>rw_readers := f\<rparr>, v)" "woken (rs_readers y) f (rs_s y) v"
      using wakeup_reader_eq [OF i(1,2) refl] by blast
    let ?rw = "(rs_rw y)\<lparr>rw_readers := f, rw_r_cnt := rw_r_cnt (rs_rw y) + 1\<rparr>"
    let ?y = "rgoto t RHeld ?rw v y"
    have eq: "read_lock c (rs_rw y) (rs_s y) = Inr (True, ?rw, v)"
      using False v(1) empty_queue(2) [OF i(1)] by (auto simp: read_lock_def test_writing get_prior)
    have wo: "wown ?y = wown y" by (rule wown_same) (use assms(3) in \<open>auto simp: rs_writers_def\<close>)
    have "excl_ok ?y" using x th wo False by (simp add: excl_ok_def rgoto_sets)
    moreover have "progress_ok ?y"
    proof (cases "rs_readers y")
      case Nil
      then show ?thesis using v(2) by (simp add: progress_ok_def rgoto_sets woken_def)
    next
      case (Cons h hs)
      have "h \<in> rflight ?y" by (rule woken_reader_flies [OF i(1) Cons]) (use n Cons v(2) in \<open>auto simp: woken_def\<close>)
      then show ?thesis by (auto simp: progress_ok_def rgoto_sets)
    qed
    moreover have "queues_ok ?y \<and> sleepers_ok ?y"
      using base_wake_reader [OF i(1,2) assms(2) v(2), of "(rs_rw y)\<lparr>rw_r_cnt := rw_r_cnt (rs_rw y) + 1\<rparr>" RHeld] by (simp add: rw_swap)
    ultimately show ?thesis using eq by (intro exI [of _ True] exI [of _ ?rw] exI [of _ v]) (simp add: rw_inv_def)
  qed
qed

lemma read_end_inv:
  assumes "rw_inv y" "running y c t" "rs_pc y t = RHeld"
  shows "\<exists>rw s. read_unlock (rs_rw y) (rs_s y) = Inr (rw, s) \<and> rw_inv (rgoto t RWOut rw s y)"
proof -
  note i = rw_invD [OF assms(1)]
  note n = rw_running(1,2) [OF i(2) assms(2)] and x = excl_okD [OF i(3)]
  have th: "t \<in> rheld y" using assms(3) by (simp add: rheld_def)
  then have nw: "\<not> is_writing (rs_rw y)" "wown y = {}" using x(4,5) by auto
  let ?rw = "(rs_rw y)\<lparr>rw_r_cnt := rw_r_cnt (rs_rw y) - 1\<rparr>"
  have cnt: "rw_r_cnt (rs_rw y) - 1 = int (card (rheld y - {t}))" using x(2) card_Suc_Diff1 [OF x(1) th] by linarith
  have c0: "rw_r_cnt (rs_rw y) - 1 = 0 \<longleftrightarrow> rheld y - {t} = {}" unfolding cnt using x(1) by simp
  show ?thesis
  proof (cases "rheld y - {t} = {} \<and> rs_writers y \<noteq> []")
    case True
    obtain f v where v: "wakeup_writer ?rw (rs_s y) = Inr (?rw\<lparr>rw_flags := SET_FLAG (rw_flags ?rw) WRITING, rw_writers := f\<rparr>, v)"
      "woken (rs_writers y) f (rs_s y) v" using wakeup_writer_eq [OF i(1,2), of ?rw] True by auto
    let ?w = "?rw\<lparr>rw_flags := SET_FLAG (rw_flags ?rw) WRITING, rw_writers := f\<rparr>"
    let ?y = "rgoto t RWOut ?w v y"
    have eq: "read_unlock (rs_rw y) (rs_s y) = Inr (?w, v)"
      using True v(1) c0 empty_queue(2) [OF i(1)] by (simp add: read_unlock_def Let_def)
    have wr: "is_writing ?w" using set_writing(1) [of ?rw] by simp
    have "wown ?y = set (take 1 (rs_writers y))"
      by (rule wown_woken [OF i(1)]) (use n nw v(2) in \<open>auto simp: woken_def\<close>)
    then have "\<exists>h. wown ?y = {h}" using True by (cases "rs_writers y") auto
    moreover have "rheld ?y = {}" using True by (simp add: rgoto_sets)
    ultimately have "excl_ok ?y" using wr cnt True by (simp add: excl_ok_def)
    moreover have "progress_ok ?y" using wr by (simp add: progress_ok_def)
    ultimately show ?thesis using eq base_wake_writer [OF i(1,2) assms(2) v(2), of ?rw] by (auto simp: rw_inv_def)
  next
    case False
    let ?y = "rgoto t RWOut ?rw (rs_s y) y"
    have eq: "read_unlock (rs_rw y) (rs_s y) = Inr (?rw, rs_s y)"
      using False c0 empty_queue(2) [OF i(1)] by (auto simp: read_unlock_def Let_def)
    have wo: "wown ?y = wown y" by (rule wown_same) (use assms(3) in \<open>auto simp: rs_writers_def\<close>)
    have rh: "rheld ?y = rheld y - {t}" by (simp add: rgoto_sets)
    have ex: "excl_ok ?y" using x(1) cnt wo nw rh by (simp add: excl_ok_def)
    have fl: "rflight ?y = rflight y"
    proof -
      have "u \<in> rflight ?y \<longleftrightarrow> u \<in> rflight y" for u using assms(3) by (simp add: rgoto_sets rflight_def rs_readers_def)
      then show ?thesis by blast
    qed
    have q: "rs_readers ?y = rs_readers y" "rs_writers ?y = rs_writers y" by (simp_all add: rs_readers_def rs_writers_def)
    have "progress_ok ?y" using i(4) False rh fl nw(1) unfolding progress_ok_def q by auto
    then show ?thesis using eq ex base_same [OF i(1,2) assms(2), of ?rw RWOut] by (auto simp: rw_inv_def)
  qed
qed

lemma write_inv:
  assumes "rw_inv y" "running y c t" "rs_pc y t = RWOut"
  shows "\<exists>ok rw s. write_lock c (rs_rw y) (rs_s y) = Inr (ok, rw, s) \<and> rw_inv (rgoto t (if ok then WHeld else WTry) rw s y)"
proof -
  note i = rw_invD [OF assms(1)]
  note n = rw_running(1,2) [OF i(2) assms(2)] and x = excl_okD [OF i(3)]
  have th: "t \<notin> rheld y" "rheld y - {t} = rheld y" using assms(3) by (auto simp: rheld_def)
  have c0: "rw_r_cnt (rs_rw y) \<noteq> 0 \<longleftrightarrow> rheld y \<noteq> {}" unfolding x(2) using x(1) by simp
  show ?thesis
  proof (cases "rheld y \<noteq> {} \<or> is_writing (rs_rw y)")
    case True
    obtain u where u: "sleep_writer c (rs_rw y) (rs_s y) = Inr ((rs_rw y)\<lparr>rw_writers := fifo_push t (rw_writers (rs_rw y))\<rparr>, u)"
      "sched_inv u" "state_of u = (state_of (rs_s y))(t := SLEEPING)" using sleep_eq [OF i(2) assms(2)] by blast
    let ?rw = "(rs_rw y)\<lparr>rw_writers := fifo_push t (rw_writers (rs_rw y))\<rparr>"
    let ?y = "rgoto t WTry ?rw u y"
    have eq: "write_lock c (rs_rw y) (rs_s y) = Inr (False, ?rw, u)" using True c0 u(1) by (auto simp: write_lock_def test_writing)
    have "v \<in> wown ?y \<longleftrightarrow> v \<in> wown y" for v using assms(3) by (auto simp: rgoto_sets wown_def fifo_push_def rs_writers_def)
    then have wo: "wown ?y = wown y" by blast
    have rh: "rheld ?y = rheld y" using th by (simp add: rgoto_sets)
    have "excl_ok ?y" using i(3) wo rh by (simp add: excl_ok_def)
    moreover have "progress_ok ?y" using True rh by (auto simp: progress_ok_def fifo_push_def)
    ultimately have "rw_inv ?y" using base_sleep(2) [OF i(1,2) assms(2) u(2,3)] by (simp add: rw_inv_def)
    then show ?thesis using eq by (intro exI [of _ False] exI [of _ ?rw] exI [of _ u]) simp
  next
    case False
    let ?rw = "write_lock_mark (rs_rw y)"
    let ?y = "rgoto t WHeld ?rw (rs_s y) y"
    have eq: "write_lock c (rs_rw y) (rs_s y) = Inr (True, ?rw, rs_s y)" using False c0 by (auto simp: write_lock_def test_writing)
    have w: "is_writing ?rw" unfolding write_lock_mark_def by (rule set_writing)
    have f: "rw_readers ?rw = rw_readers (rs_rw y)" "rw_writers ?rw = rw_writers (rs_rw y)" "rw_r_cnt ?rw = rw_r_cnt (rs_rw y)"
      by (simp_all add: write_lock_mark_def)
    have "v \<in> wown ?y \<longleftrightarrow> v = t" for v
      using x(5) False f(2) by (auto simp: rgoto_sets wown_def rs_writers_def)
    then have wo: "wown ?y = {t}" by blast
    have rh: "rheld ?y = {}" using th False by (simp add: rgoto_sets)
    have "excl_ok ?y" using w wo rh f(3) x(2) False by (simp add: excl_ok_def)
    moreover have "progress_ok ?y" using w by (simp add: progress_ok_def)
    ultimately have "rw_inv ?y" using base_same [OF i(1,2) assms(2) f(1,2), of WHeld] by (simp add: rw_inv_def)
    then show ?thesis using eq by (intro exI [of _ True] exI [of _ ?rw] exI [of _ "rs_s y"]) simp
  qed
qed

lemma resume_inv:
  assumes "rw_inv y" "running y c t" "rs_pc y t = WTry"
  shows "rw_inv (rgoto t WHeld (write_lock_mark (rs_rw y)) (rs_s y) y)"
proof -
  note i = rw_invD [OF assms(1)]
  note n = rw_running(1,2) [OF i(2) assms(2)] and x = excl_okD [OF i(3)]
  let ?rw = "write_lock_mark (rs_rw y)"
  let ?y = "rgoto t WHeld ?rw (rs_s y) y"
  have t: "t \<in> wown y" using n(2) assms(3) by (simp add: wown_def)
  then have wr: "is_writing (rs_rw y)" using x(5) by auto
  then have w1: "wown y = {t}" "rheld y = {}" using x(3,4) t by auto
  have w: "is_writing ?rw" unfolding write_lock_mark_def by (rule set_writing)
  have f: "rw_readers ?rw = rw_readers (rs_rw y)" "rw_writers ?rw = rw_writers (rs_rw y)" "rw_r_cnt ?rw = rw_r_cnt (rs_rw y)"
    by (simp_all add: write_lock_mark_def)
  have "v \<in> wown ?y \<longleftrightarrow> v \<in> wown y" for v using f(2) t by (auto simp: rgoto_sets wown_def rs_writers_def)
  then have "wown ?y = {t}" using w1 by blast
  moreover have "rheld ?y = {}" using w1 by (simp add: rgoto_sets)
  ultimately have "excl_ok ?y" using w f(3) x(2) w1(2) by (simp add: excl_ok_def)
  moreover have "progress_ok ?y" using w by (simp add: progress_ok_def)
  ultimately show ?thesis using base_same [OF i(1,2) assms(2) f(1,2), of WHeld] by (simp add: rw_inv_def)
qed

lemma write_end_inv:
  assumes "rw_inv y" "running y c t" "rs_pc y t = WHeld"
  shows "\<exists>rw s. write_unlock (rs_rw y) (rs_s y) = Inr (rw, s) \<and> rw_inv (rgoto t RWOut rw s y)"
proof -
  note i = rw_invD [OF assms(1)]
  note n = rw_running(1,2) [OF i(2) assms(2)] and x = excl_okD [OF i(3)]
  have t: "t \<in> wown y" using assms(3) by (simp add: wown_def)
  then have wr: "is_writing (rs_rw y)" using x(5) by auto
  then have w1: "wown y = {t}" "rheld y = {}" using x(3,4) t by auto
  let ?rw = "(rs_rw y)\<lparr>rw_flags := CLEAR_FLAG (rw_flags (rs_rw y)) WRITING\<rparr>"
  have cw: "\<not> is_writing ?rw" "is_wprior ?rw = is_wprior (rs_rw y)" by (rule clear_writing)+
  have e: "fifo_empty (rw_readers ?rw) \<longleftrightarrow> rs_readers y = []" "fifo_empty (rw_writers ?rw) \<longleftrightarrow> rs_writers y = []"
    using empty_queue [OF i(1)] by simp_all
  let ?res = "\<not> is_wprior (rs_rw y) \<and> rs_readers y \<noteq> [] \<or> is_wprior (rs_rw y) \<and> rs_writers y = []"
  have res: "(get_rw_prior ?rw = 0 \<and> \<not> fifo_empty (rw_readers ?rw)) \<or> (get_rw_prior ?rw \<noteq> 0 \<and> fifo_empty (rw_writers ?rw)) \<longleftrightarrow> ?res"
    using get_prior [of ?rw] cw(2) e by blast
  have un: "write_unlock (rs_rw y) (rs_s y) = (if ?res then wakeup_reader ?rw (rs_s y) else wakeup_writer ?rw (rs_s y))"
    unfolding write_unlock_def Let_def res ..
  show ?thesis
  proof (cases ?res)
    case True
    obtain f v where v: "wakeup_reader ?rw (rs_s y) = Inr (?rw\<lparr>rw_readers := f\<rparr>, v)" "woken (rs_readers y) f (rs_s y) v"
      using wakeup_reader_eq [OF i(1,2), of ?rw] by auto
    let ?y = "rgoto t RWOut (?rw\<lparr>rw_readers := f\<rparr>) v y"
    have "u \<in> wown ?y \<longleftrightarrow> False" for u using w1(1) by (auto simp: rgoto_sets wown_def rs_writers_def)
    then have wo: "wown ?y = {}" by blast
    have "excl_ok ?y" using wo cw w1 x(2) by (simp add: excl_ok_def rgoto_sets)
    moreover have "progress_ok ?y"
    proof (cases "rs_readers y")
      case Nil
      then show ?thesis using v(2) True by (auto simp: progress_ok_def woken_def rs_writers_def)
    next
      case (Cons h hs)
      have "h \<in> rflight ?y" by (rule woken_reader_flies [OF i(1) Cons]) (use n Cons v(2) in \<open>auto simp: woken_def\<close>)
      then show ?thesis using True cw(2) by (auto simp: progress_ok_def rs_writers_def)
    qed
    ultimately have "rw_inv ?y" using base_wake_reader [OF i(1,2) assms(2) v(2), of ?rw] by (auto simp: rw_inv_def)
    then show ?thesis using un True v(1) by auto
  next
    case False
    show ?thesis
    proof (cases "rs_writers y = []")
      case True
      let ?y = "rgoto t RWOut ?rw (rs_s y) y"
      have eq: "write_unlock (rs_rw y) (rs_s y) = Inr (?rw, rs_s y)" unfolding un if_not_P [OF False] using True e(2) by (simp add: wakeup_writer_def)
      have "u \<in> wown ?y \<longleftrightarrow> False" for u using w1(1) by (auto simp: rgoto_sets wown_def rs_writers_def)
      then have "excl_ok ?y" using cw w1 x(2) by (auto simp: excl_ok_def rgoto_sets)
      moreover have "progress_ok ?y" using False True by (auto simp: progress_ok_def rs_writers_def rs_readers_def)
      ultimately show ?thesis using eq base_same [OF i(1,2) assms(2), of ?rw RWOut] by (auto simp: rw_inv_def)
    next
      case ne: False
      obtain f v where v: "wakeup_writer ?rw (rs_s y) = Inr (?rw\<lparr>rw_flags := SET_FLAG (rw_flags ?rw) WRITING, rw_writers := f\<rparr>, v)"
        "woken (rs_writers y) f (rs_s y) v" using wakeup_writer_eq [OF i(1,2) _ ne, of ?rw] by auto
      let ?w = "?rw\<lparr>rw_flags := SET_FLAG (rw_flags ?rw) WRITING, rw_writers := f\<rparr>"
      let ?y = "rgoto t RWOut ?w v y"
      have wr: "is_writing ?w" using set_writing(1) [of ?rw] by simp
      have "wown ?y = set (take 1 (rs_writers y))"
        by (rule wown_woken [OF i(1)]) (use n w1 v(2) in \<open>auto simp: woken_def\<close>)
      then have "\<exists>h. wown ?y = {h}" using ne by (cases "rs_writers y") auto
      then have "excl_ok ?y" using wr w1 x(2) by (simp add: excl_ok_def rgoto_sets)
      moreover have "progress_ok ?y" using wr by (simp add: progress_ok_def)
      ultimately have "rw_inv ?y" using base_wake_writer [OF i(1,2) assms(2) v(2), of ?rw] by (auto simp: rw_inv_def)
      then show ?thesis using un False v(1) by auto
    qed
  qed
qed

lemma rw_reach_inv:
  assumes "rw_reach rw0 s0 y" "sched_inv s0" "\<not> is_writing rw0" "rw_r_cnt rw0 = 0" "rw_readers rw0 = fifo_init" "rw_writers rw0 = fifo_init"
  shows "rw_inv y"
  using assms
proof (induction rule: rw_reach.induct)
  case rw_start
  then show ?case by (auto simp: rw_inv_def queues_ok_def sleepers_ok_def excl_ok_def progress_ok_def rheld_def wown_def
        rs_readers_def rs_writers_def fifo_init_def fifo_wf_def)
next
  case (rw_read y c t ok rw s)
  then show ?case using read_inv [of y c t] by auto
next
  case (rw_read_end y c t rw s)
  then show ?case using read_end_inv [of y c t] by auto
next
  case (rw_write y c t ok rw s)
  then show ?case using write_inv [of y c t] by auto
next
  case (rw_write_resume y c t)
  then show ?case using resume_inv by blast
next
  case (rw_write_end y c t rw s)
  then show ?case using write_end_inv [of y c t] by auto
next
  case (rw_other y a s)
  then have i: "rw_inv y" by blast
  note j = rw_invD [OF i]
  note k = sleepers_okD [OF j(2)]
  have fr: "rs_readers (y\<lparr>rs_s := s\<rparr>) = rs_readers y" "rs_writers (y\<lparr>rs_s := s\<rparr>) = rs_writers y"
    "rheld (y\<lparr>rs_s := s\<rparr>) = rheld y" "wown (y\<lparr>rs_s := s\<rparr>) = wown y" "rflight (y\<lparr>rs_s := s\<rparr>) = rflight y"
    by (simp_all add: rs_readers_def rs_writers_def rheld_def wown_def rflight_def)
  have "sched_inv s" using act_inv [OF k(1) rw_other.hyps(2)] rw_other.hyps(3) by auto
  moreover have "state_of s t = SLEEPING" if "t \<in> set (rs_readers y) \<union> set (rs_writers y)" for t
    using act_sleeping [OF k(1) rw_other.hyps(2,3) _ queue_nonzero [OF j(1) that]] rw_other.hyps(4) k(2,3) that by blast
  ultimately have "sleepers_ok (y\<lparr>rs_s := s\<rparr>)" by (simp add: sleepers_ok_def fr)
  then show ?case using j by (simp add: rw_inv_def queues_ok_def excl_ok_def progress_ok_def fr)
qed

lemma rwlock_init_facts:
  assumes "\<not> bit (rw_flags rw) 1" "\<not> bit prior 1"
  shows "\<not> is_writing (rwlock_init prior rw)" "rw_r_cnt (rwlock_init prior rw) = 0" "rw_readers (rwlock_init prior rw) = fifo_init"
    "rw_writers (rwlock_init prior rw) = fifo_init"
  using assms by (simp_all add: rwlock_init_def set_rw_prior_def is_writing_def SET_FLAG_def bit_or_iff)

text \<open>
  C15: the readers-writer lock, created over memory whose writing flag is clear, under any interleaving of its calls with the other steps of
  the scheduler: a thread that writes is alone, the reader count is the number of readers, and no wakeup is lost, that is, while any thread sleeps
  on the lock it is held, or a woken reader is about to try again; and no call of a thread panics.
\<close>

theorem rwlock_correct:
  assumes "rw_reach (rwlock_init prior rw) s0 y" "sched_inv s0" "\<not> bit (rw_flags rw) 1" "\<not> bit prior 1"
  shows "(\<forall>t u. rs_pc y t = WHeld \<longrightarrow> rs_pc y u \<in> {WHeld, RHeld} \<longrightarrow> t = u) \<and>
    rw_r_cnt (rs_rw y) = int (card {t. rs_pc y t = RHeld}) \<and>
    (rs_readers y \<noteq> [] \<or> rs_writers y \<noteq> [] \<longrightarrow> rheld y \<noteq> {} \<or> wown y \<noteq> {} \<or> rflight y \<noteq> {}) \<and>
    (\<forall>c t. running y c t \<longrightarrow>
      (rs_pc y t \<in> {RWOut, RTry} \<longrightarrow> (\<exists>r. read_lock c (rs_rw y) (rs_s y) = Inr r)) \<and>
      (rs_pc y t = RHeld \<longrightarrow> (\<exists>r. read_unlock (rs_rw y) (rs_s y) = Inr r)) \<and>
      (rs_pc y t = RWOut \<longrightarrow> (\<exists>r. write_lock c (rs_rw y) (rs_s y) = Inr r)) \<and>
      (rs_pc y t = WHeld \<longrightarrow> (\<exists>r. write_unlock (rs_rw y) (rs_s y) = Inr r)))"
proof -
  have i: "rw_inv y" by (rule rw_reach_inv [OF assms(1,2) rwlock_init_facts [OF assms(3,4)]])
  note j = rw_invD [OF i]
  note x = excl_okD [OF j(3)]
  have 1: "t = u" if "rs_pc y t = WHeld" "rs_pc y u \<in> {WHeld, RHeld}" for t u
  proof -
    have t: "t \<in> wown y" using that(1) by (simp add: wown_def)
    then have "is_writing (rs_rw y)" using x(5) by auto
    moreover have "u \<in> wown y \<union> rheld y" using that(2) by (auto simp: wown_def rheld_def)
    ultimately show ?thesis using x(3,4) t by auto
  qed
  have 2: "rw_r_cnt (rs_rw y) = int (card {t. rs_pc y t = RHeld})" using x(2) by (simp add: rheld_def)
  have "is_writing (rs_rw y) \<Longrightarrow> wown y \<noteq> {}" using x(3) by auto
  then have 3: "rs_readers y \<noteq> [] \<or> rs_writers y \<noteq> [] \<longrightarrow> rheld y \<noteq> {} \<or> wown y \<noteq> {} \<or> rflight y \<noteq> {}"
    using j(4) unfolding progress_ok_def by blast
  have 4: "running y c t \<longrightarrow>
      (rs_pc y t \<in> {RWOut, RTry} \<longrightarrow> (\<exists>r. read_lock c (rs_rw y) (rs_s y) = Inr r)) \<and>
      (rs_pc y t = RHeld \<longrightarrow> (\<exists>r. read_unlock (rs_rw y) (rs_s y) = Inr r)) \<and>
      (rs_pc y t = RWOut \<longrightarrow> (\<exists>r. write_lock c (rs_rw y) (rs_s y) = Inr r)) \<and>
      (rs_pc y t = WHeld \<longrightarrow> (\<exists>r. write_unlock (rs_rw y) (rs_s y) = Inr r))" for c t
    using read_inv [OF i, of c t] read_end_inv [OF i, of c t] write_inv [OF i, of c t] write_end_inv [OF i, of c t] by blast
  show ?thesis using 1 2 3 4 by blast
qed

definition rw_blank :: rwlock where
  "rw_blank = \<lparr>rw_flags = 0, rw_r_cnt = 0, rw_readers = fifo_init, rw_writers = fifo_init\<rparr>"

lemma rw_example: "\<exists>y. rw_reach (rwlock_init 1 rw_blank) sched_example y \<and> rs_pc y 5 = WHeld \<and> running y 0 5"
proof -
  let ?rw = "rwlock_init 1 rw_blank"
  let ?y = "\<lparr>rs_rw = ?rw, rs_s = sched_example, rs_pc = (\<lambda>_. RWOut)\<rparr>"
  have c: "running ?y 0 5" by (simp add: sched_example_def NCPU_def)
  have "\<not> is_writing ?rw" "rw_r_cnt ?rw = 0" by (rule rwlock_init_facts; simp add: rw_blank_def bit_1_iff)+
  then have "write_lock 0 ?rw sched_example = Inr (True, write_lock_mark ?rw, sched_example)" by (simp add: write_lock_def test_writing)
  then have "rw_reach ?rw sched_example (rgoto 5 WHeld (write_lock_mark ?rw) sched_example ?y)"
    using rw_write [OF rw_start c, of True "write_lock_mark ?rw" sched_example] by simp
  then show ?thesis using c by (intro exI conjI) (auto simp: rgoto_def)
qed

theorem rwlock_correct_witness:
  "\<exists>y. rw_reach (rwlock_init 1 rw_blank) sched_example y \<and> rs_pc y 5 = WHeld \<and> (\<exists>r. write_unlock (rs_rw y) (rs_s y) = Inr r)"
proof -
  obtain y where y: "rw_reach (rwlock_init 1 rw_blank) sched_example y" "rs_pc y 5 = WHeld" "running y 0 5" using rw_example by blast
  have b: "\<not> bit (rw_flags rw_blank) 1" "\<not> bit (1 :: u32) 1" by (simp_all add: rw_blank_def bit_1_iff)
  note f = conjunct2 [OF conjunct2 [OF conjunct2 [OF rwlock_correct [OF y(1) sched_example_inv b]]]]
  have "\<exists>r. write_unlock (rs_rw y) (rs_s y) = Inr r" using f y(2,3) by blast
  then show ?thesis using y(1,2) by blast
qed

end
