(* ===== verification/Bytes.thy ===== *)
theory Bytes
  imports LibString
begin

text \<open>
  64-bit words in byte addressed memory, little endian as on RISC-V.  Structures that the kernel copies as raw bytes
  (trap frames) and tables of words are read and written through these two functions.
\<close>

unbundle bit_operations_syntax

definition read_u64 :: "mem \<Rightarrow> nat \<Rightarrow> u64" where
  "read_u64 m a = foldr (\<lambda>i w. push_bit (8 * i) (ucast (m (a + i))) OR w) [0..<8] 0"

definition write_u64 :: "nat \<Rightarrow> u64 \<Rightarrow> mem \<Rightarrow> mem" where
  "write_u64 a v m = (\<lambda>x. if a \<le> x \<and> x < a + 8 then ucast (drop_bit (8 * (x - a)) v) else m x)"

lemma bit_read_u64: "bit (read_u64 m a) n \<longleftrightarrow> n < 64 \<and> bit (m (a + n div 8)) (n mod 8)"
proof (cases "n < 64")
  case True
  have bytes: "bit (foldr (\<lambda>i w. push_bit (8 * i) (ucast (m (a + i))) OR w) xs (0 :: u64)) n \<longleftrightarrow>
      (\<exists>i\<in>set xs. 8 * i \<le> n \<and> bit (m (a + i)) (n - 8 * i))" for xs
    using True by (induction xs) (auto simp: bit_or_iff bit_push_bit_iff bit_ucast_iff)
  have one: "8 * i \<le> n \<and> bit (m (a + i)) (n - 8 * i) \<longleftrightarrow> i = n div 8 \<and> bit (m (a + n div 8)) (n mod 8)" for i
  proof -
    have "n - 8 * i < 8" if "bit (m (a + i)) (n - 8 * i)" using bit_imp_le_length [OF that] by simp
    moreover have "n - 8 * (n div 8) = n mod 8" "8 * (n div 8) \<le> n" by (simp_all add: minus_mult_div_eq_mod)
    ultimately show ?thesis by (metis div_mult_self1_is_m le_add_diff_inverse div_mult_self2 div_less add.right_neutral add.commute zero_neq_numeral)
  qed
  have "bit (read_u64 m a) n \<longleftrightarrow> n div 8 \<in> set [0..<8] \<and> bit (m (a + n div 8)) (n mod 8)"
    unfolding read_u64_def bytes one by auto
  then show ?thesis using True by (simp add: less_mult_imp_div_less)
next
  case False
  then show ?thesis using bit_imp_le_length [of "read_u64 m a" n] by auto
qed

lemma read_write_u64 [simp]: "read_u64 (write_u64 a v m) a = v"
proof (rule bit_eqI)
  fix n :: nat
  assume "possible_bit TYPE(64 word) n"
  then have n: "n < 64" by simp
  then have d: "n div 8 < 8" by (simp add: less_mult_imp_div_less)
  have "8 * (n div 8) + n mod 8 = n" by simp
  then show "bit (read_u64 (write_u64 a v m) a) n = bit v n"
    using n d by (simp add: bit_read_u64 write_u64_def bit_ucast_iff bit_drop_bit_eq)
qed

lemma write_u64_other: "\<not> (a \<le> x \<and> x < a + 8) \<Longrightarrow> write_u64 a v m x = m x"
  by (auto simp: write_u64_def)

lemma read_u64_cong: "(\<And>i. i < 8 \<Longrightarrow> m (a + i) = m' (b + i)) \<Longrightarrow> read_u64 m a = read_u64 m' b"
  by (rule bit_eqI) (simp add: bit_read_u64 less_mult_imp_div_less)

lemma read_write_u64_other: "a + 8 \<le> b \<or> b + 8 \<le> a \<Longrightarrow> read_u64 (write_u64 a v m) b = read_u64 m b"
  by (rule read_u64_cong) (auto simp: write_u64_def)

end
