(* ===== verification/Signal.thy ===== *)
theory Signal
  imports Fifo Bytes
begin

text \<open>
  kernel/proc/signal.c and include/core/signal.h: pending and blocked signals of a task, the table of handlers, sending,
  delivery on the way back to user mode, and the return from a user handler.  \<open>kmalloc\<close> results that decide a branch are
  the arguments named \<open>ok\<close>.  Every section under the signal lock is one step.

  The source shifts the \<open>int\<close> 1 by the signal number, also for numbers of 32 and more; the model follows the
  shift instruction of the machine, which uses the amount modulo 32.
\<close>

unbundle bit_operations_syntax

section \<open>Data\<close>

definition NSIG :: int where "NSIG = 64"

definition N_STDSIG :: int where "N_STDSIG = 32"

definition SIGINT :: int where "SIGINT = 2"
definition SIGQUIT :: int where "SIGQUIT = 3"
definition SIGTRAP :: int where "SIGTRAP = 5"
definition SIGIOT :: int where "SIGIOT = 6"
definition SIGFPE :: int where "SIGFPE = 8"
definition SIGKILL :: int where "SIGKILL = 9"
definition SIGUSR1 :: int where "SIGUSR1 = 10"
definition SIGSEGV :: int where "SIGSEGV = 11"
definition SIGUSR2 :: int where "SIGUSR2 = 12"
definition SIGALRM :: int where "SIGALRM = 14"
definition SIGTERM :: int where "SIGTERM = 15"
definition SIGCHLD :: int where "SIGCHLD = 17"
definition SIGCONT :: int where "SIGCONT = 18"
definition SIGSTOP :: int where "SIGSTOP = 19"
definition SIGTSTP :: int where "SIGTSTP = 20"

lemmas sig_consts = NSIG_def N_STDSIG_def SIGINT_def SIGQUIT_def SIGTRAP_def SIGIOT_def SIGFPE_def SIGKILL_def SIGUSR1_def
  SIGSEGV_def SIGUSR2_def SIGALRM_def SIGTERM_def SIGCHLD_def SIGCONT_def SIGSTOP_def SIGTSTP_def

text \<open>A handler is null, the kernel's default function for a signal, or an address of the user program.\<close>

datatype sighandler = H_null | H_default int | H_user u64

type_synonym sigactions = "int \<Rightarrow> sighandler"

record sigpending =
  sp_queue :: "u8 fifo"
  sp_signal :: u32
  sp_blocked :: u32

record signal =
  sg_sigpend :: u32
  sg_sping :: sigpending
  sg_sig :: "sigactions option"

section \<open>Default handlers\<close>

text \<open>What a default handler does: exit the process, reap one child without waiting, or only print.\<close>

datatype sig_effect = Nothing | Printed | Exits int | Reaps_child | User_frame

definition default_handler :: "int \<Rightarrow> sig_effect" where
  "default_handler sig = (if sig = SIGQUIT then Exits sig else if sig = SIGCHLD then Reaps_child else Printed)"

definition default_signal_handlers :: sigactions where
  "default_signal_handlers sig =
    (if sig \<in> {SIGINT, SIGQUIT, SIGTRAP, SIGIOT, SIGFPE, SIGKILL, SIGUSR1, SIGSEGV, SIGUSR2, SIGALRM, SIGTERM, SIGCHLD, SIGCONT, SIGSTOP, SIGTSTP}
     then H_default sig else H_null)"

section \<open>Operations\<close>

definition bit_of :: "int \<Rightarrow> u32" where
  "bit_of sig = push_bit (nat (sig mod 32)) 1"

definition signal_struct_init :: sigactions where
  "signal_struct_init = foldl (\<lambda>f i. f(i := default_signal_handlers i)) (\<lambda>_. H_null) [0..63]"

definition sigpending_init :: "sigpending \<Rightarrow> sigpending" where
  "sigpending_init sping = sping\<lparr>sp_queue := fifo_init, sp_signal := 0\<rparr>"

definition detect_sig_valid :: "int \<Rightarrow> int" where
  "detect_sig_valid sig = (if sig < 0 \<or> NSIG \<le> sig then -1 else 0)"

fun std_sig_scan :: "nat list \<Rightarrow> u32 \<Rightarrow> int \<times> u32" where
  "std_sig_scan [] s = (-1, s)"
| "std_sig_scan (i # is) s = (if s AND push_bit i 1 \<noteq> 0 then (int i, s AND NOT (push_bit i 1)) else std_sig_scan is s)"

definition std_sig_pop :: "u32 \<Rightarrow> int \<times> u32" where
  "std_sig_pop s = std_sig_scan [0..<32] s"

definition realtime_sig_pop :: "sigpending \<Rightarrow> int \<times> sigpending" where
  "realtime_sig_pop sping = (case fifo_pop (sp_queue sping) of
      (None, q) \<Rightarrow> (-1, sping)
    | (Some info, q) \<Rightarrow> (uint info, sping\<lparr>sp_queue := q\<rparr>))"

definition realtime_sig_push :: "bool \<Rightarrow> int \<Rightarrow> sigpending \<Rightarrow> sigpending kres" where
  "realtime_sig_push ok sig sping =
    (if \<not> ok then Inl (Panic ''realtime_sig_push'') else Inr (sping\<lparr>sp_queue := fifo_push (word_of_int sig) (sp_queue sping)\<rparr>))"

definition sig_pop :: "sigpending \<Rightarrow> int \<times> sigpending" where
  "sig_pop sping =
    (let (s, w) = std_sig_pop (sp_signal sping); sp1 = sping\<lparr>sp_signal := w\<rparr>
     in if s \<noteq> -1 then (s, sp1) else realtime_sig_pop sp1)"

definition sig_init :: "bool \<Rightarrow> signal \<Rightarrow> signal kres" where
  "sig_init ok s =
    (if \<not> ok then Inl (Panic ''sig_init'')
     else Inr (s\<lparr>sg_sigpend := 0, sg_sping := sigpending_init (sg_sping s), sg_sig := Some signal_struct_init\<rparr>))"

text \<open>The locked part of \<open>signal_handler\<close>: the signal taken, or -1.\<close>

definition signal_take :: "signal \<Rightarrow> int \<times> signal" where
  "signal_take s =
    (if sg_sigpend s = 0 then (-1, s)
     else let (si, sp) = sig_pop (sg_sping s); s1 = s\<lparr>sg_sping := sp\<rparr>
       in if si = -1 then (-1, s1) else (si, s1\<lparr>sg_sigpend := sg_sigpend s1 - 1\<rparr>))"

text \<open>Offsets in the trap frame, its size, and the user code that calls a handler (start.S).\<close>

definition TF_EPC :: nat where "TF_EPC = 8"
definition TF_SP :: nat where "TF_SP = 24"
definition TF_A0 :: nat where "TF_A0 = 88"
definition TF_SIZE :: nat where "TF_SIZE = 264"

text \<open>\<open>tf\<close> is the address of the trap frame of the running thread, \<open>sigact_call\<close> the address of the trampoline.\<close>

definition push_user_frame :: "u64 \<Rightarrow> nat \<Rightarrow> u64 \<Rightarrow> mem \<Rightarrow> mem" where
  "push_user_frame sigact_call tf handler m =
    (let sp = read_u64 m (tf + TF_SP);
         m1 = memcpy m (unat (sp - of_nat TF_SIZE)) tf TF_SIZE;
         m2 = write_u64 (tf + TF_SP) (read_u64 m1 (tf + TF_SP) - of_nat TF_SIZE) m1;
         m3 = write_u64 (tf + TF_A0) handler m2
     in write_u64 (tf + TF_EPC) sigact_call m3)"

definition signal_handler :: "u64 \<Rightarrow> nat \<Rightarrow> signal \<Rightarrow> mem \<Rightarrow> (sig_effect \<times> signal \<times> mem) kres" where
  "signal_handler sigact_call tf s m =
    (let (si, s1) = signal_take s in
     if si = -1 then Inr (Nothing, s1, m)
     else case sg_sig s1 of
       None \<Rightarrow> Inl (Fault ''sig'')
     | Some siga \<Rightarrow>
         let h = siga si in
         if h = H_null then Inr (Printed, s1, m)
         else if h = default_signal_handlers si then Inr (default_handler si, s1, m)
         else (case h of
             H_user a \<Rightarrow> Inr (User_frame, s1, push_user_frame sigact_call tf a m)
           | _ \<Rightarrow> Inl (Fault ''handler'')))"

text \<open>\<open>send_sig\<close> after the lookup of the process: \<open>None\<close> when the pid is unknown, else whether it is a zombie and its signals.\<close>

definition send_sig :: "bool \<Rightarrow> int \<Rightarrow> (bool \<times> signal) option \<Rightarrow> signal option kres" where
  "send_sig ok sig p =
    (if detect_sig_valid sig < 0 then Inr None
     else case p of
       None \<Rightarrow> Inr None
     | Some (zombie, s) \<Rightarrow>
         if zombie then Inr None
         else if sp_blocked (sg_sping s) AND bit_of sig \<noteq> 0 then Inr (Some s)
         else kbind (if sig < N_STDSIG
             then Inr ((sg_sping s)\<lparr>sp_signal := sp_signal (sg_sping s) OR bit_of sig\<rparr>)
             else realtime_sig_push ok sig (sg_sping s))
           (\<lambda>sp. Inr (Some (s\<lparr>sg_sping := sp, sg_sigpend := sg_sigpend s + 1\<rparr>))))"

definition sig_clear_blocked :: "int \<Rightarrow> signal \<Rightarrow> int \<times> signal" where
  "sig_clear_blocked sig s =
    (if detect_sig_valid sig < 0 then (-1, s)
     else (0, s\<lparr>sg_sping := (sg_sping s)\<lparr>sp_blocked := sp_blocked (sg_sping s) AND NOT (bit_of sig)\<rparr>\<rparr>))"

definition sig_set_blocked :: "int \<Rightarrow> signal \<Rightarrow> int \<times> signal" where
  "sig_set_blocked sig s =
    (if detect_sig_valid sig < 0 then (-1, s)
     else if sig = SIGSTOP \<or> sig = SIGKILL then (-1, s)
     else (0, s\<lparr>sg_sping := (sg_sping s)\<lparr>sp_blocked := sp_blocked (sg_sping s) OR bit_of sig\<rparr>\<rparr>))"

definition sig_refault_all :: "signal \<Rightarrow> signal kres" where
  "sig_refault_all s = (case sg_sig s of
      None \<Rightarrow> Inl (Fault ''sig'')
    | Some f \<Rightarrow> Inr (s\<lparr>sg_sig := Some (foldl (\<lambda>f i. f(i := default_signal_handlers i)) f [0..63])\<rparr>))"

definition sig_refault :: "int \<Rightarrow> signal \<Rightarrow> signal kres" where
  "sig_refault sig s =
    (if detect_sig_valid sig < 0 then Inr s
     else case sg_sig s of
       None \<Rightarrow> Inl (Fault ''sig'')
     | Some f \<Rightarrow> Inr (s\<lparr>sg_sig := Some (f(sig := default_signal_handlers sig))\<rparr>))"

definition sig_set_sigaction :: "int \<Rightarrow> sighandler \<Rightarrow> signal \<Rightarrow> (int \<times> signal) kres" where
  "sig_set_sigaction sig handler s =
    (if detect_sig_valid sig < 0 then Inr (-1, s)
     else if sig = SIGSTOP \<or> sig = SIGKILL then Inr (-1, s)
     else case sg_sig s of
       None \<Rightarrow> Inl (Fault ''sig'')
     | Some f \<Rightarrow> Inr (0, s\<lparr>sg_sig := Some (f(sig := handler))\<rparr>))"

definition do_sigaction :: "int \<Rightarrow> sighandler \<Rightarrow> signal \<Rightarrow> (int \<times> signal) kres" where
  "do_sigaction = sig_set_sigaction"

definition do_sigret :: "nat \<Rightarrow> mem \<Rightarrow> int \<times> mem" where
  "do_sigret tf m = (0, memcpy m tf (unat (read_u64 m (tf + TF_SP))) TF_SIZE)"

text \<open>The system call for it: \<open>syscall\<close> stores the result of the call in the register \<open>a0\<close> of the frame.\<close>

definition syscall_sigret :: "nat \<Rightarrow> mem \<Rightarrow> mem" where
  "syscall_sigret tf m = (let (r, m1) = do_sigret tf m in write_u64 (tf + TF_A0) (word_of_int r) m1)"

definition sig_release_all :: "signal \<Rightarrow> signal" where
  "sig_release_all s = s\<lparr>sg_sping := (sg_sping s)\<lparr>sp_queue :=
    ((\<lambda>q. snd (fifo_pop q)) ^^ nat (f_size (sp_queue (sg_sping s)))) (sp_queue (sg_sping s))\<rparr>, sg_sig := None\<rparr>"

section \<open>Return from a user handler\<close>

text \<open>
  C20: the round trip of a user handler.  When a signal is delivered to a user handler and the handler leaves the saved frame on its
  stack alone and returns with the stack pointer it was given, the system call sigret restores every byte of
  the trap frame except register a0, which the return value of the system call overwrites with 0.
\<close>

theorem sigret_roundtrip:
  assumes frame: "sp = unat (read_u64 m (tf + TF_SP))" "TF_SIZE \<le> sp" "tf + TF_SIZE \<le> sp - TF_SIZE \<or> sp \<le> tf"
    and pushed: "m1 = push_user_frame call tf handler m"
    and kept: "\<forall>i<TF_SIZE. m2 (sp - TF_SIZE + i) = m1 (sp - TF_SIZE + i)" "read_u64 m2 (tf + TF_SP) = read_u64 m1 (tf + TF_SP)"
  shows "(\<forall>i<TF_SIZE. \<not> (TF_A0 \<le> i \<and> i < TF_A0 + 8) \<longrightarrow> syscall_sigret tf m2 (tf + i) = m (tf + i)) \<and>
    read_u64 (syscall_sigret tf m2) (tf + TF_A0) = 0"
proof -
  have le: "of_nat TF_SIZE \<le> read_u64 m (tf + TF_SP)"
    using frame(1,2) by (simp add: word_le_nat_alt TF_SIZE_def)
  have us: "unat (read_u64 m (tf + TF_SP) - of_nat TF_SIZE) = sp - TF_SIZE"
    using le frame(1) by (simp add: unat_sub TF_SIZE_def)
  define k where "k = memcpy m (sp - TF_SIZE) tf TF_SIZE"
  have k: "k a = (if sp - TF_SIZE \<le> a \<and> a < sp - TF_SIZE + TF_SIZE then m (tf + (a - (sp - TF_SIZE))) else m a)" for a
    unfolding k_def by (rule memcpy_nth) (use frame(2,3) in auto)
  have sp_same: "read_u64 k (tf + TF_SP) = read_u64 m (tf + TF_SP)"
    by (rule read_u64_cong) (use frame(2,3) in \<open>auto simp: k TF_SP_def TF_SIZE_def\<close>)
  have m1: "m1 = write_u64 (tf + TF_EPC) call (write_u64 (tf + TF_A0) handler
      (write_u64 (tf + TF_SP) (read_u64 m (tf + TF_SP) - of_nat TF_SIZE) k))"
    using pushed sp_same by (simp add: push_user_frame_def us k_def Let_def)
  have sp1: "read_u64 m1 (tf + TF_SP) = read_u64 m (tf + TF_SP) - of_nat TF_SIZE"
    unfolding m1 by (simp add: read_write_u64_other TF_EPC_def TF_A0_def TF_SP_def)
  have saved: "m2 (sp - TF_SIZE + i) = m (tf + i)" if "i < TF_SIZE" for i
  proof -
    have "m1 (sp - TF_SIZE + i) = k (sp - TF_SIZE + i)"
      unfolding m1 using that frame(2,3) by (auto simp: write_u64_def TF_EPC_def TF_A0_def TF_SP_def TF_SIZE_def)
    then show ?thesis using kept(1) that by (simp add: k)
  qed
  have r: "snd (do_sigret tf m2) = memcpy m2 tf (sp - TF_SIZE) TF_SIZE"
    using kept(2) sp1 us by (simp add: do_sigret_def)
  have rest: "snd (do_sigret tf m2) (tf + i) = m (tf + i)" if "i < TF_SIZE" for i
    unfolding r using that frame(2,3) saved [OF that] by (subst memcpy_nth) auto
  have eq: "syscall_sigret tf m2 = write_u64 (tf + TF_A0) 0 (snd (do_sigret tf m2))"
    by (simp add: syscall_sigret_def do_sigret_def)
  have "write_u64 (tf + TF_A0) 0 (snd (do_sigret tf m2)) (tf + i) = m (tf + i)"
    if "i < TF_SIZE" "\<not> (TF_A0 \<le> i \<and> i < TF_A0 + 8)" for i
    using rest [OF that(1)] that(2) by (subst write_u64_other) auto
  then show ?thesis unfolding eq by simp
qed

theorem sigret_roundtrip_witness:
  "\<exists>m1. m1 = push_user_frame 7 4096 9 (write_u64 (4096 + TF_SP) 65536 (\<lambda>_. 1)) \<and> syscall_sigret 4096 m1 4096 = 1"
proof -
  let ?m = "write_u64 (4096 + TF_SP) 65536 (\<lambda>_. 1)"
  have s: "(65536 :: nat) = unat (read_u64 ?m (4096 + TF_SP))" by simp
  have "syscall_sigret 4096 (push_user_frame 7 4096 9 ?m) (4096 + 0) = ?m (4096 + 0)"
    using sigret_roundtrip [of 65536 ?m 4096 "push_user_frame 7 4096 9 ?m" 7 9 "push_user_frame 7 4096 9 ?m", OF s _ _ refl]
    by (force simp: TF_SIZE_def TF_A0_def)
  then show ?thesis by (simp add: write_u64_def TF_SP_def)
qed

section \<open>Delivery order\<close>

text \<open>The abstract state of a task: the set of pending standard signals and the queue of real-time signals.\<close>

type_synonym sig_abs = "nat set \<times> int list"

definition spec_send :: "u32 \<Rightarrow> int \<Rightarrow> sig_abs \<Rightarrow> sig_abs" where
  "spec_send blocked sig a = (case a of (S, Q) \<Rightarrow>
    if bit blocked (nat (sig mod 32)) then (S, Q) else if sig < 32 then (insert (nat sig) S, Q) else (S, Q @ [sig]))"

definition spec_take :: "sig_abs \<Rightarrow> int \<times> sig_abs" where
  "spec_take a = (case a of (S, Q) \<Rightarrow>
    if S \<noteq> {} then (int (Min S), S - {Min S}, Q) else (case Q of [] \<Rightarrow> (-1, S, Q) | q # qs \<Rightarrow> (q, S, qs)))"

datatype sig_op = Send int | Take

fun spec_run :: "u32 \<Rightarrow> sig_op list \<Rightarrow> sig_abs \<Rightarrow> int list \<times> sig_abs" where
  "spec_run b [] a = ([], a)"
| "spec_run b (Send sig # ops) a = spec_run b ops (spec_send b sig a)"
| "spec_run b (Take # ops) a = (let (r, a1) = spec_take a; (rs, a2) = spec_run b ops a1 in (r # rs, a2))"

fun sig_run :: "sig_op list \<Rightarrow> signal \<Rightarrow> (int list \<times> signal) kres" where
  "sig_run [] s = Inr ([], s)"
| "sig_run (Send sig # ops) s = kbind (send_sig True sig (Some (False, s))) (\<lambda>r. case r of None \<Rightarrow> Inl (Fault ''invalid'') | Some s1 \<Rightarrow> sig_run ops s1)"
| "sig_run (Take # ops) s = (let (r, s1) = signal_take s in kbind (sig_run ops s1) (\<lambda>(rs, s2). Inr (r # rs, s2)))"

definition sig_set :: "u32 \<Rightarrow> nat set" where "sig_set w = {i. i < 32 \<and> bit w i}"

definition sig_rel :: "u32 \<Rightarrow> nat \<Rightarrow> signal \<Rightarrow> sig_abs \<Rightarrow> bool" where
  "sig_rel b n s a = (case a of (S, Q) \<Rightarrow> S = sig_set (sp_signal (sg_sping s)) \<and> Q = map uint (f_list (sp_queue (sg_sping s))) \<and>
    fifo_wf (sp_queue (sg_sping s)) \<and> card S + length Q \<le> unat (sg_sigpend s) \<and> unat (sg_sigpend s) \<le> n \<and> sp_blocked (sg_sping s) = b)"

lemma and_bit: "i < 32 \<Longrightarrow> (w :: u32) AND push_bit i 1 \<noteq> 0 \<longleftrightarrow> bit w i"
proof -
  assume i: "i < 32"
  have "w AND push_bit i 1 = (if bit w i then push_bit i 1 else 0)"
    by (rule bit_eqI) (auto simp: bit_and_iff bit_exp_iff)
  moreover have "bit (push_bit i (1 :: u32)) i" using i by (simp add: bit_exp_iff)
  then have "push_bit i 1 \<noteq> (0 :: u32)" by (metis bit_0_eq bot_apply bot_bool_def)
  ultimately show ?thesis by simp
qed

lemma and_pow: "i < 32 \<Longrightarrow> (w :: u32) AND 2 ^ i = 0 \<longleftrightarrow> \<not> bit w i"
  using and_bit [of i w] by (auto simp: push_bit_of_1)

lemma sig_set_finite [simp]: "finite (sig_set w)"
  by (simp add: sig_set_def)

lemma sig_set_or: "i < 32 \<Longrightarrow> sig_set (w OR 2 ^ i) = insert i (sig_set w)"
  by (auto simp: sig_set_def bit_or_iff bit_exp_iff)

lemma sig_set_clear: "i < 32 \<Longrightarrow> sig_set (w AND NOT (2 ^ i)) = sig_set w - {i}"
  by (auto simp: sig_set_def bit_and_iff bit_not_iff bit_exp_iff)

lemma std_sig_scan_find:
  "\<forall>i\<in>set is. i < 32 \<Longrightarrow> std_sig_scan is w = (case find (bit w) is of None \<Rightarrow> (-1, w) | Some i \<Rightarrow> (int i, w AND NOT (push_bit i 1)))"
  by (induction "is") (simp_all add: and_pow)

lemma std_sig_pop_min:
  "std_sig_pop w = (if sig_set w = {} then (-1, w) else (int (Min (sig_set w)), w AND NOT (push_bit (Min (sig_set w)) 1)))"
proof (cases "find (bit w) [0..<32]")
  case None
  then have "sig_set w = {}" by (auto simp: find_None_iff sig_set_def)
  then show ?thesis using None by (simp add: std_sig_pop_def std_sig_scan_find)
next
  case (Some i)
  then have i: "i < 32" "bit w i" "\<forall>j<i. \<not> bit w j" by (auto simp: find_Some_iff)
  have "Min (sig_set w) = i" by (rule Min_eqI) (use i in \<open>auto simp: sig_set_def not_less [symmetric]\<close>)
  moreover have "sig_set w \<noteq> {}" using i by (auto simp: sig_set_def)
  ultimately show ?thesis using Some by (simp add: std_sig_pop_def std_sig_scan_find)
qed

lemma send_rel:
  assumes "sig_rel b n s a" "0 \<le> sig" "sig < 64" "Suc n < 2 ^ 32"
  shows "\<exists>t. send_sig True sig (Some (False, s)) = Inr (Some t) \<and> sig_rel b (Suc n) t (spec_send b sig a)"
proof -
  obtain S Q where a: "a = (S, Q)" by (cases a)
  note r = assms(1) [unfolded sig_rel_def a, simplified]
  have d: "\<not> detect_sig_valid sig < 0" using assms(2,3) by (simp add: detect_sig_valid_def sig_consts)
  have m: "nat (sig mod 32) < 32" by (simp add: nat_less_iff)
  have bl: "sp_blocked (sg_sping s) AND bit_of sig \<noteq> 0 \<longleftrightarrow> bit b (nat (sig mod 32))"
    unfolding bit_of_def and_bit [OF m] using r by simp
  have inc: "unat (sg_sigpend s + 1) = Suc (unat (sg_sigpend s))"
    using r assms(4) by (simp add: unat_word_ariths)
  show ?thesis
  proof (cases "bit b (nat (sig mod 32))")
    case True
    then show ?thesis using d bl r by (auto simp: send_sig_def spec_send_def a sig_rel_def)
  next
    case nb: False
    show ?thesis
    proof (cases "sig < 32")
      case True
      then have sm: "nat (sig mod 32) = nat sig" using assms(2) by simp
      have "card (insert (nat sig) S) \<le> Suc (card S)" by (simp add: card_insert_le_m1 card_insert_if r)
      then show ?thesis using d bl nb True r inc sm m assms(2)
        by (auto simp: send_sig_def spec_send_def a sig_rel_def sig_consts bit_of_def sig_set_or)
    next
      case False
      have "uint (word_of_int sig :: u8) = sig" using assms(2,3) by (simp add: unsigned_of_int take_bit_int_eq_self)
      then show ?thesis using d bl nb False r inc
        by (auto simp: send_sig_def spec_send_def a sig_rel_def sig_consts realtime_sig_push_def fifo_push_def fifo_wf_def)
    qed
  qed
qed

lemma take_rel:
  assumes "sig_rel b n s a"
  shows "\<exists>t. signal_take s = (fst (spec_take a), t) \<and> sig_rel b n t (snd (spec_take a))"
proof -
  obtain S Q where a: "a = (S, Q)" by (cases a)
  note r = assms [unfolded sig_rel_def a, simplified]
  have dec: "unat (sg_sigpend s - 1) = unat (sg_sigpend s) - 1" if "sg_sigpend s \<noteq> 0"
    using that by (simp add: unat_minus_one)
  show ?thesis
  proof (cases "sg_sigpend s = 0")
    case True
    then have "S = {}" "Q = []" using r by auto
    then show ?thesis using True assms by (auto simp: signal_take_def spec_take_def a)
  next
    case nz: False
    then have pos: "0 < unat (sg_sigpend s)" by (simp add: unat_gt_0)
    show ?thesis
    proof (cases "S = {}")
      case False
      have mn: "Min S \<in> S" by (rule Min_in) (use False r in simp_all)
      then have m32: "Min S < 32" using r by (auto simp: sig_set_def)
      have "card (S - {Min S}) = card S - 1" "0 < card S" using mn r False by (auto simp: card_gt_0_iff)
      then show ?thesis using nz False r dec [OF nz] pos m32
        by (auto simp: signal_take_def sig_pop_def std_sig_pop_min spec_take_def a sig_rel_def sig_set_clear)
    next
      case True
      then show ?thesis
      proof (cases "f_list (sp_queue (sg_sping s))")
        case Nil
        then show ?thesis using nz True r
          by (auto simp: signal_take_def sig_pop_def std_sig_pop_min spec_take_def a sig_rel_def realtime_sig_pop_def fifo_pop_def)
      next
        case (Cons q qs)
        have "uint q \<noteq> -1" using uint_ge_0 [of q] by linarith
        then show ?thesis using nz True r Cons dec [OF nz] pos
          by (auto simp: signal_take_def sig_pop_def std_sig_pop_min spec_take_def a sig_rel_def realtime_sig_pop_def fifo_pop_def fifo_wf_def)
      qed
    qed
  qed
qed

lemma sig_run_rel:
  assumes "sig_rel b n s a" "\<forall>sig. Send sig \<in> set ops \<longrightarrow> 0 \<le> sig \<and> sig < 64" "n + length ops < 2 ^ 32"
  shows "\<exists>t. sig_run ops s = Inr (fst (spec_run b ops a), t) \<and> sig_rel b (n + length ops) t (snd (spec_run b ops a))"
  using assms
proof (induction ops arbitrary: s a n)
  case (Cons op ops)
  show ?case
  proof (cases op)
    case (Send sig)
    obtain t where t: "send_sig True sig (Some (False, s)) = Inr (Some t)" "sig_rel b (Suc n) t (spec_send b sig a)"
      using send_rel [OF Cons.prems(1), of sig] Cons.prems(2,3) Send by auto
    show ?thesis using Cons.IH [OF t(2)] Cons.prems(2,3) t(1) Send by simp
  next
    case Take
    obtain t where t: "signal_take s = (fst (spec_take a), t)" "sig_rel b n t (snd (spec_take a))"
      using take_rel [OF Cons.prems(1)] by blast
    obtain u where u: "sig_run ops t = Inr (fst (spec_run b ops (snd (spec_take a))), u)"
      "sig_rel b (n + length ops) u (snd (spec_run b ops (snd (spec_take a))))"
      using Cons.IH [OF t(2)] Cons.prems(2,3) by auto
    have "sig_rel b (n + length (op # ops)) u (snd (spec_run b ops (snd (spec_take a))))"
      using u(2) by (auto simp: sig_rel_def)
    then show ?thesis using t(1) u(1) Take by (auto simp: Let_def split: prod.splits)
  qed
qed simp

text \<open>
  C16: signals are delivered in order and none is lost.  After \<open>sig_init\<close>, any run of fewer than 2 to the 32 sends of valid signals
  and takes yields exactly the signals of the abstract task: unblocked standard signals as a set, lowest number first
  and before all real-time signals, which come in the order sent, each as often as it was sent.
\<close>

theorem signals_refine:
  assumes "sig_init True s0 = Inr s" "\<forall>sig. Send sig \<in> set ops \<longrightarrow> 0 \<le> sig \<and> sig < 64" "length ops < 2 ^ 32"
  shows "\<exists>t. sig_run ops s = Inr (fst (spec_run (sp_blocked (sg_sping s0)) ops ({}, [])), t) \<and>
    sig_set (sp_signal (sg_sping t)) = fst (snd (spec_run (sp_blocked (sg_sping s0)) ops ({}, []))) \<and>
    map uint (f_list (sp_queue (sg_sping t))) = snd (snd (spec_run (sp_blocked (sg_sping s0)) ops ({}, [])))"
proof -
  have "sig_rel (sp_blocked (sg_sping s0)) 0 s ({}, [])"
    using assms(1) by (auto simp: sig_init_def sig_rel_def sigpending_init_def fifo_init_def fifo_wf_def sig_set_def)
  then obtain t where "sig_run ops s = Inr (fst (spec_run (sp_blocked (sg_sping s0)) ops ({}, [])), t)"
    "sig_rel (sp_blocked (sg_sping s0)) (0 + length ops) t (snd (spec_run (sp_blocked (sg_sping s0)) ops ({}, [])))"
    using sig_run_rel [OF _ assms(2)] assms(3) by force
  then show ?thesis by (intro exI [of _ t]) (simp add: sig_rel_def split_beta)
qed

definition signal_blank :: signal where
  "signal_blank = \<lparr>sg_sigpend = 5, sg_sping = \<lparr>sp_queue = fifo_init, sp_signal = 3, sp_blocked = 4\<rparr>, sg_sig = None\<rparr>"

theorem signals_refine_witness:
  "\<exists>s t. sig_init True signal_blank = Inr s \<and> sig_run [Send 40, Send 9, Send 40, Send 2, Take, Take, Take] s = Inr ([9, 40, 40], t)"
proof -
  obtain s where s: "sig_init True signal_blank = Inr s" by (simp add: sig_init_def)
  have b: "sp_blocked (sg_sping signal_blank) = 4" by (simp add: signal_blank_def)
  have "fst (spec_run 4 [Send 40, Send 9, Send 40, Send 2, Take, Take, Take] ({}, [])) = [9, 40, 40]"
    by (simp add: spec_send_def spec_take_def)
  moreover have "\<forall>sig. Send sig \<in> set [Send 40, Send 9, Send 40, Send 2, Take, Take, Take] \<longrightarrow> 0 \<le> sig \<and> sig < 64" by simp
  ultimately show ?thesis using signals_refine [OF s, of "[Send 40, Send 9, Send 40, Send 2, Take, Take, Take]"] s unfolding b by auto
qed

section \<open>Blocking\<close>

text \<open>The guard of \<open>sig_set_blocked\<close> protects SIGKILL only against its own number: blocking the real-time signal 41 sets the same bit.\<close>

lemma kill_can_be_blocked:
  "\<exists>t. sig_set_blocked 41 s = (0, t) \<and> send_sig ok SIGKILL (Some (False, t)) = Inr (Some t)"
proof -
  have e: "bit_of 41 = bit_of 9" by (simp add: bit_of_def)
  have "(sp_blocked (sg_sping s) OR bit_of 9) AND bit_of 9 \<noteq> 0"
    unfolding bit_of_def by (subst and_bit) (simp_all add: bit_or_iff bit_push_bit_iff)
  then show ?thesis by (simp add: sig_set_blocked_def send_sig_def detect_sig_valid_def sig_consts e)
qed

text \<open>For standard signals the guard works: SIGKILL and SIGSTOP stay deliverable.\<close>

lemma guard_std_signals:
  assumes "0 \<le> sig" "sig < 32" "k \<in> {SIGKILL, SIGSTOP}"
  shows "bit (sp_blocked (sg_sping (snd (sig_set_blocked sig s)))) (nat k) = bit (sp_blocked (sg_sping s)) (nat k)"
  using assms by (auto simp: sig_set_blocked_def detect_sig_valid_def sig_consts bit_of_def bit_or_iff bit_exp_iff)

end
