(* ===== verification/RBTree.thy ===== *)
theory RBTree
  imports Prelude
begin

text \<open>
  lib/rbtree.c and include/lib/rbtree.h at pointer level.  A node holds the parent pointer and the colour in one word, as in the
  source.  The result \<open>None\<close> stands for a call that does not return: it dereferences a null pointer or loops for ever.
  A theorem with a result \<open>Some\<close> therefore also says that the code ends and makes no bad access.

  The abstract side is a tree of node addresses and a list of frames, the path from a subtree to the root, so that
  a rotation is a local change of a plugged subtree.
\<close>

unbundle bit_operations_syntax

section \<open>Nodes\<close>

record rb_node =
  rb_parent_color :: u64
  rb_right :: addr
  rb_left :: addr

record rbs =
  rb_heap :: "addr \<Rightarrow> rb_node"
  rb_root :: addr

definition RBT_RED :: u64 where "RBT_RED = 0"

definition RBT_BLACK :: u64 where "RBT_BLACK = 1"

definition rb_color :: "rb_node \<Rightarrow> u64" where "rb_color n = rb_parent_color n AND 1"

definition rb_is_red :: "rb_node \<Rightarrow> bool" where "rb_is_red n = (rb_color n = 0)"

definition rb_is_black :: "rb_node \<Rightarrow> bool" where "rb_is_black n = (rb_color n \<noteq> 0)"

definition rb_parent :: "rb_node \<Rightarrow> addr" where "rb_parent n = unat (rb_parent_color n AND NOT 3)"

definition rb_set_red :: "rb_node \<Rightarrow> rb_node" where
  "rb_set_red n = n\<lparr>rb_parent_color := rb_parent_color n AND NOT 1\<rparr>"

definition rb_set_black :: "rb_node \<Rightarrow> rb_node" where
  "rb_set_black n = n\<lparr>rb_parent_color := rb_parent_color n OR 1\<rparr>"

definition rb_set_color :: "u64 \<Rightarrow> rb_node \<Rightarrow> rb_node" where
  "rb_set_color c n = n\<lparr>rb_parent_color := (rb_parent_color n AND NOT 1) OR c\<rparr>"

definition rb_set_parent :: "addr \<Rightarrow> rb_node \<Rightarrow> rb_node" where
  "rb_set_parent p n = n\<lparr>rb_parent_color := (of_nat p AND NOT 3) OR (rb_parent_color n AND 3)\<rparr>"

abbreviation nd :: "rbs \<Rightarrow> addr \<Rightarrow> rb_node" where "nd s a \<equiv> rb_heap s a"

definition upd :: "addr \<Rightarrow> (rb_node \<Rightarrow> rb_node) \<Rightarrow> rbs \<Rightarrow> rbs" where
  "upd a f s = s\<lparr>rb_heap := (rb_heap s)(a := f (rb_heap s a))\<rparr>"

section \<open>Rotations\<close>

definition rb_rotate_left :: "addr \<Rightarrow> rbs \<Rightarrow> rbs option" where
  "rb_rotate_left node s =
    (let right = rb_right (nd s node); parent = rb_parent (nd s node) in
     if node = 0 \<or> right = 0 then None
     else let s1 = upd node (\<lambda>n. n\<lparr>rb_right := rb_left (nd s right)\<rparr>) s;
              s2 = (if rb_left (nd s1 right) \<noteq> 0 then upd (rb_left (nd s1 right)) (rb_set_parent node) s1 else s1);
              s3 = upd right (\<lambda>n. n\<lparr>rb_left := node\<rparr>) s2;
              s4 = upd right (rb_set_parent parent) s3;
              s5 = (if parent \<noteq> 0
                then (if node = rb_left (nd s4 parent) then upd parent (\<lambda>n. n\<lparr>rb_left := right\<rparr>) s4
                      else upd parent (\<lambda>n. n\<lparr>rb_right := right\<rparr>) s4)
                else s4\<lparr>rb_root := right\<rparr>)
          in Some (upd node (rb_set_parent right) s5))"

definition rb_rotate_right :: "addr \<Rightarrow> rbs \<Rightarrow> rbs option" where
  "rb_rotate_right node s =
    (let left = rb_left (nd s node); parent = rb_parent (nd s node) in
     if node = 0 \<or> left = 0 then None
     else let s1 = upd node (\<lambda>n. n\<lparr>rb_left := rb_right (nd s left)\<rparr>) s;
              s2 = (if rb_right (nd s1 left) \<noteq> 0 then upd (rb_right (nd s1 left)) (rb_set_parent node) s1 else s1);
              s3 = upd left (\<lambda>n. n\<lparr>rb_right := node\<rparr>) s2;
              s4 = upd left (rb_set_parent parent) s3;
              s5 = upd node (rb_set_parent left) s4
          in Some (if parent \<noteq> 0
                then (if node = rb_right (nd s5 parent) then upd parent (\<lambda>n. n\<lparr>rb_right := left\<rparr>) s5
                      else upd parent (\<lambda>n. n\<lparr>rb_left := left\<rparr>) s5)
                else s5\<lparr>rb_root := left\<rparr>))"

section \<open>Words of a node\<close>

definition node_addr :: "addr \<Rightarrow> bool" where
  "node_addr a = (a \<noteq> 0 \<and> a < 2 ^ 64 \<and> 4 dvd a)"

lemma three: "(3 :: u64) = mask 2"
  by (simp add: mask_eq_exp_minus_1)

lemma low_bits_clear:
  assumes "4 dvd p" "n < 2"
  shows "\<not> bit (of_nat p :: u64) n"
proof -
  have "take_bit 2 p = 0" using assms(1) by (simp add: take_bit_eq_0_iff)
  then have "\<not> bit (take_bit 2 p) n" by simp
  then show ?thesis using assms(2) by (simp add: bit_take_bit_iff bit_of_nat_iff)
qed

lemma aligned_mask: "4 dvd p \<Longrightarrow> (of_nat p :: u64) AND NOT (mask 2) = of_nat p"
proof (rule bit_eqI)
  fix n assume "4 dvd p"
  then show "bit ((of_nat p :: u64) AND NOT (mask 2)) n = bit (of_nat p :: u64) n"
    using low_bits_clear [of p n] bit_imp_le_length [of "of_nat p :: u64" n]
    by (auto simp: bit_and_iff bit_not_iff bit_mask_iff)
qed

lemma rb_parent_set:
  assumes "4 dvd p" "p < 2 ^ 64"
  shows "rb_parent (rb_set_parent p n) = p"
proof -
  have "((of_nat p AND NOT (mask 2)) OR (w AND mask 2)) AND NOT (mask 2) = (of_nat p :: u64) AND NOT (mask 2)" for w
    by (rule bit_eqI) (auto simp: bit_and_iff bit_or_iff bit_not_iff bit_mask_iff)
  moreover have "unat (of_nat p :: u64) = p" by (rule unat_of_nat_id) (use assms(2) in simp)
  ultimately show ?thesis
    unfolding rb_parent_def rb_set_parent_def three by (simp add: aligned_mask assms(1))
qed

lemma rb_color_set_parent: "rb_color (rb_set_parent p n) = rb_color n"
proof -
  have "(w AND NOT (mask 2) OR (v AND mask 2)) AND 1 = (v :: u64) AND 1" for w v
    by (rule bit_eqI) (auto simp: bit_and_iff bit_or_iff bit_not_iff bit_mask_iff bit_1_iff)
  then show ?thesis unfolding rb_color_def rb_set_parent_def three by simp
qed

lemma one_mask: "(1 :: u64) = mask (Suc 0)"
  by (simp add: mask_eq_exp_minus_1)

lemma rb_parent_recolor:
  "rb_parent (rb_set_red n) = rb_parent n" "rb_parent (rb_set_black n) = rb_parent n"
  "c = 0 \<or> c = 1 \<Longrightarrow> rb_parent (rb_set_color c n) = rb_parent n"
proof -
  have 1: "(w AND NOT (mask (Suc 0))) AND NOT (mask 2) = (w :: u64) AND NOT (mask 2)" "(w OR mask (Suc 0)) AND NOT (mask 2) = w AND NOT (mask 2)"
    "(w AND NOT (mask (Suc 0)) OR mask (Suc 0)) AND NOT (mask 2) = w AND NOT (mask 2)" for w
    by (rule bit_eqI, auto simp: bit_and_iff bit_or_iff bit_not_iff bit_mask_iff simp del: mask_1 mask_Suc_0)+
  show "rb_parent (rb_set_red n) = rb_parent n" "rb_parent (rb_set_black n) = rb_parent n"
    unfolding rb_parent_def rb_set_red_def rb_set_black_def three one_mask by (simp_all add: 1 del: mask_1 mask_Suc_0)
  show "c = 0 \<or> c = 1 \<Longrightarrow> rb_parent (rb_set_color c n) = rb_parent n"
    unfolding rb_parent_def rb_set_color_def three one_mask by (elim disjE) (simp_all add: 1 del: mask_1 mask_Suc_0)
qed

lemma and_one: "(w :: u64) AND 1 = (if bit w 0 then 1 else 0)"
proof (rule bit_eqI)
  show "bit (w AND 1) n = bit (if bit w 0 then 1 else 0) n" for n
    by (cases "n = 0") (simp_all add: bit_and_iff bit_1_iff)
qed

lemma rb_black_iff: "rb_is_black n \<longleftrightarrow> bit (rb_parent_color n) 0" "rb_is_red n \<longleftrightarrow> \<not> bit (rb_parent_color n) 0"
  by (simp_all add: rb_is_black_def rb_is_red_def rb_color_def and_one)

lemma rb_red_not_black: "rb_is_red n \<longleftrightarrow> \<not> rb_is_black n"
  by (simp add: rb_black_iff)

lemma rb_black_set [simp]:
  "\<not> rb_is_black (rb_set_red n)" "rb_is_black (rb_set_black n)" "rb_is_black (rb_set_parent p n) = rb_is_black n"
  "rb_is_black (rb_set_color (rb_color m) n) = rb_is_black m"
proof -
  show "\<not> rb_is_black (rb_set_red n)" "rb_is_black (rb_set_black n)"
    unfolding rb_black_iff rb_set_red_def rb_set_black_def one_mask
    by (simp_all add: bit_and_iff bit_or_iff bit_not_iff bit_mask_iff del: mask_1 mask_Suc_0)
  show "rb_is_black (rb_set_parent p n) = rb_is_black n" by (simp add: rb_is_black_def rb_color_set_parent)
  show "rb_is_black (rb_set_color (rb_color m) n) = rb_is_black m"
    unfolding rb_black_iff rb_set_color_def rb_color_def one_mask
    by (simp add: bit_and_iff bit_or_iff bit_not_iff bit_mask_iff del: mask_1 mask_Suc_0)
qed

lemma rb_parent_set_color [simp]: "rb_parent (rb_set_color (rb_color m) n) = rb_parent n"
  by (rule rb_parent_recolor(3)) (simp add: rb_color_def and_one)

lemma rb_links [simp]:
  "rb_left (rb_set_red n) = rb_left n" "rb_left (rb_set_black n) = rb_left n" "rb_left (rb_set_parent p n) = rb_left n"
  "rb_right (rb_set_red n) = rb_right n" "rb_right (rb_set_black n) = rb_right n" "rb_right (rb_set_parent p n) = rb_right n"
  "rb_left (rb_set_color c n) = rb_left n" "rb_right (rb_set_color c n) = rb_right n"
  by (simp_all add: rb_set_red_def rb_set_black_def rb_set_parent_def rb_set_color_def)

lemma rb_word_frame [simp]:
  "rb_parent (n\<lparr>rb_left := x\<rparr>) = rb_parent n" "rb_parent (n\<lparr>rb_right := x\<rparr>) = rb_parent n"
  "rb_is_black (n\<lparr>rb_left := x\<rparr>) = rb_is_black n" "rb_is_black (n\<lparr>rb_right := x\<rparr>) = rb_is_black n"
  by (simp_all add: rb_parent_def rb_is_black_def rb_color_def)

lemma nd_upd: "nd (upd a f s) b = (if b = a then f (nd s a) else nd s b)" "rb_root (upd a f s) = rb_root s"
  by (simp_all add: upd_def)

section \<open>Trees and paths\<close>

text \<open>The flag of a node says that it is black.\<close>

datatype rbt = Lf | Nd bool rbt addr rbt

datatype frame = FL bool addr rbt | FR bool addr rbt

fun addrs :: "rbt \<Rightarrow> addr list" where
  "addrs Lf = []"
| "addrs (Nd c l a r) = addrs l @ a # addrs r"

fun plug :: "rbt \<Rightarrow> frame list \<Rightarrow> rbt" where
  "plug t [] = t"
| "plug t (FL c a r # k) = plug (Nd c t a r) k"
| "plug t (FR c a l # k) = plug (Nd c l a t) k"

fun before :: "frame list \<Rightarrow> addr list" where
  "before [] = []"
| "before (FL c a r # k) = before k"
| "before (FR c a l # k) = before k @ addrs l @ [a]"

fun after :: "frame list \<Rightarrow> addr list" where
  "after [] = []"
| "after (FL c a r # k) = a # addrs r @ after k"
| "after (FR c a l # k) = after k"

lemma addrs_plug: "addrs (plug t k) = before k @ addrs t @ after k"
  by (induction t k rule: plug.induct) simp_all

fun tree_at :: "rbs \<Rightarrow> addr \<Rightarrow> addr \<Rightarrow> rbt \<Rightarrow> bool" where
  "tree_at s q p Lf = (p = 0)"
| "tree_at s q p (Nd c l a r) = (p = a \<and> node_addr a \<and> rb_parent (nd s a) = q \<and> rb_is_black (nd s a) = c \<and>
    tree_at s a (rb_left (nd s a)) l \<and> tree_at s a (rb_right (nd s a)) r)"

fun ctx_at :: "rbs \<Rightarrow> addr \<Rightarrow> addr \<Rightarrow> frame list \<Rightarrow> bool" where
  "ctx_at s p q [] = (rb_root s = p \<and> q = 0)"
| "ctx_at s p q (FL c a r # k) = (q = a \<and> node_addr a \<and> rb_left (nd s a) = p \<and> rb_is_black (nd s a) = c \<and>
    tree_at s a (rb_right (nd s a)) r \<and> ctx_at s a (rb_parent (nd s a)) k)"
| "ctx_at s p q (FR c a l # k) = (q = a \<and> node_addr a \<and> rb_right (nd s a) = p \<and> rb_is_black (nd s a) = c \<and>
    tree_at s a (rb_left (nd s a)) l \<and> ctx_at s a (rb_parent (nd s a)) k)"

definition repr :: "rbs \<Rightarrow> rbt \<Rightarrow> bool" where
  "repr s t = (tree_at s 0 (rb_root s) t \<and> distinct (addrs t))"

definition kaddrs :: "frame list \<Rightarrow> addr list" where "kaddrs k = before k @ after k"

lemma plug_at: "tree_at s 0 (rb_root s) (plug t k) \<longleftrightarrow> (\<exists>p q. tree_at s q p t \<and> ctx_at s p q k)"
proof (induction t k rule: plug.induct)
  case (2 t c a r k)
  show ?case unfolding plug.simps 2 by auto
next
  case (3 t c a l k)
  show ?case unfolding plug.simps 3 by auto
qed auto

lemma repr_plug:
  "repr s (plug t k) \<longleftrightarrow> (\<exists>p q. tree_at s q p t \<and> ctx_at s p q k) \<and> distinct (addrs t) \<and> distinct (kaddrs k) \<and>
    set (addrs t) \<inter> set (kaddrs k) = {}"
  unfolding repr_def plug_at addrs_plug kaddrs_def by auto

text \<open>Only the nodes of a tree or path matter.\<close>

lemma tree_at_frame: "tree_at s q p t \<Longrightarrow> (\<And>a. a \<in> set (addrs t) \<Longrightarrow> nd s' a = nd s a) \<Longrightarrow> tree_at s' q p t"
  by (induction t arbitrary: q p) auto

lemma ctx_at_frame:
  "ctx_at s p q k \<Longrightarrow> (\<And>a. a \<in> set (kaddrs k) \<Longrightarrow> nd s' a = nd s a) \<Longrightarrow> rb_root s' = rb_root s \<Longrightarrow> ctx_at s' p q k"
  by (induction s p q k rule: ctx_at.induct) (auto simp: kaddrs_def intro: tree_at_frame)

lemma tree_at_nonzero: "tree_at s q p t \<Longrightarrow> a \<in> set (addrs t) \<Longrightarrow> node_addr a"
  by (induction t arbitrary: q p) auto

lemma ctx_at_nonzero: "ctx_at s p q k \<Longrightarrow> a \<in> set (kaddrs k) \<Longrightarrow> node_addr a"
  by (induction s p q k rule: ctx_at.induct) (auto simp: kaddrs_def dest: tree_at_nonzero)

lemma tree_at_root: "tree_at s q p t \<Longrightarrow> p = (case t of Lf \<Rightarrow> 0 | Nd c l a r \<Rightarrow> a)"
  by (cases t) auto

lemma ctx_at_parent: "ctx_at s p q k \<Longrightarrow> q = (case k of [] \<Rightarrow> 0 | FL c a r # k' \<Rightarrow> a | FR c a l # k' \<Rightarrow> a)"
  by (cases "(s, p, q, k)" rule: ctx_at.cases) auto

text \<open>A subtree gets another parent.\<close>

lemma tree_at_reparent:
  assumes "tree_at s q p t" "\<And>a. a \<in> set (addrs t) \<Longrightarrow> a \<noteq> p \<Longrightarrow> nd s' a = nd s a"
    and "p \<noteq> 0 \<Longrightarrow> rb_parent (nd s' p) = q' \<and> rb_is_black (nd s' p) = rb_is_black (nd s p) \<and> rb_left (nd s' p) = rb_left (nd s p) \<and> rb_right (nd s' p) = rb_right (nd s p)"
    and "distinct (addrs t)"
  shows "tree_at s' q' p t"
proof (cases t)
  case (Nd c l a r)
  have a: "a = p" "a \<noteq> 0" using assms(1) Nd by (auto simp: node_addr_def)
  have "tree_at s' a (rb_left (nd s a)) l" "tree_at s' a (rb_right (nd s a)) r"
    using assms(1,2,4) Nd by (auto intro!: tree_at_frame [of s])
  then show ?thesis using assms(1,3) Nd a by auto
qed (use assms(1) in simp)

text \<open>The pointer from a path to its hole changes.\<close>

lemma ctx_at_relink:
  assumes "ctx_at s p q k" "p \<noteq> p'" "distinct (kaddrs k)"
    and "\<And>a. a \<in> set (kaddrs k) \<Longrightarrow> a \<noteq> q \<Longrightarrow> nd s' a = nd s a"
    and "q = 0 \<Longrightarrow> rb_root s' = p'" "q \<noteq> 0 \<Longrightarrow> rb_root s' = rb_root s"
    and "q \<noteq> 0 \<Longrightarrow> rb_left (nd s q) = p \<Longrightarrow> nd s' q = (nd s q)\<lparr>rb_left := p'\<rparr>"
    and "q \<noteq> 0 \<Longrightarrow> rb_left (nd s q) \<noteq> p \<Longrightarrow> nd s' q = (nd s q)\<lparr>rb_right := p'\<rparr>"
    and "p = 0 \<or> p \<notin> set (kaddrs k)" "\<And>c l k'. k = FR c q l # k' \<Longrightarrow> rb_left (nd s q) \<noteq> p"
  shows "ctx_at s' p' q k"
proof (cases k)
  case Nil
  then show ?thesis using assms(1,5) by simp
next
  case (Cons f k')
  show ?thesis
  proof (cases f)
    case (FL c a r)
    have a: "a = q" "q \<noteq> 0" "rb_left (nd s q) = p" using assms(1) Cons FL by (auto simp: node_addr_def)
    have at: "tree_at s a (rb_right (nd s a)) r" "ctx_at s a (rb_parent (nd s a)) k'" using assms(1) Cons FL by simp_all
    have fr: "nd s' b = nd s b" if "b \<in> set (addrs r) \<or> b \<in> set (kaddrs k')" for b
    proof (rule assms(4))
      show "b \<in> set (kaddrs k)" using that Cons FL by (auto simp: kaddrs_def)
      show "b \<noteq> q" using that assms(3) Cons FL a by (auto simp: kaddrs_def)
    qed
    have "tree_at s' a (rb_right (nd s a)) r" "ctx_at s' a (rb_parent (nd s a)) k'"
      using tree_at_frame [OF at(1)] ctx_at_frame [OF at(2)] fr assms(6) a by blast+
    then show ?thesis using assms(1,7) Cons FL a by auto
  next
    case (FR c a l)
    have a: "a = q" "q \<noteq> 0" using assms(1) Cons FR by (auto simp: node_addr_def)
    have nl: "rb_left (nd s q) \<noteq> p" using assms(10) Cons FR a by blast
    have at: "tree_at s a (rb_left (nd s a)) l" "ctx_at s a (rb_parent (nd s a)) k'" using assms(1) Cons FR by simp_all
    have fr: "nd s' b = nd s b" if "b \<in> set (addrs l) \<or> b \<in> set (kaddrs k')" for b
    proof (rule assms(4))
      show "b \<in> set (kaddrs k)" using that Cons FR by (auto simp: kaddrs_def)
      show "b \<noteq> q" using that assms(3) Cons FR a by (auto simp: kaddrs_def)
    qed
    have "tree_at s' a (rb_left (nd s a)) l" "ctx_at s' a (rb_parent (nd s a)) k'"
      using tree_at_frame [OF at(1)] ctx_at_frame [OF at(2)] fr assms(6) a by blast+
    then show ?thesis using assms(1,8) Cons FR a nl by auto
  qed
qed

section \<open>Rotations and colours on plugged trees\<close>

lemma plug_parts:
  assumes "repr s (plug t k)"
  obtains p q where "tree_at s q p t" "ctx_at s p q k" "distinct (addrs t)" "distinct (kaddrs k)" "set (addrs t) \<inter> set (kaddrs k) = {}"
  using assms unfolding repr_plug by blast

lemma ctx_parent_in: "ctx_at s p q k \<Longrightarrow> q = 0 \<or> q \<in> set (kaddrs k) \<and> node_addr q"
  by (cases "(s, p, q, k)" rule: ctx_at.cases) (auto simp: kaddrs_def)

text \<open>When the hole holds a node, the test whether it is a left child tells the frame.\<close>

lemma ctx_left_test:
  assumes "ctx_at s p q k" "p \<noteq> 0" "p \<notin> set (kaddrs k)" "k = FR c q l # k'"
  shows "rb_left (nd s q) \<noteq> p"
proof -
  have "tree_at s q (rb_left (nd s q)) l" using assms(1,4) by simp
  then have "rb_left (nd s q) = 0 \<or> rb_left (nd s q) \<in> set (kaddrs k)"
    using assms(4) by (cases l) (auto simp: kaddrs_def)
  then show ?thesis using assms(2,3) by auto
qed

lemma ctx_right_test:
  assumes "ctx_at s p q k" "p \<noteq> 0" "p \<notin> set (kaddrs k)" "q \<noteq> 0"
  shows "p = rb_right (nd s q) \<longleftrightarrow> rb_left (nd s q) \<noteq> p"
proof (cases k)
  case (Cons f k')
  show ?thesis
  proof (cases f)
    case (FL c a r)
    have "tree_at s q (rb_right (nd s q)) r" "rb_left (nd s q) = p" using assms(1) Cons FL by simp_all
    then have "rb_right (nd s q) = 0 \<or> rb_right (nd s q) \<in> set (kaddrs k)"
      using Cons FL by (cases r) (auto simp: kaddrs_def)
    then show ?thesis using assms(2,3) \<open>rb_left (nd s q) = p\<close> by auto
  next
    case (FR c a l)
    then have "a = q" using assms(1) Cons by simp
    then show ?thesis using ctx_left_test [OF assms(1,2,3), of c l k'] assms(1) Cons FR by auto
  qed
qed (use assms in simp)

text \<open>The effect of a left rotation: \<open>x\<close> has the right child \<open>y\<close>, whose left child is \<open>b\<close>, and the parent \<open>q\<close>.\<close>

lemma rotate_left_effect:
  assumes "rb_right (nd s x) = y" "rb_parent (nd s x) = q" "rb_left (nd s y) = b" "x \<noteq> 0" "y \<noteq> 0" "x \<noteq> y" "b \<noteq> x" "b \<noteq> y" "q \<noteq> x" "q \<noteq> y"
    "b = 0 \<or> b \<noteq> q"
  shows "\<exists>s'. rb_rotate_left x s = Some s' \<and> nd s' x = rb_set_parent y ((nd s x)\<lparr>rb_right := b\<rparr>) \<and> nd s' y = rb_set_parent q ((nd s y)\<lparr>rb_left := x\<rparr>) \<and>
    (b \<noteq> 0 \<longrightarrow> nd s' b = rb_set_parent x (nd s b)) \<and>
    (q \<noteq> 0 \<longrightarrow> nd s' q = (if x = rb_left (nd s q) then (nd s q)\<lparr>rb_left := y\<rparr> else (nd s q)\<lparr>rb_right := y\<rparr>)) \<and>
    (q \<noteq> 0 \<longrightarrow> rb_root s' = rb_root s) \<and> (q = 0 \<longrightarrow> rb_root s' = y) \<and>
    (\<forall>u. u \<noteq> x \<longrightarrow> u \<noteq> y \<longrightarrow> u \<noteq> b \<or> u = 0 \<longrightarrow> u \<noteq> q \<or> u = 0 \<longrightarrow> nd s' u = nd s u)"
proof -
  define s1 where "s1 = upd x (\<lambda>n. n\<lparr>rb_right := b\<rparr>) s"
  define s2 where "s2 = (if b \<noteq> 0 then upd b (rb_set_parent x) s1 else s1)"
  define s4 where "s4 = upd y (rb_set_parent q) (upd y (\<lambda>n. n\<lparr>rb_left := x\<rparr>) s2)"
  define s5 where "s5 = (if q \<noteq> 0 then (if x = rb_left (nd s4 q) then upd q (\<lambda>n. n\<lparr>rb_left := y\<rparr>) s4
    else upd q (\<lambda>n. n\<lparr>rb_right := y\<rparr>) s4) else s4\<lparr>rb_root := y\<rparr>)"
  define s' where "s' = upd x (rb_set_parent y) s5"
  have n1: "nd s1 u = (if u = x then (nd s x)\<lparr>rb_right := b\<rparr> else nd s u)" for u by (simp add: s1_def nd_upd)
  have b1: "rb_left (nd s1 y) = b" using assms by (simp add: n1)
  have n2: "nd s2 u = (if u = b \<and> b \<noteq> 0 then rb_set_parent x (nd s u) else nd s1 u)" for u
    using assms(7) by (simp add: s2_def nd_upd n1)
  have n4: "nd s4 u = (if u = y then rb_set_parent q ((nd s y)\<lparr>rb_left := x\<rparr>) else nd s2 u)" for u
    using assms(6,8) by (simp add: s4_def nd_upd n2 n1)
  have q4: "q \<noteq> 0 \<Longrightarrow> nd s4 q = nd s q" using assms(9-11) by (auto simp: n4 n2 n1)
  have n5: "nd s5 u = (if u = q \<and> q \<noteq> 0 then (if x = rb_left (nd s q) then (nd s q)\<lparr>rb_left := y\<rparr> else (nd s q)\<lparr>rb_right := y\<rparr>)
    else nd s4 u)" for u using q4 by (simp add: s5_def nd_upd)
  have n': "nd s' u = (if u = x then rb_set_parent y (nd s5 x) else nd s5 u)" for u by (simp add: s'_def nd_upd)
  have eq: "rb_rotate_left x s = Some s'"
    unfolding rb_rotate_left_def Let_def assms(1-3) s'_def s5_def s4_def s2_def using assms(4,5) b1 unfolding s1_def by simp
  show ?thesis
  proof (intro exI [of _ s'] conjI allI impI, rule eq)
    show "nd s' x = rb_set_parent y ((nd s x)\<lparr>rb_right := b\<rparr>)" using assms by (simp add: n' n5 n4 n2 n1)
    show "nd s' y = rb_set_parent q ((nd s y)\<lparr>rb_left := x\<rparr>)" using assms by (simp add: n' n5 n4)
    show "nd s' b = rb_set_parent x (nd s b)" if "b \<noteq> 0" using assms(7,8,11) that by (simp add: n' n5 n4 n2)
    show "nd s' q = (if x = rb_left (nd s q) then (nd s q)\<lparr>rb_left := y\<rparr> else (nd s q)\<lparr>rb_right := y\<rparr>)" if "q \<noteq> 0"
      using that assms(9) by (simp add: n' n5)
    show "rb_root s' = rb_root s" if "q \<noteq> 0" using that by (simp add: s'_def s5_def s4_def s2_def s1_def nd_upd)
    show "rb_root s' = y" if "q = 0" using that by (simp add: s'_def s5_def nd_upd)
    show "nd s' u = nd s u" if "u \<noteq> x" "u \<noteq> y" "u \<noteq> b \<or> u = 0" "u \<noteq> q \<or> u = 0" for u using that by (auto simp: n' n5 n4 n2 n1)
  qed
qed

lemma rotate_right_effect:
  assumes "rb_left (nd s x) = y" "rb_parent (nd s x) = q" "rb_right (nd s y) = b" "x \<noteq> 0" "y \<noteq> 0" "x \<noteq> y" "b \<noteq> x" "b \<noteq> y" "q \<noteq> x" "q \<noteq> y"
    "b = 0 \<or> b \<noteq> q"
  shows "\<exists>s'. rb_rotate_right x s = Some s' \<and> nd s' x = rb_set_parent y ((nd s x)\<lparr>rb_left := b\<rparr>) \<and> nd s' y = rb_set_parent q ((nd s y)\<lparr>rb_right := x\<rparr>) \<and>
    (b \<noteq> 0 \<longrightarrow> nd s' b = rb_set_parent x (nd s b)) \<and>
    (q \<noteq> 0 \<longrightarrow> nd s' q = (if x = rb_right (nd s q) then (nd s q)\<lparr>rb_right := y\<rparr> else (nd s q)\<lparr>rb_left := y\<rparr>)) \<and>
    (q \<noteq> 0 \<longrightarrow> rb_root s' = rb_root s) \<and> (q = 0 \<longrightarrow> rb_root s' = y) \<and>
    (\<forall>u. u \<noteq> x \<longrightarrow> u \<noteq> y \<longrightarrow> u \<noteq> b \<or> u = 0 \<longrightarrow> u \<noteq> q \<or> u = 0 \<longrightarrow> nd s' u = nd s u)"
proof -
  define s1 where "s1 = upd x (\<lambda>n. n\<lparr>rb_left := b\<rparr>) s"
  define s2 where "s2 = (if b \<noteq> 0 then upd b (rb_set_parent x) s1 else s1)"
  define s4 where "s4 = upd y (rb_set_parent q) (upd y (\<lambda>n. n\<lparr>rb_right := x\<rparr>) s2)"
  define s5 where "s5 = upd x (rb_set_parent y) s4"
  define s' where "s' = (if q \<noteq> 0 then (if x = rb_right (nd s5 q) then upd q (\<lambda>n. n\<lparr>rb_right := y\<rparr>) s5
    else upd q (\<lambda>n. n\<lparr>rb_left := y\<rparr>) s5) else s5\<lparr>rb_root := y\<rparr>)"
  have n1: "nd s1 u = (if u = x then (nd s x)\<lparr>rb_left := b\<rparr> else nd s u)" for u by (simp add: s1_def nd_upd)
  have b1: "rb_right (nd s1 y) = b" using assms by (simp add: n1)
  have n2: "nd s2 u = (if u = b \<and> b \<noteq> 0 then rb_set_parent x (nd s u) else nd s1 u)" for u
    using assms(7) by (simp add: s2_def nd_upd n1)
  have n4: "nd s4 u = (if u = y then rb_set_parent q ((nd s y)\<lparr>rb_right := x\<rparr>) else nd s2 u)" for u
    using assms(6,8) by (simp add: s4_def nd_upd n2 n1)
  have n5: "nd s5 u = (if u = x then rb_set_parent y (nd s4 x) else nd s4 u)" for u by (simp add: s5_def nd_upd)
  have q5: "q \<noteq> 0 \<Longrightarrow> nd s5 q = nd s q" using assms(9-11) by (auto simp: n5 n4 n2 n1)
  have n': "nd s' u = (if u = q \<and> q \<noteq> 0 then (if x = rb_right (nd s q) then (nd s q)\<lparr>rb_right := y\<rparr> else (nd s q)\<lparr>rb_left := y\<rparr>)
    else nd s5 u)" for u using q5 by (simp add: s'_def nd_upd)
  have eq: "rb_rotate_right x s = Some s'"
    unfolding rb_rotate_right_def Let_def assms(1-3) s'_def s5_def s4_def s2_def using assms(4,5) b1 unfolding s1_def by simp
  show ?thesis
  proof (intro exI [of _ s'] conjI allI impI, rule eq)
    show "nd s' x = rb_set_parent y ((nd s x)\<lparr>rb_left := b\<rparr>)" using assms by (simp add: n' n5 n4 n2 n1)
    show "nd s' y = rb_set_parent q ((nd s y)\<lparr>rb_right := x\<rparr>)" using assms by (simp add: n' n5 n4)
    show "nd s' b = rb_set_parent x (nd s b)" if "b \<noteq> 0" using assms(7,8,11) that by (simp add: n' n5 n4 n2)
    show "nd s' q = (if x = rb_right (nd s q) then (nd s q)\<lparr>rb_right := y\<rparr> else (nd s q)\<lparr>rb_left := y\<rparr>)" if "q \<noteq> 0"
      using that by (simp add: n')
    show "rb_root s' = rb_root s" if "q \<noteq> 0" using that by (simp add: s'_def s5_def s4_def s2_def s1_def nd_upd)
    show "rb_root s' = y" if "q = 0" using that by (simp add: s'_def nd_upd)
    show "nd s' u = nd s u" if "u \<noteq> x" "u \<noteq> y" "u \<noteq> b \<or> u = 0" "u \<noteq> q \<or> u = 0" for u using that by (auto simp: n' n5 n4 n2 n1)
  qed
qed

lemma rotate_left_plug:
  assumes "repr s (plug (Nd c a x (Nd d b y e)) k)"
  shows "\<exists>s'. rb_rotate_left x s = Some s' \<and> repr s' (plug (Nd d (Nd c a x b) y e) k)"
proof -
  obtain p q where z: "tree_at s q p (Nd c a x (Nd d b y e))" "ctx_at s p q k" "distinct (addrs (Nd c a x (Nd d b y e)))"
    "distinct (kaddrs k)" "set (addrs (Nd c a x (Nd d b y e))) \<inter> set (kaddrs k) = {}"
    using plug_parts [OF assms] by metis
  let ?b = "rb_left (nd s y)"
  have x: "p = x" "node_addr x" "rb_parent (nd s x) = q" "rb_is_black (nd s x) = c" "tree_at s x (rb_left (nd s x)) a"
    and y: "rb_right (nd s x) = y" "node_addr y" "rb_parent (nd s y) = x" "rb_is_black (nd s y) = d"
      "tree_at s y ?b b" "tree_at s y (rb_right (nd s y)) e" using z(1) by auto
  have nz: "x \<noteq> 0" "y \<noteq> 0" "x \<noteq> y" using x(2) y(2) z(3) by (auto simp: node_addr_def)
  have q: "q = 0 \<or> q \<in> set (kaddrs k) \<and> node_addr q" by (rule ctx_parent_in [OF z(2)])
  have out: "u \<notin> set (addrs a)" "u \<notin> set (addrs b)" "u \<notin> set (addrs e)" "u \<noteq> x" "u \<noteq> y" if "u = 0 \<or> u \<in> set (kaddrs k)" for u
    using that z(5) nz tree_at_nonzero [OF x(5)] tree_at_nonzero [OF y(5)] tree_at_nonzero [OF y(6)] by (auto simp: node_addr_def)
  have qd: "q \<noteq> x" "q \<noteq> y" "q \<notin> set (addrs a)" "q \<notin> set (addrs b)" "q \<notin> set (addrs e)" using out [of q] q by auto
  have qa: "4 dvd q" "q < 2 ^ 64" using q by (auto simp: node_addr_def)
  have bb: "?b = 0 \<or> ?b \<in> set (addrs b)" using tree_at_root [OF y(5)] by (cases b) auto
  then have bd: "?b \<noteq> x" "?b \<noteq> y" "?b = 0 \<or> ?b \<noteq> q" using z(3) nz qd by auto
  obtain s' where s': "rb_rotate_left x s = Some s'"
    and e: "nd s' x = rb_set_parent y ((nd s x)\<lparr>rb_right := ?b\<rparr>) \<and> nd s' y = rb_set_parent q ((nd s y)\<lparr>rb_left := x\<rparr>) \<and>
    (?b \<noteq> 0 \<longrightarrow> nd s' ?b = rb_set_parent x (nd s ?b)) \<and>
    (q \<noteq> 0 \<longrightarrow> nd s' q = (if x = rb_left (nd s q) then (nd s q)\<lparr>rb_left := y\<rparr> else (nd s q)\<lparr>rb_right := y\<rparr>)) \<and>
    (q \<noteq> 0 \<longrightarrow> rb_root s' = rb_root s) \<and> (q = 0 \<longrightarrow> rb_root s' = y) \<and>
    (\<forall>u. u \<noteq> x \<longrightarrow> u \<noteq> y \<longrightarrow> u \<noteq> ?b \<or> u = 0 \<longrightarrow> u \<noteq> q \<or> u = 0 \<longrightarrow> nd s' u = nd s u)"
    using rotate_left_effect [OF y(1) x(3) refl nz bd(1,2) qd(1,2) bd(3)] by blast
  have nx: "nd s' x = rb_set_parent y ((nd s x)\<lparr>rb_right := ?b\<rparr>)" and ny: "nd s' y = rb_set_parent q ((nd s y)\<lparr>rb_left := x\<rparr>)" using e by simp_all
  have nb: "?b \<noteq> 0 \<Longrightarrow> nd s' ?b = rb_set_parent x (nd s ?b)" using e by blast
  have nq: "q \<noteq> 0 \<Longrightarrow> nd s' q = (if x = rb_left (nd s q) then (nd s q)\<lparr>rb_left := y\<rparr> else (nd s q)\<lparr>rb_right := y\<rparr>)"
    "q \<noteq> 0 \<Longrightarrow> rb_root s' = rb_root s" "q = 0 \<Longrightarrow> rb_root s' = y" using e by blast+
  have n0: "nd s' u = nd s u" if "u \<noteq> x" "u \<noteq> y" "u \<noteq> ?b \<or> u = 0" "u \<noteq> q \<or> u = 0" for u using e that by blast
  have ta: "tree_at s' x (rb_left (nd s x)) a" by (rule tree_at_frame [OF x(5)], rule n0) (use z(3) qd bb in auto)
  have te: "tree_at s' y (rb_right (nd s y)) e" by (rule tree_at_frame [OF y(6)], rule n0) (use z(3) qd bb in auto)
  have xa: "4 dvd x" "x < 2 ^ 64" using x(2) by (simp_all add: node_addr_def)
  have tb: "tree_at s' x ?b b"
  proof (rule tree_at_reparent [OF y(5)])
    show "nd s' u = nd s u" if "u \<in> set (addrs b)" "u \<noteq> ?b" for u by (rule n0) (use that z(3) qd in auto)
    show "rb_parent (nd s' ?b) = x \<and> rb_is_black (nd s' ?b) = rb_is_black (nd s ?b) \<and> rb_left (nd s' ?b) = rb_left (nd s ?b) \<and>
      rb_right (nd s' ?b) = rb_right (nd s ?b)" if "?b \<noteq> 0" using nb [OF that] rb_parent_set [OF xa] by simp
  qed (use z(3) in simp)
  have ctx: "ctx_at s' y q k"
  proof (rule ctx_at_relink [OF z(2)])
    show "nd s' u = nd s u" if "u \<in> set (kaddrs k)" "u \<noteq> q" for u
      by (rule n0) (use that out [of u] bb in auto)
    show "rb_left (nd s q) \<noteq> p" if "k = FR c' q l # k'" for c' l k'
      using ctx_left_test [OF z(2) _ _ that] x(1) nz z(5) by auto
  qed (use x(1) nz z(4,5) nq in auto)
  have "tree_at s' q y (Nd d (Nd c a x b) y e)"
    using x y nx ny ta tb te qa by (simp add: rb_parent_set node_addr_def)
  moreover have "distinct (addrs (Nd d (Nd c a x b) y e))" "set (addrs (Nd d (Nd c a x b) y e)) = set (addrs (Nd c a x (Nd d b y e)))"
    using z(3) by auto
  ultimately show ?thesis using s' ctx z(4,5) unfolding repr_plug by auto
qed

lemma rotate_right_plug:
  assumes "repr s (plug (Nd c (Nd d e y b) x a) k)"
  shows "\<exists>s'. rb_rotate_right x s = Some s' \<and> repr s' (plug (Nd d e y (Nd c b x a)) k)"
proof -
  obtain p q where z: "tree_at s q p (Nd c (Nd d e y b) x a)" "ctx_at s p q k" "distinct (addrs (Nd c (Nd d e y b) x a))"
    "distinct (kaddrs k)" "set (addrs (Nd c (Nd d e y b) x a)) \<inter> set (kaddrs k) = {}"
    using plug_parts [OF assms] by metis
  let ?b = "rb_right (nd s y)"
  have x: "p = x" "node_addr x" "rb_parent (nd s x) = q" "rb_is_black (nd s x) = c" "tree_at s x (rb_right (nd s x)) a"
    and y: "rb_left (nd s x) = y" "node_addr y" "rb_parent (nd s y) = x" "rb_is_black (nd s y) = d"
      "tree_at s y ?b b" "tree_at s y (rb_left (nd s y)) e" using z(1) by auto
  have nz: "x \<noteq> 0" "y \<noteq> 0" "x \<noteq> y" using x(2) y(2) z(3) by (auto simp: node_addr_def)
  have q: "q = 0 \<or> q \<in> set (kaddrs k) \<and> node_addr q" by (rule ctx_parent_in [OF z(2)])
  have out: "u \<notin> set (addrs a)" "u \<notin> set (addrs b)" "u \<notin> set (addrs e)" "u \<noteq> x" "u \<noteq> y" if "u = 0 \<or> u \<in> set (kaddrs k)" for u
    using that z(5) nz tree_at_nonzero [OF x(5)] tree_at_nonzero [OF y(5)] tree_at_nonzero [OF y(6)] by (auto simp: node_addr_def)
  have qd: "q \<noteq> x" "q \<noteq> y" "q \<notin> set (addrs a)" "q \<notin> set (addrs b)" "q \<notin> set (addrs e)" using out [of q] q by auto
  have qa: "4 dvd q" "q < 2 ^ 64" using q by (auto simp: node_addr_def)
  have bb: "?b = 0 \<or> ?b \<in> set (addrs b)" using tree_at_root [OF y(5)] by (cases b) auto
  then have bd: "?b \<noteq> x" "?b \<noteq> y" "?b = 0 \<or> ?b \<noteq> q" using z(3) nz qd by auto
  obtain s' where s': "rb_rotate_right x s = Some s'"
    and e: "nd s' x = rb_set_parent y ((nd s x)\<lparr>rb_left := ?b\<rparr>) \<and> nd s' y = rb_set_parent q ((nd s y)\<lparr>rb_right := x\<rparr>) \<and>
    (?b \<noteq> 0 \<longrightarrow> nd s' ?b = rb_set_parent x (nd s ?b)) \<and>
    (q \<noteq> 0 \<longrightarrow> nd s' q = (if x = rb_right (nd s q) then (nd s q)\<lparr>rb_right := y\<rparr> else (nd s q)\<lparr>rb_left := y\<rparr>)) \<and>
    (q \<noteq> 0 \<longrightarrow> rb_root s' = rb_root s) \<and> (q = 0 \<longrightarrow> rb_root s' = y) \<and>
    (\<forall>u. u \<noteq> x \<longrightarrow> u \<noteq> y \<longrightarrow> u \<noteq> ?b \<or> u = 0 \<longrightarrow> u \<noteq> q \<or> u = 0 \<longrightarrow> nd s' u = nd s u)"
    using rotate_right_effect [OF y(1) x(3) refl nz bd(1,2) qd(1,2) bd(3)] by blast
  have nx: "nd s' x = rb_set_parent y ((nd s x)\<lparr>rb_left := ?b\<rparr>)" and ny: "nd s' y = rb_set_parent q ((nd s y)\<lparr>rb_right := x\<rparr>)" using e by simp_all
  have nb: "?b \<noteq> 0 \<Longrightarrow> nd s' ?b = rb_set_parent x (nd s ?b)" using e by blast
  have nq: "q \<noteq> 0 \<Longrightarrow> nd s' q = (if x = rb_right (nd s q) then (nd s q)\<lparr>rb_right := y\<rparr> else (nd s q)\<lparr>rb_left := y\<rparr>)"
    "q \<noteq> 0 \<Longrightarrow> rb_root s' = rb_root s" "q = 0 \<Longrightarrow> rb_root s' = y" using e by blast+
  have n0: "nd s' u = nd s u" if "u \<noteq> x" "u \<noteq> y" "u \<noteq> ?b \<or> u = 0" "u \<noteq> q \<or> u = 0" for u using e that by blast
  have ta: "tree_at s' x (rb_right (nd s x)) a" by (rule tree_at_frame [OF x(5)], rule n0) (use z(3) qd bb in auto)
  have te: "tree_at s' y (rb_left (nd s y)) e" by (rule tree_at_frame [OF y(6)], rule n0) (use z(3) qd bb in auto)
  have xa: "4 dvd x" "x < 2 ^ 64" using x(2) by (simp_all add: node_addr_def)
  have tb: "tree_at s' x ?b b"
  proof (rule tree_at_reparent [OF y(5)])
    show "nd s' u = nd s u" if "u \<in> set (addrs b)" "u \<noteq> ?b" for u by (rule n0) (use that z(3) qd in auto)
    show "rb_parent (nd s' ?b) = x \<and> rb_is_black (nd s' ?b) = rb_is_black (nd s ?b) \<and> rb_left (nd s' ?b) = rb_left (nd s ?b) \<and>
      rb_right (nd s' ?b) = rb_right (nd s ?b)" if "?b \<noteq> 0" using nb [OF that] rb_parent_set [OF xa] by simp
  qed (use z(3) in simp)
  have ctx: "ctx_at s' y q k"
  proof (rule ctx_at_relink [OF z(2)])
    show "nd s' u = nd s u" if "u \<in> set (kaddrs k)" "u \<noteq> q" for u
      by (rule n0) (use that out [of u] bb in auto)
    show "rb_left (nd s q) \<noteq> p" if "k = FR c' q l # k'" for c' l k'
      using ctx_left_test [OF z(2) _ _ that] x(1) nz z(5) by auto
    have t: "p = rb_right (nd s q) \<longleftrightarrow> rb_left (nd s q) \<noteq> p" if "q \<noteq> 0" using ctx_right_test [OF z(2) _ _ that] x(1) nz z(5) by auto
    show "nd s' q = (nd s q)\<lparr>rb_left := y\<rparr>" if "q \<noteq> 0" "rb_left (nd s q) = p" using nq(1) [OF that(1)] t [OF that(1)] that(2) x(1) by simp
    show "nd s' q = (nd s q)\<lparr>rb_right := y\<rparr>" if "q \<noteq> 0" "rb_left (nd s q) \<noteq> p" using nq(1) [OF that(1)] t [OF that(1)] that(2) x(1) by simp
  qed (use x(1) nz z(4,5) nq in auto)
  have "tree_at s' q y (Nd d e y (Nd c b x a))"
    using x y nx ny ta tb te qa by (simp add: rb_parent_set node_addr_def)
  moreover have "distinct (addrs (Nd d e y (Nd c b x a)))" "set (addrs (Nd d e y (Nd c b x a))) = set (addrs (Nd c (Nd d e y b) x a))"
    using z(3) by auto
  ultimately show ?thesis using s' ctx z(4,5) unfolding repr_plug by auto
qed

text \<open>Recolouring a node.\<close>

lemma recolor_plug:
  assumes "repr s (plug (Nd c l a r) k)"
    and "\<And>n. rb_is_black (f n) = d" "\<And>n. rb_parent (f n) = rb_parent n" "\<And>n. rb_left (f n) = rb_left n" "\<And>n. rb_right (f n) = rb_right n"
  shows "repr (upd a f s) (plug (Nd d l a r) k)"
proof -
  obtain p q where z: "tree_at s q p (Nd c l a r)" "ctx_at s p q k" "distinct (addrs (Nd c l a r))"
    "distinct (kaddrs k)" "set (addrs (Nd c l a r)) \<inter> set (kaddrs k) = {}"
    using plug_parts [OF assms(1)] by metis
  have "tree_at (upd a f s) a (rb_left (nd s a)) l" by (rule tree_at_frame [of s]) (use z(1,3) in \<open>auto simp: nd_upd\<close>)
  moreover have "tree_at (upd a f s) a (rb_right (nd s a)) r" by (rule tree_at_frame [of s]) (use z(1,3) in \<open>auto simp: nd_upd\<close>)
  ultimately have "tree_at (upd a f s) q p (Nd d l a r)" using z(1) assms(2-5) by (simp add: nd_upd)
  moreover have "ctx_at (upd a f s) p q k" by (rule ctx_at_frame [OF z(2)]) (use z(5) in \<open>auto simp: nd_upd\<close>)
  ultimately show ?thesis using z(3-5) unfolding repr_plug by auto
qed

lemma set_black_plug: "repr s (plug (Nd c l a r) k) \<Longrightarrow> repr (upd a rb_set_black s) (plug (Nd True l a r) k)"
  by (rule recolor_plug) (simp_all add: rb_parent_recolor)

lemma set_red_plug: "repr s (plug (Nd c l a r) k) \<Longrightarrow> repr (upd a rb_set_red s) (plug (Nd False l a r) k)"
  by (rule recolor_plug) (simp_all add: rb_parent_recolor)

lemma set_color_plug:
  "repr s (plug (Nd c l a r) k) \<Longrightarrow> repr (upd a (rb_set_color (rb_color m)) s) (plug (Nd (rb_is_black m) l a r) k)"
  by (rule recolor_plug) simp_all

text \<open>What the code reads at a plugged node.\<close>

lemma plug_node:
  assumes "repr s (plug (Nd c l a r) k)"
  shows "node_addr a" "a \<noteq> 0" "rb_is_black (nd s a) = c" "rb_left (nd s a) = (case l of Lf \<Rightarrow> 0 | Nd _ _ b _ \<Rightarrow> b)"
    "rb_right (nd s a) = (case r of Lf \<Rightarrow> 0 | Nd _ _ b _ \<Rightarrow> b)"
    "rb_parent (nd s a) = (case k of [] \<Rightarrow> 0 | FL _ b _ # _ \<Rightarrow> b | FR _ b _ # _ \<Rightarrow> b)"
proof -
  obtain p q where z: "tree_at s q p (Nd c l a r)" "ctx_at s p q k"
    using plug_parts [OF assms] by metis
  show "node_addr a" "a \<noteq> 0" "rb_is_black (nd s a) = c" using z(1) by (auto simp: node_addr_def)
  show "rb_left (nd s a) = (case l of Lf \<Rightarrow> 0 | Nd _ _ b _ \<Rightarrow> b)" "rb_right (nd s a) = (case r of Lf \<Rightarrow> 0 | Nd _ _ b _ \<Rightarrow> b)"
    using z(1) by (auto dest: tree_at_root)
  show "rb_parent (nd s a) = (case k of [] \<Rightarrow> 0 | FL _ b _ # _ \<Rightarrow> b | FR _ b _ # _ \<Rightarrow> b)"
    using z(1) ctx_at_parent [OF z(2)] by (cases k) (auto split: frame.splits)
qed

lemma plug_distinct: "repr s (plug t k) \<Longrightarrow> distinct (addrs t) \<and> distinct (kaddrs k) \<and> set (addrs t) \<inter> set (kaddrs k) = {}"
  by (simp add: repr_plug)

end
