(* ===== verification/RBInsert.thy ===== *)
theory RBInsert
  imports RBTree
begin

text \<open>
  Insertion, search, traversal and validation of lib/rbtree.c.  Insertion is totally correct: it returns, the nodes stay in key order with the new
  node behind its equals, and the tree is again a red-black tree.  \<open>validate_rbtree\<close> accepts exactly the
  red-black trees.
\<close>

section \<open>Operations\<close>

text \<open>The part of a round of \<open>rb_insert_fixup\<close> behind the test of the uncle, for a parent that is a left and a right child.  The result is the
  node of the next round.\<close>

definition fixup_rotate :: "bool \<Rightarrow> addr \<Rightarrow> addr \<Rightarrow> addr \<Rightarrow> rbs \<Rightarrow> (addr \<times> rbs) option" where
  "fixup_rotate is_left node parent gparent s =
    (let inner = (if is_left then rb_right (nd s parent) else rb_left (nd s parent)) in
     Option.bind
      (if node = inner
       then Option.bind (if is_left then rb_rotate_left parent s else rb_rotate_right parent s) (\<lambda>s1.
         let p = rb_parent (nd s1 parent) in Some (parent, p, if p \<noteq> 0 then rb_parent (nd s1 p) else 0, s1))
       else Some (node, parent, gparent, s))
      (\<lambda>(n, p, g, s1).
        if p \<noteq> 0 \<and> g \<noteq> 0 then
          let s2 = upd g rb_set_red (upd p rb_set_black s1) in
          Option.bind (if is_left then rb_rotate_right g s2 else rb_rotate_left g s2) (\<lambda>s3. Some (n, s3))
        else Some (n, s1)))"

partial_function (option) fixup_loop :: "addr \<Rightarrow> rbs \<Rightarrow> rbs option" where
  "fixup_loop node s =
    (let parent = rb_parent (nd s node) in
     if node = 0 then None
     else if parent = 0 then Some s
     else if rb_is_black (nd s parent) then Some s
     else let gparent = rb_parent (nd s parent) in
       if gparent = 0 then Some s
       else let is_left = (parent = rb_left (nd s gparent));
                uncle = (if is_left then rb_right (nd s gparent) else rb_left (nd s gparent)) in
         if uncle \<noteq> 0 \<and> rb_is_red (nd s uncle)
         then fixup_loop gparent (upd gparent rb_set_red (upd uncle rb_set_black (upd parent rb_set_black s)))
         else Option.bind (fixup_rotate is_left node parent gparent s) (\<lambda>r. fixup_loop (fst r) (snd r)))"

definition rb_insert_fixup :: "addr \<Rightarrow> rbs \<Rightarrow> rbs option" where
  "rb_insert_fixup node s = Option.bind (fixup_loop node s) (\<lambda>s1. if rb_root s1 = 0 then None else Some (upd (rb_root s1) rb_set_black s1))"

text \<open>The pointer \<open>link\<close> of \<open>rb_insert\<close>: the root field or a child field of a node.\<close>

datatype link = LRoot | LLeft addr | LRight addr

fun deref :: "link \<Rightarrow> rbs \<Rightarrow> addr" where
  "deref LRoot s = rb_root s"
| "deref (LLeft a) s = rb_left (nd s a)"
| "deref (LRight a) s = rb_right (nd s a)"

fun store :: "link \<Rightarrow> addr \<Rightarrow> rbs \<Rightarrow> rbs" where
  "store LRoot p s = s\<lparr>rb_root := p\<rparr>"
| "store (LLeft a) p s = upd a (\<lambda>n. n\<lparr>rb_left := p\<rparr>) s"
| "store (LRight a) p s = upd a (\<lambda>n. n\<lparr>rb_right := p\<rparr>) s"

partial_function (option) rb_insert_find :: "(addr \<Rightarrow> addr \<Rightarrow> int) \<Rightarrow> addr \<Rightarrow> link \<Rightarrow> addr \<Rightarrow> rbs \<Rightarrow> (link \<times> addr) option" where
  "rb_insert_find cmp node link parent s =
    (let p = deref link s in
     if p = 0 then Some (link, parent)
     else if cmp node p < 0 then rb_insert_find cmp node (LLeft p) p s
     else rb_insert_find cmp node (LRight p) p s)"

definition rb_insert :: "(addr \<Rightarrow> addr \<Rightarrow> int) \<Rightarrow> addr \<Rightarrow> rbs \<Rightarrow> rbs option" where
  "rb_insert cmp node s =
    Option.bind (rb_insert_find cmp node LRoot 0 s) (\<lambda>(link, parent).
      if node = 0 then None
      else rb_insert_fixup node (store link node
        (upd node rb_set_red (upd node (\<lambda>n. n\<lparr>rb_left := 0, rb_right := 0\<rparr>) (upd node (rb_set_parent parent) s)))))"

text \<open>\<open>cmp\<close> of \<open>rb_search\<close> compares a node with the key that is searched.\<close>

partial_function (option) rb_search_from :: "(addr \<Rightarrow> int) \<Rightarrow> addr \<Rightarrow> rbs \<Rightarrow> addr option" where
  "rb_search_from cmp node s =
    (if node = 0 then Some 0
     else if cmp node > 0 then rb_search_from cmp (rb_right (nd s node)) s
     else if cmp node < 0 then rb_search_from cmp (rb_left (nd s node)) s
     else Some node)"

definition rb_search :: "(addr \<Rightarrow> int) \<Rightarrow> rbs \<Rightarrow> addr option" where
  "rb_search cmp s = rb_search_from cmp (rb_root s) s"

partial_function (option) leftmost :: "addr \<Rightarrow> rbs \<Rightarrow> addr option" where
  "leftmost n s = (if n = 0 then None else if rb_left (nd s n) \<noteq> 0 then leftmost (rb_left (nd s n)) s else Some n)"

definition rb_first :: "rbs \<Rightarrow> addr option" where
  "rb_first s = (if rb_root s = 0 then Some 0 else leftmost (rb_root s) s)"

partial_function (option) rb_next_up :: "addr \<Rightarrow> rbs \<Rightarrow> addr option" where
  "rb_next_up node s =
    (let parent = rb_parent (nd s node) in
     if parent = 0 then Some 0
     else if node = rb_left (nd s parent) then Some parent
     else rb_next_up parent s)"

definition rb_next :: "addr \<Rightarrow> rbs \<Rightarrow> addr option" where
  "rb_next node s =
    (if node = 0 then None
     else if rb_right (nd s node) \<noteq> 0 then leftmost (rb_right (nd s node)) s
     else rb_next_up node s)"

text \<open>Validation: \<open>None\<close> for a run that does not end, \<open>Inl\<close> for a failed assertion, else the black height.\<close>

partial_function (option) validate_subtree :: "addr \<Rightarrow> rbs \<Rightarrow> int kres option" where
  "validate_subtree node s =
    (if node = 0 then Some (Inr 1)
     else if rb_is_red (nd s node) \<and> (rb_left (nd s node) \<noteq> 0 \<and> \<not> rb_is_black (nd s (rb_left (nd s node))) \<or>
       rb_right (nd s node) \<noteq> 0 \<and> \<not> rb_is_black (nd s (rb_right (nd s node)))) then Some (Inl (Panic ''red child''))
     else Option.bind (validate_subtree (rb_left (nd s node)) s) (\<lambda>l. case l of Inl e \<Rightarrow> Some (Inl e) | Inr hl \<Rightarrow>
          Option.bind (validate_subtree (rb_right (nd s node)) s) (\<lambda>r. case r of Inl e \<Rightarrow> Some (Inl e) | Inr hr \<Rightarrow>
            Some (if hl \<noteq> hr then Inl (Panic ''black height'') else Inr (if rb_is_black (nd s node) then hl + 1 else hl)))))"

definition validate_rbtree :: "rbs \<Rightarrow> unit kres option" where
  "validate_rbtree s =
    (if rb_root s = 0 then Some (Inr ())
     else if \<not> rb_is_black (nd s (rb_root s)) then Some (Inl (Panic ''red root''))
     else Option.bind (validate_subtree (rb_root s) s) (\<lambda>r. Some (kbind r (\<lambda>_. Inr ()))))"

section \<open>Red-black trees\<close>

fun is_black :: "rbt \<Rightarrow> bool" where
  "is_black Lf = True"
| "is_black (Nd c l a r) = c"

fun bheight :: "rbt \<Rightarrow> nat" where
  "bheight Lf = 0"
| "bheight (Nd c l a r) = bheight l + (if c then 1 else 0)"

fun invh :: "rbt \<Rightarrow> bool" where
  "invh Lf = True"
| "invh (Nd c l a r) = (bheight l = bheight r \<and> invh l \<and> invh r)"

fun invc :: "rbt \<Rightarrow> bool" where
  "invc Lf = True"
| "invc (Nd c l a r) = ((\<not> c \<longrightarrow> is_black l \<and> is_black r) \<and> invc l \<and> invc r)"

definition red_black :: "rbt \<Rightarrow> bool" where
  "red_black t = (invh t \<and> invc t \<and> is_black t)"

text \<open>A path whose hole expects black height \<open>h\<close>; a red frame lies below a black one.\<close>

fun fcolor :: "frame \<Rightarrow> bool" where
  "fcolor (FL c a r) = c"
| "fcolor (FR c a l) = c"

fun fsib :: "frame \<Rightarrow> rbt" where
  "fsib (FL c a r) = r"
| "fsib (FR c a l) = l"

fun kinv :: "frame list \<Rightarrow> nat \<Rightarrow> bool" where
  "kinv [] h = True"
| "kinv (f # k) h = (invh (fsib f) \<and> invc (fsib f) \<and> bheight (fsib f) = h \<and>
    (\<not> fcolor f \<longrightarrow> is_black (fsib f) \<and> k \<noteq> [] \<and> fcolor (hd k)) \<and> kinv k (h + (if fcolor f then 1 else 0)))"

fun fill :: "frame \<Rightarrow> rbt \<Rightarrow> rbt" where
  "fill (FL c a r) t = Nd c t a r"
| "fill (FR c a l) t = Nd c l a t"

fun faddr :: "frame \<Rightarrow> addr" where
  "faddr (FL c a r) = a"
| "faddr (FR c a l) = a"

lemma plug_Cons: "plug t (f # k) = plug (fill f t) k"
  by (cases f) simp_all

lemma plug_inv:
  assumes "kinv k h" "invh t" "invc t" "bheight t = h" "k = [] \<or> fcolor (hd k) \<or> is_black t"
  shows "invh (plug t k) \<and> invc (plug t k) \<and> (k \<noteq> [] \<longrightarrow> is_black (plug t k))"
  using assms
proof (induction k arbitrary: t h)
  case (Cons f k)
  have k: "kinv k (h + (if fcolor f then 1 else 0))" and f: "\<not> fcolor f \<Longrightarrow> k \<noteq> [] \<and> fcolor (hd k)" using Cons.prems(1) by auto
  have t: "invh (fill f t)" "invc (fill f t)" "bheight (fill f t) = h + (if fcolor f then 1 else 0)" "is_black (fill f t) = fcolor f"
    using Cons.prems by (cases f; auto)+
  show ?case
  proof (cases k)
    case Nil
    then show ?thesis using t f by (auto simp: plug_Cons)
  next
    case c: (Cons g k')
    show ?thesis using Cons.IH [OF k t(1-3)] t(4) f c by (auto simp: plug_Cons)
  qed
qed simp

section \<open>The rotations of a round\<close>

lemma plug_lookup:
  assumes "repr s (plug (Nd c l a r) (f # k))"
  shows "faddr f \<noteq> 0" "rb_parent (nd s a) = faddr f" "rb_is_black (nd s (faddr f)) = fcolor f"
    "rb_parent (nd s (faddr f)) = (case k of [] \<Rightarrow> 0 | g # _ \<Rightarrow> faddr g)"
    "rb_left (nd s (faddr f)) = (case f of FL _ _ _ \<Rightarrow> a | FR _ _ t \<Rightarrow> (case t of Lf \<Rightarrow> 0 | Nd _ _ b _ \<Rightarrow> b))"
    "rb_right (nd s (faddr f)) = (case f of FR _ _ _ \<Rightarrow> a | FL _ _ t \<Rightarrow> (case t of Lf \<Rightarrow> 0 | Nd _ _ b _ \<Rightarrow> b))"
proof -
  have up: "repr s (plug (fill f (Nd c l a r)) k)" using assms by (simp add: plug_Cons)
  note n = plug_node [OF assms]
  show "rb_parent (nd s a) = faddr f" using n(6) by (cases f) simp_all
  have "faddr f \<noteq> 0 \<and> rb_is_black (nd s (faddr f)) = fcolor f \<and> rb_parent (nd s (faddr f)) = (case k of [] \<Rightarrow> 0 | g # _ \<Rightarrow> faddr g) \<and>
    rb_left (nd s (faddr f)) = (case f of FL _ _ _ \<Rightarrow> a | FR _ _ t \<Rightarrow> (case t of Lf \<Rightarrow> 0 | Nd _ _ b _ \<Rightarrow> b)) \<and>
    rb_right (nd s (faddr f)) = (case f of FR _ _ _ \<Rightarrow> a | FL _ _ t \<Rightarrow> (case t of Lf \<Rightarrow> 0 | Nd _ _ b _ \<Rightarrow> b))"
  proof (cases f)
    case (FL d b t)
    show ?thesis using plug_node [of s d "Nd c l a r" b t k] up FL by (auto split: list.splits frame.splits)
  next
    case (FR d b t)
    show ?thesis using plug_node [of s d t b "Nd c l a r" k] up FR by (auto split: list.splits frame.splits)
  qed
  then show "faddr f \<noteq> 0" "rb_is_black (nd s (faddr f)) = fcolor f"
    "rb_parent (nd s (faddr f)) = (case k of [] \<Rightarrow> 0 | g # _ \<Rightarrow> faddr g)"
    "rb_left (nd s (faddr f)) = (case f of FL _ _ _ \<Rightarrow> a | FR _ _ t \<Rightarrow> (case t of Lf \<Rightarrow> 0 | Nd _ _ b _ \<Rightarrow> b))"
    "rb_right (nd s (faddr f)) = (case f of FR _ _ _ \<Rightarrow> a | FL _ _ t \<Rightarrow> (case t of Lf \<Rightarrow> 0 | Nd _ _ b _ \<Rightarrow> b))" by auto
qed

lemma sibling_differs:
  assumes "repr s (plug (Nd c l a r) (f # k))" "fsib f = Nd d l' b r'"
  shows "a \<noteq> b"
  using plug_distinct [OF assms(1)] assms(2) by (cases f) (auto simp: kaddrs_def)

lemma straight_left:
  assumes "repr s (plug (Nd False (Nd False l n r) pa rf) (FL True ga U # k))"
  shows "\<exists>s'. fixup_rotate True n pa ga s = Some (n, s') \<and> repr s' (plug (Nd True (Nd False l n r) pa (Nd False rf ga U)) k)"
proof -
  have n0: "n \<noteq> rb_right (nd s pa)" "pa \<noteq> 0" "ga \<noteq> 0" "n \<noteq> 0"
    using plug_node [OF assms] plug_lookup(1) [OF assms] plug_distinct [OF assms] plug_node(2) [of s False l n r "FL False pa rf # FL True ga U # k"] assms
    by (auto split: rbt.splits)
  have "repr (upd pa rb_set_black s) (plug (Nd True (Nd True (Nd False l n r) pa rf) ga U) k)" using set_black_plug [OF assms] by simp
  from set_red_plug [OF this] obtain s' where "rb_rotate_right ga (upd ga rb_set_red (upd pa rb_set_black s)) = Some s'"
    "repr s' (plug (Nd True (Nd False l n r) pa (Nd False rf ga U)) k)" using rotate_right_plug by blast
  then show ?thesis using n0 by (simp add: fixup_rotate_def Let_def)
qed

lemma straight_right:
  assumes "repr s (plug (Nd False lf pa (Nd False l n r)) (FR True ga U # k))"
  shows "\<exists>s'. fixup_rotate False n pa ga s = Some (n, s') \<and> repr s' (plug (Nd True (Nd False U ga lf) pa (Nd False l n r)) k)"
proof -
  have n0: "n \<noteq> rb_left (nd s pa)" "pa \<noteq> 0" "ga \<noteq> 0" "n \<noteq> 0"
    using plug_node [OF assms] plug_lookup(1) [OF assms] plug_distinct [OF assms] plug_node(2) [of s False l n r "FR False pa lf # FR True ga U # k"] assms
    by (auto split: rbt.splits)
  have "repr (upd pa rb_set_black s) (plug (Nd True U ga (Nd True lf pa (Nd False l n r))) k)" using set_black_plug [OF assms] by simp
  from set_red_plug [OF this] obtain s' where "rb_rotate_left ga (upd ga rb_set_red (upd pa rb_set_black s)) = Some s'"
    "repr s' (plug (Nd True (Nd False U ga lf) pa (Nd False l n r)) k)" using rotate_left_plug by blast
  then show ?thesis using n0 by (simp add: fixup_rotate_def Let_def)
qed

lemma zigzag_left:
  assumes "repr s (plug (Nd False lf pa (Nd False l n r)) (FL True ga U # k))"
  shows "\<exists>s'. fixup_rotate True n pa ga s = Some (pa, s') \<and> repr s' (plug (Nd True (Nd False lf pa l) n (Nd False r ga U)) k)"
proof -
  have n0: "n = rb_right (nd s pa)" "ga \<noteq> 0" using plug_node [OF assms] plug_lookup(1) [OF assms] by auto
  obtain s1 where s1: "rb_rotate_left pa s = Some s1" "repr s1 (plug (Nd False (Nd False lf pa l) n r) (FL True ga U # k))"
    using rotate_left_plug [OF assms] by blast
  have p1: "rb_parent (nd s1 pa) = n" "n \<noteq> 0" "rb_parent (nd s1 n) = ga"
    using plug_lookup(1,2) [of s1 False lf pa l "FL False n r" "FL True ga U # k"] plug_lookup(2) [OF s1(2)] s1(2) by auto
  have "repr (upd n rb_set_black s1) (plug (Nd True (Nd True (Nd False lf pa l) n r) ga U) k)" using set_black_plug [OF s1(2)] by simp
  from set_red_plug [OF this] obtain s' where "rb_rotate_right ga (upd ga rb_set_red (upd n rb_set_black s1)) = Some s'"
    "repr s' (plug (Nd True (Nd False lf pa l) n (Nd False r ga U)) k)" using rotate_right_plug by blast
  then show ?thesis using n0 s1(1) p1 by (simp add: fixup_rotate_def Let_def)
qed

lemma zigzag_right:
  assumes "repr s (plug (Nd False (Nd False l n r) pa rf) (FR True ga U # k))"
  shows "\<exists>s'. fixup_rotate False n pa ga s = Some (pa, s') \<and> repr s' (plug (Nd True (Nd False U ga l) n (Nd False r pa rf)) k)"
proof -
  have n0: "n = rb_left (nd s pa)" "ga \<noteq> 0" using plug_node [OF assms] plug_lookup(1) [OF assms] by auto
  obtain s1 where s1: "rb_rotate_right pa s = Some s1" "repr s1 (plug (Nd False l n (Nd False r pa rf)) (FR True ga U # k))"
    using rotate_right_plug [OF assms] by blast
  have p1: "rb_parent (nd s1 pa) = n" "n \<noteq> 0" "rb_parent (nd s1 n) = ga"
    using plug_lookup(1,2) [of s1 False r pa rf "FR False n l" "FR True ga U # k"] plug_lookup(2) [OF s1(2)] s1(2) by auto
  have "repr (upd n rb_set_black s1) (plug (Nd True U ga (Nd True l n (Nd False r pa rf))) k)" using set_black_plug [OF s1(2)] by simp
  from set_red_plug [OF this] obtain s' where "rb_rotate_left ga (upd ga rb_set_red (upd n rb_set_black s1)) = Some s'"
    "repr s' (plug (Nd True (Nd False U ga l) n (Nd False r pa rf)) k)" using rotate_left_plug by blast
  then show ?thesis using n0 s1(1) p1 by (simp add: fixup_rotate_def Let_def)
qed

section \<open>The loop\<close>

text \<open>What every round starts with: a red node over two black subtrees, on a path that is otherwise in order.\<close>

definition red_at :: "rbs \<Rightarrow> rbt \<Rightarrow> addr \<Rightarrow> rbt \<Rightarrow> frame list \<Rightarrow> nat \<Rightarrow> bool" where
  "red_at s l n r k h = (repr s (plug (Nd False l n r) k) \<and> kinv k h \<and> invh l \<and> invc l \<and> is_black l \<and> bheight l = h \<and>
    invh r \<and> invc r \<and> is_black r \<and> bheight r = h)"

lemma red_atD:
  assumes "red_at s l n r k h"
  shows "repr s (plug (Nd False l n r) k)" "kinv k h" "invh (Nd False l n r)" "invc (Nd False l n r)" "bheight (Nd False l n r) = h"
    "is_black l" "is_black r"
  using assms by (auto simp: red_at_def)

lemma loop_stops:
  assumes "repr s (plug (Nd False l n r) k)" "k = [] \<or> fcolor (hd k)"
  shows "fixup_loop n s = Some s"
proof (cases k)
  case Nil
  then show ?thesis using plug_node [OF assms(1)] by (subst fixup_loop.simps) simp
next
  case (Cons f k')
  have "repr s (plug (Nd False l n r) (f # k'))" using assms(1) Cons by simp
  note q = plug_lookup [OF this] and m = plug_node(2) [OF this]
  show ?thesis using q(1-3) m assms(2) Cons by (subst fixup_loop.simps) (simp add: Let_def)
qed

text \<open>The test which child the parent is, and the uncle, as the code reads them.\<close>

lemma round_reads:
  assumes "repr s (plug (Nd False l n r) (f # g # k))"
  shows "rb_parent (nd s n) = faddr f" "faddr f \<noteq> 0" "n \<noteq> 0" "rb_is_black (nd s (faddr f)) = fcolor f"
    "rb_parent (nd s (faddr f)) = faddr g" "faddr g \<noteq> 0"
    "faddr f = rb_left (nd s (faddr g)) \<longleftrightarrow> (case g of FL _ _ _ \<Rightarrow> True | FR _ _ _ \<Rightarrow> False)"
    "(if faddr f = rb_left (nd s (faddr g)) then rb_right (nd s (faddr g)) else rb_left (nd s (faddr g))) =
      (case fsib g of Lf \<Rightarrow> 0 | Nd _ _ u _ \<Rightarrow> u)"
proof -
  note q = plug_lookup [OF assms]
  obtain c l' r' where fl: "fill f (Nd False l n r) = Nd c l' (faddr f) r'" by (cases f) auto
  have up: "repr s (plug (Nd c l' (faddr f) r') (g # k))" using assms unfolding fl [symmetric] by (simp add: plug_Cons)
  note w = plug_lookup [OF up]
  show "rb_parent (nd s n) = faddr f" "faddr f \<noteq> 0" "n \<noteq> 0" "rb_is_black (nd s (faddr f)) = fcolor f"
    "rb_parent (nd s (faddr f)) = faddr g" "faddr g \<noteq> 0"
    using q(1-4) plug_node(2) [OF assms] w(1) by simp_all
  show lt: "faddr f = rb_left (nd s (faddr g)) \<longleftrightarrow> (case g of FL _ _ _ \<Rightarrow> True | FR _ _ _ \<Rightarrow> False)"
  proof (cases g)
    case (FR d a t)
    show ?thesis
    proof (cases t)
      case (Nd e tl u tr)
      then show ?thesis using w(5) FR sibling_differs [OF up, of e tl u tr] by simp
    qed (use w(5) FR q(1) in auto)
  qed (use w(5) in auto)
  show "(if faddr f = rb_left (nd s (faddr g)) then rb_right (nd s (faddr g)) else rb_left (nd s (faddr g))) =
      (case fsib g of Lf \<Rightarrow> 0 | Nd _ _ u _ \<Rightarrow> u)"
    using lt w(5,6) by (cases g) simp_all
qed

lemma uncle_color:
  assumes "repr s (plug T (g # k))" "u = (case fsib g of Lf \<Rightarrow> 0 | Nd _ _ u _ \<Rightarrow> u)"
  shows "u \<noteq> 0 \<and> rb_is_red (nd s u) \<longleftrightarrow> \<not> is_black (fsib g)"
proof (cases "fsib g")
  case (Nd c ul v ur)
  have "repr s (plug (Nd c ul v ur) ((case g of FL d a t \<Rightarrow> FR d a T | FR d a t \<Rightarrow> FL d a T) # k))"
    using assms(1) Nd by (cases g) simp_all
  note n = plug_node [OF this]
  show ?thesis using n(2,3) Nd assms(2) by (simp add: rb_red_not_black)
qed (use assms(2) in simp)

lemma recolor_round:
  assumes "repr s (plug (Nd False l n r) (f # g # k))" "\<not> fcolor f" "fcolor g" "fsib g = Nd False ul u ur"
  shows "repr (upd (faddr g) rb_set_red (upd u rb_set_black (upd (faddr f) rb_set_black s)))
    (plug (case g of
        FL _ a t \<Rightarrow> Nd False (fill (case f of FL _ b t' \<Rightarrow> FL True b t' | FR _ b t' \<Rightarrow> FR True b t') (Nd False l n r)) a (Nd True ul u ur)
      | FR _ a t \<Rightarrow> Nd False (Nd True ul u ur) a (fill (case f of FL _ b t' \<Rightarrow> FL True b t' | FR _ b t' \<Rightarrow> FR True b t') (Nd False l n r))) k)"
proof -
  let ?f = "case f of FL _ b t' \<Rightarrow> FL True b t' | FR _ b t' \<Rightarrow> FR True b t'"
  let ?X = "fill ?f (Nd False l n r)"
  have 1: "repr (upd (faddr f) rb_set_black s) (plug ?X (g # k))"
  proof (cases f)
    case (FL c b t)
    have "repr s (plug (Nd c (Nd False l n r) b t) (g # k))" using assms(1) FL by (simp add: plug_Cons)
    from set_black_plug [OF this] show ?thesis using FL by simp
  next
    case (FR c b t)
    have "repr s (plug (Nd c t b (Nd False l n r)) (g # k))" using assms(1) FR by (simp add: plug_Cons)
    from set_black_plug [OF this] show ?thesis using FR by simp
  qed
  show ?thesis
  proof (cases g)
    case (FL d a t)
    have "repr (upd (faddr f) rb_set_black s) (plug (Nd False ul u ur) (FR d a ?X # k))" using 1 FL assms(4) by simp
    from set_black_plug [OF this] have "repr (upd u rb_set_black (upd (faddr f) rb_set_black s)) (plug (Nd d ?X a (Nd True ul u ur)) k)" by simp
    from set_red_plug [OF this] show ?thesis using FL by simp
  next
    case (FR d a t)
    have "repr (upd (faddr f) rb_set_black s) (plug (Nd False ul u ur) (FL d a ?X # k))" using 1 FR assms(4) by simp
    from set_black_plug [OF this] have "repr (upd u rb_set_black (upd (faddr f) rb_set_black s)) (plug (Nd d (Nd True ul u ur) a ?X) k)" by simp
    from set_red_plug [OF this] show ?thesis using FR by simp
  qed
qed

text \<open>A round with rotations leaves a red node under a black one.\<close>

lemma rotate_round:
  assumes "repr s (plug (Nd False l n r) (f # g # k))" "\<not> fcolor f" "fcolor g" "is_black (fsib g)"
    and "invh (fsib f)" "invc (fsib f)" "bheight (fsib f) = h" "is_black (fsib f)" "invh (fsib g)" "invc (fsib g)" "bheight (fsib g) = h"
    and "invh (Nd False l n r)" "invc (Nd False l n r)" "bheight (Nd False l n r) = h" "is_black l" "is_black r"
  shows "\<exists>m s' l' r' D. fixup_rotate (faddr f = rb_left (nd s (faddr g))) n (faddr f) (faddr g) s = Some (m, s') \<and>
    repr s' (plug (Nd False l' m r') (D # k)) \<and> fcolor D \<and>
    invh (fill D (Nd False l' m r')) \<and> invc (fill D (Nd False l' m r')) \<and> bheight (fill D (Nd False l' m r')) = h + 1 \<and>
    addrs (plug (Nd False l' m r') (D # k)) = addrs (plug (Nd False l n r) (f # g # k))"
proof (cases f)
  case f: (FL c pa rf)
  show ?thesis
  proof (cases g)
    case g: (FL d ga U)
    have "repr s (plug (Nd False (Nd False l n r) pa rf) (FL True ga U # k))" using assms(1-3) f g by simp
    from straight_left [OF this] obtain s' where "fixup_rotate True n pa ga s = Some (n, s')"
      "repr s' (plug (Nd True (Nd False l n r) pa (Nd False rf ga U)) k)" by blast
    moreover have "pa = rb_left (nd s ga)" using round_reads(7) [OF assms(1)] f g by simp
    ultimately show ?thesis using assms f g
      by (intro exI [of _ n] exI [of _ s'] exI [of _ l] exI [of _ r] exI [of _ "FL True pa (Nd False rf ga U)"]) (auto simp: addrs_plug)
  next
    case g: (FR d ga U)
    have "repr s (plug (Nd False (Nd False l n r) pa rf) (FR True ga U # k))" using assms(1-3) f g by simp
    from zigzag_right [OF this] obtain s' where "fixup_rotate False n pa ga s = Some (pa, s')"
      "repr s' (plug (Nd True (Nd False U ga l) n (Nd False r pa rf)) k)" by blast
    moreover have "pa \<noteq> rb_left (nd s ga)" using round_reads(7) [OF assms(1)] f g by simp
    ultimately show ?thesis using assms f g
      by (intro exI [of _ pa] exI [of _ s'] exI [of _ r] exI [of _ rf] exI [of _ "FR True n (Nd False U ga l)"]) (auto simp: addrs_plug)
  qed
next
  case f: (FR c pa lf)
  show ?thesis
  proof (cases g)
    case g: (FL d ga U)
    have "repr s (plug (Nd False lf pa (Nd False l n r)) (FL True ga U # k))" using assms(1-3) f g by simp
    from zigzag_left [OF this] obtain s' where "fixup_rotate True n pa ga s = Some (pa, s')"
      "repr s' (plug (Nd True (Nd False lf pa l) n (Nd False r ga U)) k)" by blast
    moreover have "pa = rb_left (nd s ga)" using round_reads(7) [OF assms(1)] f g by simp
    ultimately show ?thesis using assms f g
      by (intro exI [of _ pa] exI [of _ s'] exI [of _ lf] exI [of _ l] exI [of _ "FL True n (Nd False r ga U)"]) (auto simp: addrs_plug)
  next
    case g: (FR d ga U)
    have "repr s (plug (Nd False lf pa (Nd False l n r)) (FR True ga U # k))" using assms(1-3) f g by simp
    from straight_right [OF this] obtain s' where "fixup_rotate False n pa ga s = Some (n, s')"
      "repr s' (plug (Nd True (Nd False U ga lf) pa (Nd False l n r)) k)" by blast
    moreover have "pa \<noteq> rb_left (nd s ga)" using round_reads(7) [OF assms(1)] f g by simp
    ultimately show ?thesis using assms f g
      by (intro exI [of _ n] exI [of _ s'] exI [of _ l] exI [of _ r] exI [of _ "FR True pa (Nd False U ga lf)"]) (auto simp: addrs_plug)
  qed
qed

lemma fixup_loop_correct:
  assumes "red_at s l n r k h"
  shows "\<exists>s' T. fixup_loop n s = Some s' \<and> repr s' T \<and> addrs T = addrs (plug (Nd False l n r) k) \<and> invh T \<and> invc T"
  using assms
proof (induction "length k" arbitrary: s l n r k h rule: less_induct)
  case less
  note i = red_atD [OF less.prems]
  show ?case
  proof (cases "k = [] \<or> fcolor (hd k)")
    case True
    then have "fixup_loop n s = Some s" by (rule loop_stops [OF i(1)])
    then show ?thesis using i(1) plug_inv [OF i(2-5)] True by blast
  next
    case False
    then obtain f k1 where k1: "k = f # k1" "\<not> fcolor f" by (cases k) auto
    then obtain g k2 where g: "k1 = g # k2" "fcolor g" using i(2) by (cases k1) auto
    have A: "repr s (plug (Nd False l n r) (f # g # k2))" using i(1) k1 g by simp
    note rd = round_reads [OF A]
    have h: "kinv k2 (h + 1)" "invh (fsib f)" "invc (fsib f)" "bheight (fsib f) = h" "is_black (fsib f)"
      "invh (fsib g)" "invc (fsib g)" "bheight (fsib g) = h" using i(2) k1 g by auto
    let ?left = "faddr f = rb_left (nd s (faddr g))"
    let ?uncle = "if ?left then rb_right (nd s (faddr g)) else rb_left (nd s (faddr g))"
    have unc: "?uncle \<noteq> 0 \<and> rb_is_red (nd s ?uncle) \<longleftrightarrow> \<not> is_black (fsib g)"
      by (rule uncle_color [OF _ rd(8)]) (use A in \<open>simp add: plug_Cons\<close>)
    have step: "fixup_loop n s = (if ?uncle \<noteq> 0 \<and> rb_is_red (nd s ?uncle)
      then fixup_loop (faddr g) (upd (faddr g) rb_set_red (upd ?uncle rb_set_black (upd (faddr f) rb_set_black s)))
      else Option.bind (fixup_rotate ?left n (faddr f) (faddr g) s) (\<lambda>r. fixup_loop (fst r) (snd r)))"
      using rd(1-6) k1(2) by (subst fixup_loop.simps) (simp only: Let_def if_False simp_thms)
    show ?thesis
    proof (cases "is_black (fsib g)")
      case False
      then obtain ul u ur where u: "fsib g = Nd False ul u ur" by (cases "fsib g") auto
      let ?f = "case f of FL _ b t' \<Rightarrow> FL True b t' | FR _ b t' \<Rightarrow> FR True b t'"
      let ?s = "upd (faddr g) rb_set_red (upd u rb_set_black (upd (faddr f) rb_set_black s))"
      let ?X = "fill ?f (Nd False l n r)"
      have X: "invh ?X" "invc ?X" "is_black ?X" "bheight ?X = h + 1" "addrs ?X = addrs (fill f (Nd False l n r))"
        using i(3-5) h(2-5) by (cases f; auto)+
      have U: "invh (Nd True ul u ur)" "invc (Nd True ul u ur)" "bheight (Nd True ul u ur) = h + 1" using h(6-8) u by auto
      have eq: "fixup_loop n s = fixup_loop (faddr g) ?s" using step unc False rd(8) u by simp
      note rr = recolor_round [OF A k1(2) g(2) u]
      obtain l' r' where lr: "red_at ?s l' (faddr g) r' k2 (h + 1)" "addrs (plug (Nd False l' (faddr g) r') k2) = addrs (plug (Nd False l n r) k)"
      proof (cases g)
        case (FL d a t)
        show thesis by (rule that [of ?X "Nd True ul u ur"]) (use rr X U h(1) FL u k1 g in \<open>auto simp: red_at_def plug_Cons addrs_plug\<close>)
      next
        case (FR d a t)
        show thesis by (rule that [of "Nd True ul u ur" ?X]) (use rr X U h(1) FR u k1 g in \<open>auto simp: red_at_def plug_Cons addrs_plug\<close>)
      qed
      have "length k2 < length k" using k1 g by simp
      from less.hyps [OF this lr(1)] show ?thesis unfolding eq lr(2) .
    next
      case True
      obtain m s' l' r' D where m: "fixup_rotate ?left n (faddr f) (faddr g) s = Some (m, s')"
        "repr s' (plug (Nd False l' m r') (D # k2))" "fcolor D"
        "invh (fill D (Nd False l' m r'))" "invc (fill D (Nd False l' m r'))" "bheight (fill D (Nd False l' m r')) = h + 1"
        "addrs (plug (Nd False l' m r') (D # k2)) = addrs (plug (Nd False l n r) k)"
        using rotate_round [OF A k1(2) g(2) True h(2-8) i(3-7)] k1(1) g(1) by metis
      have nu: "\<not> (?uncle \<noteq> 0 \<and> rb_is_red (nd s ?uncle))" using unc True by blast
      have eq: "fixup_loop n s = Some s'" unfolding step if_not_P [OF nu] using m(1) loop_stops [OF m(2)] m(3) by simp
      have "invh (plug (fill D (Nd False l' m r')) k2) \<and> invc (plug (fill D (Nd False l' m r')) k2)"
        using plug_inv [OF h(1) m(4-6)] m(3) by (cases D) auto
      then show ?thesis using eq m(2,7) by (auto simp: plug_Cons)
    qed
  qed
qed

section \<open>Insertion\<close>

text \<open>The descent: the path to the empty place behind all nodes whose key is not greater.\<close>

fun descend :: "('k::linorder) \<Rightarrow> (addr \<Rightarrow> 'k) \<Rightarrow> rbt \<Rightarrow> frame list \<Rightarrow> frame list" where
  "descend x key Lf k = k"
| "descend x key (Nd c l a r) k = (if x < key a then descend x key l (FL c a r # k) else descend x key r (FR c a l # k))"

lemma plug_descend: "plug Lf (descend x key t k) = plug t k"
  by (induction t arbitrary: k) auto

lemma sorted_descend:
  assumes "sorted (map key (addrs t))" "\<forall>a\<in>set (before k). key a \<le> x" "\<forall>a\<in>set (after k). x < key a"
  shows "(\<forall>a\<in>set (before (descend x key t k)). key a \<le> x) \<and> (\<forall>a\<in>set (after (descend x key t k)). x < key a)"
  using assms
proof (induction t arbitrary: k)
  case (Nd c l a r)
  have s: "sorted (map key (addrs l))" "sorted (map key (addrs r))" "\<forall>b\<in>set (addrs l). key b \<le> key a" "\<forall>b\<in>set (addrs r). key a \<le> key b"
    using Nd.prems(1) by (auto simp: sorted_append)
  show ?case
  proof (cases "x < key a")
    case True
    have "\<forall>b\<in>set (after (FL c a r # k)). x < key b" using True s(4) Nd.prems(3) by (auto intro: less_le_trans)
    from Nd.IH(1) [OF s(1) _ this] show ?thesis using Nd.prems(2) True by simp
  next
    case False
    have "\<forall>b\<in>set (before (FR c a l # k)). key b \<le> x" using False s(3) Nd.prems(2) by (auto intro: order_trans)
    from Nd.IH(2) [OF s(2) this] show ?thesis using Nd.prems(3) False by simp
  qed
qed simp

lemma kinv_descend:
  assumes "kinv k h" "invh t" "invc t" "bheight t = h" "k = [] \<longrightarrow> is_black t" "k \<noteq> [] \<longrightarrow> \<not> fcolor (hd k) \<longrightarrow> is_black t"
  shows "kinv (descend x key t k) 0"
  using assms
proof (induction t arbitrary: k h)
  case (Nd c l a r)
  have lr: "invh l" "invh r" "invc l" "invc r" "bheight l = h - (if c then 1 else 0)" "bheight r = h - (if c then 1 else 0)"
    "\<not> c \<Longrightarrow> is_black l \<and> is_black r" "c \<Longrightarrow> 0 < h" using Nd.prems(2-4) by auto
  have kf: "\<not> c \<Longrightarrow> k \<noteq> [] \<and> fcolor (hd k)" using Nd.prems(5,6) by auto
  have "kinv (FL c a r # k) (h - (if c then 1 else 0))" "kinv (FR c a l # k) (h - (if c then 1 else 0))"
    using lr kf Nd.prems(1) by (cases c; simp)+
  then show ?case
    using Nd.IH(1) [of "FL c a r # k" "h - (if c then 1 else 0)"] Nd.IH(2) [of "FR c a l # k" "h - (if c then 1 else 0)"] lr by auto
qed simp

text \<open>The pointer that the code follows to the hole of a path.\<close>

definition hole :: "frame list \<Rightarrow> link" where
  "hole k = (case k of [] \<Rightarrow> LRoot | FL c a r # _ \<Rightarrow> LLeft a | FR c a l # _ \<Rightarrow> LRight a)"

definition hole_parent :: "frame list \<Rightarrow> addr" where
  "hole_parent k = (case k of [] \<Rightarrow> 0 | f # _ \<Rightarrow> faddr f)"

lemma deref_hole:
  assumes "repr s (plug t k)"
  shows "deref (hole k) s = (case t of Lf \<Rightarrow> 0 | Nd c l a r \<Rightarrow> a)"
proof -
  obtain p q where z: "tree_at s q p t" "ctx_at s p q k" using plug_parts [OF assms] by metis
  have "deref (hole k) s = p" using z(2) by (cases "(s, p, q, k)" rule: ctx_at.cases) (auto simp: hole_def)
  then show ?thesis using tree_at_root [OF z(1)] by simp
qed

lemma insert_find_descend:
  assumes "repr s (plug t k)" "\<And>a. a \<in> set (addrs t) \<Longrightarrow> cmp n a < 0 \<longleftrightarrow> x < key a"
  shows "rb_insert_find cmp n (hole k) (hole_parent k) s = Some (hole (descend x key t k), hole_parent (descend x key t k))"
  using assms
proof (induction t arbitrary: k)
  case Lf
  then show ?case using deref_hole [OF Lf(1)] by (subst rb_insert_find.simps) simp
next
  case (Nd c l a r)
  have d: "deref (hole k) s = a" "a \<noteq> 0" using deref_hole [OF Nd.prems(1)] plug_node(2) [OF Nd.prems(1)] by simp_all
  have l: "repr s (plug l (FL c a r # k))" "repr s (plug r (FR c a l # k))" using Nd.prems(1) by simp_all
  have h: "hole (FL c a r # k) = LLeft a" "hole (FR c a l # k) = LRight a" "hole_parent (FL c a r # k) = a" "hole_parent (FR c a l # k) = a"
    by (simp_all add: hole_def hole_parent_def)
  have c: "cmp n a < 0 \<longleftrightarrow> x < key a" using Nd.prems(2) [of a] by simp
  show ?case
    using Nd.IH(1) [OF l(1)] Nd.IH(2) [OF l(2)] Nd.prems(2) d c h by (subst rb_insert_find.simps) (simp add: Let_def)
qed

text \<open>Storing the new node.\<close>

lemma attach_leaf:
  assumes "repr s (plug Lf k)" "node_addr n" "n \<notin> set (kaddrs k)"
  shows "repr (store (hole k) n (upd n rb_set_red (upd n (\<lambda>x. x\<lparr>rb_left := 0, rb_right := 0\<rparr>) (upd n (rb_set_parent (hole_parent k)) s))))
    (plug (Nd False Lf n Lf) k)"
proof -
  define S where "S = upd n rb_set_red (upd n (\<lambda>x. x\<lparr>rb_left := 0, rb_right := 0\<rparr>) (upd n (rb_set_parent (hole_parent k)) s))"
  define t where "t = store (hole k) n S"
  obtain p q where z: "ctx_at s 0 q k" "distinct (kaddrs k)" using assms(1) unfolding repr_plug by auto
  have qe: "q = hole_parent k" using ctx_at_parent [OF z(1)] by (auto simp: hole_parent_def split: list.splits frame.splits)
  have qa: "4 dvd q" "q < 2 ^ 64" "q \<noteq> n" using ctx_parent_in [OF z(1)] assms(2,3) by (auto simp: node_addr_def)
  have n1: "nd S u = (if u = n then rb_set_red ((rb_set_parent q (nd s n))\<lparr>rb_left := 0, rb_right := 0\<rparr>) else nd s u)" for u
    by (simp add: S_def nd_upd qe)
  have n2: "nd t u = nd S u" if "u \<noteq> q" for u
    using that qe by (cases k) (auto simp: t_def hole_def hole_parent_def nd_upd split: frame.splits)
  have root: "rb_root t = (if k = [] then n else rb_root s)"
    by (cases k) (auto simp: t_def S_def hole_def nd_upd split: frame.splits)
  have tn: "tree_at t q n (Nd False Lf n Lf)"
    using n2 [of n] n1 [of n] qa assms(2) by (simp add: rb_parent_recolor rb_parent_set)
  have ctx: "ctx_at t n q k"
  proof (cases k)
    case Nil
    then show ?thesis using root z(1) by simp
  next
    case (Cons f k')
    have fr: "nd t b = nd s b" if "b \<in> set (addrs (fsib f)) \<or> b \<in> set (kaddrs k')" for b
    proof -
      have "b \<noteq> n" "b \<noteq> q" using that assms(3) z(1,2) Cons by (cases f; auto simp: kaddrs_def)+
      then show ?thesis using n2 n1 by simp
    qed
    have rt: "rb_root t = rb_root s" using root Cons by simp
    show ?thesis
    proof (cases f)
      case (FL c a r)
      have "tree_at s a (rb_right (nd s a)) r" "ctx_at s a (rb_parent (nd s a)) k'" "a = q" using z(1) Cons FL by simp_all
      moreover have "nd t a = (nd s a)\<lparr>rb_left := n\<rparr>" using Cons FL qa(3) n1 [of a] \<open>a = q\<close> by (simp add: t_def hole_def nd_upd)
      ultimately show ?thesis using z(1) Cons FL tree_at_frame [of s a "rb_right (nd s a)" r t] ctx_at_frame [of s a "rb_parent (nd s a)" k' t] fr rt
        by simp
    next
      case (FR c a r)
      have "tree_at s a (rb_left (nd s a)) r" "ctx_at s a (rb_parent (nd s a)) k'" "a = q" using z(1) Cons FR by simp_all
      moreover have "nd t a = (nd s a)\<lparr>rb_right := n\<rparr>" using Cons FR qa(3) n1 [of a] \<open>a = q\<close> by (simp add: t_def hole_def nd_upd)
      ultimately show ?thesis using z(1) Cons FR tree_at_frame [of s a "rb_left (nd s a)" r t] ctx_at_frame [of s a "rb_parent (nd s a)" k' t] fr rt
        by simp
    qed
  qed
  have "repr t (plug (Nd False Lf n Lf) k)" using tn ctx z(2) assms(3) unfolding repr_plug by auto
  then show ?thesis by (simp add: t_def S_def)
qed

lemma insert_correct:
  assumes "repr s t" "red_black t" "sorted (map key (addrs t))" "node_addr n" "n \<notin> set (addrs t)"
    and "\<And>a. a \<in> set (addrs t) \<Longrightarrow> cmp n a < 0 \<longleftrightarrow> key n < key a"
  shows "\<exists>s' T xs ys. rb_insert cmp n s = Some s' \<and> repr s' T \<and> red_black T \<and> addrs t = xs @ ys \<and> addrs T = xs @ n # ys \<and>
    (\<forall>x\<in>set xs. key x \<le> key n) \<and> (\<forall>y\<in>set ys. key n < key y)"
proof -
  define k where "k = descend (key n) key t []"
  have t: "plug Lf k = t" by (simp add: k_def plug_descend)
  then have ad: "addrs t = before k @ after k" using addrs_plug [of Lf k] by simp
  have nk: "n \<notin> set (kaddrs k)" using assms(5) ad by (simp add: kaddrs_def)
  have find: "rb_insert_find cmp n LRoot 0 s = Some (hole k, hole_parent k)"
    using insert_find_descend [of s t "[]" cmp n "key n" key] assms(1,6) by (simp add: hole_def hole_parent_def k_def)
  let ?s = "store (hole k) n (upd n rb_set_red (upd n (\<lambda>x. x\<lparr>rb_left := 0, rb_right := 0\<rparr>) (upd n (rb_set_parent (hole_parent k)) s)))"
  have "repr ?s (plug (Nd False Lf n Lf) k)" by (rule attach_leaf [OF _ assms(4) nk]) (simp add: t assms(1))
  moreover have "kinv k 0" unfolding k_def by (rule kinv_descend [of "[]" "bheight t"]) (use assms(2) in \<open>simp_all add: red_black_def\<close>)
  ultimately have "red_at ?s Lf n Lf k 0" by (simp add: red_at_def)
  then obtain s1 T where s1: "fixup_loop n ?s = Some s1" "repr s1 T" "addrs T = addrs (plug (Nd False Lf n Lf) k)" "invh T" "invc T"
    using fixup_loop_correct by blast
  then obtain c l a r where T: "T = Nd c l a r" by (cases T) (simp_all add: addrs_plug)
  have rt: "rb_root s1 = a" "a \<noteq> 0" using s1(2) T by (auto simp: repr_def node_addr_def)
  have "repr (upd a rb_set_black s1) (Nd True l a r)" using set_black_plug [of s1 c l a r "[]"] s1(2) T by simp
  moreover have "red_black (Nd True l a r)" using s1(4,5) T by (simp add: red_black_def)
  moreover have "rb_insert cmp n s = Some (upd a rb_set_black s1)"
    using find s1(1) rt assms(4) by (simp add: rb_insert_def rb_insert_fixup_def node_addr_def)
  moreover have "addrs (Nd True l a r) = before k @ n # after k" using s1(3) T by (simp add: addrs_plug)
  moreover have "(\<forall>x\<in>set (before k). key x \<le> key n) \<and> (\<forall>y\<in>set (after k). key n < key y)"
    unfolding k_def by (rule sorted_descend [OF assms(3)]) simp_all
  ultimately show ?thesis using ad by blast
qed

section \<open>Validation\<close>

lemma plug_root_color:
  assumes "repr s (plug t k)" "p = (case t of Lf \<Rightarrow> 0 | Nd _ _ a _ \<Rightarrow> a)"
  shows "p \<noteq> 0 \<and> \<not> rb_is_black (nd s p) \<longleftrightarrow> \<not> is_black t"
proof (cases t)
  case (Nd c l a r)
  note n = plug_node [OF assms(1) [unfolded Nd]]
  show ?thesis using n(2,3) assms(2) Nd by simp
qed (use assms(2) in simp)

lemma validate_subtree_correct:
  assumes "repr s (plug t k)"
  shows "\<exists>e. validate_subtree (case t of Lf \<Rightarrow> 0 | Nd _ _ a _ \<Rightarrow> a) s = Some (if invh t \<and> invc t then Inr (int (bheight t) + 1) else Inl e)"
  using assms
proof (induction t arbitrary: k)
  case Lf
  then show ?case by (subst validate_subtree.simps) simp
next
  case (Nd c l a r)
  have lr: "repr s (plug l (FL c a r # k))" "repr s (plug r (FR c a l # k))" using Nd.prems by simp_all
  obtain e where e: "validate_subtree (case l of Lf \<Rightarrow> 0 | Nd _ _ a _ \<Rightarrow> a) s = Some (if invh l \<and> invc l then Inr (int (bheight l) + 1) else Inl e)"
    using Nd.IH(1) [OF lr(1)] by blast
  obtain e' where e': "validate_subtree (case r of Lf \<Rightarrow> 0 | Nd _ _ a _ \<Rightarrow> a) s = Some (if invh r \<and> invc r then Inr (int (bheight r) + 1) else Inl e')"
    using Nd.IH(2) [OF lr(2)] by blast
  note n = plug_node [OF Nd.prems]
  have bl: "rb_left (nd s a) \<noteq> 0 \<and> \<not> rb_is_black (nd s (rb_left (nd s a))) \<longleftrightarrow> \<not> is_black l" by (rule plug_root_color [OF lr(1) n(4)])
  have br: "rb_right (nd s a) \<noteq> 0 \<and> \<not> rb_is_black (nd s (rb_right (nd s a))) \<longleftrightarrow> \<not> is_black r" by (rule plug_root_color [OF lr(2) n(5)])
  have step: "validate_subtree a s = (if \<not> rb_is_black (nd s a) \<and> (\<not> is_black l \<or> \<not> is_black r) then Some (Inl (Panic ''red child''))
     else Option.bind (validate_subtree (rb_left (nd s a)) s) (\<lambda>l. case l of Inl e \<Rightarrow> Some (Inl e) | Inr hl \<Rightarrow>
          Option.bind (validate_subtree (rb_right (nd s a)) s) (\<lambda>r. case r of Inl e \<Rightarrow> Some (Inl e) | Inr hr \<Rightarrow>
            Some (if hl \<noteq> hr then Inl (Panic ''black height'') else Inr (if rb_is_black (nd s a) then hl + 1 else hl)))))"
    using n(2) unfolding bl [symmetric] br [symmetric] by (subst validate_subtree.simps) (simp add: rb_red_not_black)
  show ?case using step e e' unfolding n(4,5) [symmetric] n(3) by (auto split: if_splits)
qed

text \<open>
  C32: \<open>validate_rbtree\<close> always returns on a tree, and passes all its assertions exactly when the tree is red-black: black root, no red
  node with a red child, and equal numbers of black nodes on all paths.
\<close>

theorem validate_rbtree_iff:
  assumes "repr s t"
  shows "\<exists>r. validate_rbtree s = Some r \<and> (r = Inr () \<longleftrightarrow> red_black t)"
proof (cases t)
  case Lf
  then show ?thesis using assms by (simp add: validate_rbtree_def repr_def red_black_def)
next
  case (Nd c l a r)
  have p: "repr s (plug t [])" using assms by simp
  have rt: "rb_root s = a" "a \<noteq> 0" "rb_is_black (nd s a) = c" using assms Nd by (auto simp: repr_def node_addr_def)
  obtain e where "validate_subtree a s = Some (if invh t \<and> invc t then Inr (int (bheight t) + 1) else Inl e)"
    using validate_subtree_correct [OF p] Nd by auto
  then show ?thesis using rt Nd by (auto simp: validate_rbtree_def red_black_def)
qed

section \<open>Traversal and search\<close>

lemma leftmost_correct:
  assumes "repr s (plug (Nd c l a r) k)"
  shows "leftmost a s = Some (hd (addrs (Nd c l a r)))"
  using assms
proof (induction l arbitrary: c a r k)
  case Lf
  then show ?case using plug_node [OF Lf] by (subst leftmost.simps) simp
next
  case (Nd c' l' a' r')
  have "repr s (plug (Nd c' l' a' r') (FL c a r # k))" using Nd.prems by simp
  from Nd.IH(1) [OF this] show ?case using plug_node [OF Nd.prems] plug_node(2) [OF \<open>repr s (plug (Nd c' l' a' r') (FL c a r # k))\<close>]
    by (subst leftmost.simps) (cases "addrs l'"; simp)
qed

lemma next_up_correct:
  assumes "repr s (plug (Nd c l a r) k)"
  shows "rb_next_up a s = Some (case after k of [] \<Rightarrow> 0 | b # _ \<Rightarrow> b)"
  using assms
proof (induction k arbitrary: c l a r)
  case Nil
  then show ?case using plug_node(6) [OF Nil] by (subst rb_next_up.simps) simp
next
  case (Cons f k)
  note q = plug_lookup [OF Cons.prems]
  show ?case
  proof (cases f)
    case (FL d b t)
    then show ?thesis using q by (subst rb_next_up.simps) simp
  next
    case (FR d b t)
    have up: "repr s (plug (Nd d t b (Nd c l a r)) k)" using Cons.prems FR by simp
    have "a \<noteq> rb_left (nd s b)" using q(5) FR plug_node(2) [OF Cons.prems] sibling_differs [OF Cons.prems] by (cases t) auto
    then show ?thesis using Cons.IH [OF up] q(1,2) FR by (subst rb_next_up.simps) simp
  qed
qed

lemma plug_at_addr: "a \<in> set (addrs t) \<Longrightarrow> \<exists>c l r k'. plug t k = plug (Nd c l a r) k'"
proof (induction t arbitrary: k)
  case (Nd c l b r)
  consider "a = b" | "a \<in> set (addrs l)" | "a \<in> set (addrs r)" using Nd.prems by auto
  then show ?case
  proof cases
    case 2
    then show ?thesis using Nd.IH(1) [of "FL c b r # k"] by simp
  next
    case 3
    then show ?thesis using Nd.IH(2) [of "FR c b l # k"] by simp
  qed auto
qed simp

lemma next_correct:
  assumes "repr s t" "addrs t = xs @ a # ys"
  shows "rb_next a s = Some (case ys of [] \<Rightarrow> 0 | b # _ \<Rightarrow> b)"
proof -
  obtain c l r k where t: "t = plug (Nd c l a r) k" using plug_at_addr [of a t "[]"] assms(2) by auto
  have p: "repr s (plug (Nd c l a r) k)" using assms(1) t by simp
  have "xs @ a # ys = (before k @ addrs l) @ a # (addrs r @ after k)" using assms(2) t by (simp add: addrs_plug)
  moreover have "distinct (xs @ a # ys)" using assms by (simp add: repr_def)
  ultimately have ys: "ys = addrs r @ after k" by (metis append_Cons_eq_iff distinct_append distinct.simps(2) not_distinct_conv_prefix append.assoc)
  note n = plug_node [OF p]
  show ?thesis
  proof (cases r)
    case Lf
    then show ?thesis using next_up_correct [OF p] n ys by (simp add: rb_next_def)
  next
    case (Nd d rl b rr)
    have q: "repr s (plug (Nd d rl b rr) (FR c a l # k))" using p Nd by simp
    then show ?thesis using leftmost_correct [OF q] plug_node(2) [OF q] n ys Nd by (cases "addrs rl") (simp_all add: rb_next_def)
  qed
qed

text \<open>
  traversal.  \<open>rb_first\<close> returns the first node in key order, and \<open>rb_next\<close> of any node of the tree returns the node behind it, null
  at the end; both return on every tree.
\<close>

theorem rb_traversal:
  assumes "repr s t"
  shows "rb_first s = Some (case addrs t of [] \<Rightarrow> 0 | a # _ \<Rightarrow> a) \<and>
    (\<forall>xs a ys. addrs t = xs @ a # ys \<longrightarrow> rb_next a s = Some (case ys of [] \<Rightarrow> 0 | b # _ \<Rightarrow> b))"
proof -
  have "rb_first s = Some (case addrs t of [] \<Rightarrow> 0 | a # _ \<Rightarrow> a)"
  proof (cases t)
    case (Nd c l a r)
    have "repr s (plug (Nd c l a r) [])" using assms Nd by simp
    then show ?thesis using leftmost_correct [of s c l a r "[]"] assms Nd
      by (cases "addrs l") (auto simp: rb_first_def repr_def node_addr_def)
  qed (use assms in \<open>simp add: rb_first_def repr_def\<close>)
  then show ?thesis using next_correct [OF assms] by blast
qed

lemma search_from:
  assumes "repr s (plug t k)" "sorted (map key (addrs t))" "\<And>a. a \<in> set (addrs t) \<Longrightarrow> (cmp a > 0 \<longleftrightarrow> key a < x) \<and> (cmp a < 0 \<longleftrightarrow> x < key a)"
  shows "\<exists>a. rb_search_from cmp (case t of Lf \<Rightarrow> 0 | Nd _ _ a _ \<Rightarrow> a) s = Some a \<and>
    (if \<exists>b\<in>set (addrs t). key b = x then a \<in> set (addrs t) \<and> key a = x else a = 0)"
  using assms
proof (induction t arbitrary: k)
  case Lf
  then show ?case by (subst rb_search_from.simps) simp
next
  case (Nd c l a r)
  have lr: "repr s (plug l (FL c a r # k))" "repr s (plug r (FR c a l # k))" using Nd.prems(1) by simp_all
  have so: "sorted (map key (addrs l))" "sorted (map key (addrs r))" "\<And>b. b \<in> set (addrs l) \<Longrightarrow> key b \<le> key a"
    "\<And>b. b \<in> set (addrs r) \<Longrightarrow> key a \<le> key b"
    using Nd.prems(2) by (auto simp: sorted_append)
  note n = plug_node [OF Nd.prems(1)] and ca = Nd.prems(3) [of a]
  consider "key a < x" | "x < key a" | "key a = x" by (rule linorder_cases)
  then show ?case
  proof cases
    case 1
    then obtain b where b: "rb_search_from cmp (rb_right (nd s a)) s = Some b"
      "if \<exists>b\<in>set (addrs r). key b = x then b \<in> set (addrs r) \<and> key b = x else b = 0"
      using Nd.IH(2) [OF lr(2) so(2)] Nd.prems(3) n(5) by auto
    have "\<not> (\<exists>b\<in>set (addrs l). key b = x)" using so(3) 1 by fastforce
    then show ?thesis using b n(2) ca 1 by (subst rb_search_from.simps) (auto split: if_splits)
  next
    case 2
    then obtain b where b: "rb_search_from cmp (rb_left (nd s a)) s = Some b"
      "if \<exists>b\<in>set (addrs l). key b = x then b \<in> set (addrs l) \<and> key b = x else b = 0"
      using Nd.IH(1) [OF lr(1) so(1)] Nd.prems(3) n(4) by auto
    have "\<not> (\<exists>b\<in>set (addrs r). key b = x)" using so(4) 2 by fastforce
    then show ?thesis using b n(2) ca 2 by (subst rb_search_from.simps) (auto split: if_splits)
  next
    case 3
    then show ?thesis using n(2) ca by (subst rb_search_from.simps) auto
  qed
qed

text \<open>
  C33: search.  On a tree in key order \<open>rb_search\<close> returns a node with the key that is searched when there is one, and null otherwise.
\<close>

theorem rb_search_correct:
  assumes "repr s t" "sorted (map key (addrs t))" "\<forall>a\<in>set (addrs t). (cmp a > 0 \<longleftrightarrow> key a < x) \<and> (cmp a < 0 \<longleftrightarrow> x < key a)"
  shows "\<exists>a. rb_search cmp s = Some a \<and> (if \<exists>b\<in>set (addrs t). key b = x then a \<in> set (addrs t) \<and> key a = x else a = 0)"
proof -
  have p: "repr s (plug t [])" using assms(1) by simp
  have "rb_root s = (case t of Lf \<Rightarrow> 0 | Nd _ _ a _ \<Rightarrow> a)" using assms(1) by (auto simp: repr_def dest: tree_at_root)
  then show ?thesis using search_from [OF p assms(2), of cmp x] assms(3) by (simp add: rb_search_def)
qed

section \<open>Sequences of insertions\<close>

fun rb_insert_all :: "(addr \<Rightarrow> addr \<Rightarrow> int) \<Rightarrow> addr list \<Rightarrow> rbs \<Rightarrow> rbs option" where
  "rb_insert_all cmp [] s = Some s"
| "rb_insert_all cmp (n # ns) s = Option.bind (rb_insert cmp n s) (rb_insert_all cmp ns)"

lemma sorted_insert_between:
  "sorted (map key (xs @ ys)) \<Longrightarrow> \<forall>x\<in>set xs. key x \<le> key n \<Longrightarrow> \<forall>y\<in>set ys. key n < key y \<Longrightarrow> sorted (map key (xs @ n # ys))"
  by (auto simp: sorted_append less_imp_le)

lemma insert_all_correct:
  assumes "repr s t" "red_black t" "sorted (map key (addrs t))" "\<forall>n\<in>set ns. node_addr n" "distinct (addrs t @ ns)"
    and "\<And>n a. cmp n a < 0 \<longleftrightarrow> key n < key a"
  shows "\<exists>s' T. rb_insert_all cmp ns s = Some s' \<and> repr s' T \<and> red_black T \<and> sorted (map key (addrs T)) \<and>
    set (addrs T) = set (addrs t) \<union> set ns"
  using assms(1-5)
proof (induction ns arbitrary: s t)
  case (Cons n ns)
  obtain s1 T xs ys where s1: "rb_insert cmp n s = Some s1" "repr s1 T" "red_black T" "addrs t = xs @ ys" "addrs T = xs @ n # ys"
    "\<forall>x\<in>set xs. key x \<le> key n" "\<forall>y\<in>set ys. key n < key y"
    using insert_correct [OF Cons.prems(1-3), of n cmp] Cons.prems(4,5) assms(6) by auto
  have so: "sorted (map key (addrs T))" using sorted_insert_between [of key xs ys n] Cons.prems(3) s1(4-7) by simp
  have di: "distinct (addrs T @ ns)" using Cons.prems(5) s1(4,5) by auto
  obtain s' T' where "rb_insert_all cmp ns s1 = Some s'" "repr s' T'" "red_black T'" "sorted (map key (addrs T'))"
    "set (addrs T') = set (addrs T) \<union> set ns"
    using Cons.IH [OF s1(2,3) so _ di] Cons.prems(4) by auto
  then show ?case using s1(1,4,5) by auto
qed auto

text \<open>
  C12: insertion is totally correct.  Inserting any sequence of distinct aligned nodes into the empty tree, with a comparison that orders
  them by a key, returns without a bad access; the result is a well linked red-black tree that holds exactly these nodes in key order,
  and \<open>validate_rbtree\<close> passes.
\<close>

theorem rb_insert_sequence:
  assumes "rb_root s = 0" "\<forall>n\<in>set ns. node_addr n" "distinct ns" "\<forall>n a. cmp n a < 0 \<longleftrightarrow> key n < key a"
  shows "\<exists>s' T. rb_insert_all cmp ns s = Some s' \<and> repr s' T \<and> red_black T \<and> sorted (map key (addrs T)) \<and> set (addrs T) = set ns \<and>
    validate_rbtree s' = Some (Inr ())"
proof -
  have "repr s Lf" "red_black Lf" using assms(1) by (simp_all add: repr_def red_black_def)
  then obtain s' T where T: "rb_insert_all cmp ns s = Some s'" "repr s' T" "red_black T" "sorted (map key (addrs T))" "set (addrs T) = set ns"
    using insert_all_correct [of s Lf key ns cmp] assms(2-4) by auto
  have "validate_rbtree s' = Some (Inr ())"
    using validate_subtree_correct [of s' T "[]"] T(2,3) by (cases T) (auto simp: validate_rbtree_def repr_def red_black_def node_addr_def)
  then show ?thesis using T by blast
qed

definition rb_empty :: rbs where
  "rb_empty = \<lparr>rb_heap = (\<lambda>_. \<lparr>rb_parent_color = 0, rb_right = 0, rb_left = 0\<rparr>), rb_root = 0\<rparr>"

definition addr_cmp :: "addr \<Rightarrow> addr \<Rightarrow> int" where
  "addr_cmp n a = (if n < a then -1 else if a < n then 1 else 0)"

theorem rb_insert_sequence_witness:
  "\<exists>s' T. rb_insert_all addr_cmp [8, 4, 16, 12] rb_empty = Some s' \<and> repr s' T \<and> red_black T \<and> set (addrs T) = {4, 8, 12, 16}"
proof -
  have c: "\<forall>n a. addr_cmp n a < 0 \<longleftrightarrow> id n < id a" by (simp add: addr_cmp_def)
  have "\<forall>n\<in>set [8, 4, 16, 12 :: nat]. node_addr n" by (simp add: node_addr_def)
  with rb_insert_sequence [of rb_empty "[8, 4, 16, 12]", OF _ _ _ c]
  show ?thesis by (auto simp: rb_empty_def insert_commute)
qed

text \<open>A small tree for the other witnesses: node 8 over 4 and 12.\<close>

definition rb_example :: rbs where
  "rb_example = \<lparr>rb_heap = (\<lambda>_. \<lparr>rb_parent_color = 0, rb_right = 0, rb_left = 0\<rparr>)
    (8 := \<lparr>rb_parent_color = 1, rb_right = 12, rb_left = 4\<rparr>, 4 := \<lparr>rb_parent_color = 8, rb_right = 0, rb_left = 0\<rparr>,
     12 := \<lparr>rb_parent_color = 8, rb_right = 0, rb_left = 0\<rparr>), rb_root = 8\<rparr>"

lemma rb_example_repr: "repr rb_example (Nd True (Nd False Lf 4 Lf) 8 (Nd False Lf 12 Lf))"
  by (simp add: repr_def rb_example_def node_addr_def rb_parent_def rb_is_black_def rb_color_def)

theorem validate_rbtree_iff_witness: "\<exists>r. validate_rbtree rb_example = Some r \<and> r = Inr ()"
  using validate_rbtree_iff [OF rb_example_repr] by (auto simp: red_black_def)

theorem rb_traversal_witness: "rb_first rb_example = Some 4 \<and> rb_next 4 rb_example = Some 8 \<and> rb_next 12 rb_example = Some 0"
proof -
  note t = rb_traversal [OF rb_example_repr]
  have "rb_next 4 rb_example = Some 8" using t by (auto dest!: spec [of _ "[]"])
  moreover have "rb_next 12 rb_example = Some 0" using t by (auto dest!: spec [of _ "[4, 8]"])
  ultimately show ?thesis using t by simp
qed

theorem rb_search_correct_witness: "\<exists>a. rb_search (\<lambda>a. - addr_cmp a 12) rb_example = Some a \<and> a = 12"
  using rb_search_correct [OF rb_example_repr, of id "\<lambda>a. - addr_cmp a 12" 12] by (auto simp: addr_cmp_def)

end
