(* ===== verification/RBErase.thy ===== *)
theory RBErase
  imports RBInsert
begin

text \<open>
  Deletion in lib/rbtree.c.  The two mirror images of the loop of \<open>rb_erase_fixup\<close> are one definition with the side as argument.
  The theorem describes deletion exactly: it always returns and removes the node from the order, and the result is a red-black tree
  unless the node has two children and its right child is a black leaf.  In that case the fix-up runs on the
  removed node, because \<open>parent\<close> is read from the successor before it is relinked, and the balance is lost.
\<close>

section \<open>Operations\<close>

definition far :: "bool \<Rightarrow> rb_node \<Rightarrow> addr" where
  "far is_left n = (if is_left then rb_right n else rb_left n)"

definition near :: "bool \<Rightarrow> rb_node \<Rightarrow> addr" where
  "near is_left n = (if is_left then rb_left n else rb_right n)"

definition rot_to :: "bool \<Rightarrow> addr \<Rightarrow> rbs \<Rightarrow> rbs option" where
  "rot_to is_left = (if is_left then rb_rotate_left else rb_rotate_right)"

definition rot_away :: "bool \<Rightarrow> addr \<Rightarrow> rbs \<Rightarrow> rbs option" where
  "rot_away is_left = (if is_left then rb_rotate_right else rb_rotate_left)"

definition black_or_null :: "rbs \<Rightarrow> addr \<Rightarrow> bool" where
  "black_or_null s a = (a = 0 \<or> rb_is_black (nd s a))"

text \<open>The first part of a round makes the sibling black.\<close>

definition erase_red_sibling :: "bool \<Rightarrow> addr \<Rightarrow> addr \<Rightarrow> rbs \<Rightarrow> (addr \<times> rbs) option" where
  "erase_red_sibling is_left parent other s =
    (if rb_is_red (nd s other)
     then Option.bind (rot_to is_left parent (upd parent rb_set_red (upd other rb_set_black s))) (\<lambda>s1. Some (far is_left (nd s1 parent), s1))
     else Some (other, s))"

text \<open>The last part, when the sibling has a red child; the loop ends with the node at the root.\<close>

definition erase_finish :: "bool \<Rightarrow> addr \<Rightarrow> addr \<Rightarrow> rbs \<Rightarrow> rbs option" where
  "erase_finish is_left parent other s =
    Option.bind
     (if black_or_null s (far is_left (nd s other))
      then let s1 = (if near is_left (nd s other) \<noteq> 0 then upd (near is_left (nd s other)) rb_set_black s else s) in
        Option.bind (rot_away is_left other (upd other rb_set_red s1)) (\<lambda>s3. Some (far is_left (nd s3 parent), s3))
      else Some (other, s))
     (\<lambda>(other, s).
        if other = 0 then None
        else let s1 = upd other (rb_set_color (rb_color (nd s parent))) s;
                 s2 = upd parent rb_set_black s1;
                 s3 = (if far is_left (nd s2 other) \<noteq> 0 then upd (far is_left (nd s2 other)) rb_set_black s2 else s2)
             in rot_to is_left parent s3)"

text \<open>The rest of a round, with a black sibling: \<open>Inl\<close> leaves the loop, \<open>Inr\<close> goes on with another node and parent.\<close>

definition erase_black_sibling :: "bool \<Rightarrow> addr \<Rightarrow> addr \<Rightarrow> addr \<Rightarrow> rbs \<Rightarrow> ((addr \<times> rbs) + (addr \<times> addr \<times> rbs)) option" where
  "erase_black_sibling is_left node parent other s =
    (if other = 0 then Some (Inl (node, s))
     else if black_or_null s (rb_left (nd s other)) \<and> black_or_null s (rb_right (nd s other))
     then let s1 = upd other rb_set_red s in Some (Inr (parent, rb_parent (nd s1 parent), s1))
     else Option.bind (erase_finish is_left parent other s) (\<lambda>s4. Some (Inl (rb_root s4, s4))))"

definition erase_round :: "bool \<Rightarrow> addr \<Rightarrow> addr \<Rightarrow> rbs \<Rightarrow> ((addr \<times> rbs) + (addr \<times> addr \<times> rbs)) option" where
  "erase_round is_left node parent s =
    (let other = far is_left (nd s parent) in
     if other = 0 then Some (Inl (node, s))
     else Option.bind (erase_red_sibling is_left parent other s) (\<lambda>(w, s1). erase_black_sibling is_left node parent w s1))"

partial_function (option) erase_loop :: "addr \<Rightarrow> addr \<Rightarrow> rbs \<Rightarrow> (addr \<times> rbs) option" where
  "erase_loop node parent s =
    (if node \<noteq> rb_root s \<and> black_or_null s node then
       if parent = 0 then None
       else Option.bind (erase_round (rb_left (nd s parent) = node) node parent s) (\<lambda>r. case r of
           Inl ns \<Rightarrow> Some ns
         | Inr q \<Rightarrow> erase_loop (fst q) (fst (snd q)) (snd (snd q)))
     else Some (node, s))"

definition rb_erase_fixup :: "addr \<Rightarrow> addr \<Rightarrow> rbs \<Rightarrow> rbs option" where
  "rb_erase_fixup node parent s = Option.bind (erase_loop node parent s) (\<lambda>(n, s1). Some (if n \<noteq> 0 then upd n rb_set_black s1 else s1))"

text \<open>\<open>rb_erase\<close> of a node with at most one child.\<close>

definition erase_simple :: "addr \<Rightarrow> addr \<Rightarrow> rbs \<Rightarrow> rbs option" where
  "erase_simple node child s =
    (let parent = rb_parent (nd s node); color = rb_color (nd s node);
         s1 = (if child \<noteq> 0 then upd child (rb_set_parent parent) s else s);
         s2 = (if parent \<noteq> 0
           then (if rb_left (nd s1 parent) = node then upd parent (\<lambda>n. n\<lparr>rb_left := child\<rparr>) s1 else upd parent (\<lambda>n. n\<lparr>rb_right := child\<rparr>) s1)
           else s1\<lparr>rb_root := child\<rparr>)
     in if color = RBT_BLACK then rb_erase_fixup child parent s2 else Some s2)"

text \<open>The stores that put the successor \<open>node\<close> in the place of \<open>old\<close>.\<close>

definition erase_replace :: "addr \<Rightarrow> addr \<Rightarrow> rbs \<Rightarrow> rbs" where
  "erase_replace old node s =
    (let s1 = upd node (\<lambda>n. n\<lparr>rb_parent_color := rb_parent_color (nd s old)\<rparr>) s;
         s2 = upd node (\<lambda>n. n\<lparr>rb_left := rb_left (nd s1 old)\<rparr>) s1;
         s3 = upd (rb_left (nd s2 old)) (rb_set_parent node) s2;
         p = rb_parent (nd s3 old);
         s4 = (if p \<noteq> 0
           then (if rb_left (nd s3 p) = old then upd p (\<lambda>n. n\<lparr>rb_left := node\<rparr>) s3 else upd p (\<lambda>n. n\<lparr>rb_right := node\<rparr>) s3)
           else s3\<lparr>rb_root := node\<rparr>)
     in upd old (\<lambda>n. n\<lparr>rb_left := 0, rb_right := 0\<rparr>) s4)"

text \<open>The two blocks under \<open>node != old->rb_right\<close>; the second repeats the stores of the first.\<close>

definition erase_detach :: "addr \<Rightarrow> addr \<Rightarrow> addr \<Rightarrow> addr \<Rightarrow> rbs \<Rightarrow> rbs" where
  "erase_detach old node child parent s =
    (let s1 = upd parent (\<lambda>n. n\<lparr>rb_left := child\<rparr>) s;
         s2 = upd node (\<lambda>n. n\<lparr>rb_right := rb_right (nd s1 old)\<rparr>) s1;
         s3 = upd (rb_right (nd s2 old)) (rb_set_parent node) s2;
         s4 = upd parent (\<lambda>n. n\<lparr>rb_left := child\<rparr>) s3;
         s5 = (if child \<noteq> 0 then upd child (rb_set_parent parent) s4 else s4);
         s6 = upd node (\<lambda>n. n\<lparr>rb_right := rb_right (nd s5 old)\<rparr>) s5
     in upd (rb_right (nd s6 old)) (rb_set_parent node) s6)"

definition erase_two :: "addr \<Rightarrow> rbs \<Rightarrow> rbs option" where
  "erase_two old s =
    Option.bind (leftmost (rb_right (nd s old)) s) (\<lambda>node.
      let color = rb_color (nd s node); child = rb_right (nd s node); parent = rb_parent (nd s node);
          s1 = (if child \<noteq> 0 then upd child (rb_set_parent parent) s else s);
          (parent2, s2) = (if node \<noteq> rb_right (nd s1 old)
            then (parent, erase_detach old node child parent s1)
            else let t = (if child \<noteq> 0 then upd child (rb_set_parent node) s1 else s1) in (rb_parent (nd t node), t));
          s3 = erase_replace old node s2
      in if color = RBT_BLACK then rb_erase_fixup child parent2 s3 else Some s3)"

definition rb_erase :: "addr \<Rightarrow> rbs \<Rightarrow> rbs option" where
  "rb_erase node s =
    (if node = 0 then None
     else if rb_left (nd s node) = 0 then erase_simple node (rb_right (nd s node)) s
     else if rb_right (nd s node) = 0 then erase_simple node (rb_left (nd s node)) s
     else erase_two node s)"

section \<open>The parts of a round on plugged trees\<close>

abbreviation rootp :: "rbt \<Rightarrow> addr" where
  "rootp t \<equiv> (case t of Lf \<Rightarrow> 0 | Nd _ _ a _ \<Rightarrow> a)"

lemma black_or_null_iff: "repr s (plug t k) \<Longrightarrow> p = rootp t \<Longrightarrow> black_or_null s p \<longleftrightarrow> is_black t"
  using plug_root_color [of s t k p] by (auto simp: black_or_null_def)

lemma red_sibling_left:
  assumes "repr s (plug t (FL c pa (Nd False sl w sr) # k))"
  shows "\<exists>s1. erase_red_sibling True pa w s = Some (rootp sl, s1) \<and> repr s1 (plug t (FL False pa sl # FL True w sr # k))"
proof -
  have fo: "repr s (plug (Nd False sl w sr) (FR c pa t # k))" using assms by simp
  have red: "rb_is_red (nd s w)" using plug_node(3) [OF fo] by (simp add: rb_red_not_black)
  from set_black_plug [OF fo] have "repr (upd w rb_set_black s) (plug (Nd c t pa (Nd True sl w sr)) k)" by simp
  from rotate_left_plug [OF set_red_plug [OF this]] obtain s1
    where s1: "rb_rotate_left pa (upd pa rb_set_red (upd w rb_set_black s)) = Some s1" "repr s1 (plug (Nd True (Nd False t pa sl) w sr) k)" by blast
  have "repr s1 (plug (Nd False t pa sl) (FL True w sr # k))" using s1(2) by simp
  from plug_node(5) [OF this] have "far True (nd s1 pa) = rootp sl" by (simp add: far_def)
  then show ?thesis using red s1 by (simp add: erase_red_sibling_def rot_to_def)
qed

lemma finish_far_left:
  assumes "repr s (plug t (FL c pa (Nd True sl w (Nd False a b d)) # k))"
  shows "\<exists>s'. erase_finish True pa w s = Some s' \<and> repr s' (plug (Nd c (Nd True t pa sl) w (Nd True a b d)) k)"
proof -
  have fo: "repr s (plug (Nd True sl w (Nd False a b d)) (FR c pa t # k))" using assms by simp
  have fb: "repr s (plug (Nd False a b d) (FR True w sl # FR c pa t # k))" using assms by simp
  have ob: "w \<noteq> 0" "far True (nd s w) = b" "b \<noteq> 0" "\<not> rb_is_black (nd s b)"
    using plug_node(2,5) [OF fo] plug_node(2,3) [OF fb] by (simp_all add: far_def)
  have pc: "rb_is_black (nd s pa) = c" using plug_lookup(3) [OF fo] by simp
  have r1: "repr (upd w (rb_set_color (rb_color (nd s pa))) s) (plug (Nd c sl w (Nd False a b d)) (FR c pa t # k))"
    using set_color_plug [OF fo, of "nd s pa"] pc by simp
  let ?s1 = "upd w (rb_set_color (rb_color (nd s pa))) s"
  have "repr ?s1 (plug (Nd c t pa (Nd c sl w (Nd False a b d))) k)" using r1 by simp
  from set_black_plug [OF this] have r2: "repr (upd pa rb_set_black ?s1) (plug (Nd True t pa (Nd c sl w (Nd False a b d))) k)" .
  let ?s2 = "upd pa rb_set_black ?s1"
  have f2: "repr ?s2 (plug (Nd c sl w (Nd False a b d)) (FR True pa t # k))" using r2 by simp
  have b2: "far True (nd ?s2 w) = b" using plug_node(5) [OF f2] by (simp add: far_def)
  have "repr ?s2 (plug (Nd False a b d) (FR c w sl # FR True pa t # k))" using r2 by simp
  from set_black_plug [OF this] have "repr (upd b rb_set_black ?s2) (plug (Nd True t pa (Nd c sl w (Nd True a b d))) k)" by simp
  from rotate_left_plug [OF this] obtain s' where "rb_rotate_left pa (upd b rb_set_black ?s2) = Some s'" "repr s' (plug (Nd c (Nd True t pa sl) w (Nd True a b d)) k)" by blast
  then show ?thesis using ob b2 by (simp add: erase_finish_def black_or_null_def Let_def rot_to_def)
qed

lemma finish_near_left:
  assumes "repr s (plug t (FL c pa (Nd True (Nd False a m b) w sr) # k))" "is_black sr"
  shows "\<exists>s'. erase_finish True pa w s = Some s' \<and> repr s' (plug (Nd c (Nd True t pa a) m (Nd True b w sr)) k)"
proof -
  have fo: "repr s (plug (Nd True (Nd False a m b) w sr) (FR c pa t # k))" using assms by simp
  have fm: "repr s (plug (Nd False a m b) (FL True w sr # FR c pa t # k))" using assms by simp
  have fr: "repr s (plug sr (FR True w (Nd False a m b) # FR c pa t # k))" using assms by simp
  have bn: "black_or_null s (far True (nd s w))"
    using black_or_null_iff [OF fr, of "far True (nd s w)"] plug_node(5) [OF fo] assms(2) by (simp add: far_def)
  have mm: "near True (nd s w) = m" "m \<noteq> 0" using plug_node(4) [OF fo] plug_node(2) [OF fm] by (simp_all add: near_def)
  let ?s1 = "upd m rb_set_black s"
  have "repr ?s1 (plug (Nd True (Nd True a m b) w sr) (FR c pa t # k))" using set_black_plug [OF fm] by simp
  from rotate_right_plug [OF set_red_plug [OF this]] obtain s3
    where s3: "rb_rotate_right w (upd w rb_set_red ?s1) = Some s3" "repr s3 (plug (Nd True a m (Nd False b w sr)) (FR c pa t # k))" by blast
  note fm3 = s3(2)
  have pa3: "far True (nd s3 pa) = m" "rb_is_black (nd s3 pa) = c" using plug_lookup(3,6) [OF fm3] by (simp_all add: far_def)
  have r4: "repr (upd m (rb_set_color (rb_color (nd s3 pa))) s3) (plug (Nd c a m (Nd False b w sr)) (FR c pa t # k))"
    using set_color_plug [OF fm3, of "nd s3 pa"] pa3(2) by simp
  let ?s4 = "upd m (rb_set_color (rb_color (nd s3 pa))) s3"
  have "repr ?s4 (plug (Nd c t pa (Nd c a m (Nd False b w sr))) k)" using r4 by simp
  from set_black_plug [OF this] have r5: "repr (upd pa rb_set_black ?s4) (plug (Nd True t pa (Nd c a m (Nd False b w sr))) k)" .
  let ?s5 = "upd pa rb_set_black ?s4"
  have f5: "repr ?s5 (plug (Nd c a m (Nd False b w sr)) (FR True pa t # k))" using r5 by simp
  have fo5: "repr ?s5 (plug (Nd False b w sr) (FR c m a # FR True pa t # k))" using r5 by simp
  have w5: "far True (nd ?s5 m) = w" "w \<noteq> 0" using plug_node(5) [OF f5] plug_node(2) [OF fo] by (simp_all add: far_def)
  from set_black_plug [OF fo5] have "repr (upd w rb_set_black ?s5) (plug (Nd True t pa (Nd c a m (Nd True b w sr))) k)" by simp
  from rotate_left_plug [OF this] obtain s' where "rb_rotate_left pa (upd w rb_set_black ?s5) = Some s'" "repr s' (plug (Nd c (Nd True t pa a) m (Nd True b w sr)) k)" by blast
  then show ?thesis using bn mm s3(1) pa3(1) w5 by (simp add: erase_finish_def Let_def rot_to_def rot_away_def)
qed

lemma red_sibling_right:
  assumes "repr s (plug t (FR c pa (Nd False sr w sl) # k))"
  shows "\<exists>s1. erase_red_sibling False pa w s = Some (rootp sl, s1) \<and> repr s1 (plug t (FR False pa sl # FR True w sr # k))"
proof -
  have fo: "repr s (plug (Nd False sr w sl) (FL c pa t # k))" using assms by simp
  have red: "rb_is_red (nd s w)" using plug_node(3) [OF fo] by (simp add: rb_red_not_black)
  from set_black_plug [OF fo] have "repr (upd w rb_set_black s) (plug (Nd c (Nd True sr w sl) pa t) k)" by simp
  from rotate_right_plug [OF set_red_plug [OF this]] obtain s1
    where s1: "rb_rotate_right pa (upd pa rb_set_red (upd w rb_set_black s)) = Some s1" "repr s1 (plug (Nd True sr w (Nd False sl pa t)) k)" by blast
  have "repr s1 (plug (Nd False sl pa t) (FR True w sr # k))" using s1(2) by simp
  from plug_node(4) [OF this] have "far False (nd s1 pa) = rootp sl" by (simp add: far_def)
  then show ?thesis using red s1 by (simp add: erase_red_sibling_def rot_to_def)
qed

lemma finish_far_right:
  assumes "repr s (plug t (FR c pa (Nd True (Nd False a b d) w sl) # k))"
  shows "\<exists>s'. erase_finish False pa w s = Some s' \<and> repr s' (plug (Nd c (Nd True a b d) w (Nd True sl pa t)) k)"
proof -
  have fo: "repr s (plug (Nd True (Nd False a b d) w sl) (FL c pa t # k))" using assms by simp
  have fb: "repr s (plug (Nd False a b d) (FL True w sl # FL c pa t # k))" using assms by simp
  have ob: "w \<noteq> 0" "far False (nd s w) = b" "b \<noteq> 0" "\<not> rb_is_black (nd s b)"
    using plug_node(2,4) [OF fo] plug_node(2,3) [OF fb] by (simp_all add: far_def)
  have pc: "rb_is_black (nd s pa) = c" using plug_lookup(3) [OF fo] by simp
  have r1: "repr (upd w (rb_set_color (rb_color (nd s pa))) s) (plug (Nd c (Nd False a b d) w sl) (FL c pa t # k))"
    using set_color_plug [OF fo, of "nd s pa"] pc by simp
  let ?s1 = "upd w (rb_set_color (rb_color (nd s pa))) s"
  have "repr ?s1 (plug (Nd c (Nd c (Nd False a b d) w sl) pa t) k)" using r1 by simp
  from set_black_plug [OF this] have r2: "repr (upd pa rb_set_black ?s1) (plug (Nd True (Nd c (Nd False a b d) w sl) pa t) k)" .
  let ?s2 = "upd pa rb_set_black ?s1"
  have f2: "repr ?s2 (plug (Nd c (Nd False a b d) w sl) (FL True pa t # k))" using r2 by simp
  have b2: "far False (nd ?s2 w) = b" using plug_node(4) [OF f2] by (simp add: far_def)
  have "repr ?s2 (plug (Nd False a b d) (FL c w sl # FL True pa t # k))" using r2 by simp
  from set_black_plug [OF this] have "repr (upd b rb_set_black ?s2) (plug (Nd True (Nd c (Nd True a b d) w sl) pa t) k)" by simp
  from rotate_right_plug [OF this] obtain s' where "rb_rotate_right pa (upd b rb_set_black ?s2) = Some s'" "repr s' (plug (Nd c (Nd True a b d) w (Nd True sl pa t)) k)" by blast
  then show ?thesis using ob b2 by (simp add: erase_finish_def black_or_null_def Let_def rot_to_def)
qed

lemma finish_near_right:
  assumes "repr s (plug t (FR c pa (Nd True sr w (Nd False b m a)) # k))" "is_black sr"
  shows "\<exists>s'. erase_finish False pa w s = Some s' \<and> repr s' (plug (Nd c (Nd True sr w b) m (Nd True a pa t)) k)"
proof -
  have fo: "repr s (plug (Nd True sr w (Nd False b m a)) (FL c pa t # k))" using assms by simp
  have fm: "repr s (plug (Nd False b m a) (FR True w sr # FL c pa t # k))" using assms by simp
  have fr: "repr s (plug sr (FL True w (Nd False b m a) # FL c pa t # k))" using assms by simp
  have bn: "black_or_null s (far False (nd s w))"
    using black_or_null_iff [OF fr, of "far False (nd s w)"] plug_node(4) [OF fo] assms(2) by (simp add: far_def)
  have mm: "near False (nd s w) = m" "m \<noteq> 0" using plug_node(5) [OF fo] plug_node(2) [OF fm] by (simp_all add: near_def)
  let ?s1 = "upd m rb_set_black s"
  have "repr ?s1 (plug (Nd True sr w (Nd True b m a)) (FL c pa t # k))" using set_black_plug [OF fm] by simp
  from rotate_left_plug [OF set_red_plug [OF this]] obtain s3
    where s3: "rb_rotate_left w (upd w rb_set_red ?s1) = Some s3" "repr s3 (plug (Nd True (Nd False sr w b) m a) (FL c pa t # k))" by blast
  note fm3 = s3(2)
  have pa3: "far False (nd s3 pa) = m" "rb_is_black (nd s3 pa) = c" using plug_lookup(3,5) [OF fm3] by (simp_all add: far_def)
  have r4: "repr (upd m (rb_set_color (rb_color (nd s3 pa))) s3) (plug (Nd c (Nd False sr w b) m a) (FL c pa t # k))"
    using set_color_plug [OF fm3, of "nd s3 pa"] pa3(2) by simp
  let ?s4 = "upd m (rb_set_color (rb_color (nd s3 pa))) s3"
  have "repr ?s4 (plug (Nd c (Nd c (Nd False sr w b) m a) pa t) k)" using r4 by simp
  from set_black_plug [OF this] have r5: "repr (upd pa rb_set_black ?s4) (plug (Nd True (Nd c (Nd False sr w b) m a) pa t) k)" .
  let ?s5 = "upd pa rb_set_black ?s4"
  have f5: "repr ?s5 (plug (Nd c (Nd False sr w b) m a) (FL True pa t # k))" using r5 by simp
  have fo5: "repr ?s5 (plug (Nd False sr w b) (FL c m a # FL True pa t # k))" using r5 by simp
  have w5: "far False (nd ?s5 m) = w" "w \<noteq> 0" using plug_node(4) [OF f5] plug_node(2) [OF fo] by (simp_all add: far_def)
  from set_black_plug [OF fo5] have "repr (upd w rb_set_black ?s5) (plug (Nd True (Nd c (Nd True sr w b) m a) pa t) k)" by simp
  from rotate_right_plug [OF this] obtain s' where "rb_rotate_right pa (upd w rb_set_black ?s5) = Some s'" "repr s' (plug (Nd c (Nd True sr w b) m (Nd True a pa t)) k)" by blast
  then show ?thesis using bn mm s3(1) pa3(1) w5 by (simp add: erase_finish_def Let_def rot_to_def rot_away_def)
qed

section \<open>Fixing the black height\<close>

fun blacken :: "rbt \<Rightarrow> rbt" where
  "blacken Lf = Lf"
| "blacken (Nd c l a r) = Nd True l a r"

text \<open>The subtree in the hole is one black node short of what the path expects; its root may be red over red nodes.\<close>

definition short_at :: "rbs \<Rightarrow> rbt \<Rightarrow> frame list \<Rightarrow> nat \<Rightarrow> bool" where
  "short_at s t k h = (repr s (plug t k) \<and> kinv k (Suc h) \<and> invh t \<and> invc (blacken t) \<and> bheight t = h)"

lemma short_atD:
  assumes "short_at s t k h"
  shows "repr s (plug t k)" "kinv k (Suc h)" "invh t" "invc (blacken t)" "bheight t = h"
  using assms by (auto simp: short_at_def)

lemma blacken_facts [simp]: "addrs (blacken t) = addrs t" "invh (blacken t) = invh t" "is_black (blacken t)" "rootp (blacken t) = rootp t"
  by (cases t; simp)+

lemma blacken_black: "is_black t \<Longrightarrow> blacken t = t"
  by (cases t) simp_all

lemma invc_blacken: "invc t \<Longrightarrow> invc (blacken t)"
  by (cases t) simp_all

definition fixed :: "rbs option \<Rightarrow> addr list \<Rightarrow> bool" where
  "fixed res xs = (\<exists>s T. res = Some s \<and> repr s T \<and> red_black T \<and> addrs T = xs)"

lemma fixed_root_black:
  assumes "repr s T" "invh T" "invc (blacken T)"
  shows "fixed (Some (if rb_root s \<noteq> 0 then upd (rb_root s) rb_set_black s else s)) (addrs T)"
proof (cases T)
  case Lf
  then show ?thesis using assms(1) by (auto simp: fixed_def repr_def red_black_def intro: exI [of _ Lf])
next
  case (Nd c l a r)
  have rt: "rb_root s = a" "a \<noteq> 0" using assms(1) Nd by (auto simp: repr_def node_addr_def)
  have "repr (upd a rb_set_black s) (blacken T)" using set_black_plug [of s c l a r "[]"] assms(1) Nd by simp
  moreover have "red_black (blacken T)" using assms(2,3) by (simp add: red_black_def)
  ultimately show ?thesis using rt unfolding fixed_def by (intro exI [of _ "upd a rb_set_black s"] exI [of _ "blacken T"]) simp
qed

lemma fixup_rec:
  "rb_erase_fixup node parent s =
    (if node \<noteq> rb_root s \<and> black_or_null s node then
       if parent = 0 then None
       else Option.bind (erase_round (rb_left (nd s parent) = node) node parent s) (\<lambda>r. case r of
           Inl ns \<Rightarrow> Some (if fst ns \<noteq> 0 then upd (fst ns) rb_set_black (snd ns) else snd ns)
         | Inr q \<Rightarrow> rb_erase_fixup (fst q) (fst (snd q)) (snd (snd q)))
     else Some (if node \<noteq> 0 then upd node rb_set_black s else s))"
proof (cases "erase_round (rb_left (nd s parent) = node) node parent s")
  case None
  then show ?thesis unfolding rb_erase_fixup_def by (subst erase_loop.simps) simp
next
  case (Some r)
  then show ?thesis unfolding rb_erase_fixup_def by (subst erase_loop.simps) (cases r; auto)
qed

lemma root_not_in_hole:
  assumes "repr s (plug t (f # k))"
  shows "rb_root s \<noteq> rootp t" "rb_root s \<noteq> 0"
proof -
  have last: "\<exists>c l r. plug T (g # k') = Nd c l a r \<Longrightarrow> a \<in> set (kaddrs (g # k'))" for T g k' a
  proof (induction k' arbitrary: T g)
    case Nil
    then show ?case by (cases g) (auto simp: kaddrs_def)
  next
    case (Cons h k')
    then have "a \<in> set (kaddrs (h # k'))" by (metis plug_Cons)
    then show ?case by (cases g) (auto simp: kaddrs_def)
  qed
  have "addrs (plug t (f # k)) \<noteq> []" by (cases f) (simp_all add: addrs_plug)
  then obtain c l a r where T: "plug t (f # k) = Nd c l a r" by (cases "plug t (f # k)") auto
  have rt: "rb_root s = a" "a \<noteq> 0" using assms unfolding T by (auto simp: repr_def node_addr_def)
  have "a \<in> set (kaddrs (f # k))" using last [of t f k a] T by blast
  then show "rb_root s \<noteq> rootp t" "rb_root s \<noteq> 0" using rt plug_distinct [OF assms] by (cases t; auto)+
qed

lemma fixup_stops:
  assumes "short_at s t k h" "k = [] \<or> \<not> is_black t"
  shows "fixed (rb_erase_fixup (rootp t) (hole_parent k) s) (addrs (plug t k))"
proof (cases k)
  case Nil
  have r: "repr s t" "rb_root s = rootp t" using short_atD(1) [OF assms(1)] Nil by (auto simp: repr_def dest: tree_at_root)
  show ?thesis using fixed_root_black [OF r(1) short_atD(3,4) [OF assms(1)]] Nil unfolding r(2) by (subst fixup_rec) (simp add: r(2))
next
  case (Cons f k')
  then obtain l a r where t: "t = Nd False l a r" using assms(2) by (cases t) auto
  note i = short_atD [OF assms(1)]
  have p: "repr s (plug (Nd False l a r) k)" using i(1) t by simp
  note n = plug_node [OF p]
  have "rb_erase_fixup a (hole_parent k) s = Some (upd a rb_set_black s)"
    using n(2,3) by (subst fixup_rec) (simp add: black_or_null_def)
  moreover have "repr (upd a rb_set_black s) (plug (Nd True l a r) k)" by (rule set_black_plug [OF p])
  moreover have "red_black (plug (Nd True l a r) k)"
    using plug_inv [OF i(2), of "Nd True l a r"] i(3-5) t Cons by (simp add: red_black_def)
  moreover have "addrs (plug (Nd True l a r) k) = addrs (plug t k)" by (simp add: addrs_plug t)
  ultimately have "fixed (rb_erase_fixup a (hole_parent k) s) (addrs (plug t k))" unfolding fixed_def by blast
  then show ?thesis using t by simp
qed

text \<open>The outcome of a round with a black sibling: the loop ends with a repaired subtree, or goes on one level higher.\<close>

definition round_ok :: "((addr \<times> rbs) + (addr \<times> addr \<times> rbs)) option \<Rightarrow> frame list \<Rightarrow> nat \<Rightarrow> addr list \<Rightarrow> bool \<Rightarrow> bool" where
  "round_ok res k h xs c = (\<exists>r. res = Some r \<and> (case r of
      Inl (n, s) \<Rightarrow> n = rb_root s \<and> (\<exists>X. repr s (plug X k) \<and> invh X \<and> invc X \<and> bheight X = Suc h \<and> addrs X = xs \<and> is_black X = c)
    | Inr (n, p, s) \<Rightarrow> p = hole_parent k \<and> (\<exists>X. n = rootp X \<and> short_at s X k h \<and> addrs X = xs \<and> is_black X = c)))"

lemma black_sibling_left:
  assumes "repr s (plug t (FL c pa (Nd True sl w sr) # k))" "kinv (FL c pa (Nd True sl w sr) # k) (Suc h)" "invh t" "invc t" "is_black t" "bheight t = h"
  shows "round_ok (erase_black_sibling True (rootp t) pa w s) k (h + (if c then 1 else 0)) (addrs (Nd c t pa (Nd True sl w sr))) c"
proof -
  have fo: "repr s (plug (Nd True sl w sr) (FR c pa t # k))" using assms(1) by simp
  have fl: "repr s (plug sl (FL True w sr # FR c pa t # k))" "repr s (plug sr (FR True w sl # FR c pa t # k))" using assms(1) by simp_all
  note n = plug_node [OF fo]
  have bl: "black_or_null s (rootp sl) \<longleftrightarrow> is_black sl" "black_or_null s (rootp sr) \<longleftrightarrow> is_black sr"
    by (rule black_or_null_iff [OF fl(1) refl], rule black_or_null_iff [OF fl(2) refl])
  have inv: "invh sl" "invh sr" "invc sl" "invc sr" "bheight sl = h" "bheight sr = h" "kinv k (Suc (h + (if c then 1 else 0)))"
    using assms(2) by auto
  have cond: "black_or_null s (rb_left (nd s w)) \<and> black_or_null s (rb_right (nd s w)) \<longleftrightarrow> is_black sl \<and> is_black sr"
    unfolding n(4,5) using bl by blast
  show ?thesis
  proof (cases "is_black sl \<and> is_black sr")
    case True
    let ?s = "upd w rb_set_red s"
    have r: "repr ?s (plug (Nd c t pa (Nd False sl w sr)) k)" using set_red_plug [OF fo] by simp
    have "rb_parent (nd ?s pa) = hole_parent k"
      using plug_node(6) [OF r] by (cases k) (auto simp: hole_parent_def split: frame.splits)
    then have "erase_black_sibling True (rootp t) pa w s = Some (Inr (pa, hole_parent k, ?s))"
      using n(2) cond True by (simp add: erase_black_sibling_def Let_def)
    moreover have "short_at ?s (Nd c t pa (Nd False sl w sr)) k (h + (if c then 1 else 0))"
      using r inv assms(3-6) True by (simp add: short_at_def)
    ultimately show ?thesis unfolding round_ok_def by (intro exI [of _ "Inr (pa, hole_parent k, ?s)"]) (auto intro!: exI [of _ "(Nd c t pa (Nd False sl w sr))"])
  next
    case no: False
    obtain s' X where s': "erase_finish True pa w s = Some s'" "repr s' (plug X k)" "invh X" "invc X"
      "bheight X = Suc (h + (if c then 1 else 0))" "addrs X = addrs (Nd c t pa (Nd True sl w sr))" "is_black X = c"
    proof (cases "is_black sr")
      case False
      then obtain a b d where sr: "sr = Nd False a b d" by (cases sr) auto
      obtain s' where "erase_finish True pa w s = Some s'" "repr s' (plug (Nd c (Nd True t pa sl) w (Nd True a b d)) k)"
        using finish_far_left [of s t c pa sl w a b d k] assms(1) sr by auto
      then show thesis by (rule that) (use inv assms(3-6) sr in auto)
    next
      case True
      then obtain a m b where sl: "sl = (Nd False a m b)" using no by (cases sl) auto
      obtain s' where "erase_finish True pa w s = Some s'" "repr s' (plug (Nd c (Nd True t pa a) m (Nd True b w sr)) k)"
        using finish_near_left [of s t c pa a m b w sr k] assms(1) sl True by auto
      then show thesis by (rule that) (use inv assms(3-6) sl True in auto)
    qed
    then have "erase_black_sibling True (rootp t) pa w s = Some (Inl (rb_root s', s'))"
      using n(2) unfolding erase_black_sibling_def if_not_P [OF no [folded cond]] by simp
    then show ?thesis using s' unfolding round_ok_def by auto
  qed
qed

lemma black_sibling_right:
  assumes "repr s (plug t (FR c pa (Nd True sr w sl) # k))" "kinv (FR c pa (Nd True sr w sl) # k) (Suc h)" "invh t" "invc t" "is_black t" "bheight t = h"
  shows "round_ok (erase_black_sibling False (rootp t) pa w s) k (h + (if c then 1 else 0)) (addrs (Nd c (Nd True sr w sl) pa t)) c"
proof -
  have fo: "repr s (plug (Nd True sr w sl) (FL c pa t # k))" using assms(1) by simp
  have fl: "repr s (plug sl (FR True w sr # FL c pa t # k))" "repr s (plug sr (FL True w sl # FL c pa t # k))" using assms(1) by simp_all
  note n = plug_node [OF fo]
  have bl: "black_or_null s (rootp sl) \<longleftrightarrow> is_black sl" "black_or_null s (rootp sr) \<longleftrightarrow> is_black sr"
    by (rule black_or_null_iff [OF fl(1) refl], rule black_or_null_iff [OF fl(2) refl])
  have inv: "invh sl" "invh sr" "invc sl" "invc sr" "bheight sl = h" "bheight sr = h" "kinv k (Suc (h + (if c then 1 else 0)))"
    using assms(2) by auto
  have cond: "black_or_null s (rb_left (nd s w)) \<and> black_or_null s (rb_right (nd s w)) \<longleftrightarrow> is_black sl \<and> is_black sr"
    unfolding n(4,5) using bl by blast
  show ?thesis
  proof (cases "is_black sl \<and> is_black sr")
    case True
    let ?s = "upd w rb_set_red s"
    have r: "repr ?s (plug (Nd c (Nd False sr w sl) pa t) k)" using set_red_plug [OF fo] by simp
    have "rb_parent (nd ?s pa) = hole_parent k"
      using plug_node(6) [OF r] by (cases k) (auto simp: hole_parent_def split: frame.splits)
    then have "erase_black_sibling False (rootp t) pa w s = Some (Inr (pa, hole_parent k, ?s))"
      using n(2) cond True by (simp add: erase_black_sibling_def Let_def)
    moreover have "short_at ?s (Nd c (Nd False sr w sl) pa t) k (h + (if c then 1 else 0))"
      using r inv assms(3-6) True by (simp add: short_at_def)
    ultimately show ?thesis unfolding round_ok_def by (intro exI [of _ "Inr (pa, hole_parent k, ?s)"]) (auto intro!: exI [of _ "(Nd c (Nd False sr w sl) pa t)"])
  next
    case no: False
    obtain s' X where s': "erase_finish False pa w s = Some s'" "repr s' (plug X k)" "invh X" "invc X"
      "bheight X = Suc (h + (if c then 1 else 0))" "addrs X = addrs (Nd c (Nd True sr w sl) pa t)" "is_black X = c"
    proof (cases "is_black sr")
      case False
      then obtain a b d where sr: "sr = Nd False a b d" by (cases sr) auto
      obtain s' where "erase_finish False pa w s = Some s'" "repr s' (plug (Nd c (Nd True a b d) w (Nd True sl pa t)) k)"
        using finish_far_right [of s t c pa a b d w sl k] assms(1) sr by auto
      then show thesis by (rule that) (use inv assms(3-6) sr in auto)
    next
      case True
      then obtain a m b where sl: "sl = (Nd False b m a)" using no by (cases sl) auto
      obtain s' where "erase_finish False pa w s = Some s'" "repr s' (plug (Nd c (Nd True sr w b) m (Nd True a pa t)) k)"
        using finish_near_right [of s t c pa sr w b m a k] assms(1) sl True by auto
      then show thesis by (rule that) (use inv assms(3-6) sl True in auto)
    qed
    then have "erase_black_sibling False (rootp t) pa w s = Some (Inl (rb_root s', s'))"
      using n(2) unfolding erase_black_sibling_def if_not_P [OF no [folded cond]] by simp
    then show ?thesis using s' unfolding round_ok_def by auto
  qed
qed

definition continue :: "((addr \<times> rbs) + (addr \<times> addr \<times> rbs)) option \<Rightarrow> rbs option" where
  "continue res = Option.bind res (\<lambda>r. case r of
       Inl ns \<Rightarrow> Some (if fst ns \<noteq> 0 then upd (fst ns) rb_set_black (snd ns) else snd ns)
     | Inr q \<Rightarrow> rb_erase_fixup (fst q) (fst (snd q)) (snd (snd q)))"

lemma fixup_continue:
  assumes "node \<noteq> rb_root s" "black_or_null s node" "parent \<noteq> 0"
  shows "rb_erase_fixup node parent s = continue (erase_round (rb_left (nd s parent) = node) node parent s)"
  unfolding continue_def fixup_rec [of node parent s] using assms by (simp only: if_True if_False simp_thms not_False_eq_True)

lemma after_round:
  assumes "round_ok res k h xs c" "kinv k (Suc h)" "c \<or> k = [] \<or> fcolor (hd k)"
    and "\<And>s X. short_at s X k h \<Longrightarrow> is_black X = c \<Longrightarrow> fixed (rb_erase_fixup (rootp X) (hole_parent k) s) (addrs (plug X k))"
  shows "fixed (continue res) (before k @ xs @ after k)"
proof -
  obtain r where r: "res = Some r" using assms(1) by (auto simp: round_ok_def)
  show ?thesis
  proof (cases r)
    case (Inl ns)
    obtain X where X: "fst ns = rb_root (snd ns)" "repr (snd ns) (plug X k)" "invh X" "invc X" "bheight X = Suc h" "addrs X = xs" "is_black X = c"
      using assms(1) r Inl by (auto simp: round_ok_def)
    have pi: "invh (plug X k)" "invc (blacken (plug X k))" using plug_inv [OF assms(2) X(3-5)] assms(3) X(7) by (auto intro: invc_blacken)
    show ?thesis using fixed_root_black [OF X(2) pi] r Inl X(1,6) by (simp add: continue_def addrs_plug split: if_splits)
  next
    case (Inr q)
    obtain X where "fst (snd q) = hole_parent k" "fst q = rootp X" "short_at (snd (snd q)) X k h" "addrs X = xs" "is_black X = c"
      using assms(1) r Inr by (auto simp: round_ok_def)
    then show ?thesis using assms(4) [of "snd (snd q)" X] r Inr by (simp add: continue_def addrs_plug)
  qed
qed

lemma fixup_correct:
  assumes "short_at s t k h"
  shows "fixed (rb_erase_fixup (rootp t) (hole_parent k) s) (addrs (plug t k))"
  using assms
proof (induction k arbitrary: s t h)
  case Nil
  then show ?case using fixup_stops by blast
next
  case (Cons f k)
  show ?case
  proof (cases "is_black t")
    case False
    then show ?thesis using fixup_stops [OF Cons.prems] by blast
  next
    case True
    note i = short_atD [OF Cons.prems]
    have tc: "invc t" using i(4) blacken_black [OF True] by simp
    have h: "bheight (fsib f) = Suc h" using i(2) by simp
    then obtain d sl w sr where S: "fsib f = Nd d sl w sr" by (cases "fsib f") auto
    have kk: "kinv k (Suc (h + (if fcolor f then 1 else 0)))" "\<not> fcolor f \<Longrightarrow> d" "\<not> fcolor f \<Longrightarrow> fcolor (hd k)" using i(2) S by auto
    have bn: "black_or_null s (rootp t)" using black_or_null_iff [OF i(1) refl] True by simp
    have f0: "hole_parent (f # k) = faddr f" by (simp add: hole_parent_def)
    define is_left where "is_left = (rb_left (nd s (faddr f)) = rootp t)"
    obtain S' where S': "repr s (plug (Nd d sl w sr) S')" "(case f of FL c a x \<Rightarrow> S' = FR c a t # k | FR c a x \<Rightarrow> S' = FL c a t # k)"
      using i(1) S by (cases f) auto
    have w0: "w \<noteq> 0" "faddr f \<noteq> 0"
      using plug_node(2) [OF S'(1)] plug_lookup(1) [of s d sl w sr "hd S'" "tl S'"] S' by (cases f; auto)+
    have dw: "w \<noteq> rootp t"
    proof (cases t)
      case (Nd c' l' b r')
      then show ?thesis using sibling_differs [of s d sl w sr "hd S'" "tl S'" c' l' b r'] S' by (cases f) auto
    qed (use w0 in simp)
    have rec: "rb_erase_fixup (rootp t) (hole_parent (f # k)) s = continue (erase_round is_left (rootp t) (faddr f) s)"
      using fixup_continue [OF _ bn w0(2)] root_not_in_hole(1) [OF i(1)] f0 by (simp add: is_left_def)
    have left: "is_left = (case f of FL _ _ _ \<Rightarrow> True | FR _ _ _ \<Rightarrow> False)" "far is_left (nd s (faddr f)) = w"
      using deref_hole [OF i(1)] deref_hole [OF S'(1)] S'(2) dw by (cases f; simp add: is_left_def hole_def far_def)+
    show ?thesis
    proof (cases d)
      case d: True
      have "\<not> rb_is_red (nd s w)" using plug_node(3) [OF S'(1)] d by (simp add: rb_red_not_black)
      then have er: "erase_round is_left (rootp t) (faddr f) s = erase_black_sibling is_left (rootp t) (faddr f) w s"
        using left(2) w0 by (simp add: erase_round_def erase_red_sibling_def Let_def)
      have "round_ok (erase_black_sibling is_left (rootp t) (faddr f) w s) k (h + (if fcolor f then 1 else 0)) (addrs (fill f t)) (fcolor f)"
      proof (cases f)
        case (FL c pa x)
        then show ?thesis using black_sibling_left [of s t c pa sl w sr k h] i(1,2,3,5) tc True S d left(1) by (simp split: if_splits)
      next
        case (FR c pa x)
        then show ?thesis using black_sibling_right [of s t c pa sl w sr k h] i(1,2,3,5) tc True S d left(1) by (simp split: if_splits)
      qed
      from after_round [OF this kk(1)] show ?thesis
        unfolding rec er using Cons.IH kk(3) by (simp add: plug_Cons addrs_plug) blast
    next
      case d: False
      then have fc: "fcolor f" using kk(2) by blast
      show ?thesis
      proof (cases f)
        case (FL c pa x)
        obtain s1 where s1: "erase_red_sibling True pa w s = Some (rootp sl, s1)" "repr s1 (plug t (FL False pa sl # FL True w sr # k))"
          using red_sibling_left [of s t c pa sl w sr k] i(1) S FL d by auto
        have ki: "kinv (FL False pa sl # FL True w sr # k) (Suc h)" using i(2) S FL d fc by auto
        obtain a m b where sl: "sl = Nd True a m b" using i(2) S FL d h by (cases sl) auto
        have "round_ok (erase_black_sibling True (rootp t) pa m s1) (FL True w sr # k) h (addrs (Nd False t pa sl)) False"
          using black_sibling_left [of s1 t False pa a m b "FL True w sr # k" h] s1(2) ki i(3,5) tc True sl by simp
        moreover have "kinv (FL True w sr # k) (Suc h)" using ki by simp
        ultimately have "fixed (continue (erase_black_sibling True (rootp t) pa m s1)) (before (FL True w sr # k) @ addrs (Nd False t pa sl) @ after (FL True w sr # k))"
          by (rule after_round [OF _ _ _ fixup_stops]) simp_all
        then show ?thesis unfolding rec using left S FL s1(1) w0 sl by (simp add: erase_round_def Let_def addrs_plug)
      next
        case (FR c pa x)
        obtain s1 where s1: "erase_red_sibling False pa w s = Some (rootp sr, s1)" "repr s1 (plug t (FR False pa sr # FR True w sl # k))"
          using red_sibling_right [of s t c pa sl w sr k] i(1) S FR d by auto
        have ki: "kinv (FR False pa sr # FR True w sl # k) (Suc h)" using i(2) S FR d fc by auto
        obtain a m b where sr: "sr = Nd True a m b" using i(2) S FR d h by (cases sr) auto
        have "round_ok (erase_black_sibling False (rootp t) pa m s1) (FR True w sl # k) h (addrs (Nd False sr pa t)) False"
          using black_sibling_right [of s1 t False pa a m b "FR True w sl # k" h] s1(2) ki i(3,5) tc True sr by simp
        moreover have "kinv (FR True w sl # k) (Suc h)" using ki by simp
        ultimately have "fixed (continue (erase_black_sibling False (rootp t) pa m s1)) (before (FR True w sl # k) @ addrs (Nd False sr pa t) @ after (FR True w sl # k))"
          by (rule after_round [OF _ _ _ fixup_stops]) simp_all
        then show ?thesis unfolding rec using left S FR s1(1) w0 sr by (simp add: erase_round_def Let_def addrs_plug)
      qed
    qed
  qed
qed

end
