(* ===== verification/RBDelete.thy ===== *)
theory RBDelete
  imports RBErase
begin

text \<open>
  The pointer surgery of \<open>rb_erase\<close> before the fix-up, on plugged trees, and the theorem that describes \<open>rb_erase\<close> exactly.
\<close>

section \<open>Unlinking a node with at most one child\<close>

lemma tree_at_rootp: "tree_at s q p t \<Longrightarrow> p = rootp t"
  by (rule tree_at_root)

lemma ctx_hole_parent: "ctx_at s p q k \<Longrightarrow> q = hole_parent k"
  by (cases "(s, p, q, k)" rule: ctx_at.cases) (auto simp: hole_parent_def)

lemma relink_ctx:
  assumes "ctx_at s x q k" "x \<noteq> 0" "x \<notin> set (kaddrs k)" "distinct (kaddrs k)" "x \<noteq> y"
    and "\<And>a. a \<in> set (kaddrs k) \<Longrightarrow> a \<noteq> q \<Longrightarrow> nd s' a = nd s a"
    and "q = 0 \<Longrightarrow> rb_root s' = y" "q \<noteq> 0 \<Longrightarrow> rb_root s' = rb_root s"
    and "q \<noteq> 0 \<Longrightarrow> nd s' q = (if rb_left (nd s q) = x then (nd s q)\<lparr>rb_left := y\<rparr> else (nd s q)\<lparr>rb_right := y\<rparr>)"
  shows "ctx_at s' y q k"
  by (rule ctx_at_relink [OF assms(1,5,4,6-8)]) (use assms ctx_left_test [OF assms(1-3)] in auto)

lemma unlink_plug:
  fixes s x child
  defines "s1 \<equiv> (if child \<noteq> 0 then upd child (rb_set_parent (rb_parent (nd s x))) s else s)"
  assumes "repr s (plug (Nd c l x r) k)" "l = Lf \<and> C = r \<or> r = Lf \<and> C = l" "child = rootp C" "q = hole_parent k"
    and "s2 = (if q \<noteq> 0
           then (if rb_left (nd s1 q) = x then upd q (\<lambda>n. n\<lparr>rb_left := child\<rparr>) s1 else upd q (\<lambda>n. n\<lparr>rb_right := child\<rparr>) s1)
           else s1\<lparr>rb_root := child\<rparr>)"
  shows "repr s2 (plug C k)"
proof -
  obtain p q' where z: "tree_at s q' p (Nd c l x r)" "ctx_at s p q' k" "distinct (addrs (Nd c l x r))"
    "distinct (kaddrs k)" "set (addrs (Nd c l x r)) \<inter> set (kaddrs k) = {}"
    using plug_parts [OF assms(2)] by metis
  have q: "q' = q" "p = x" "x \<noteq> 0" "rb_parent (nd s x) = q" using ctx_hole_parent [OF z(2)] z(1) assms(5) by (auto simp: node_addr_def)
  have qa: "4 dvd q" "q < 2 ^ 64" using ctx_parent_in [OF z(2)] q by (auto simp: node_addr_def)
  have C: "set (addrs C) \<subseteq> set (addrs l) \<union> set (addrs r)" "distinct (addrs C)" using assms(3) z(3) by auto
  have "tree_at s x (rb_left (nd s x)) l" "tree_at s x (rb_right (nd s x)) r" using z(1) by simp_all
  then have tc: "tree_at s x child C" using assms(3,4) tree_at_rootp by metis
  have ch: "child = 0 \<or> child \<in> set (addrs C)" using assms(4) by (cases C) auto
  have qn: "q = 0 \<or> q \<in> set (kaddrs k)" using ctx_parent_in [OF z(2)] q by auto
  have cq: "child \<noteq> 0 \<Longrightarrow> child \<noteq> q" "child \<noteq> x" "q \<noteq> x" using ch qn C z(3,5) q(3) by auto
  have n1: "nd s1 u = (if u = child \<and> child \<noteq> 0 then rb_set_parent q (nd s child) else nd s u)" for u
    by (simp add: s1_def nd_upd q(4))
  have n2: "nd s2 u = nd s1 u" if "u \<noteq> q" for u using that by (simp add: assms(6) nd_upd)
  have n2q: "q \<noteq> 0 \<Longrightarrow> nd s2 q = (if rb_left (nd s q) = x then (nd s q)\<lparr>rb_left := child\<rparr> else (nd s q)\<lparr>rb_right := child\<rparr>)"
    using cq n1 [of q] by (auto simp: assms(6) nd_upd)
  have root: "rb_root s2 = (if q = 0 then child else rb_root s)" by (simp add: assms(6) s1_def nd_upd)
  have "tree_at s2 q child C"
  proof (rule tree_at_reparent [OF tc])
    show "nd s2 a = nd s a" if "a \<in> set (addrs C)" "a \<noteq> child" for a
      using n2 [of a] n1 [of a] that C z(5) qn tree_at_nonzero [OF tc that(1)] by (cases "a = q") (auto simp: node_addr_def)
    show "rb_parent (nd s2 child) = q \<and> rb_is_black (nd s2 child) = rb_is_black (nd s child) \<and>
      rb_left (nd s2 child) = rb_left (nd s child) \<and> rb_right (nd s2 child) = rb_right (nd s child)" if "child \<noteq> 0"
      using n2 [of child] n1 [of child] cq(1) that rb_parent_set [OF qa] by simp
  qed (rule C(2))
  moreover have "ctx_at s2 child q k"
    by (rule relink_ctx [OF z(2) [unfolded q(1,2)] q(3)])
      (use z(4,5) cq C ch n1 n2 n2q root q(3) in auto)
  ultimately show ?thesis using C z(4,5) unfolding repr_plug by auto
qed

text \<open>The converse of \<^term>\<open>plug_inv\<close>: what a red-black tree gives for a subtree and its path.\<close>

lemma red_black_plug:
  assumes "red_black (plug t k)"
  shows "kinv k (bheight t)" "invh t" "invc t" "is_black t \<or> k \<noteq> [] \<and> fcolor (hd k)"
proof -
  have "kinv k (bheight t) \<and> invh t \<and> invc t \<and> (is_black t \<or> k \<noteq> [] \<and> fcolor (hd k))"
    using assms
  proof (induction k arbitrary: t)
    case (Cons f k)
    have "red_black (plug (fill f t) k)" using Cons.prems by (simp add: plug_Cons)
    from Cons.IH [OF this] show ?case by (cases f) auto
  qed (simp add: red_black_def)
  then show "kinv k (bheight t)" "invh t" "invc t" "is_black t \<or> k \<noteq> [] \<and> fcolor (hd k)" by auto
qed

lemma height_zero: "is_black t \<Longrightarrow> bheight t = 0 \<Longrightarrow> t = Lf"
  by (cases t) auto

lemma black_color: "rb_color n = RBT_BLACK \<longleftrightarrow> rb_is_black n"
  by (simp add: rb_is_black_def rb_color_def RBT_BLACK_def and_one)

lemma fixed_plug:
  assumes "repr s (plug t k)" "kinv k (bheight t)" "invh t" "invc t" "k = [] \<longrightarrow> is_black t" "k \<noteq> [] \<longrightarrow> fcolor (hd k) \<or> is_black t"
  shows "fixed (Some s) (addrs (plug t k))"
proof -
  have "invh (plug t k)" "invc (plug t k)" "k \<noteq> [] \<longrightarrow> is_black (plug t k)" using plug_inv [OF assms(2-4) refl] assms(6) by blast+
  moreover have "is_black (plug t k)" using assms(5) calculation(3) by (cases k) auto
  ultimately have "red_black (plug t k)" by (simp add: red_black_def)
  then show ?thesis using assms(1) by (auto simp: fixed_def)
qed

lemma erase_simple_correct:
  assumes "repr s (plug (Nd c l x r) k)" "red_black (plug (Nd c l x r) k)" "l = Lf \<and> C = r \<or> r = Lf \<and> C = l"
  shows "fixed (erase_simple x (rootp C) s) (before k @ addrs C @ after k)"
proof -
  note n = plug_node [OF assms(1)]
  have par: "rb_parent (nd s x) = hole_parent k" using n(6) by (cases k) (auto simp: hole_parent_def split: frame.splits)
  define q where "q = hole_parent k"
  define s1 where "s1 = (if rootp C \<noteq> 0 then upd (rootp C) (rb_set_parent (rb_parent (nd s x))) s else s)"
  define s2 where "s2 = (if q \<noteq> 0
           then (if rb_left (nd s1 q) = x then upd q (\<lambda>n. n\<lparr>rb_left := rootp C\<rparr>) s1 else upd q (\<lambda>n. n\<lparr>rb_right := rootp C\<rparr>) s1)
           else s1\<lparr>rb_root := rootp C\<rparr>)"
  have r2: "repr s2 (plug C k)" by (rule unlink_plug [OF assms(1,3) refl q_def s2_def [unfolded s1_def]])
  have e: "erase_simple x (rootp C) s = (if c then rb_erase_fixup (rootp C) q s2 else Some s2)"
    using n(3) unfolding erase_simple_def Let_def black_color par q_def [symmetric] s1_def [unfolded par, folded q_def, symmetric] s2_def [symmetric] by simp
  note i = red_black_plug [OF assms(2)]
  have C: "invh C" "invc C" "bheight C = 0" using i(2,3) assms(3) by auto
  have ad: "before k @ addrs C @ after k = addrs (plug C k)" by (simp add: addrs_plug)
  show ?thesis
  proof (cases c)
    case True
    then have "bheight (Nd c l x r) = Suc 0" using i(2) assms(3) by auto
    then have "short_at s2 C k 0" using r2 i(1) C invc_blacken [OF C(2)] by (simp add: short_at_def)
    from fixup_correct [OF this] show ?thesis unfolding e ad q_def using True by simp
  next
    case False
    then have "C = Lf" using C(3) i(3) assms(3) height_zero by auto
    moreover have "bheight (Nd c l x r) = 0" using False i(2) assms(3) by auto
    ultimately show ?thesis unfolding e ad using False fixed_plug [OF r2] i(1) C by simp
  qed
qed

section \<open>Putting the successor in the place of the node\<close>

lemma replace_plug:
  assumes "repr s (plug (Nd c l x r) k)" "node_addr m" "m \<notin> set (addrs (plug (Nd c l x r) k))"
    and "rb_parent (nd s' m) = rb_parent (nd s x)" "rb_is_black (nd s' m) = rb_is_black (nd s x)"
      "rb_left (nd s' m) = rb_left (nd s x)" "rb_right (nd s' m) = rb_right (nd s x)"
    and ch: "\<And>a. a \<noteq> 0 \<Longrightarrow> a = rb_left (nd s x) \<or> a = rb_right (nd s x) \<Longrightarrow>
      rb_parent (nd s' a) = m \<and> rb_is_black (nd s' a) = rb_is_black (nd s a) \<and> rb_left (nd s' a) = rb_left (nd s a) \<and> rb_right (nd s' a) = rb_right (nd s a)"
    and other: "\<And>a. a \<notin> {x, m, rb_left (nd s x), rb_right (nd s x), hole_parent k} \<Longrightarrow> nd s' a = nd s a"
    and "hole_parent k = 0 \<Longrightarrow> rb_root s' = m" "hole_parent k \<noteq> 0 \<Longrightarrow> rb_root s' = rb_root s"
    and "hole_parent k \<noteq> 0 \<Longrightarrow> nd s' (hole_parent k) =
      (if rb_left (nd s (hole_parent k)) = x then (nd s (hole_parent k))\<lparr>rb_left := m\<rparr> else (nd s (hole_parent k))\<lparr>rb_right := m\<rparr>)"
  shows "repr s' (plug (Nd c l m r) k)"
proof -
  obtain p q where z: "tree_at s q p (Nd c l x r)" "ctx_at s p q k" "distinct (addrs (Nd c l x r))"
    "distinct (kaddrs k)" "set (addrs (Nd c l x r)) \<inter> set (kaddrs k) = {}"
    using plug_parts [OF assms(1)] by metis
  have q: "hole_parent k = q" "p = x" "x \<noteq> 0" "rb_parent (nd s x) = q" using ctx_hole_parent [OF z(2)] z(1) by (auto simp: node_addr_def)
  have m: "m \<notin> set (addrs l)" "m \<notin> set (addrs r)" "m \<noteq> x" "m \<notin> set (kaddrs k)" using assms(3) by (auto simp: addrs_plug kaddrs_def)
  have tl: "tree_at s x (rb_left (nd s x)) l" and tr: "tree_at s x (rb_right (nd s x)) r" using z(1) by simp_all
  have ins: "rb_left (nd s x) = 0 \<or> rb_left (nd s x) \<in> set (addrs l)" "rb_right (nd s x) = 0 \<or> rb_right (nd s x) \<in> set (addrs r)"
    "q = 0 \<or> q \<in> set (kaddrs k)" using tree_at_rootp [OF tl] tree_at_rootp [OF tr] ctx_parent_in [OF z(2)] by (cases l; cases r; auto)+
  have nz: "0 \<notin> set (addrs l)" "0 \<notin> set (addrs r)" "0 \<notin> set (kaddrs k)"
    using tree_at_nonzero [OF tl] tree_at_nonzero [OF tr] ctx_at_nonzero [OF z(2)] by (auto simp: node_addr_def)
  have fl: "nd s' a = nd s a" if "a \<in> set (addrs l)" "a \<noteq> rb_left (nd s x)" for a
    by (rule other) (use that ins(2,3) z(3,5) m(1) nz q(1) in auto)
  have fr: "nd s' a = nd s a" if "a \<in> set (addrs r)" "a \<noteq> rb_right (nd s x)" for a
    by (rule other) (use that ins(1,3) z(3,5) m(2) nz q(1) in auto)
  have fk: "nd s' a = nd s a" if "a \<in> set (kaddrs k)" "a \<noteq> q" for a
    by (rule other) (use that ins(1,2) z(5) m(4) nz q(1) in auto)
  have "tree_at s' m (rb_left (nd s x)) l" by (rule tree_at_reparent [OF tl fl ch]) (use z(3) in simp_all)
  moreover have "tree_at s' m (rb_right (nd s x)) r" by (rule tree_at_reparent [OF tr fr ch]) (use z(3) in simp_all)
  ultimately have "tree_at s' q m (Nd c l m r)" using assms(2,4-7) z(1) q by simp
  moreover have "ctx_at s' m q k"
    by (rule relink_ctx [OF z(2) [unfolded q(2)] q(3)]) (use z(4,5) m(3) assms(10-12) fk q in auto)
  ultimately show ?thesis using z(3-5) m unfolding repr_plug by auto
qed

text \<open>
  The state \<open>sD\<close> in which the stores of \<open>erase_replace\<close> begin, relative to a state \<open>sA\<close> in which the successor \<open>m\<close> is unlinked:
  \<open>m\<close> has taken over the right subtree of \<open>x\<close>.
\<close>

definition detached :: "rbs \<Rightarrow> rbs \<Rightarrow> addr \<Rightarrow> addr \<Rightarrow> bool" where
  "detached sA sD x m = (rb_root sD = rb_root sA \<and> rb_right (nd sD m) = rb_right (nd sA x) \<and>
    rb_parent_color (nd sD x) = rb_parent_color (nd sA x) \<and> rb_left (nd sD x) = rb_left (nd sA x) \<and>
    (let y = rb_right (nd sA x) in (y \<noteq> 0 \<longrightarrow> rb_parent (nd sD y) = m \<and> rb_is_black (nd sD y) = rb_is_black (nd sA y) \<and>
      rb_left (nd sD y) = rb_left (nd sA y) \<and> rb_right (nd sD y) = rb_right (nd sA y)) \<and>
    (\<forall>u. u \<notin> {m, x, y} \<longrightarrow> nd sD u = nd sA u)))"

lemma erase_replace_effect:
  assumes "rb_left (nd s x) = b" "rb_parent (nd s x) = q" "x \<noteq> m" "b \<noteq> x" "b \<noteq> m" "q \<noteq> x" "q \<noteq> m" "q \<noteq> 0 \<Longrightarrow> q \<noteq> b"
  shows "nd (erase_replace x m s) u =
    (if u = x then (nd s x)\<lparr>rb_left := 0, rb_right := 0\<rparr>
     else if u = m then (nd s m)\<lparr>rb_parent_color := rb_parent_color (nd s x), rb_left := b\<rparr>
     else if u = q \<and> q \<noteq> 0 then (if rb_left (nd s q) = x then (nd s q)\<lparr>rb_left := m\<rparr> else (nd s q)\<lparr>rb_right := m\<rparr>)
     else if u = b then rb_set_parent m (nd s b) else nd s u)"
    "rb_root (erase_replace x m s) = (if q = 0 then m else rb_root s)"
proof -
  define s2 where "s2 = upd m (\<lambda>n. n\<lparr>rb_left := b\<rparr>) (upd m (\<lambda>n. n\<lparr>rb_parent_color := rb_parent_color (nd s x)\<rparr>) s)"
  define s3 where "s3 = upd b (rb_set_parent m) s2"
  define s4 where "s4 = (if q \<noteq> 0 then (if rb_left (nd s3 q) = x then upd q (\<lambda>n. n\<lparr>rb_left := m\<rparr>) s3 else upd q (\<lambda>n. n\<lparr>rb_right := m\<rparr>) s3)
    else s3\<lparr>rb_root := m\<rparr>)"
  have n2: "nd s2 v = (if v = m then (nd s m)\<lparr>rb_parent_color := rb_parent_color (nd s x), rb_left := b\<rparr> else nd s v)" for v
    by (simp add: s2_def nd_upd)
  have n3: "nd s3 v = (if v = b then rb_set_parent m (nd s b) else nd s2 v)" for v using assms(5) n2 [of b] by (simp add: s3_def nd_upd)
  have n4: "nd s4 v = (if v = q \<and> q \<noteq> 0 then (if rb_left (nd s q) = x then (nd s q)\<lparr>rb_left := m\<rparr> else (nd s q)\<lparr>rb_right := m\<rparr>) else nd s3 v)" for v
    using assms(7,8) n3 [of q] n2 [of q] by (simp add: s4_def nd_upd)
  have er: "erase_replace x m s = upd x (\<lambda>n. n\<lparr>rb_left := 0, rb_right := 0\<rparr>) s4"
    using assms n2 [of x] n3 [of x] by (simp add: erase_replace_def Let_def s4_def s3_def s2_def nd_upd)
  show "nd (erase_replace x m s) u =
    (if u = x then (nd s x)\<lparr>rb_left := 0, rb_right := 0\<rparr>
     else if u = m then (nd s m)\<lparr>rb_parent_color := rb_parent_color (nd s x), rb_left := b\<rparr>
     else if u = q \<and> q \<noteq> 0 then (if rb_left (nd s q) = x then (nd s q)\<lparr>rb_left := m\<rparr> else (nd s q)\<lparr>rb_right := m\<rparr>)
     else if u = b then rb_set_parent m (nd s b) else nd s u)"
    unfolding er nd_upd using n2 n3 n4 assms(3-7) by simp
  show "rb_root (erase_replace x m s) = (if q = 0 then m else rb_root s)" unfolding er by (simp add: nd_upd s4_def s3_def s2_def)
qed

lemma same_word: "rb_parent_color n = rb_parent_color n' \<Longrightarrow> rb_parent n = rb_parent n' \<and> rb_is_black n = rb_is_black n'"
  by (simp add: rb_parent_def rb_is_black_def rb_color_def)

lemma replace_detached:
  assumes "repr sA (plug (Nd c l x r) k)" "l \<noteq> Lf" "node_addr m" "m \<notin> set (addrs (plug (Nd c l x r) k))" "detached sA sD x m"
  shows "repr (erase_replace x m sD) (plug (Nd c l m r) k)" "rb_left (nd (erase_replace x m sD) x) = 0" "rb_right (nd (erase_replace x m sD) x) = 0"
proof -
  define b y q where "b = rb_left (nd sA x)" and "y = rb_right (nd sA x)" and "q = hole_parent k"
  note n = plug_node [OF assms(1)]
  have par: "rb_parent (nd sA x) = q" using n(6) by (cases k) (auto simp: q_def hole_parent_def split: frame.splits)
  have d: "rb_root sD = rb_root sA" "rb_right (nd sD m) = y" "rb_parent_color (nd sD x) = rb_parent_color (nd sA x)" "rb_left (nd sD x) = b"
    "y \<noteq> 0 \<Longrightarrow> rb_parent (nd sD y) = m \<and> rb_is_black (nd sD y) = rb_is_black (nd sA y) \<and> rb_left (nd sD y) = rb_left (nd sA y) \<and> rb_right (nd sD y) = rb_right (nd sA y)"
    "\<And>u. u \<noteq> m \<Longrightarrow> u \<noteq> x \<Longrightarrow> u \<noteq> y \<Longrightarrow> nd sD u = nd sA u"
    using assms(5) unfolding detached_def Let_def b_def [symmetric] y_def [symmetric] by auto
  have ds: "distinct (addrs (Nd c l x r))" "distinct (kaddrs k)" "set (addrs (Nd c l x r)) \<inter> set (kaddrs k) = {}"
    using plug_distinct [OF assms(1)] by auto
  have m: "m \<notin> set (addrs l)" "m \<notin> set (addrs r)" "m \<noteq> x" "m \<notin> set (kaddrs k)" "m \<noteq> 0" using assms(3,4) by (auto simp: addrs_plug kaddrs_def node_addr_def)
  have b: "b \<in> set (addrs l)" using n(4) assms(2) by (cases l) (auto simp: b_def)
  have y: "y = 0 \<or> y \<in> set (addrs r)" using n(5) by (cases r) (auto simp: y_def)
  have q: "q = 0 \<or> q \<in> set (kaddrs k)" by (cases k rule: before.cases) (auto simp: q_def hole_parent_def kaddrs_def)
  have b0: "b \<noteq> 0" using plug_node(2) [of sA] assms(1,2) n(4) b_def by (cases l) (auto, metis plug.simps(2) plug_node(2))
  have ne: "x \<noteq> m" "b \<noteq> x" "b \<noteq> m" "q \<noteq> x" "q \<noteq> m" "q \<noteq> 0 \<Longrightarrow> q \<noteq> b" "b \<noteq> y" "q \<noteq> 0 \<Longrightarrow> q \<noteq> y" "y \<noteq> m" "y \<noteq> x"
    using b y q ds m n(2) b0 by auto
  have px: "rb_parent (nd sD x) = q" using same_word [OF d(3)] par by simp
  note e = erase_replace_effect [OF d(4) px ne(1-6)]
  show "rb_left (nd (erase_replace x m sD) x) = 0" "rb_right (nd (erase_replace x m sD) x) = 0" by (simp_all add: e(1))
  have em: "nd (erase_replace x m sD) m = (nd sD m)\<lparr>rb_parent_color := rb_parent_color (nd sA x), rb_left := b\<rparr>" using e(1) [of m] ne d(3) by simp
  have eb: "nd (erase_replace x m sD) b = rb_set_parent m (nd sA b)" using e(1) [of b] ne d(6) [of b] by auto
  have ey: "y \<noteq> 0 \<Longrightarrow> nd (erase_replace x m sD) y = nd sD y" using e(1) [of y] ne by auto
  have eq: "q \<noteq> 0 \<Longrightarrow> nd (erase_replace x m sD) q = (if rb_left (nd sA q) = x then (nd sA q)\<lparr>rb_left := m\<rparr> else (nd sA q)\<lparr>rb_right := m\<rparr>)"
    using e(1) [of q] ne d(6) [of q] by auto
  have mw: "rb_parent (nd (erase_replace x m sD) m) = rb_parent (nd sA x)" "rb_is_black (nd (erase_replace x m sD) m) = rb_is_black (nd sA x)"
    using same_word [of "nd (erase_replace x m sD) m" "nd sA x"] by (simp_all add: em)
  show "repr (erase_replace x m sD) (plug (Nd c l m r) k)"
  proof (rule replace_plug [OF assms(1,3,4) mw])
    show "rb_left (nd (erase_replace x m sD) m) = rb_left (nd sA x)" "rb_right (nd (erase_replace x m sD) m) = rb_right (nd sA x)"
      using em d(2) by (simp_all add: b_def y_def)
    show "rb_parent (nd (erase_replace x m sD) a) = m \<and> rb_is_black (nd (erase_replace x m sD) a) = rb_is_black (nd sA a) \<and>
      rb_left (nd (erase_replace x m sD) a) = rb_left (nd sA a) \<and> rb_right (nd (erase_replace x m sD) a) = rb_right (nd sA a)"
      if "a \<noteq> 0" "a = rb_left (nd sA x) \<or> a = rb_right (nd sA x)" for a
      using that eb ey d(5) rb_parent_set [of m] assms(3) by (auto simp: b_def [symmetric] y_def [symmetric] node_addr_def)
    show "nd (erase_replace x m sD) a = nd sA a" if "a \<notin> {x, m, rb_left (nd sA x), rb_right (nd sA x), hole_parent k}" for a
      using e(1) [of a] d(6) [of a] that by (auto simp: b_def y_def q_def)
  qed (use eq e(2) d(1) in \<open>auto simp: q_def\<close>)
qed

section \<open>The successor\<close>

lemma plug_append: "plug t (k @ k') = plug (plug t k) k'"
  by (induction t k rule: plug.induct) simp_all

lemma min_path:
  "r \<noteq> Lf \<Longrightarrow> \<exists>kl cm m mr. r = plug (Nd cm Lf m mr) kl \<and> (\<forall>f\<in>set kl. \<exists>d a w. f = FL d a w)"
proof (induction r)
  case (Nd c l a r)
  show ?case
  proof (cases l)
    case Lf
    then show ?thesis by (intro exI [of _ "[]"]) auto
  next
    case (Nd c' l' a' r')
    then obtain kl cm m mr where "l = plug (Nd cm Lf m mr) kl" "\<forall>f\<in>set kl. \<exists>d a w. f = FL d a w" using Nd.IH(1) by auto
    then show ?thesis
      by (intro exI [of _ "kl @ [FL c a r]"] exI [of _ cm] exI [of _ m] exI [of _ mr]) (auto simp: plug_append)
  qed
qed simp

lemma left_path_before: "(\<forall>f\<in>set kl. \<exists>d a w. f = FL d a w) \<Longrightarrow> before kl = []"
  by (induction kl) auto

lemma rootp_plug: "kl \<noteq> [] \<Longrightarrow> rootp (plug t kl) = faddr (last kl)"
proof (induction kl arbitrary: t)
  case (Cons f kl)
  then show ?case by (cases kl; cases f) (auto simp: plug_Cons)
qed simp

lemma faddr_in: "f \<in> set kl \<Longrightarrow> faddr f \<in> set (kaddrs kl)"
  by (induction kl rule: before.induct) (auto simp: kaddrs_def)

lemma kinv_rename: "kinv (kl @ FR c x l # k) h = kinv (kl @ FR c m l # k) h"
proof (induction kl arbitrary: h)
  case (Cons f kl)
  then show ?case by (cases kl) simp_all
qed simp

lemma set_parent_twice: "rb_set_parent p (rb_set_parent p n) = rb_set_parent p n"
proof -
  have "(w AND NOT (mask 2) OR (v AND mask 2)) AND mask 2 = (v :: u64) AND mask 2" for w v
    by (rule bit_eqI) (auto simp: bit_and_iff bit_or_iff bit_not_iff bit_mask_iff)
  then show ?thesis unfolding rb_set_parent_def three by simp
qed

lemma detach_effect:
  assumes "sA = upd p (\<lambda>n. n\<lparr>rb_left := child\<rparr>) s1" "rb_right (nd sA x) = y" "node_addr m"
    and "x \<noteq> m" "x \<noteq> y" "y \<noteq> m" "p \<noteq> m" "p \<noteq> x"
    and "child \<noteq> 0 \<Longrightarrow> child \<noteq> m \<and> child \<noteq> x \<and> child \<noteq> y \<and> child \<noteq> p \<and> rb_set_parent p (nd sA child) = nd sA child"
  shows "detached sA (erase_detach x m child p s1) x m"
proof -
  have pl: "rb_left (nd sA p) = child" by (simp add: assms(1) nd_upd)
  define s3 where "s3 = upd y (rb_set_parent m) (upd m (\<lambda>n. n\<lparr>rb_right := y\<rparr>) sA)"
  define s4 where "s4 = upd p (\<lambda>n. n\<lparr>rb_left := child\<rparr>) s3"
  define s5 where "s5 = (if child \<noteq> 0 then upd child (rb_set_parent p) s4 else s4)"
  define sD where "sD = upd y (rb_set_parent m) (upd m (\<lambda>n. n\<lparr>rb_right := y\<rparr>) s5)"
  have n3: "nd s3 u = (if u = y then rb_set_parent m (nd sA y) else if u = m then (nd sA m)\<lparr>rb_right := y\<rparr> else nd sA u)" for u
    using assms(6) by (simp add: s3_def nd_upd)
  have n4: "nd s4 u = (if u = p then (nd s3 p)\<lparr>rb_left := child\<rparr> else nd s3 u)" for u by (simp add: s4_def nd_upd)
  have n5: "nd s5 u = (if u = child \<and> child \<noteq> 0 then nd sA child else nd s4 u)" for u
    using assms(9) n4 [of child] n3 [of child] by (simp add: s5_def nd_upd)
  have nD: "nd sD u = (if u = y then rb_set_parent m (nd s5 y) else if u = m then (nd s5 m)\<lparr>rb_right := y\<rparr> else nd s5 u)" for u
    using assms(6) by (simp add: sD_def nd_upd)
  have e: "erase_detach x m child p s1 = sD"
  proof -
    have "rb_right (nd s5 x) = y" using n5 [of x] n4 [of x] n3 [of x] assms(2,4,5,8,9) by auto
    moreover have "x \<noteq> child \<or> child = 0" using assms(9) by blast
    ultimately show ?thesis using assms(2,4-8) unfolding erase_detach_def Let_def assms(1) [symmetric] sD_def s5_def s4_def s3_def
      by (auto simp: nd_upd)
  qed
  have l3: "(nd s3 p)\<lparr>rb_left := child\<rparr> = nd s3 p" using pl n3 [of p] assms(7) by (cases "nd s3 p") auto
  have "nd s5 u = nd s3 u" for u using n5 [of u] n4 [of u] n3 [of u] l3 assms(9) by auto
  then have D: "nd sD u = (if u = y then rb_set_parent m (rb_set_parent m (nd sA y)) else if u = m then (nd sA m)\<lparr>rb_right := y\<rparr> else nd sA u)" for u
    using nD [of u] n3 assms(6) by auto
  have "rb_root sD = rb_root sA" by (simp add: sD_def s5_def s4_def s3_def nd_upd)
  then show ?thesis unfolding e detached_def Let_def assms(2) D using assms(3-6) rb_parent_set [of m] by (simp add: node_addr_def)
qed

lemma near_detached:
  assumes "sA = upd x (\<lambda>n. n\<lparr>rb_right := child\<rparr>) s1" "t = (if child \<noteq> 0 then upd child (rb_set_parent m) s1 else s1)" "node_addr m"
    and "x \<noteq> m" "child \<noteq> 0 \<Longrightarrow> child \<noteq> m \<and> child \<noteq> x" "rb_right (nd s1 m) = child"
  shows "detached sA t x m" "rb_parent (nd t m) = rb_parent (nd s1 m)"
proof -
  have m0: "m \<noteq> 0" using assms(3) by (simp add: node_addr_def)
  have t: "nd t u = (if u = child \<and> child \<noteq> 0 then rb_set_parent m (nd s1 child) else nd s1 u)" for u by (simp add: assms(2) nd_upd)
  have a: "nd sA u = (if u = x then (nd s1 x)\<lparr>rb_right := child\<rparr> else nd s1 u)" for u by (simp add: assms(1) nd_upd)
  have m: "nd t m = nd s1 m" "nd t x = nd s1 x" using t [of m] t [of x] assms(5) by auto
  then show "rb_parent (nd t m) = rb_parent (nd s1 m)" by simp
  have "rb_root t = rb_root sA" by (simp add: assms(1,2) nd_upd)
  moreover have c: "rb_right (nd sA x) = child" "rb_parent_color (nd sA x) = rb_parent_color (nd s1 x)" "rb_left (nd sA x) = rb_left (nd s1 x)"
    using a [of x] by simp_all
  moreover have "child \<noteq> 0 \<Longrightarrow> nd t child = rb_set_parent m (nd sA child)" using t [of child] a [of child] assms(5) by simp
  moreover have "nd t u = nd sA u" if "u \<notin> {m, x, child}" for u using that t [of u] a [of u] by simp
  ultimately show "detached sA t x m"
    unfolding detached_def Let_def c m using assms(3,6) rb_parent_set [of m] by (simp add: node_addr_def)
qed

lemma erase_two_eq:
  assumes "leftmost (rb_right (nd s x)) s = Some m" "child = rb_right (nd s m)" "p = rb_parent (nd s m)"
    and "s1 = (if child \<noteq> 0 then upd child (rb_set_parent p) s else s)"
    and "D = (if m \<noteq> rb_right (nd s1 x) then (p, erase_detach x m child p s1)
      else let t = (if child \<noteq> 0 then upd child (rb_set_parent m) s1 else s1) in (rb_parent (nd t m), t))"
  shows "erase_two x s = (if rb_is_black (nd s m) then rb_erase_fixup child (fst D) (erase_replace x m (snd D)) else Some (erase_replace x m (snd D)))"
  unfolding assms(2-5) erase_two_def assms(1) black_color Let_def bind.bind_lunit split_beta by (rule refl)

text \<open>
  The tree after the pointer surgery of \<open>erase_two\<close>, and the parent the fix-up starts with: the parent of the successor, or the removed
  node itself when the successor is its right child.
\<close>

lemma erase_two_surgery:
  assumes "repr s (plug (Nd cm Lf m mr) (kl @ FR c x l # k))" "l \<noteq> Lf" "\<forall>f\<in>set kl. \<exists>d a w. f = FL d a w"
  shows "\<exists>s3. erase_two x s = (if cm then rb_erase_fixup (rootp mr) (if kl = [] then x else hole_parent kl) s3 else Some s3) \<and>
    repr s3 (plug mr (kl @ FR c m l # k)) \<and> rb_left (nd s3 x) = 0 \<and> rb_right (nd s3 x) = 0"
proof -
  define K child r where "K = kl @ FR c x l # k" and "child = rootp mr" and "r = plug (Nd cm Lf m mr) kl"
  define p where "p = hole_parent K"
  have x: "repr s (plug (Nd c l x r) k)" using assms(1) by (simp add: plug_append r_def)
  note nx = plug_node [OF x] note nm = plug_node [OF assms(1) [folded K_def]]
  have pm: "rb_parent (nd s m) = p" using nm(6) by (cases K) (auto simp: p_def hole_parent_def split: frame.splits)
  have p0: "p = (if kl = [] then x else hole_parent kl)" by (cases kl) (auto simp: p_def K_def hole_parent_def)
  define s1 where "s1 = (if child \<noteq> 0 then upd child (rb_set_parent (rb_parent (nd s m))) s else s)"
  define sA where "sA = (if p \<noteq> 0
           then (if rb_left (nd s1 p) = m then upd p (\<lambda>n. n\<lparr>rb_left := child\<rparr>) s1 else upd p (\<lambda>n. n\<lparr>rb_right := child\<rparr>) s1)
           else s1\<lparr>rb_root := child\<rparr>)"
  have A: "repr sA (plug mr K)" by (rule unlink_plug [OF assms(1) [folded K_def] _ child_def p_def sA_def [unfolded s1_def]]) simp
  then have A': "repr sA (plug (Nd c l x (plug mr kl)) k)" by (simp add: K_def plug_append)
  have ds: "distinct (addrs (plug (Nd cm Lf m mr) K))" using assms(1) by (simp add: repr_def K_def)
  have fresh: "m \<notin> set (addrs (plug (Nd c l x (plug mr kl)) k))" using ds by (auto simp: addrs_plug K_def plug_append)
  have ch: "child = 0 \<or> child \<in> set (addrs mr)" by (cases mr) (auto simp: child_def)
  have mx: "m \<noteq> x" "child \<noteq> 0 \<Longrightarrow> child \<noteq> m \<and> child \<noteq> x" using ds ch by (auto simp: addrs_plug K_def plug_append)
  have n1: "nd s1 u = (if u = child \<and> child \<noteq> 0 then rb_set_parent p (nd s child) else nd s u)" for u
    by (simp add: s1_def nd_upd pm)
  have rx: "rb_right (nd s1 x) = rootp r" using n1 [of x] mx(2) nx(5) by auto
  define D where "D = (if m \<noteq> rb_right (nd s1 x) then (p, erase_detach x m child p s1)
    else let t = (if child \<noteq> 0 then upd child (rb_set_parent m) s1 else s1) in (rb_parent (nd t m), t))"
  have "fst D = p \<and> detached sA (snd D) x m"
  proof (cases kl)
    case Nil
    have px: "p = x" "x \<noteq> 0" "rb_right (nd s1 x) = m" using p0 Nil nx(2) rx by (auto simp: r_def)
    have "rb_left (nd s1 x) \<noteq> m" using n1 [of x] mx(2) nx(4) ds assms(2) by (cases l) (auto simp: addrs_plug K_def Nil)
    then have sA: "sA = upd x (\<lambda>n. n\<lparr>rb_right := child\<rparr>) s1" using px by (simp add: sA_def)
    have nr: "rb_right (nd s m) = child" using nm(5) by (simp add: child_def)
    have "nd s1 m = nd s m" using n1 [of m] mx(2) by auto
    then show ?thesis using near_detached [OF sA refl nm(1) mx(1) [symmetric] mx(2)] nr px pm by (simp add: D_def Let_def)
  next
    case (Cons f kl')
    then obtain d a w where f: "f = FL d a w" using assms(3) by auto
    have pa: "p = a" "p \<noteq> 0" using p0 Cons f plug_lookup(1) [of s cm Lf m mr f] assms(1) by (auto simp: hole_parent_def)
    have lm: "rb_left (nd s p) = m" using plug_lookup(5) [of s cm Lf m mr f] assms(1) Cons f pa by auto
    define y where "y = faddr (last kl)"
    have ry: "rootp r = y" "rootp (plug mr kl) = y" using rootp_plug Cons by (auto simp: r_def y_def)
    have yk: "y \<in> set (kaddrs kl)" "p \<in> set (kaddrs kl)" using faddr_in [of "last kl" kl] faddr_in [of f kl] Cons f pa by (auto simp: y_def)
    have ne: "y \<noteq> m" "y \<noteq> x" "p \<noteq> m" "p \<noteq> x" "child \<noteq> 0 \<Longrightarrow> child \<noteq> y \<and> child \<noteq> p" 
      using ds yk ch by (auto simp: addrs_plug K_def plug_append kaddrs_def)
    have sA: "sA = upd p (\<lambda>n. n\<lparr>rb_left := child\<rparr>) s1" using pa lm n1 [of p] ne(5) by (auto simp: sA_def)
    have "rb_right (nd sA x) = y" using plug_node(5) [OF A'] ry by simp
    then have "detached sA (erase_detach x m child p s1) x m"
      by (rule detach_effect [OF sA _ nm(1)]) (use mx ne n1 [of child] set_parent_twice in \<open>auto simp: sA nd_upd\<close>)
    then show ?thesis using rx ry ne(1) by (simp add: D_def)
  qed
  then have D: "fst D = p" "detached sA (snd D) x m" by auto
  have left: "leftmost (rb_right (nd s x)) s = Some m"
  proof -
    obtain c' l' a' r' where r: "r = Nd c' l' a' r'" using addrs_plug [of "Nd cm Lf m mr" kl] by (cases r) (auto simp: r_def)
    have "repr s (plug r (FR c x l # k))" using x by simp
    from leftmost_correct [OF this [unfolded r]] show ?thesis
      using nx(5) r left_path_before [OF assms(3)] addrs_plug [of "Nd cm Lf m mr" kl] by (simp add: r_def)
  qed
  have e: "erase_two x s = (if cm then rb_erase_fixup child p (erase_replace x m (snd D)) else Some (erase_replace x m (snd D)))"
    using erase_two_eq [OF left _ pm [symmetric] s1_def [unfolded pm] D_def] nm(3,5) D(1) by (simp add: child_def)
  note rd = replace_detached [OF A' assms(2) nm(1) fresh D(2)]
  have "repr (erase_replace x m (snd D)) (plug mr (kl @ FR c m l # k))" using rd(1) by (simp add: plug_append)
  then show ?thesis using e rd(2,3) unfolding p0 child_def by blast
qed

section \<open>Deletion\<close>

text \<open>The node has two children, and the right one is a black leaf.\<close>

definition loses_balance :: "rbs \<Rightarrow> addr \<Rightarrow> bool" where
  "loses_balance s x = (let y = rb_right (nd s x) in
    rb_left (nd s x) \<noteq> 0 \<and> y \<noteq> 0 \<and> rb_is_black (nd s y) \<and> rb_left (nd s y) = 0 \<and> rb_right (nd s y) = 0)"

lemma rootp_zero: "repr s (plug t k) \<Longrightarrow> rootp t = 0 \<longleftrightarrow> t = Lf"
  using plug_node(2) by (cases t) auto

lemma loses_balance_iff:
  assumes "repr s (plug (Nd c l x r) k)"
  shows "loses_balance s x \<longleftrightarrow> l \<noteq> Lf \<and> (\<exists>a. r = Nd True Lf a Lf)"
proof -
  have lr: "repr s (plug l (FL c x r # k))" "repr s (plug r (FR c x l # k))" using assms by simp_all
  note n = plug_node [OF assms]
  show ?thesis
  proof (cases r)
    case Lf
    then show ?thesis using n(5) by (simp add: loses_balance_def)
  next
    case (Nd d a y b)
    have ab: "repr s (plug a (FL d y b # FR c x l # k))" "repr s (plug b (FR d y a # FR c x l # k))" using lr(2) Nd by simp_all
    note y = plug_node [OF lr(2) [unfolded Nd]]
    show ?thesis using n(4,5) y(2-5) rootp_zero [OF lr(1)] rootp_zero [OF ab(1)] rootp_zero [OF ab(2)]
      unfolding loses_balance_def Let_def Nd by auto
  qed
qed

lemma fixup_red:
  assumes "repr s (plug (Nd False l a r) (f # k))"
  shows "rb_erase_fixup a p s = rb_erase_fixup a (hole_parent (f # k)) s"
  using plug_node [OF assms] by (subst (1 2) fixup_rec) (simp add: black_or_null_def)

lemma fixup_detached:
  assumes "repr s (plug Lf (f # k))" "x \<noteq> 0" "rb_left (nd s x) = 0" "rb_right (nd s x) = 0"
  shows "rb_erase_fixup 0 x s = Some s"
  using root_not_in_hole(2) [OF assms(1)] assms(2-4) by (subst fixup_rec) (simp add: black_or_null_def erase_round_def far_def)

definition erased :: "rbs option \<Rightarrow> addr list \<Rightarrow> bool \<Rightarrow> bool" where
  "erased res xs ok = (\<exists>s T. res = Some s \<and> repr s T \<and> addrs T = xs \<and> (red_black T \<longleftrightarrow> ok))"

lemma fixed_erased: "fixed res xs \<Longrightarrow> erased res xs True"
  by (auto simp: fixed_def erased_def)

lemma erase_two_correct:
  assumes "repr s (plug (Nd c l x r) k)" "red_black (plug (Nd c l x r) k)" "l \<noteq> Lf" "r \<noteq> Lf"
  shows "erased (erase_two x s) (before k @ addrs l @ addrs r @ after k) (\<not> loses_balance s x)"
proof -
  obtain kl cm m mr where r: "r = plug (Nd cm Lf m mr) kl" and kl: "\<forall>f\<in>set kl. \<exists>d a w. f = FL d a w" using min_path [OF assms(4)] by blast
  define K where "K = kl @ FR c m l # k"
  have P: "plug (Nd c l x r) k = plug (Nd cm Lf m mr) (kl @ FR c x l # k)" by (simp add: plug_append r)
  have s: "repr s (plug (Nd cm Lf m mr) (kl @ FR c x l # k))" using assms(1) P by simp
  obtain s3 where s3: "erase_two x s = (if cm then rb_erase_fixup (rootp mr) (if kl = [] then x else hole_parent kl) s3 else Some s3)"
    "repr s3 (plug mr K)" "rb_left (nd s3 x) = 0" "rb_right (nd s3 x) = 0"
    using erase_two_surgery [OF s assms(3) kl] unfolding K_def by blast
  have ad: "before k @ addrs l @ addrs r @ after k = addrs (plug mr K)"
    using left_path_before [OF kl] by (simp add: addrs_plug K_def plug_append r)
  note i = red_black_plug [OF assms(2) [unfolded P]]
  have mr: "invh mr" "invc mr" "bheight mr = 0" using i(2,3) by auto
  have k: "kinv K (bheight (Nd cm Lf m mr))" using i(1) kinv_rename unfolding K_def by blast
  obtain g K' where K': "K = g # K'" by (cases K) (auto simp: K_def)
  note nx = plug_node [OF assms(1)] note nm = plug_node [OF s]
  have lb: "loses_balance s x \<longleftrightarrow> kl = [] \<and> cm \<and> mr = Lf"
  proof (cases kl)
    case Nil
    then show ?thesis using loses_balance_iff [OF assms(1)] assms(3) r by auto
  next
    case (Cons f kl')
    then have "length (addrs r) \<ge> 2" using kl unfolding r addrs_plug by auto
    then show ?thesis using loses_balance_iff [OF assms(1)] Cons by auto
  qed
  show ?thesis
  proof (cases "cm \<and> kl = [] \<and> mr = Lf")
    case True
    have "erase_two x s = Some s3" using fixup_detached [of s3 g K' x] s3 K' True nx(2) by simp
    moreover have "\<not> red_black (plug mr K)"
    proof
      assume "red_black (plug mr K)"
      from red_black_plug(1) [OF this] have "bheight l = 0" using True by (simp add: K_def)
      moreover have "bheight l = 1" using i(1) True by simp
      ultimately show False by simp
    qed
    ultimately show ?thesis unfolding ad erased_def using lb True s3(2) by blast
  next
    case False
    have "fixed (erase_two x s) (addrs (plug mr K))"
    proof (cases cm)
      case cm: True
      have sh: "short_at s3 mr K 0" using s3(2) k mr invc_blacken [OF mr(2)] cm by (simp add: short_at_def)
      have "rb_erase_fixup (rootp mr) (if kl = [] then x else hole_parent kl) s3 = rb_erase_fixup (rootp mr) (hole_parent K) s3"
      proof (cases kl)
        case Nil
        then obtain d a b e where "mr = Nd d a b e" using False cm by (cases mr) auto
        moreover from this have "mr = Nd False a b e" using mr(3) by (cases d) simp_all
        ultimately show ?thesis using fixup_red [of s3 a b e g K' x] s3(2) K' Nil by simp
      next
        case (Cons f kl')
        then show ?thesis by (simp add: K_def hole_parent_def)
      qed
      then show ?thesis using fixup_correct [OF sh] s3(1) cm by simp
    next
      case cm: False
      then have "mr = Lf" using i(3) mr(3) height_zero by auto
      then show ?thesis using fixed_plug [OF s3(2)] k s3(1) cm K' by simp
    qed
    then show ?thesis unfolding ad using fixed_erased lb False by auto
  qed
qed

text \<open>
  C13: \<open>rb_erase\<close> of a node of a red-black tree always returns, and the in-order sequence of the result is the old one without the node.
  The result is a red-black tree again exactly when the node did not have two children of which the right one is a black leaf.
\<close>

theorem rb_erase_exact:
  assumes "repr s t" "red_black t" "addrs t = xs @ x # ys"
  shows "\<exists>s' T. rb_erase x s = Some s' \<and> repr s' T \<and> addrs T = xs @ ys \<and> (red_black T \<longleftrightarrow> \<not> loses_balance s x)"
proof -
  obtain c l r k where t: "t = plug (Nd c l x r) k" using plug_at_addr [of x t "[]"] assms(3) by auto
  have rp: "repr s (plug (Nd c l x r) k)" and rb: "red_black (plug (Nd c l x r) k)" using assms(1,2) t by simp_all
  have d: "distinct (xs @ x # ys)" using assms(1,3) by (simp add: repr_def)
  have "xs @ x # ys = (before k @ addrs l) @ x # (addrs r @ after k)" using assms(3) t by (simp add: addrs_plug)
  moreover have "x \<notin> set xs" "x \<notin> set ys" using d by auto
  ultimately have xy: "xs = before k @ addrs l" "ys = addrs r @ after k" using append_Cons_eq_iff [of x xs ys "before k @ addrs l" "addrs r @ after k"] by blast+
  note n = plug_node [OF rp]
  have lr: "repr s (plug l (FL c x r # k))" "repr s (plug r (FR c x l # k))" using rp by simp_all
  note z = rootp_zero [OF lr(1)] rootp_zero [OF lr(2)]
  have "erased (rb_erase x s) (xs @ ys) (\<not> loses_balance s x)"
  proof (cases "l = Lf \<or> r = Lf")
    case True
    have "rb_erase x s = erase_simple x (rootp (if l = Lf then r else l)) s" using n(2,4,5) z True by (auto simp: rb_erase_def)
    moreover have "fixed (erase_simple x (rootp (if l = Lf then r else l)) s) (before k @ addrs (if l = Lf then r else l) @ after k)"
      by (rule erase_simple_correct [OF rp rb]) (use True in auto)
    moreover have "before k @ addrs (if l = Lf then r else l) @ after k = xs @ ys" using xy True by auto
    moreover have "\<not> loses_balance s x" using loses_balance_iff [OF rp] True by auto
    ultimately show ?thesis using fixed_erased by simp
  next
    case False
    then have "rb_erase x s = erase_two x s" using n(2,4,5) z by (auto simp: rb_erase_def)
    then show ?thesis using erase_two_correct [OF rp rb] False xy by simp
  qed
  then show ?thesis by (auto simp: erased_def)
qed

text \<open>
  The root with two black leaves below it: removing the root loses the balance, removing a leaf does not.
\<close>

definition rb_three :: rbs where
  "rb_three = \<lparr>rb_heap = (\<lambda>_. \<lparr>rb_parent_color = 9, rb_right = 0, rb_left = 0\<rparr>)(8 := \<lparr>rb_parent_color = 1, rb_right = 12, rb_left = 4\<rparr>), rb_root = 8\<rparr>"

lemma rb_three_repr: "repr rb_three (Nd True (Nd True Lf 4 Lf) 8 (Nd True Lf 12 Lf))"
  by (simp add: repr_def rb_three_def node_addr_def rb_parent_def rb_is_black_def rb_color_def)

theorem rb_erase_exact_witness:
  "(\<exists>s' T. rb_erase 8 rb_three = Some s' \<and> repr s' T \<and> addrs T = [4, 12] \<and> \<not> red_black T) \<and>
   (\<exists>s' T. rb_erase 4 rb_three = Some s' \<and> repr s' T \<and> addrs T = [8, 12] \<and> red_black T)"
proof -
  have rb: "red_black (Nd True (Nd True Lf 4 Lf) 8 (Nd True Lf 12 Lf))" by (simp add: red_black_def)
  have l: "loses_balance rb_three 8" "\<not> loses_balance rb_three 4"
    by (simp_all add: loses_balance_def rb_three_def rb_is_black_def rb_color_def)
  show ?thesis
    using rb_erase_exact [OF rb_three_repr rb, of "[4]" 8 "[12]"] rb_erase_exact [OF rb_three_repr rb, of "[]" 4 "[8, 12]"] l by simp
qed

end
