(* ===== verification/Bio.thy ===== *)
theory Bio
  imports Prelude
begin

text \<open>
  Splitting a transfer into block operations (kernel/dev/blk/bio.c).  A transfer of \<open>len\<close> bytes from byte \<open>offset\<close> of block
  \<open>blockno\<close> becomes a chain of bios, one per block, built back to front.  The pointer \<open>b_next\<close> is the rest of the HOL list and the
  page pointer \<open>b_page\<close>, null in a new bio, is set where the bio is executed.

  Allocations: \<open>m\<close> counts the objects that the kernel allocators can still deliver; a null result of an allocator is the case \<open>m = 0\<close>.
\<close>

section \<open>Operations\<close>

definition BLK_SIZE :: u32 where "BLK_SIZE = 4096"

record bio =
  b_blockno :: u32
  b_offset :: u32
  b_len :: u32

definition bio_alloc :: "u32 \<Rightarrow> u32 \<Rightarrow> u32 \<Rightarrow> bio list \<Rightarrow> nat \<Rightarrow> (bio list \<times> nat) kres" where
  "bio_alloc blockno offset len next m =
    (if m = 0 then Inl (Panic ''bio_make'')
     else Inr (\<lparr>b_blockno = blockno, b_offset = offset, b_len = len\<rparr> # next, m - 1))"

text \<open>The loop over the blocks in the middle.\<close>

function bio_mid :: "u32 \<Rightarrow> u32 \<Rightarrow> bio list \<Rightarrow> nat \<Rightarrow> (u32 \<times> bio list \<times> nat) kres" where
  "bio_mid blockno count bio_list m =
    (if count > 1
     then kbind (bio_alloc (blockno - 1) 0 BLK_SIZE bio_list m) (\<lambda>(bl, m1). bio_mid (blockno - 1) (count - 1) bl m1)
     else Inr (blockno, bio_list, m))"
  by pat_completeness auto
termination
  by (relation "measure (\<lambda>(_, c, _). unat c)") (auto simp: unat_sub word_le_nat_alt word_less_nat_alt)

declare bio_mid.simps [simp del]

definition bio_list_make :: "u32 \<Rightarrow> u32 \<Rightarrow> u32 \<Rightarrow> nat \<Rightarrow> (bio list \<times> nat) kres" where
  "bio_list_make blockno offset len m =
    (if len = 0 then Inr ([], m)
     else let blockno = blockno + offset div BLK_SIZE;
              offset = offset mod BLK_SIZE;
              count = (offset + len - 1) div BLK_SIZE + 1
          in if count = 1 then bio_alloc blockno offset len [] m
             else if count > 1 then
               let blockno = blockno + count in
               kbind (bio_alloc (blockno - 1) 0 ((offset + len - 1) mod BLK_SIZE + 1) [] m) (\<lambda>(bl, m1).
               kbind (bio_mid (blockno - 1) (count - 1) bl m1) (\<lambda>(bno, bl, m2).
               bio_alloc (bno - 1) offset (BLK_SIZE - offset) bl m2))
             else Inl (Panic ''bio_list_make NONE!''))"

section \<open>The chain covers the range\<close>

text \<open>The byte positions on the device that a bio transfers, in order.\<close>

definition bio_bytes :: "bio \<Rightarrow> nat list" where
  "bio_bytes b = [unat (b_blockno b) * 4096 + unat (b_offset b) ..< unat (b_blockno b) * 4096 + unat (b_offset b) + unat (b_len b)]"

definition bio_ok :: "bio \<Rightarrow> bool" where
  "bio_ok b = (0 < unat (b_len b) \<and> unat (b_offset b) + unat (b_len b) \<le> 4096)"

lemma upt_append: "a \<le> b \<Longrightarrow> b \<le> c \<Longrightarrow> [a ..< b] @ [b ..< c] = [a ..< c]"
  by (metis le_add_diff_inverse upt_add_eq_append)

lemma unat_blk: "unat BLK_SIZE = 4096"
  by (simp add: BLK_SIZE_def)

lemma bio_mid_correct:
  assumes "unat count = Suc n" "unat blockno = B + n" "n \<le> m"
  shows "\<exists>bl. bio_mid blockno count acc m = Inr (of_nat B, bl @ acc, m - n) \<and> length bl = n \<and> (\<forall>b\<in>set bl. bio_ok b) \<and>
    concat (map bio_bytes bl) = [B * 4096 ..< (B + n) * 4096]"
  using assms
proof (induction n arbitrary: count blockno acc m)
  case 0
  have "blockno = of_nat (unat blockno)" by simp
  then have "blockno = of_nat B" using 0(2) by simp
  then show ?case using 0 by (subst bio_mid.simps) (auto simp: word_less_nat_alt)
next
  case (Suc n)
  have c: "count > 1" "unat (count - 1) = Suc n" "unat (blockno - 1) = B + n"
    using Suc.prems by (auto simp: word_less_nat_alt unat_sub word_le_nat_alt)
  have le: "n \<le> m - 1" using Suc.prems(3) by simp
  let ?b = "\<lparr>b_blockno = blockno - 1, b_offset = 0, b_len = BLK_SIZE\<rparr>"
  obtain bl where bl: "bio_mid (blockno - 1) (count - 1) (?b # acc) (m - 1) = Inr (of_nat B, bl @ ?b # acc, m - 1 - n)" "length bl = n"
    "\<forall>b\<in>set bl. bio_ok b" "concat (map bio_bytes bl) = [B * 4096 ..< (B + n) * 4096]"
    using Suc.IH [OF c(2,3) le, of "?b # acc"] by blast
  have "bio_mid blockno count acc m = Inr (of_nat B, (bl @ [?b]) @ acc, m - Suc n)"
    using bl(1) c(1) Suc.prems(3) by (subst bio_mid.simps) (simp add: bio_alloc_def)
  moreover have "bio_bytes ?b = [(B + n) * 4096 ..< (B + Suc n) * 4096]" "bio_ok ?b"
    by (simp_all add: bio_bytes_def bio_ok_def c(3) unat_blk add_mult_distrib add.commute)
  moreover have "[B * 4096 ..< (B + Suc n) * 4096] = [B * 4096 ..< (B + n) * 4096] @ [(B + n) * 4096 ..< (B + Suc n) * 4096]"
    using upt_add_eq_append [of "B * 4096" "(B + n) * 4096" 4096] by (simp add: algebra_simps)
  ultimately show ?case using bl(2-4) by (intro exI [of _ "bl @ [?b]"]) auto
qed

lemma bio_chain:
  assumes "unat offset mod 4096 + unat len \<le> 2 ^ 32" "unat blockno * 4096 + unat offset + unat len \<le> 2 ^ 44" "unat len div 4096 + 2 \<le> m"
  shows "\<exists>bl m'. bio_list_make blockno offset len m = Inr (bl, m') \<and> m' + length bl = m \<and> length bl \<le> unat len div 4096 + 2 \<and> (\<forall>b\<in>set bl. bio_ok b) \<and>
    concat (map bio_bytes bl) = [unat blockno * 4096 + unat offset ..< unat blockno * 4096 + unat offset + unat len]"
proof (cases "len = 0")
  case True
  then show ?thesis by (simp add: bio_list_make_def)
next
  case False
  define off where "off = offset mod BLK_SIZE"
  define bno where "bno = blockno + offset div BLK_SIZE"
  define last where "last = off + len - 1"
  define N where "N = (unat off + unat len - 1) div 4096"
  have l0: "0 < unat len" using False by (simp add: unat_gt_0)
  have off: "unat off = unat offset mod 4096" by (simp add: off_def BLK_SIZE_def unat_mod_distrib)
  have "unat (offset div BLK_SIZE) = unat offset div 4096" by (simp add: BLK_SIZE_def unat_div_distrib)
  then have bno: "unat bno = unat blockno + unat offset div 4096" unfolding bno_def unat_word_ariths(1) using assms(2) l0 by simp
  have "unat (len - 1) = unat len - 1" using l0 by (simp add: unat_sub word_le_nat_alt)
  moreover have "last = off + (len - 1)" by (simp add: last_def)
  ultimately have last: "unat last = unat off + unat len - 1"
    using assms(1) off l0 by (simp add: unat_word_ariths(1))
  have cnt: "unat (last div BLK_SIZE + 1) = Suc N"
  proof -
    have "unat (last div BLK_SIZE) = N" by (simp add: BLK_SIZE_def unat_div_distrib last N_def)
    moreover have "N < 2 ^ 20" using assms(1) off l0 by (simp add: N_def)
    ultimately show ?thesis by (simp add: unat_word_ariths(1))
  qed
  define start where "start = unat blockno * 4096 + unat offset"
  have st: "start = unat bno * 4096 + unat off" unfolding start_def bno off by simp
  have e: "bio_list_make blockno offset len m = (let count = last div BLK_SIZE + 1 in
      if count = 1 then bio_alloc bno off len [] m
      else if count > 1 then kbind (bio_alloc (bno + count - 1) 0 (last mod BLK_SIZE + 1) [] m) (\<lambda>(bl, m1).
               kbind (bio_mid (bno + count - 1) (count - 1) bl m1) (\<lambda>(b, bl, m2). bio_alloc (b - 1) off (BLK_SIZE - off) bl m2))
      else Inl (Panic ''bio_list_make NONE!''))"
    using False by (simp add: bio_list_make_def off_def bno_def last_def Let_def)
  show ?thesis
  proof (cases N)
    case 0
    then have "last div BLK_SIZE + 1 = 1" using cnt by (metis unat_1 One_nat_def word_unat_eq_iff)
    moreover have "unat off + unat len \<le> 4096" using 0 unfolding N_def by (simp add: div_eq_0_iff)
    ultimately show ?thesis using assms(3) st l0
      by (simp add: e bio_alloc_def bio_ok_def bio_bytes_def start_def [symmetric])
  next
    case (Suc n)
    define count where "count = last div BLK_SIZE + 1"
    define R where "R = (unat off + unat len - 1) mod 4096"
    have NR: "unat off + unat len - 1 = N * 4096 + R" by (simp add: N_def R_def)
    have fin: "start + unat len = (unat bno + N) * 4096 + R + 1" using NR l0 st by (simp add: add_mult_distrib)
    then have hi: "unat bno + N < 2 ^ 32" using assms(2) by (simp add: start_def)
    have c: "unat count = N + 1" "count \<noteq> 1" "count > 1" using cnt Suc by (auto simp: count_def word_less_nat_alt)
    have top: "unat (bno + count - 1) = unat bno + N"
    proof -
      have "unat (count - 1) = N" using c by (simp add: unat_sub word_le_nat_alt)
      then show ?thesis using hi unat_word_ariths(1) [of bno "count - 1"] by (simp add: add_diff_eq)
    qed
    have c1: "unat (count - 1) = Suc n" using c Suc by (simp add: unat_sub word_le_nat_alt)
    have lm: "unat (last mod BLK_SIZE + 1) = R + 1"
    proof -
      have "unat (last mod BLK_SIZE) = R" by (simp add: BLK_SIZE_def unat_mod_distrib last R_def)
      moreover have "R < 4096" by (simp add: R_def)
      ultimately show ?thesis by (simp add: unat_word_ariths(1))
    qed
    have fm: "unat (BLK_SIZE - off) = 4096 - unat off" using off by (simp add: BLK_SIZE_def unat_sub word_le_nat_alt)
    have mN: "N + 1 \<le> m" using assms(3) off unfolding N_def by simp
    let ?l = "\<lparr>b_blockno = bno + count - 1, b_offset = 0, b_len = last mod BLK_SIZE + 1\<rparr>"
    let ?f = "\<lparr>b_blockno = bno, b_offset = off, b_len = BLK_SIZE - off\<rparr>"
    have "n \<le> m - 1" "unat (bno + count - 1) = (unat bno + 1) + n" using mN Suc top by auto
    then obtain bl where bl: "bio_mid (bno + count - 1) (count - 1) [?l] (m - 1) = Inr (of_nat (unat bno + 1), bl @ [?l], m - 1 - n)" "length bl = n"
      "\<forall>b\<in>set bl. bio_ok b" "concat (map bio_bytes bl) = [(unat bno + 1) * 4096 ..< (unat bno + 1 + n) * 4096]"
      using bio_mid_correct [OF c1, of "bno + count - 1" "unat bno + 1" "m - 1" "[?l]"] by blast
    have "bio_list_make blockno offset len m = Inr (?f # bl @ [?l], m - 1 - n - 1)"
      unfolding e count_def [symmetric] Let_def using c(2,3) mN bl(1) Suc by (simp add: bio_alloc_def)
    moreover have "m - 1 - n - 1 + length (?f # bl @ [?l]) = m" using bl(2) mN Suc by simp
    moreover have "length (?f # bl @ [?l]) \<le> unat len div 4096 + 2" using bl(2) Suc off unfolding N_def by simp
    moreover have "\<forall>b\<in>set (?f # bl @ [?l]). bio_ok b" using bl(3) fm lm off by (auto simp: bio_ok_def R_def)
    moreover have "concat (map bio_bytes (?f # bl @ [?l])) = [start ..< start + unat len]"
    proof -
      define A B where "A = (unat bno + 1) * 4096" and "B = (unat bno + N) * 4096"
      have "bio_bytes ?f = [start ..< A]" using fm st off by (simp add: bio_bytes_def A_def add.commute)
      moreover have "bio_bytes ?l = [B ..< start + unat len]" using top lm fin by (simp add: bio_bytes_def B_def)
      moreover have "concat (map bio_bytes bl) = [A ..< B]" using bl(4) Suc by (simp add: A_def B_def)
      moreover have "start \<le> A" "A \<le> B" "B \<le> start + unat len" using st off Suc fin by (auto simp: A_def B_def)
      ultimately show ?thesis by (simp add: upt_append)
    qed
    ultimately show ?thesis unfolding start_def by blast
  qed
qed

text \<open>
  C34: \<open>bio_list_make\<close> splits a transfer that ends within \<open>2 ^ 32\<close> blocks, with its length and its position in the first block together at most
  \<open>2 ^ 32\<close> (beyond that the 32-bit sum of the source wraps), into a chain of non-empty bios each of which
  stays in its block; together, in the order of the chain, they transfer exactly the bytes of the range.  Enough objects for the bios are free.
\<close>

theorem bio_list_make_correct:
  assumes "unat offset mod 4096 + unat len \<le> 2 ^ 32" "unat blockno * 4096 + unat offset + unat len \<le> 2 ^ 44" "unat len div 4096 + 2 \<le> m"
  shows "\<exists>bl m'. bio_list_make blockno offset len m = Inr (bl, m') \<and> m' + length bl = m \<and> length bl \<le> unat len div 4096 + 2 \<and>
    (\<forall>b\<in>set bl. bio_ok b) \<and>
    concat (map bio_bytes bl) = [unat blockno * 4096 + unat offset ..< unat blockno * 4096 + unat offset + unat len]"
  by (rule bio_chain [OF assms])

theorem bio_list_make_correct_witness:
  "\<exists>bl m'. bio_list_make 3 4094 5 10 = Inr (bl, m') \<and> m' + length bl = 10 \<and> length bl \<le> Suc 1 \<and> (\<forall>b\<in>set bl. bio_ok b) \<and>
    concat (map bio_bytes bl) = [16382, 16383, 16384, 16385, 16386]"
  using bio_list_make_correct [of 4094 5 3 10] by simp

end
