(* ===== verification/BufCache.thy ===== *)
theory BufCache
  imports Bio Containers Rwlock
begin

text \<open>
  The buffer cache of a block device (kernel/dev/blk/buf.c): a hash table of buffers by block number, two usage lists and the list
  of dirty buffers.  Buffers are addresses; \<open>gd_bufs\<close> holds their contents.  Memory that the allocators deliver keeps its old contents,
  so the flags and the page of a new buffer start with arbitrary values.

  \<open>gd_mem\<close> counts the objects that the kernel allocators can still deliver, \<open>gd_next\<close> is the address of the next one.  The device behind
  the cache is reached by the driver operation \<open>ll_rw\<close> alone; \<open>gd_dev\<close> is its state.  The memory at the pointer \<open>vaddr\<close> of a request is
  \<open>rq_mem\<close>, and \<open>rq_pos\<close> is how far the pointer has advanced.  The spin lock of the cache makes each operation
  atomic; the sleep lock of a buffer is the flag \<open>bh_locked\<close>.
\<close>

section \<open>State\<close>

definition BH_Dirty :: u32 where "BH_Dirty = push_bit 0 1"
definition BH_New :: u32 where "BH_New = push_bit 1 1"
definition BH_Fixed :: u32 where "BH_Fixed = push_bit 3 1"
definition BH_Visited :: u32 where "BH_Visited = push_bit 31 1"
definition BH_Active :: u32 where "BH_Active = push_bit 30 1"

type_synonym page_data = "nat \<Rightarrow> u8"

record buf_head =
  bh_flags :: u32
  bh_blockno :: u32
  bh_locked :: bool
  bh_refcnt :: int
  bh_page :: page_data

record request =
  rq_flags :: u32
  rq_bio :: "bio list"
  rq_completed :: bool
  rq_mem :: "u8 list"
  rq_pos :: nat

record 'd gendisk =
  gd_dev :: 'd
  gd_queue :: "request list"
  gd_bufs :: "nat \<Rightarrow> buf_head"
  gd_hash :: "nat hash_table"
  gd_active :: "nat list"
  gd_inactive :: "nat list"
  gd_active_count :: u32
  gd_inactive_count :: u32
  gd_dirty :: "nat list"
  gd_mem :: nat
  gd_next :: nat

definition set_buf :: "nat \<Rightarrow> (buf_head \<Rightarrow> buf_head) \<Rightarrow> 'd gendisk \<Rightarrow> 'd gendisk" where
  "set_buf a f gd = gd\<lparr>gd_bufs := (gd_bufs gd)(a := f (gd_bufs gd a))\<rparr>"

section \<open>Operations\<close>

text \<open>\<open>buf_pin\<close> sleeps while the buffer is locked: the value \<open>None\<close>.\<close>

definition buf_pin :: "nat \<Rightarrow> 'd gendisk \<Rightarrow> 'd gendisk option" where
  "buf_pin b gd = (if bh_locked (gd_bufs gd b) then None else Some (set_buf b (\<lambda>h. h\<lparr>bh_locked := True\<rparr>) gd))"

definition buf_unpin :: "nat \<Rightarrow> 'd gendisk \<Rightarrow> 'd gendisk" where
  "buf_unpin b gd = set_buf b (\<lambda>h. h\<lparr>bh_locked := False\<rparr>) gd"

definition buf_fixed :: "nat \<Rightarrow> 'd gendisk \<Rightarrow> 'd gendisk" where
  "buf_fixed b gd = set_buf b (\<lambda>h. h\<lparr>bh_flags := SET_FLAG (bh_flags h) BH_Fixed\<rparr>) gd"

definition buf_is_fixed :: "nat \<Rightarrow> 'd gendisk \<Rightarrow> u32" where
  "buf_is_fixed b gd = TEST_FLAG (bh_flags (gd_bufs gd b)) BH_Fixed"

definition buf_unfixed :: "nat \<Rightarrow> 'd gendisk \<Rightarrow> 'd gendisk" where
  "buf_unfixed b gd = set_buf b (\<lambda>h. h\<lparr>bh_flags := CLEAR_FLAG (bh_flags h) BH_Fixed\<rparr>) gd"

definition buf_struct_free :: "'d gendisk \<Rightarrow> 'd gendisk" where
  "buf_struct_free gd = gd\<lparr>gd_mem := gd_mem gd + 1\<rparr>"

definition buf_used :: "nat \<Rightarrow> 'd gendisk \<Rightarrow> 'd gendisk" where
  "buf_used b gd = set_buf b (\<lambda>h. h\<lparr>bh_flags := CLEAR_FLAG (bh_flags h) BH_New\<rparr>) gd"

definition buf_is_new :: "nat \<Rightarrow> 'd gendisk \<Rightarrow> bool" where
  "buf_is_new b gd = (TEST_FLAG (bh_flags (gd_bufs gd b)) BH_New \<noteq> 0)"

text \<open>\<open>hash_init\<close> takes an object for the bucket array; its failure is not checked.\<close>

definition bhash_init :: "'d gendisk \<Rightarrow> 'd gendisk kres" where
  "bhash_init gd = kbind (hash_init 32 (gd_mem gd \<noteq> 0)) (\<lambda>(_, ht).
    Inr (gd\<lparr>gd_hash := ht, gd_mem := gd_mem gd - 1, gd_active := [], gd_inactive := [], gd_active_count := 0, gd_inactive_count := 0,
            gd_dirty := []\<rparr>))"

definition bh_key :: "'d gendisk \<Rightarrow> nat \<Rightarrow> int" where
  "bh_key gd a = uint (bh_blockno (gd_bufs gd a))"

definition bhash_empty :: "u32 \<Rightarrow> 'd gendisk \<Rightarrow> bool kres" where
  "bhash_empty blockno gd = hash_empty (gd_hash gd) (uint blockno)"

definition bhash_lru :: "nat \<Rightarrow> 'd gendisk \<Rightarrow> 'd gendisk" where
  "bhash_lru b gd =
    (let fl = bh_flags (gd_bufs gd b) in
     if TEST_FLAG fl BH_Active = BH_Active then gd
     else if TEST_FLAG fl BH_Visited = BH_Visited then
       (set_buf b (\<lambda>h. h\<lparr>bh_flags := SET_FLAG fl BH_Active\<rparr>) gd)
         \<lparr>gd_inactive := remove1 b (gd_inactive gd), gd_active := b # remove1 b (gd_active gd), gd_active_count := gd_active_count gd + 1\<rparr>
     else
       (set_buf b (\<lambda>h. h\<lparr>bh_flags := SET_FLAG fl BH_Visited\<rparr>) gd)
         \<lparr>gd_inactive := b # gd_inactive gd, gd_inactive_count := gd_inactive_count gd + 1\<rparr>)"

definition bhash_add :: "nat \<Rightarrow> 'd gendisk \<Rightarrow> 'd gendisk kres" where
  "bhash_add b gd = kbind (hash_add_head (uint (bh_blockno (gd_bufs gd b))) b (gd_hash gd)) (\<lambda>ht. Inr (gd\<lparr>gd_hash := ht\<rparr>))"

definition bhash_del :: "nat \<Rightarrow> 'd gendisk \<Rightarrow> 'd gendisk" where
  "bhash_del b gd = gd\<lparr>gd_hash := hash_del_node b (gd_hash gd)\<rparr>"

definition bhash_find :: "u32 \<Rightarrow> 'd gendisk \<Rightarrow> (nat option \<times> 'd gendisk) kres" where
  "bhash_find blockno gd = kbind (hash_find (bh_key gd) (uint blockno) (gd_hash gd)) (\<lambda>r.
    case r of None \<Rightarrow> Inr (None, gd) | Some b \<Rightarrow> Inr (Some b, bhash_lru b gd))"

definition buf_alloc :: "u32 \<Rightarrow> 'd gendisk \<Rightarrow> (nat \<times> 'd gendisk) kres" where
  "buf_alloc blockno gd =
    (if gd_mem gd = 0 then Inl (Panic ''buf.c - bget - kmem_cache_alloc failed'')
     else let b = gd_next gd;
              gd1 = (set_buf b (\<lambda>h. h\<lparr>bh_blockno := blockno, bh_locked := False, bh_refcnt := 0,
                       bh_flags := SET_FLAG (bh_flags h) BH_New\<rparr>) gd)\<lparr>gd_mem := gd_mem gd - 1, gd_next := b + 1\<rparr>
          in if gd_mem gd1 = 0 then Inl (Panic ''buf_alloc'')
             else Inr (b, gd1\<lparr>gd_mem := gd_mem gd1 - 1\<rparr>))"

definition buf_get :: "u32 \<Rightarrow> 'd gendisk \<Rightarrow> (nat \<times> 'd gendisk) kres" where
  "buf_get blockno gd = kbind (bhash_find blockno gd) (\<lambda>(r, gd1).
    kbind (case r of
        Some b \<Rightarrow> Inr (b, gd1)
      | None \<Rightarrow> kbind (buf_alloc blockno gd1) (\<lambda>(b, gd2). kbind (bhash_add b gd2) (\<lambda>gd3. Inr (b, bhash_lru b gd3))))
    (\<lambda>(b, gd4). Inr (b, set_buf b (\<lambda>h. h\<lparr>bh_refcnt := bh_refcnt h + 1\<rparr>) gd4)))"

definition buf_release :: "nat \<Rightarrow> bool \<Rightarrow> 'd gendisk \<Rightarrow> 'd gendisk" where
  "buf_release b is_dirty gd =
    (if b = 0 then gd
     else let gd1 = buf_used b (set_buf b (\<lambda>h. h\<lparr>bh_refcnt := bh_refcnt h - 1\<rparr>) gd) in
     if is_dirty then
       let gd2 = set_buf b (\<lambda>h. h\<lparr>bh_flags := SET_FLAG (bh_flags h) BH_Dirty\<rparr>) gd1 in
       gd2\<lparr>gd_dirty := b # (if gd_dirty gd2 \<noteq> [] then remove1 b (gd_dirty gd2) else gd_dirty gd2)\<rparr>
     else gd1)"

section \<open>The flags\<close>

lemma flag_bit [simp]:
  "bit (SET_FLAG f g) k \<longleftrightarrow> bit f k \<or> bit g k"
  "bit (CLEAR_FLAG f g) k \<longleftrightarrow> bit f k \<and> \<not> bit g k"
  "bit (TEST_FLAG f g) k \<longleftrightarrow> bit f k \<and> bit g k"
  using bit_imp_le_length [of f k]
  by (auto simp: SET_FLAG_def CLEAR_FLAG_def TEST_FLAG_def bit_or_iff bit_and_iff bit_not_iff)

lemma bh_bits [simp]:
  "bit BH_Dirty k \<longleftrightarrow> k = 0" "bit BH_New k \<longleftrightarrow> k = 1" "bit BH_Fixed k \<longleftrightarrow> k = 3" "bit BH_Visited k \<longleftrightarrow> k = 31" "bit BH_Active k \<longleftrightarrow> k = 30"
  unfolding BH_Dirty_def BH_New_def BH_Fixed_def BH_Visited_def BH_Active_def bit_push_bit_iff bit_1_iff by auto

definition newb :: "'d gendisk \<Rightarrow> nat \<Rightarrow> bool" where
  "newb gd a = bit (bh_flags (gd_bufs gd a)) 1"

lemma buf_is_new_iff: "buf_is_new a gd \<longleftrightarrow> newb gd a"
  unfolding buf_is_new_def newb_def bit_eq_iff [of "TEST_FLAG _ _"] by auto

section \<open>The cache as a map\<close>

definition entries :: "'v hash_table \<Rightarrow> 'v set" where
  "entries ht = (\<Union>xs\<in>set (ht_heads ht). set xs)"

lemma entries_index: "entries ht = (\<Union>j<length (ht_heads ht). set (ht_heads ht ! j))"
  unfolding entries_def set_conv_nth [of "ht_heads ht"] by blast

lemma entries_nth: "i < length (ht_heads ht) \<Longrightarrow> v \<in> set (ht_heads ht ! i) \<Longrightarrow> v \<in> entries ht"
  by (auto simp: entries_def)

lemma hash_cong:
  assumes "\<And>v. v \<in> entries ht \<Longrightarrow> f v = g v" "hash_wf f ht"
  shows "hash_wf g ht" "hash_map g ht = hash_map f ht"
proof -
  have e: "map f (ht_heads ht ! i) = map g (ht_heads ht ! i)" if "i < length (ht_heads ht)" for i
    using assms(1) entries_nth [OF that] by simp
  have fg: "g v = f v" if "i < length (ht_heads ht)" "v \<in> set (ht_heads ht ! i)" for i v using assms(1) [OF entries_nth [OF that]] by simp
  have w: "ht_size ht > 0" "length (ht_heads ht) = nat (ht_size ht)" "ht_count ht = int (sum_list (map length (ht_heads ht)))"
    "\<And>i. i < length (ht_heads ht) \<Longrightarrow> distinct (map f (ht_heads ht ! i))"
    "\<And>i v. i < length (ht_heads ht) \<Longrightarrow> v \<in> set (ht_heads ht ! i) \<Longrightarrow> 0 \<le> f v \<and> nat (f v mod ht_size ht) = i"
    using assms(2) by (auto simp: hash_wf_def)
  show "hash_wf g ht" unfolding hash_wf_def
  proof (intro conjI allI impI ballI)
    fix i assume i: "i < length (ht_heads ht)"
    show "distinct (map g (ht_heads ht ! i))" using w(4) [OF i] e [OF i] by simp
    fix v assume v: "v \<in> set (ht_heads ht ! i)"
    show "0 \<le> g v" "nat (g v mod ht_size ht) = i" using w(5) [OF i v] fg [OF i v] by simp_all
  qed (use w(1-3) in simp_all)
  have find: "find (\<lambda>v. g v = k) xs = find (\<lambda>v. f v = k) xs" if "\<And>v. v \<in> set xs \<Longrightarrow> g v = f v" for xs k
    using that by (intro find_cong) simp_all
  show "hash_map g ht = hash_map f ht"
  proof
    fix k show "hash_map g ht k = hash_map f ht k"
    proof (cases "0 \<le> k")
      case True
      show ?thesis using find [OF fg [OF hash_slot_wf(2) [OF assms(2) True]]] True by (simp add: hash_map_def)
    qed (simp add: hash_map_def)
  qed
qed

lemma hash_map_entry:
  assumes "hash_wf f ht" "hash_map f ht k = Some v"
  shows "v \<in> entries ht" "f v = k"
proof -
  have k: "0 \<le> k" using assms(2) by (auto simp: hash_map_def split: if_splits)
  then have "find (\<lambda>v. f v = k) (ht_heads ht ! nat (k mod ht_size ht)) = Some v" using assms(2) by (simp add: hash_map_def)
  then have "v \<in> set (ht_heads ht ! nat (k mod ht_size ht))" "f v = k" by (auto simp: find_Some_iff)
  then show "v \<in> entries ht" "f v = k" using entries_nth [OF hash_slot_wf(2) [OF assms(1) k]] by auto
qed

lemma entry_hash_map:
  assumes "hash_wf f ht" "v \<in> entries ht"
  shows "hash_map f ht (f v) = Some v"
proof -
  obtain i where i: "i < length (ht_heads ht)" "v \<in> set (ht_heads ht ! i)"
    using assms(2) unfolding entries_def by (metis UN_E in_set_conv_nth)
  then have "0 \<le> f v" "nat (f v mod ht_size ht) = i" "distinct (map f (ht_heads ht ! i))" using assms(1) by (auto simp: hash_wf_def)
  then show ?thesis using find_map_distinct [OF _ i(2)] by (simp add: hash_map_def)
qed

lemma entries_add_head:
  assumes "hash_add_head k v ht = Inr t" "hash_wf f ht" "0 \<le> k"
  shows "entries t = insert v (entries ht)"
proof -
  define i where "i = nat (k mod ht_size ht)"
  have i: "i < length (ht_heads ht)" "t = ht\<lparr>ht_heads := (ht_heads ht)[i := v # ht_heads ht ! i], ht_count := ht_count ht + 1\<rparr>"
    using assms(1) hash_slot_wf [OF assms(2,3)] by (auto simp: hash_add_head_def i_def)
  have e: "entries t = (\<Union>j<length (ht_heads ht). set (ht_heads t ! j))" "entries ht = (\<Union>j<length (ht_heads ht). set (ht_heads ht ! j))"
    using i(2) entries_index [of t] entries_index [of ht] by simp_all
  have h: "set (ht_heads t ! j) = (if j = i then insert v (set (ht_heads ht ! j)) else set (ht_heads ht ! j))" if "j < length (ht_heads ht)" for j
    using that i by (simp add: nth_list_update)
  show ?thesis unfolding e using i(1) h by (auto split: if_splits)
qed

definition cache_ok :: "'d gendisk \<Rightarrow> bool" where
  "cache_ok gd = (hash_wf (bh_key gd) (gd_hash gd) \<and> 0 < gd_next gd \<and> (\<forall>a\<in>entries (gd_hash gd). 0 < a \<and> a < gd_next gd))"

definition cached :: "'d gendisk \<Rightarrow> u32 \<Rightarrow> nat option" where
  "cached gd b = hash_map (bh_key gd) (gd_hash gd) (uint b)"

text \<open>Updates that keep the table and the block numbers of its entries keep the cache.\<close>

lemma cache_frame:
  assumes "cache_ok gd" "gd_hash gd' = gd_hash gd" "gd_next gd \<le> gd_next gd'"
    and "\<And>a. a \<in> entries (gd_hash gd) \<Longrightarrow> bh_blockno (gd_bufs gd' a) = bh_blockno (gd_bufs gd a)"
  shows "cache_ok gd'" "cached gd' = cached gd"
proof -
  have k: "\<And>a. a \<in> entries (gd_hash gd) \<Longrightarrow> bh_key gd a = bh_key gd' a" using assms(4) by (simp add: bh_key_def)
  note c = hash_cong [OF k]
  have w: "hash_wf (bh_key gd) (gd_hash gd)" using assms(1) by (simp add: cache_ok_def)
  show "cache_ok gd'" using c(1) [OF _ w] assms(1-3) by (auto simp: cache_ok_def)
  show "cached gd' = cached gd" using c(2) [OF _ w] assms(2) by (simp add: cached_def fun_eq_iff)
qed

lemma cached_entry:
  assumes "cache_ok gd" "cached gd b = Some a"
  shows "a \<in> entries (gd_hash gd)" "bh_blockno (gd_bufs gd a) = b" "0 < a" "a < gd_next gd"
  using hash_map_entry [of "bh_key gd" "gd_hash gd" "uint b" a] assms by (auto simp: cache_ok_def cached_def bh_key_def word_uint_eq_iff)

lemma cached_inj: "cache_ok gd \<Longrightarrow> cached gd b = Some a \<Longrightarrow> cached gd c = Some a \<Longrightarrow> b = c"
  using cached_entry(2) by metis

text \<open>The part of a buffer that the usage lists do not touch.\<close>

definition same_data :: "buf_head \<Rightarrow> buf_head \<Rightarrow> bool" where
  "same_data h h' = (bh_blockno h' = bh_blockno h \<and> bh_locked h' = bh_locked h \<and> bh_page h' = bh_page h \<and> (\<forall>n<30. bit (bh_flags h') n = bit (bh_flags h) n))"

lemma same_data_refl [simp]: "same_data h h"
  by (simp add: same_data_def)

lemma bhash_lru_frame:
  "gd_hash (bhash_lru b gd) = gd_hash gd" "gd_dev (bhash_lru b gd) = gd_dev gd" "gd_dirty (bhash_lru b gd) = gd_dirty gd"
  "gd_mem (bhash_lru b gd) = gd_mem gd" "gd_next (bhash_lru b gd) = gd_next gd" "gd_queue (bhash_lru b gd) = gd_queue gd"
  "same_data (gd_bufs gd a) (gd_bufs (bhash_lru b gd) a)"
  by (auto simp: bhash_lru_def set_buf_def Let_def same_data_def)

text \<open>\<open>buf_get\<close> finds the buffer of a block or makes a new one, and leaves everything else alone.\<close>

definition got :: "u32 \<Rightarrow> 'd gendisk \<Rightarrow> nat \<Rightarrow> 'd gendisk \<Rightarrow> bool" where
  "got b gd a gd' = (cache_ok gd' \<and> cached gd' = (cached gd)(b \<mapsto> a) \<and> gd_dev gd' = gd_dev gd \<and> gd_dirty gd' = gd_dirty gd \<and>
    gd_queue gd' = gd_queue gd \<and> gd_mem gd \<le> gd_mem gd' + 2 \<and> gd_mem gd' \<le> gd_mem gd \<and> gd_next gd \<le> gd_next gd' \<and>
    (\<forall>x. x \<noteq> a \<longrightarrow> same_data (gd_bufs gd x) (gd_bufs gd' x)) \<and>
    (case cached gd b of Some a0 \<Rightarrow> a0 = a \<and> same_data (gd_bufs gd a) (gd_bufs gd' a)
      | None \<Rightarrow> a = gd_next gd \<and> newb gd' a \<and> \<not> bh_locked (gd_bufs gd' a)))"

lemma same_data_trans: "same_data h h1 \<Longrightarrow> same_data h1 h2 \<Longrightarrow> same_data h h2"
  by (simp add: same_data_def)

lemma same_data_blockno: "same_data h h' \<Longrightarrow> bh_blockno h' = bh_blockno h"
  by (simp add: same_data_def)

lemma buf_get_correct:
  assumes "cache_ok gd" "2 \<le> gd_mem gd"
  shows "\<exists>a gd'. buf_get b gd = Inr (a, gd') \<and> got b gd a gd'"
proof -
  have w: "hash_wf (bh_key gd) (gd_hash gd)" using assms(1) by (simp add: cache_ok_def)
  have f: "hash_find (bh_key gd) (uint b) (gd_hash gd) = Inr (cached gd b)" using hash_head.look_law [OF w] by (simp add: cached_def)
  show ?thesis
  proof (cases "cached gd b")
    case (Some a)
    define gd' where "gd' = set_buf a (\<lambda>h. h\<lparr>bh_refcnt := bh_refcnt h + 1\<rparr>) (bhash_lru a gd)"
    have e: "buf_get b gd = Inr (a, gd')" using f Some by (simp add: buf_get_def bhash_find_def gd'_def)
    have sd: "same_data (gd_bufs gd x) (gd_bufs gd' x)" for x
      using bhash_lru_frame(7) [of gd x a] by (auto simp: gd'_def set_buf_def same_data_def)
    have fr: "gd_hash gd' = gd_hash gd" "gd_next gd' = gd_next gd" "gd_dev gd' = gd_dev gd" "gd_dirty gd' = gd_dirty gd" "gd_queue gd' = gd_queue gd"
      "gd_mem gd' = gd_mem gd" by (simp_all add: gd'_def set_buf_def bhash_lru_frame)
    have c: "cache_ok gd'" "cached gd' = cached gd" using cache_frame [OF assms(1) fr(1)] fr(2) same_data_blockno [OF sd] by auto
    have "got b gd a gd'" unfolding got_def using c fr sd Some by (auto simp: fun_upd_idem)
    then show ?thesis using e by blast
  next
    case None
    define a where "a = gd_next gd"
    define g2 where "g2 = (set_buf a (\<lambda>h. h\<lparr>bh_blockno := b, bh_locked := False, bh_refcnt := 0, bh_flags := SET_FLAG (bh_flags h) BH_New\<rparr>) gd)
      \<lparr>gd_mem := gd_mem gd - 2, gd_next := a + 1\<rparr>"
    have al: "buf_alloc b gd = Inr (a, g2)" using assms(2) by (simp add: buf_alloc_def a_def g2_def Let_def set_buf_def numeral_2_eq_2)
    have ne: "a \<notin> entries (gd_hash gd)" using assms(1) by (auto simp: cache_ok_def a_def)
    have g2: "gd_hash g2 = gd_hash gd" "\<And>x. x \<noteq> a \<Longrightarrow> gd_bufs g2 x = gd_bufs gd x" "gd_next g2 = a + 1" "bh_blockno (gd_bufs g2 a) = b"
      by (simp_all add: g2_def set_buf_def)
    have bn: "bh_blockno (gd_bufs g2 x) = bh_blockno (gd_bufs gd x)" if "x \<in> entries (gd_hash gd)" for x using g2(2) [of x] that ne by metis
    have c2: "cache_ok g2" "cached g2 = cached gd" using cache_frame [OF assms(1) g2(1) _ bn] g2(3) by (auto simp: a_def)
    have w2: "hash_wf (bh_key g2) (gd_hash g2)" using c2(1) by (simp add: cache_ok_def)
    have ka: "bh_key g2 a = uint b" by (simp add: bh_key_def g2(4))
    obtain t where t: "hash_add_head (uint b) a (gd_hash g2) = Inr t" "hash_wf (bh_key g2) t" "hash_map (bh_key g2) t = (hash_map (bh_key g2) (gd_hash g2))(uint b \<mapsto> a)"
      using hash_head.add_law [OF w2, of a] None c2(2) unfolding ka by (auto simp: cached_def fun_eq_iff)
    have et: "entries t = insert a (entries (gd_hash g2))" by (rule entries_add_head [OF t(1) w2]) simp
    define g3 where "g3 = g2\<lparr>gd_hash := t\<rparr>"
    have k3: "bh_key g3 = bh_key g2" by (simp add: bh_key_def g3_def fun_eq_iff)
    have c3: "cache_ok g3" "cached g3 = (cached gd)(b \<mapsto> a)"
      using t(2,3) et c2 g2(3) a_def assms(1) unfolding cache_ok_def cached_def k3 by (auto simp: g3_def fun_eq_iff cached_def word_uint_eq_iff)
    define gd' where "gd' = set_buf a (\<lambda>h. h\<lparr>bh_refcnt := bh_refcnt h + 1\<rparr>) (bhash_lru a g3)"
    have e: "buf_get b gd = Inr (a, gd')"
      using f None al t(1) g2(4) by (simp add: buf_get_def bhash_find_def bhash_add_def gd'_def g3_def)
    have sd: "same_data (gd_bufs g3 x) (gd_bufs gd' x)" for x
      using bhash_lru_frame(7) [of g3 x a] by (auto simp: gd'_def set_buf_def same_data_def)
    have fr: "gd_hash gd' = gd_hash g3" "gd_next gd' = a + 1" "gd_dev gd' = gd_dev gd" "gd_dirty gd' = gd_dirty gd" "gd_queue gd' = gd_queue gd"
      "gd_mem gd' = gd_mem gd - 2" "gd_next g3 = a + 1" by (simp_all add: gd'_def set_buf_def bhash_lru_frame g3_def g2_def)
    have c: "cache_ok gd'" "cached gd' = cached g3" using cache_frame [OF c3(1) fr(1)] fr(2,7) same_data_blockno [OF sd] by auto
    have n: "newb gd' a" "\<not> bh_locked (gd_bufs gd' a)"
      using sd [of a] by (simp_all add: newb_def same_data_def g3_def g2_def set_buf_def)
    have "same_data (gd_bufs gd x) (gd_bufs gd' x)" if "x \<noteq> a" for x using sd [of x] g2(2) [OF that] by (simp add: g3_def)
    then have "got b gd a gd'" unfolding got_def using c c3(2) fr n None assms(2) by (auto simp: a_def)
    then show ?thesis using e by blast
  qed
qed

end
