(* ===== verification/Gendisk.thy ===== *)
theory Gendisk
  imports BufCache
begin

text \<open>
  Block devices: requests (kernel/dev/blk/request.c), their execution by the I/O thread over the buffer cache
  (kernel/dev/blk/gendisk.c) and the interface of the block layer (kernel/dev/blk/blk_dev.c).  The driver is the argument \<open>ll_rw\<close>,
  the function pointer of \<open>struct gendisk_operations\<close>; locale \<open>block_driver\<close> is what the layer relies on.  The results are an \<open>option\<close>:
  \<open>None\<close> stands for a call that does not return, because a buffer stays locked or the loop over the bios does not end.
\<close>

section \<open>Requests\<close>

definition DEV_READ :: u32 where "DEV_READ = 0"
definition DEV_WRITE :: u32 where "DEV_WRITE = 1"

definition rq_set_complete :: "request \<Rightarrow> request" where "rq_set_complete rq = rq\<lparr>rq_completed := True\<rparr>"

definition rq_test_complete :: "request \<Rightarrow> bool" where "rq_test_complete rq = rq_completed rq"

definition rq_clear_complete :: "request \<Rightarrow> request" where "rq_clear_complete rq = rq\<lparr>rq_completed := False\<rparr>"

definition request_alloc :: "'d gendisk \<Rightarrow> (request option \<times> 'd gendisk)" where
  "request_alloc gd =
    (if gd_mem gd = 0 then (None, gd)
     else (Some \<lparr>rq_flags = 0, rq_bio = [], rq_completed = False, rq_mem = [], rq_pos = 0\<rparr>, gd\<lparr>gd_mem := gd_mem gd - 1\<rparr>))"

definition rq_append :: "request \<Rightarrow> 'd gendisk \<Rightarrow> 'd gendisk" where
  "rq_append rq gd = gd\<lparr>gd_queue := gd_queue gd @ [rq]\<rparr>"

definition make_request :: "u32 \<Rightarrow> u32 \<Rightarrow> u32 \<Rightarrow> u8 list \<Rightarrow> u32 \<Rightarrow> 'd gendisk \<Rightarrow> 'd gendisk kres" where
  "make_request blockno offset len vaddr rw gd =
    (case request_alloc gd of
       (None, _) \<Rightarrow> Inl (Panic ''make_request request_alloc!'')
     | (Some rq, gd1) \<Rightarrow>
         kbind (bio_list_make blockno offset len (gd_mem gd1)) (\<lambda>(bios, m).
         Inr (rq_append (rq\<lparr>rq_flags := rw, rq_bio := bios, rq_mem := vaddr\<rparr>) (gd1\<lparr>gd_mem := m\<rparr>))))"

definition rq_del :: "'d gendisk \<Rightarrow> 'd gendisk" where
  "rq_del gd = gd\<lparr>gd_mem := gd_mem gd + 1\<rparr>"

definition get_next_rq :: "'d gendisk \<Rightarrow> request option \<times> 'd gendisk" where
  "get_next_rq gd = (case gd_queue gd of [] \<Rightarrow> (None, gd) | rq # rest \<Rightarrow> (Some rq, gd\<lparr>gd_queue := rest\<rparr>))"

definition rq_queue_init :: "'d gendisk \<Rightarrow> 'd gendisk" where
  "rq_queue_init gd = gd\<lparr>gd_queue := []\<rparr>"

section \<open>The I/O thread\<close>

type_synonym 'd driver = "'d \<Rightarrow> u32 \<Rightarrow> page_data \<Rightarrow> u32 \<Rightarrow> ('d \<times> page_data) kres"

definition gd_ll_rw :: "'d driver \<Rightarrow> nat \<Rightarrow> u32 \<Rightarrow> u32 \<Rightarrow> 'd gendisk \<Rightarrow> 'd gendisk kres" where
  "gd_ll_rw ll_rw a blockno rw gd = kbind (ll_rw (gd_dev gd) blockno (bh_page (gd_bufs gd a)) rw) (\<lambda>(d, pg).
    Inr (set_buf a (\<lambda>h. h\<lparr>bh_page := pg\<rparr>) (gd\<lparr>gd_dev := d\<rparr>)))"

definition splice :: "nat \<Rightarrow> 'a list \<Rightarrow> 'a list \<Rightarrow> 'a list" where
  "splice pos xs ys = take pos ys @ xs @ drop (pos + length xs) ys"

text \<open>The switch on the kind of the request, with the buffer locked; a copy outside the page or the caller's memory is a fault.\<close>

definition bio_transfer :: "'d driver \<Rightarrow> bio \<Rightarrow> nat \<Rightarrow> request \<Rightarrow> 'd gendisk \<Rightarrow> (request \<times> 'd gendisk) kres" where
  "bio_transfer ll_rw bio buf rq gd =
    (let off = unat (b_offset bio); len = unat (b_len bio) in
     if rq_flags rq = DEV_READ then
       kbind (if buf_is_new buf gd then gd_ll_rw ll_rw buf (b_blockno bio) (rq_flags rq) gd else Inr gd) (\<lambda>gd1.
       if off + len > 4096 \<or> rq_pos rq + len > length (rq_mem rq) then Inl (Fault ''memcpy'')
       else Inr (rq\<lparr>rq_mem := splice (rq_pos rq) (map (bh_page (gd_bufs gd1 buf)) [off ..< off + len]) (rq_mem rq)\<rparr>,
                 buf_unpin buf (buf_release buf False gd1)))
     else if rq_flags rq = DEV_WRITE then
       kbind (if \<not> (b_offset bio = 0 \<and> b_len bio = BLK_SIZE) \<and> buf_is_new buf gd then gd_ll_rw ll_rw buf (b_blockno bio) DEV_READ gd else Inr gd) (\<lambda>gd1.
       if off + len > 4096 \<or> rq_pos rq + len > length (rq_mem rq) then Inl (Fault ''memcpy'')
       else let gd2 = set_buf buf (\<lambda>h. h\<lparr>bh_page := (\<lambda>i. if off \<le> i \<and> i < off + len then rq_mem rq ! (rq_pos rq + (i - off)) else bh_page h i)\<rparr>) gd1
            in Inr (rq, buf_unpin buf (buf_release buf True gd2)))
     else Inr (rq, gd))"

definition io_bio :: "'d driver \<Rightarrow> bio \<Rightarrow> request \<Rightarrow> 'd gendisk \<Rightarrow> (request \<times> 'd gendisk) kres option" where
  "io_bio ll_rw bio rq gd =
    (case buf_get (b_blockno bio) gd of
       Inl e \<Rightarrow> Some (Inl e)
     | Inr (buf, gd1) \<Rightarrow> (case buf_pin buf gd1 of
         None \<Rightarrow> None
       | Some gd2 \<Rightarrow> Some (kbind (bio_transfer ll_rw bio buf rq gd2) (\<lambda>(rq1, gd3).
           Inr (rq1\<lparr>rq_pos := rq_pos rq1 + unat (b_len bio)\<rparr>, gd3\<lparr>gd_mem := gd_mem gd3 + 1\<rparr>)))))"

text \<open>The loop over the chain; a bio of length 0 is never left behind.\<close>

partial_function (option) io_bios :: "'d driver \<Rightarrow> bio list \<Rightarrow> request \<Rightarrow> 'd gendisk \<Rightarrow> (request \<times> 'd gendisk) kres option" where
  "io_bios ll_rw bios rq gd =
    (case bios of
       [] \<Rightarrow> Some (Inr (rq, gd))
     | bio # rest \<Rightarrow>
         if b_len bio = 0 then io_bios ll_rw (bio # rest) rq gd
         else Option.bind (io_bio ll_rw bio rq gd) (\<lambda>r. case r of
             Inl e \<Rightarrow> Some (Inl e)
           | Inr q \<Rightarrow> io_bios ll_rw rest (fst q) (snd q)))"

text \<open>One round of the I/O thread.\<close>

definition gen_start_io :: "'d driver \<Rightarrow> 'd gendisk \<Rightarrow> (request \<times> 'd gendisk) kres option" where
  "gen_start_io ll_rw gd =
    (case get_next_rq gd of
       (None, _) \<Rightarrow> Some (Inl (Fault ''rq''))
     | (Some rq, gd1) \<Rightarrow> Option.bind (io_bios ll_rw (rq_bio rq) rq gd1) (\<lambda>r.
         Some (kbind r (\<lambda>(rq1, gd2). Inr (rq_set_complete rq1, gd2)))))"

section \<open>The interface\<close>

text \<open>The requests in front of the caller's are served first; the caller sleeps until its own is complete.\<close>

fun serve :: "'d driver \<Rightarrow> nat \<Rightarrow> 'd gendisk \<Rightarrow> (request \<times> 'd gendisk) kres option" where
  "serve ll_rw 0 gd = gen_start_io ll_rw gd"
| "serve ll_rw (Suc n) gd = Option.bind (gen_start_io ll_rw gd) (\<lambda>r. case r of Inl e \<Rightarrow> Some (Inl e) | Inr q \<Rightarrow> serve ll_rw n (snd q))"

definition gen_rw :: "'d driver \<Rightarrow> u32 \<Rightarrow> u32 \<Rightarrow> u32 \<Rightarrow> u32 \<Rightarrow> u8 list \<Rightarrow> 'd gendisk \<Rightarrow> (u8 list \<times> 'd gendisk) kres option" where
  "gen_rw ll_rw rw blockno offset len vaddr gd =
    (case make_request blockno offset len vaddr rw gd of
       Inl e \<Rightarrow> Some (Inl e)
     | Inr gd1 \<Rightarrow> Option.bind (serve ll_rw (length (gd_queue gd)) gd1) (\<lambda>r.
         Some (kbind r (\<lambda>(rq, gd2). Inr (rq_mem rq, rq_del gd2)))))"

definition gen_read :: "'d driver \<Rightarrow> u32 \<Rightarrow> u32 \<Rightarrow> u32 \<Rightarrow> u8 list \<Rightarrow> 'd gendisk \<Rightarrow> (u8 list \<times> 'd gendisk) kres option" where
  "gen_read ll_rw = gen_rw ll_rw DEV_READ"

definition gen_write :: "'d driver \<Rightarrow> u32 \<Rightarrow> u32 \<Rightarrow> u32 \<Rightarrow> u8 list \<Rightarrow> 'd gendisk \<Rightarrow> (u8 list \<times> 'd gendisk) kres option" where
  "gen_write ll_rw = gen_rw ll_rw DEV_WRITE"

text \<open>A null \<open>vaddr\<close> is \<open>None\<close>; the result is -1 without any effect.\<close>

definition gen_disk_read :: "'d driver \<Rightarrow> u32 \<Rightarrow> u32 \<Rightarrow> u32 \<Rightarrow> u8 list option \<Rightarrow> 'd gendisk \<Rightarrow> (int \<times> u8 list \<times> 'd gendisk) kres option" where
  "gen_disk_read ll_rw blockno offset len vaddr gd =
    (case vaddr of None \<Rightarrow> Some (Inr (-1, [], gd))
     | Some v \<Rightarrow> map_option (\<lambda>r. kbind r (\<lambda>(v1, gd1). Inr (0, v1, gd1))) (gen_read ll_rw blockno offset len v gd))"

definition gen_disk_write :: "'d driver \<Rightarrow> u32 \<Rightarrow> u32 \<Rightarrow> u32 \<Rightarrow> u8 list option \<Rightarrow> 'd gendisk \<Rightarrow> (int \<times> 'd gendisk) kres option" where
  "gen_disk_write ll_rw blockno offset len vaddr gd =
    (case vaddr of None \<Rightarrow> Some (Inr (-1, gd))
     | Some v \<Rightarrow> map_option (\<lambda>r. kbind r (\<lambda>(v1, gd1). Inr (0, gd1))) (gen_write ll_rw blockno offset len v gd))"

definition blk_read :: "'d driver \<Rightarrow> u32 \<Rightarrow> u32 \<Rightarrow> u32 \<Rightarrow> u8 list option \<Rightarrow> 'd gendisk \<Rightarrow> (int \<times> u8 list \<times> 'd gendisk) kres option" where
  "blk_read ll_rw blockno offset len vaddr gd = gen_disk_read ll_rw blockno offset len vaddr gd"

definition blk_write :: "'d driver \<Rightarrow> u32 \<Rightarrow> u32 \<Rightarrow> u32 \<Rightarrow> u8 list option \<Rightarrow> 'd gendisk \<Rightarrow> (int \<times> 'd gendisk) kres option" where
  "blk_write ll_rw blockno offset len vaddr gd = gen_disk_write ll_rw blockno offset len vaddr gd"

definition blk_write_count :: "'d driver \<Rightarrow> u32 \<Rightarrow> u32 \<Rightarrow> u8 list option \<Rightarrow> 'd gendisk \<Rightarrow> (int \<times> 'd gendisk) kres option" where
  "blk_write_count ll_rw blockno count vaddr gd = gen_disk_write ll_rw blockno 0 (count * BLK_SIZE) vaddr gd"

definition blk_read_count :: "'d driver \<Rightarrow> u32 \<Rightarrow> u32 \<Rightarrow> u8 list option \<Rightarrow> 'd gendisk \<Rightarrow> (int \<times> u8 list \<times> 'd gendisk) kres option" where
  "blk_read_count ll_rw blockno count vaddr gd = gen_disk_read ll_rw blockno 0 (count * BLK_SIZE) vaddr gd"

text \<open>\<open>gendisk_init\<close>: the driver's operation replaces the default one; the two threads it creates are the rounds of \<open>gen_start_io\<close> and of the flush.\<close>

definition gen_ll_rw :: "'d driver" where
  "gen_ll_rw d blockno page rw = Inr (d, page)"

definition gendisk_init :: "'d driver option \<Rightarrow> 'd gendisk \<Rightarrow> ('d driver \<times> 'd gendisk) kres" where
  "gendisk_init ops_ll_rw gd = kbind (bhash_init (rq_queue_init gd)) (\<lambda>gd1.
    Inr (case ops_ll_rw of Some f \<Rightarrow> f | None \<Rightarrow> gen_ll_rw, gd1))"

section \<open>What the cache relies on and promises\<close>

text \<open>The contents of a block: the buffer that caches it, if it has been filled, or the device.\<close>

definition view :: "('d \<Rightarrow> u32 \<Rightarrow> page_data) \<Rightarrow> 'd gendisk \<Rightarrow> u32 \<Rightarrow> page_data" where
  "view contents gd b = (case cached gd b of
      None \<Rightarrow> contents (gd_dev gd) b
    | Some a \<Rightarrow> if newb gd a then contents (gd_dev gd) b else bh_page (gd_bufs gd a))"

lemma gd_ll_rw_frame:
  assumes "gd_ll_rw ll_rw a b rw gd = Inr gd'"
  shows "\<exists>d pg. ll_rw (gd_dev gd) b (bh_page (gd_bufs gd a)) rw = Inr (d, pg) \<and> gd_dev gd' = d \<and> gd_bufs gd' = (gd_bufs gd)(a := (gd_bufs gd a)\<lparr>bh_page := pg\<rparr>) \<and>
    gd_hash gd' = gd_hash gd \<and> gd_dirty gd' = gd_dirty gd \<and> gd_mem gd' = gd_mem gd \<and> gd_next gd' = gd_next gd \<and> gd_queue gd' = gd_queue gd"
  using assms by (auto simp: gd_ll_rw_def kbind_eq_Inr set_buf_def)

text \<open>What a transfer leaves: the buffer \<open>a\<close> of block \<open>b\<close> is filled with \<open>data\<close> and unlocked, everything else is as before.\<close>

definition filled :: "u32 \<Rightarrow> nat \<Rightarrow> page_data \<Rightarrow> 'd gendisk \<Rightarrow> 'd gendisk \<Rightarrow> bool" where
  "filled b a data gd gd' = (cache_ok gd' \<and> cached gd' = (cached gd)(b \<mapsto> a) \<and> (\<forall>x. x \<noteq> a \<longrightarrow> same_data (gd_bufs gd x) (gd_bufs gd' x)) \<and>
    \<not> newb gd' a \<and> \<not> bh_locked (gd_bufs gd' a) \<and> (\<forall>i<4096. bh_page (gd_bufs gd' a) i = data i) \<and> gd_queue gd' = gd_queue gd \<and>
    gd_mem gd \<le> gd_mem gd' + 1 \<and> gd_mem gd' \<le> gd_mem gd + 1)"

lemma filled_view:
  assumes "cache_ok gd" "filled b a data gd gd'" "cached gd b = Some a \<or> cached gd b = None \<and> a \<notin> entries (gd_hash gd)" "\<And>c i. unat c < n \<Longrightarrow> i < 4096 \<Longrightarrow> C (gd_dev gd') c i = C (gd_dev gd) c i"
    and "unat c < n" "i < 4096"
  shows "view C gd' c i = (if c = b then data i else view C gd c i)"
proof (cases "c = b")
  case True
  then show ?thesis using assms(2,6) by (auto simp: view_def filled_def)
next
  case False
  have ch: "cached gd' c = cached gd c" using assms(2) False by (simp add: filled_def)
  have "x \<noteq> a" if "cached gd c = Some x" for x using that assms(3) False cached_inj [OF assms(1)] cached_entry(1) [OF assms(1) that] by metis
  then show ?thesis using assms(2,4-6) ch False
    by (auto simp: view_def filled_def newb_def same_data_def split: option.splits)
qed

lemma same_newb: "same_data (gd_bufs gd x) (gd_bufs gd' x) \<Longrightarrow> newb gd' x = newb gd x"
  by (simp add: same_data_def newb_def)

text \<open>A buffer that is locked for a transfer: as after \<open>buf_get\<close> and \<open>buf_pin\<close>, and perhaps filled since.\<close>

definition ready :: "u32 \<Rightarrow> nat \<Rightarrow> 'd gendisk \<Rightarrow> 'd gendisk \<Rightarrow> bool" where
  "ready b a gd gd' = (cache_ok gd' \<and> cached gd' = (cached gd)(b \<mapsto> a) \<and> (\<forall>x. x \<noteq> a \<longrightarrow> same_data (gd_bufs gd x) (gd_bufs gd' x)) \<and>
    (cached gd b = Some a \<or> cached gd b = None \<and> a \<notin> entries (gd_hash gd)) \<and> a \<noteq> 0 \<and>
    gd_dirty gd' = gd_dirty gd \<and> gd_queue gd' = gd_queue gd \<and> gd_mem gd \<le> gd_mem gd' + 2 \<and> gd_mem gd' \<le> gd_mem gd)"

lemma get_pin:
  assumes "cache_ok gd" "2 \<le> gd_mem gd" "\<And>x. cached gd b = Some x \<Longrightarrow> \<not> bh_locked (gd_bufs gd x)"
  shows "\<exists>a gd1 gd2. buf_get b gd = Inr (a, gd1) \<and> buf_pin a gd1 = Some gd2 \<and> ready b a gd gd2 \<and> gd_dev gd2 = gd_dev gd \<and>
    (if newb gd2 a then view C gd b = C (gd_dev gd) b else view C gd b = bh_page (gd_bufs gd2 a))"
proof -
  obtain a gd1 where g: "buf_get b gd = Inr (a, gd1)" "got b gd a gd1" using buf_get_correct [OF assms(1,2)] by blast
  define gd2 where "gd2 = set_buf a (\<lambda>h. h\<lparr>bh_locked := True\<rparr>) gd1"
  have nl: "\<not> bh_locked (gd_bufs gd1 a)" using g(2) assms(3) by (cases "cached gd b") (auto simp: got_def same_data_def)
  have p: "buf_pin a gd1 = Some gd2" using nl by (simp add: buf_pin_def gd2_def)
  have c1: "cache_ok gd1" "cached gd1 = (cached gd)(b \<mapsto> a)" using g(2) by (auto simp: got_def)
  have c2: "cache_ok gd2" "cached gd2 = cached gd1" using cache_frame [OF c1(1), of gd2] by (auto simp: gd2_def set_buf_def)
  have a: "cached gd b = Some a \<or> cached gd b = None \<and> a \<notin> entries (gd_hash gd)" using g(2) assms(1) by (cases "cached gd b") (auto simp: got_def cache_ok_def)
  have a0: "a \<noteq> 0" using cached_entry(3) [OF c1(1), of b a] c1(2) by simp
  have r: "ready b a gd gd2" unfolding ready_def using c1 c2 g(2) a a0 by (auto simp: got_def gd2_def set_buf_def)
  have "gd_dev gd2 = gd_dev gd" using g(2) by (simp add: gd2_def set_buf_def got_def)
  moreover have "if newb gd2 a then view C gd b = C (gd_dev gd) b else view C gd b = bh_page (gd_bufs gd2 a)"
    using g(2) by (cases "cached gd b") (auto simp: got_def view_def newb_def same_data_def gd2_def set_buf_def)
  ultimately show ?thesis using g(1) p r by blast
qed

lemma finish_effect:
  assumes "ready b a gd gd3"
  shows "filled b a (bh_page (gd_bufs gd3 a)) gd ((buf_unpin a (buf_release a d gd3))\<lparr>gd_mem := gd_mem gd3 + 1\<rparr>)"
    "gd_dev (buf_unpin a (buf_release a d gd3)) = gd_dev gd3" "gd_mem (buf_unpin a (buf_release a d gd3)) = gd_mem gd3"
    "gd_dirty (buf_unpin a (buf_release a d gd3)) = (if d then a # remove1 a (gd_dirty gd) else gd_dirty gd)"
proof -
  define g where "g = (buf_unpin a (buf_release a d gd3))\<lparr>gd_mem := gd_mem gd3 + 1\<rparr>"
  have a0: "a \<noteq> 0" using assms by (simp add: ready_def)
  have f: "gd_hash g = gd_hash gd3" "gd_next g = gd_next gd3" "\<And>x. bh_blockno (gd_bufs g x) = bh_blockno (gd_bufs gd3 x)"
    "\<And>x. bh_page (gd_bufs g x) = bh_page (gd_bufs gd3 x)" "\<And>x. x \<noteq> a \<Longrightarrow> gd_bufs g x = gd_bufs gd3 x" "gd_queue g = gd_queue gd3"
    "\<not> newb g a" "\<not> bh_locked (gd_bufs g a)"
    using a0 by (auto simp: g_def buf_unpin_def buf_release_def buf_used_def set_buf_def Let_def newb_def)
  have c: "cache_ok g" "cached g = cached gd3" using cache_frame [of gd3 g] assms f by (auto simp: ready_def)
  show "filled b a (bh_page (gd_bufs gd3 a)) gd ((buf_unpin a (buf_release a d gd3))\<lparr>gd_mem := gd_mem gd3 + 1\<rparr>)"
    unfolding g_def [symmetric] filled_def using c f assms by (auto simp: ready_def g_def)
  show "gd_dev (buf_unpin a (buf_release a d gd3)) = gd_dev gd3" "gd_mem (buf_unpin a (buf_release a d gd3)) = gd_mem gd3"
    "gd_dirty (buf_unpin a (buf_release a d gd3)) = (if d then a # remove1 a (gd_dirty gd) else gd_dirty gd)"
    using a0 assms by (auto simp: buf_unpin_def buf_release_def buf_used_def set_buf_def Let_def ready_def)
qed

definition disk_ok :: "('d \<Rightarrow> bool) \<Rightarrow> 'd gendisk \<Rightarrow> bool" where
  "disk_ok usable gd = (cache_ok gd \<and> usable (gd_dev gd) \<and> (\<forall>a\<in>entries (gd_hash gd). \<not> bh_locked (gd_bufs gd a)))"

lemma entry_cached: "cache_ok gd \<Longrightarrow> a \<in> entries (gd_hash gd) \<Longrightarrow> cached gd (bh_blockno (gd_bufs gd a)) = Some a"
  using entry_hash_map [of "bh_key gd" "gd_hash gd" a] by (simp add: cache_ok_def cached_def bh_key_def)

lemma filled_disk_ok:
  assumes "disk_ok usable gd" "filled b a data gd gd'" "usable (gd_dev gd')"
  shows "disk_ok usable gd'"
proof -
  have c: "cache_ok gd" "cache_ok gd'" using assms(1,2) by (auto simp: disk_ok_def filled_def)
  have "\<not> bh_locked (gd_bufs gd' x)" if "x \<in> entries (gd_hash gd')" for x
  proof (cases "x = a")
    case True
    then show ?thesis using assms(2) by (simp add: filled_def)
  next
    case False
    then have "cached gd (bh_blockno (gd_bufs gd' x)) = Some x"
      using entry_cached [OF c(2) that] assms(2) by (auto simp: filled_def split: if_splits)
    then show ?thesis using cached_entry(1) [OF c(1)] assms(1,2) False by (auto simp: filled_def disk_ok_def same_data_def)
  qed
  then show ?thesis using c(2) assms(3) by (simp add: disk_ok_def)
qed

definition written :: "bio \<Rightarrow> request \<Rightarrow> page_data \<Rightarrow> page_data" where
  "written bio rq pg = (\<lambda>i. if unat (b_offset bio) \<le> i \<and> i < unat (b_offset bio) + unat (b_len bio)
    then rq_mem rq ! (rq_pos rq + (i - unat (b_offset bio))) else pg i)"

text \<open>Buffers that are filled and not dirty agree with the device.\<close>

definition clean :: "('d \<Rightarrow> u32 \<Rightarrow> page_data) \<Rightarrow> nat \<Rightarrow> 'd gendisk \<Rightarrow> bool" where
  "clean C n gd = (set (gd_dirty gd) \<subseteq> entries (gd_hash gd) \<and> distinct (gd_dirty gd) \<and> (\<forall>a\<in>entries (gd_hash gd). unat (bh_blockno (gd_bufs gd a)) < n) \<and>
    (\<forall>a\<in>set (gd_dirty gd). \<not> newb gd a) \<and>
    (\<forall>a\<in>entries (gd_hash gd). \<not> newb gd a \<longrightarrow> a \<notin> set (gd_dirty gd) \<longrightarrow> (\<forall>i<4096. bh_page (gd_bufs gd a) i = C (gd_dev gd) (bh_blockno (gd_bufs gd a)) i)))"

lemma filled_entries:
  assumes "cache_ok gd" "filled b a data gd gd'" "cached gd b = Some a \<or> cached gd b = None \<and> a \<notin> entries (gd_hash gd)"
  shows "entries (gd_hash gd') = insert a (entries (gd_hash gd))" "bh_blockno (gd_bufs gd' a) = b"
    "x \<in> entries (gd_hash gd) \<Longrightarrow> bh_blockno (gd_bufs gd' x) = bh_blockno (gd_bufs gd x)"
proof -
  have c: "cache_ok gd'" "cached gd' = (cached gd)(b \<mapsto> a)" and sd: "\<And>x. x \<noteq> a \<Longrightarrow> same_data (gd_bufs gd x) (gd_bufs gd' x)"
    using assms(2) by (auto simp: filled_def)
  have a: "a \<in> entries (gd_hash gd')" "bh_blockno (gd_bufs gd' a) = b" using cached_entry [OF c(1), of b a] c(2) by auto
  then show "bh_blockno (gd_bufs gd' a) = b" by simp
  have ab: "bh_blockno (gd_bufs gd a) = b" if "a \<in> entries (gd_hash gd)" using assms(3) that cached_entry(2) [OF assms(1)] by auto
  show bn: "bh_blockno (gd_bufs gd' x) = bh_blockno (gd_bufs gd x)" if "x \<in> entries (gd_hash gd)" for x
    using that ab a(2) sd same_data_blockno by (cases "x = a") auto
  have "x \<in> entries (gd_hash gd')" if "x \<in> entries (gd_hash gd)" for x
  proof -
    have "cached gd (bh_blockno (gd_bufs gd x)) = Some x" by (rule entry_cached [OF assms(1) that])
    then have "cached gd' (bh_blockno (gd_bufs gd x)) = Some x" using c(2) assms(3) by (auto split: if_splits)
    then show ?thesis using cached_entry(1) [OF c(1)] by blast
  qed
  moreover have "x \<in> entries (gd_hash gd)" if "x \<in> entries (gd_hash gd')" "x \<noteq> a" for x
    using entry_cached [OF c(1) that(1)] that(2) c(2) cached_entry(1) [OF assms(1)] by (auto split: if_splits)
  ultimately show "entries (gd_hash gd') = insert a (entries (gd_hash gd))" using a(1) by auto
qed

lemma filled_clean:
  assumes "cache_ok gd" "filled b a data gd gd'" "cached gd b = Some a \<or> cached gd b = None \<and> a \<notin> entries (gd_hash gd)" "unat b < n"
    and "\<And>c i. unat c < n \<Longrightarrow> i < 4096 \<Longrightarrow> C (gd_dev gd') c i = C (gd_dev gd) c i"
    and "gd_dirty gd' = gd_dirty gd \<and> data = view C gd b \<or> gd_dirty gd' = a # remove1 a (gd_dirty gd)" "clean C n gd"
  shows "clean C n gd'"
proof -
  note e = filled_entries [OF assms(1-3)]
  have sd: "\<And>x. x \<noteq> a \<Longrightarrow> same_data (gd_bufs gd x) (gd_bufs gd' x)" and f: "\<not> newb gd' a" "\<And>i. i < 4096 \<Longrightarrow> bh_page (gd_bufs gd' a) i = data i"
    using assms(2) by (auto simp: filled_def)
  have k: "set (gd_dirty gd) \<subseteq> entries (gd_hash gd)" "distinct (gd_dirty gd)" "\<And>x. x \<in> entries (gd_hash gd) \<Longrightarrow> unat (bh_blockno (gd_bufs gd x)) < n"
    "\<And>x. x \<in> set (gd_dirty gd) \<Longrightarrow> \<not> newb gd x"
    "\<And>x i. x \<in> entries (gd_hash gd) \<Longrightarrow> \<not> newb gd x \<Longrightarrow> x \<notin> set (gd_dirty gd) \<Longrightarrow> i < 4096 \<Longrightarrow> bh_page (gd_bufs gd x) i = C (gd_dev gd) (bh_blockno (gd_bufs gd x)) i"
    using assms(7) by (auto simp: clean_def)
  have set': "x \<in> set (gd_dirty gd') \<longleftrightarrow> x \<in> set (gd_dirty gd)" if "x \<noteq> a" for x using assms(6) k(2) that by auto
  have bn: "unat (bh_blockno (gd_bufs gd' x)) < n" if "x \<in> entries (gd_hash gd')" for x using that e k(3) assms(4) by auto
  have "bh_page (gd_bufs gd' x) i = C (gd_dev gd') (bh_blockno (gd_bufs gd' x)) i"
    if x: "x \<in> entries (gd_hash gd')" "\<not> newb gd' x" "x \<notin> set (gd_dirty gd')" "i < 4096" for x i
  proof (cases "x = a")
    case True
    then have d: "gd_dirty gd' = gd_dirty gd" "data = view C gd b" using assms(6) x(3) by auto
    have "data i = C (gd_dev gd) b i"
    proof (cases "cached gd b")
      case (Some a')
      then have a: "a' = a" "a \<in> entries (gd_hash gd)" "bh_blockno (gd_bufs gd a) = b" using assms(3) cached_entry [OF assms(1) Some] by auto
      show ?thesis using k(5) [OF a(2) _ _ x(4)] Some a d x(3) True by (auto simp: view_def)
    qed (simp add: d(2) view_def)
    then show ?thesis using f(2) [OF x(4)] e(2) True assms(4,5) x(4) by simp
  next
    case False
    then have "x \<in> entries (gd_hash gd)" using x(1) e(1) by auto
    then show ?thesis using k(5) [of x i] k(3) [of x] x sd [OF False] set' [OF False] same_newb [OF sd [OF False]] assms(5)
      by (simp add: same_data_def)
  qed
  moreover have "\<not> newb gd' x" if "x \<in> set (gd_dirty gd')" for x using that set' [of x] k(4) [of x] f(1) same_newb [OF sd] by (cases "x = a") auto
  moreover have "set (gd_dirty gd') \<subseteq> entries (gd_hash gd')" "distinct (gd_dirty gd')" using k(1,2) set' e(1) assms(6) by auto
  ultimately show ?thesis using bn unfolding clean_def by blast
qed

text \<open>Requests leave the device alone, and a block that is cached stays in its buffer.\<close>

definition kept :: "('d \<Rightarrow> u32 \<Rightarrow> page_data) \<Rightarrow> nat \<Rightarrow> 'd gendisk \<Rightarrow> 'd gendisk \<Rightarrow> bool" where
  "kept C n gd gd' = ((\<forall>c i. unat c < n \<longrightarrow> i < 4096 \<longrightarrow> C (gd_dev gd') c i = C (gd_dev gd) c i) \<and> cached gd \<subseteq>\<^sub>m cached gd')"

lemma kept_refl: "kept C n gd gd"
  by (simp add: kept_def)

lemma kept_trans: "kept C n gd gd1 \<Longrightarrow> kept C n gd1 gd2 \<Longrightarrow> kept C n gd gd2"
  using map_le_trans by (fastforce simp: kept_def)

lemma filled_kept:
  assumes "filled b a data gd gd'" "cached gd b = Some a \<or> cached gd b = None \<and> a \<notin> entries (gd_hash gd)"
    and "\<forall>c i. unat c < n \<longrightarrow> i < 4096 \<longrightarrow> C (gd_dev gd') c i = C (gd_dev gd) c i"
  shows "kept C n gd gd'"
proof -
  have "cached gd' = (cached gd)(b \<mapsto> a)" using assms(1) by (simp add: filled_def)
  then show ?thesis using assms(2,3) by (auto simp: kept_def map_le_def dom_def)
qed

text \<open>The device as one sequence of bytes.\<close>

definition flat :: "('d \<Rightarrow> u32 \<Rightarrow> page_data) \<Rightarrow> 'd gendisk \<Rightarrow> nat \<Rightarrow> u8" where
  "flat contents gd p = view contents gd (of_nat (p div 4096)) (p mod 4096)"

lemma bio_byte:
  assumes "bio_ok bio" "p \<in> set (bio_bytes bio)"
  shows "of_nat (p div 4096) = b_blockno bio" "p mod 4096 = p - unat (b_blockno bio) * 4096"
proof -
  define j where "j = p - unat (b_blockno bio) * 4096"
  have "p = unat (b_blockno bio) * 4096 + j" "j < 4096" using assms by (auto simp: bio_bytes_def bio_ok_def j_def)
  then show "of_nat (p div 4096) = b_blockno bio" "p mod 4096 = p - unat (b_blockno bio) * 4096" by simp_all
qed

lemma map_flat_bio:
  assumes "bio_ok bio"
  shows "map (view C gd (b_blockno bio)) [unat (b_offset bio) ..< unat (b_offset bio) + unat (b_len bio)] = map (flat C gd) (bio_bytes bio)"
proof (rule nth_equalityI)
  fix i assume "i < length (map (view C gd (b_blockno bio)) [unat (b_offset bio) ..< unat (b_offset bio) + unat (b_len bio)])"
  then have i: "i < unat (b_len bio)" by simp
  let ?p = "unat (b_blockno bio) * 4096 + unat (b_offset bio) + i"
  have "?p \<in> set (bio_bytes bio)" using i by (simp add: bio_bytes_def)
  note bio_byte [OF assms this]
  then show "map (view C gd (b_blockno bio)) [unat (b_offset bio) ..< unat (b_offset bio) + unat (b_len bio)] ! i = map (flat C gd) (bio_bytes bio) ! i"
    using i by (simp add: flat_def bio_bytes_def)
qed (simp add: bio_bytes_def)

lemma upt_front:
  assumes "[a ..< a + n] @ ys = [S ..< S + L]" "0 < n"
  shows "a = S" "n \<le> L" "ys = [S + n ..< S + L]"
proof -
  have "length ([a ..< a + n] @ ys) = L" unfolding assms(1) by simp
  then have l: "n + length ys = L" by simp
  have "hd ([a ..< a + n] @ ys) = S" unfolding assms(1) using assms(2) l by simp
  then show a: "a = S" using assms(2) by (simp add: hd_append)
  show "n \<le> L" using l by simp
  have "drop n ([a ..< a + n] @ ys) = ys" by simp
  then show "ys = [S + n ..< S + L]" unfolding assms(1) by (simp add: drop_upt)
qed

lemma splice_splice:
  "pos + length xs \<le> length ys \<Longrightarrow> splice (pos + length xs) zs (splice pos xs ys) = splice pos (xs @ zs) ys"
  by (simp add: splice_def ac_simps)

lemma length_splice: "pos + length xs \<le> length ys \<Longrightarrow> length (splice pos xs ys) = length ys"
  by (simp add: splice_def)

locale block_driver =
  fixes ll_rw :: "'d \<Rightarrow> u32 \<Rightarrow> page_data \<Rightarrow> u32 \<Rightarrow> ('d \<times> page_data) kres"
    and contents :: "'d \<Rightarrow> u32 \<Rightarrow> page_data"
    and usable :: "'d \<Rightarrow> bool"
    and nblocks :: nat
  assumes read_law: "usable d \<Longrightarrow> unat b < nblocks \<Longrightarrow> \<exists>d' pg'. ll_rw d b pg DEV_READ = Inr (d', pg') \<and> usable d' \<and>
      (\<forall>i<4096. pg' i = contents d b i) \<and> (\<forall>c i. unat c < nblocks \<longrightarrow> i < 4096 \<longrightarrow> contents d' c i = contents d c i)"
    and write_law: "usable d \<Longrightarrow> unat b < nblocks \<Longrightarrow> \<exists>d'. ll_rw d b pg DEV_WRITE = Inr (d', pg) \<and> usable d' \<and>
      (\<forall>c i. unat c < nblocks \<longrightarrow> i < 4096 \<longrightarrow> contents d' c i = (if c = b then pg i else contents d c i))"
begin

lemma fill_page:
  assumes "usable (gd_dev gd)" "unat b < nblocks"
  shows "\<exists>gd'. gd_ll_rw ll_rw a b DEV_READ gd = Inr gd' \<and> usable (gd_dev gd') \<and>
    (\<forall>c i. unat c < nblocks \<longrightarrow> i < 4096 \<longrightarrow> contents (gd_dev gd') c i = contents (gd_dev gd) c i) \<and>
    (\<exists>pg. (\<forall>i<4096. pg i = contents (gd_dev gd) b i) \<and> gd_bufs gd' = (gd_bufs gd)(a := (gd_bufs gd a)\<lparr>bh_page := pg\<rparr>)) \<and>
    gd_hash gd' = gd_hash gd \<and> gd_dirty gd' = gd_dirty gd \<and> gd_mem gd' = gd_mem gd \<and> gd_next gd' = gd_next gd \<and> gd_queue gd' = gd_queue gd"
proof -
  obtain d' pg' where d: "ll_rw (gd_dev gd) b (bh_page (gd_bufs gd a)) DEV_READ = Inr (d', pg')" "usable d'"
    "\<forall>i<4096. pg' i = contents (gd_dev gd) b i" "\<forall>c i. unat c < nblocks \<longrightarrow> i < 4096 \<longrightarrow> contents d' c i = contents (gd_dev gd) c i"
    using read_law [OF assms] by blast
  define gd' where "gd' = set_buf a (\<lambda>h. h\<lparr>bh_page := pg'\<rparr>) (gd\<lparr>gd_dev := d'\<rparr>)"
  have "gd_ll_rw ll_rw a b DEV_READ gd = Inr gd'" using d(1) by (simp add: gd_ll_rw_def gd'_def)
  then show ?thesis using d(2-4) by (intro exI [of _ gd']) (auto simp: gd'_def set_buf_def)
qed

lemma fill_ready:
  assumes "ready b a gd gd2" "usable (gd_dev gd2)" "unat b < nblocks" "gd_dev gd2 = gd_dev gd"
    and "if newb gd2 a then view contents gd b = contents (gd_dev gd) b else view contents gd b = bh_page (gd_bufs gd2 a)"
  shows "\<exists>gd3. (if buf_is_new a gd2 then gd_ll_rw ll_rw a b DEV_READ gd2 else Inr gd2) = Inr gd3 \<and> ready b a gd gd3 \<and> usable (gd_dev gd3) \<and>
    (\<forall>c i. unat c < nblocks \<longrightarrow> i < 4096 \<longrightarrow> contents (gd_dev gd3) c i = contents (gd_dev gd) c i) \<and>
    (\<forall>i<4096. bh_page (gd_bufs gd3 a) i = view contents gd b i)"
proof (cases "newb gd2 a")
  case False
  then show ?thesis using assms by (simp add: buf_is_new_iff)
next
  case True
  obtain gd3 pg where g: "gd_ll_rw ll_rw a b DEV_READ gd2 = Inr gd3" "usable (gd_dev gd3)"
    "\<forall>c i. unat c < nblocks \<longrightarrow> i < 4096 \<longrightarrow> contents (gd_dev gd3) c i = contents (gd_dev gd2) c i"
    "\<forall>i<4096. pg i = contents (gd_dev gd2) b i" "gd_bufs gd3 = (gd_bufs gd2)(a := (gd_bufs gd2 a)\<lparr>bh_page := pg\<rparr>)"
    "gd_hash gd3 = gd_hash gd2" "gd_dirty gd3 = gd_dirty gd2" "gd_mem gd3 = gd_mem gd2" "gd_next gd3 = gd_next gd2" "gd_queue gd3 = gd_queue gd2"
    using fill_page [OF assms(2,3), of a] by auto
  have c: "cache_ok gd3" "cached gd3 = cached gd2" using cache_frame [of gd2 gd3] assms(1) g(5,6,9) by (auto simp: ready_def)
  have "ready b a gd gd3" using assms(1) c g(5,7,8,10) by (auto simp: ready_def)
  then show ?thesis using g(1-5) True assms(4,5) by (auto simp: buf_is_new_iff)
qed

lemma io_bio_read:
  assumes "disk_ok usable gd" "bio_ok bio" "unat (b_blockno bio) < nblocks" "2 \<le> gd_mem gd" "rq_flags rq = DEV_READ"
    "rq_pos rq + unat (b_len bio) \<le> length (rq_mem rq)"
  shows "\<exists>a gd'. io_bio ll_rw bio rq gd = Some (Inr (rq\<lparr>rq_mem := splice (rq_pos rq)
      (map (view contents gd (b_blockno bio)) [unat (b_offset bio) ..< unat (b_offset bio) + unat (b_len bio)]) (rq_mem rq),
      rq_pos := rq_pos rq + unat (b_len bio)\<rparr>, gd')) \<and> filled (b_blockno bio) a (view contents gd (b_blockno bio)) gd gd' \<and>
      (cached gd (b_blockno bio) = Some a \<or> cached gd (b_blockno bio) = None \<and> a \<notin> entries (gd_hash gd)) \<and> usable (gd_dev gd') \<and>
      (\<forall>c i. unat c < nblocks \<longrightarrow> i < 4096 \<longrightarrow> contents (gd_dev gd') c i = contents (gd_dev gd) c i) \<and> gd_dirty gd' = gd_dirty gd"
proof -
  let ?b = "b_blockno bio" and ?off = "unat (b_offset bio)" and ?len = "unat (b_len bio)"
  have ck: "cache_ok gd" "\<And>x. cached gd ?b = Some x \<Longrightarrow> \<not> bh_locked (gd_bufs gd x)"
    using assms(1) cached_entry(1) by (auto simp: disk_ok_def)
  obtain a gd1 gd2 where g: "buf_get ?b gd = Inr (a, gd1)" "buf_pin a gd1 = Some gd2" "ready ?b a gd gd2" "gd_dev gd2 = gd_dev gd"
    "if newb gd2 a then view contents gd ?b = contents (gd_dev gd) ?b else view contents gd ?b = bh_page (gd_bufs gd2 a)"
    using get_pin [OF ck(1) assms(4) ck(2)] by blast
  have u: "usable (gd_dev gd2)" using g(4) assms(1) by (simp add: disk_ok_def)
  obtain gd3 where h: "(if buf_is_new a gd2 then gd_ll_rw ll_rw a ?b DEV_READ gd2 else Inr gd2) = Inr gd3" "ready ?b a gd gd3" "usable (gd_dev gd3)"
    "\<forall>c i. unat c < nblocks \<longrightarrow> i < 4096 \<longrightarrow> contents (gd_dev gd3) c i = contents (gd_dev gd) c i"
    "\<forall>i<4096. bh_page (gd_bufs gd3 a) i = view contents gd ?b i"
    using fill_ready [OF g(3) u assms(3) g(4,5)] by blast
  define gd' where "gd' = (buf_unpin a (buf_release a False gd3))\<lparr>gd_mem := gd_mem gd3 + 1\<rparr>"
  note f = finish_effect [OF h(2), of False]
  have bk: "?off + ?len \<le> 4096" using assms(2) by (simp add: bio_ok_def)
  have me: "map (bh_page (gd_bufs gd3 a)) [?off ..< ?off + ?len] = map (view contents gd ?b) [?off ..< ?off + ?len]" using h(5) bk by simp
  have "bio_transfer ll_rw bio a rq gd2 = Inr (rq\<lparr>rq_mem := splice (rq_pos rq) (map (view contents gd ?b) [?off ..< ?off + ?len]) (rq_mem rq)\<rparr>,
      buf_unpin a (buf_release a False gd3))"
    unfolding bio_transfer_def Let_def assms(5) h(1) using assms(6) bk by (simp add: me del: map_eq_conv)
  then have "io_bio ll_rw bio rq gd = Some (Inr (rq\<lparr>rq_mem := splice (rq_pos rq) (map (view contents gd ?b) [?off ..< ?off + ?len]) (rq_mem rq),
      rq_pos := rq_pos rq + ?len\<rparr>, gd'))"
    using g(1,2) f(3) by (simp add: io_bio_def gd'_def)
  moreover have "filled ?b a (view contents gd ?b) gd gd'" using f(1) h(5) unfolding gd'_def [symmetric] by (simp add: filled_def)
  moreover have "cached gd ?b = Some a \<or> cached gd ?b = None \<and> a \<notin> entries (gd_hash gd)" using h(2) by (simp add: ready_def)
  moreover have "gd_dev gd' = gd_dev gd3" "gd_dirty gd' = gd_dirty gd" using f(2,4) by (simp_all add: gd'_def)
  ultimately show ?thesis using h(3,4) by auto
qed

lemma io_bio_write:
  assumes "disk_ok usable gd" "bio_ok bio" "unat (b_blockno bio) < nblocks" "2 \<le> gd_mem gd" "rq_flags rq = DEV_WRITE"
    "rq_pos rq + unat (b_len bio) \<le> length (rq_mem rq)"
  shows "\<exists>a gd'. io_bio ll_rw bio rq gd = Some (Inr (rq\<lparr>rq_pos := rq_pos rq + unat (b_len bio)\<rparr>, gd')) \<and>
      filled (b_blockno bio) a (written bio rq (view contents gd (b_blockno bio))) gd gd' \<and>
      (cached gd (b_blockno bio) = Some a \<or> cached gd (b_blockno bio) = None \<and> a \<notin> entries (gd_hash gd)) \<and> usable (gd_dev gd') \<and>
      (\<forall>c i. unat c < nblocks \<longrightarrow> i < 4096 \<longrightarrow> contents (gd_dev gd') c i = contents (gd_dev gd) c i) \<and>
      gd_dirty gd' = a # remove1 a (gd_dirty gd)"
proof -
  let ?b = "b_blockno bio" and ?off = "unat (b_offset bio)" and ?len = "unat (b_len bio)"
  have ck: "cache_ok gd" "\<And>x. cached gd ?b = Some x \<Longrightarrow> \<not> bh_locked (gd_bufs gd x)"
    using assms(1) cached_entry(1) by (auto simp: disk_ok_def)
  obtain a gd1 gd2 where g: "buf_get ?b gd = Inr (a, gd1)" "buf_pin a gd1 = Some gd2" "ready ?b a gd gd2" "gd_dev gd2 = gd_dev gd"
    "if newb gd2 a then view contents gd ?b = contents (gd_dev gd) ?b else view contents gd ?b = bh_page (gd_bufs gd2 a)"
    using get_pin [OF ck(1) assms(4) ck(2)] by blast
  have u: "usable (gd_dev gd2)" using g(4) assms(1) by (simp add: disk_ok_def)
  have bk: "?off + ?len \<le> 4096" using assms(2) by (simp add: bio_ok_def)
  define full where "full = (b_offset bio = 0 \<and> b_len bio = BLK_SIZE)"
  have fl: "full \<Longrightarrow> ?off = 0 \<and> ?len = 4096" by (simp add: full_def unat_blk)
  obtain gd3 where h: "(if \<not> full \<and> buf_is_new a gd2 then gd_ll_rw ll_rw a ?b DEV_READ gd2 else Inr gd2) = Inr gd3" "ready ?b a gd gd3" "usable (gd_dev gd3)"
    "\<forall>c i. unat c < nblocks \<longrightarrow> i < 4096 \<longrightarrow> contents (gd_dev gd3) c i = contents (gd_dev gd) c i"
    "full \<or> (\<forall>i<4096. bh_page (gd_bufs gd3 a) i = view contents gd ?b i)"
  proof (cases full)
    case True
    then show thesis using that [of gd2] g(3,4) u by simp
  next
    case False
    then show thesis using fill_ready [OF g(3) u assms(3) g(4,5)] that by auto
  qed
  define gd4 where "gd4 = set_buf a (\<lambda>h. h\<lparr>bh_page := written bio rq (bh_page h)\<rparr>) gd3"
  have c: "cache_ok gd4" "cached gd4 = cached gd3" using cache_frame [of gd3 gd4] h(2) by (auto simp: ready_def gd4_def set_buf_def)
  have r4: "ready ?b a gd gd4" using h(2) c by (auto simp: ready_def gd4_def set_buf_def)
  have w: "\<forall>i<4096. bh_page (gd_bufs gd4 a) i = written bio rq (view contents gd ?b) i"
    using h(5) fl bk by (auto simp: gd4_def set_buf_def written_def)
  define gd' where "gd' = (buf_unpin a (buf_release a True gd4))\<lparr>gd_mem := gd_mem gd4 + 1\<rparr>"
  note f = finish_effect [OF r4, of True]
  have dd: "DEV_WRITE \<noteq> DEV_READ" by (simp add: DEV_WRITE_def DEV_READ_def)
  have "bio_transfer ll_rw bio a rq gd2 = Inr (rq, buf_unpin a (buf_release a True gd4))"
    unfolding bio_transfer_def Let_def assms(5) full_def [symmetric] h(1) if_not_P [OF dd] if_P [OF refl]
    using assms(6) bk by (simp add: gd4_def written_def)
  then have "io_bio ll_rw bio rq gd = Some (Inr (rq\<lparr>rq_pos := rq_pos rq + ?len\<rparr>, gd'))"
    using g(1,2) f(3) by (simp add: io_bio_def gd'_def)
  moreover have "filled ?b a (written bio rq (view contents gd ?b)) gd gd'" using f(1) w unfolding gd'_def [symmetric] by (simp add: filled_def)
  moreover have "cached gd ?b = Some a \<or> cached gd ?b = None \<and> a \<notin> entries (gd_hash gd)" using h(2) by (simp add: ready_def)
  moreover have "gd_dev gd' = gd_dev gd3" "gd_dirty gd' = a # remove1 a (gd_dirty gd)" using f(2,4) by (simp_all add: gd'_def gd4_def set_buf_def)
  ultimately show ?thesis using h(3,4) by auto
qed

lemma flat_frame:
  assumes "\<And>c i. unat c < nblocks \<Longrightarrow> i < 4096 \<Longrightarrow> view contents gd' c i = view contents gd c i" "p < nblocks * 4096" "nblocks \<le> 2 ^ 32"
  shows "flat contents gd' p = flat contents gd p"
proof -
  have "p div 4096 < nblocks" using assms(2) by (simp add: div_less_iff_less_mult)
  then have "unat (of_nat (p div 4096) :: u32) < nblocks" using assms(3) by (subst unat_of_nat_id) simp_all
  then show ?thesis using assms(1) by (simp add: flat_def)
qed

lemma flat_written:
  assumes "\<And>c i. unat c < nblocks \<Longrightarrow> i < 4096 \<Longrightarrow>
      view contents gd' c i = (if c = b_blockno bio then written bio rq (view contents gd (b_blockno bio)) i else view contents gd c i)"
    and "p < nblocks * 4096" "nblocks \<le> 2 ^ 32" "bio_ok bio" "S = unat (b_blockno bio) * 4096 + unat (b_offset bio)"
  shows "flat contents gd' p = (if S \<le> p \<and> p < S + unat (b_len bio) then rq_mem rq ! (rq_pos rq + (p - S)) else flat contents gd p)"
proof -
  have "p div 4096 < nblocks" using assms(2) by (simp add: div_less_iff_less_mult)
  then have u: "unat (of_nat (p div 4096) :: u32) = p div 4096" using assms(3) by (subst unat_of_nat_id) simp_all
  have v: "flat contents gd' p = (if of_nat (p div 4096) = b_blockno bio then written bio rq (view contents gd (b_blockno bio)) (p mod 4096) else flat contents gd p)"
    using assms(1) [of "of_nat (p div 4096)" "p mod 4096"] u \<open>p div 4096 < nblocks\<close> by (simp add: flat_def)
  show ?thesis
  proof (cases "of_nat (p div 4096) = b_blockno bio")
    case True
    then have "p = unat (b_blockno bio) * 4096 + p mod 4096" using u by (metis div_mult_mod_eq)
    then have "unat (b_offset bio) \<le> p mod 4096 \<longleftrightarrow> S \<le> p" "p mod 4096 < unat (b_offset bio) + unat (b_len bio) \<longleftrightarrow> p < S + unat (b_len bio)"
      "p mod 4096 - unat (b_offset bio) = p - S" using assms(5) by linarith+
    then show ?thesis using v True by (simp add: written_def flat_def)
  next
    case False
    have "\<not> (S \<le> p \<and> p < S + unat (b_len bio))"
    proof
      assume "S \<le> p \<and> p < S + unat (b_len bio)"
      then have "p \<in> set (bio_bytes bio)" using assms(5) by (simp add: bio_bytes_def)
      then show False using bio_byte(1) [OF assms(4)] False by blast
    qed
    then show ?thesis using v False by auto
  qed
qed

lemma bio_in_range:
  assumes "bio_bytes bio @ ys = [S ..< S + L]" "bio_ok bio" "S + L \<le> nblocks * 4096"
  shows "unat (b_blockno bio) < nblocks" "S = unat (b_blockno bio) * 4096 + unat (b_offset bio)" "unat (b_len bio) \<le> L" "ys = [S + unat (b_len bio) ..< S + L]"
proof -
  have l: "0 < unat (b_len bio)" using assms(2) by (simp add: bio_ok_def)
  note f = upt_front [OF assms(1) [unfolded bio_bytes_def] l]
  show "S = unat (b_blockno bio) * 4096 + unat (b_offset bio)" "unat (b_len bio) \<le> L" "ys = [S + unat (b_len bio) ..< S + L]" using f by simp_all
  then have "unat (b_blockno bio) * 4096 < nblocks * 4096" using assms(3) l by linarith
  then show "unat (b_blockno bio) < nblocks" by simp
qed

lemma io_bios_read:
  assumes "disk_ok usable gd" "\<forall>b\<in>set bl. bio_ok b" "concat (map bio_bytes bl) = [S ..< S + L]" "S + L \<le> nblocks * 4096" "nblocks \<le> 2 ^ 32"
    "length bl + 1 \<le> gd_mem gd" "rq_flags rq = DEV_READ" "rq_pos rq + L \<le> length (rq_mem rq)"
  shows "\<exists>gd'. io_bios ll_rw bl rq gd = Some (Inr (rq\<lparr>rq_mem := splice (rq_pos rq) (map (flat contents gd) [S ..< S + L]) (rq_mem rq),
      rq_pos := rq_pos rq + L\<rparr>, gd')) \<and> disk_ok usable gd' \<and> (\<forall>p<nblocks * 4096. flat contents gd' p = flat contents gd p) \<and>
      gd_queue gd' = gd_queue gd \<and> gd_mem gd \<le> gd_mem gd' + length bl \<and> (clean contents nblocks gd \<longrightarrow> clean contents nblocks gd') \<and> kept contents nblocks gd gd'"
  using assms
proof (induction bl arbitrary: gd rq S L)
  case Nil
  have "L = 0" using arg_cong [OF Nil.prems(3), of length] by simp
  then show ?case using Nil.prems kept_refl by (subst io_bios.simps) (simp add: splice_def)
next
  case (Cons bio bl)
  have ok: "bio_ok bio" "\<forall>b\<in>set bl. bio_ok b" using Cons.prems(2) by auto
  let ?n = "unat (b_len bio)"
  have "bio_bytes bio @ concat (map bio_bytes bl) = [S ..< S + L]" using Cons.prems(3) by simp
  note r = bio_in_range [OF this ok(1) Cons.prems(4)]
  obtain m where m: "L = ?n + m" using r(3) by (metis le_iff_add)
  have len: "rq_pos rq + ?n \<le> length (rq_mem rq)" "2 \<le> gd_mem gd" "b_len bio \<noteq> 0" using Cons.prems(6,8) m ok(1) by (auto simp: bio_ok_def)
  obtain a gd1 where g: "io_bio ll_rw bio rq gd = Some (Inr (rq\<lparr>rq_mem := splice (rq_pos rq) (map (view contents gd (b_blockno bio))
      [unat (b_offset bio) ..< unat (b_offset bio) + ?n]) (rq_mem rq), rq_pos := rq_pos rq + ?n\<rparr>, gd1))"
    "filled (b_blockno bio) a (view contents gd (b_blockno bio)) gd gd1" "cached gd (b_blockno bio) = Some a \<or> cached gd (b_blockno bio) = None \<and> a \<notin> entries (gd_hash gd)" "usable (gd_dev gd1)"
    "\<forall>c i. unat c < nblocks \<longrightarrow> i < 4096 \<longrightarrow> contents (gd_dev gd1) c i = contents (gd_dev gd) c i" "gd_dirty gd1 = gd_dirty gd"
    using io_bio_read [OF Cons.prems(1) ok(1) r(1) len(2) Cons.prems(7) len(1)] by blast
  define rq1 where "rq1 = rq\<lparr>rq_mem := splice (rq_pos rq) (map (flat contents gd) (bio_bytes bio)) (rq_mem rq), rq_pos := rq_pos rq + ?n\<rparr>"
  have g1: "io_bio ll_rw bio rq gd = Some (Inr (rq1, gd1))" using g(1) unfolding map_flat_bio [OF ok(1)] rq1_def .
  have bb: "bio_bytes bio = [S ..< S + ?n]" using r(2) by (simp add: bio_bytes_def)
  have d1: "disk_ok usable gd1" by (rule filled_disk_ok [OF Cons.prems(1) g(2,4)])
  have ck: "cache_ok gd" using Cons.prems(1) by (simp add: disk_ok_def)
  have v: "view contents gd1 c i = view contents gd c i" if "unat c < nblocks" "i < 4096" for c i
    using filled_view [OF ck g(2,3), of nblocks contents c i] g(5) that by auto
  have fl: "flat contents gd1 p = flat contents gd p" if "p < nblocks * 4096" for p by (rule flat_frame [OF v that Cons.prems(5)])
  have q: "gd_queue gd1 = gd_queue gd" "gd_mem gd \<le> gd_mem gd1 + 1" using g(2) by (auto simp: filled_def)
  have cl: "clean contents nblocks gd \<Longrightarrow> clean contents nblocks gd1" using filled_clean [OF ck g(2,3) r(1)] g(5,6) by blast
  have kp: "kept contents nblocks gd gd1" by (rule filled_kept [OF g(2,3,5)])
  have pr: "concat (map bio_bytes bl) = [S + ?n ..< S + ?n + m]" "S + ?n + m \<le> nblocks * 4096" "length bl + 1 \<le> gd_mem gd1" "rq_flags rq1 = DEV_READ"
    "rq_pos rq1 + m \<le> length (rq_mem rq1)"
    using r(4) m Cons.prems(4,6,7,8) q(2) length_splice [of "rq_pos rq" "map (flat contents gd) (bio_bytes bio)" "rq_mem rq"] len(1)
    by (simp_all add: rq1_def bb add.assoc)
  obtain gd' where i: "io_bios ll_rw bl rq1 gd1 = Some (Inr (rq1\<lparr>rq_mem := splice (rq_pos rq1) (map (flat contents gd1) [S + ?n ..< S + ?n + m]) (rq_mem rq1),
      rq_pos := rq_pos rq1 + m\<rparr>, gd'))" "disk_ok usable gd'" "\<forall>p<nblocks * 4096. flat contents gd' p = flat contents gd1 p"
      "gd_queue gd' = gd_queue gd1" "gd_mem gd1 \<le> gd_mem gd' + length bl" "clean contents nblocks gd1 \<longrightarrow> clean contents nblocks gd'" "kept contents nblocks gd1 gd'"
    using Cons.IH [OF d1 ok(2) pr(1,2) Cons.prems(5) pr(3-5)] by blast
  have mf: "map (flat contents gd1) [S + ?n ..< S + ?n + m] = map (flat contents gd) [S + ?n ..< S + ?n + m]" using fl pr(2) by simp
  have "splice (rq_pos rq1) (map (flat contents gd1) [S + ?n ..< S + ?n + m]) (rq_mem rq1) = splice (rq_pos rq) (map (flat contents gd) [S ..< S + L]) (rq_mem rq)"
    using splice_splice [of "rq_pos rq" "map (flat contents gd) (bio_bytes bio)" "rq_mem rq" "map (flat contents gd) [S + ?n ..< S + ?n + m]"] len(1)
    unfolding mf by (simp add: rq1_def bb m upt_append add.assoc flip: map_append)
  then have "io_bios ll_rw (bio # bl) rq gd = Some (Inr (rq\<lparr>rq_mem := splice (rq_pos rq) (map (flat contents gd) [S ..< S + L]) (rq_mem rq), rq_pos := rq_pos rq + L\<rparr>, gd'))"
    using g1 i(1) len(3) by (subst io_bios.simps) (simp add: rq1_def m ac_simps)
  then show ?case using i(2-6) fl q cl kept_trans [OF kp i(7)] by auto
qed

lemma io_bios_write:
  assumes "disk_ok usable gd" "\<forall>b\<in>set bl. bio_ok b" "concat (map bio_bytes bl) = [S ..< S + L]" "S + L \<le> nblocks * 4096" "nblocks \<le> 2 ^ 32"
    "length bl + 1 \<le> gd_mem gd" "rq_flags rq = DEV_WRITE" "rq_pos rq + L \<le> length (rq_mem rq)"
  shows "\<exists>gd'. io_bios ll_rw bl rq gd = Some (Inr (rq\<lparr>rq_pos := rq_pos rq + L\<rparr>, gd')) \<and> disk_ok usable gd' \<and>
      (\<forall>p<nblocks * 4096. flat contents gd' p = (if S \<le> p \<and> p < S + L then rq_mem rq ! (rq_pos rq + (p - S)) else flat contents gd p)) \<and>
      gd_queue gd' = gd_queue gd \<and> gd_mem gd \<le> gd_mem gd' + length bl \<and> (clean contents nblocks gd \<longrightarrow> clean contents nblocks gd') \<and> kept contents nblocks gd gd'"
  using assms
proof (induction bl arbitrary: gd rq S L)
  case Nil
  have "L = 0" using arg_cong [OF Nil.prems(3), of length] by simp
  then show ?case using Nil.prems kept_refl by (subst io_bios.simps) auto
next
  case (Cons bio bl)
  have ok: "bio_ok bio" "\<forall>b\<in>set bl. bio_ok b" using Cons.prems(2) by auto
  let ?n = "unat (b_len bio)" and ?b = "b_blockno bio"
  have "bio_bytes bio @ concat (map bio_bytes bl) = [S ..< S + L]" using Cons.prems(3) by simp
  note r = bio_in_range [OF this ok(1) Cons.prems(4)]
  obtain m where m: "L = ?n + m" using r(3) by (metis le_iff_add)
  have len: "rq_pos rq + ?n \<le> length (rq_mem rq)" "2 \<le> gd_mem gd" "b_len bio \<noteq> 0" using Cons.prems(6,8) m ok(1) by (auto simp: bio_ok_def)
  define rq1 where "rq1 = rq\<lparr>rq_pos := rq_pos rq + ?n\<rparr>"
  obtain a gd1 where g: "io_bio ll_rw bio rq gd = Some (Inr (rq1, gd1))"
    "filled ?b a (written bio rq (view contents gd ?b)) gd gd1" "cached gd ?b = Some a \<or> cached gd ?b = None \<and> a \<notin> entries (gd_hash gd)" "usable (gd_dev gd1)"
    "\<forall>c i. unat c < nblocks \<longrightarrow> i < 4096 \<longrightarrow> contents (gd_dev gd1) c i = contents (gd_dev gd) c i" "gd_dirty gd1 = a # remove1 a (gd_dirty gd)"
    using io_bio_write [OF Cons.prems(1) ok(1) r(1) len(2) Cons.prems(7) len(1)] unfolding rq1_def by blast
  have bb: "bio_bytes bio = [S ..< S + ?n]" using r(2) by (simp add: bio_bytes_def)
  have d1: "disk_ok usable gd1" by (rule filled_disk_ok [OF Cons.prems(1) g(2,4)])
  have ck: "cache_ok gd" using Cons.prems(1) by (simp add: disk_ok_def)
  have v: "view contents gd1 c i = (if c = ?b then written bio rq (view contents gd ?b) i else view contents gd c i)" if "unat c < nblocks" "i < 4096" for c i
    using filled_view [OF ck g(2,3), of nblocks contents c i] g(5) that by auto
  have fl: "flat contents gd1 p = (if S \<le> p \<and> p < S + ?n then rq_mem rq ! (rq_pos rq + (p - S)) else flat contents gd p)" if "p < nblocks * 4096" for p
    by (rule flat_written [OF v that Cons.prems(5) ok(1) r(2)])
  have q: "gd_queue gd1 = gd_queue gd" "gd_mem gd \<le> gd_mem gd1 + 1" using g(2) by (auto simp: filled_def)
  have cl: "clean contents nblocks gd \<Longrightarrow> clean contents nblocks gd1" using filled_clean [OF ck g(2,3) r(1)] g(5,6) by blast
  have kp: "kept contents nblocks gd gd1" by (rule filled_kept [OF g(2,3,5)])
  have pr: "concat (map bio_bytes bl) = [S + ?n ..< S + ?n + m]" "S + ?n + m \<le> nblocks * 4096" "length bl + 1 \<le> gd_mem gd1" "rq_flags rq1 = DEV_WRITE"
    "rq_pos rq1 + m \<le> length (rq_mem rq1)"
    using r(4) m Cons.prems(4,6,7,8) q(2) by (simp_all add: rq1_def add.assoc)
  obtain gd' where i: "io_bios ll_rw bl rq1 gd1 = Some (Inr (rq1\<lparr>rq_pos := rq_pos rq1 + m\<rparr>, gd'))" "disk_ok usable gd'"
      "\<forall>p<nblocks * 4096. flat contents gd' p = (if S + ?n \<le> p \<and> p < S + ?n + m then rq_mem rq1 ! (rq_pos rq1 + (p - (S + ?n))) else flat contents gd1 p)"
      "gd_queue gd' = gd_queue gd1" "gd_mem gd1 \<le> gd_mem gd' + length bl" "clean contents nblocks gd1 \<longrightarrow> clean contents nblocks gd'" "kept contents nblocks gd1 gd'"
    using Cons.IH [OF d1 ok(2) pr(1,2) Cons.prems(5) pr(3-5)] by blast
  have "io_bios ll_rw (bio # bl) rq gd = Some (Inr (rq\<lparr>rq_pos := rq_pos rq + L\<rparr>, gd'))"
    using g(1) i(1) len(3) by (subst io_bios.simps) (simp add: rq1_def m ac_simps)
  moreover have "\<forall>p<nblocks * 4096. flat contents gd' p = (if S \<le> p \<and> p < S + L then rq_mem rq ! (rq_pos rq + (p - S)) else flat contents gd p)"
    using i(3) fl m by (auto simp: rq1_def)
  ultimately show ?case using i(2,4-6) q cl kept_trans [OF kp i(7)] by auto
qed

text \<open>A request that is served at once, with the memory it takes: two objects for each block that was not cached.\<close>

lemma rw_chain:
  assumes "unat off mod 4096 + unat len \<le> 2 ^ 32" "unat b * 4096 + unat off + unat len \<le> nblocks * 4096" "nblocks \<le> 2 ^ 32"
    "2 * (unat len div 4096) + 6 \<le> gd_mem gd" "gd_queue gd = []" "disk_ok usable gd"
  shows "\<exists>bl gd1. make_request b off len v rw gd = Inr (gd1\<lparr>gd_queue := [\<lparr>rq_flags = rw, rq_bio = bl, rq_completed = False, rq_mem = v, rq_pos = 0\<rparr>]\<rparr>) \<and>
    (\<forall>x\<in>set bl. bio_ok x) \<and> concat (map bio_bytes bl) = [unat b * 4096 + unat off ..< unat b * 4096 + unat off + unat len] \<and>
    gd_queue gd1 = [] \<and> disk_ok usable gd1 \<and> (\<forall>p. flat contents gd1 p = flat contents gd p) \<and> length bl + 1 \<le> gd_mem gd1 \<and>
    gd_mem gd1 + length bl + 1 = gd_mem gd \<and> length bl \<le> unat len div 4096 + 2 \<and> (clean contents nblocks gd \<longrightarrow> clean contents nblocks gd1) \<and> kept contents nblocks gd gd1"
proof -
  have "unat b * 4096 + unat off + unat len \<le> 2 ^ 44" using assms(2,3) by simp
  moreover have "unat len div 4096 + 2 \<le> gd_mem gd - 1" using assms(4) by simp
  ultimately obtain bl m where b: "bio_list_make b off len (gd_mem gd - 1) = Inr (bl, m)" "m + length bl = gd_mem gd - 1" "length bl \<le> unat len div 4096 + 2"
    "\<forall>x\<in>set bl. bio_ok x" "concat (map bio_bytes bl) = [unat b * 4096 + unat off ..< unat b * 4096 + unat off + unat len]"
    using bio_chain [OF assms(1), of b "gd_mem gd - 1"] by blast
  define gd1 where "gd1 = gd\<lparr>gd_mem := m\<rparr>"
  have c: "cache_ok gd1" "cached gd1 = cached gd" using cache_frame [of gd gd1] assms(6) by (auto simp: disk_ok_def gd1_def)
  have "disk_ok usable gd1" using c(1) assms(6) by (simp add: disk_ok_def gd1_def)
  moreover have "flat contents gd1 p = flat contents gd p" for p using c(2) by (simp add: flat_def view_def gd1_def newb_def split: option.splits)
  moreover have "make_request b off len v rw gd = Inr (gd1\<lparr>gd_queue := [\<lparr>rq_flags = rw, rq_bio = bl, rq_completed = False, rq_mem = v, rq_pos = 0\<rparr>]\<rparr>)"
    using assms(4,5) b(1) by (simp add: make_request_def request_alloc_def rq_append_def gd1_def)
  moreover have "length bl + 1 \<le> m" "m + length bl + 1 = gd_mem gd" using b(2,3) assms(4) by linarith+
  moreover have "clean contents nblocks gd \<Longrightarrow> clean contents nblocks gd1" by (simp add: clean_def gd1_def newb_def)
  moreover have "kept contents nblocks gd gd1" using c(2) by (simp add: kept_def gd1_def)
  ultimately show ?thesis using b(3-5) assms(5) by (intro exI [of _ bl] exI [of _ gd1]) (simp add: gd1_def)
qed

lemma blk_read_correct:
  assumes "unat off mod 4096 + unat len \<le> 2 ^ 32" "unat b * 4096 + unat off + unat len \<le> nblocks * 4096" "nblocks \<le> 2 ^ 32"
    "2 * (unat len div 4096) + 6 \<le> gd_mem gd" "gd_queue gd = []" "disk_ok usable gd" "unat len \<le> length v"
  shows "\<exists>gd'. blk_read ll_rw b off len (Some v) gd = Some (Inr (0, map (flat contents gd) [unat b * 4096 + unat off ..< unat b * 4096 + unat off + unat len] @ drop (unat len) v, gd')) \<and>
    disk_ok usable gd' \<and> gd_queue gd' = [] \<and> (\<forall>p<nblocks * 4096. flat contents gd' p = flat contents gd p) \<and>
    gd_mem gd \<le> gd_mem gd' + 2 * (unat len div 4096) + 4 \<and> (clean contents nblocks gd \<longrightarrow> clean contents nblocks gd') \<and> kept contents nblocks gd gd'"
proof -
  let ?S = "unat b * 4096 + unat off"
  obtain bl gd1 where r: "make_request b off len v DEV_READ gd = Inr (gd1\<lparr>gd_queue := [\<lparr>rq_flags = DEV_READ, rq_bio = bl, rq_completed = False, rq_mem = v, rq_pos = 0\<rparr>]\<rparr>)"
    "\<forall>x\<in>set bl. bio_ok x" "concat (map bio_bytes bl) = [?S ..< ?S + unat len]" "gd_queue gd1 = []" "disk_ok usable gd1"
    "\<And>p. flat contents gd1 p = flat contents gd p" "length bl + 1 \<le> gd_mem gd1" "gd_mem gd1 + length bl + 1 = gd_mem gd" "length bl \<le> unat len div 4096 + 2"
    "clean contents nblocks gd \<longrightarrow> clean contents nblocks gd1" "kept contents nblocks gd gd1"
    using rw_chain [OF assms(1-6)] by blast
  let ?rq = "\<lparr>rq_flags = DEV_READ, rq_bio = bl, rq_completed = False, rq_mem = v, rq_pos = 0\<rparr>"
  obtain gd2 where i: "io_bios ll_rw bl ?rq gd1 = Some (Inr (?rq\<lparr>rq_mem := splice 0 (map (flat contents gd1) [?S ..< ?S + unat len]) v, rq_pos := unat len\<rparr>, gd2))"
    "disk_ok usable gd2" "\<forall>p<nblocks * 4096. flat contents gd2 p = flat contents gd1 p" "gd_queue gd2 = []" "gd_mem gd1 \<le> gd_mem gd2 + length bl" "clean contents nblocks gd1 \<longrightarrow> clean contents nblocks gd2" "kept contents nblocks gd1 gd2"
    using io_bios_read [OF r(5,2,3) assms(2,3) r(7), of ?rq] assms(7) r(4) by auto
  have q: "gd1\<lparr>gd_queue := []\<rparr> = gd1" using r(4) by simp
  have fm: "map (flat contents gd1) [?S ..< ?S + unat len] = map (flat contents gd) [?S ..< ?S + unat len]" by (simp add: r(6))
  define gd' where "gd' = rq_del gd2"
  have c: "cache_ok gd'" "cached gd' = cached gd2" using cache_frame [of gd2 gd'] i(2) by (auto simp: disk_ok_def gd'_def rq_del_def)
  have d: "disk_ok usable gd'" using c(1) i(2) by (simp add: disk_ok_def gd'_def rq_del_def)
  have f: "flat contents gd' p = flat contents gd2 p" for p using c(2) by (simp add: flat_def view_def gd'_def rq_del_def newb_def split: option.splits)
  have "gen_rw ll_rw DEV_READ b off len v gd = Some (Inr (map (flat contents gd) [?S ..< ?S + unat len] @ drop (unat len) v, gd'))"
    using i(1) q assms(5) unfolding gen_rw_def r(1) fm
    by (simp add: gen_start_io_def get_next_rq_def rq_set_complete_def splice_def gd'_def)
  then have "blk_read ll_rw b off len (Some v) gd = Some (Inr (0, map (flat contents gd) [?S ..< ?S + unat len] @ drop (unat len) v, gd'))"
    by (simp add: blk_read_def gen_disk_read_def gen_read_def)
  moreover have "clean contents nblocks gd2 \<Longrightarrow> clean contents nblocks gd'" by (simp add: clean_def gd'_def rq_del_def newb_def)
  moreover have "kept contents nblocks gd2 gd'" using c(2) by (simp add: kept_def gd'_def rq_del_def)
  ultimately show ?thesis using d f i(3-6) r(6,8-10) kept_trans [OF kept_trans [OF r(11) i(7)]] by (intro exI [of _ gd']) (simp add: gd'_def rq_del_def)
qed

lemma blk_write_correct:
  assumes "unat off mod 4096 + unat len \<le> 2 ^ 32" "unat b * 4096 + unat off + unat len \<le> nblocks * 4096" "nblocks \<le> 2 ^ 32"
    "2 * (unat len div 4096) + 6 \<le> gd_mem gd" "gd_queue gd = []" "disk_ok usable gd" "unat len \<le> length v"
  shows "\<exists>gd'. blk_write ll_rw b off len (Some v) gd = Some (Inr (0, gd')) \<and> disk_ok usable gd' \<and> gd_queue gd' = [] \<and>
    (\<forall>p<nblocks * 4096. flat contents gd' p = (if unat b * 4096 + unat off \<le> p \<and> p < unat b * 4096 + unat off + unat len
      then v ! (p - (unat b * 4096 + unat off)) else flat contents gd p)) \<and>
    gd_mem gd \<le> gd_mem gd' + 2 * (unat len div 4096) + 4 \<and> (clean contents nblocks gd \<longrightarrow> clean contents nblocks gd') \<and> kept contents nblocks gd gd'"
proof -
  let ?S = "unat b * 4096 + unat off"
  obtain bl gd1 where r: "make_request b off len v DEV_WRITE gd = Inr (gd1\<lparr>gd_queue := [\<lparr>rq_flags = DEV_WRITE, rq_bio = bl, rq_completed = False, rq_mem = v, rq_pos = 0\<rparr>]\<rparr>)"
    "\<forall>x\<in>set bl. bio_ok x" "concat (map bio_bytes bl) = [?S ..< ?S + unat len]" "gd_queue gd1 = []" "disk_ok usable gd1"
    "\<And>p. flat contents gd1 p = flat contents gd p" "length bl + 1 \<le> gd_mem gd1" "gd_mem gd1 + length bl + 1 = gd_mem gd" "length bl \<le> unat len div 4096 + 2"
    "clean contents nblocks gd \<longrightarrow> clean contents nblocks gd1" "kept contents nblocks gd gd1"
    using rw_chain [OF assms(1-6)] by blast
  let ?rq = "\<lparr>rq_flags = DEV_WRITE, rq_bio = bl, rq_completed = False, rq_mem = v, rq_pos = 0\<rparr>"
  obtain gd2 where i: "io_bios ll_rw bl ?rq gd1 = Some (Inr (?rq\<lparr>rq_pos := unat len\<rparr>, gd2))" "disk_ok usable gd2"
    "\<forall>p<nblocks * 4096. flat contents gd2 p = (if ?S \<le> p \<and> p < ?S + unat len then v ! (p - ?S) else flat contents gd1 p)"
    "gd_queue gd2 = []" "gd_mem gd1 \<le> gd_mem gd2 + length bl" "clean contents nblocks gd1 \<longrightarrow> clean contents nblocks gd2" "kept contents nblocks gd1 gd2"
    using io_bios_write [OF r(5,2,3) assms(2,3) r(7), of ?rq] assms(7) r(4) by auto
  have q: "gd1\<lparr>gd_queue := []\<rparr> = gd1" using r(4) by simp
  define gd' where "gd' = rq_del gd2"
  have c: "cache_ok gd'" "cached gd' = cached gd2" using cache_frame [of gd2 gd'] i(2) by (auto simp: disk_ok_def gd'_def rq_del_def)
  have d: "disk_ok usable gd'" using c(1) i(2) by (simp add: disk_ok_def gd'_def rq_del_def)
  have f: "flat contents gd' p = flat contents gd2 p" for p using c(2) by (simp add: flat_def view_def gd'_def rq_del_def newb_def split: option.splits)
  have "gen_rw ll_rw DEV_WRITE b off len v gd = Some (Inr (v, gd'))"
    using i(1) q assms(5) unfolding gen_rw_def r(1)
    by (simp add: gen_start_io_def get_next_rq_def rq_set_complete_def gd'_def)
  then have "blk_write ll_rw b off len (Some v) gd = Some (Inr (0, gd'))"
    by (simp add: blk_write_def gen_disk_write_def gen_write_def)
  moreover have "clean contents nblocks gd2 \<Longrightarrow> clean contents nblocks gd'" by (simp add: clean_def gd'_def rq_del_def newb_def)
  moreover have "kept contents nblocks gd2 gd'" using c(2) by (simp add: kept_def gd'_def rq_del_def)
  ultimately show ?thesis using d f i(3-6) r(6,8-10) kept_trans [OF kept_trans [OF r(11) i(7)]] by (intro exI [of _ gd']) (simp add: gd'_def rq_del_def)
qed

end

end
