(* ===== verification/Flush.thy ===== *)
theory Flush
  imports Gendisk
begin

text \<open>
  Writing dirty buffers back (kernel/dev/blk/flush.c), the RAM disk (drivers/blk/mvir_blk.c), and the theorems on the block layer as a
  whole: over any driver that keeps its contract it is an array of bytes, and a flush puts the contents of the cache on the device.
\<close>

section \<open>The flush thread\<close>

text \<open>A round takes the dirty buffers one by one; the cache is unlocked while a buffer is written.\<close>

definition flush_pop :: "'d gendisk \<Rightarrow> (nat \<times> 'd gendisk) option" where
  "flush_pop gd = (case gd_dirty gd of [] \<Rightarrow> None | b # rest \<Rightarrow> Some (b, gd\<lparr>gd_dirty := rest\<rparr>))"

definition flush_write :: "'d driver \<Rightarrow> nat \<Rightarrow> 'd gendisk \<Rightarrow> 'd gendisk kres option" where
  "flush_write ll_rw b gd = (case buf_pin b gd of
      None \<Rightarrow> None
    | Some gd1 \<Rightarrow> Some (kbind (gd_ll_rw ll_rw b (bh_blockno (gd_bufs gd1 b)) DEV_WRITE gd1) (\<lambda>gd2. Inr (buf_unpin b gd2))))"

definition flush_done :: "nat \<Rightarrow> 'd gendisk \<Rightarrow> 'd gendisk" where
  "flush_done b gd = (set_buf b (\<lambda>h. h\<lparr>bh_flags := CLEAR_FLAG (bh_flags h) BH_Dirty\<rparr>) gd)\<lparr>gd_dirty := remove1 b (gd_dirty gd)\<rparr>"

partial_function (option) flush_bhash :: "'d driver \<Rightarrow> 'd gendisk \<Rightarrow> 'd gendisk kres option" where
  "flush_bhash ll_rw gd = (case flush_pop gd of
      None \<Rightarrow> Some (Inr gd)
    | Some (b, gd1) \<Rightarrow> Option.bind (flush_write ll_rw b gd1) (\<lambda>r. case r of
        Inl e \<Rightarrow> Some (Inl e)
      | Inr gd2 \<Rightarrow> flush_bhash ll_rw (flush_done b gd2)))"

text \<open>The end of a step only touches the dirty list and the dirty flag.\<close>

lemma flush_done_frame:
  "gd_hash (flush_done a gd) = gd_hash gd" "gd_next (flush_done a gd) = gd_next gd" "gd_dev (flush_done a gd) = gd_dev gd" "gd_queue (flush_done a gd) = gd_queue gd"
  "gd_mem (flush_done a gd) = gd_mem gd" "gd_dirty (flush_done a gd) = remove1 a (gd_dirty gd)" "newb (flush_done a gd) x = newb gd x"
  "bh_blockno (gd_bufs (flush_done a gd) x) = bh_blockno (gd_bufs gd x)" "bh_page (gd_bufs (flush_done a gd) x) = bh_page (gd_bufs gd x)"
  "bh_locked (gd_bufs (flush_done a gd) x) = bh_locked (gd_bufs gd x)"
  by (auto simp: flush_done_def set_buf_def newb_def)

lemma flush_done_view: "cached (flush_done a gd) = cached gd" "view C (flush_done a gd) = view C gd"
proof -
  have k: "bh_key (flush_done a gd) = bh_key gd" by (simp add: bh_key_def flush_done_frame fun_eq_iff)
  show c: "cached (flush_done a gd) = cached gd" unfolding cached_def k by (simp add: flush_done_frame)
  show "view C (flush_done a gd) = view C gd" unfolding view_def c by (auto simp: flush_done_frame split: option.splits)
qed

lemma flush_done_ok: "disk_ok usable (flush_done a gd) = disk_ok usable gd"
  "a \<notin> set (gd_dirty gd) \<Longrightarrow> clean C n (flush_done a gd) = clean C n gd"
proof -
  have k: "bh_key (flush_done a gd) = bh_key gd" by (simp add: bh_key_def flush_done_frame fun_eq_iff)
  show "disk_ok usable (flush_done a gd) = disk_ok usable gd" unfolding disk_ok_def cache_ok_def k by (simp add: flush_done_frame)
  show "a \<notin> set (gd_dirty gd) \<Longrightarrow> clean C n (flush_done a gd) = clean C n gd" by (simp add: clean_def flush_done_frame remove1_idem)
qed

text \<open>One buffer is written: it agrees with the device afterwards, and the contents of all blocks stay as they were.\<close>

context block_driver
begin

lemma flush_step:
  assumes "disk_ok usable gd" "clean contents nblocks gd" "gd_dirty gd = a # rest"
  shows "\<exists>gd2. flush_write ll_rw a (gd\<lparr>gd_dirty := rest\<rparr>) = Some (Inr gd2) \<and> disk_ok usable (flush_done a gd2) \<and> clean contents nblocks (flush_done a gd2) \<and>
    gd_dirty (flush_done a gd2) = rest \<and> (\<forall>c i. unat c < nblocks \<longrightarrow> i < 4096 \<longrightarrow> view contents (flush_done a gd2) c i = view contents gd c i) \<and>
    gd_queue (flush_done a gd2) = gd_queue gd \<and> gd_mem (flush_done a gd2) = gd_mem gd"
proof -
  define b where "b = bh_blockno (gd_bufs gd a)"
  have ck: "cache_ok gd" "usable (gd_dev gd)" using assms(1) by (auto simp: disk_ok_def)
  have k: "a \<in> entries (gd_hash gd)" "a \<notin> set rest" "unat b < nblocks" "\<not> newb gd a" "\<not> bh_locked (gd_bufs gd a)"
    using assms by (auto simp: clean_def b_def disk_ok_def)
  obtain d' where d: "ll_rw (gd_dev gd) b (bh_page (gd_bufs gd a)) DEV_WRITE = Inr (d', bh_page (gd_bufs gd a))" "usable d'"
    "\<And>c i. unat c < nblocks \<Longrightarrow> i < 4096 \<Longrightarrow> contents d' c i = (if c = b then bh_page (gd_bufs gd a) i else contents (gd_dev gd) c i)"
    using write_law [OF ck(2) k(3)] by blast
  define gd2 where "gd2 = buf_unpin a (set_buf a (\<lambda>h. h\<lparr>bh_page := bh_page (gd_bufs gd a)\<rparr>) ((set_buf a (\<lambda>h. h\<lparr>bh_locked := True\<rparr>) (gd\<lparr>gd_dirty := rest\<rparr>))\<lparr>gd_dev := d'\<rparr>))"
  define gd' where "gd' = flush_done a gd2"
  have w: "flush_write ll_rw a (gd\<lparr>gd_dirty := rest\<rparr>) = Some (Inr gd2)"
    using k(5) d(1) by (simp add: flush_write_def buf_pin_def gd_ll_rw_def set_buf_def gd2_def b_def)
  have gb: "gd_bufs gd' x = (if x = a then (gd_bufs gd a)\<lparr>bh_flags := CLEAR_FLAG (bh_flags (gd_bufs gd a)) BH_Dirty, bh_locked := False\<rparr> else gd_bufs gd x)" for x
    by (simp add: gd'_def gd2_def flush_done_def buf_unpin_def set_buf_def)
  have g: "gd_hash gd' = gd_hash gd" "gd_next gd' = gd_next gd" "gd_dev gd' = d'" "gd_dirty gd' = rest" "gd_queue gd' = gd_queue gd" "gd_mem gd' = gd_mem gd"
    using k(2) by (simp_all add: gd'_def gd2_def flush_done_def buf_unpin_def set_buf_def remove1_idem)
  have h: "bh_blockno (gd_bufs gd' x) = bh_blockno (gd_bufs gd x)" "bh_page (gd_bufs gd' x) = bh_page (gd_bufs gd x)" "newb gd' x = newb gd x"
    "bh_locked (gd_bufs gd' x) = bh_locked (gd_bufs gd x)" for x using k(5) by (auto simp: gb newb_def)
  have c: "cache_ok gd'" "cached gd' = cached gd" by (rule cache_frame [OF ck(1) g(1)]; simp add: g(2) h(1))+
  have ca: "cached gd b = Some a" using entry_cached [OF ck(1) k(1)] unfolding b_def .
  have ob: "x = a" if "x \<in> entries (gd_hash gd)" "bh_blockno (gd_bufs gd x) = b" for x
  proof -
    have "cached gd b = Some x" using entry_cached [OF ck(1) that(1)] unfolding that(2) .
    then show ?thesis using ca by simp
  qed
  have "disk_ok usable gd'" using c(1) assms(1) d(2) g(1,3) h(4) by (simp add: disk_ok_def)
  moreover have "clean contents nblocks gd'" unfolding clean_def g h
  proof (intro conjI ballI impI allI)
    fix x i assume x: "x \<in> entries (gd_hash gd)" "\<not> newb gd x" "x \<notin> set rest" "i < (4096 :: nat)"
    have "unat (bh_blockno (gd_bufs gd x)) < nblocks" using assms(2) x(1) by (simp add: clean_def)
    note dx = d(3) [OF this x(4)]
    show "bh_page (gd_bufs gd x) i = contents d' (bh_blockno (gd_bufs gd x)) i"
    proof (cases "x = a")
      case True
      then show ?thesis using dx unfolding True b_def by simp
    next
      case False
      then have "bh_blockno (gd_bufs gd x) \<noteq> b" using ob x(1) by blast
      then show ?thesis using dx assms(2,3) x False by (simp add: clean_def)
    qed
  qed (use assms(2,3) in \<open>auto simp: clean_def\<close>)
  moreover have "view contents gd' c i = view contents gd c i" if "unat c < nblocks" "i < 4096" for c i
  proof (cases "cached gd c")
    case None
    then show ?thesis using d(3) [OF that] ca by (auto simp: view_def c g h)
  next
    case (Some x)
    note x = cached_entry [OF ck(1) Some]
    show ?thesis
    proof (cases "x = a")
      case True
      then show ?thesis using Some k(4) by (simp add: view_def c g h)
    next
      case False
      then have "c \<noteq> b" using ob x(1,2) by blast
      then show ?thesis using Some d(3) [OF that] by (simp add: view_def c g h)
    qed
  qed
  ultimately show ?thesis using w g(4-6) unfolding gd'_def by blast
qed

lemma flush_correct:
  assumes "disk_ok usable gd" "clean contents nblocks gd"
  shows "\<exists>gd'. flush_bhash ll_rw gd = Some (Inr gd') \<and> disk_ok usable gd' \<and> clean contents nblocks gd' \<and> gd_dirty gd' = [] \<and>
    (\<forall>c i. unat c < nblocks \<longrightarrow> i < 4096 \<longrightarrow> view contents gd' c i = view contents gd c i) \<and> gd_queue gd' = gd_queue gd \<and> gd_mem gd' = gd_mem gd"
  using assms
proof (induction "gd_dirty gd" arbitrary: gd)
  case Nil
  then show ?case by (subst flush_bhash.simps) (simp add: flush_pop_def)
next
  case (Cons a rest)
  obtain gd2 where s: "flush_write ll_rw a (gd\<lparr>gd_dirty := rest\<rparr>) = Some (Inr gd2)" "disk_ok usable (flush_done a gd2)" "clean contents nblocks (flush_done a gd2)"
    "gd_dirty (flush_done a gd2) = rest" "\<forall>c i. unat c < nblocks \<longrightarrow> i < 4096 \<longrightarrow> view contents (flush_done a gd2) c i = view contents gd c i"
    "gd_queue (flush_done a gd2) = gd_queue gd" "gd_mem (flush_done a gd2) = gd_mem gd"
    using flush_step [OF Cons.prems Cons.hyps(2) [symmetric]] by blast
  obtain gd' where i: "flush_bhash ll_rw (flush_done a gd2) = Some (Inr gd')" "disk_ok usable gd'" "clean contents nblocks gd'" "gd_dirty gd' = []"
    "\<forall>c i. unat c < nblocks \<longrightarrow> i < 4096 \<longrightarrow> view contents gd' c i = view contents (flush_done a gd2) c i" "gd_queue gd' = gd_queue (flush_done a gd2)"
    "gd_mem gd' = gd_mem (flush_done a gd2)"
    using Cons.hyps(1) [OF s(4) [symmetric] s(2,3)] by blast
  have "flush_bhash ll_rw gd = Some (Inr gd')"
    using Cons.hyps(2) [symmetric] s(1) i(1) by (subst flush_bhash.simps) (simp add: flush_pop_def)
  then show ?case using i(2-7) s(5-7) by auto
qed

lemma flushed_view:
  assumes "disk_ok usable gd" "clean contents nblocks gd" "gd_dirty gd = []" "unat c < nblocks" "i < 4096"
  shows "contents (gd_dev gd) c i = view contents gd c i"
proof (cases "cached gd c")
  case (Some a)
  then show ?thesis using assms cached_entry [of gd c a] by (auto simp: view_def clean_def disk_ok_def)
qed (simp add: view_def)

end

section \<open>The RAM disk\<close>

definition DISK_SIZE :: nat where "DISK_SIZE = 4 * 1024 * 1024"

text \<open>The state of the RAM disk is its memory from \<open>addr\<close> on; the product of block number and page size is a 32-bit product.\<close>

definition mvirt_blk_dev_init :: mem where
  "mvirt_blk_dev_init = (\<lambda>_. 97)"

definition mvirt_blk_ll_rw :: "mem \<Rightarrow> u32 \<Rightarrow> page_data \<Rightarrow> u32 \<Rightarrow> (mem \<times> page_data) kres" where
  "mvirt_blk_ll_rw m blockno b_page rw =
    (let start = unat (blockno * BLK_SIZE) in
     if rw = DEV_READ then
       if start + 4096 \<le> DISK_SIZE then Inr (m, \<lambda>i. if i < 4096 then m (start + i) else b_page i) else Inl (Fault ''memcpy'')
     else if rw = DEV_WRITE then
       if start + 4096 \<le> DISK_SIZE then Inr (\<lambda>p. if start \<le> p \<and> p < start + 4096 then b_page (p - start) else m p, b_page) else Inl (Fault ''memcpy'')
     else Inr (m, b_page))"

definition mvirt_contents :: "mem \<Rightarrow> u32 \<Rightarrow> page_data" where
  "mvirt_contents m b i = m (unat b * 4096 + i)"

lemma mvirt_start: "unat b < 1024 \<Longrightarrow> unat (b * BLK_SIZE) = unat b * 4096"
  by (simp add: BLK_SIZE_def unat_word_ariths(2))

interpretation mvirt: block_driver mvirt_blk_ll_rw mvirt_contents "\<lambda>_. True" 1024
proof unfold_locales
  fix d pg and b :: u32 assume b: "unat b < 1024"
  have s: "unat b * 4096 + 4096 \<le> DISK_SIZE" using b by (simp add: DISK_SIZE_def)
  show "\<exists>d' pg'. mvirt_blk_ll_rw d b pg DEV_READ = Inr (d', pg') \<and> True \<and> (\<forall>i<4096. pg' i = mvirt_contents d b i) \<and>
    (\<forall>c i. unat c < 1024 \<longrightarrow> i < 4096 \<longrightarrow> mvirt_contents d' c i = mvirt_contents d c i)"
    using s by (simp add: mvirt_blk_ll_rw_def mvirt_start [OF b] mvirt_contents_def)
  have other: "\<not> (unat b * 4096 \<le> unat c * 4096 + i \<and> unat c * 4096 + i < unat b * 4096 + 4096)" if "c \<noteq> b" "i < 4096" for c i
  proof -
    have "unat c \<noteq> unat b" using that(1) by (simp add: word_unat_eq_iff)
    then show ?thesis using that(2) by linarith
  qed
  show "\<exists>d'. mvirt_blk_ll_rw d b pg DEV_WRITE = Inr (d', pg) \<and> True \<and>
    (\<forall>c i. unat c < 1024 \<longrightarrow> i < 4096 \<longrightarrow> mvirt_contents d' c i = (if c = b then pg i else mvirt_contents d c i))"
    unfolding mvirt_blk_ll_rw_def Let_def mvirt_start [OF b] using s other by (auto simp: mvirt_contents_def DEV_WRITE_def DEV_READ_def)
qed

section \<open>The block layer is an array of bytes\<close>

datatype bop = BRead u32 u32 u32 | BWrite u32 u32 "u8 list"

fun run_blk :: "'d driver \<Rightarrow> bop list \<Rightarrow> 'd gendisk \<Rightarrow> (u8 list list \<times> 'd gendisk) kres option" where
  "run_blk ll_rw [] gd = Some (Inr ([], gd))"
| "run_blk ll_rw (BRead b off len # ops) gd =
    Option.bind (blk_read ll_rw b off len (Some (replicate (unat len) 0)) gd) (\<lambda>r. case r of
        Inl e \<Rightarrow> Some (Inl e)
      | Inr (_, v, gd1) \<Rightarrow> map_option (\<lambda>r. kbind r (\<lambda>(outs, gd2). Inr (v # outs, gd2))) (run_blk ll_rw ops gd1))"
| "run_blk ll_rw (BWrite b off v # ops) gd =
    Option.bind (blk_write ll_rw b off (of_nat (length v)) (Some v) gd) (\<lambda>r. case r of
        Inl e \<Rightarrow> Some (Inl e)
      | Inr (_, gd1) \<Rightarrow> run_blk ll_rw ops gd1)"

fun blk_spec :: "bop list \<Rightarrow> (nat \<Rightarrow> u8) \<Rightarrow> u8 list list \<times> (nat \<Rightarrow> u8)" where
  "blk_spec [] m = ([], m)"
| "blk_spec (BRead b off len # ops) m =
    (let S = unat b * 4096 + unat off; (outs, m1) = blk_spec ops m in (map m [S ..< S + unat len] # outs, m1))"
| "blk_spec (BWrite b off v # ops) m =
    (let S = unat b * 4096 + unat off in blk_spec ops (\<lambda>p. if S \<le> p \<and> p < S + length v then v ! (p - S) else m p))"

fun bop_ok :: "nat \<Rightarrow> bop \<Rightarrow> bool" where
  "bop_ok n (BRead b off len) = (unat off mod 4096 + unat len \<le> 2 ^ 32 \<and> unat b * 4096 + unat off + unat len \<le> n * 4096)"
| "bop_ok n (BWrite b off v) = (length v < 2 ^ 32 \<and> unat off mod 4096 + length v \<le> 2 ^ 32 \<and> unat b * 4096 + unat off + length v \<le> n * 4096)"

text \<open>The memory that an operation may take for new buffers.\<close>

fun bop_mem :: "bop \<Rightarrow> nat" where
  "bop_mem (BRead b off len) = 2 * (unat len div 4096) + 4"
| "bop_mem (BWrite b off v) = 2 * (length v div 4096) + 4"

context block_driver
begin

lemma run_blk_correct:
  assumes "nblocks \<le> 2 ^ 32" "disk_ok usable gd" "clean contents nblocks gd" "gd_queue gd = []" "\<forall>q\<in>set ops. bop_ok nblocks q"
    "sum_list (map bop_mem ops) + 2 \<le> gd_mem gd" "\<And>p. p < nblocks * 4096 \<Longrightarrow> flat contents gd p = m p"
  shows "\<exists>gd'. run_blk ll_rw ops gd = Some (Inr (fst (blk_spec ops m), gd')) \<and> disk_ok usable gd' \<and> clean contents nblocks gd' \<and> gd_queue gd' = [] \<and>
    (\<forall>p<nblocks * 4096. flat contents gd' p = snd (blk_spec ops m) p)"
  using assms
proof (induction ops arbitrary: gd m)
  case (Cons q ops)
  show ?case
  proof (cases q)
    case (BRead b off len)
    let ?S = "unat b * 4096 + unat off"
    have ok: "unat off mod 4096 + unat len \<le> 2 ^ 32" "?S + unat len \<le> nblocks * 4096" "2 * (unat len div 4096) + 6 \<le> gd_mem gd"
      "unat len \<le> length (replicate (unat len) 0)" using Cons.prems(5,6) BRead by auto
    obtain gd1 where r: "blk_read ll_rw b off len (Some (replicate (unat len) 0)) gd = Some (Inr (0, map (flat contents gd) [?S ..< ?S + unat len], gd1))"
      "disk_ok usable gd1" "gd_queue gd1 = []" "\<forall>p<nblocks * 4096. flat contents gd1 p = flat contents gd p"
      "gd_mem gd \<le> gd_mem gd1 + 2 * (unat len div 4096) + 4" "clean contents nblocks gd1"
      using blk_read_correct [OF ok(1,2) Cons.prems(1) ok(3) Cons.prems(4,2) ok(4)] Cons.prems(3) by auto
    have "map (flat contents gd) [?S ..< ?S + unat len] = map m [?S ..< ?S + unat len]" using Cons.prems(7) ok(2) by simp
    moreover obtain gd' where "run_blk ll_rw ops gd1 = Some (Inr (fst (blk_spec ops m), gd'))" "disk_ok usable gd'" "clean contents nblocks gd'" "gd_queue gd' = []"
      "\<forall>p<nblocks * 4096. flat contents gd' p = snd (blk_spec ops m) p"
      using Cons.IH [OF Cons.prems(1) r(2,6,3), of m] Cons.prems(5-7) r(4,5) BRead by auto
    ultimately show ?thesis using BRead r(1) by (simp add: Let_def split_beta)
  next
    case (BWrite b off v)
    let ?S = "unat b * 4096 + unat off"
    have l: "unat (of_nat (length v) :: u32) = length v" using Cons.prems(5) BWrite by (subst unat_of_nat_id) auto
    have ok: "unat off mod 4096 + unat (of_nat (length v) :: u32) \<le> 2 ^ 32" "?S + unat (of_nat (length v) :: u32) \<le> nblocks * 4096"
      "2 * (unat (of_nat (length v) :: u32) div 4096) + 6 \<le> gd_mem gd" "unat (of_nat (length v) :: u32) \<le> length v" using Cons.prems(5,6) BWrite unfolding l by auto
    obtain gd1 where r: "blk_write ll_rw b off (of_nat (length v)) (Some v) gd = Some (Inr (0, gd1))"
      "disk_ok usable gd1" "gd_queue gd1 = []" "\<forall>p<nblocks * 4096. flat contents gd1 p = (if ?S \<le> p \<and> p < ?S + length v then v ! (p - ?S) else flat contents gd p)"
      "gd_mem gd \<le> gd_mem gd1 + 2 * (length v div 4096) + 4" "clean contents nblocks gd1"
      using blk_write_correct [OF ok(1,2) Cons.prems(1) ok(3) Cons.prems(4,2) ok(4)] Cons.prems(3) unfolding l by auto
    let ?m = "\<lambda>p. if ?S \<le> p \<and> p < ?S + length v then v ! (p - ?S) else m p"
    have "flat contents gd1 p = ?m p" if "p < nblocks * 4096" for p using r(4) Cons.prems(7) that by auto
    then obtain gd' where "run_blk ll_rw ops gd1 = Some (Inr (fst (blk_spec ops ?m), gd'))" "disk_ok usable gd'" "clean contents nblocks gd'" "gd_queue gd' = []"
      "\<forall>p<nblocks * 4096. flat contents gd' p = snd (blk_spec ops ?m) p"
      using Cons.IH [OF Cons.prems(1) r(2,6,3), of ?m] Cons.prems(5,6) r(5) BWrite by auto
    then show ?thesis using BWrite r(1) by (simp add: Let_def)
  qed
qed simp

lemma gendisk_init_correct:
  assumes "usable (gd_dev gd)" "0 < gd_next gd" "0 < gd_mem gd"
  shows "\<exists>gd'. gendisk_init (Some ll_rw) gd = Inr (ll_rw, gd') \<and> disk_ok usable gd' \<and> clean contents n gd' \<and> gd_queue gd' = [] \<and>
    gd_mem gd' = gd_mem gd - 1 \<and> gd_dev gd' = gd_dev gd \<and> (\<forall>b. view contents gd' b = contents (gd_dev gd) b)"
proof -
  obtain ht :: "nat hash_table" where h: "hash_init 32 True = Inr (1, ht)" "hash_wf (bh_key gd) ht" "hash_map (bh_key gd) ht = Map.empty"
    using hash_init_wf [of 32 "bh_key gd"] by auto
  define gd' where "gd' = gd\<lparr>gd_queue := [], gd_hash := ht, gd_mem := gd_mem gd - 1, gd_active := [], gd_inactive := [], gd_active_count := 0, gd_inactive_count := 0, gd_dirty := []\<rparr>"
  have e: "gendisk_init (Some ll_rw) gd = Inr (ll_rw, gd')" using h(1) assms(3) by (simp add: gendisk_init_def bhash_init_def rq_queue_init_def gd'_def)
  have k: "bh_key gd' = bh_key gd" by (simp add: bh_key_def gd'_def fun_eq_iff)
  have "entries ht = {}" using entry_hash_map [OF h(2)] h(3) by auto
  then have "disk_ok usable gd'" "clean contents n gd'" using h(2) assms k by (simp_all add: disk_ok_def cache_ok_def clean_def gd'_def)
  moreover have "view contents gd' b = contents (gd_dev gd) b" for b using h(3) k by (simp add: view_def cached_def gd'_def)
  ultimately show ?thesis using e by (intro exI [of _ gd']) (simp add: gd'_def)
qed

lemma flat_block:
  assumes "unat (b :: u32) < nblocks" "i < 4096"
  shows "flat contents gd (unat b * 4096 + i) = view contents gd b i" "unat b * 4096 + i < nblocks * 4096"
proof -
  have "Suc (unat b) * 4096 \<le> nblocks * 4096" using assms(1) by (intro mult_le_mono1) simp
  then show "unat b * 4096 + i < nblocks * 4096" using assms(2) by simp
qed (use assms in \<open>simp add: flat_def\<close>)

lemma layer_refines:
  assumes "nblocks \<le> 2 ^ 32" "usable (gd_dev gd)" "0 < gd_next gd"
    "\<forall>q\<in>set ops. bop_ok nblocks q" "sum_list (map bop_mem ops) + 3 \<le> gd_mem gd"
    "\<forall>b i. unat b < nblocks \<longrightarrow> i < 4096 \<longrightarrow> contents (gd_dev gd) b i = m (unat b * 4096 + i)"
  shows "\<exists>gd1 gd2 gd3. gendisk_init (Some ll_rw) gd = Inr (ll_rw, gd1) \<and> run_blk ll_rw ops gd1 = Some (Inr (fst (blk_spec ops m), gd2)) \<and>
    flush_bhash ll_rw gd2 = Some (Inr gd3) \<and>
    (\<forall>b i. unat b < nblocks \<longrightarrow> i < 4096 \<longrightarrow> contents (gd_dev gd3) b i = snd (blk_spec ops m) (unat b * 4096 + i))"
proof -
  have "0 < gd_mem gd" using assms(5) by simp
  then obtain gd1 where g1: "gendisk_init (Some ll_rw) gd = Inr (ll_rw, gd1)" "disk_ok usable gd1" "clean contents nblocks gd1" "gd_queue gd1 = []"
    "gd_mem gd1 = gd_mem gd - 1" "\<And>b. view contents gd1 b = contents (gd_dev gd) b"
    using gendisk_init_correct [OF assms(2,3), of nblocks] by blast
  have m: "flat contents gd1 p = m p" if "p < nblocks * 4096" for p
  proof -
    have "p div 4096 < nblocks" using that by (simp add: div_less_iff_less_mult)
    moreover from this have "unat (of_nat (p div 4096) :: u32) = p div 4096" using assms(1) by (subst unat_of_nat_id) simp_all
    ultimately show ?thesis using assms(6) g1(6) by (simp add: flat_def)
  qed
  have le: "sum_list (map bop_mem ops) + 2 \<le> gd_mem gd1" using assms(5) g1(5) by simp
  obtain gd2 where g2: "run_blk ll_rw ops gd1 = Some (Inr (fst (blk_spec ops m), gd2))" "disk_ok usable gd2" "clean contents nblocks gd2"
    "\<forall>p<nblocks * 4096. flat contents gd2 p = snd (blk_spec ops m) p"
    using run_blk_correct [OF assms(1) g1(2-4) assms(4) le m] by blast
  obtain gd3 where g3: "flush_bhash ll_rw gd2 = Some (Inr gd3)" "disk_ok usable gd3" "clean contents nblocks gd3" "gd_dirty gd3 = []"
    "\<And>c i. unat c < nblocks \<Longrightarrow> i < 4096 \<Longrightarrow> view contents gd3 c i = view contents gd2 c i"
    using flush_correct [OF g2(2,3)] by blast
  have "contents (gd_dev gd3) b i = snd (blk_spec ops m) (unat b * 4096 + i)" if "unat b < nblocks" "i < 4096" for b i
    using flushed_view [OF g3(2-4) that] g3(5) [OF that] flat_block(1) [OF that, of gd2] flat_block(2) [OF that] g2(4) by simp
  then show ?thesis using g1(1) g2(1) g3(1) by blast
qed

lemma lost_update:
  assumes "nblocks \<le> 2 ^ 32" "disk_ok usable gd" "clean contents nblocks gd" "gd_queue gd = []" "6 \<le> gd_mem gd" "gd_dirty gd = a # rest"
    "b = bh_blockno (gd_bufs gd a)" "v \<noteq> view contents gd b 0"
  shows "\<exists>gd1 gd2 gd3. flush_pop gd = Some (a, gd1) \<and> flush_write ll_rw a gd1 = Some (Inr gd2) \<and> blk_write ll_rw b 0 1 (Some [v]) gd2 = Some (Inr (0, gd3)) \<and>
    cached (flush_done a gd3) b = Some a \<and> a \<notin> set (gd_dirty (flush_done a gd3)) \<and>
    view contents (flush_done a gd3) b 0 = v \<and> contents (gd_dev (flush_done a gd3)) b 0 \<noteq> v"
proof -
  have ck: "cache_ok gd" using assms(2) by (simp add: disk_ok_def)
  have k: "a \<in> entries (gd_hash gd)" "a \<notin> set rest" "unat b < nblocks" using assms(3,6,7) by (auto simp: clean_def)
  define gd1 where "gd1 = gd\<lparr>gd_dirty := rest\<rparr>"
  obtain gd2 where w: "flush_write ll_rw a gd1 = Some (Inr gd2)" "disk_ok usable (flush_done a gd2)" "clean contents nblocks (flush_done a gd2)"
    "gd_dirty (flush_done a gd2) = rest" "\<And>c i. unat c < nblocks \<Longrightarrow> i < 4096 \<Longrightarrow> view contents (flush_done a gd2) c i = view contents gd c i"
    "gd_queue (flush_done a gd2) = gd_queue gd" "gd_mem (flush_done a gd2) = gd_mem gd"
    using flush_step [OF assms(2,3,6)] unfolding gd1_def by blast
  have dw: "gd_dirty gd2 = rest" "gd_hash gd2 = gd_hash gd" "bh_blockno (gd_bufs gd2 a) = b"
    using w(1) by (auto simp: flush_write_def buf_pin_def buf_unpin_def gd_ll_rw_def set_buf_def kbind_eq_Inr gd1_def assms(7) split: if_splits)
  have ok: "disk_ok usable gd2" "clean contents nblocks gd2" "gd_queue gd2 = []" "6 \<le> gd_mem gd2"
    using w(2,3,6,7) k(2) assms(4,5) unfolding flush_done_ok(1) flush_done_ok(2) [of a gd2, unfolded dw, OF k(2)] flush_done_frame by auto
  have vw: "view contents gd2 b 0 = view contents gd b 0" using w(5) [OF k(3), of 0] by (simp add: flush_done_view)
  have ca: "cached gd2 b = Some a" using entry_cached [of gd2 a] ok(1) dw k(1) by (simp add: disk_ok_def)
  have cd: "contents (gd_dev gd2) b 0 = view contents gd2 b 0"
    using ok(2) ca dw(1,3) k(1,2) dw(2) by (auto simp: view_def clean_def)
  have le: "unat b * 4096 + 1 \<le> nblocks * 4096"
  proof -
    have "Suc (unat b) * 4096 \<le> nblocks * 4096" using k(3) by (intro mult_le_mono1) simp
    then show ?thesis by simp
  qed
  obtain gd3 where g3: "blk_write ll_rw b 0 1 (Some [v]) gd2 = Some (Inr (0, gd3))" "disk_ok usable gd3" "clean contents nblocks gd3"
    "\<And>p. p < nblocks * 4096 \<Longrightarrow> flat contents gd3 p = (if unat b * 4096 \<le> p \<and> p < unat b * 4096 + 1 then [v] ! (p - unat b * 4096) else flat contents gd2 p)"
    "kept contents nblocks gd2 gd3"
    using blk_write_correct [of 0 1 b gd2 "[v]"] le assms(1) ok by auto
  have v3: "view contents gd3 b 0 = v" using g3(4) [of "unat b * 4096"] flat_block(1) [OF k(3), of 0 gd3] le by simp
  have c3: "cached gd3 b = Some a" "contents (gd_dev gd3) b 0 = contents (gd_dev gd2) b 0"
    using g3(5) ca k(3) by (auto simp: kept_def map_le_def dom_def)
  have "distinct (gd_dirty gd3)" using g3(3) by (simp add: clean_def)
  then have "a \<notin> set (gd_dirty (flush_done a gd3))" by (simp add: flush_done_frame)
  moreover have "contents (gd_dev (flush_done a gd3)) b 0 \<noteq> v" using c3(2) cd vw assms(8) by (simp add: flush_done_frame)
  moreover have "cached (flush_done a gd3) b = Some a" "view contents (flush_done a gd3) b 0 = v" using c3(1) v3 by (simp_all add: flush_done_view)
  moreover have "flush_pop gd = Some (a, gd1)" using assms(6) by (simp add: flush_pop_def gd1_def)
  ultimately show ?thesis using w(1) g3(1) by blast
qed

end

text \<open>
  C35: a write that falls between the write-back of a buffer and the end of its flush step is lost for the device.  While the flush
  thread has written buffer \<open>a\<close> and not yet taken the lock again, a write to the block marks the buffer dirty; the rest of the flush step
  takes the buffer off the dirty list.  Afterwards the cache holds the new byte, the device the old one, and no further flush writes it.
\<close>

theorem flush_loses_update:
  assumes "block_driver ll_rw contents usable nblocks" "nblocks \<le> 2 ^ 32" "disk_ok usable gd" "clean contents nblocks gd" "gd_queue gd = []" "6 \<le> gd_mem gd"
    "gd_dirty gd = a # rest" "b = bh_blockno (gd_bufs gd a)" "v \<noteq> view contents gd b 0"
  shows "\<exists>gd1 gd2 gd3. flush_pop gd = Some (a, gd1) \<and> flush_write ll_rw a gd1 = Some (Inr gd2) \<and> blk_write ll_rw b 0 1 (Some [v]) gd2 = Some (Inr (0, gd3)) \<and>
    cached (flush_done a gd3) b = Some a \<and> a \<notin> set (gd_dirty (flush_done a gd3)) \<and>
    view contents (flush_done a gd3) b 0 = v \<and> contents (gd_dev (flush_done a gd3)) b 0 \<noteq> v"
  by (rule block_driver.lost_update [OF assms])

text \<open>
  C10: over every driver that reads and writes whole blocks the block layer is an array of bytes.  From \<open>gendisk_init\<close> on, any sequence of
  \<open>blk_read\<close> and \<open>blk_write\<close> calls on ranges of the disk, with position in the block plus length at most \<open>2 ^ 32\<close> and enough free objects, returns, without panic, what the same operations return on an array of bytes;
  and the flush thread then ends its round with the device itself holding that array.
\<close>

theorem block_layer_refines:
  assumes "block_driver ll_rw contents usable nblocks" "nblocks \<le> 2 ^ 32" "usable (gd_dev gd)" "0 < gd_next gd"
    "\<forall>q\<in>set ops. bop_ok nblocks q" "sum_list (map bop_mem ops) + 3 \<le> gd_mem gd"
    "\<forall>b i. unat b < nblocks \<longrightarrow> i < 4096 \<longrightarrow> contents (gd_dev gd) b i = m (unat b * 4096 + i)"
  shows "\<exists>gd1 gd2 gd3. gendisk_init (Some ll_rw) gd = Inr (ll_rw, gd1) \<and> run_blk ll_rw ops gd1 = Some (Inr (fst (blk_spec ops m), gd2)) \<and>
    flush_bhash ll_rw gd2 = Some (Inr gd3) \<and>
    (\<forall>b i. unat b < nblocks \<longrightarrow> i < 4096 \<longrightarrow> contents (gd_dev gd3) b i = snd (blk_spec ops m) (unat b * 4096 + i))"
  by (rule block_driver.layer_refines [OF assms])

text \<open>On the RAM disk: a write across a block boundary, a read of it, and the memory of the disk after the flush.\<close>

definition mvirt_disk :: "mem gendisk" where
  "mvirt_disk = \<lparr>gd_dev = mvirt_blk_dev_init, gd_queue = [], gd_bufs = (\<lambda>_. \<lparr>bh_flags = 0, bh_blockno = 0, bh_locked = False, bh_refcnt = 0, bh_page = (\<lambda>_. 0)\<rparr>),
    gd_hash = \<lparr>ht_size = 0, ht_count = 0, ht_heads = []\<rparr>, gd_active = [], gd_inactive = [], gd_active_count = 0, gd_inactive_count = 0, gd_dirty = [],
    gd_mem = 100, gd_next = 1\<rparr>"

definition mvirt_ops :: "bop list" where
  "mvirt_ops = [BWrite 3 4094 [1, 2, 3, 4], BRead 4 0 3]"

lemma mvirt_ops_spec:
  "fst (blk_spec mvirt_ops (\<lambda>_. 97)) = [[3, 4, 97]]" "snd (blk_spec mvirt_ops (\<lambda>_. 97)) 16383 = 2" "snd (blk_spec mvirt_ops (\<lambda>_. 97)) 16384 = 3"
  "snd (blk_spec mvirt_ops (\<lambda>_. 97)) 0 = 97"
  by (simp_all add: mvirt_ops_def Let_def)

theorem block_layer_refines_witness:
  "\<exists>gd1 gd2 gd3. gendisk_init (Some mvirt_blk_ll_rw) mvirt_disk = Inr (mvirt_blk_ll_rw, gd1) \<and>
    run_blk mvirt_blk_ll_rw mvirt_ops gd1 = Some (Inr ([[3, 4, 97]], gd2)) \<and>
    flush_bhash mvirt_blk_ll_rw gd2 = Some (Inr gd3) \<and> gd_dev gd3 16383 = 2 \<and> gd_dev gd3 16384 = 3 \<and> gd_dev gd3 0 = 97"
proof -
  obtain gd1 gd2 gd3 where g: "gendisk_init (Some mvirt_blk_ll_rw) mvirt_disk = Inr (mvirt_blk_ll_rw, gd1)"
    "run_blk mvirt_blk_ll_rw mvirt_ops gd1 = Some (Inr (fst (blk_spec mvirt_ops (\<lambda>_. 97)), gd2))" "flush_bhash mvirt_blk_ll_rw gd2 = Some (Inr gd3)"
    "\<And>b i. unat b < 1024 \<Longrightarrow> i < 4096 \<Longrightarrow> mvirt_contents (gd_dev gd3) b i = snd (blk_spec mvirt_ops (\<lambda>_. 97)) (unat b * 4096 + i)"
    using block_layer_refines [OF mvirt.block_driver_axioms, of mvirt_disk mvirt_ops "\<lambda>_. 97"]
    by (auto simp: mvirt_disk_def mvirt_blk_dev_init_def mvirt_contents_def mvirt_ops_def)
  have "gd_dev gd3 16383 = 2" "gd_dev gd3 16384 = 3" "gd_dev gd3 0 = 97"
    using g(4) [of 3 4095] g(4) [of 4 0] g(4) [of 0 0] by (simp_all add: mvirt_contents_def mvirt_ops_spec)
  then show ?thesis using g(1-3) mvirt_ops_spec(1) by auto
qed

lemma mvirt_dirty:
  "\<exists>gd1 gd a rest. gendisk_init (Some mvirt_blk_ll_rw) mvirt_disk = Inr (mvirt_blk_ll_rw, gd1) \<and> blk_write mvirt_blk_ll_rw 3 0 1 (Some [5]) gd1 = Some (Inr (0, gd)) \<and>
    disk_ok (\<lambda>_. True) gd \<and> clean mvirt_contents 1024 gd \<and> gd_queue gd = [] \<and> 6 \<le> gd_mem gd \<and> gd_dirty gd = a # rest"
proof -
  obtain gd1 where g1: "gendisk_init (Some mvirt_blk_ll_rw) mvirt_disk = Inr (mvirt_blk_ll_rw, gd1)" "disk_ok (\<lambda>_. True) gd1" "clean mvirt_contents 1024 gd1"
    "gd_queue gd1 = []" "gd_mem gd1 = 99" "gd_dev gd1 = mvirt_blk_dev_init"
    using mvirt.gendisk_init_correct [of mvirt_disk 1024] by (auto simp: mvirt_disk_def)
  obtain gd where g: "blk_write mvirt_blk_ll_rw 3 0 1 (Some [5]) gd1 = Some (Inr (0, gd))" "disk_ok (\<lambda>_. True) gd" "gd_queue gd = []"
    "\<forall>p<1024 * 4096. flat mvirt_contents gd p = (if 12288 \<le> p \<and> p < 12289 then [5] ! (p - 12288) else flat mvirt_contents gd1 p)"
    "gd_mem gd1 \<le> gd_mem gd + 4" "clean mvirt_contents 1024 gd" "kept mvirt_contents 1024 gd1 gd"
    using mvirt.blk_write_correct [of 0 1 3 gd1 "[5]"] g1(2-5) by auto
  have "unat (3 :: u32) < 1024" by simp
  then have "mvirt_contents (gd_dev gd) 3 0 = mvirt_contents (gd_dev gd1) 3 0" using g(7) unfolding kept_def by (metis zero_less_numeral)
  then have "mvirt_contents (gd_dev gd) 3 0 = 97" using g1(6) by (simp add: mvirt_contents_def mvirt_blk_dev_init_def)
  moreover have "view mvirt_contents gd 3 0 = 5" using g(4) by (auto simp: flat_def dest: spec [of _ 12288])
  ultimately have "gd_dirty gd \<noteq> []" using mvirt.flushed_view [OF g(2,6), of 3 0] by auto
  then obtain a rest where "gd_dirty gd = a # rest" by (cases "gd_dirty gd") auto
  then show ?thesis using g1(1,5) g(1-3,5,6) by auto
qed

theorem flush_loses_update_witness:
  "\<exists>gd1 gd a v gd2 gd3 gd4. gendisk_init (Some mvirt_blk_ll_rw) mvirt_disk = Inr (mvirt_blk_ll_rw, gd1) \<and> blk_write mvirt_blk_ll_rw 3 0 1 (Some [5]) gd1 = Some (Inr (0, gd)) \<and>
    flush_pop gd = Some (a, gd2) \<and> flush_write mvirt_blk_ll_rw a gd2 = Some (Inr gd3) \<and>
    blk_write mvirt_blk_ll_rw (bh_blockno (gd_bufs gd a)) 0 1 (Some [v]) gd3 = Some (Inr (0, gd4)) \<and> a \<notin> set (gd_dirty (flush_done a gd4)) \<and>
    mvirt_contents (gd_dev (flush_done a gd4)) (bh_blockno (gd_bufs gd a)) 0 \<noteq> v"
proof -
  obtain gd1 gd a rest where g: "gendisk_init (Some mvirt_blk_ll_rw) mvirt_disk = Inr (mvirt_blk_ll_rw, gd1)" "blk_write mvirt_blk_ll_rw 3 0 1 (Some [5]) gd1 = Some (Inr (0, gd))"
    "disk_ok (\<lambda>_. True) gd" "clean mvirt_contents 1024 gd" "gd_queue gd = []" "6 \<le> gd_mem gd" "gd_dirty gd = a # rest"
    using mvirt_dirty by blast
  define v where "v = view mvirt_contents gd (bh_blockno (gd_bufs gd a)) 0 + 1"
  have "v \<noteq> view mvirt_contents gd (bh_blockno (gd_bufs gd a)) 0" by (simp add: v_def)
  from flush_loses_update [OF mvirt.block_driver_axioms _ g(3-7) refl this] show ?thesis using g(1,2) by simp blast
qed

end
