(* ===== verification/Devs.thy ===== *)
theory Devs
  imports Flush
begin

text \<open>
  The registry of devices (kernel/dev/devs.c) and the registration of a block device (kernel/dev/blk/blk_dev.c).  The nodes of the device list
  are the addresses of the devices; the name of a device, which nothing reads, is not stored.
\<close>

section \<open>Registry\<close>

record dev_lists_struct =
  devno :: u32
  bd_list :: "addr list"

definition devs_init :: dev_lists_struct where
  "devs_init = \<lparr>devno = 1, bd_list = []\<rparr>"

definition devno_alloc :: "dev_lists_struct \<Rightarrow> u32 \<times> dev_lists_struct" where
  "devno_alloc ds = (devno ds, ds\<lparr>devno := devno ds + 1\<rparr>)"

definition devs_add :: "addr \<Rightarrow> dev_lists_struct \<Rightarrow> dev_lists_struct" where
  "devs_add node ds = ds\<lparr>bd_list := bd_list ds @ [node]\<rparr>"

definition devs_del :: "addr \<Rightarrow> dev_lists_struct \<Rightarrow> dev_lists_struct" where
  "devs_del node ds = ds\<lparr>bd_list := remove1 node (bd_list ds)\<rparr>"

section \<open>Block devices\<close>

record 'd block_device =
  bd_dev :: u32
  bd_disk_size :: u64
  bd_gd :: "'d gendisk"
  bd_ll_rw :: "'d driver"
  bd_private :: addr

definition blk_set_private :: "addr \<Rightarrow> 'd block_device \<Rightarrow> 'd block_device" where
  "blk_set_private p bd = bd\<lparr>bd_private := p\<rparr>"

definition register_block :: "addr \<Rightarrow> 'd driver option \<Rightarrow> u64 \<Rightarrow> 'd block_device \<Rightarrow> dev_lists_struct \<Rightarrow> ('d block_device \<times> dev_lists_struct) kres" where
  "register_block bd_addr ops disk_size bd ds =
    (let (no, ds1) = devno_alloc ds;
         ds2 = devs_add bd_addr ds1;
         bd1 = bd\<lparr>bd_dev := no, bd_disk_size := disk_size\<rparr>
     in kbind (gendisk_init ops (bd_gd bd1)) (\<lambda>(f, gd). Inr (bd1\<lparr>bd_gd := gd, bd_ll_rw := f\<rparr>, ds2)))"

definition unregister_block :: "'d block_device \<Rightarrow> int" where
  "unregister_block bd = 0"

text \<open>A registered device gets the number of the counter and its place at the end of the list, so the numbers in use stay distinct until the counter wraps.\<close>

lemma register_block_Inr:
  assumes "gendisk_init ops (bd_gd bd) = Inr (f, gd)"
  shows "register_block p ops disk_size bd ds =
    Inr (bd\<lparr>bd_dev := devno ds, bd_disk_size := disk_size, bd_gd := gd, bd_ll_rw := f\<rparr>, ds\<lparr>devno := devno ds + 1, bd_list := bd_list ds @ [p]\<rparr>)"
  using assms by (simp add: register_block_def devno_alloc_def devs_add_def)

end
