(* ===== verification/Virtio.thy ===== *)
theory Virtio
  imports Devs
begin

text \<open>
  The driver of the virtio disk (drivers/blk/virtio/virtio_disk.c).  The device is hardware: it is the argument \<open>dev\<close>, a function from its own
  state, the shared memory (descriptors, rings, request headers and status bytes) and the page of the transfer, called when the driver
  notifies it.  Predicate \<open>virtio_device\<close> states what the virtio specification says of one request; the theorem shows that the driver over any
  such device keeps the contract \<open>block_driver\<close> of the block layer.  Pointers that the driver hands to the device are the values of
  \<open>dma_ptr\<close>.  The mutex makes a transfer atomic; a transfer that the device never completes is the fault \<open>no completion\<close>.
\<close>

section \<open>Shared memory\<close>

definition NUM :: nat where "NUM = 8"

definition VRING_DESC_F_NEXT :: u16 where "VRING_DESC_F_NEXT = 1"
definition VRING_DESC_F_WRITE :: u16 where "VRING_DESC_F_WRITE = 2"
definition VIRTIO_BLK_T_IN :: u32 where "VIRTIO_BLK_T_IN = 0"
definition VIRTIO_BLK_T_OUT :: u32 where "VIRTIO_BLK_T_OUT = 1"

datatype dma_ptr = DNull | DReq nat | DPage | DStatus nat

record virtq_desc =
  vd_addr :: dma_ptr
  vd_len :: u32
  vd_flags :: u16
  vd_next :: u16

record virtio_blk_req =
  vr_type :: u32
  vr_reserved :: u32
  vr_sector :: u64

record disk =
  vdesc :: "nat \<Rightarrow> virtq_desc"
  avail_idx :: u16
  avail_ring :: "nat \<Rightarrow> u16"
  used_ring_idx :: u16
  used_ring :: "nat \<Rightarrow> u32"
  vfree :: "nat \<Rightarrow> bool"
  used_idx :: u16
  info_status :: "nat \<Rightarrow> u8"
  vops :: "nat \<Rightarrow> virtio_blk_req"
  intr_count :: int

section \<open>Descriptors\<close>

text \<open>The search for a free descriptor from \<open>i\<close> on; -1 is \<open>None\<close>.\<close>

function alloc_desc_from :: "nat \<Rightarrow> disk \<Rightarrow> (nat \<times> disk) option" where
  "alloc_desc_from i d =
    (if i < NUM then if vfree d i then Some (i, d\<lparr>vfree := (vfree d)(i := False)\<rparr>) else alloc_desc_from (i + 1) d else None)"
  by pat_completeness auto
termination
  by (relation "measure (\<lambda>(i, _). NUM - i)") auto

declare alloc_desc_from.simps [simp del]

definition alloc_desc :: "disk \<Rightarrow> (nat \<times> disk) option" where
  "alloc_desc d = alloc_desc_from 0 d"

definition free_desc :: "nat \<Rightarrow> disk \<Rightarrow> disk kres" where
  "free_desc i d =
    (if i \<ge> NUM then Inl (Panic ''free_desc 1'')
     else if vfree d i then Inl (Panic ''free_desc 2'')
     else Inr (d\<lparr>vdesc := (vdesc d)(i := \<lparr>vd_addr = DNull, vd_len = 0, vd_flags = 0, vd_next = 0\<rparr>), vfree := (vfree d)(i := True)\<rparr>))"

function free_chain :: "nat \<Rightarrow> disk \<Rightarrow> disk kres" where
  "free_chain i d =
    (case free_desc i d of
       Inl e \<Rightarrow> Inl e
     | Inr d1 \<Rightarrow> if vd_flags (vdesc d i) AND VRING_DESC_F_NEXT \<noteq> 0 then free_chain (unat (vd_next (vdesc d i))) d1 else Inr d1)"
  by pat_completeness auto
termination
proof (relation "measure (\<lambda>(_, d). card {j. j < NUM \<and> \<not> vfree d j})", goal_cases)
  case (2 i d d1)
  have i: "i < NUM" "\<not> vfree d i" "vfree d1 = (vfree d)(i := True)" using 2(1) by (auto simp: free_desc_def split: if_splits)
  have "{j. j < NUM \<and> \<not> vfree d1 j} \<subset> {j. j < NUM \<and> \<not> vfree d j}" using i by auto
  then show ?case by (simp add: psubset_card_mono)
qed simp

declare free_chain.simps [simp del]

text \<open>\<open>alloc3_desc\<close>: the three indices, or \<open>None\<close> after the allocated ones have been given back.\<close>

definition alloc3_desc :: "disk \<Rightarrow> ((nat \<times> nat \<times> nat) option \<times> disk) kres" where
  "alloc3_desc d = (case alloc_desc d of
      None \<Rightarrow> Inr (None, d)
    | Some (i, d1) \<Rightarrow> (case alloc_desc d1 of
        None \<Rightarrow> kbind (free_desc i d1) (\<lambda>d2. Inr (None, d2))
      | Some (j, d2) \<Rightarrow> (case alloc_desc d2 of
          None \<Rightarrow> kbind (free_desc i d2) (\<lambda>d3. kbind (free_desc j d3) (\<lambda>d4. Inr (None, d4)))
        | Some (k, d3) \<Rightarrow> Inr (Some (i, j, k), d3))))"

section \<open>Transfers\<close>

text \<open>The three descriptors of a request and its entry in the available ring.\<close>

definition virtio_submit :: "u32 \<Rightarrow> u32 \<Rightarrow> nat \<times> nat \<times> nat \<Rightarrow> disk \<Rightarrow> disk" where
  "virtio_submit blockno rw idx d = (case idx of (i, j, k) \<Rightarrow>
    let sector = ucast (blockno * 8);
        req = \<lparr>vr_type = (if rw = DEV_WRITE then VIRTIO_BLK_T_OUT else VIRTIO_BLK_T_IN), vr_reserved = 0, vr_sector = sector\<rparr>;
        d1 = d\<lparr>vops := (vops d)(i := req)\<rparr>;
        d2 = d1\<lparr>vdesc := (vdesc d1)(i := \<lparr>vd_addr = DReq i, vd_len = 16, vd_flags = VRING_DESC_F_NEXT, vd_next = of_nat j\<rparr>)\<rparr>;
        d3 = d2\<lparr>vdesc := (vdesc d2)(j := \<lparr>vd_addr = DPage, vd_len = 4096,
               vd_flags = (if rw = DEV_WRITE then 0 else VRING_DESC_F_WRITE) OR VRING_DESC_F_NEXT, vd_next = of_nat k\<rparr>)\<rparr>;
        d4 = d3\<lparr>info_status := (info_status d3)(i := 0xff)\<rparr>;
        d5 = d4\<lparr>vdesc := (vdesc d4)(k := \<lparr>vd_addr = DStatus i, vd_len = 1, vd_flags = VRING_DESC_F_WRITE, vd_next = 0\<rparr>)\<rparr>;
        d6 = d5\<lparr>avail_ring := (avail_ring d5)(unat (avail_idx d5) mod NUM := of_nat i)\<rparr>
    in d6\<lparr>avail_idx := avail_idx d6 + 1\<rparr>)"

function virtio_disk_intr :: "disk \<Rightarrow> disk kres" where
  "virtio_disk_intr d =
    (if used_idx d \<noteq> used_ring_idx d then
       let id = unat (used_ring d (unat (used_idx d) mod NUM)) in
       if info_status d id \<noteq> 0 then Inl (Panic ''virtio_disk_intr status'')
       else virtio_disk_intr (d\<lparr>intr_count := intr_count d + 1, used_idx := used_idx d + 1\<rparr>)
     else Inr d)"
  by pat_completeness auto
termination
proof (relation "measure (\<lambda>d. unat (used_ring_idx d - used_idx d))", goal_cases)
  case (2 d id)
  define x where "x = used_ring_idx d - used_idx d"
  have "x \<noteq> 0" using 2(1) by (simp add: x_def)
  then have "unat (x - 1) < unat x" by (simp add: unat_minus_one unat_gt_0)
  then have "unat (used_ring_idx d - (used_idx d + 1)) < unat x" unfolding x_def by (simp only: diff_diff_eq)
  then show ?case by (simp add: x_def)
qed simp

declare virtio_disk_intr.simps [simp del]

type_synonym 'h device = "'h \<Rightarrow> disk \<Rightarrow> page_data \<Rightarrow> 'h \<times> disk \<times> page_data"

definition virtio_disk_rw :: "'h device \<Rightarrow> u32 \<Rightarrow> page_data \<Rightarrow> u32 \<Rightarrow> 'h \<times> disk \<Rightarrow> (('h \<times> disk) \<times> page_data) kres" where
  "virtio_disk_rw dev blockno b_page rw s = (case s of (h, d) \<Rightarrow>
    kbind (alloc3_desc d) (\<lambda>(idx, d1). case idx of
      None \<Rightarrow> Inl (Fault ''idx'')
    | Some (i, j, k) \<Rightarrow>
        (case dev h (virtio_submit blockno rw (i, j, k) d1) b_page of (h1, d2, pg) \<Rightarrow>
         kbind (virtio_disk_intr d2) (\<lambda>d3.
         if intr_count d3 \<le> 0 then Inl (Fault ''no completion'')
         else kbind (free_chain i (d3\<lparr>intr_count := intr_count d3 - 1\<rparr>)) (\<lambda>d4. Inr ((h1, d4), pg))))))"

definition virtio_disk_ll_rw :: "'h device \<Rightarrow> 'h \<times> disk \<Rightarrow> u32 \<Rightarrow> page_data \<Rightarrow> u32 \<Rightarrow> (('h \<times> disk) \<times> page_data) kres" where
  "virtio_disk_ll_rw dev s blockno b_page rw = virtio_disk_rw dev blockno b_page rw s"

section \<open>Initialisation\<close>

text \<open>
  The registers of the device.  What a register reads is the argument \<open>rd\<close>, a function of the writes so far and the register; the results of
  \<open>kmalloc\<close> are the three arguments \<open>pd\<close>, \<open>pa\<close> and \<open>pu\<close>.
\<close>

definition VIRTIO_MMIO_MAGIC_VALUE :: nat where "VIRTIO_MMIO_MAGIC_VALUE = 0x0"
definition VIRTIO_MMIO_VERSION :: nat where "VIRTIO_MMIO_VERSION = 0x4"
definition VIRTIO_MMIO_DEVICE_ID :: nat where "VIRTIO_MMIO_DEVICE_ID = 0x8"
definition VIRTIO_MMIO_VENDOR_ID :: nat where "VIRTIO_MMIO_VENDOR_ID = 0xc"
definition VIRTIO_MMIO_DEVICE_FEATURES :: nat where "VIRTIO_MMIO_DEVICE_FEATURES = 0x10"
definition VIRTIO_MMIO_DRIVER_FEATURES :: nat where "VIRTIO_MMIO_DRIVER_FEATURES = 0x20"
definition VIRTIO_MMIO_QUEUE_SEL :: nat where "VIRTIO_MMIO_QUEUE_SEL = 0x30"
definition VIRTIO_MMIO_QUEUE_NUM_MAX :: nat where "VIRTIO_MMIO_QUEUE_NUM_MAX = 0x34"
definition VIRTIO_MMIO_QUEUE_NUM :: nat where "VIRTIO_MMIO_QUEUE_NUM = 0x38"
definition VIRTIO_MMIO_QUEUE_READY :: nat where "VIRTIO_MMIO_QUEUE_READY = 0x44"
definition VIRTIO_MMIO_STATUS :: nat where "VIRTIO_MMIO_STATUS = 0x70"
definition VIRTIO_MMIO_QUEUE_DESC_LOW :: nat where "VIRTIO_MMIO_QUEUE_DESC_LOW = 0x80"
definition VIRTIO_MMIO_QUEUE_DESC_HIGH :: nat where "VIRTIO_MMIO_QUEUE_DESC_HIGH = 0x84"
definition VIRTIO_MMIO_DRIVER_DESC_LOW :: nat where "VIRTIO_MMIO_DRIVER_DESC_LOW = 0x90"
definition VIRTIO_MMIO_DRIVER_DESC_HIGH :: nat where "VIRTIO_MMIO_DRIVER_DESC_HIGH = 0x94"
definition VIRTIO_MMIO_DEVICE_DESC_LOW :: nat where "VIRTIO_MMIO_DEVICE_DESC_LOW = 0xa0"
definition VIRTIO_MMIO_DEVICE_DESC_HIGH :: nat where "VIRTIO_MMIO_DEVICE_DESC_HIGH = 0xa4"

definition VIRTIO_CONFIG_S_ACKNOWLEDGE :: u32 where "VIRTIO_CONFIG_S_ACKNOWLEDGE = 1"
definition VIRTIO_CONFIG_S_DRIVER :: u32 where "VIRTIO_CONFIG_S_DRIVER = 2"
definition VIRTIO_CONFIG_S_DRIVER_OK :: u32 where "VIRTIO_CONFIG_S_DRIVER_OK = 4"
definition VIRTIO_CONFIG_S_FEATURES_OK :: u32 where "VIRTIO_CONFIG_S_FEATURES_OK = 8"

definition VIRTIO_BLK_F_RO :: nat where "VIRTIO_BLK_F_RO = 5"
definition VIRTIO_BLK_F_SCSI :: nat where "VIRTIO_BLK_F_SCSI = 7"
definition VIRTIO_BLK_F_CONFIG_WCE :: nat where "VIRTIO_BLK_F_CONFIG_WCE = 11"
definition VIRTIO_BLK_F_MQ :: nat where "VIRTIO_BLK_F_MQ = 12"
definition VIRTIO_F_ANY_LAYOUT :: nat where "VIRTIO_F_ANY_LAYOUT = 27"
definition VIRTIO_RING_F_INDIRECT_DESC :: nat where "VIRTIO_RING_F_INDIRECT_DESC = 28"
definition VIRTIO_RING_F_EVENT_IDX :: nat where "VIRTIO_RING_F_EVENT_IDX = 29"

type_synonym mmio_log = "(nat \<times> u32) list"

definition feature_off :: "nat \<Rightarrow> u64 \<Rightarrow> u64" where
  "feature_off b features = features AND NOT (push_bit b 1)"

definition virtio_features :: "u32 \<Rightarrow> u64" where
  "virtio_features offered =
    (let f0 = ucast offered;
         f1 = feature_off VIRTIO_BLK_F_RO f0;
         f2 = feature_off VIRTIO_BLK_F_SCSI f1;
         f3 = feature_off VIRTIO_BLK_F_CONFIG_WCE f2;
         f4 = feature_off VIRTIO_BLK_F_MQ f3;
         f5 = feature_off VIRTIO_F_ANY_LAYOUT f4;
         f6 = feature_off VIRTIO_RING_F_EVENT_IDX f5
     in feature_off VIRTIO_RING_F_INDIRECT_DESC f6)"

text \<open>The negotiation up to \<open>FEATURES_OK\<close>: the writes and the status read back.\<close>

definition virtio_negotiate :: "(mmio_log \<Rightarrow> nat \<Rightarrow> u32) \<Rightarrow> (mmio_log \<times> u32) kres" where
  "virtio_negotiate rd =
    (if rd [] VIRTIO_MMIO_MAGIC_VALUE \<noteq> 0x74726976 \<or> rd [] VIRTIO_MMIO_VERSION \<noteq> 2 \<or> rd [] VIRTIO_MMIO_DEVICE_ID \<noteq> 2 \<or>
        rd [] VIRTIO_MMIO_VENDOR_ID \<noteq> 0x554d4551
     then Inl (Panic ''could not find virtio disk'')
     else
       let w0 = [(VIRTIO_MMIO_STATUS, 0)];
           st1 = 0 OR VIRTIO_CONFIG_S_ACKNOWLEDGE;
           w1 = w0 @ [(VIRTIO_MMIO_STATUS, st1)];
           st2 = st1 OR VIRTIO_CONFIG_S_DRIVER;
           w2 = w1 @ [(VIRTIO_MMIO_STATUS, st2)];
           features = virtio_features (rd w2 VIRTIO_MMIO_DEVICE_FEATURES);
           w3 = w2 @ [(VIRTIO_MMIO_DRIVER_FEATURES, ucast features)];
           st3 = st2 OR VIRTIO_CONFIG_S_FEATURES_OK;
           w4 = w3 @ [(VIRTIO_MMIO_STATUS, st3)];
           st4 = rd w4 VIRTIO_MMIO_STATUS
       in if st4 AND VIRTIO_CONFIG_S_FEATURES_OK = 0 then Inl (Panic ''virtio disk FEATURES_OK unset'')
          else Inr (w4, st4))"

text \<open>The queue: its memory is zeroed and handed to the device, and all descriptors are free.\<close>

definition virtio_queue_setup :: "(mmio_log \<Rightarrow> nat \<Rightarrow> u32) \<Rightarrow> mmio_log \<Rightarrow> u32 \<Rightarrow> u64 option \<Rightarrow> u64 option \<Rightarrow> u64 option \<Rightarrow> disk \<Rightarrow> (mmio_log \<times> disk) kres" where
  "virtio_queue_setup rd w status pd pa pu d =
    (let w1 = w @ [(VIRTIO_MMIO_QUEUE_SEL, 0)] in
     if rd w1 VIRTIO_MMIO_QUEUE_READY \<noteq> 0 then Inl (Panic ''virtio disk should not be ready'')
     else let qmax = rd w1 VIRTIO_MMIO_QUEUE_NUM_MAX in
     if qmax = 0 then Inl (Panic ''virtio disk has no queue 0'')
     else if unat qmax < NUM then Inl (Panic ''virtio disk max queue too short'')
     else case (pd, pa, pu) of
       (Some pd, Some pa, Some pu) \<Rightarrow>
         Inr (w1 @ [(VIRTIO_MMIO_QUEUE_NUM, of_nat NUM),
             (VIRTIO_MMIO_QUEUE_DESC_LOW, ucast pd), (VIRTIO_MMIO_QUEUE_DESC_HIGH, ucast (drop_bit 32 pd)),
             (VIRTIO_MMIO_DRIVER_DESC_LOW, ucast pa), (VIRTIO_MMIO_DRIVER_DESC_HIGH, ucast (drop_bit 32 pa)),
             (VIRTIO_MMIO_DEVICE_DESC_LOW, ucast pu), (VIRTIO_MMIO_DEVICE_DESC_HIGH, ucast (drop_bit 32 pu)),
             (VIRTIO_MMIO_QUEUE_READY, 1), (VIRTIO_MMIO_STATUS, status OR VIRTIO_CONFIG_S_DRIVER_OK)],
           d\<lparr>vdesc := (\<lambda>_. \<lparr>vd_addr = DNull, vd_len = 0, vd_flags = 0, vd_next = 0\<rparr>), avail_idx := 0, avail_ring := (\<lambda>_. 0),
             used_ring_idx := 0, used_ring := (\<lambda>_. 0), vfree := (\<lambda>i. i < NUM \<or> vfree d i)\<rparr>)
     | _ \<Rightarrow> Inl (Panic ''virtio disk kalloc''))"

definition VDISK_SIZE :: u64 where "VDISK_SIZE = 100 * 1024 * 1024"

definition virtio_disk_init :: "'h device \<Rightarrow> (mmio_log \<Rightarrow> nat \<Rightarrow> u32) \<Rightarrow> u64 option \<Rightarrow> u64 option \<Rightarrow> u64 option \<Rightarrow> addr \<Rightarrow>
    ('h \<times> disk) block_device \<Rightarrow> dev_lists_struct \<Rightarrow> (mmio_log \<times> ('h \<times> disk) block_device \<times> dev_lists_struct) kres" where
  "virtio_disk_init dev rd pd pa pu bd_addr bd ds =
    (case gd_dev (bd_gd bd) of (h, d0) \<Rightarrow>
     let d1 = d0\<lparr>intr_count := 0\<rparr> in
     kbind (virtio_negotiate rd) (\<lambda>(w, status).
     kbind (virtio_queue_setup rd w status pd pa pu d1) (\<lambda>(w1, d2).
     kbind (register_block bd_addr (Some (virtio_disk_ll_rw dev)) VDISK_SIZE (bd\<lparr>bd_gd := (bd_gd bd)\<lparr>gd_dev := (h, d2)\<rparr>\<rparr>) ds) (\<lambda>(bd1, ds1).
     Inr (w1, bd1, ds1)))))"

section \<open>The device\<close>

text \<open>
  One outstanding request: the chain of three descriptors at the next entry of the available ring describes the transfer of a page.  The device
  copies between the page and its sectors, writes status 0, and puts the head of the chain into the used ring.
\<close>

definition request_chain :: "disk \<Rightarrow> nat \<Rightarrow> nat \<Rightarrow> nat \<Rightarrow> u32 \<Rightarrow> u64 \<Rightarrow> bool" where
  "request_chain d first r st ty sector =
    (let d0 = vdesc d first; d1 = vdesc d (unat (vd_next d0)); d2 = vdesc d (unat (vd_next d1)) in
     avail_idx d = used_ring_idx d + 1 \<and> unat (avail_ring d (unat (used_ring_idx d) mod NUM)) = first \<and>
     vd_addr d0 = DReq r \<and> vd_len d0 = 16 \<and> vd_flags d0 = VRING_DESC_F_NEXT \<and> vr_type (vops d r) = ty \<and> vr_sector (vops d r) = sector \<and>
     vd_addr d1 = DPage \<and> vd_len d1 = 4096 \<and>
     vd_flags d1 = (if ty = VIRTIO_BLK_T_OUT then VRING_DESC_F_NEXT else VRING_DESC_F_WRITE OR VRING_DESC_F_NEXT) \<and>
     vd_addr d2 = DStatus st \<and> vd_len d2 = 1 \<and> vd_flags d2 = VRING_DESC_F_WRITE)"

definition completed :: "disk \<Rightarrow> nat \<Rightarrow> nat \<Rightarrow> disk" where
  "completed d first st = d\<lparr>info_status := (info_status d)(st := 0), used_ring := (used_ring d)(unat (used_ring_idx d) mod NUM := of_nat first),
    used_ring_idx := used_ring_idx d + 1\<rparr>"

definition virtio_device :: "'h device \<Rightarrow> ('h \<Rightarrow> nat \<Rightarrow> u8) \<Rightarrow> nat \<Rightarrow> bool" where
  "virtio_device dev img capacity =
    (\<forall>h d pg first r st ty sector. request_chain d first r st ty sector \<and> unat sector * 512 + 4096 \<le> capacity \<longrightarrow>
      (ty = VIRTIO_BLK_T_IN \<longrightarrow> (\<exists>h' pg'. dev h d pg = (h', completed d first st, pg') \<and> (\<forall>i<4096. pg' i = img h (unat sector * 512 + i)) \<and>
         (\<forall>p<capacity. img h' p = img h p))) \<and>
      (ty = VIRTIO_BLK_T_OUT \<longrightarrow> (\<exists>h'. dev h d pg = (h', completed d first st, pg) \<and>
         (\<forall>p<capacity. img h' p = (if unat sector * 512 \<le> p \<and> p < unat sector * 512 + 4096 then pg (p - unat sector * 512) else img h p)))))"

section \<open>The driver keeps the contract\<close>

definition idle :: "disk \<Rightarrow> bool" where
  "idle d = ((\<forall>i<NUM. vfree d i) \<and> avail_idx d = used_ring_idx d \<and> used_idx d = used_ring_idx d \<and> intr_count d = 0)"

definition virtio_contents :: "('h \<Rightarrow> nat \<Rightarrow> u8) \<Rightarrow> 'h \<times> disk \<Rightarrow> u32 \<Rightarrow> page_data" where
  "virtio_contents img s b i = img (fst s) (unat b * 4096 + i)"

lemma alloc3_idle:
  assumes "idle d"
  shows "alloc3_desc d = Inr (Some (0, 1, 2), d\<lparr>vfree := (vfree d)(0 := False, 1 := False, 2 := False)\<rparr>)"
proof -
  have f: "vfree d 0" "vfree d 1" "vfree d 2" using assms by (auto simp: idle_def NUM_def)
  show ?thesis using f
    by (simp add: alloc3_desc_def alloc_desc_def alloc_desc_from.simps [of 0] alloc_desc_from.simps [of "Suc 0"]
      alloc_desc_from.simps [of "Suc (Suc 0)"] NUM_def numeral_2_eq_2)
qed

text \<open>The shared memory when the device is notified, and what is left of it when the transfer ends.\<close>

lemma submit_chain:
  fixes b :: u32
  assumes "idle d" "unat b * 8 < 2 ^ 32" "d2 = virtio_submit b rw (0, 1, 2) (d\<lparr>vfree := (vfree d)(0 := False, 1 := False, 2 := False)\<rparr>)"
  shows "request_chain d2 0 0 0 (if rw = DEV_WRITE then VIRTIO_BLK_T_OUT else VIRTIO_BLK_T_IN) (ucast (b * 8))" "unat (ucast (b * 8) :: u64) = unat b * 8"
    "used_idx d2 = used_idx d" "used_ring_idx d2 = used_ring_idx d" "intr_count d2 = intr_count d"
proof -
  have "unat (b * 8) = unat b * 8" using assms(2) by (simp add: unat_word_ariths(2))
  moreover have "unat (ucast (b * 8) :: u64) = unat (b * 8)" by (rule unat_ucast_up) simp
  ultimately show "unat (ucast (b * 8) :: u64) = unat b * 8" by simp
  show "used_idx d2 = used_idx d" "used_ring_idx d2 = used_ring_idx d" "intr_count d2 = intr_count d"
    by (simp_all add: assms(3) virtio_submit_def Let_def)
  have i: "avail_idx d = used_ring_idx d" using assms(1) by (simp add: idle_def)
  show "request_chain d2 0 0 0 (if rw = DEV_WRITE then VIRTIO_BLK_T_OUT else VIRTIO_BLK_T_IN) (ucast (b * 8))"
    by (simp add: assms(3) virtio_submit_def request_chain_def Let_def i VIRTIO_BLK_T_OUT_def VIRTIO_BLK_T_IN_def)
qed

lemma free_chain_step:
  assumes "i < NUM" "\<not> vfree d i"
  shows "free_chain i d = (if vd_flags (vdesc d i) AND VRING_DESC_F_NEXT \<noteq> 0 then free_chain (unat (vd_next (vdesc d i)))
      (d\<lparr>vdesc := (vdesc d)(i := \<lparr>vd_addr = DNull, vd_len = 0, vd_flags = 0, vd_next = 0\<rparr>), vfree := (vfree d)(i := True)\<rparr>)
    else Inr (d\<lparr>vdesc := (vdesc d)(i := \<lparr>vd_addr = DNull, vd_len = 0, vd_flags = 0, vd_next = 0\<rparr>), vfree := (vfree d)(i := True)\<rparr>))"
  using assms by (subst free_chain.simps) (simp add: free_desc_def)

lemma free_three:
  assumes "\<not> vfree d 0" "\<not> vfree d 1" "\<not> vfree d 2" "vd_flags (vdesc d 0) AND VRING_DESC_F_NEXT \<noteq> 0" "unat (vd_next (vdesc d 0)) = 1"
    "vd_flags (vdesc d 1) AND VRING_DESC_F_NEXT \<noteq> 0" "unat (vd_next (vdesc d 1)) = 2" "vd_flags (vdesc d 2) AND VRING_DESC_F_NEXT = 0"
  shows "\<exists>t. free_chain 0 d = Inr (d\<lparr>vdesc := t, vfree := (vfree d)(0 := True, 1 := True, 2 := True)\<rparr>)"
proof -
  have n: "0 < NUM" "1 < NUM" "2 < NUM" by (simp_all add: NUM_def)
  show ?thesis
    by (subst free_chain_step, simp add: n, simp add: assms, simp add: assms del: One_nat_def, subst free_chain_step, simp add: n del: One_nat_def,
        simp add: assms del: One_nat_def, simp add: assms del: One_nat_def, subst free_chain_step, simp add: n, simp add: assms, simp add: assms del: One_nat_def, blast)
qed

lemma finish_chain:
  assumes "idle d" "d2 = virtio_submit b rw (0, 1, 2) (d\<lparr>vfree := (vfree d)(0 := False, 1 := False, 2 := False)\<rparr>)"
  shows "\<exists>d3 d4. virtio_disk_intr (completed d2 0 0) = Inr d3 \<and> intr_count d3 = 1 \<and> free_chain 0 (d3\<lparr>intr_count := 0\<rparr>) = Inr d4 \<and> idle d4"
proof -
  define c where "c = completed d2 0 0"
  have u: "used_idx c = used_idx d" "used_ring_idx c = used_idx d + 1" "intr_count c = 0" "avail_idx c = used_idx d + 1"
    using assms(1) by (simp_all add: c_def completed_def assms(2) virtio_submit_def Let_def idle_def)
  have st: "info_status c (unat (used_ring c (unat (used_idx c) mod NUM))) = 0"
    using assms(1) by (simp add: c_def completed_def assms(2) virtio_submit_def Let_def idle_def)
  define d3 where "d3 = c\<lparr>intr_count := 1, used_idx := used_idx d + 1\<rparr>"
  have e3: "virtio_disk_intr d3 = Inr d3" using u(2) by (subst virtio_disk_intr.simps) (simp add: d3_def)
  have e: "virtio_disk_intr c = Inr d3"
    using st u e3 by (subst virtio_disk_intr.simps) (simp add: d3_def Let_def)
  have k: "vfree d3 = (vfree d)(0 := False, 1 := False, 2 := False)" "vd_flags (vdesc d3 0) = VRING_DESC_F_NEXT" "unat (vd_next (vdesc d3 0)) = 1"
    "vd_flags (vdesc d3 1) = (if rw = DEV_WRITE then 0 else VRING_DESC_F_WRITE) OR VRING_DESC_F_NEXT" "unat (vd_next (vdesc d3 1)) = 2" "vd_flags (vdesc d3 2) = VRING_DESC_F_WRITE"
    by (simp_all add: d3_def c_def completed_def assms(2) virtio_submit_def Let_def)
  have fl: "VRING_DESC_F_NEXT AND VRING_DESC_F_NEXT \<noteq> 0" "((if rw = DEV_WRITE then 0 else VRING_DESC_F_WRITE) OR VRING_DESC_F_NEXT) AND VRING_DESC_F_NEXT \<noteq> 0"
    "VRING_DESC_F_WRITE AND VRING_DESC_F_NEXT = 0" by (simp_all add: VRING_DESC_F_NEXT_def VRING_DESC_F_WRITE_def)
  obtain t where t: "free_chain 0 (d3\<lparr>intr_count := 0\<rparr>) = Inr (d3\<lparr>intr_count := 0, vdesc := t, vfree := (vfree d3)(0 := True, 1 := True, 2 := True)\<rparr>)"
    using free_three [of "d3\<lparr>intr_count := 0\<rparr>"] k fl by auto
  have "idle (d3\<lparr>intr_count := 0, vdesc := t, vfree := (vfree d3)(0 := True, 1 := True, 2 := True)\<rparr>)"
    using assms(1) u k(1) by (auto simp: idle_def d3_def)
  with e t show ?thesis unfolding c_def [symmetric] by (intro exI [of _ d3] exI conjI) (auto simp: d3_def)
qed

lemma transfer:
  fixes b :: u32
  assumes dev: "virtio_device dev img cap" and d: "idle d" and b: "unat b * 8 < 2 ^ 32" "unat b * 4096 + 4096 \<le> cap"
  shows "\<exists>h' d' pg'. virtio_disk_ll_rw dev (h, d) b pg DEV_READ = Inr ((h', d'), pg') \<and> idle d' \<and> (\<forall>i<4096. pg' i = img h (unat b * 4096 + i)) \<and>
      (\<forall>p<cap. img h' p = img h p)"
    "\<exists>h' d'. virtio_disk_ll_rw dev (h, d) b pg DEV_WRITE = Inr ((h', d'), pg) \<and> idle d' \<and>
      (\<forall>p<cap. img h' p = (if unat b * 4096 \<le> p \<and> p < unat b * 4096 + 4096 then pg (p - unat b * 4096) else img h p))"
proof -
  have s: "unat (ucast (b * 8) :: u64) * 512 = unat b * 4096" using submit_chain(2) [OF d b(1) refl] by simp
  have law: "\<And>d h pg first r st ty sector. request_chain d first r st ty sector \<Longrightarrow> unat sector * 512 + 4096 \<le> cap \<Longrightarrow>
      (ty = VIRTIO_BLK_T_IN \<longrightarrow> (\<exists>h' pg'. dev h d pg = (h', completed d first st, pg') \<and> (\<forall>i<4096. pg' i = img h (unat sector * 512 + i)) \<and>
         (\<forall>p<cap. img h' p = img h p))) \<and>
      (ty = VIRTIO_BLK_T_OUT \<longrightarrow> (\<exists>h'. dev h d pg = (h', completed d first st, pg) \<and>
         (\<forall>p<cap. img h' p = (if unat sector * 512 \<le> p \<and> p < unat sector * 512 + 4096 then pg (p - unat sector * 512) else img h p))))"
    using dev unfolding virtio_device_def by blast
  have end_to: "\<exists>d4. virtio_disk_ll_rw dev (h, d) b pg rw = Inr ((h', d4), pg') \<and> idle d4"
    if "dev h (virtio_submit b rw (0, 1, 2) (d\<lparr>vfree := (vfree d)(0 := False, 1 := False, 2 := False)\<rparr>)) pg =
      (h', completed (virtio_submit b rw (0, 1, 2) (d\<lparr>vfree := (vfree d)(0 := False, 1 := False, 2 := False)\<rparr>)) 0 0, pg')" for rw h' pg'
  proof -
    obtain d3 d4 where f: "virtio_disk_intr (completed (virtio_submit b rw (0, 1, 2) (d\<lparr>vfree := (vfree d)(0 := False, 1 := False, 2 := False)\<rparr>)) 0 0) = Inr d3"
      "intr_count d3 = 1" "free_chain 0 (d3\<lparr>intr_count := 0\<rparr>) = Inr d4" "idle d4"
      using finish_chain [OF d refl] by blast
    show ?thesis using f that by (simp add: virtio_disk_ll_rw_def virtio_disk_rw_def alloc3_idle [OF d] del: One_nat_def)
  qed
  have "DEV_READ \<noteq> DEV_WRITE" by (simp add: DEV_READ_def DEV_WRITE_def)
  note rq = submit_chain(1) [OF d b(1) refl]
  note r = law [OF rq [of DEV_READ], of h pg, unfolded s if_not_P [OF \<open>DEV_READ \<noteq> DEV_WRITE\<close>]] and w = law [OF rq [of DEV_WRITE], of h pg, unfolded s if_P [OF refl]]
  show "\<exists>h' d' pg'. virtio_disk_ll_rw dev (h, d) b pg DEV_READ = Inr ((h', d'), pg') \<and> idle d' \<and> (\<forall>i<4096. pg' i = img h (unat b * 4096 + i)) \<and>
      (\<forall>p<cap. img h' p = img h p)"
    using r b(2) end_to by metis
  show "\<exists>h' d'. virtio_disk_ll_rw dev (h, d) b pg DEV_WRITE = Inr ((h', d'), pg) \<and> idle d' \<and>
      (\<forall>p<cap. img h' p = (if unat b * 4096 \<le> p \<and> p < unat b * 4096 + 4096 then pg (p - unat b * 4096) else img h p))"
    using w b(2) end_to by metis
qed

lemma virtio_block_driver:
  assumes "virtio_device dev img cap" "nblocks * 4096 \<le> cap" "nblocks \<le> 2 ^ 29"
  shows "block_driver (virtio_disk_ll_rw dev) (virtio_contents img) (\<lambda>s. idle (snd s)) nblocks"
proof (unfold_locales, goal_cases)
  case (1 s b pg)
  have b: "unat b * 8 < 2 ^ 32" "unat b * 4096 + 4096 \<le> cap" using 1(2) assms(2,3) by simp_all
  have in_cap: "unat c * 4096 + i < cap" if "unat c < nblocks" "i < 4096" for c :: u32 and i using that assms(2) by linarith
  obtain h d where s: "s = (h, d)" "idle d" using 1(1) by (cases s) simp
  obtain h' d' pg' where t: "virtio_disk_ll_rw dev (h, d) b pg DEV_READ = Inr ((h', d'), pg')" "idle d'"
    "\<forall>i<4096. pg' i = img h (unat b * 4096 + i)" "\<forall>p<cap. img h' p = img h p"
    using transfer(1) [OF assms(1) s(2) b] by blast
  then show ?case using in_cap by (intro exI [of _ "(h', d')"] exI [of _ pg']) (simp add: s virtio_contents_def)
next
  case (2 s b pg)
  have b: "unat b * 8 < 2 ^ 32" "unat b * 4096 + 4096 \<le> cap" using 2(2) assms(2,3) by simp_all
  obtain h d where s: "s = (h, d)" "idle d" using 2(1) by (cases s) simp
  obtain h' d' where t: "virtio_disk_ll_rw dev (h, d) b pg DEV_WRITE = Inr ((h', d'), pg)" "idle d'"
    "\<forall>p<cap. img h' p = (if unat b * 4096 \<le> p \<and> p < unat b * 4096 + 4096 then pg (p - unat b * 4096) else img h p)"
    using transfer(2) [OF assms(1) s(2) b] by blast
  have "img h' (unat c * 4096 + i) = (if c = b then pg i else img h (unat c * 4096 + i))" if "unat c < nblocks" "i < 4096" for c :: u32 and i
  proof -
    have "unat c * 4096 + i < cap" using that assms(2) by linarith
    moreover have "c = b" if "unat b * 4096 \<le> unat c * 4096 + i" "unat c * 4096 + i < unat b * 4096 + 4096"
      using that \<open>i < 4096\<close> by (intro iffD2 [OF word_unat_eq_iff]) linarith
    ultimately show ?thesis using t(3) that(2) by (cases "c = b") auto
  qed
  then show ?case using t(1,2) by (intro exI [of _ "(h', d')"]) (simp add: s virtio_contents_def)
qed

text \<open>A device that answers the initialisation: the identification registers, the status register that reads back, and a queue that is long enough and not in use.\<close>

definition virtio_present :: "(mmio_log \<Rightarrow> nat \<Rightarrow> u32) \<Rightarrow> bool" where
  "virtio_present rd = ((\<forall>w. rd w VIRTIO_MMIO_MAGIC_VALUE = 0x74726976 \<and> rd w VIRTIO_MMIO_VERSION = 2 \<and> rd w VIRTIO_MMIO_DEVICE_ID = 2 \<and>
      rd w VIRTIO_MMIO_VENDOR_ID = 0x554d4551 \<and> NUM \<le> unat (rd w VIRTIO_MMIO_QUEUE_NUM_MAX)) \<and>
    (\<forall>w v. rd (w @ [(VIRTIO_MMIO_STATUS, v)]) VIRTIO_MMIO_STATUS = v) \<and>
    (\<forall>w. (\<forall>v. (VIRTIO_MMIO_QUEUE_READY, v) \<notin> set w) \<longrightarrow> rd w VIRTIO_MMIO_QUEUE_READY = 0))"

lemma virtio_init_gives:
  assumes "virtio_present rd" "gd_dev (bd_gd bd) = (h, d0)" "used_idx d0 = 0"
  shows "\<exists>w d. idle d \<and> virtio_disk_init dev rd (Some pd) (Some pa) (Some pu) p bd ds =
    kbind (register_block p (Some (virtio_disk_ll_rw dev)) VDISK_SIZE (bd\<lparr>bd_gd := (bd_gd bd)\<lparr>gd_dev := (h, d)\<rparr>\<rparr>) ds) (\<lambda>(bd1, ds1). Inr (w, bd1, ds1))"
proof -
  have rd: "\<And>w v. rd (w @ [(VIRTIO_MMIO_STATUS, v)]) VIRTIO_MMIO_STATUS = v" "\<And>w. NUM \<le> unat (rd w VIRTIO_MMIO_QUEUE_NUM_MAX)"
    "\<And>w. \<forall>v. (VIRTIO_MMIO_QUEUE_READY, v) \<notin> set w \<Longrightarrow> rd w VIRTIO_MMIO_QUEUE_READY = 0"
    "\<And>w. rd w VIRTIO_MMIO_MAGIC_VALUE = 0x74726976 \<and> rd w VIRTIO_MMIO_VERSION = 2 \<and> rd w VIRTIO_MMIO_DEVICE_ID = 2 \<and> rd w VIRTIO_MMIO_VENDOR_ID = 0x554d4551"
    using assms(1) unfolding virtio_present_def by blast+
  have "rd [a, b, c, d, (VIRTIO_MMIO_STATUS, v)] VIRTIO_MMIO_STATUS = v" for a b c d v using rd(1) [of "[a, b, c, d]" v] by simp
  then have "\<exists>w. virtio_negotiate rd = Inr (w, 11) \<and> (\<forall>v. (VIRTIO_MMIO_QUEUE_READY, v) \<notin> set w)"
    using rd(4) by (simp add: virtio_negotiate_def Let_def VIRTIO_CONFIG_S_ACKNOWLEDGE_def VIRTIO_CONFIG_S_DRIVER_def VIRTIO_CONFIG_S_FEATURES_OK_def)
      (simp add: VIRTIO_MMIO_QUEUE_READY_def VIRTIO_MMIO_STATUS_def VIRTIO_MMIO_DRIVER_FEATURES_def)
  then obtain w where w: "virtio_negotiate rd = Inr (w, 11)" "\<forall>v. (VIRTIO_MMIO_QUEUE_READY, v) \<notin> set w" by blast
  have "rd (w @ [(VIRTIO_MMIO_QUEUE_SEL, 0)]) VIRTIO_MMIO_QUEUE_READY = 0"
    using w(2) by (intro rd(3)) (simp add: VIRTIO_MMIO_QUEUE_SEL_def VIRTIO_MMIO_QUEUE_READY_def)
  moreover have "rd w VIRTIO_MMIO_QUEUE_NUM_MAX \<noteq> 0" for w using rd(2) [of w] by (auto simp: NUM_def)
  ultimately obtain w1 where q: "virtio_queue_setup rd w 11 (Some pd) (Some pa) (Some pu) (d0\<lparr>intr_count := 0\<rparr>) = Inr (w1, d0\<lparr>intr_count := 0,
      vdesc := (\<lambda>_. \<lparr>vd_addr = DNull, vd_len = 0, vd_flags = 0, vd_next = 0\<rparr>), avail_idx := 0, avail_ring := (\<lambda>_. 0),
      used_ring_idx := 0, used_ring := (\<lambda>_. 0), vfree := (\<lambda>i. i < NUM \<or> vfree d0 i)\<rparr>)"
    using rd(2) by (simp add: virtio_queue_setup_def Let_def not_less)
  show ?thesis by (intro exI conjI) (auto simp: virtio_disk_init_def assms(2) w(1) q idle_def assms(3))
qed

lemma virtio_features_bits:
  "bit (virtio_features offered) n = (bit offered n \<and> n \<notin> {VIRTIO_BLK_F_RO, VIRTIO_BLK_F_SCSI, VIRTIO_BLK_F_CONFIG_WCE, VIRTIO_BLK_F_MQ, VIRTIO_F_ANY_LAYOUT,
     VIRTIO_RING_F_INDIRECT_DESC, VIRTIO_RING_F_EVENT_IDX})"
proof -
  have off: "bit (feature_off b f) n = (bit f n \<and> n \<noteq> b)" if "b < 64" for b f
    using that by (auto simp: feature_off_def bit_simps dest: bit_imp_le_length)
  have "bit (ucast offered :: u64) n = bit offered n" by (auto simp: bit_simps dest: bit_imp_le_length)
  then show ?thesis
    by (auto simp: virtio_features_def Let_def off VIRTIO_BLK_F_RO_def VIRTIO_BLK_F_SCSI_def VIRTIO_BLK_F_CONFIG_WCE_def VIRTIO_BLK_F_MQ_def
      VIRTIO_F_ANY_LAYOUT_def VIRTIO_RING_F_INDIRECT_DESC_def VIRTIO_RING_F_EVENT_IDX_def)
qed

text \<open>
  C11: the block layer over the virtio disk.  For every device that keeps the virtio rules for one request at a time and completes requests within the disk with status 0, \<open>virtio_disk_init\<close>
  registers the disk, and from then on any sequence of \<open>blk_read\<close> and \<open>blk_write\<close> calls on ranges of the disk returns, while objects are free, without a panic in the driver and with all
  descriptors back, what it returns on the bytes of the disk image; after a round of the flush the image holds the bytes written.
\<close>

theorem virtio_disk_refines:
  assumes "virtio_device dev img cap" "virtio_present rd" "nblocks * 4096 \<le> cap" "nblocks \<le> 2 ^ 29" "gd_dev (bd_gd bd) = (h, d0)" "used_idx d0 = 0"
    "0 < gd_next (bd_gd bd)" "\<forall>q\<in>set ops. bop_ok nblocks q" "sum_list (map bop_mem ops) + 3 \<le> gd_mem (bd_gd bd)"
  shows "\<exists>w bd1 ds1 gd2 gd3. virtio_disk_init dev rd (Some pd) (Some pa) (Some pu) p bd ds = Inr (w, bd1, ds1) \<and>
    run_blk (bd_ll_rw bd1) ops (bd_gd bd1) = Some (Inr (fst (blk_spec ops (img h)), gd2)) \<and> flush_bhash (bd_ll_rw bd1) gd2 = Some (Inr gd3) \<and>
    (\<forall>b i. b < nblocks \<longrightarrow> i < 4096 \<longrightarrow> img (fst (gd_dev gd3)) (b * 4096 + i) = snd (blk_spec ops (img h)) (b * 4096 + i))"
proof -
  obtain w d where i: "idle d" "virtio_disk_init dev rd (Some pd) (Some pa) (Some pu) p bd ds =
    kbind (register_block p (Some (virtio_disk_ll_rw dev)) VDISK_SIZE (bd\<lparr>bd_gd := (bd_gd bd)\<lparr>gd_dev := (h, d)\<rparr>\<rparr>) ds) (\<lambda>(bd1, ds1). Inr (w, bd1, ds1))"
    using virtio_init_gives [OF assms(2,5,6)] by blast
  have nb: "nblocks \<le> 2 ^ 32" using assms(4) by simp
  obtain gd1 gd2 gd3 where g: "gendisk_init (Some (virtio_disk_ll_rw dev)) ((bd_gd bd)\<lparr>gd_dev := (h, d)\<rparr>) = Inr (virtio_disk_ll_rw dev, gd1)"
    "run_blk (virtio_disk_ll_rw dev) ops gd1 = Some (Inr (fst (blk_spec ops (img h)), gd2))" "flush_bhash (virtio_disk_ll_rw dev) gd2 = Some (Inr gd3)"
    "\<forall>b i. unat b < nblocks \<longrightarrow> i < 4096 \<longrightarrow> virtio_contents img (gd_dev gd3) b i = snd (blk_spec ops (img h)) (unat b * 4096 + i)"
    using block_driver.layer_refines [OF virtio_block_driver [OF assms(1,3,4)] nb, of "(bd_gd bd)\<lparr>gd_dev := (h, d)\<rparr>" ops "img h"] i(1) assms(7-9)
    by (auto simp: virtio_contents_def)
  have "img (fst (gd_dev gd3)) (b * 4096 + i) = snd (blk_spec ops (img h)) (b * 4096 + i)" if "b < nblocks" "i < 4096" for b i
  proof -
    have "unat (of_nat b :: u32) = b" using that(1) assms(4) by (intro unat_of_nat_id) simp
    then show ?thesis using g(4) that by (auto simp: virtio_contents_def dest: spec [of _ "of_nat b"])
  qed
  then show ?thesis
    using i(2) register_block_Inr [of "Some (virtio_disk_ll_rw dev)" "bd\<lparr>bd_gd := (bd_gd bd)\<lparr>gd_dev := (h, d)\<rparr>\<rparr>"] g(1-3) by auto
qed

text \<open>A device that keeps the rules, and a disk of four blocks on it.\<close>

definition sim_device :: "mem device" where
  "sim_device h d pg =
    (let first = unat (avail_ring d (unat (used_ring_idx d) mod NUM)); d1 = vdesc d (unat (vd_next (vdesc d first))); d2 = vdesc d (unat (vd_next d1)) in
     case (vd_addr (vdesc d first), vd_addr d2) of
       (DReq r, DStatus st) \<Rightarrow>
         let p0 = unat (vr_sector (vops d r)) * 512 in
         if vr_type (vops d r) = VIRTIO_BLK_T_OUT then (\<lambda>p. if p0 \<le> p \<and> p < p0 + 4096 then pg (p - p0) else h p, completed d first st, pg)
         else (h, completed d first st, \<lambda>i. h (p0 + i))
     | _ \<Rightarrow> (h, d, pg))"

definition sim_regs :: "mmio_log \<Rightarrow> nat \<Rightarrow> u32" where
  "sim_regs w r = (if r = VIRTIO_MMIO_MAGIC_VALUE then 0x74726976 else if r = VIRTIO_MMIO_VERSION \<or> r = VIRTIO_MMIO_DEVICE_ID then 2
    else if r = VIRTIO_MMIO_VENDOR_ID then 0x554d4551 else if r = VIRTIO_MMIO_QUEUE_NUM_MAX then 1024
    else case find (\<lambda>x. fst x = r) (rev w) of Some x \<Rightarrow> snd x | None \<Rightarrow> 0)"

definition sim_disk :: "(mem \<times> disk) block_device" where
  "sim_disk = \<lparr>bd_dev = 0, bd_disk_size = 0, bd_gd = \<lparr>gd_dev = (\<lambda>_. 97, \<lparr>vdesc = (\<lambda>_. \<lparr>vd_addr = DNull, vd_len = 0, vd_flags = 0, vd_next = 0\<rparr>),
      avail_idx = 0, avail_ring = (\<lambda>_. 0), used_ring_idx = 0, used_ring = (\<lambda>_. 0), vfree = (\<lambda>_. False), used_idx = 0, info_status = (\<lambda>_. 0),
      vops = (\<lambda>_. \<lparr>vr_type = 0, vr_reserved = 0, vr_sector = 0\<rparr>), intr_count = 0\<rparr>),
      gd_queue = [], gd_bufs = (\<lambda>_. \<lparr>bh_flags = 0, bh_blockno = 0, bh_locked = False, bh_refcnt = 0, bh_page = (\<lambda>_. 0)\<rparr>),
      gd_hash = \<lparr>ht_size = 0, ht_count = 0, ht_heads = []\<rparr>, gd_active = [], gd_inactive = [], gd_active_count = 0, gd_inactive_count = 0, gd_dirty = [],
      gd_mem = 100, gd_next = 1\<rparr>, bd_ll_rw = gen_ll_rw, bd_private = 0\<rparr>"

lemma sim_device_rules: "virtio_device sim_device (\<lambda>h. h) 32768"
  unfolding virtio_device_def by (auto simp: sim_device_def request_chain_def Let_def VIRTIO_BLK_T_IN_def VIRTIO_BLK_T_OUT_def)

lemma sim_regs_present: "virtio_present sim_regs"
proof -
  have "find (\<lambda>x. fst x = VIRTIO_MMIO_QUEUE_READY) (rev w) = None" if "\<forall>v. (VIRTIO_MMIO_QUEUE_READY, v) \<notin> set w" for w :: mmio_log
    using that by (auto simp: find_None_iff)
  then show ?thesis
    by (auto simp: virtio_present_def sim_regs_def NUM_def VIRTIO_MMIO_MAGIC_VALUE_def VIRTIO_MMIO_VERSION_def VIRTIO_MMIO_DEVICE_ID_def
      VIRTIO_MMIO_VENDOR_ID_def VIRTIO_MMIO_QUEUE_NUM_MAX_def VIRTIO_MMIO_STATUS_def VIRTIO_MMIO_QUEUE_READY_def)
qed

theorem virtio_disk_refines_witness:
  "\<exists>w bd1 ds1 gd2 gd3. virtio_disk_init sim_device sim_regs (Some 0x80200000) (Some 0x80201000) (Some 0x80202000) 16 sim_disk devs_init = Inr (w, bd1, ds1) \<and>
    run_blk (bd_ll_rw bd1) mvirt_ops (bd_gd bd1) = Some (Inr ([[3, 4, 97]], gd2)) \<and> flush_bhash (bd_ll_rw bd1) gd2 = Some (Inr gd3) \<and>
    fst (gd_dev gd3) 16384 = 3 \<and> fst (gd_dev gd3) 0 = 97"
proof -
  obtain w bd1 ds1 gd2 gd3 where g: "virtio_disk_init sim_device sim_regs (Some 0x80200000) (Some 0x80201000) (Some 0x80202000) 16 sim_disk devs_init = Inr (w, bd1, ds1)"
    "run_blk (bd_ll_rw bd1) mvirt_ops (bd_gd bd1) = Some (Inr (fst (blk_spec mvirt_ops (\<lambda>_. 97)), gd2))" "flush_bhash (bd_ll_rw bd1) gd2 = Some (Inr gd3)"
    "\<And>b i. b < 8 \<Longrightarrow> i < 4096 \<Longrightarrow> fst (gd_dev gd3) (b * 4096 + i) = snd (blk_spec mvirt_ops (\<lambda>_. 97)) (b * 4096 + i)"
    using virtio_disk_refines [OF sim_device_rules sim_regs_present,
      where nblocks = 8 and bd = sim_disk and ops = mvirt_ops and pd = "0x80200000" and pa = "0x80201000" and pu = "0x80202000" and p = 16 and ds = devs_init]
    by (auto simp: sim_disk_def mvirt_ops_def)
  have "fst (gd_dev gd3) 16384 = 3" "fst (gd_dev gd3) 0 = 97"
    using g(4) [of 4 0] g(4) [of 0 0] by (simp_all add: mvirt_ops_spec)
  then show ?thesis using g(1-3) mvirt_ops_spec(1) by auto
qed

end
