(* ===== verification/Serial.thy ===== *)
theory Serial
  imports Prelude
begin

text \<open>
  Structures as sequences of bytes, little endian as on RISC-V: what a driver transfers when the kernel passes it the address of a structure or
  of an array of words.  Words of any width and arrays of words survive the way to bytes and back.
\<close>

unbundle bit_operations_syntax

definition le_bytes :: "nat \<Rightarrow> 'a::len word \<Rightarrow> u8 list" where
  "le_bytes n w = map (\<lambda>i. ucast (drop_bit (8 * i) w)) [0..<n]"

definition le_word :: "u8 list \<Rightarrow> 'a::len word" where
  "le_word bs = foldr (\<lambda>b w. ucast b OR push_bit 8 w) bs 0"

text \<open>The member of \<open>n\<close> bytes at offset \<open>off\<close>.\<close>

definition field :: "nat \<Rightarrow> nat \<Rightarrow> u8 list \<Rightarrow> u8 list" where
  "field off n bs = take n (drop off bs)"

text \<open>An array of words of \<open>n\<close> bytes each.\<close>

definition words_of :: "nat \<Rightarrow> u8 list \<Rightarrow> 'a::len word list" where
  "words_of n bs = map (\<lambda>i. le_word (field (n * i) n bs)) [0..<length bs div n]"

definition bytes_of :: "nat \<Rightarrow> 'a::len word list \<Rightarrow> u8 list" where
  "bytes_of n ws = concat (map (le_bytes n) ws)"

lemma length_le_bytes [simp]: "length (le_bytes n w) = n"
  by (simp add: le_bytes_def)

lemma length_bytes_of [simp]: "length (bytes_of n ws) = n * length ws"
  by (induction ws) (simp_all add: bytes_of_def)

lemma length_words_of [simp]: "length (words_of n bs) = length bs div n"
  by (simp add: words_of_def)

lemma bit_le_word: "bit (le_word bs :: 'a::len word) k \<longleftrightarrow> k < LENGTH('a) \<and> k div 8 < length bs \<and> bit (bs ! (k div 8)) (k mod 8)"
proof (induction bs arbitrary: k)
  case Nil
  then show ?case by (simp add: le_word_def)
next
  case (Cons b bs)
  have s: "(le_word (b # bs) :: 'a word) = ucast b OR push_bit 8 (le_word bs)" by (simp add: le_word_def)
  have small: "\<not> bit b k" if "8 \<le> k" using that bit_imp_le_length [of b k] by auto
  show ?case
  proof (cases "k < 8")
    case True
    then show ?thesis by (auto simp: s bit_simps)
  next
    case False
    then have "k div 8 = Suc ((k - 8) div 8)" "k mod 8 = (k - 8) mod 8" by (simp_all add: le_div_geq le_mod_geq)
    then show ?thesis using False small Cons.IH [of "k - 8"] by (auto simp: s bit_simps)
  qed
qed

lemma le_word_bytes:
  assumes "LENGTH('a::len) = 8 * n"
  shows "le_word (le_bytes n w) = (w :: 'a word)"
proof (rule bit_eqI)
  fix k assume "possible_bit TYPE('a word) k"
  then have k: "k < LENGTH('a)" by simp
  have "8 * (k div 8) + k mod 8 = k" by simp
  then show "bit (le_word (le_bytes n w) :: 'a word) k = bit w k"
    using k assms by (auto simp: bit_le_word le_bytes_def bit_simps less_mult_imp_div_less)
qed

lemma le_bytes_word:
  assumes "LENGTH('a::len) = 8 * n" "length bs = n"
  shows "le_bytes n (le_word bs :: 'a word) = bs"
proof (rule nth_equalityI)
  show "length (le_bytes n (le_word bs :: 'a word)) = length bs" using assms by simp
  fix i assume "i < length (le_bytes n (le_word bs :: 'a word))"
  then have i: "i < n" by simp
  show "le_bytes n (le_word bs :: 'a word) ! i = bs ! i"
  proof (rule bit_eqI)
    fix k assume "possible_bit TYPE(8 word) k"
    then have k: "k < 8" by simp
    then have "8 * i + k < 8 * n" using i by linarith
    then show "bit (le_bytes n (le_word bs :: 'a word) ! i) k = bit (bs ! i) k"
      using i k assms by (simp add: le_bytes_def bit_simps bit_le_word)
  qed
qed

lemma field_bytes_of: "i < length ws \<Longrightarrow> field (n * i) n (bytes_of n ws) = le_bytes n (ws ! i)"
proof (induction ws arbitrary: i)
  case (Cons w ws)
  have s: "bytes_of n (w # ws) = le_bytes n w @ bytes_of n ws" by (simp add: bytes_of_def)
  show ?case
  proof (cases i)
    case 0
    then show ?thesis by (simp add: s field_def)
  next
    case (Suc j)
    then show ?thesis using Cons by (simp add: s field_def)
  qed
qed simp

lemma words_of_bytes:
  assumes "LENGTH('a::len) = 8 * n" "0 < n"
  shows "words_of n (bytes_of n ws) = (ws :: 'a word list)"
  by (rule nth_equalityI) (use assms in \<open>simp_all add: words_of_def field_bytes_of le_word_bytes\<close>)

lemma bytes_of_words:
  assumes "LENGTH('a::len) = 8 * n" "length bs = n * m" "0 < n"
  shows "bytes_of n (words_of n bs :: 'a word list) = bs"
  using assms(2)
proof (induction m arbitrary: bs)
  case (Suc m)
  let ?b = "take n bs" and ?r = "drop n bs"
  have l: "length ?b = n" "length ?r = n * m" using Suc.prems by simp_all
  have d: "length bs div n = Suc (length ?r div n)" using Suc.prems assms(3) by simp
  have "words_of n bs = (le_word ?b :: 'a word) # words_of n ?r"
    unfolding words_of_def d upt_conv_Cons [OF zero_less_Suc] list.map map_Suc_upt [symmetric] map_map o_def
    by (simp add: field_def add.commute)
  then have "bytes_of n (words_of n bs :: 'a word list) = ?b @ ?r"
    using Suc.IH [OF l(2)] le_bytes_word [OF assms(1) l(1)] by (simp add: bytes_of_def)
  then show ?case by simp
qed (simp add: bytes_of_def words_of_def)

lemma words_of_nth: "i < length bs div n \<Longrightarrow> words_of n bs ! i = le_word (field (n * i) n bs)"
  by (simp add: words_of_def)

lemma le_word_zero: "\<forall>b\<in>set bs. b = 0 \<Longrightarrow> le_word bs = 0"
  by (induction bs) (simp_all add: le_word_def)

lemma field_zero: "\<forall>b\<in>set bs. b = 0 \<Longrightarrow> \<forall>b\<in>set (field off n bs). b = 0"
  unfolding field_def using in_set_takeD in_set_dropD by metis

end
