(* ===== verification/Efs.thy ===== *)
theory Efs
  imports Devs Bitmap Serial
begin

text \<open>
  The file system fs/easyfs below the directories: super block, bitmaps and mounting (super.c, fs.c) and inodes (inode.c), over the block
  layer.  Inodes in memory are addresses; \<open>efs_inode\<close> holds their contents and \<open>efs_bd\<close> is the mounted device.  The structures of the disk
  go through their bytes.  The spin locks make their sections atomic; the sleep lock of an inode is the flag \<open>i_slock\<close>, and a call that
  waits for ever is \<open>None\<close>, as in the block layer.  Kernel memory is the pool of the device: \<open>gd_mem\<close> objects are left; \<open>efs_next\<close> is the
  address of the next inode, and what recycled memory holds is \<open>efs_stale\<close>.  The dentries are not part of this theory.
\<close>

section \<open>Data\<close>

definition EASYFS_MAGIC :: u32 where "EASYFS_MAGIC = 0x12345678"
definition BLOCK_SIZE :: u32 where "BLOCK_SIZE = 4096"
definition NDIRECT :: nat where "NDIRECT = 12"
definition NINDIRECT :: nat where "NINDIRECT = 1024"
definition MAXFILE :: nat where "MAXFILE = NDIRECT + NINDIRECT"
definition SUPER_BLOCK_LOCATION :: u32 where "SUPER_BLOCK_LOCATION = 1"

datatype easy_file_type = F_NONE | F_REG | F_DIR | F_DEV

fun file_type_no :: "easy_file_type \<Rightarrow> u32" where
  "file_type_no F_NONE = 0" | "file_type_no F_REG = 1" | "file_type_no F_DIR = 2" | "file_type_no F_DEV = 3"

record easy_d_super_block =
  inode_count :: u32
  inode_free :: u32
  inode_size :: u32
  inode_map_start :: u32
  inode_area_start :: u32
  block_count :: u32
  block_free :: u32
  block_size :: u32
  block_map_start :: u32
  block_area_start :: u32
  sb_name :: "u8 list"
  sb_magic :: u32

text \<open>The two bytes of padding behind the device number go to the disk as well.\<close>

record easy_d_inode =
  i_no :: u32
  i_type :: u32
  i_devno :: u16
  i_pad :: u16
  i_size :: u32
  i_addrs :: "u32 list"
  i_nlink :: u32

definition S_DIRTY :: u32 where "S_DIRTY = push_bit 0 1"
definition I_DIRTY :: u32 where "I_DIRTY = push_bit 0 1"
definition I_VALID :: u32 where "I_VALID = push_bit 1 1"

record easy_m_inode =
  i_di :: easy_d_inode
  i_slock :: bool
  i_refcnt :: u32
  i_flags :: u32
  i_indir :: "u32 list option"

record 'd efs =
  efs_bd :: "'d block_device"
  s_ds :: easy_d_super_block
  s_flags :: u32
  s_ihash :: "addr hash_table"
  s_ilist :: "addr list"
  s_idirty_list :: "addr list"
  imap :: bitmap
  bmap :: bitmap
  efs_inode :: "addr \<Rightarrow> easy_m_inode"
  efs_stale :: "nat \<Rightarrow> u8"
  efs_next :: addr

text \<open>The structures as bytes, at the offsets the compiler gives their members.\<close>

definition sb_bytes :: "easy_d_super_block \<Rightarrow> u8 list" where
  "sb_bytes ds = bytes_of 4 [inode_count ds, inode_free ds, inode_size ds, inode_map_start ds, inode_area_start ds,
     block_count ds, block_free ds, block_size ds, block_map_start ds, block_area_start ds] @ sb_name ds @ le_bytes 4 (sb_magic ds)"

definition sb_of_bytes :: "u8 list \<Rightarrow> easy_d_super_block" where
  "sb_of_bytes bs = (let w = (\<lambda>i. le_word (field (4 * i) 4 bs)) in
    \<lparr>inode_count = w 0, inode_free = w 1, inode_size = w 2, inode_map_start = w 3, inode_area_start = w 4, block_count = w 5, block_free = w 6,
     block_size = w 7, block_map_start = w 8, block_area_start = w 9, sb_name = field 40 16 bs, sb_magic = le_word (field 56 4 bs)\<rparr>)"

definition d_inode_bytes :: "easy_d_inode \<Rightarrow> u8 list" where
  "d_inode_bytes di = le_bytes 4 (i_no di) @ le_bytes 4 (i_type di) @ le_bytes 2 (i_devno di) @ le_bytes 2 (i_pad di) @ le_bytes 4 (i_size di) @
     bytes_of 4 (i_addrs di) @ le_bytes 4 (i_nlink di)"

definition d_inode_of_bytes :: "u8 list \<Rightarrow> easy_d_inode" where
  "d_inode_of_bytes bs = \<lparr>i_no = le_word (field 0 4 bs), i_type = le_word (field 4 4 bs), i_devno = le_word (field 8 2 bs), i_pad = le_word (field 10 2 bs),
     i_size = le_word (field 12 4 bs), i_addrs = words_of 4 (field 16 52 bs), i_nlink = le_word (field 68 4 bs)\<rparr>"

definition SB_SIZE :: u32 where "SB_SIZE = 60"
definition D_INODE_SIZE :: u32 where "D_INODE_SIZE = 72"

section \<open>Memory and device\<close>

definition iobind :: "'a kres option \<Rightarrow> ('a \<Rightarrow> 'b kres option) \<Rightarrow> 'b kres option" where
  "iobind m f = Option.bind m (\<lambda>r. case r of Inl e \<Rightarrow> Some (Inl e) | Inr x \<Rightarrow> f x)"

definition set_gd :: "'d gendisk \<Rightarrow> 'd efs \<Rightarrow> 'd efs" where
  "set_gd gd s = s\<lparr>efs_bd := (efs_bd s)\<lparr>bd_gd := gd\<rparr>\<rparr>"

definition gd_of :: "'d efs \<Rightarrow> 'd gendisk" where
  "gd_of s = bd_gd (efs_bd s)"

definition kalloc :: "'d efs \<Rightarrow> addr option \<times> 'd efs" where
  "kalloc s = (let gd = gd_of s in
    if gd_mem gd = 0 then (None, s) else (Some (efs_next s), (set_gd (gd\<lparr>gd_mem := gd_mem gd - 1\<rparr>) s)\<lparr>efs_next := efs_next s + 1\<rparr>))"

definition bd_read :: "u32 \<Rightarrow> u32 \<Rightarrow> u32 \<Rightarrow> u8 list \<Rightarrow> 'd efs \<Rightarrow> (u8 list \<times> 'd efs) kres option" where
  "bd_read b off len v s = iobind (blk_read (bd_ll_rw (efs_bd s)) b off len (Some v) (gd_of s)) (\<lambda>(_, v1, gd). Some (Inr (v1, set_gd gd s)))"

definition bd_write :: "u32 \<Rightarrow> u32 \<Rightarrow> u32 \<Rightarrow> u8 list \<Rightarrow> 'd efs \<Rightarrow> 'd efs kres option" where
  "bd_write b off len v s = iobind (blk_write (bd_ll_rw (efs_bd s)) b off len (Some v) (gd_of s)) (\<lambda>(_, gd). Some (Inr (set_gd gd s)))"

definition bd_read_count :: "u32 \<Rightarrow> u32 \<Rightarrow> u8 list \<Rightarrow> 'd efs \<Rightarrow> (u8 list \<times> 'd efs) kres option" where
  "bd_read_count b count v s = iobind (blk_read_count (bd_ll_rw (efs_bd s)) b count (Some v) (gd_of s)) (\<lambda>(_, v1, gd). Some (Inr (v1, set_gd gd s)))"

definition bd_write_count :: "u32 \<Rightarrow> u32 \<Rightarrow> u8 list \<Rightarrow> 'd efs \<Rightarrow> 'd efs kres option" where
  "bd_write_count b count v s = iobind (blk_write_count (bd_ll_rw (efs_bd s)) b count (Some v) (gd_of s)) (\<lambda>(_, gd). Some (Inr (set_gd gd s)))"

definition upd_inode :: "addr \<Rightarrow> (easy_m_inode \<Rightarrow> easy_m_inode) \<Rightarrow> 'd efs \<Rightarrow> 'd efs" where
  "upd_inode a f s = s\<lparr>efs_inode := (efs_inode s)(a := f (efs_inode s a))\<rparr>"

definition upd_di :: "addr \<Rightarrow> (easy_d_inode \<Rightarrow> easy_d_inode) \<Rightarrow> 'd efs \<Rightarrow> 'd efs" where
  "upd_di a f s = upd_inode a (\<lambda>m. m\<lparr>i_di := f (i_di m)\<rparr>) s"

text \<open>\<open>sleep_on(&i->i_slock)\<close> and \<open>wake_up(&i->i_slock)\<close> around an operation.\<close>

definition i_lock :: "addr \<Rightarrow> 'd efs \<Rightarrow> 'd efs kres option" where
  "i_lock a s = (if i_slock (efs_inode s a) then None else Some (Inr (upd_inode a (\<lambda>m. m\<lparr>i_slock := True\<rparr>) s)))"

definition i_unlock :: "addr \<Rightarrow> 'd efs \<Rightarrow> 'd efs" where
  "i_unlock a s = upd_inode a (\<lambda>m. m\<lparr>i_slock := False\<rparr>) s"

section \<open>Bitmaps\<close>

definition set_s_dirty :: "'d efs \<Rightarrow> 'd efs" where
  "set_s_dirty s = s\<lparr>s_flags := SET_FLAG (s_flags s) S_DIRTY\<rparr>"

definition efs_imap_alloc :: "'d efs \<Rightarrow> (u32 \<times> 'd efs) kres" where
  "efs_imap_alloc s = kbind (bitmap_alloc (imap s)) (\<lambda>(no, bm).
    if no = -1 then Inl (Panic ''inode_no_alloc'')
    else Inr (of_int no, set_s_dirty (s\<lparr>imap := bm, s_ds := (s_ds s)\<lparr>inode_free := inode_free (s_ds s) - 1\<rparr>\<rparr>)))"

definition efs_imap_free :: "u32 \<Rightarrow> 'd efs \<Rightarrow> 'd efs kres" where
  "efs_imap_free ino s = kbind (bitmap_is_free (sint ino) (imap s)) (\<lambda>r.
    if r \<noteq> 0 then Inl (Panic ''efs_imap_free'')
    else kbind (bitmap_free (sint ino) (imap s)) (\<lambda>bm.
      Inr (set_s_dirty (s\<lparr>imap := bm, s_ds := (s_ds s)\<lparr>inode_free := inode_free (s_ds s) + 1\<rparr>\<rparr>))))"

definition efs_bmap_alloc :: "'d efs \<Rightarrow> (u32 \<times> 'd efs) kres" where
  "efs_bmap_alloc s = kbind (bitmap_alloc (bmap s)) (\<lambda>(no, bm).
    if no = -1 then Inl (Panic ''data_block_alloc'')
    else Inr (of_int no, set_s_dirty (s\<lparr>bmap := bm, s_ds := (s_ds s)\<lparr>block_free := block_free (s_ds s) - 1\<rparr>\<rparr>)))"

definition efs_bmap_free :: "u32 \<Rightarrow> 'd efs \<Rightarrow> 'd efs kres" where
  "efs_bmap_free bno s = kbind (bitmap_is_free (sint bno) (bmap s)) (\<lambda>r.
    if r \<noteq> 0 then Inl (Panic ''efs_bmap_free'')
    else kbind (bitmap_free (sint bno) (bmap s)) (\<lambda>bm.
      Inr (set_s_dirty (s\<lparr>bmap := bm, s_ds := (s_ds s)\<lparr>block_free := block_free (s_ds s) + 1\<rparr>\<rparr>))))"

section \<open>Inodes\<close>

definition offset_ino :: "u32 \<Rightarrow> 'd efs \<Rightarrow> u32" where
  "offset_ino ino s = ino * inode_size (s_ds s)"

definition efs_i_alloc :: "'d efs \<Rightarrow> (addr \<times> 'd efs) kres" where
  "efs_i_alloc s = (case kalloc s of
      (None, _) \<Rightarrow> Inl (Panic ''efs_ialloc.'')
    | (Some a, s1) \<Rightarrow> Inr (a, upd_inode a (\<lambda>m. m\<lparr>i_flags := 0, i_slock := False, i_refcnt := 0, i_indir := None\<rparr>) s1))"

definition efs_i_sdirty :: "addr \<Rightarrow> 'd efs \<Rightarrow> 'd efs" where
  "efs_i_sdirty a s =
    (let s1 = upd_inode a (\<lambda>m. m\<lparr>i_flags := SET_FLAG (i_flags m) I_DIRTY\<rparr>) s
     in if a \<in> set (s_idirty_list s1) then s1 else s1\<lparr>s_idirty_list := a # s_idirty_list s1\<rparr>)"

definition efs_i_cdirty :: "addr \<Rightarrow> 'd efs \<Rightarrow> 'd efs" where
  "efs_i_cdirty a s =
    (let s1 = upd_inode a (\<lambda>m. m\<lparr>i_flags := CLEAR_FLAG (i_flags m) I_DIRTY\<rparr>) s
     in s1\<lparr>s_idirty_list := remove1 a (s_idirty_list s1)\<rparr>)"

definition efs_i_addsb :: "addr \<Rightarrow> 'd efs \<Rightarrow> 'd efs kres" where
  "efs_i_addsb a s = kbind (hash_add_head (uint (i_no (i_di (efs_inode s a)))) a (s_ihash s)) (\<lambda>ht.
    Inr (s\<lparr>s_ihash := ht, s_ilist := a # s_ilist s\<rparr>))"

definition efs_i_fill :: "addr \<Rightarrow> u32 \<Rightarrow> 'd efs \<Rightarrow> 'd efs kres option" where
  "efs_i_fill a ino s =
    (if \<not> sint ino > 0 then Some (Inl (Panic ''efs_i_fill''))
     else iobind (bd_read (inode_area_start (s_ds s)) (offset_ino ino s) D_INODE_SIZE (d_inode_bytes (i_di (efs_inode s a))) s) (\<lambda>(v, s1).
       Some (Inr (upd_inode a (\<lambda>m. m\<lparr>i_di := d_inode_of_bytes v\<rparr>) s1))))"

definition efs_i_update :: "addr \<Rightarrow> 'd efs \<Rightarrow> 'd efs kres option" where
  "efs_i_update a s =
    (let m = efs_inode s a; di = i_di m in
     if \<not> i_no di > 0 then Some (Inl (Panic ''efs_i_update i->i_di.i_no''))
     else iobind (bd_write (inode_area_start (s_ds s)) (offset_ino (i_no di) s) D_INODE_SIZE (d_inode_bytes di) s) (\<lambda>s1.
       case i_indir m of
         None \<Rightarrow> Some (Inr s1)
       | Some ws \<Rightarrow> bd_write_count (i_addrs di ! NDIRECT) 1 (bytes_of 4 ws) s1))"

text \<open>The entry \<open>k\<close> of \<open>i_addrs\<close>, allocated when it is empty.\<close>

definition bmap_slot :: "addr \<Rightarrow> nat \<Rightarrow> 'd efs \<Rightarrow> (u32 \<times> 'd efs) kres" where
  "bmap_slot a k s =
    (let bno = i_addrs (i_di (efs_inode s a)) ! k in
     if bno \<noteq> 0 then Inr (bno, s)
     else kbind (efs_bmap_alloc s) (\<lambda>(no, s1). Inr (no, upd_di a (\<lambda>di. di\<lparr>i_addrs := (i_addrs di)[k := no]\<rparr>) s1)))"

text \<open>The page of indirect block numbers, read when it is not in memory.\<close>

definition load_indir :: "addr \<Rightarrow> u32 \<Rightarrow> 'd efs \<Rightarrow> (u32 list \<times> 'd efs) kres option" where
  "load_indir a bno s = (case i_indir (efs_inode s a) of
      Some ws \<Rightarrow> Some (Inr (ws, s))
    | None \<Rightarrow> (case kalloc s of
        (None, _) \<Rightarrow> Some (Inl (Fault ''i_indir''))
      | (Some _, s1) \<Rightarrow> iobind (bd_read_count bno 1 (map (efs_stale s1) [0..<4096]) s1) (\<lambda>(v, s2).
          let ws = words_of 4 v in Some (Inr (ws, upd_inode a (\<lambda>m. m\<lparr>i_indir := Some ws\<rparr>) s2)))))"

definition efs_i_bmap :: "addr \<Rightarrow> int \<Rightarrow> bool \<Rightarrow> 'd efs \<Rightarrow> (u32 \<times> 'd efs) kres option" where
  "efs_i_bmap a lbno alloc s =
    (if lbno < 0 then Some (Inl (Panic ''efs_i_bmap''))
     else if lbno < int NDIRECT then
       if i_addrs (i_di (efs_inode s a)) ! nat lbno = 0 \<and> \<not> alloc then Some (Inr (0, s)) else Some (bmap_slot a (nat lbno) s)
     else let l = nat lbno - NDIRECT in
     if l < NINDIRECT then
       if i_addrs (i_di (efs_inode s a)) ! NDIRECT = 0 \<and> \<not> alloc then Some (Inr (0, s))
       else iobind (Some (bmap_slot a NDIRECT s)) (\<lambda>(bno, s1).
         iobind (load_indir a bno s1) (\<lambda>(blk, s2).
         if blk ! l \<noteq> 0 then Some (Inr (blk ! l, s2))
         else if \<not> alloc then Some (Inr (0, s2))
         else Some (kbind (efs_bmap_alloc s2) (\<lambda>(no, s3). Inr (no, upd_inode a (\<lambda>m. m\<lparr>i_indir := Some (blk[l := no])\<rparr>) s3)))))
     else Some (Inr (0, s)))"

definition efs_i_put :: "addr \<Rightarrow> 'd efs \<Rightarrow> 'd efs kres" where
  "efs_i_put a s = kbind (kassert (sint (i_refcnt (efs_inode s a)) > 0) ''efs_i_put'') (\<lambda>_.
    Inr (upd_inode a (\<lambda>m. m\<lparr>i_refcnt := atomic_dec (i_refcnt m)\<rparr>) s))"

definition efs_i_dup :: "addr \<Rightarrow> 'd efs \<Rightarrow> 'd efs" where
  "efs_i_dup a s = upd_inode a (\<lambda>m. m\<lparr>i_refcnt := atomic_inc (i_refcnt m)\<rparr>) s"

text \<open>A thread that finds an inode which is not valid waits for the one that creates it.\<close>

definition efs_i_get :: "u32 \<Rightarrow> 'd efs \<Rightarrow> (addr \<times> 'd efs) kres option" where
  "efs_i_get ino s =
    iobind (Some (hash_find (\<lambda>a. uint (i_no (i_di (efs_inode s a)))) (sint ino) (s_ihash s))) (\<lambda>r.
    iobind (case r of
        None \<Rightarrow>
          iobind (Some (efs_i_alloc s)) (\<lambda>(a, s1).
          iobind (Some (efs_i_addsb a (upd_di a (\<lambda>di. di\<lparr>i_no := ino\<rparr>) s1))) (\<lambda>s2.
          iobind (i_lock a s2) (\<lambda>s3.
          iobind (efs_i_fill a ino s3) (\<lambda>s4.
          Some (Inr (a, i_unlock a (upd_inode a (\<lambda>m. m\<lparr>i_flags := SET_FLAG (i_flags m) I_VALID\<rparr>) s4)))))))
      | Some a \<Rightarrow>
          if TEST_FLAG (i_flags (efs_inode s a)) I_VALID = 0 then iobind (i_lock a s) (\<lambda>s1. Some (Inr (a, i_unlock a s1)))
          else Some (Inr (a, s)))
    (\<lambda>(a, s5). Some (Inr (a, efs_i_dup a s5))))"

section \<open>Reading and writing\<close>

definition chunk :: "u32 \<Rightarrow> u32 \<Rightarrow> u32 \<Rightarrow> u32" where
  "chunk len tot offset = min (len - tot) (BLOCK_SIZE - offset mod BLOCK_SIZE)"

partial_function (option) efs_read_loop :: "addr \<Rightarrow> u32 \<Rightarrow> u32 \<Rightarrow> u32 \<Rightarrow> u8 list \<Rightarrow> 'd efs \<Rightarrow> (u32 \<times> u8 list \<times> 'd efs) kres option" where
  "efs_read_loop a tot len offset v s =
    (if tot < len then
       Option.bind (efs_i_bmap a (uint (offset div BLOCK_SIZE)) False s) (\<lambda>r. case r of
         Inl e \<Rightarrow> Some (Inl e)
       | Inr p \<Rightarrow>
         if fst p = 0 then Some (Inr (tot, v, snd p))
         else let m = chunk len tot offset in
         Option.bind (bd_read (fst p) (offset mod BLOCK_SIZE) m (drop (unat tot) v) (snd p)) (\<lambda>r1. case r1 of
           Inl e \<Rightarrow> Some (Inl e)
         | Inr q \<Rightarrow> efs_read_loop a (tot + m) len (offset + m) (take (unat tot) v @ fst q) (snd q)))
     else Some (Inr (tot, v, s)))"

definition efs_i_read :: "addr \<Rightarrow> u32 \<Rightarrow> u32 \<Rightarrow> u8 list \<Rightarrow> 'd efs \<Rightarrow> (int \<times> u8 list \<times> 'd efs) kres option" where
  "efs_i_read a offset len v s =
    (let sz = i_size (i_di (efs_inode s a)) in
     if offset \<ge> sz \<or> offset + len < offset then Some (Inr (0, v, s))
     else let len1 = (if offset + len > sz then sz - offset else len) in
     iobind (i_lock a s) (\<lambda>s1.
     iobind (efs_read_loop a 0 len1 offset v s1) (\<lambda>(tot, v1, s2). Some (Inr (sint tot, v1, i_unlock a s2)))))"

partial_function (option) efs_write_loop :: "addr \<Rightarrow> u32 \<Rightarrow> u32 \<Rightarrow> u32 \<Rightarrow> u8 list \<Rightarrow> 'd efs \<Rightarrow> (u32 \<times> u32 \<times> 'd efs) kres option" where
  "efs_write_loop a tot len offset v s =
    (if tot < len then
       Option.bind (efs_i_bmap a (uint (offset div BLOCK_SIZE)) True s) (\<lambda>r. case r of
         Inl e \<Rightarrow> Some (Inl e)
       | Inr p \<Rightarrow>
         if fst p = 0 then Some (Inr (tot, offset, snd p))
         else let m = chunk len tot offset in
         Option.bind (bd_write (fst p) (offset mod BLOCK_SIZE) m (drop (unat tot) v) (snd p)) (\<lambda>r1. case r1 of
           Inl e \<Rightarrow> Some (Inl e)
         | Inr s1 \<Rightarrow> efs_write_loop a (tot + m) len (offset + m) v s1))
     else Some (Inr (tot, offset, s)))"

definition efs_i_write :: "addr \<Rightarrow> u32 \<Rightarrow> u32 \<Rightarrow> u8 list \<Rightarrow> 'd efs \<Rightarrow> (int \<times> 'd efs) kres option" where
  "efs_i_write a offset len v s =
    (if offset > i_size (i_di (efs_inode s a)) \<or> offset + len < offset then Some (Inr (0, s))
     else if unat (offset + len) \<ge> MAXFILE * 4096 then Some (Inr (-1, s))
     else iobind (i_lock a s) (\<lambda>s1.
     iobind (efs_write_loop a 0 len offset v s1) (\<lambda>(tot, off, s2).
     let s3 = (if off > i_size (i_di (efs_inode s2 a)) then upd_di a (\<lambda>di. di\<lparr>i_size := off\<rparr>) s2 else s2)
     in Some (Inr (sint tot, i_unlock a (efs_i_sdirty a s3))))))"

section \<open>Creation and removal\<close>

text \<open>Both loops of \<open>efs_i_data_free\<close> stop at the first empty entry.\<close>

fun free_blocks :: "u32 list \<Rightarrow> 'd efs \<Rightarrow> 'd efs kres" where
  "free_blocks [] s = Inr s"
| "free_blocks (b # bs) s = (if b = 0 then Inr s else kbind (efs_bmap_free b s) (free_blocks bs))"

definition efs_i_data_free :: "addr \<Rightarrow> 'd efs \<Rightarrow> 'd efs kres" where
  "efs_i_data_free a s =
    (let m = efs_inode s a in
     kbind (free_blocks (take (NDIRECT + 1) (i_addrs (i_di m))) s) (\<lambda>s1.
     case i_indir m of None \<Rightarrow> Inr s1 | Some ws \<Rightarrow> free_blocks (take NINDIRECT ws) s1))"

definition efs_i_trunc :: "addr \<Rightarrow> 'd efs \<Rightarrow> 'd efs kres option" where
  "efs_i_trunc a s = iobind (i_lock a s) (\<lambda>s1.
    Some (kbind (efs_i_data_free a s1) (\<lambda>s2. Inr (efs_i_sdirty a (upd_di a (\<lambda>di. di\<lparr>i_size := 0\<rparr>) (i_unlock a s2))))))"

definition efs_i_new :: "'d efs \<Rightarrow> (addr \<times> 'd efs) kres" where
  "efs_i_new s =
    kbind (efs_imap_alloc s) (\<lambda>(ino, s1).
    kbind (efs_i_alloc s1) (\<lambda>(a, s2).
    let s3 = upd_di a (\<lambda>di. di\<lparr>i_no := ino, i_type := file_type_no F_NONE, i_devno := ucast (bd_dev (efs_bd s2)), i_size := 0,
               i_addrs := replicate (NDIRECT + 1) 0, i_nlink := 1\<rparr>) s2;
        s4 = upd_inode a (\<lambda>m. m\<lparr>i_refcnt := 0\<rparr>) s3
    in kbind (efs_i_addsb a (efs_i_sdirty a s4)) (\<lambda>s5. Inr (a, s5))))"

definition efs_i_unlink :: "addr \<Rightarrow> 'd efs \<Rightarrow> (int \<times> 'd efs) kres option" where
  "efs_i_unlink a s =
    (if a = 0 then Some (Inr (-1, s))
     else if i_no (i_di (efs_inode s a)) \<le> 1 then Some (Inr (-1, s))
     else let (last_link, n) = atomic_dec_and_test (i_nlink (i_di (efs_inode s a)));
              s1 = upd_di a (\<lambda>di. di\<lparr>i_nlink := n\<rparr>) s in
     if \<not> last_link then Some (Inr (0, s1))
     else if sint (i_refcnt (efs_inode s1 a)) > 0 then Some (Inr (-1, upd_di a (\<lambda>di. di\<lparr>i_nlink := atomic_inc (i_nlink di)\<rparr>) s1))
     else iobind (efs_i_trunc a s1) (\<lambda>s2. Some (kbind (efs_imap_free (i_no (i_di (efs_inode s2 a))) s2) (\<lambda>s3. Inr (0, s3)))))"

definition efs_i_size :: "addr \<Rightarrow> 'd efs \<Rightarrow> int" where
  "efs_i_size a s = sint (i_size (i_di (efs_inode s a)))"

definition efs_i_type :: "addr \<Rightarrow> easy_file_type \<Rightarrow> 'd efs \<Rightarrow> 'd efs" where
  "efs_i_type a ftype s = efs_i_sdirty a (upd_di a (\<lambda>di. di\<lparr>i_type := file_type_no ftype\<rparr>) s)"

section \<open>Mounting and writing back\<close>

text \<open>The static root inode.\<close>

definition root_m_inode :: addr where "root_m_inode = 1"

definition efs_i_root_init :: "'d efs \<Rightarrow> 'd efs kres option" where
  "efs_i_root_init s =
    iobind (bd_read (inode_area_start (s_ds s)) (offset_ino 1 s) D_INODE_SIZE (d_inode_bytes (i_di (efs_inode s root_m_inode))) s) (\<lambda>(v, s1).
    let s2 = upd_inode root_m_inode (\<lambda>m. m\<lparr>i_di := d_inode_of_bytes v\<rparr>) s1 in
    if i_no (i_di (efs_inode s2 root_m_inode)) \<noteq> 1 then Some (Inl (Panic ''root_m_inode.i_di.i_no !=1''))
    else Some (efs_i_addsb root_m_inode (upd_inode root_m_inode (\<lambda>m. m\<lparr>i_slock := False, i_refcnt := 1, i_flags := SET_FLAG 0 I_VALID\<rparr>) s2)))"

text \<open>The memory for a bitmap: one page for the inodes, sixteen for the blocks.\<close>

definition fill_map :: "nat \<Rightarrow> u32 \<Rightarrow> u32 \<Rightarrow> u32 \<Rightarrow> u32 \<Rightarrow> string \<Rightarrow> 'd efs \<Rightarrow> (bitmap \<times> 'd efs) kres option" where
  "fill_map pages start next_start count unused msg s = (case kalloc s of
      (None, _) \<Rightarrow> Some (Inl (Panic msg))
    | (Some _, s1) \<Rightarrow> iobind (bd_read_count start (next_start - start) (map (efs_stale s1) [0..<pages * 4096]) s1) (\<lambda>(v, s2).
        iobind (Some (bitmap_reset_start 1 (bitmap_init_zone (words_of 8 v) (nat (sint count))))) (\<lambda>bm.
        Some (Inr (bitmap_reset_unused (sint unused) bm, s2)))))"

definition efs_fill_imap :: "'d efs \<Rightarrow> 'd efs kres option" where
  "efs_fill_imap s = (let ds = s_ds s in
    iobind (fill_map 1 (inode_map_start ds) (inode_area_start ds) (inode_count ds) (inode_free ds) ''efs_fill_imap'' s) (\<lambda>(bm, s1).
    Some (Inr (s1\<lparr>imap := bm\<rparr>))))"

definition efs_fill_bmap :: "'d efs \<Rightarrow> 'd efs kres option" where
  "efs_fill_bmap s = (let ds = s_ds s in
    iobind (fill_map 16 (block_map_start ds) (block_area_start ds) (block_count ds) (block_free ds) ''efs_fill_bmap'' s) (\<lambda>(bm, s1).
    Some (Inr (s1\<lparr>bmap := bm\<rparr>))))"

definition efs_sb_read :: "'d efs \<Rightarrow> 'd efs kres option" where
  "efs_sb_read s = iobind (bd_read SUPER_BLOCK_LOCATION 0 SB_SIZE (sb_bytes (s_ds s)) s) (\<lambda>(v, s1). Some (Inr (s1\<lparr>s_ds := sb_of_bytes v\<rparr>)))"

text \<open>The two hash tables take one object each; the table of the dentries is not kept here.\<close>

definition efs_sb_fill :: "'d efs \<Rightarrow> 'd efs kres option" where
  "efs_sb_fill s =
    (if sb_magic (s_ds s) \<noteq> EASYFS_MAGIC then Some (Inl (Panic ''File system magic number error!''))
     else case kalloc s of (r, s1) \<Rightarrow>
       iobind (Some (hash_init 41 (r \<noteq> None))) (\<lambda>(_, ht).
       let s2 = (snd (kalloc s1))\<lparr>s_flags := 0, s_ihash := ht, s_ilist := [], s_idirty_list := []\<rparr>
       in iobind (efs_fill_imap s2) efs_fill_bmap))"

definition efs_sb_init :: "'d efs \<Rightarrow> 'd efs kres option" where
  "efs_sb_init s = iobind (efs_sb_read s) efs_sb_fill"

definition efs_mount :: "'d block_device \<Rightarrow> 'd efs \<Rightarrow> 'd efs kres option" where
  "efs_mount bd s = iobind (efs_sb_init (s\<lparr>efs_bd := bd\<rparr>)) efs_i_root_init"

text \<open>A round of the thread \<open>efs_sync\<close>: the super block with the bitmaps, then the dirty inodes.\<close>

definition efs_sync_sb :: "'d efs \<Rightarrow> 'd efs kres option" where
  "efs_sync_sb s =
    (if TEST_FLAG (s_flags s) S_DIRTY \<noteq> 0 then
       let ds = s_ds s in
       iobind (bd_write SUPER_BLOCK_LOCATION 0 SB_SIZE (sb_bytes ds) s) (\<lambda>s1.
       iobind (bd_write_count (inode_map_start ds) (inode_area_start ds - inode_map_start ds) (bytes_of 8 (bm_map (imap s1))) s1) (\<lambda>s2.
       iobind (bd_write_count (block_map_start ds) (block_area_start ds - block_map_start ds) (bytes_of 8 (bm_map (bmap s2))) s2) (\<lambda>s3.
       Some (Inr (s3\<lparr>s_flags := CLEAR_FLAG (s_flags s3) S_DIRTY\<rparr>)))))
     else Some (Inr s))"

partial_function (option) efs_sync_inodes :: "'d efs \<Rightarrow> 'd efs kres option" where
  "efs_sync_inodes s = (case s_idirty_list s of
      [] \<Rightarrow> Some (Inr s)
    | a # rest \<Rightarrow>
        Option.bind (i_lock a (s\<lparr>s_idirty_list := rest\<rparr>)) (\<lambda>r. case r of
          Inl e \<Rightarrow> Some (Inl e)
        | Inr s1 \<Rightarrow> Option.bind (efs_i_update a s1) (\<lambda>r1. case r1 of
            Inl e \<Rightarrow> Some (Inl e)
          | Inr s2 \<Rightarrow> efs_sync_inodes (efs_i_cdirty a (i_unlock a s2)))))"

definition efs_sync :: "'d efs \<Rightarrow> 'd efs kres option" where
  "efs_sync s = iobind (efs_sync_sb s) efs_sync_inodes"

end
