(* ===== verification/EfsMap.thy ===== *)
theory EfsMap
  imports Efs
begin

text \<open>
  The block map of the inodes as mathematics: which disk block holds which block of which file, and that growing a file and writing to one of its
  blocks leave all other bytes of all files alone.  \<open>D\<close> is the disk as an array of bytes, \<open>ino\<close> the inodes in memory and \<open>M a\<close> the number of blocks
  mapped by the inode \<open>a\<close>.
\<close>

section \<open>Blocks of a file\<close>

definition blk_bytes :: "(nat \<Rightarrow> u8) \<Rightarrow> u32 \<Rightarrow> u8 list" where
  "blk_bytes D b = map (\<lambda>i. D (unat b * 4096 + i)) [0..<4096]"

definition indir :: "(nat \<Rightarrow> u8) \<Rightarrow> easy_m_inode \<Rightarrow> u32 list" where
  "indir D m = (case i_indir m of Some ws \<Rightarrow> ws | None \<Rightarrow> words_of 4 (blk_bytes D (i_addrs (i_di m) ! NDIRECT)))"

definition bno_of :: "(nat \<Rightarrow> u8) \<Rightarrow> easy_m_inode \<Rightarrow> nat \<Rightarrow> u32" where
  "bno_of D m k = (if k < NDIRECT then i_addrs (i_di m) ! k else if i_addrs (i_di m) ! NDIRECT = 0 then 0 else indir D m ! (k - NDIRECT))"

definition fbyte :: "(nat \<Rightarrow> u8) \<Rightarrow> easy_m_inode \<Rightarrow> nat \<Rightarrow> u8" where
  "fbyte D m p = D (unat (bno_of D m (p div 4096)) * 4096 + p mod 4096)"

definition mapped :: "(nat \<Rightarrow> u8) \<Rightarrow> easy_m_inode \<Rightarrow> nat \<Rightarrow> bool" where
  "mapped D m n = (n \<le> MAXFILE \<and> length (i_addrs (i_di m)) = NDIRECT + 1 \<and> (\<forall>k<n. bno_of D m k \<noteq> 0) \<and>
    (\<forall>k. n \<le> k \<longrightarrow> k < MAXFILE \<longrightarrow> bno_of D m k = 0) \<and>
    (case i_indir m of None \<Rightarrow> True | Some ws \<Rightarrow> length ws = NINDIRECT \<and> i_addrs (i_di m) ! NDIRECT \<noteq> 0))"

definition owned :: "(nat \<Rightarrow> u8) \<Rightarrow> easy_m_inode \<Rightarrow> nat \<Rightarrow> u32 list" where
  "owned D m n = map (bno_of D m) [0..<n] @ (if i_addrs (i_di m) ! NDIRECT = 0 then [] else [i_addrs (i_di m) ! NDIRECT])"

definition fs_map :: "(nat \<Rightarrow> u8) \<Rightarrow> (addr \<Rightarrow> easy_m_inode) \<Rightarrow> bitmap \<Rightarrow> nat \<Rightarrow> addr list \<Rightarrow> (addr \<Rightarrow> nat) \<Rightarrow> bool" where
  "fs_map D ino bm area inos M = ((\<forall>a\<in>set inos. mapped D (ino a) (M a) \<and> distinct (owned D (ino a) (M a)) \<and>
      (\<forall>b\<in>set (owned D (ino a) (M a)). area \<le> unat b \<and> unat b < bm_size bm \<and> used bm (unat b))) \<and>
    (\<forall>a\<in>set inos. \<forall>c\<in>set inos. a \<noteq> c \<longrightarrow> set (owned D (ino a) (M a)) \<inter> set (owned D (ino c) (M c)) = {}) \<and>
    (\<forall>b. 0 < b \<longrightarrow> b < area \<longrightarrow> used bm b) \<and> 0 < area \<and>
    (\<forall>b<bm_size bm. area \<le> b \<longrightarrow> \<not> used bm b \<longrightarrow> (\<forall>i<4096. D (b * 4096 + i) = 0)))"

lemmas n_defs = NDIRECT_def NINDIRECT_def MAXFILE_def

lemma length_blk_bytes [simp]: "length (blk_bytes D b) = 4096"
  by (simp add: blk_bytes_def)

lemma length_indir: "mapped D m n \<Longrightarrow> length (indir D m) = NINDIRECT"
  by (auto simp: mapped_def indir_def NINDIRECT_def split: option.splits)

section \<open>Growing a file\<close>

text \<open>An inode takes one free block.\<close>

lemma fs_map_grow:
  assumes "fs_map D ino bm area inos M" "a \<in> set inos" "mapped D m' n'" "distinct (owned D m' n')"
    and own: "set (owned D m' n') \<subseteq> insert x (set (owned D (ino a) (M a)))"
    and x: "area \<le> unat x" "unat x < bm_size bm" "\<not> used bm (unat x)" "bm_size bm' = bm_size bm" "\<And>j. j < bm_size bm \<Longrightarrow> used bm' j \<longleftrightarrow> used bm j \<or> j = unat x"
    and low: "area \<le> bm_size bm"
  shows "fs_map D (ino(a := m')) bm' area inos (M(a := n'))"
proof -
  have nx: "x \<notin> set (owned D (ino c) (M c))" if "c \<in> set inos" for c using assms(1) that x(3) by (auto simp: fs_map_def)
  have disj: "set (owned D (ino a) (M a)) \<inter> set (owned D (ino c) (M c)) = {}" if "c \<in> set inos" "c \<noteq> a" for c using assms(1,2) that unfolding fs_map_def by blast
  have disj': "set (owned D m' n') \<inter> set (owned D (ino c) (M c)) = {}" if "c \<in> set inos" "c \<noteq> a" for c using disj [OF that] nx [OF that(1)] own by blast
  have u: "used bm' j" if "used bm j" "j < bm_size bm" for j using that x(5) by simp
  show ?thesis
    unfolding fs_map_def x(4)
  proof (intro conjI ballI allI impI)
    fix c assume c: "c \<in> set inos"
    show "mapped D ((ino(a := m')) c) ((M(a := n')) c)" "distinct (owned D ((ino(a := m')) c) ((M(a := n')) c))"
      using c assms(1,3,4) by (auto simp: fs_map_def)
    fix b assume b: "b \<in> set (owned D ((ino(a := m')) c) ((M(a := n')) c))"
    have "b = x \<or> (area \<le> unat b \<and> unat b < bm_size bm \<and> used bm (unat b))"
      using b c own assms(1,2) unfolding fs_map_def by (cases "c = a") auto
    then show "area \<le> unat b" "unat b < bm_size bm" "used bm' (unat b)" using x(1,2,5) by auto
  next
    fix c e assume "c \<in> set inos" "e \<in> set inos" "c \<noteq> e"
    then show "set (owned D ((ino(a := m')) c) ((M(a := n')) c)) \<inter> set (owned D ((ino(a := m')) e) ((M(a := n')) e)) = {}"
      using assms(1) disj' unfolding fs_map_def by (cases "c = a"; cases "e = a") auto
  next
    fix b assume "0 < b" "b < area"
    then show "used bm' b" using assms(1) u low by (auto simp: fs_map_def)
  next
    show "0 < area" using assms(1) by (simp add: fs_map_def)
  next
    fix b i :: nat assume "b < bm_size bm" "area \<le> b" "\<not> used bm' b" "i < 4096"
    then show "D (b * 4096 + i) = 0" using assms(1) x(5) by (auto simp: fs_map_def)
  qed
qed

text \<open>A direct block, the indirect block itself, and a block behind it.\<close>

lemma owned_upt: "k < n \<Longrightarrow> bno_of D m k \<in> set (owned D m n)"
  by (simp add: owned_def)

lemma fs_map_fresh:
  assumes "fs_map D ino bm area inos M" "a \<in> set inos" "\<not> used bm (unat x)" "area \<le> unat x"
  shows "x \<notin> set (owned D (ino a) (M a))" "x \<noteq> 0"
  using assms by (auto simp: fs_map_def)

definition set_addr :: "nat \<Rightarrow> u32 \<Rightarrow> easy_m_inode \<Rightarrow> easy_m_inode" where
  "set_addr k x m = m\<lparr>i_di := (i_di m)\<lparr>i_addrs := (i_addrs (i_di m))[k := x]\<rparr>\<rparr>"

lemma set_addr_direct:
  assumes m: "mapped D m n" "n < NDIRECT" and x: "x \<noteq> 0" "x \<notin> set (owned D m n)" and d: "distinct (owned D m n)"
  shows "bno_of D (set_addr n x m) k = (if k = n then x else bno_of D m k)" "mapped D (set_addr n x m) (n + 1)"
    "distinct (owned D (set_addr n x m) (n + 1))" "set (owned D (set_addr n x m) (n + 1)) \<subseteq> insert x (set (owned D m n))"
proof -
  have l: "length (i_addrs (i_di m)) = NDIRECT + 1" using m by (simp add: mapped_def)
  have i: "i_addrs (i_di (set_addr n x m)) ! NDIRECT = i_addrs (i_di m) ! NDIRECT" using m(2) by (simp add: set_addr_def)
  have ind: "indir D (set_addr n x m) = indir D m" using i by (simp add: indir_def set_addr_def split: option.split)
  show b: "bno_of D (set_addr n x m) k = (if k = n then x else bno_of D m k)" for k
    using m(2) l by (simp add: bno_of_def i ind) (simp add: set_addr_def nth_list_update)
  show "mapped D (set_addr n x m) (n + 1)"
    unfolding mapped_def b using m x(1) by (auto simp: mapped_def set_addr_def n_defs split: option.splits)
  have e: "owned D (set_addr n x m) (n + 1) = map (bno_of D m) [0..<n] @ x # (if i_addrs (i_di m) ! NDIRECT = 0 then [] else [i_addrs (i_di m) ! NDIRECT])"
    by (simp add: owned_def i b)
  show "distinct (owned D (set_addr n x m) (n + 1))" using d x(2) unfolding e unfolding owned_def by (simp split: if_splits)
  show "set (owned D (set_addr n x m) (n + 1)) \<subseteq> insert x (set (owned D m n))" unfolding e unfolding owned_def by auto
qed

lemma set_addr_indirect:
  assumes m: "mapped D m n" "i_addrs (i_di m) ! NDIRECT = 0" and x: "x \<noteq> 0" "x \<notin> set (owned D m n)" and d: "distinct (owned D m n)"
    and z: "\<forall>i<4096. D (unat x * 4096 + i) = 0"
  shows "k < MAXFILE \<Longrightarrow> bno_of D (set_addr NDIRECT x m) k = bno_of D m k" "mapped D (set_addr NDIRECT x m) n"
    "distinct (owned D (set_addr NDIRECT x m) n)" "set (owned D (set_addr NDIRECT x m) n) \<subseteq> insert x (set (owned D m n))"
proof -
  have l: "length (i_addrs (i_di m)) = NDIRECT + 1" using m by (simp add: mapped_def)
  have i: "i_addrs (i_di (set_addr NDIRECT x m)) ! NDIRECT = x" using l by (simp add: set_addr_def)
  have none: "i_indir m = None" using m by (auto simp: mapped_def split: option.splits)
  then have ni: "i_indir (set_addr NDIRECT x m) = None" by (simp add: set_addr_def)
  have "\<forall>b\<in>set (blk_bytes D x). b = 0" using z by (auto simp: blk_bytes_def)
  then have zero: "indir D (set_addr NDIRECT x m) ! j = 0" if "j < NINDIRECT" for j
    using that i ni by (simp add: indir_def words_of_nth NINDIRECT_def) (simp add: le_word_zero field_zero)
  have le: "n \<le> NDIRECT" using m by (auto simp: mapped_def bno_of_def n_defs not_less_eq_eq dest!: spec [of _ 12])
  have b: "bno_of D (set_addr NDIRECT x m) k = bno_of D m k" if "k < MAXFILE" for k
  proof (cases "k < NDIRECT")
    case True
    then show ?thesis by (simp add: bno_of_def set_addr_def)
  next
    case False
    then have "k - NDIRECT < NINDIRECT" using that by (simp add: MAXFILE_def)
    then show ?thesis using False m(2) i x(1) zero by (simp add: bno_of_def)
  qed
  then show "k < MAXFILE \<Longrightarrow> bno_of D (set_addr NDIRECT x m) k = bno_of D m k" .
  show "mapped D (set_addr NDIRECT x m) n" using m b ni l by (auto simp: mapped_def set_addr_def)
  have bs: "map (bno_of D (set_addr NDIRECT x m)) [0..<n] = map (bno_of D m) [0..<n]" using b le by (auto simp: n_defs)
  have e: "owned D (set_addr NDIRECT x m) n = map (bno_of D m) [0..<n] @ [x]" unfolding owned_def i bs using x(1) by simp
  show "distinct (owned D (set_addr NDIRECT x m) n)" "set (owned D (set_addr NDIRECT x m) n) \<subseteq> insert x (set (owned D m n))"
    using d x(2) m(2) unfolding e unfolding owned_def by auto
qed

text \<open>Reading the page of block numbers changes nothing.\<close>

lemma load_same:
  assumes "i_indir m = None" "ws = words_of 4 (blk_bytes D (i_addrs (i_di m) ! NDIRECT))"
  shows "bno_of D (m\<lparr>i_indir := Some ws\<rparr>) = bno_of D m" "owned D (m\<lparr>i_indir := Some ws\<rparr>) n = owned D m n"
    "i_addrs (i_di m) ! NDIRECT \<noteq> 0 \<Longrightarrow> mapped D m n \<Longrightarrow> mapped D (m\<lparr>i_indir := Some ws\<rparr>) n"
proof -
  show b: "bno_of D (m\<lparr>i_indir := Some ws\<rparr>) = bno_of D m" using assms by (simp add: bno_of_def indir_def fun_eq_iff)
  show "owned D (m\<lparr>i_indir := Some ws\<rparr>) n = owned D m n" by (simp add: owned_def b)
  show "mapped D (m\<lparr>i_indir := Some ws\<rparr>) n" if "i_addrs (i_di m) ! NDIRECT \<noteq> 0" "mapped D m n"
    using that unfolding mapped_def b by (simp add: assms(2) NINDIRECT_def)
qed

lemma set_indir:
  assumes m: "mapped D m n" "i_indir m = Some ws" "NDIRECT \<le> n" "n < MAXFILE" and x: "x \<noteq> 0" "x \<notin> set (owned D m n)" and d: "distinct (owned D m n)"
  defines "m' \<equiv> m\<lparr>i_indir := Some (ws[n - NDIRECT := x])\<rparr>"
  shows "bno_of D m' k = (if k = n then x else bno_of D m k)" "mapped D m' (n + 1)"
    "distinct (owned D m' (n + 1))" "set (owned D m' (n + 1)) \<subseteq> insert x (set (owned D m n))"
proof -
  have l: "length ws = NINDIRECT" "i_addrs (i_di m) ! NDIRECT \<noteq> 0" "length (i_addrs (i_di m)) = NDIRECT + 1" using m(1,2) by (simp_all add: mapped_def)
  have lt: "n - NDIRECT < length ws" using m(3,4) l(1) by (simp add: MAXFILE_def)
  have w: "indir D m' = ws[n - NDIRECT := x]" "indir D m = ws" using m(2) by (simp_all add: m'_def indir_def)
  show b: "bno_of D m' k = (if k = n then x else bno_of D m k)" for k
    using m(3) l(2) lt by (auto simp: bno_of_def w nth_list_update) (auto simp: m'_def)
  show "mapped D m' (n + 1)" unfolding mapped_def b using m x(1) l by (auto simp: mapped_def m'_def)
  have e: "owned D m' (n + 1) = map (bno_of D m) [0..<n] @ [x, i_addrs (i_di m) ! NDIRECT]"
    using l(2) unfolding owned_def by (simp add: b) (simp add: m'_def)
  show "distinct (owned D m' (n + 1))" "set (owned D m' (n + 1)) \<subseteq> insert x (set (owned D m n))" using d x(2) l(2) unfolding e unfolding owned_def by auto
qed

lemma fs_map_same:
  assumes "fs_map D ino bm area inos M" "mapped D m' (M a)" "owned D m' (M a) = owned D (ino a) (M a)"
  shows "fs_map D (ino(a := m')) bm area inos M"
  using assms unfolding fs_map_def by auto

section \<open>Writing to a block\<close>

lemma bno_frame:
  assumes "mapped D m n" "\<And>i. i < 4096 \<Longrightarrow> i_addrs (i_di m) ! NDIRECT \<noteq> 0 \<Longrightarrow>
      D' (unat (i_addrs (i_di m) ! NDIRECT) * 4096 + i) = D (unat (i_addrs (i_di m) ! NDIRECT) * 4096 + i)"
  shows "bno_of D' m = bno_of D m" "owned D' m k = owned D m k" "mapped D' m j = mapped D m j"
proof -
  show b: "bno_of D' m = bno_of D m"
  proof
    fix k
    show "bno_of D' m k = bno_of D m k"
      using assms(2) by (auto simp: bno_of_def indir_def blk_bytes_def split: option.splits intro!: arg_cong [where f = "\<lambda>v. words_of 4 v ! (k - NDIRECT)"])
  qed
  show "owned D' m k = owned D m k" "mapped D' m j = mapped D m j" by (simp_all add: owned_def mapped_def b)
qed

lemma fs_map_write:
  assumes "fs_map D ino bm area inos M" "a \<in> set inos" "k < M a" "b = bno_of D (ino a) k"
    and D': "\<And>p. p < bm_size bm * 4096 \<Longrightarrow> p div 4096 \<noteq> unat b \<Longrightarrow> D' p = D p"
  shows "fs_map D' ino bm area inos M"
    "c \<in> set inos \<Longrightarrow> p div 4096 < M c \<Longrightarrow> fbyte D' (ino c) p = (if c = a \<and> p div 4096 = k then D' (unat b * 4096 + p mod 4096) else fbyte D (ino c) p)"
    "c \<in> set inos \<Longrightarrow> bno_of D' (ino c) = bno_of D (ino c)"
proof -
  have bown: "b \<in> set (owned D (ino a) (M a))" using assms(3,4) owned_upt by simp
  have da: "distinct (owned D (ino a) (M a))" using assms(1,2) by (simp add: fs_map_def)
  have disj: "set (owned D (ino a) (M a)) \<inter> set (owned D (ino c) (M c)) = {}" if "c \<in> set inos" "a \<noteq> c" for c
    using assms(1,2) that unfolding fs_map_def by blast
  have range: "unat e < bm_size bm \<and> used bm (unat e)" if "c \<in> set inos" "e \<in> set (owned D (ino c) (M c))" for c e
    using assms(1) that unfolding fs_map_def by blast
  have other: "D' (unat e * 4096 + i) = D (unat e * 4096 + i)" if "unat e < bm_size bm" "e \<noteq> b" "i < 4096" for e i
    using that by (intro D') (auto simp: word_unat_eq_iff)
  have indb: "i_addrs (i_di (ino c)) ! NDIRECT \<noteq> b" if "c \<in> set inos" "i_addrs (i_di (ino c)) ! NDIRECT \<noteq> 0" for c
  proof (cases "c = a")
    case True
    then show ?thesis using da that(2) assms(3,4) by (auto simp: owned_def)
  next
    case False
    then show ?thesis using disj [OF that(1)] bown that(2) by (auto simp: owned_def)
  qed
  have fr: "bno_of D' (ino c) = bno_of D (ino c)" "owned D' (ino c) i = owned D (ino c) i" "mapped D' (ino c) j = mapped D (ino c) j" if "c \<in> set inos" for c i j
  proof -
    have mc: "mapped D (ino c) (M c)" using assms(1) that by (simp add: fs_map_def)
    have "D' (unat (i_addrs (i_di (ino c)) ! NDIRECT) * 4096 + i) = D (unat (i_addrs (i_di (ino c)) ! NDIRECT) * 4096 + i)"
      if "i < 4096" "i_addrs (i_di (ino c)) ! NDIRECT \<noteq> 0" for i
      using other [OF _ indb [OF \<open>c \<in> set inos\<close> that(2)] that(1)] range [OF \<open>c \<in> set inos\<close>, of "i_addrs (i_di (ino c)) ! NDIRECT"] that(2) by (auto simp: owned_def)
    note bno_frame [OF mc this]
    then show "bno_of D' (ino c) = bno_of D (ino c)" "owned D' (ino c) i = owned D (ino c) i" "mapped D' (ino c) j = mapped D (ino c) j" by blast+
  qed
  then show "c \<in> set inos \<Longrightarrow> bno_of D' (ino c) = bno_of D (ino c)" by blast
  have free: "D' (e * 4096 + i) = 0" if "e < bm_size bm" "area \<le> e" "\<not> used bm e" "i < 4096" for e i
  proof -
    have "e \<noteq> unat b" using range [OF assms(2) bown] that(3) by auto
    then have "D' (e * 4096 + i) = D (e * 4096 + i)" using that by (intro D') auto
    then show ?thesis using assms(1) that by (auto simp: fs_map_def)
  qed
  show "fs_map D' ino bm area inos M" using assms(1) fr free unfolding fs_map_def by auto
  show "fbyte D' (ino c) p = (if c = a \<and> p div 4096 = k then D' (unat b * 4096 + p mod 4096) else fbyte D (ino c) p)" if "c \<in> set inos" "p div 4096 < M c"
  proof (cases "c = a \<and> p div 4096 = k")
    case True
    then show ?thesis using fr(1) assms(2,4) by (simp add: fbyte_def)
  next
    case False
    have "bno_of D (ino c) (p div 4096) \<noteq> b"
    proof (cases "c = a")
      case True
      then show ?thesis using False da that(2) assms(3,4) by (auto simp: owned_def distinct_map inj_on_def)
    next
      case False
      then show ?thesis using disj [OF that(1)] bown owned_upt [OF that(2), of D "ino c"] by blast
    qed
    then show ?thesis using False other [of "bno_of D (ino c) (p div 4096)" "p mod 4096"] range [OF that(1) owned_upt [OF that(2)]] fr(1) [OF that(1)] by (auto simp: fbyte_def)
  qed
qed

lemma fs_map_cong:
  assumes "fs_map D ino bm area inos M" and D': "\<And>p. p < bm_size bm * 4096 \<Longrightarrow> D' p = D p"
  shows "fs_map D' ino bm area inos M" "c \<in> set inos \<Longrightarrow> bno_of D' (ino c) = bno_of D (ino c)"
    "c \<in> set inos \<Longrightarrow> p div 4096 < M c \<Longrightarrow> fbyte D' (ino c) p = fbyte D (ino c) p"
proof -
  have eq: "D' (b * 4096 + i) = D (b * 4096 + i)" if "b < bm_size bm" "i < 4096" for b i using that by (intro D') linarith
  have range: "unat e < bm_size bm" if "c \<in> set inos" "e \<in> set (owned D (ino c) (M c))" for c e using assms(1) that unfolding fs_map_def by blast
  have fr: "bno_of D' (ino c) = bno_of D (ino c)" "owned D' (ino c) i = owned D (ino c) i" "mapped D' (ino c) j = mapped D (ino c) j" if "c \<in> set inos" for c i j
  proof -
    have mc: "mapped D (ino c) (M c)" using assms(1) that by (simp add: fs_map_def)
    have "D' (unat (i_addrs (i_di (ino c)) ! NDIRECT) * 4096 + i) = D (unat (i_addrs (i_di (ino c)) ! NDIRECT) * 4096 + i)"
      if "i < 4096" "i_addrs (i_di (ino c)) ! NDIRECT \<noteq> 0" for i
      using eq [OF range [OF \<open>c \<in> set inos\<close>] that(1), of "i_addrs (i_di (ino c)) ! NDIRECT"] that(2) by (auto simp: owned_def)
    note bno_frame [OF mc this]
    then show "bno_of D' (ino c) = bno_of D (ino c)" "owned D' (ino c) i = owned D (ino c) i" "mapped D' (ino c) j = mapped D (ino c) j" by blast+
  qed
  then show "c \<in> set inos \<Longrightarrow> bno_of D' (ino c) = bno_of D (ino c)" by blast
  show "fs_map D' ino bm area inos M" using assms(1) fr eq unfolding fs_map_def by auto
  show "fbyte D' (ino c) p = fbyte D (ino c) p" if "c \<in> set inos" "p div 4096 < M c"
    using eq [OF range [OF that(1) owned_upt [OF that(2)]], of "p mod 4096"] fr(1) [OF that(1)] by (simp add: fbyte_def)
qed

section \<open>The bitmaps\<close>

text \<open>Bit 0 is never handed out: the search starts at 1.  The counter may be too high, as mkfs leaves it for the inodes, but not too low.\<close>

definition room :: "bitmap \<Rightarrow> nat" where
  "room bm = card {k. k < bm_size bm \<and> \<not> (k = 0 \<or> used bm k)}"

definition bm_ok :: "bitmap \<Rightarrow> bool" where
  "bm_ok bm = (bm_wf bm \<and> 0 < bm_allocation bm \<and> int (room bm) \<le> bm_unused bm \<and>
    (\<forall>k. 0 < k \<longrightarrow> k < bm_allocation bm \<longrightarrow> k < bm_size bm \<longrightarrow> used bm k))"

lemma bm_ok_alloc:
  assumes "bm_ok bm" "0 < room bm"
  shows "\<exists>k bm'. bitmap_alloc bm = Inr (int k, bm') \<and> 0 < k \<and> k < bm_size bm \<and> \<not> used bm k \<and> bm_ok bm' \<and> bm_size bm' = bm_size bm \<and>
    (\<forall>j<bm_size bm. used bm' j \<longleftrightarrow> used bm j \<or> j = k) \<and> room bm' = room bm - 1 \<and> length (bm_map bm') = length (bm_map bm) \<and>
    bm_unused bm' = bm_unused bm - 1 \<and> (\<forall>j. 0 < j \<longrightarrow> j < k \<longrightarrow> used bm j)"
proof -
  have wf: "bm_wf bm" "0 < bm_allocation bm" using assms(1) by (simp_all add: bm_ok_def)
  have nz: "bm_unused bm \<noteq> 0" using assms by (auto simp: bm_ok_def)
  have low: "used bm k" if "0 < k" "k < bm_allocation bm" "k < bm_size bm" for k using assms(1) that by (simp add: bm_ok_def)
  have "{k. k < bm_size bm \<and> \<not> (k = 0 \<or> used bm k)} \<noteq> {}" using assms(2) unfolding room_def card_gt_0_iff by blast
  then obtain f where f: "0 < f" "f < bm_size bm" "\<not> used bm f" by auto
  then have fa: "bm_allocation bm \<le> f" using low by (meson not_le)
  show ?thesis
  proof (rule bitmap_alloc_cases [OF wf(1) nz], goal_cases)
    case 1
    then show ?case using f fa by (auto simp: less_mult_imp_div_less)
  next
    case (2 k)
    define bm' where "bm' = bm\<lparr>bm_map := (bm_map bm)[k div 64 := bm_map bm ! (k div 64) OR push_bit (k mod 64) 1],
           bm_unused := bm_unused bm - 1, bm_allocation := k + 1\<rparr>"
    have kf: "k \<le> f" using 2(5,6) fa f(3) by (meson not_le)
    have k: "0 < k" "k < bm_size bm" using 2(2) wf(2) kf f(2) by simp_all
    have u: "used bm' j \<longleftrightarrow> used bm j \<or> j = k" if "j < bm_size bm" for j
      using used_set [OF 2(4), of "k mod 64" j] that wf(1) by (simp add: bm'_def bm_wf_def used_def)
    have "int (card {j. j < bm_size bm \<and> \<not> (j = 0 \<or> used bm' j)}) = int (card {j. j < bm_size bm \<and> \<not> (j = 0 \<or> used bm j)}) - 1"
      using k 2(5) u by (intro card_clear_set) auto
    then have r: "int (room bm') = int (room bm) - 1" by (simp add: room_def bm'_def)
    have lw: "used bm' j" if "0 < j" "j < k + 1" "j < bm_size bm" for j
      using u [OF that(3)] low [OF that(1) _ that(3)] 2(6) [of j] that(2) by (cases "bm_allocation bm \<le> j"; cases "j = k") auto
    have "used bm j" if "0 < j" "j < k" for j using lw [of j] u [of j] that k by auto
    moreover have "bm_ok bm'" using assms(1) r lw by (auto simp: bm_ok_def bm_wf_def bm'_def)
    ultimately show ?case using 2(1,5) k u r unfolding bm'_def [symmetric] by (auto simp: bm'_def)
  qed
qed

end
