(* ===== verification/EfsFile.thy ===== *)
theory EfsFile
  imports EfsMap
begin

text \<open>
  Files are arrays of bytes: the operations of the inode layer over any driver that keeps the contract of the block layer, from the
  invariant \<open>efs_ok\<close>.  Blocks that are free must hold zeros, because a fresh indirect block is used as it is found on the disk.
\<close>

section \<open>Invariant\<close>

definition efs_ok :: "'d driver \<Rightarrow> ('d \<Rightarrow> u32 \<Rightarrow> page_data) \<Rightarrow> ('d \<Rightarrow> bool) \<Rightarrow> nat \<Rightarrow> addr list \<Rightarrow> (addr \<Rightarrow> nat) \<Rightarrow> 'd efs \<Rightarrow> bool" where
  "efs_ok ll_rw C usable n inos M s = (bd_ll_rw (efs_bd s) = ll_rw \<and> disk_ok usable (gd_of s) \<and> clean C n (gd_of s) \<and> gd_queue (gd_of s) = [] \<and>
    bm_ok (bmap s) \<and> bm_size (bmap s) \<le> n \<and> unat (block_area_start (s_ds s)) \<le> bm_size (bmap s) \<and>
    fs_map (flat C (gd_of s)) (efs_inode s) (bmap s) (unat (block_area_start (s_ds s))) inos M)"

text \<open>What the block map of inode \<open>a\<close> may change.\<close>

definition bare :: "easy_m_inode \<Rightarrow> easy_m_inode" where
  "bare m = m\<lparr>i_di := (i_di m)\<lparr>i_addrs := []\<rparr>, i_indir := None\<rparr>"

definition fixed_part where
  "fixed_part a s = (bare (efs_inode s a), s_ihash s, s_ilist s, s_idirty_list s, imap s, efs_stale s, (s_ds s)\<lparr>block_free := 0\<rparr>, bd_dev (efs_bd s),
    length (bm_map (bmap s)), bm_size (bmap s))"

definition grown :: "addr \<Rightarrow> 'd efs \<Rightarrow> 'd efs \<Rightarrow> bool" where
  "grown a s s' = ((\<forall>c. c \<noteq> a \<longrightarrow> efs_inode s' c = efs_inode s c) \<and> fixed_part a s' = fixed_part a s \<and> efs_next s \<le> efs_next s' \<and>
    (bit (s_flags s') 0 \<or> (s_flags s', bmap s', s_ds s') = (s_flags s, bmap s, s_ds s)))"

lemma ds_sel:
  "block_area_start (ds\<lparr>block_free := 0\<rparr>) = block_area_start ds" "inode_area_start (ds\<lparr>block_free := 0\<rparr>) = inode_area_start ds"
  "inode_size (ds\<lparr>block_free := 0\<rparr>) = inode_size ds" "inode_map_start (ds\<lparr>block_free := 0\<rparr>) = inode_map_start ds"
  "block_map_start (ds\<lparr>block_free := 0\<rparr>) = block_map_start ds" "block_count (ds\<lparr>block_free := 0\<rparr>) = block_count ds"
  by simp_all

lemma ds_eq:
  assumes "ds\<lparr>block_free := 0\<rparr> = ds'\<lparr>block_free := 0\<rparr>"
  shows "block_area_start ds = block_area_start ds'" "inode_area_start ds = inode_area_start ds'" "inode_size ds = inode_size ds'"
    "inode_map_start ds = inode_map_start ds'" "block_map_start ds = block_map_start ds'" "block_count ds = block_count ds'"
  using ds_sel [of ds] ds_sel [of ds'] unfolding assms by simp_all

lemma bare_sel:
  "i_size (i_di (bare m)) = i_size (i_di m)" "i_no (i_di (bare m)) = i_no (i_di m)" "i_slock (bare m) = i_slock m" "i_flags (bare m) = i_flags m"
  "i_refcnt (bare m) = i_refcnt m" "i_nlink (i_di (bare m)) = i_nlink (i_di m)" "i_type (i_di (bare m)) = i_type (i_di m)"
  by (simp_all add: bare_def)

lemma bare_eq:
  assumes "bare m = bare m'"
  shows "i_size (i_di m) = i_size (i_di m')" "i_no (i_di m) = i_no (i_di m')" "i_slock m = i_slock m'" "i_flags m = i_flags m'" "i_refcnt m = i_refcnt m'"
    "i_nlink (i_di m) = i_nlink (i_di m')" "i_type (i_di m) = i_type (i_di m')"
  using bare_sel [of m] bare_sel [of m'] assms by simp_all

lemma grown_refl: "grown a s s"
  by (simp add: grown_def)

lemma grown_trans: "grown a s t \<Longrightarrow> grown a t u \<Longrightarrow> grown a s u"
  unfolding grown_def by (elim conjE, intro conjI) (simp, metis, simp, metis prod.inject)

lemma grown_bare: "grown a s s' \<Longrightarrow> bare (efs_inode s' c) = bare (efs_inode s c)"
  by (cases "c = a") (simp_all add: grown_def fixed_part_def)

lemma grown_area: "grown a s s' \<Longrightarrow> block_area_start (s_ds s') = block_area_start (s_ds s)"
  using ds_eq(1) [of "s_ds s'" "s_ds s"] by (simp add: grown_def fixed_part_def)

lemma set_gd_simps [simp]:
  "gd_of (set_gd gd s) = gd" "efs_inode (set_gd gd s) = efs_inode s" "bmap (set_gd gd s) = bmap s" "s_ds (set_gd gd s) = s_ds s"
  "bd_ll_rw (efs_bd (set_gd gd s)) = bd_ll_rw (efs_bd s)" "s_flags (set_gd gd s) = s_flags s" "bd_dev (efs_bd (set_gd gd s)) = bd_dev (efs_bd s)"
  "s_ihash (set_gd gd s) = s_ihash s" "s_ilist (set_gd gd s) = s_ilist s" "s_idirty_list (set_gd gd s) = s_idirty_list s" "imap (set_gd gd s) = imap s"
  "efs_stale (set_gd gd s) = efs_stale s" "efs_next (set_gd gd s) = efs_next s"
  by (simp_all add: set_gd_def gd_of_def)

lemma upd_inode_simps [simp]:
  "gd_of (upd_inode a f s) = gd_of s" "efs_inode (upd_inode a f s) = (efs_inode s)(a := f (efs_inode s a))" "bmap (upd_inode a f s) = bmap s"
  "s_ds (upd_inode a f s) = s_ds s" "efs_bd (upd_inode a f s) = efs_bd s" "s_flags (upd_inode a f s) = s_flags s" "s_ihash (upd_inode a f s) = s_ihash s"
  "s_ilist (upd_inode a f s) = s_ilist s" "s_idirty_list (upd_inode a f s) = s_idirty_list s" "imap (upd_inode a f s) = imap s" "efs_stale (upd_inode a f s) = efs_stale s"
  "efs_next (upd_inode a f s) = efs_next s"
  by (simp_all add: upd_inode_def gd_of_def)

lemma iobind_simps [simp]:
  "iobind (Some (Inr x)) f = f x" "iobind (Some (Inl e)) f = Some (Inl e)" "iobind None f = None"
  by (simp_all add: iobind_def)

section \<open>Growing\<close>

text \<open>A step that may map more blocks of inode \<open>a\<close> and keeps every byte of every file, at a cost of at most \<open>c\<close> objects and \<open>u\<close> blocks.\<close>

definition steps :: "('d \<Rightarrow> u32 \<Rightarrow> page_data) \<Rightarrow> addr list \<Rightarrow> addr \<Rightarrow> (addr \<Rightarrow> nat) \<Rightarrow> (addr \<Rightarrow> nat) \<Rightarrow> nat \<Rightarrow> nat \<Rightarrow> 'd efs \<Rightarrow> 'd efs \<Rightarrow> bool" where
  "steps C inos a M M' c u s s' = (grown a s s' \<and> (\<forall>x\<in>set inos. M x \<le> M' x) \<and>
    (\<forall>x\<in>set inos. \<forall>p. p div 4096 < M x \<longrightarrow> fbyte (flat C (gd_of s')) (efs_inode s' x) p = fbyte (flat C (gd_of s)) (efs_inode s x) p) \<and>
    gd_mem (gd_of s) \<le> gd_mem (gd_of s') + c \<and> room (bmap s) \<le> room (bmap s') + u)"

lemma steps_refl: "steps C inos a M M 0 0 s s"
  by (simp add: steps_def grown_refl)

lemma steps_trans:
  assumes "steps C inos a M M1 c u s t" "steps C inos a M1 M2 c' u' t v"
  shows "steps C inos a M M2 (c + c') (u + u') s v"
proof -
  have "fbyte (flat C (gd_of v)) (efs_inode v x) p = fbyte (flat C (gd_of s)) (efs_inode s x) p" if "x \<in> set inos" "p div 4096 < M x" for x p
  proof -
    have "p div 4096 < M1 x" using assms(1) that by (force simp: steps_def)
    then show ?thesis using assms that by (simp add: steps_def)
  qed
  moreover have "M x \<le> M2 x" if "x \<in> set inos" for x using assms that by (force simp: steps_def)
  ultimately show ?thesis using assms grown_trans unfolding steps_def by (auto simp: le_trans)
qed

lemma steps_weaken: "steps C inos a M M' c u s s' \<Longrightarrow> c \<le> c' \<Longrightarrow> u \<le> u' \<Longrightarrow> steps C inos a M M' c' u' s s'"
  by (auto simp: steps_def)

lemma efs_ok_parts:
  assumes "efs_ok ll_rw C usable n inos M s"
  shows "bd_ll_rw (efs_bd s) = ll_rw" "disk_ok usable (gd_of s)" "clean C n (gd_of s)" "gd_queue (gd_of s) = []" "bm_ok (bmap s)" "bm_size (bmap s) \<le> n"
    "unat (block_area_start (s_ds s)) \<le> bm_size (bmap s)" "fs_map (flat C (gd_of s)) (efs_inode s) (bmap s) (unat (block_area_start (s_ds s))) inos M"
  using assms unfolding efs_ok_def by blast+

lemma owned_range:
  assumes "efs_ok ll_rw C usable n inos M s" "a \<in> set inos" "b \<in> set (owned (flat C (gd_of s)) (efs_inode s a) (M a))"
  shows "unat b * 4096 + 4096 \<le> n * 4096" "unat b < bm_size (bmap s)"
proof -
  show "unat b < bm_size (bmap s)" using efs_ok_parts(8) [OF assms(1)] assms(2,3) unfolding fs_map_def by blast
  then have "Suc (unat b) \<le> n" using efs_ok_parts(6) [OF assms(1)] by linarith
  then have "Suc (unat b) * 4096 \<le> n * 4096" by (rule mult_le_mono1)
  then show "unat b * 4096 + 4096 \<le> n * 4096" by simp
qed

text \<open>Allocation of a block and of kernel memory.\<close>

lemma bmap_alloc_step:
  assumes "efs_ok ll_rw C usable n inos M s" "n \<le> 2 ^ 32" "0 < room (bmap s)"
  shows "\<exists>x bm f. efs_bmap_alloc s = Inr (x, s\<lparr>bmap := bm, s_ds := (s_ds s)\<lparr>block_free := f\<rparr>, s_flags := SET_FLAG (s_flags s) S_DIRTY\<rparr>) \<and> x \<noteq> 0 \<and>
    unat (block_area_start (s_ds s)) \<le> unat x \<and> unat x < bm_size (bmap s) \<and> \<not> used (bmap s) (unat x) \<and> bm_ok bm \<and> bm_size bm = bm_size (bmap s) \<and>
    (\<forall>j<bm_size (bmap s). used bm j \<longleftrightarrow> used (bmap s) j \<or> j = unat x) \<and> room bm = room (bmap s) - 1 \<and> length (bm_map bm) = length (bm_map (bmap s))"
proof -
  obtain k bm where k: "bitmap_alloc (bmap s) = Inr (int k, bm)" "0 < k" "k < bm_size (bmap s)" "\<not> used (bmap s) k" "bm_ok bm" "bm_size bm = bm_size (bmap s)"
    "\<forall>j<bm_size (bmap s). used bm j \<longleftrightarrow> used (bmap s) j \<or> j = k" "room bm = room (bmap s) - 1" "length (bm_map bm) = length (bm_map (bmap s))"
    using bm_ok_alloc [OF efs_ok_parts(5) [OF assms(1)] assms(3)] by blast
  have u: "unat (of_nat k :: u32) = k" using k(3) efs_ok_parts(6) [OF assms(1)] assms(2) by (intro unat_of_nat_id) simp
  have a: "unat (block_area_start (s_ds s)) \<le> k" using efs_ok_parts(8) [OF assms(1)] k(2,4) unfolding fs_map_def by (meson not_le)
  have e: "efs_bmap_alloc s = Inr (of_nat k, s\<lparr>bmap := bm, s_ds := (s_ds s)\<lparr>block_free := block_free (s_ds s) - 1\<rparr>, s_flags := SET_FLAG (s_flags s) S_DIRTY\<rparr>)"
    using k(1) by (simp add: efs_bmap_alloc_def set_s_dirty_def)
  show ?thesis using e a k(2-) u by (intro exI [of _ "of_nat k"] exI [of _ bm] exI [of _ "block_free (s_ds s) - 1"]) (auto simp: word_unat_eq_iff)
qed

lemma S_DIRTY_bit: "bit (SET_FLAG f S_DIRTY) 0"
  by (simp add: S_DIRTY_def)

lemma kalloc_step:
  assumes "efs_ok ll_rw C usable n inos M s" "0 < gd_mem (gd_of s)"
  shows "\<exists>s'. kalloc s = (Some (efs_next s), s') \<and> efs_ok ll_rw C usable n inos M s' \<and> steps C inos a M M 1 0 s s' \<and> efs_inode s' = efs_inode s \<and>
    flat C (gd_of s') = flat C (gd_of s) \<and> bmap s' = bmap s \<and> gd_mem (gd_of s') = gd_mem (gd_of s) - 1"
proof -
  let ?gd = "(gd_of s)\<lparr>gd_mem := gd_mem (gd_of s) - 1\<rparr>" and ?t = "\<lambda>gd. (set_gd gd s)\<lparr>efs_next := efs_next s + 1\<rparr>"
  have c: "cache_ok ?gd" "cached ?gd = cached (gd_of s)"
    using efs_ok_parts(2) [OF assms(1)] by (auto intro!: cache_frame [of "gd_of s"] simp: disk_ok_def)
  have v: "flat C ?gd = flat C (gd_of s)" using c(2) by (simp add: flat_def view_def newb_def fun_eq_iff split: option.split)
  have g: "gd_of (?t ?gd) = ?gd" by (simp add: gd_of_def set_gd_def)
  have "clean C n ?gd" "disk_ok usable ?gd" using efs_ok_parts(2,3) [OF assms(1)] c(1) by (auto simp: clean_def newb_def disk_ok_def)
  then have "efs_ok ll_rw C usable n inos M (?t ?gd)" using assms(1) v g by (simp add: efs_ok_def)
  moreover have "steps C inos a M M 1 0 s (?t ?gd)" using v assms(2) g by (simp add: steps_def grown_def fixed_part_def)
  ultimately show ?thesis using assms(2) v g by (intro exI [of _ "?t ?gd"]) (simp add: kalloc_def Let_def)
qed

lemma gd_of_cong [simp]:
  "gd_of (s\<lparr>efs_inode := i\<rparr>) = gd_of s" "gd_of (s\<lparr>bmap := bm\<rparr>) = gd_of s" "gd_of (s\<lparr>s_ds := ds\<rparr>) = gd_of s" "gd_of (s\<lparr>s_flags := fl\<rparr>) = gd_of s"
  "gd_of (s\<lparr>s_idirty_list := l\<rparr>) = gd_of s" "gd_of (s\<lparr>s_ihash := ht\<rparr>) = gd_of s" "gd_of (s\<lparr>s_ilist := l\<rparr>) = gd_of s" "gd_of (s\<lparr>imap := bm\<rparr>) = gd_of s"
  by (simp_all add: gd_of_def)

lemma grow_step:
  fixes s :: "'d efs"
  assumes ok: "efs_ok ll_rw C usable n inos M s" and a: "a \<in> set inos"
    and x: "unat (block_area_start (s_ds s)) \<le> unat x" "unat x < bm_size (bmap s)" "\<not> used (bmap s) (unat x)" "bm_ok bm" "bm_size bm = bm_size (bmap s)"
      "\<forall>j<bm_size (bmap s). used bm j \<longleftrightarrow> used (bmap s) j \<or> j = unat x" "room bm = room (bmap s) - 1" "length (bm_map bm) = length (bm_map (bmap s))"
    and m': "mapped (flat C (gd_of s)) m' n'" "distinct (owned (flat C (gd_of s)) m' n')"
      "set (owned (flat C (gd_of s)) m' n') \<subseteq> insert x (set (owned (flat C (gd_of s)) (efs_inode s a) (M a)))" "bare m' = bare (efs_inode s a)" "M a \<le> n'"
      "\<And>k. k < M a \<Longrightarrow> bno_of (flat C (gd_of s)) m' k = bno_of (flat C (gd_of s)) (efs_inode s a) k"
    and s': "s' = s\<lparr>bmap := bm, s_ds := (s_ds s)\<lparr>block_free := f\<rparr>, s_flags := SET_FLAG (s_flags s) S_DIRTY, efs_inode := (efs_inode s)(a := m')\<rparr>"
  shows "efs_ok ll_rw C usable n inos (M(a := n')) s'" "steps C inos a M (M(a := n')) 0 1 s s'"
proof -
  have g: "gd_of s' = gd_of s" by (simp add: s')
  have "fs_map (flat C (gd_of s)) ((efs_inode s)(a := m')) bm (unat (block_area_start (s_ds s))) inos (M(a := n'))"
    using x(6) by (intro fs_map_grow [OF efs_ok_parts(8) [OF ok] a m'(1-3) x(1-3,5) _ efs_ok_parts(7) [OF ok]]) simp
  then show "efs_ok ll_rw C usable n inos (M(a := n')) s'" using ok x(4,5) g by (simp add: efs_ok_def s')
  have "fbyte (flat C (gd_of s)) m' p = fbyte (flat C (gd_of s)) (efs_inode s a) p" if "p div 4096 < M a" for p using m'(6) that by (simp add: fbyte_def)
  moreover have "grown a s s'" using m'(4) x(5,8) S_DIRTY_bit by (simp add: grown_def fixed_part_def s')
  ultimately show "steps C inos a M (M(a := n')) 0 1 s s'" using m'(5) x(7) g by (simp add: steps_def s')
qed

lemma upd_inode_const: "upd_inode a f s = s\<lparr>efs_inode := (efs_inode s)(a := f (efs_inode s a))\<rparr>"
  by (simp add: upd_inode_def)

lemma efs_ok_inode:
  assumes "efs_ok ll_rw C usable n inos M s" "a \<in> set inos"
  shows "mapped (flat C (gd_of s)) (efs_inode s a) (M a)" "distinct (owned (flat C (gd_of s)) (efs_inode s a) (M a))"
  using efs_ok_parts(8) [OF assms(1)] assms(2) by (auto simp: fs_map_def)

text \<open>The next direct entry, and the entry of the indirect block.\<close>

lemma slot_step:
  assumes ok: "efs_ok ll_rw C usable n inos M s" and n: "n \<le> 2 ^ 32" and a: "a \<in> set inos" and u: "0 < room (bmap s)"
    and k: "k = M a \<and> k < NDIRECT \<and> n' = k + 1 \<or> k = NDIRECT \<and> n' = M a" "i_addrs (i_di (efs_inode s a)) ! k = 0"
  shows "\<exists>x s'. bmap_slot a k s = Inr (x, s') \<and> x \<noteq> 0 \<and> i_addrs (i_di (efs_inode s' a)) ! k = x \<and> efs_ok ll_rw C usable n inos (M(a := n')) s' \<and>
    steps C inos a M (M(a := n')) 0 1 s s'"
proof -
  let ?D = "flat C (gd_of s)" and ?m = "efs_inode s a"
  obtain x bm f where x: "efs_bmap_alloc s = Inr (x, s\<lparr>bmap := bm, s_ds := (s_ds s)\<lparr>block_free := f\<rparr>, s_flags := SET_FLAG (s_flags s) S_DIRTY\<rparr>)" "x \<noteq> 0"
    "unat (block_area_start (s_ds s)) \<le> unat x" "unat x < bm_size (bmap s)" "\<not> used (bmap s) (unat x)" "bm_ok bm" "bm_size bm = bm_size (bmap s)"
    "\<forall>j<bm_size (bmap s). used bm j \<longleftrightarrow> used (bmap s) j \<or> j = unat x" "room bm = room (bmap s) - 1" "length (bm_map bm) = length (bm_map (bmap s))"
    using bmap_alloc_step [OF ok n u] by blast
  define m' where "m' = set_addr k x ?m"
  define s' where "s' = s\<lparr>bmap := bm, s_ds := (s_ds s)\<lparr>block_free := f\<rparr>, s_flags := SET_FLAG (s_flags s) S_DIRTY, efs_inode := (efs_inode s)(a := m')\<rparr>"
  note m = efs_ok_inode [OF ok a]
  have l: "length (i_addrs (i_di ?m)) = NDIRECT + 1" using m(1) by (simp add: mapped_def)
  have nx: "x \<notin> set (owned ?D ?m (M a))" using fs_map_fresh(1) [OF efs_ok_parts(8) [OF ok] a x(5,3)] .
  have z: "\<forall>i<4096. ?D (unat x * 4096 + i) = 0" using efs_ok_parts(8) [OF ok] x(3-5) unfolding fs_map_def by blast
  have g: "mapped ?D m' n'" "distinct (owned ?D m' n')" "set (owned ?D m' n') \<subseteq> insert x (set (owned ?D ?m (M a)))" "M a \<le> n'"
    "\<And>j. j < M a \<Longrightarrow> bno_of ?D m' j = bno_of ?D ?m j"
  proof -
    consider "k = M a" "k < NDIRECT" "n' = k + 1" | "k = NDIRECT" "n' = M a" using k(1) by blast
    then have "mapped ?D m' n' \<and> distinct (owned ?D m' n') \<and> set (owned ?D m' n') \<subseteq> insert x (set (owned ?D ?m (M a))) \<and> M a \<le> n' \<and>
      (\<forall>j<M a. bno_of ?D m' j = bno_of ?D ?m j)"
    proof cases
      case 1
      then have "mapped ?D ?m k" "x \<notin> set (owned ?D ?m k)" "distinct (owned ?D ?m k)" using m nx by simp_all
      from set_addr_direct [OF this(1) 1(2) x(2) this(2,3)] show ?thesis using 1 by (auto simp: m'_def)
    next
      case 2
      have "M a \<le> MAXFILE" using m(1) by (simp add: mapped_def)
      with set_addr_indirect [OF m(1) _ x(2) nx m(2) z] show ?thesis using 2 k(2) by (auto simp: m'_def)
    qed
    then show "mapped ?D m' n'" "distinct (owned ?D m' n')" "set (owned ?D m' n') \<subseteq> insert x (set (owned ?D ?m (M a)))" "M a \<le> n'"
      "\<And>j. j < M a \<Longrightarrow> bno_of ?D m' j = bno_of ?D ?m j" by blast+
  qed
  have "bare m' = bare ?m" by (simp add: m'_def set_addr_def bare_def)
  note st = grow_step [OF ok a x(3-10) g(1-3) this g(4,5) s'_def]
  have "bmap_slot a k s = Inr (x, s')"
    using k(2) x(1) by (simp add: bmap_slot_def upd_di_def upd_inode_def s'_def m'_def set_addr_def)
  moreover have "i_addrs (i_di (efs_inode s' a)) ! k = x" using k(1) l by (auto simp: s'_def m'_def set_addr_def)
  ultimately show ?thesis using st x(2) by blast
qed

text \<open>The next entry of the page of indirect blocks.\<close>

lemma indir_step:
  assumes ok: "efs_ok ll_rw C usable n inos M s" and n: "n \<le> 2 ^ 32" and a: "a \<in> set inos" and u: "0 < room (bmap s)"
    and k: "NDIRECT \<le> M a" "M a < MAXFILE" "i_indir (efs_inode s a) = Some ws"
  shows "\<exists>x s'. kbind (efs_bmap_alloc s) (\<lambda>(no, s3). Inr (no, upd_inode a (\<lambda>m. m\<lparr>i_indir := Some (ws[M a - NDIRECT := no])\<rparr>) s3)) = Inr (x, s') \<and> x \<noteq> 0 \<and>
    bno_of (flat C (gd_of s')) (efs_inode s' a) (M a) = x \<and> efs_ok ll_rw C usable n inos (M(a := M a + 1)) s' \<and> steps C inos a M (M(a := M a + 1)) 0 1 s s'"
proof -
  let ?D = "flat C (gd_of s)" and ?m = "efs_inode s a"
  obtain x bm f where x: "efs_bmap_alloc s = Inr (x, s\<lparr>bmap := bm, s_ds := (s_ds s)\<lparr>block_free := f\<rparr>, s_flags := SET_FLAG (s_flags s) S_DIRTY\<rparr>)" "x \<noteq> 0"
    "unat (block_area_start (s_ds s)) \<le> unat x" "unat x < bm_size (bmap s)" "\<not> used (bmap s) (unat x)" "bm_ok bm" "bm_size bm = bm_size (bmap s)"
    "\<forall>j<bm_size (bmap s). used bm j \<longleftrightarrow> used (bmap s) j \<or> j = unat x" "room bm = room (bmap s) - 1" "length (bm_map bm) = length (bm_map (bmap s))"
    using bmap_alloc_step [OF ok n u] by blast
  define m' where "m' = ?m\<lparr>i_indir := Some (ws[M a - NDIRECT := x])\<rparr>"
  define s' where "s' = s\<lparr>bmap := bm, s_ds := (s_ds s)\<lparr>block_free := f\<rparr>, s_flags := SET_FLAG (s_flags s) S_DIRTY, efs_inode := (efs_inode s)(a := m')\<rparr>"
  note m = efs_ok_inode [OF ok a]
  have nx: "x \<notin> set (owned ?D ?m (M a))" using fs_map_fresh(1) [OF efs_ok_parts(8) [OF ok] a x(5,3)] .
  note si = set_indir [OF m(1) k(3,1,2) x(2) nx m(2), folded m'_def]
  have "bare m' = bare ?m" by (simp add: m'_def bare_def)
  note st = grow_step [OF ok a x(3-10) si(2-4) this _ _ s'_def]
  have "bno_of (flat C (gd_of s')) (efs_inode s' a) (M a) = x" using si(1) by (simp add: s'_def)
  moreover have "kbind (efs_bmap_alloc s) (\<lambda>(no, s3). Inr (no, upd_inode a (\<lambda>m. m\<lparr>i_indir := Some (ws[M a - NDIRECT := no])\<rparr>) s3)) = Inr (x, s')"
    using x(1) by (simp add: upd_inode_def s'_def m'_def)
  ultimately show ?thesis using st si(1) x(2) by (intro exI [of _ x] exI [of _ s']) simp
qed

context block_driver
begin

lemma bd_read_step:
  assumes ok: "efs_ok ll_rw contents usable nblocks inos M s" and n: "nblocks \<le> 2 ^ 32" and r: "unat off + unat len \<le> 4096" "unat b * 4096 + 4096 \<le> nblocks * 4096"
    and m: "8 \<le> gd_mem (gd_of s)" "unat len \<le> length v"
  shows "\<exists>s'. bd_read b off len v s = Some (Inr (map (flat contents (gd_of s)) [unat b * 4096 + unat off ..< unat b * 4096 + unat off + unat len] @ drop (unat len) v, s')) \<and>
    efs_ok ll_rw contents usable nblocks inos M s' \<and> steps contents inos a M M 6 0 s s' \<and> efs_inode s' = efs_inode s \<and> bmap s' = bmap s \<and> s_ds s' = s_ds s \<and>
    (\<forall>p<nblocks * 4096. flat contents (gd_of s') p = flat contents (gd_of s) p) \<and>
    (\<forall>x\<in>set inos. bno_of (flat contents (gd_of s')) (efs_inode s' x) = bno_of (flat contents (gd_of s)) (efs_inode s x))"
proof -
  have l: "unat len div 4096 \<le> 1" using r(1) by (metis div_le_mono add_leE div_self zero_neq_numeral)
  obtain gd' where g: "blk_read ll_rw b off len (Some v) (gd_of s) =
      Some (Inr (0, map (flat contents (gd_of s)) [unat b * 4096 + unat off ..< unat b * 4096 + unat off + unat len] @ drop (unat len) v, gd'))"
    "disk_ok usable gd'" "gd_queue gd' = []" "\<forall>p<nblocks * 4096. flat contents gd' p = flat contents (gd_of s) p"
    "gd_mem (gd_of s) \<le> gd_mem gd' + 2 * (unat len div 4096) + 4" "clean contents nblocks (gd_of s) \<longrightarrow> clean contents nblocks gd'"
    using blk_read_correct [of off len b "gd_of s" v] efs_ok_parts(2,4) [OF ok] n r m l mod_less_eq_dividend [of "unat off" 4096] by force
  define t where "t = set_gd gd' s"
  have e: "bd_read b off len v s = Some (Inr (map (flat contents (gd_of s)) [unat b * 4096 + unat off ..< unat b * 4096 + unat off + unat len] @ drop (unat len) v, t))"
    using g(1) efs_ok_parts(1) [OF ok] by (simp add: bd_read_def t_def)
  have D: "flat contents gd' p = flat contents (gd_of s) p" if "p < bm_size (bmap s) * 4096" for p
    using g(4) that efs_ok_parts(6) [OF ok] by (meson mult_le_mono1 order_less_le_trans)
  note c = fs_map_cong [OF efs_ok_parts(8) [OF ok] D]
  have "efs_ok ll_rw contents usable nblocks inos M t"
    using ok g(2,3,6) c(1) by (simp add: efs_ok_def t_def)
  moreover have "steps contents inos a M M 6 0 s t" using c(3) g(5) l by (simp add: steps_def grown_def fixed_part_def t_def)
  ultimately show ?thesis using e c(2) g(4) by (intro exI [of _ t]) (simp add: t_def)
qed

lemma bd_write_step:
  assumes ok: "efs_ok ll_rw contents usable nblocks inos M s" and n: "nblocks \<le> 2 ^ 32" and r: "unat off + unat len \<le> 4096"
    and m: "8 \<le> gd_mem (gd_of s)" "unat len \<le> length v"
    and a: "a \<in> set inos" "k < M a" "b = bno_of (flat contents (gd_of s)) (efs_inode s a) k"
  shows "\<exists>s'. bd_write b off len v s = Some (Inr s') \<and> efs_ok ll_rw contents usable nblocks inos M s' \<and> grown a s s' \<and> efs_inode s' = efs_inode s \<and>
    bmap s' = bmap s \<and> gd_mem (gd_of s) \<le> gd_mem (gd_of s') + 6 \<and>
    (\<forall>x\<in>set inos. \<forall>p. p div 4096 < M x \<longrightarrow> fbyte (flat contents (gd_of s')) (efs_inode s x) p =
      (if x = a \<and> k * 4096 + unat off \<le> p \<and> p < k * 4096 + unat off + unat len then v ! (p - (k * 4096 + unat off)) else fbyte (flat contents (gd_of s)) (efs_inode s x) p))"
proof -
  have l: "unat len div 4096 \<le> 1" using r by (metis div_le_mono add_leE div_self zero_neq_numeral)
  have b: "unat b * 4096 + 4096 \<le> nblocks * 4096" "unat b < bm_size (bmap s)"
    using owned_range [OF ok a(1)] owned_upt [OF a(2)] a(3) by blast+
  obtain gd' where g: "blk_write ll_rw b off len (Some v) (gd_of s) = Some (Inr (0, gd'))" "disk_ok usable gd'" "gd_queue gd' = []"
    "\<forall>p<nblocks * 4096. flat contents gd' p = (if unat b * 4096 + unat off \<le> p \<and> p < unat b * 4096 + unat off + unat len
      then v ! (p - (unat b * 4096 + unat off)) else flat contents (gd_of s) p)"
    "gd_mem (gd_of s) \<le> gd_mem gd' + 2 * (unat len div 4096) + 4" "clean contents nblocks (gd_of s) \<longrightarrow> clean contents nblocks gd'"
    using blk_write_correct [of off len b "gd_of s" v] efs_ok_parts(2,4) [OF ok] n r b(1) m l mod_less_eq_dividend [of "unat off" 4096] by force
  define t where "t = set_gd gd' s"
  have e: "bd_write b off len v s = Some (Inr t)" using g(1) efs_ok_parts(1) [OF ok] by (simp add: bd_write_def t_def)
  have D: "flat contents gd' p = flat contents (gd_of s) p" if "p < bm_size (bmap s) * 4096" "p div 4096 \<noteq> unat b" for p
  proof -
    have "p < nblocks * 4096" using that(1) efs_ok_parts(6) [OF ok] by (meson mult_le_mono1 order_less_le_trans)
    moreover have "\<not> (unat b * 4096 + unat off \<le> p \<and> p < unat b * 4096 + unat off + unat len)" using that(2) r by (auto simp: div_nat_eqI)
    ultimately show ?thesis using g(4) by auto
  qed
  note fw = fs_map_write [OF efs_ok_parts(8) [OF ok] a, where D' = "flat contents gd'"]
  have w: "fs_map (flat contents gd') (efs_inode s) (bmap s) (unat (block_area_start (s_ds s))) inos M" by (rule fw(1)) (rule D)
  have wb: "fbyte (flat contents gd') (efs_inode s x) p = (if x = a \<and> p div 4096 = k then flat contents gd' (unat b * 4096 + p mod 4096)
      else fbyte (flat contents (gd_of s)) (efs_inode s x) p)" if "x \<in> set inos" "p div 4096 < M x" for x p
    by (rule fw(2)) (use D that in auto)
  have "efs_ok ll_rw contents usable nblocks inos M t" using ok g(2,3,6) w by (simp add: efs_ok_def t_def)
  moreover have "fbyte (flat contents gd') (efs_inode s x) p =
      (if x = a \<and> k * 4096 + unat off \<le> p \<and> p < k * 4096 + unat off + unat len then v ! (p - (k * 4096 + unat off)) else fbyte (flat contents (gd_of s)) (efs_inode s x) p)"
    if x: "x \<in> set inos" "p div 4096 < M x" for x p
  proof (cases "x = a \<and> p div 4096 = k")
    case True
    have p: "p = k * 4096 + p mod 4096" using True by (metis div_mult_mod_eq)
    have "unat b * 4096 + p mod 4096 < nblocks * 4096" using b(1) by (meson add_less_cancel_left mod_less_divisor order_less_le_trans zero_less_numeral)
    then have q: "flat contents gd' (unat b * 4096 + p mod 4096) = (if unat off \<le> p mod 4096 \<and> p mod 4096 < unat off + unat len
        then v ! (p mod 4096 - unat off) else flat contents (gd_of s) (unat b * 4096 + p mod 4096))"
      using g(4) by simp
    have old: "flat contents (gd_of s) (unat b * 4096 + p mod 4096) = fbyte (flat contents (gd_of s)) (efs_inode s a) p" using True a(3) by (simp add: fbyte_def)
    have "p - (k * 4096 + unat off) = p mod 4096 - unat off" "(k * 4096 + unat off \<le> p) = (unat off \<le> p mod 4096)"
      "(p < k * 4096 + unat off + unat len) = (p mod 4096 < unat off + unat len)" using p by linarith+
    then show ?thesis using wb [OF x] True q old by simp
  next
    case False
    have "\<not> (x = a \<and> k * 4096 + unat off \<le> p \<and> p < k * 4096 + unat off + unat len)" using False r by (auto simp: div_nat_eqI)
    then show ?thesis using wb [OF x] False by auto
  qed
  ultimately show ?thesis using e g(5) l by (intro exI [of _ t]) (simp add: t_def grown_def fixed_part_def)
qed

lemma bd_read_block: "bd_read_count b 1 v s = bd_read b 0 BLK_SIZE v s"
  by (simp add: bd_read_count_def bd_read_def blk_read_count_def blk_read_def)

lemma load_step:
  assumes ok: "efs_ok ll_rw contents usable nblocks inos M s" and n: "nblocks \<le> 2 ^ 32" and m: "9 \<le> gd_mem (gd_of s)"
    and a: "a \<in> set inos" "b = i_addrs (i_di (efs_inode s a)) ! NDIRECT" "b \<noteq> 0"
  shows "\<exists>ws s'. load_indir a b s = Some (Inr (ws, s')) \<and> i_indir (efs_inode s' a) = Some ws \<and> efs_ok ll_rw contents usable nblocks inos M s' \<and>
    steps contents inos a M M 7 0 s s' \<and> bno_of (flat contents (gd_of s')) (efs_inode s' a) = bno_of (flat contents (gd_of s)) (efs_inode s a) \<and> bmap s' = bmap s"
proof (cases "i_indir (efs_inode s a)")
  case (Some ws)
  then show ?thesis using ok steps_weaken [OF steps_refl, of 7 0 contents inos a M s] by (auto simp: load_indir_def)
next
  case None
  obtain s1 where s1: "kalloc s = (Some (efs_next s), s1)" "efs_ok ll_rw contents usable nblocks inos M s1" "steps contents inos a M M 1 0 s s1"
    "efs_inode s1 = efs_inode s" "flat contents (gd_of s1) = flat contents (gd_of s)" "bmap s1 = bmap s" "gd_mem (gd_of s1) = gd_mem (gd_of s) - 1"
    using kalloc_step [OF ok, of a] m by auto
  have own: "b \<in> set (owned (flat contents (gd_of s1)) (efs_inode s1 a) (M a))" using a(2,3) s1(4) by (simp add: owned_def)
  note r = owned_range [OF s1(2) a(1) own]
  let ?D = "flat contents (gd_of s)"
  have len: "unat (0 :: u32) + unat BLK_SIZE \<le> 4096" "8 \<le> gd_mem (gd_of s1)" "unat BLK_SIZE \<le> length (map (efs_stale s1) [0..<4096])" using m s1(7) by (simp_all add: unat_blk)
  obtain s2 where s2: "bd_read b 0 BLK_SIZE (map (efs_stale s1) [0..<4096]) s1 = Some (Inr (blk_bytes ?D b, s2))"
    "efs_ok ll_rw contents usable nblocks inos M s2" "steps contents inos a M M 6 0 s1 s2" "efs_inode s2 = efs_inode s1" "bmap s2 = bmap s1"
    "\<forall>p<nblocks * 4096. flat contents (gd_of s2) p = ?D p" "bno_of (flat contents (gd_of s2)) (efs_inode s2 a) = bno_of ?D (efs_inode s a)"
  proof -
    have "map ?D [unat b * 4096 ..< unat b * 4096 + 4096] = blk_bytes ?D b"
      by (rule nth_equalityI) (simp_all add: blk_bytes_def)
    then show thesis using bd_read_step [OF s1(2) n len(1) r(1) len(2,3), of a] a(1) that s1(4,5) by (auto simp: unat_blk)
  qed
  define ws :: "u32 list" where "ws = words_of 4 (blk_bytes ?D b)"
  define s3 where "s3 = upd_inode a (\<lambda>m. m\<lparr>i_indir := Some ws\<rparr>) s2"
  let ?D2 = "flat contents (gd_of s2)" and ?m = "efs_inode s a"
  have "blk_bytes ?D2 b = blk_bytes ?D b" using s2(6) r(1) by (auto simp: blk_bytes_def)
  then have ws: "ws = words_of 4 (blk_bytes ?D2 (i_addrs (i_di ?m) ! NDIRECT))" using a(2) by (simp add: ws_def)
  have mp: "mapped ?D2 ?m (M a)" using efs_ok_inode(1) [OF s2(2) a(1)] s2(4) s1(4) by simp
  note ld = load_same [OF None ws]
  have "fs_map ?D2 (efs_inode s3) (bmap s2) (unat (block_area_start (s_ds s2))) inos M"
    using fs_map_same [OF efs_ok_parts(8) [OF s2(2)], of "?m\<lparr>i_indir := Some ws\<rparr>" a] ld(2,3) a(2,3) mp s2(4) s1(4) by (simp add: s3_def)
  then have ok3: "efs_ok ll_rw contents usable nblocks inos M s3" using s2(2) by (simp add: efs_ok_def s3_def)
  have b3: "bno_of ?D2 (efs_inode s3 a) = bno_of ?D ?m" using ld(1) s2(4,7) s1(4) by (simp add: s3_def)
  have "steps contents inos a M M 0 0 s2 s3"
    using ld(1) s2(4) s1(4) by (simp add: steps_def grown_def fixed_part_def s3_def bare_def fbyte_def)
  from steps_trans [OF steps_trans [OF s1(3) s2(3)] this] have "steps contents inos a M M 7 0 s s3" by simp
  moreover have "load_indir a b s = Some (Inr (ws, s3))"
    using None s1(1) s2(1) by (simp add: load_indir_def bd_read_block ws_def s3_def Let_def)
  ultimately show ?thesis using ok3 b3 s2(5) s1(6) by (intro exI [of _ ws] exI [of _ s3]) (simp add: s3_def)
qed

text \<open>\<open>efs_i_bmap\<close> finds the block of a mapped index, and maps the first one that is not.\<close>

lemma bmap_mapped:
  assumes ok: "efs_ok ll_rw contents usable nblocks inos M s" and n: "nblocks \<le> 2 ^ 32" and m: "9 \<le> gd_mem (gd_of s)" and a: "a \<in> set inos" and k: "k < M a"
  shows "\<exists>s'. efs_i_bmap a (int k) alloc s = Some (Inr (bno_of (flat contents (gd_of s)) (efs_inode s a) k, s')) \<and>
    bno_of (flat contents (gd_of s')) (efs_inode s' a) = bno_of (flat contents (gd_of s)) (efs_inode s a) \<and>
    bno_of (flat contents (gd_of s)) (efs_inode s a) k \<noteq> 0 \<and> efs_ok ll_rw contents usable nblocks inos M s' \<and> steps contents inos a M M 7 0 s s'"
proof -
  let ?D = "flat contents (gd_of s)" and ?m = "efs_inode s a"
  note mp = efs_ok_inode(1) [OF ok a]
  have nz: "bno_of ?D ?m k \<noteq> 0" and kM: "k < MAXFILE" using mp k by (auto simp: mapped_def)
  show ?thesis
  proof (cases "k < NDIRECT")
    case True
    then have "i_addrs (i_di ?m) ! k = bno_of ?D ?m k" by (simp add: bno_of_def)
    then show ?thesis using True nz ok steps_weaken [OF steps_refl, of 7 0 contents inos a M s] by (simp add: efs_i_bmap_def bmap_slot_def)
  next
    case False
    define b where "b = i_addrs (i_di ?m) ! NDIRECT"
    have b: "b \<noteq> 0" using nz False by (auto simp: bno_of_def b_def)
    obtain ws s' where l: "load_indir a b s = Some (Inr (ws, s'))" "i_indir (efs_inode s' a) = Some ws" "efs_ok ll_rw contents usable nblocks inos M s'"
      "steps contents inos a M M 7 0 s s'" "bno_of (flat contents (gd_of s')) (efs_inode s' a) = bno_of ?D ?m"
      using load_step [OF ok n m a b_def b] by blast
    have "k - NDIRECT < NINDIRECT" using False kM by (simp add: MAXFILE_def)
    moreover have "ws ! (k - NDIRECT) = bno_of ?D ?m k"
    proof -
      have "i_addrs (i_di (efs_inode s' a)) ! NDIRECT \<noteq> 0" using l(2) efs_ok_inode(1) [OF l(3) a] by (simp add: mapped_def)
      then show ?thesis using fun_cong [OF l(5), of k] False l(2) by (simp add: bno_of_def [of "flat contents (gd_of s')"] indir_def)
    qed
    ultimately have "efs_i_bmap a (int k) alloc s = Some (Inr (bno_of ?D ?m k, s'))"
      using False b nz l(1) by (simp add: efs_i_bmap_def bmap_slot_def b_def Let_def)
    then show ?thesis using l(3-5) nz by blast
  qed
qed

lemma bmap_next:
  assumes ok: "efs_ok ll_rw contents usable nblocks inos M s" and n: "nblocks \<le> 2 ^ 32" and m: "9 \<le> gd_mem (gd_of s)" "2 \<le> room (bmap s)" and a: "a \<in> set inos"
    and k: "M a < MAXFILE"
  shows "\<exists>b s'. efs_i_bmap a (int (M a)) True s = Some (Inr (b, s')) \<and> b \<noteq> 0 \<and> bno_of (flat contents (gd_of s')) (efs_inode s' a) (M a) = b \<and>
    efs_ok ll_rw contents usable nblocks inos (M(a := M a + 1)) s' \<and> steps contents inos a M (M(a := M a + 1)) 7 2 s s'"
proof -
  let ?D = "flat contents (gd_of s)" and ?m = "efs_inode s a"
  note mp = efs_ok_inode(1) [OF ok a]
  have z: "bno_of ?D ?m (M a) = 0" using mp k by (auto simp: mapped_def)
  show ?thesis
  proof (cases "M a < NDIRECT")
    case True
    then have "i_addrs (i_di ?m) ! M a = 0" using z by (simp add: bno_of_def)
    then obtain x s' where "bmap_slot a (M a) s = Inr (x, s')" "x \<noteq> 0" "i_addrs (i_di (efs_inode s' a)) ! M a = x"
      "efs_ok ll_rw contents usable nblocks inos (M(a := M a + 1)) s'" "steps contents inos a M (M(a := M a + 1)) 0 1 s s'"
      using slot_step [OF ok n a, of "M a" "M a + 1"] True m(2) by auto
    then show ?thesis using True steps_weaken [of contents inos a M "M(a := M a + 1)" 0 1 s s' 7 2] by (simp add: efs_i_bmap_def bno_of_def)
  next
    case False
    obtain b s1 where s1: "bmap_slot a NDIRECT s = Inr (b, s1)" "b \<noteq> 0" "i_addrs (i_di (efs_inode s1 a)) ! NDIRECT = b"
      "efs_ok ll_rw contents usable nblocks inos M s1" "steps contents inos a M M 0 1 s s1"
    proof (cases "i_addrs (i_di ?m) ! NDIRECT = 0")
      case True
      then show thesis using slot_step [OF ok n a _ _ True, of "M a"] m(2) that by auto
    next
      case False
      then show thesis using that [OF _ False refl ok] steps_weaken [OF steps_refl, of 0 1 contents inos a M s] by (simp add: bmap_slot_def)
    qed
    have "9 \<le> gd_mem (gd_of s1)" using s1(5) m(1) by (simp add: steps_def)
    then obtain ws s2 where s2: "load_indir a b s1 = Some (Inr (ws, s2))" "i_indir (efs_inode s2 a) = Some ws" "efs_ok ll_rw contents usable nblocks inos M s2"
      "steps contents inos a M M 7 0 s1 s2" "bmap s2 = bmap s1"
      using load_step [OF s1(4) n _ a s1(3) [symmetric] s1(2)] by blast
    have u: "0 < room (bmap s2)" using s1(5) s2(5) m(2) by (simp add: steps_def)
    have l: "M a - NDIRECT < NINDIRECT" using False k by (simp add: MAXFILE_def)
    have "ws ! (M a - NDIRECT) = 0"
    proof -
      have "mapped (flat contents (gd_of s2)) (efs_inode s2 a) (M a)" by (rule efs_ok_inode(1) [OF s2(3) a])
      then show ?thesis using k False s2(2) by (auto simp: mapped_def bno_of_def indir_def)
    qed
    moreover obtain x s3 where s3: "kbind (efs_bmap_alloc s2) (\<lambda>(no, s3). Inr (no, upd_inode a (\<lambda>m. m\<lparr>i_indir := Some (ws[M a - NDIRECT := no])\<rparr>) s3)) = Inr (x, s3)"
      "x \<noteq> 0" "bno_of (flat contents (gd_of s3)) (efs_inode s3 a) (M a) = x" "efs_ok ll_rw contents usable nblocks inos (M(a := M a + 1)) s3"
      "steps contents inos a M (M(a := M a + 1)) 0 1 s2 s3"
      using indir_step [OF s2(3) n a u _ k s2(2)] False by auto
    ultimately have "efs_i_bmap a (int (M a)) True s = Some (Inr (x, s3))"
      using False l s1(1) s2(1) by (simp add: efs_i_bmap_def Let_def)
    moreover have "steps contents inos a M (M(a := M a + 1)) 7 2 s s3"
      by (rule steps_weaken [OF steps_trans [OF steps_trans [OF s1(5) s2(4)] s3(5)]]) simp_all
    ultimately show ?thesis using s3(2-4) by blast
  qed
qed

end

end
