(* ===== verification/EfsRun.thy ===== *)
theory EfsRun
  imports EfsFile
begin

text \<open>
  The loops of \<open>efs_i_read\<close> and \<open>efs_i_write\<close>, creation of inodes, and the theorem on runs: a file system whose invariant holds behaves as a list of
  byte arrays.
\<close>

section \<open>Pieces of a transfer\<close>

text \<open>The number of blocks that \<open>r\<close> bytes from offset \<open>o'\<close> on touch.\<close>

definition chunks :: "nat \<Rightarrow> nat \<Rightarrow> nat" where
  "chunks off r = (if r = 0 then 0 else (off mod 4096 + r + 4095) div 4096)"

lemma chunks_step:
  assumes "0 < r" "m = min r (4096 - off mod 4096)"
  shows "chunks off r = chunks (off + m) (r - m) + 1"
proof -
  define q d where "q = off mod 4096" and "d = off div 4096"
  have q: "q < 4096" "off = d * 4096 + q" "m = min r (4096 - q)" using assms(2) by (simp_all add: q_def d_def)
  have c: "chunks off r = (q + r + 4095) div 4096" using assms(1) by (simp add: chunks_def q_def)
  show ?thesis
  proof (cases "r \<le> 4096 - q")
    case True
    then have "(q + r + 4095) div 4096 = 1" using assms(1) q(1) by (intro div_nat_eqI) simp_all
    then show ?thesis using True q(3) c by (simp add: chunks_def)
  next
    case False
    then have m: "m = 4096 - q" "m < r" using q(3) by simp_all
    have "off + m = (d + 1) * 4096" using q m(1) by simp
    then have "(off + m) mod 4096 = 0" by (metis mod_mult_self2_is_0)
    moreover have e: "q + r + 4095 = (r - m + 4095) + 4096" using m q(1) by simp
    have "(q + r + 4095) div 4096 = (r - m + 4095) div 4096 + 1" unfolding e by (rule div_add_self2) simp
    ultimately show ?thesis using m(2) unfolding c by (simp add: chunks_def)
  qed
qed

lemma chunks_le: "chunks off r \<le> r div 4096 + 2"
proof -
  have "off mod 4096 + r + 4095 \<le> r + 2 * 4096" using mod_less_divisor [of 4096 off] by linarith
  then have "(off mod 4096 + r + 4095) div 4096 \<le> (r + 2 * 4096) div 4096" by (rule div_le_mono)
  also have "\<dots> = r div 4096 + 2" by (subst div_mult_self1) simp_all
  finally show ?thesis by (simp add: chunks_def)
qed

lemma unat_block:
  "unat (off div BLOCK_SIZE) = unat off div 4096" "unat (off mod BLOCK_SIZE) = unat off mod 4096"
  by (simp_all add: BLOCK_SIZE_def unat_div unat_mod)

lemma unat_chunk:
  assumes "tot < len"
  shows "unat (chunk len tot off) = min (unat len - unat tot) (4096 - unat off mod 4096)"
proof -
  have "unat (len - tot) = unat len - unat tot" using assms by (simp add: unat_sub word_less_nat_alt word_le_nat_alt)
  moreover have "off mod BLOCK_SIZE \<le> BLOCK_SIZE" by (simp add: word_le_nat_alt unat_block) (simp add: BLOCK_SIZE_def)
  then have "unat (BLOCK_SIZE - off mod BLOCK_SIZE) = 4096 - unat off mod 4096" by (simp add: unat_sub unat_block) (simp add: BLOCK_SIZE_def)
  ultimately show ?thesis by (simp add: chunk_def min_def word_le_nat_alt)
qed

lemma uint_div: "uint (off div BLOCK_SIZE) = int (unat off div 4096)"
  by (metis unat_block(1) of_nat_unat)

lemma unat_add_le: "unat x + unat y < 2 ^ 32 \<Longrightarrow> unat (x + y) = unat x + unat (y :: u32)"
  by (simp add: unat_word_ariths(1))

lemma replace_piece:
  assumes "t + length xs \<le> l" "l \<le> length v"
  shows "take (t + length xs) (take t v @ xs @ drop (length xs) (drop t v)) = take t v @ xs" "drop l (take t v @ xs @ drop (length xs) (drop t v)) = drop l v"
    "length (take t v @ xs @ drop (length xs) (drop t v)) = length v"
  using assms by simp_all

text \<open>The bytes of a piece lie in one block.\<close>

lemma piece_bytes:
  assumes "b = bno_of D m (off div 4096)" "off mod 4096 + l \<le> 4096"
  shows "map D [unat b * 4096 + off mod 4096 ..< unat b * 4096 + off mod 4096 + l] = map (fbyte D m) [off ..< off + l]"
proof (rule nth_equalityI)
  fix i assume "i < length (map D [unat b * 4096 + off mod 4096 ..< unat b * 4096 + off mod 4096 + l])"
  then have i: "i < l" by simp
  define q d where "q = off mod 4096" and "d = off div 4096"
  have o: "off = d * 4096 + q" "q + i < 4096" using assms(2) i by (simp_all add: q_def d_def)
  have "(off + i) div 4096 = d" "(off + i) mod 4096 = q + i" using o by (simp_all add: add.assoc)
  then show "map D [unat b * 4096 + off mod 4096 ..< unat b * 4096 + off mod 4096 + l] ! i = map (fbyte D m) [off ..< off + l] ! i"
    using i assms(1) by (simp add: fbyte_def q_def d_def add.assoc)
qed simp

definition wrote :: "('d \<Rightarrow> u32 \<Rightarrow> page_data) \<Rightarrow> addr list \<Rightarrow> addr \<Rightarrow> (addr \<Rightarrow> nat) \<Rightarrow> (addr \<Rightarrow> nat) \<Rightarrow> nat \<Rightarrow> nat \<Rightarrow> (nat \<Rightarrow> u8) \<Rightarrow> nat \<Rightarrow> nat \<Rightarrow> 'd efs \<Rightarrow> 'd efs \<Rightarrow> bool" where
  "wrote C inos a M M' lo hi d c u s s' = (grown a s s' \<and> (\<forall>x\<in>set inos. M x \<le> M' x) \<and> hi \<le> M' a * 4096 \<and>
    (\<forall>x\<in>set inos. \<forall>p. if x = a \<and> lo \<le> p \<and> p < hi then fbyte (flat C (gd_of s')) (efs_inode s' x) p = d p
      else p div 4096 < M x \<longrightarrow> fbyte (flat C (gd_of s')) (efs_inode s' x) p = fbyte (flat C (gd_of s)) (efs_inode s x) p) \<and>
    gd_mem (gd_of s) \<le> gd_mem (gd_of s') + c \<and> room (bmap s) \<le> room (bmap s') + u)"

lemma wrote_trans:
  assumes "wrote C inos a M M1 lo mid d c u s t" "wrote C inos a M1 M2 mid hi d c' u' t v" "lo \<le> mid" "mid \<le> hi"
  shows "wrote C inos a M M2 lo hi d (c + c') (u + u') s v"
proof -
  have "if x = a \<and> lo \<le> p \<and> p < hi then fbyte (flat C (gd_of v)) (efs_inode v x) p = d p
      else p div 4096 < M x \<longrightarrow> fbyte (flat C (gd_of v)) (efs_inode v x) p = fbyte (flat C (gd_of s)) (efs_inode s x) p" if x: "x \<in> set inos" for x p
  proof -
    have 1: "if x = a \<and> lo \<le> p \<and> p < mid then fbyte (flat C (gd_of t)) (efs_inode t x) p = d p
      else p div 4096 < M x \<longrightarrow> fbyte (flat C (gd_of t)) (efs_inode t x) p = fbyte (flat C (gd_of s)) (efs_inode s x) p" using assms(1) x unfolding wrote_def by blast
    have 2: "if x = a \<and> mid \<le> p \<and> p < hi then fbyte (flat C (gd_of v)) (efs_inode v x) p = d p
      else p div 4096 < M1 x \<longrightarrow> fbyte (flat C (gd_of v)) (efs_inode v x) p = fbyte (flat C (gd_of t)) (efs_inode t x) p" using assms(2) x unfolding wrote_def by blast
    have 3: "M x \<le> M1 x" "p < mid \<Longrightarrow> x = a \<Longrightarrow> p div 4096 < M1 x" using assms(1) x by (auto simp: wrote_def intro!: less_mult_imp_div_less)
    show ?thesis using 1 2 3 assms(3,4) by (auto split: if_splits)
  qed
  moreover have "grown a s v" "\<forall>x\<in>set inos. M x \<le> M2 x" "hi \<le> M2 a * 4096" "gd_mem (gd_of s) \<le> gd_mem (gd_of v) + (c + c')" "room (bmap s) \<le> room (bmap v) + (u + u')"
    using assms(1,2) grown_trans by (auto simp: wrote_def intro: le_trans)
  ultimately show ?thesis unfolding wrote_def by blast
qed

context block_driver
begin

text \<open>One round of the loop that reads.\<close>

lemma read_piece:
  assumes ok: "efs_ok ll_rw contents usable nblocks inos M s" and n: "nblocks \<le> 2 ^ 32" and a: "a \<in> set inos" and t: "tot < len" "unat len \<le> length v"
    and o: "unat off + (unat len - unat tot) \<le> M a * 4096" and mem: "15 \<le> gd_mem (gd_of s)" and m: "m = chunk len tot off"
    and X: "X = map (fbyte (flat contents (gd_of s)) (efs_inode s a)) [unat off ..< unat off + unat m]"
  shows "\<exists>s'. efs_read_loop a tot len off v s = efs_read_loop a (tot + m) len (off + m) (take (unat tot) v @ X @ drop (unat m) (drop (unat tot) v)) s' \<and>
    efs_ok ll_rw contents usable nblocks inos M s' \<and> steps contents inos a M M 13 0 s s'"
proof -
  define k where "k = unat off div 4096"
  let ?D = "flat contents (gd_of s)"
  have um: "unat m = min (unat len - unat tot) (4096 - unat off mod 4096)" using unat_chunk [OF t(1)] by (simp add: m)
  have R: "unat tot < unat len" using t(1) by (simp add: word_less_nat_alt)
  have kM: "k < M a" using o R unfolding k_def by (intro less_mult_imp_div_less) linarith
  obtain s1 where s1: "efs_i_bmap a (int k) False s = Some (Inr (bno_of ?D (efs_inode s a) k, s1))"
    "bno_of (flat contents (gd_of s1)) (efs_inode s1 a) = bno_of ?D (efs_inode s a)" "bno_of ?D (efs_inode s a) k \<noteq> 0"
    "efs_ok ll_rw contents usable nblocks inos M s1" "steps contents inos a M M 7 0 s s1"
    using bmap_mapped [OF ok n _ a kM, of False] mem by auto
  let ?b = "bno_of ?D (efs_inode s a) k" and ?D1 = "flat contents (gd_of s1)"
  have q: "unat (off mod BLOCK_SIZE) + unat m \<le> 4096" using um by (simp add: unat_block)
  have own: "?b \<in> set (owned ?D1 (efs_inode s1 a) (M a))" using owned_upt [OF kM, of ?D1 "efs_inode s1 a"] s1(2) by simp
  have vl: "8 \<le> gd_mem (gd_of s1)" "unat m \<le> length (drop (unat tot) v)" using s1(5) mem um t(2) by (simp_all add: steps_def)
  have "map ?D1 [unat ?b * 4096 + unat off mod 4096 ..< unat ?b * 4096 + unat off mod 4096 + unat m] = map (fbyte ?D1 (efs_inode s1 a)) [unat off ..< unat off + unat m]"
    using piece_bytes [of ?b ?D1 "efs_inode s1 a" "unat off" "unat m"] s1(2) q by (simp add: k_def unat_block)
  also have "\<dots> = X" unfolding X
  proof (rule map_cong [OF refl])
    fix p assume "p \<in> set [unat off ..< unat off + unat m]"
    moreover have "unat m \<le> unat len - unat tot" using um by simp
    ultimately have "p < M a * 4096" using o by simp
    then have "p div 4096 < M a" by (rule less_mult_imp_div_less)
    then show "fbyte ?D1 (efs_inode s1 a) p = fbyte ?D (efs_inode s a) p" using s1(5) a by (simp add: steps_def)
  qed
  finally obtain s2 where s2: "bd_read ?b (off mod BLOCK_SIZE) m (drop (unat tot) v) s1 = Some (Inr (X @ drop (unat m) (drop (unat tot) v), s2))"
    "efs_ok ll_rw contents usable nblocks inos M s2" "steps contents inos a M M 6 0 s1 s2"
    using bd_read_step [OF s1(4) n q owned_range(1) [OF s1(4) a own] vl, of a] by (auto simp: unat_block)
  have "efs_read_loop a tot len off v s = efs_read_loop a (tot + m) len (off + m) (take (unat tot) v @ X @ drop (unat m) (drop (unat tot) v)) s2"
    using t(1) s1(1,3) s2(1) by (subst efs_read_loop.simps) (simp add: uint_div k_def m [symmetric] Let_def)
  then show ?thesis using s2(2) steps_trans [OF s1(5) s2(3)] by auto
qed

lemma read_loop:
  assumes "efs_ok ll_rw contents usable nblocks inos M s" "nblocks \<le> 2 ^ 32" "a \<in> set inos" "tot \<le> len" "unat len \<le> length v"
    "unat off + (unat len - unat tot) \<le> M a * 4096" "unat off + (unat len - unat tot) < 2 ^ 32" "13 * chunks (unat off) (unat len - unat tot) + 2 \<le> gd_mem (gd_of s)"
  shows "\<exists>s'. efs_read_loop a tot len off v s = Some (Inr (len, take (unat tot) v @
      map (fbyte (flat contents (gd_of s)) (efs_inode s a)) [unat off ..< unat off + (unat len - unat tot)] @ drop (unat len) v, s')) \<and>
    efs_ok ll_rw contents usable nblocks inos M s' \<and> steps contents inos a M M (13 * chunks (unat off) (unat len - unat tot)) 0 s s'"
  using assms
proof (induction "unat len - unat tot" arbitrary: tot off v s rule: less_induct)
  case less
  show ?case
  proof (cases "tot < len")
    case False
    then have "tot = len" using less.prems(4) by simp
    then show ?thesis using less.prems(1) steps_refl by (subst efs_read_loop.simps) (simp add: chunks_def steps_refl)
  next
    case True
    define R where "R = unat len - unat tot"
    define m where "m = chunk len tot off"
    let ?f = "fbyte (flat contents (gd_of s)) (efs_inode s a)"
    define X where "X = map ?f [unat off ..< unat off + unat m]"
    have R: "0 < R" using True by (simp add: R_def word_less_nat_alt)
    have um: "unat m = min R (4096 - unat off mod 4096)" using unat_chunk [OF True] by (simp add: m_def R_def)
    have mR: "0 < unat m" "unat m \<le> R" using R um by (simp_all add: min_def)
    note c = chunks_step [OF R um]
    have "15 \<le> gd_mem (gd_of s)" using less.prems(8) c by (simp add: R_def)
    from read_piece [OF less.prems(1-3) True less.prems(5,6) this m_def X_def] obtain s2 where
      s2: "efs_read_loop a tot len off v s = efs_read_loop a (tot + m) len (off + m) (take (unat tot) v @ X @ drop (unat m) (drop (unat tot) v)) s2"
      "efs_ok ll_rw contents usable nblocks inos M s2" "steps contents inos a M M 13 0 s s2" by blast
    define v' where "v' = take (unat tot) v @ X @ drop (unat m) (drop (unat tot) v)"
    have ut: "unat (tot + m) = unat tot + unat m" "unat (off + m) = unat off + unat m"
      using less.prems(7) mR(2) unat_less_width [of len] True by (auto intro!: unat_add_le simp: R_def word_less_nat_alt)
    have v': "take (unat tot + unat m) v' = take (unat tot) v @ X" "drop (unat len) v' = drop (unat len) v" "length v' = length v"
      using replace_piece [of "unat tot" X "unat len" v] mR(2) True less.prems(5) by (simp_all add: v'_def X_def R_def word_less_nat_alt)
    have rem: "unat len - (unat tot + unat m) = R - unat m" by (simp add: R_def)
    have IH: "\<exists>s'. efs_read_loop a (tot + m) len (off + m) v' s2 = Some (Inr (len, take (unat (tot + m)) v' @
        map (fbyte (flat contents (gd_of s2)) (efs_inode s2 a)) [unat (off + m) ..< unat (off + m) + (unat len - unat (tot + m))] @ drop (unat len) v', s')) \<and>
      efs_ok ll_rw contents usable nblocks inos M s' \<and> steps contents inos a M M (13 * chunks (unat (off + m)) (unat len - unat (tot + m))) 0 s2 s'"
      using mR True less.prems(5-8) c s2(3) by (intro less.hyps [OF _ s2(2) less.prems(2,3)]) (auto simp: ut v'(3) R_def steps_def word_le_nat_alt word_less_nat_alt)
    have "map (fbyte (flat contents (gd_of s2)) (efs_inode s2 a)) [unat off + unat m ..< unat off + R] = map ?f [unat off + unat m ..< unat off + R]"
    proof (rule map_cong [OF refl])
      fix p assume "p \<in> set [unat off + unat m ..< unat off + R]"
      then have "p < M a * 4096" using less.prems(6) unfolding R_def by simp
      then have "p div 4096 < M a" by (rule less_mult_imp_div_less)
      then show "fbyte (flat contents (gd_of s2)) (efs_inode s2 a) p = ?f p" using s2(3) less.prems(3) by (simp add: steps_def)
    qed
    then have "(take (unat tot) v @ X) @ map (fbyte (flat contents (gd_of s2)) (efs_inode s2 a)) [unat off + unat m ..< unat off + R] =
        take (unat tot) v @ map ?f [unat off ..< unat off + R]"
      unfolding X_def using upt_add_eq_append [of "unat off" "unat off + unat m" "R - unat m"] mR(2) by simp
    with IH obtain s3 where s3: "efs_read_loop a (tot + m) len (off + m) v' s2 = Some (Inr (len, take (unat tot) v @ map ?f [unat off ..< unat off + R] @ drop (unat len) v, s3))"
      "efs_ok ll_rw contents usable nblocks inos M s3" "steps contents inos a M M (13 * chunks (unat off + unat m) (R - unat m)) 0 s2 s3"
      using mR(2) by (auto simp: ut rem v' append_assoc [symmetric] simp del: append_assoc)
    show ?thesis using s3(1,2) s2(1) steps_trans [OF s2(3) s3(3)] c unfolding R_def [symmetric] v'_def by auto
  qed
qed

text \<open>The loop that writes: bytes \<open>lo\<close> up to \<open>hi\<close> of the file \<open>a\<close> become those of \<open>d\<close>, and nothing else changes.\<close>

lemma bmap_any:
  assumes ok: "efs_ok ll_rw contents usable nblocks inos M s" and n: "nblocks \<le> 2 ^ 32" and a: "a \<in> set inos" and m: "9 \<le> gd_mem (gd_of s)" "2 \<le> room (bmap s)"
    and k: "k \<le> M a" "k < MAXFILE"
  shows "\<exists>b s'. efs_i_bmap a (int k) True s = Some (Inr (b, s')) \<and> b \<noteq> 0 \<and> bno_of (flat contents (gd_of s')) (efs_inode s' a) k = b \<and>
    efs_ok ll_rw contents usable nblocks inos (M(a := max (M a) (k + 1))) s' \<and> steps contents inos a M (M(a := max (M a) (k + 1))) 7 2 s s'"
proof (cases "k < M a")
  case True
  then have e: "M(a := max (M a) (k + 1)) = M" by (auto simp: max_def)
  from bmap_mapped [OF ok n m(1) a True, of True] obtain s' where "efs_i_bmap a (int k) True s = Some (Inr (bno_of (flat contents (gd_of s)) (efs_inode s a) k, s'))"
    "bno_of (flat contents (gd_of s')) (efs_inode s' a) = bno_of (flat contents (gd_of s)) (efs_inode s a)" "bno_of (flat contents (gd_of s)) (efs_inode s a) k \<noteq> 0"
    "efs_ok ll_rw contents usable nblocks inos M s'" "steps contents inos a M M 7 0 s s'" by blast
  then show ?thesis unfolding e using steps_weaken [of contents inos a M M 7 0 s s' 7 2] by auto
next
  case False
  then have e: "k = M a" "max (M a) (k + 1) = M a + 1" using k(1) by simp_all
  show ?thesis unfolding e(2) using bmap_next [OF ok n m a] k(2) e(1) by blast
qed

lemma write_piece:
  assumes ok: "efs_ok ll_rw contents usable nblocks inos M s" and n: "nblocks \<le> 2 ^ 32" and a: "a \<in> set inos" and t: "tot < len" "unat len \<le> length v"
    and o: "unat off \<le> M a * 4096" "unat off + (unat len - unat tot) < MAXFILE * 4096" and mem: "15 \<le> gd_mem (gd_of s)" "2 \<le> room (bmap s)" and m: "m = chunk len tot off"
    and M1: "M1 = M(a := max (M a) (unat off div 4096 + 1))"
  shows "\<exists>s'. efs_write_loop a tot len off v s = efs_write_loop a (tot + m) len (off + m) v s' \<and> efs_ok ll_rw contents usable nblocks inos M1 s' \<and>
    wrote contents inos a M M1 (unat off) (unat off + unat m) (\<lambda>p. v ! (unat tot + (p - unat off))) 13 2 s s'"
proof -
  define k where "k = unat off div 4096"
  have um: "unat m = min (unat len - unat tot) (4096 - unat off mod 4096)" using unat_chunk [OF t(1)] by (simp add: m)
  have k: "k \<le> M a" "k < MAXFILE" using o by (auto simp: k_def less_mult_imp_div_less div_le_mono [of _ "M a * 4096" 4096, simplified])
  have M1k: "M1 = M(a := max (M a) (k + 1))" by (simp add: M1 k_def)
  obtain b s1 where s1: "efs_i_bmap a (int k) True s = Some (Inr (b, s1))" "b \<noteq> 0" "b = bno_of (flat contents (gd_of s1)) (efs_inode s1 a) k"
    "efs_ok ll_rw contents usable nblocks inos M1 s1" "steps contents inos a M M1 7 2 s s1"
    using bmap_any [OF ok n a _ mem(2) k] mem(1) unfolding M1k by auto
  have q: "unat (off mod BLOCK_SIZE) + unat m \<le> 4096" "unat m \<le> 4096 - unat off mod 4096" using um by (simp_all add: unat_block)
  have vl: "8 \<le> gd_mem (gd_of s1)" "unat m \<le> length (drop (unat tot) v)" using s1(5) mem(1) um t(2) by (simp_all add: steps_def)
  have kM: "k < M1 a" by (simp add: M1k)
  have off: "k * 4096 + unat (off mod BLOCK_SIZE) = unat off" by (simp add: k_def unat_block)
  obtain s2 where s2: "bd_write b (off mod BLOCK_SIZE) m (drop (unat tot) v) s1 = Some (Inr s2)" "efs_ok ll_rw contents usable nblocks inos M1 s2" "grown a s1 s2"
    "efs_inode s2 = efs_inode s1" "bmap s2 = bmap s1" "gd_mem (gd_of s1) \<le> gd_mem (gd_of s2) + 6"
    "\<And>x p. x \<in> set inos \<Longrightarrow> p div 4096 < M1 x \<Longrightarrow> fbyte (flat contents (gd_of s2)) (efs_inode s1 x) p =
      (if x = a \<and> unat off \<le> p \<and> p < unat off + unat m then drop (unat tot) v ! (p - unat off) else fbyte (flat contents (gd_of s1)) (efs_inode s1 x) p)"
    using bd_write_step [OF s1(4) n q(1) vl a kM s1(3)] unfolding off by blast
  have hi: "unat off + unat m \<le> M1 a * 4096"
  proof -
    have "unat off + unat m \<le> (k + 1) * 4096" using q(2) mod_less_divisor [of 4096 "unat off"] off unfolding unat_block(2) by simp
    also have "\<dots> \<le> M1 a * 4096" by (rule mult_le_mono1) (simp add: M1k)
    finally show ?thesis .
  qed
  have "wrote contents inos a M M1 (unat off) (unat off + unat m) (\<lambda>p. v ! (unat tot + (p - unat off))) 13 2 s s2"
    unfolding wrote_def
  proof (intro conjI ballI allI)
    show "grown a s s2" using s1(5) s2(3) grown_trans by (auto simp: steps_def)
    show "M x \<le> M1 x" for x by (simp add: M1k)
    show "gd_mem (gd_of s) \<le> gd_mem (gd_of s2) + 13" "room (bmap s) \<le> room (bmap s2) + 2" using s1(5) s2(5,6) by (auto simp: steps_def)
    fix x p assume x: "x \<in> set inos"
    have "p div 4096 < M1 a" if "p < unat off + unat m" using that hi by (intro less_mult_imp_div_less) linarith
    moreover have "M x \<le> M1 x" by (simp add: M1k)
    moreover have "drop (unat tot) v ! (p - unat off) = v ! (unat tot + (p - unat off))" using t by (simp add: word_less_nat_alt)
    moreover have "p div 4096 < M x \<Longrightarrow> fbyte (flat contents (gd_of s1)) (efs_inode s1 x) p = fbyte (flat contents (gd_of s)) (efs_inode s x) p"
      using s1(5) x by (simp add: steps_def)
    ultimately show "if x = a \<and> unat off \<le> p \<and> p < unat off + unat m then fbyte (flat contents (gd_of s2)) (efs_inode s2 x) p = v ! (unat tot + (p - unat off))
      else p div 4096 < M x \<longrightarrow> fbyte (flat contents (gd_of s2)) (efs_inode s2 x) p = fbyte (flat contents (gd_of s)) (efs_inode s x) p"
      using s2(7) [OF x, of p] s2(4) by auto
  qed (rule hi)
  moreover have "efs_write_loop a tot len off v s = efs_write_loop a (tot + m) len (off + m) v s2"
    using t(1) s1(1,2) s2(1) by (subst efs_write_loop.simps) (simp add: uint_div k_def m [symmetric] Let_def)
  ultimately show ?thesis using s2(2) by blast
qed

lemma write_loop:
  assumes "efs_ok ll_rw contents usable nblocks inos M s" "nblocks \<le> 2 ^ 32" "a \<in> set inos" "tot \<le> len" "unat len \<le> length v" "unat off \<le> M a * 4096"
    "unat off + (unat len - unat tot) < MAXFILE * 4096" "13 * chunks (unat off) (unat len - unat tot) + 2 \<le> gd_mem (gd_of s)" "2 * chunks (unat off) (unat len - unat tot) \<le> room (bmap s)"
    "M' = M(a := max (M a) ((unat off + (unat len - unat tot) + 4095) div 4096))"
  shows "\<exists>s'. efs_write_loop a tot len off v s = Some (Inr (len, off + (len - tot), s')) \<and> efs_ok ll_rw contents usable nblocks inos M' s' \<and>
    wrote contents inos a M M' (unat off) (unat off + (unat len - unat tot)) (\<lambda>p. v ! (unat tot + (p - unat off)))
      (13 * chunks (unat off) (unat len - unat tot)) (2 * chunks (unat off) (unat len - unat tot)) s s'"
  using assms
proof (induction "unat len - unat tot" arbitrary: tot off s M rule: less_induct)
  case less
  show ?case
  proof (cases "tot < len")
    case False
    then have e: "tot = len" using less.prems(4) by simp
    have "(unat off + 4095) div 4096 \<le> (M a * 4096 + 4095) div 4096" using less.prems(6) by (intro div_le_mono) simp
    then have "M' = M" using less.prems(10) e by (auto simp: max_def)
    then show ?thesis using less.prems(1,6) e by (subst efs_write_loop.simps) (auto simp: chunks_def wrote_def grown_refl)
  next
    case True
    define R where "R = unat len - unat tot"
    define m where "m = chunk len tot off"
    define M1 where "M1 = M(a := max (M a) (unat off div 4096 + 1))"
    have R: "0 < R" using True by (simp add: R_def word_less_nat_alt)
    have um: "unat m = min R (4096 - unat off mod 4096)" using unat_chunk [OF True] by (simp add: m_def R_def)
    have mR: "0 < unat m" "unat m \<le> R" using R um by (simp_all add: min_def)
    note c = chunks_step [OF R um]
    have "15 \<le> gd_mem (gd_of s)" "2 \<le> room (bmap s)" using less.prems(8,9) c by (simp_all add: R_def)
    from write_piece [OF less.prems(1-3) True less.prems(5-7) this m_def M1_def] obtain s2 where
      s2: "efs_write_loop a tot len off v s = efs_write_loop a (tot + m) len (off + m) v s2" "efs_ok ll_rw contents usable nblocks inos M1 s2"
      "wrote contents inos a M M1 (unat off) (unat off + unat m) (\<lambda>p. v ! (unat tot + (p - unat off))) 13 2 s s2" by blast
    have ut: "unat (tot + m) = unat tot + unat m" "unat (off + m) = unat off + unat m"
      using less.prems(7) mR(2) unat_less_width [of len] True by (auto intro!: unat_add_le simp: R_def word_less_nat_alt n_defs)
    have rem: "unat len - (unat tot + unat m) = R - unat m" "unat off + unat m + (R - unat m) = unat off + R" using mR(2) by (simp_all add: R_def)
    have "unat off + 4096 \<le> unat off + R + 4095" using R by simp
    then have "(unat off + 4096) div 4096 \<le> (unat off + R + 4095) div 4096" by (rule div_le_mono)
    then have M': "M' = M1(a := max (M1 a) ((unat (off + m) + (unat len - unat (tot + m)) + 4095) div 4096))"
      using less.prems(10) unfolding ut rem M1_def R_def [symmetric] by (auto simp: max_def)
    have "13 * chunks (unat (off + m)) (unat len - unat (tot + m)) + 2 \<le> gd_mem (gd_of s2)" "2 * chunks (unat (off + m)) (unat len - unat (tot + m)) \<le> room (bmap s2)"
      using less.prems(8,9) c s2(3) unfolding ut rem by (auto simp: wrote_def R_def)
    moreover have "unat (off + m) \<le> M1 a * 4096" using s2(3) unfolding ut wrote_def by blast
    moreover have "unat (off + m) + (unat len - unat (tot + m)) < MAXFILE * 4096" using less.prems(7) unfolding ut rem by (simp add: R_def)
    moreover have "unat len - unat (tot + m) < unat len - unat tot" "tot + m \<le> len" using mR R by (auto simp: ut R_def word_le_nat_alt)
    ultimately obtain s3 where s3: "efs_write_loop a (tot + m) len (off + m) v s2 = Some (Inr (len, off + m + (len - (tot + m)), s3))" "efs_ok ll_rw contents usable nblocks inos M' s3"
      "wrote contents inos a M1 M' (unat off + unat m) (unat off + R) (\<lambda>p. v ! (unat tot + unat m + (p - (unat off + unat m))))
        (13 * chunks (unat off + unat m) (R - unat m)) (2 * chunks (unat off + unat m) (R - unat m)) s2 s3"
      using less.hyps [OF _ s2(2) less.prems(2,3) _ less.prems(5) _ _ _ _ M'] unfolding ut rem by blast
    have "wrote contents inos a M1 M' (unat off + unat m) (unat off + R) (\<lambda>p. v ! (unat tot + (p - unat off)))
        (13 * chunks (unat off + unat m) (R - unat m)) (2 * chunks (unat off + unat m) (R - unat m)) s2 s3"
      using s3(3) unfolding wrote_def by (auto simp: Let_def split: if_splits)
    from wrote_trans [OF s2(3) this] mR(2) c s2(1) s3(1,2) show ?thesis unfolding R_def [symmetric] by (auto simp: algebra_simps)
  qed
qed

end

section \<open>Files\<close>

definition fsize :: "'d efs \<Rightarrow> addr \<Rightarrow> nat" where
  "fsize s a = unat (i_size (i_di (efs_inode s a)))"

definition blks :: "nat \<Rightarrow> nat" where
  "blks sz = (sz + 4095) div 4096"

definition file_of :: "('d \<Rightarrow> u32 \<Rightarrow> page_data) \<Rightarrow> 'd efs \<Rightarrow> addr \<Rightarrow> u8 list" where
  "file_of C s a = map (fbyte (flat C (gd_of s)) (efs_inode s a)) [0..<fsize s a]"

definition files_ok :: "'d driver \<Rightarrow> ('d \<Rightarrow> u32 \<Rightarrow> page_data) \<Rightarrow> ('d \<Rightarrow> bool) \<Rightarrow> nat \<Rightarrow> addr list \<Rightarrow> 'd efs \<Rightarrow> bool" where
  "files_ok ll_rw C usable n inos s = (efs_ok ll_rw C usable n inos (\<lambda>a. blks (fsize s a)) s \<and> distinct inos \<and>
    (\<forall>a\<in>set inos. \<not> i_slock (efs_inode s a) \<and> a < efs_next s) \<and> bm_ok (imap s) \<and> bm_size (imap s) \<le> 2 ^ 31 \<and> 0 < ht_size (s_ihash s) \<and>
    length (ht_heads (s_ihash s)) = nat (ht_size (s_ihash s)))"

lemma blks_max: "blks (max x y) = max (blks x) (blks y)"
  by (cases "x \<le> y") (simp_all add: blks_def max_def div_le_mono antisym)

lemma blks_le: "x \<le> blks x * 4096"
proof -
  have "(x + 4095) mod 4096 \<le> 4095" by (simp add: less_Suc_eq_le [symmetric])
  then show ?thesis using div_mult_mod_eq [of "x + 4095" 4096] by (simp add: blks_def)
qed

lemma blks_byte: "p < x \<Longrightarrow> p div 4096 < blks x"
  using blks_le [of x] by (intro less_mult_imp_div_less) simp

lemma length_file [simp]: "length (file_of C s a) = fsize s a"
  by (simp add: file_of_def)

text \<open>The other members of an inode do not matter for its blocks.\<close>

lemma bno_cong:
  assumes "i_addrs (i_di m') = i_addrs (i_di m)" "i_indir m' = i_indir m"
  shows "bno_of D m' = bno_of D m" "mapped D m' k = mapped D m k" "owned D m' k = owned D m k" "fbyte D m' = fbyte D m"
proof -
  show b: "bno_of D m' = bno_of D m" using assms by (simp add: bno_of_def indir_def fun_eq_iff split: option.split)
  show "mapped D m' k = mapped D m k" "owned D m' k = owned D m k" "fbyte D m' = fbyte D m" unfolding mapped_def owned_def fbyte_def fun_eq_iff b assms by simp_all
qed

lemma fs_map_ino_cong:
  assumes "\<And>x. x \<in> set inos \<Longrightarrow> i_addrs (i_di (ino' x)) = i_addrs (i_di (ino x)) \<and> i_indir (ino' x) = i_indir (ino x)"
  shows "fs_map D ino' bm area inos M = fs_map D ino bm area inos M"
proof -
  have "owned D (ino' x) k = owned D (ino x) k" "mapped D (ino' x) k = mapped D (ino x) k" if "x \<in> set inos" for x k
    using assms [OF that] bno_cong by blast+
  then show ?thesis unfolding fs_map_def by simp
qed

lemma fs_map_M_cong: "(\<And>x. x \<in> set inos \<Longrightarrow> M' x = M x) \<Longrightarrow> fs_map D ino bm area inos M' = fs_map D ino bm area inos M"
  unfolding fs_map_def by simp

lemma efs_ok_cong:
  assumes "efs_ok ll_rw C usable n inos M s" "bd_ll_rw (efs_bd s') = bd_ll_rw (efs_bd s)" "gd_of s' = gd_of s" "bmap s' = bmap s" "block_area_start (s_ds s') = block_area_start (s_ds s)"
    "\<And>x. x \<in> set inos \<Longrightarrow> i_addrs (i_di (efs_inode s' x)) = i_addrs (i_di (efs_inode s x)) \<and> i_indir (efs_inode s' x) = i_indir (efs_inode s x)"
    "\<And>x. x \<in> set inos \<Longrightarrow> M' x = M x"
  shows "efs_ok ll_rw C usable n inos M' s'" "x \<in> set inos \<Longrightarrow> fbyte (flat C (gd_of s')) (efs_inode s' x) = fbyte (flat C (gd_of s)) (efs_inode s x)"
proof -
  show "efs_ok ll_rw C usable n inos M' s'"
    using assms(1-5) fs_map_ino_cong [OF assms(6)] fs_map_M_cong [OF assms(7)] by (simp add: efs_ok_def)
  show "x \<in> set inos \<Longrightarrow> fbyte (flat C (gd_of s')) (efs_inode s' x) = fbyte (flat C (gd_of s)) (efs_inode s x)"
    using assms(3,6) bno_cong(4) by metis
qed

lemma grown_parts:
  assumes "grown a s s'"
  shows "fsize s' x = fsize s x" "i_slock (efs_inode s' x) = i_slock (efs_inode s x)" "imap s' = imap s" "s_ihash s' = s_ihash s" "efs_next s \<le> efs_next s'"
    "s_idirty_list s' = s_idirty_list s"
  using bare_eq [OF grown_bare [OF assms, of x]] assms by (auto simp: grown_def fixed_part_def fsize_def)

lemma splice_eq:
  assumes "o' \<le> length x" "length y = max (length x) (o' + length d)" "\<And>i. i < length y \<Longrightarrow> y ! i = (if o' \<le> i \<and> i < o' + length d then d ! (i - o') else x ! i)"
  shows "y = take o' x @ d @ drop (o' + length d) x"
  using assms by (intro nth_equalityI) (auto simp: nth_append)

lemma u32_wraps: "((off :: u32) + len < off) = (\<not> unat off + unat len < 2 ^ 32)"
proof (cases "unat off + unat len < 2 ^ 32")
  case False
  then have "unat (off + len) = unat off + unat len - 2 ^ 32" using unat_less_width [of off] unat_less_width [of len] by (simp add: unat_word_ariths(1) mod_if)
  then show ?thesis using False unat_less_width [of len] by (simp add: word_less_nat_alt)
qed (simp add: unat_add_le word_less_nat_alt)

lemma sint_small: "unat (w :: u32) < 2 ^ 31 \<Longrightarrow> sint w = int (unat w)"
proof -
  assume "unat w < 2 ^ 31"
  then have "uint w < 2 ^ 31" unfolding uint_nat of_nat_less_iff [where 'a = int, symmetric] by (simp only: of_nat_power of_nat_numeral)
  then have "signed_take_bit 31 (uint w) = uint w" using uint_ge_0 [of w] by (intro signed_take_bit_int_eq_self) linarith+
  then show ?thesis by (simp add: sint_uint)
qed

lemma file_size_bound:
  assumes "efs_ok ll_rw C usable n inos M s" "a \<in> set inos" "sz \<le> M a * 4096"
  shows "sz < 2 ^ 31"
proof -
  have "M a \<le> MAXFILE" using efs_ok_inode(1) [OF assms(1,2)] by (simp add: mapped_def)
  then have "M a * 4096 \<le> MAXFILE * 4096" by (rule mult_le_mono1)
  then show ?thesis using assms(3) by (simp add: n_defs)
qed

text \<open>Taking and releasing the sleep lock around a transfer.\<close>

lemma lock_ok:
  assumes ok: "files_ok ll_rw C usable n inos s" and a: "a \<in> set inos" and s1: "s1 = upd_inode a (\<lambda>m. m\<lparr>i_slock := True\<rparr>) s"
  shows "i_lock a s = Some (Inr s1)" "efs_ok ll_rw C usable n inos (\<lambda>a. blks (fsize s a)) s1" "fsize s1 = fsize s"
    "x \<in> set inos \<Longrightarrow> fbyte (flat C (gd_of s1)) (efs_inode s1 x) = fbyte (flat C (gd_of s)) (efs_inode s x)"
proof -
  have ok0: "efs_ok ll_rw C usable n inos (\<lambda>a. blks (fsize s a)) s" "\<not> i_slock (efs_inode s a)" using ok a by (simp_all add: files_ok_def)
  show "efs_ok ll_rw C usable n inos (\<lambda>a. blks (fsize s a)) s1"
    "x \<in> set inos \<Longrightarrow> fbyte (flat C (gd_of s1)) (efs_inode s1 x) = fbyte (flat C (gd_of s)) (efs_inode s x)"
    by (rule efs_ok_cong [OF ok0(1), where M' = "\<lambda>a. blks (fsize s a)"]; simp add: s1)+
  show "i_lock a s = Some (Inr s1)" using ok0(2) by (simp add: i_lock_def s1)
  show "fsize s1 = fsize s" by (simp add: s1 fsize_def fun_eq_iff)
qed

text \<open>The end of a transfer from the locked state: only the size and the flags of the inode may change, and the block map fits the size.\<close>

lemma unlock_ok:
  assumes ok: "files_ok ll_rw C usable n inos s" and s1: "s1 = upd_inode a (\<lambda>m. m\<lparr>i_slock := True\<rparr>) s" and g: "grown a s1 s2"
    and ok2: "efs_ok ll_rw C usable n inos M2 s2"
    and s3: "efs_bd s3 = efs_bd s2" "bmap s3 = bmap s2" "s_ds s3 = s_ds s2" "imap s3 = imap s2" "s_ihash s3 = s_ihash s2" "efs_next s3 = efs_next s2"
      "\<And>x. i_addrs (i_di (efs_inode s3 x)) = i_addrs (i_di (efs_inode s2 x)) \<and> i_indir (efs_inode s3 x) = i_indir (efs_inode s2 x) \<and>
        i_slock (efs_inode s3 x) = (x \<noteq> a \<and> i_slock (efs_inode s2 x))"
      "\<And>x. x \<in> set inos \<Longrightarrow> M2 x = blks (fsize s3 x)"
  shows "files_ok ll_rw C usable n inos s3" "x \<in> set inos \<Longrightarrow> fbyte (flat C (gd_of s3)) (efs_inode s3 x) = fbyte (flat C (gd_of s2)) (efs_inode s2 x)"
proof -
  note gp = grown_parts [OF g]
  have gd: "gd_of s3 = gd_of s2" using s3(1) by (simp add: gd_of_def)
  have c: "efs_ok ll_rw C usable n inos (\<lambda>a. blks (fsize s3 a)) s3" "\<And>x. x \<in> set inos \<Longrightarrow> fbyte (flat C (gd_of s3)) (efs_inode s3 x) = fbyte (flat C (gd_of s2)) (efs_inode s2 x)"
    by (rule efs_ok_cong [OF ok2, where M' = "\<lambda>a. blks (fsize s3 a)"]; simp add: gd s3)+
  then show "x \<in> set inos \<Longrightarrow> fbyte (flat C (gd_of s3)) (efs_inode s3 x) = fbyte (flat C (gd_of s2)) (efs_inode s2 x)" by blast
  have "\<not> i_slock (efs_inode s3 x) \<and> x < efs_next s3" if "x \<in> set inos" for x
    using ok that s3(6,7) gp(2,5) by (auto simp: files_ok_def s1 intro: less_le_trans)
  then show "files_ok ll_rw C usable n inos s3" using ok c(1) gp(3,4) s3(4,5) by (simp add: files_ok_def s1)
qed

context block_driver
begin

text \<open>Reading.\<close>

lemma i_read_correct:
  assumes ok: "files_ok ll_rw contents usable nblocks inos s" and n: "nblocks \<le> 2 ^ 32" and a: "a \<in> set inos" and v: "unat len \<le> length v"
    and mem: "13 * (unat len div 4096 + 2) + 2 \<le> gd_mem (gd_of s)"
    and r: "r = (if unat off + unat len < 2 ^ 32 then min (unat len) (fsize s a - unat off) else 0)"
  shows "\<exists>s'. efs_i_read a off len v s = Some (Inr (int r, take r (drop (unat off) (file_of contents s a)) @ drop r v, s')) \<and>
    files_ok ll_rw contents usable nblocks inos s' \<and> (\<forall>x\<in>set inos. file_of contents s' x = file_of contents s x) \<and>
    gd_mem (gd_of s) \<le> gd_mem (gd_of s') + 13 * (unat len div 4096 + 2) \<and> room (bmap s) \<le> room (bmap s') \<and> imap s' = imap s"
proof (cases "unat off < fsize s a \<and> unat off + unat len < 2 ^ 32")
  case False
  have "(i_size (i_di (efs_inode s a)) \<le> off) = (fsize s a \<le> unat off)" by (simp add: fsize_def word_le_nat_alt)
  then have "efs_i_read a off len v s = Some (Inr (0, v, s))" "r = 0" using False r by (auto simp: efs_i_read_def Let_def not_less u32_wraps)
  then show ?thesis using ok by simp
next
  case True
  define sz where "sz = i_size (i_di (efs_inode s a))"
  have sz: "fsize s a = unat sz" by (simp add: fsize_def sz_def)
  define l where "l = (if off + len > sz then sz - off else len)"
  have ul: "unat l = r" using True r unat_add_le [of off len] by (auto simp: l_def sz word_less_nat_alt unat_sub word_le_nat_alt)
  define s1 where "s1 = upd_inode a (\<lambda>m. m\<lparr>i_slock := True\<rparr>) s"
  define M where "M = (\<lambda>a. blks (fsize s a))"
  note lk = lock_ok [OF ok a s1_def, folded M_def]
  have rl: "r \<le> unat len" "unat off + r \<le> fsize s a" using True r by auto
  have ch: "chunks (unat off) r \<le> unat len div 4096 + 2" using chunks_le [of "unat off" r] div_le_mono [OF rl(1), of 4096] by linarith
  have rM: "unat off + r \<le> M a * 4096" using rl(2) blks_le [of "fsize s a"] by (simp add: M_def)
  then obtain s2 where s2: "efs_read_loop a 0 l off v s1 = Some (Inr (l, map (fbyte (flat contents (gd_of s1)) (efs_inode s1 a)) [unat off ..< unat off + r] @ drop r v, s2))"
    "efs_ok ll_rw contents usable nblocks inos M s2" "steps contents inos a M M (13 * chunks (unat off) r) 0 s1 s2"
    using read_loop [OF lk(2) n a, of 0 l v off] v rl True mem ch ul unat_less_width [of sz] by (auto simp: sz s1_def)
  define s3 where "s3 = i_unlock a s2"
  have gr: "grown a s1 s2" using s2(3) by (simp add: steps_def)
  have fs3: "fsize s3 x = fsize s x" for x using grown_parts(1) [OF gr, of x] lk(3) by (auto simp: s3_def i_unlock_def fsize_def)
  have M3: "M x = blks (fsize s3 x)" for x by (simp add: M_def fs3)
  have u: "files_ok ll_rw contents usable nblocks inos s3" "\<And>x. x \<in> set inos \<Longrightarrow> fbyte (flat contents (gd_of s3)) (efs_inode s3 x) = fbyte (flat contents (gd_of s2)) (efs_inode s2 x)"
    by (rule unlock_ok [OF ok s1_def gr s2(2)]; (rule M3 | simp add: s3_def i_unlock_def))+
  have "fbyte (flat contents (gd_of s3)) (efs_inode s3 x) p = fbyte (flat contents (gd_of s)) (efs_inode s x) p" if "x \<in> set inos" "p < fsize s x" for x p
    using u(2) [OF that(1)] lk(4) [OF that(1)] s2(3) that blks_byte [OF that(2)] by (simp add: steps_def M_def)
  then have files: "file_of contents s3 x = file_of contents s x" if "x \<in> set inos" for x using that fs3 by (simp add: file_of_def)
  have "map (fbyte (flat contents (gd_of s1)) (efs_inode s1 a)) [unat off ..< unat off + r] = take r (drop (unat off) (file_of contents s a))"
    using rl(2) lk(4) [OF a] by (simp add: file_of_def drop_map take_map)
  moreover have "sint l = int r" using file_size_bound [OF lk(2) a rM] ul by (subst sint_small) simp_all
  moreover have "efs_i_read a off len v s = Some (Inr (sint l, map (fbyte (flat contents (gd_of s1)) (efs_inode s1 a)) [unat off ..< unat off + r] @ drop r v, s3))"
    using True lk(1) s2(1) unfolding efs_i_read_def Let_def sz_def [symmetric] l_def [symmetric] u32_wraps word_le_nat_alt [of sz] by (simp add: s3_def sz)
  ultimately show ?thesis using u(1) files s2(3) ch grown_parts(3) [OF gr] by (intro exI [of _ s3]) (auto simp: s3_def i_unlock_def s1_def steps_def)
qed

text \<open>Writing.\<close>

lemma i_write_correct:
  assumes ok: "files_ok ll_rw contents usable nblocks inos s" and n: "nblocks \<le> 2 ^ 32" and a: "a \<in> set inos" and v: "unat len \<le> length v" and d: "d = take (unat len) v"
    and mem: "13 * (unat len div 4096 + 2) + 2 \<le> gd_mem (gd_of s)" "2 * (unat len div 4096 + 2) \<le> room (bmap s)"
    and o: "unat off \<le> fsize s a" "unat off + unat len < MAXFILE * 4096"
  shows "\<exists>s'. efs_i_write a off len v s = Some (Inr (int (unat len), s')) \<and> files_ok ll_rw contents usable nblocks inos s' \<and>
    (\<forall>x\<in>set inos. file_of contents s' x = (if x = a then take (unat off) (file_of contents s a) @ d @ drop (unat off + unat len) (file_of contents s a) else file_of contents s x)) \<and>
    gd_mem (gd_of s) \<le> gd_mem (gd_of s') + 13 * (unat len div 4096 + 2) \<and> room (bmap s) \<le> room (bmap s') + 2 * (unat len div 4096 + 2) \<and> imap s' = imap s"
proof -
  define s1 where "s1 = upd_inode a (\<lambda>m. m\<lparr>i_slock := True\<rparr>) s"
  define M where "M = (\<lambda>a. blks (fsize s a))"
  define hi where "hi = unat off + unat len"
  define M' where "M' = M(a := max (M a) (blks hi))"
  note lk = lock_ok [OF ok a s1_def, folded M_def]
  have uo: "unat (off + len) = hi" using o(2) by (simp add: hi_def unat_add_le n_defs)
  have ch: "chunks (unat off) (unat len) \<le> unat len div 4096 + 2" by (rule chunks_le)
  have oM: "unat off \<le> M a * 4096" using o(1) blks_le [of "fsize s a"] by (simp add: M_def)
  obtain s2 where s2: "efs_write_loop a 0 len off v s1 = Some (Inr (len, off + len, s2))" "efs_ok ll_rw contents usable nblocks inos M' s2"
    "wrote contents inos a M M' (unat off) hi (\<lambda>p. v ! (p - unat off)) (13 * chunks (unat off) (unat len)) (2 * chunks (unat off) (unat len)) s1 s2"
    using write_loop [OF lk(2) n a, of 0 len v off M'] v oM o(2) mem ch by (auto simp: M'_def hi_def blks_def s1_def)
  have gr: "grown a s1 s2" using s2(3) by (simp add: wrote_def)
  note gp = grown_parts [OF gr]
  define s3 where "s3 = (if off + len > i_size (i_di (efs_inode s2 a)) then upd_di a (\<lambda>di. di\<lparr>i_size := off + len\<rparr>) s2 else s2)"
  define s4 where "s4 = i_unlock a (efs_i_sdirty a s3)"
  have fs: "fsize s4 x = (if x = a then max (fsize s a) hi else fsize s x)" for x
    using gp(1) [of x] lk(3) uo by (auto simp: s4_def s3_def i_unlock_def efs_i_sdirty_def Let_def fsize_def upd_di_def word_less_nat_alt max_def)
  have M4: "M' x = blks (fsize s4 x)" for x by (simp add: M'_def M_def fs blks_max)
  have u: "files_ok ll_rw contents usable nblocks inos s4" "\<And>x. x \<in> set inos \<Longrightarrow> fbyte (flat contents (gd_of s4)) (efs_inode s4 x) = fbyte (flat contents (gd_of s2)) (efs_inode s2 x)"
    by (rule unlock_ok [OF ok s1_def gr s2(2)]; (rule M4 | simp add: s4_def s3_def i_unlock_def efs_i_sdirty_def upd_di_def Let_def))+
  have byte: "fbyte (flat contents (gd_of s4)) (efs_inode s4 x) p = (if x = a \<and> unat off \<le> p \<and> p < hi then v ! (p - unat off) else fbyte (flat contents (gd_of s)) (efs_inode s x) p)"
    if "x \<in> set inos" "p < fsize s4 x" for x p
  proof -
    have "p < fsize s x" if "\<not> (x = a \<and> unat off \<le> p \<and> p < hi)" using \<open>p < fsize s4 x\<close> that o(1) by (auto simp: fs split: if_splits)
    then show ?thesis using s2(3) that(1) u(2) [OF that(1)] lk(4) [OF that(1)] blks_byte [of p "fsize s x"] by (auto simp: wrote_def M_def split: if_splits)
  qed
  have hv: "hi = unat off + unat len" "length d = unat len" "\<And>i. i < unat len \<Longrightarrow> v ! i = d ! i" using v by (simp_all add: hi_def d)
  have files: "file_of contents s4 x = (if x = a then take (unat off) (file_of contents s a) @ d @ drop (unat off + unat len) (file_of contents s a) else file_of contents s x)"
    if x: "x \<in> set inos" for x
  proof (cases "x = a")
    case True
    have "file_of contents s4 a = take (unat off) (file_of contents s a) @ d @ drop (unat off + length d) (file_of contents s a)"
      using o(1) byte [OF a] hv by (intro splice_eq) (auto simp: file_of_def fs [of a])
    then show ?thesis using True hv(2) by simp
  qed (use byte [OF x] fs in \<open>simp add: file_of_def\<close>)
  have "sint len = int (unat len)" using o(2) by (subst sint_small) (simp_all add: n_defs)
  moreover have "efs_i_write a off len v s = Some (Inr (sint len, s4))"
    using o lk(1) s2(1) uo unfolding efs_i_write_def u32_wraps word_less_nat_alt [of _ off] by (simp add: s4_def s3_def Let_def hi_def fsize_def n_defs)
  ultimately show ?thesis using u(1) files s2(3) ch gp(3)
    by (intro exI [of _ s4]) (auto simp: s4_def s3_def i_unlock_def efs_i_sdirty_def upd_di_def Let_def s1_def wrote_def)
qed

end

section \<open>Creating\<close>

lemma empty_inode:
  assumes "i_addrs (i_di m) = replicate (NDIRECT + 1) 0" "i_indir m = None"
  shows "mapped D m 0" "owned D m 0 = []"
proof -
  have "i_addrs (i_di m) ! k = 0" if "k \<le> NDIRECT" for k unfolding assms(1) using that by (intro nth_replicate) simp
  then show "mapped D m 0" "owned D m 0 = []" using assms by (simp_all add: mapped_def owned_def bno_of_def)
qed

lemma fs_map_new:
  assumes "fs_map D ino bm area inos M" "mapped D (ino a) 0" "owned D (ino a) 0 = []" "M a = 0"
  shows "fs_map D ino bm area (inos @ [a]) M"
  using assms unfolding fs_map_def by auto

lemma upd_inode_again: "upd_inode a f (s\<lparr>efs_inode := (efs_inode s)(a := m)\<rparr>) = s\<lparr>efs_inode := (efs_inode s)(a := f m)\<rparr>"
  by (simp add: upd_inode_def)

lemma new_shape:
  assumes "efs_imap_alloc s = Inr (ino, s1)" "kalloc s1 = (Some a, s2)" "0 < ht_size (s_ihash s2)"
  shows "\<exists>m l d ht. efs_i_new s = Inr (a, s2\<lparr>efs_inode := (efs_inode s2)(a := m), s_ihash := ht, s_ilist := l, s_idirty_list := d\<rparr>) \<and>
    i_addrs (i_di m) = replicate (NDIRECT + 1) 0 \<and> i_indir m = None \<and> \<not> i_slock m \<and> i_size (i_di m) = 0 \<and>
    ht_size ht = ht_size (s_ihash s2) \<and> length (ht_heads ht) = length (ht_heads (s_ihash s2))"
proof -
  let ?t = "\<lambda>m. s2\<lparr>efs_inode := (efs_inode s2)(a := m)\<rparr>"
  define m0 where "m0 = (efs_inode s2 a)\<lparr>i_flags := 0, i_slock := False, i_refcnt := 0, i_indir := None\<rparr>"
  define di where "di = (i_di m0)\<lparr>i_no := ino, i_type := file_type_no F_NONE, i_devno := ucast (bd_dev (efs_bd (?t m0))), i_size := 0,
    i_addrs := replicate (NDIRECT + 1) 0, i_nlink := 1\<rparr>"
  define m where "m = m0\<lparr>i_di := di, i_refcnt := 0, i_flags := SET_FLAG (i_flags (m0\<lparr>i_di := di, i_refcnt := 0\<rparr>)) I_DIRTY\<rparr>"
  define i where "i = nat (uint ino mod ht_size (s_ihash s2))"
  define ht where "ht = (s_ihash s2)\<lparr>ht_heads := (ht_heads (s_ihash s2))[i := a # ht_heads (s_ihash s2) ! i], ht_count := ht_count (s_ihash s2) + 1\<rparr>"
  define d where "d = (if a \<in> set (s_idirty_list s2) then s_idirty_list s2 else a # s_idirty_list s2)"
  have al: "efs_i_alloc s1 = Inr (a, ?t m0)" by (simp add: efs_i_alloc_def assms(2) upd_inode_def m0_def)
  have m: "i_no (i_di m) = ino" "i_addrs (i_di m) = replicate (NDIRECT + 1) 0" "i_indir m = None" "\<not> i_slock m" "i_size (i_di m) = 0"
    by (simp_all add: m_def m0_def di_def)
  have sd: "efs_i_sdirty a (?t (m0\<lparr>i_di := di, i_refcnt := 0\<rparr>)) = (?t m)\<lparr>s_idirty_list := d\<rparr>"
    unfolding efs_i_sdirty_def upd_inode_again m_def [symmetric] Let_def d_def by simp
  have ad: "efs_i_addsb a ((?t m)\<lparr>s_idirty_list := d\<rparr>) = Inr (s2\<lparr>efs_inode := (efs_inode s2)(a := m), s_ihash := ht, s_ilist := a # s_ilist s2, s_idirty_list := d\<rparr>)"
    using assms(3) by (simp add: efs_i_addsb_def hash_add_head_def hash_slot_def m(1) ht_def i_def)
  have "efs_i_new s = Inr (a, s2\<lparr>efs_inode := (efs_inode s2)(a := m), s_ihash := ht, s_ilist := a # s_ilist s2, s_idirty_list := d\<rparr>)"
    by (simp only: efs_i_new_def assms(1) kbind_Inr al upd_di_def upd_inode_again Let_def split_conv di_def [symmetric] sd ad)
  then show ?thesis using m by (intro exI [of _ m] exI [of _ "a # s_ilist s2"] exI [of _ d] exI [of _ ht]) (simp add: ht_def)
qed

lemma new_correct:
  assumes ok: "files_ok ll_rw C usable n inos s" and n: "n \<le> 2 ^ 32" and room: "0 < room (imap s)" "0 < gd_mem (gd_of s)"
  shows "\<exists>a s'. efs_i_new s = Inr (a, s') \<and> a = efs_next s \<and> a \<notin> set inos \<and> files_ok ll_rw C usable n (inos @ [a]) s' \<and> file_of C s' a = [] \<and>
    (\<forall>x\<in>set inos. file_of C s' x = file_of C s x) \<and> gd_mem (gd_of s') = gd_mem (gd_of s) - 1 \<and> bmap s' = bmap s \<and> room (imap s') = room (imap s) - 1"
proof -
  define M where "M = (\<lambda>a. blks (fsize s a))"
  have f: "efs_ok ll_rw C usable n inos M s" "distinct inos" "\<forall>x\<in>set inos. x < efs_next s" "bm_ok (imap s)" "bm_size (imap s) \<le> 2 ^ 31"
    "0 < ht_size (s_ihash s)" "length (ht_heads (s_ihash s)) = nat (ht_size (s_ihash s))" "\<forall>x\<in>set inos. \<not> i_slock (efs_inode s x)"
    using ok by (simp_all add: files_ok_def M_def)
  obtain k bm where k: "bitmap_alloc (imap s) = Inr (int k, bm)" "bm_ok bm" "bm_size bm = bm_size (imap s)" "room bm = room (imap s) - 1"
    using bm_ok_alloc [OF f(4) room(1)] by blast
  define s1 where "s1 = set_s_dirty (s\<lparr>imap := bm, s_ds := (s_ds s)\<lparr>inode_free := inode_free (s_ds s) - 1\<rparr>\<rparr>)"
  have gd1: "gd_of s1 = gd_of s" by (simp add: s1_def set_s_dirty_def gd_of_def)
  have ok1: "efs_ok ll_rw C usable n inos M s1" by (rule efs_ok_cong [OF f(1)]) (simp_all add: gd1, simp_all add: s1_def set_s_dirty_def)
  define a where "a = efs_next s"
  obtain s2 where s2: "kalloc s1 = (Some a, s2)" "efs_ok ll_rw C usable n inos M s2" "steps C inos a M M 1 0 s1 s2" "efs_inode s2 = efs_inode s1"
    "flat C (gd_of s2) = flat C (gd_of s1)" "bmap s2 = bmap s1" "gd_mem (gd_of s2) = gd_mem (gd_of s1) - 1"
    using kalloc_step [OF ok1, of a] room(2) gd1 by (auto simp: a_def s1_def set_s_dirty_def)
  have e2: "efs_next s2 = a + 1" "s_ihash s2 = s_ihash s" "imap s2 = bm"
    using s2(1) room(2) gd1 by (auto simp: kalloc_def Let_def s1_def set_s_dirty_def a_def set_gd_def split: if_splits)
  have a: "a \<notin> set inos" using f(3) by (auto simp: a_def)
  have ia: "efs_imap_alloc s = Inr (of_nat k, s1)" using k(1) by (simp add: efs_imap_alloc_def s1_def)
  have "0 < ht_size (s_ihash s2)" using f(6) e2(2) by simp
  from new_shape [OF ia s2(1) this] obtain m l d ht where m: "efs_i_new s = Inr (a, s2\<lparr>efs_inode := (efs_inode s2)(a := m), s_ihash := ht, s_ilist := l, s_idirty_list := d\<rparr>)"
    "i_addrs (i_di m) = replicate (NDIRECT + 1) 0" "i_indir m = None" "\<not> i_slock m" "i_size (i_di m) = 0" "ht_size ht = ht_size (s_ihash s2)"
    "length (ht_heads ht) = length (ht_heads (s_ihash s2))" by blast
  define s5 where "s5 = s2\<lparr>efs_inode := (efs_inode s2)(a := m), s_ihash := ht, s_ilist := l, s_idirty_list := d\<rparr>"
  have s5: "gd_of s5 = gd_of s2" "bmap s5 = bmap s2" "s_ds s5 = s_ds s2" "imap s5 = imap s2" "efs_next s5 = efs_next s2"
    "bd_ll_rw (efs_bd s5) = bd_ll_rw (efs_bd s2)" "\<And>x. x \<noteq> a \<Longrightarrow> efs_inode s5 x = efs_inode s2 x" "efs_inode s5 a = m" "s_ihash s5 = ht"
    by (simp_all add: s5_def gd_of_def)
  have same2: "efs_inode s5 x = efs_inode s2 x" if "x \<in> set inos" for x using s5(7) [of x] a that by auto
  have same: "efs_inode s5 x = efs_inode s x" if "x \<in> set inos" for x using same2 [OF that] s2(4) by (simp add: s1_def set_s_dirty_def)
  have fs: "fsize s5 x = fsize s x" if "x \<in> set inos" for x using same [OF that] by (simp add: fsize_def)
  have fa: "fsize s5 a = 0" using s5(8) m(5) by (simp add: fsize_def)
  have c: "efs_ok ll_rw C usable n inos (\<lambda>a. blks (fsize s5 a)) s5"
    by (rule efs_ok_cong [OF s2(2)]) (simp_all add: s5(1-6) same2 fs M_def)
  have "fs_map (flat C (gd_of s5)) (efs_inode s5) (bmap s5) (unat (block_area_start (s_ds s5))) (inos @ [a]) (\<lambda>a. blks (fsize s5 a))"
    using c empty_inode [OF m(2,3)] s5(8) fa by (intro fs_map_new) (simp_all add: efs_ok_def blks_def)
  then have "efs_ok ll_rw C usable n (inos @ [a]) (\<lambda>a. blks (fsize s5 a)) s5" using c by (simp add: efs_ok_def)
  then have "files_ok ll_rw C usable n (inos @ [a]) s5"
    using f(2,3,5-8) k(2,3) a s5(4,5,8,9) m(4,6,7) e2 same by (auto simp: files_ok_def a_def)
  moreover have "file_of C s5 x = file_of C s x" if "x \<in> set inos" for x
    using fs [OF that] same [OF that] s5(1) s2(5) gd1 by (simp add: file_of_def)
  ultimately show ?thesis using m(1) s5(1,2,4) a fa s2(6,7) e2(3) k(4) gd1 unfolding s5_def [symmetric] by (intro exI [of _ a] exI [of _ s5]) (simp add: file_of_def s1_def set_s_dirty_def a_def)
qed

section \<open>Runs of the file system\<close>

text \<open>The calls of the file layer on inodes: creating a file, writing and reading at an offset.  Files are numbered in the order of their creation.
  Each call gives the value it returns and, for a read, the buffer, which the caller hands in zeroed.\<close>

datatype eop = ECreate | EWrite nat u32 "u8 list" | ERead nat u32 u32

fun run_eop :: "eop \<Rightarrow> addr list \<Rightarrow> 'd efs \<Rightarrow> ((int \<times> u8 list) \<times> addr list \<times> 'd efs) kres option" where
  "run_eop ECreate inos s = Some (kbind (efs_i_new s) (\<lambda>(a, s'). Inr ((0, []), inos @ [a], s')))"
| "run_eop (EWrite f off d) inos s = iobind (efs_i_write (inos ! f) off (of_nat (length d)) d s) (\<lambda>(r, s'). Some (Inr ((r, []), inos, s')))"
| "run_eop (ERead f off len) inos s = iobind (efs_i_read (inos ! f) off len (replicate (unat len) 0) s) (\<lambda>(r, v, s'). Some (Inr ((r, v), inos, s')))"

fun run_efs :: "eop list \<Rightarrow> addr list \<Rightarrow> 'd efs \<Rightarrow> ((int \<times> u8 list) list \<times> addr list \<times> 'd efs) kres option" where
  "run_efs [] inos s = Some (Inr ([], inos, s))"
| "run_efs (e # es) inos s = iobind (run_eop e inos s) (\<lambda>(x, inos1, s1). iobind (run_efs es inos1 s1) (\<lambda>(xs, inos2, s2). Some (Inr (x # xs, inos2, s2))))"

text \<open>The contract: a list of byte strings.\<close>

fun eop_spec :: "eop \<Rightarrow> u8 list list \<Rightarrow> (int \<times> u8 list) \<times> u8 list list" where
  "eop_spec ECreate fs = ((0, []), fs @ [[]])"
| "eop_spec (EWrite f off d) fs = (let x = fs ! f; o' = unat off in
    if length x < o' \<or> o' + length d \<ge> 2 ^ 32 then ((0, []), fs)
    else if o' + length d \<ge> MAXFILE * 4096 then ((-1, []), fs)
    else ((int (length d), []), fs[f := take o' x @ d @ drop (o' + length d) x]))"
| "eop_spec (ERead f off len) fs = (let x = fs ! f; o' = unat off; r = (if o' + unat len < 2 ^ 32 then min (unat len) (length x - o') else 0) in
    ((int r, take r (drop o' x) @ replicate (unat len - r) 0), fs))"

fun efs_spec :: "eop list \<Rightarrow> u8 list list \<Rightarrow> (int \<times> u8 list) list \<times> u8 list list" where
  "efs_spec [] fs = ([], fs)"
| "efs_spec (e # es) fs = (let (x, fs1) = eop_spec e fs; (xs, fs2) = efs_spec es fs1 in (x # xs, fs2))"

fun efs_ops_ok :: "nat \<Rightarrow> eop list \<Rightarrow> bool" where
  "efs_ops_ok k [] = True"
| "efs_ops_ok k (ECreate # es) = efs_ops_ok (k + 1) es"
| "efs_ops_ok k (EWrite f off d # es) = (f < k \<and> length d < 2 ^ 32 \<and> efs_ops_ok k es)"
| "efs_ops_ok k (ERead f off len # es) = (f < k \<and> efs_ops_ok k es)"

text \<open>What a call may take of the memory, of the data blocks and of the inode numbers.\<close>

fun eop_mem :: "eop \<Rightarrow> nat" where
  "eop_mem ECreate = 1"
| "eop_mem (EWrite f off d) = 13 * (length d div 4096 + 2) + 2"
| "eop_mem (ERead f off len) = 13 * (unat len div 4096 + 2) + 2"

fun eop_blocks :: "eop \<Rightarrow> nat" where
  "eop_blocks (EWrite f off d) = 2 * (length d div 4096 + 2)"
| "eop_blocks _ = 0"

fun eop_inodes :: "eop \<Rightarrow> nat" where
  "eop_inodes ECreate = 1"
| "eop_inodes _ = 0"

lemma write_refused:
  assumes "length d < 2 ^ 32" "fsize s a < unat off \<or> unat off + length d \<ge> 2 ^ 32 \<or> unat off + length d \<ge> MAXFILE * 4096"
  shows "efs_i_write a off (of_nat (length d)) d s = Some (Inr (if fsize s a < unat off \<or> unat off + length d \<ge> 2 ^ 32 then 0 else -1, s))"
proof -
  have l: "unat (of_nat (length d) :: u32) = length d" using assms(1) by (intro unat_of_nat_id) simp
  have "unat (off + of_nat (length d)) = unat off + length d" if "\<not> unat off + length d \<ge> 2 ^ 32" using that l unat_add_le [of off "of_nat (length d)"] by simp
  moreover have "(off + of_nat (length d) < off) = (2 ^ 32 \<le> unat off + length d)" unfolding u32_wraps l by (rule not_less)
  moreover have "(i_size (i_di (efs_inode s a)) < off) = (fsize s a < unat off)" by (simp add: word_less_nat_alt fsize_def)
  ultimately show ?thesis using assms(2) unfolding efs_i_write_def by auto
qed

context block_driver
begin

lemma run_eop_correct:
  assumes ok: "files_ok ll_rw contents usable nblocks inos s" "nblocks \<le> 2 ^ 32" and e: "efs_ops_ok (length inos) (e # es)"
    and b: "eop_mem e \<le> gd_mem (gd_of s)" "eop_blocks e \<le> room (bmap s)" "eop_inodes e \<le> room (imap s)"
    and sp: "eop_spec e (map (file_of contents s) inos) = (x, fs)"
  shows "\<exists>inos' s'. run_eop e inos s = Some (Inr (x, inos', s')) \<and> files_ok ll_rw contents usable nblocks inos' s' \<and> map (file_of contents s') inos' = fs \<and>
    efs_ops_ok (length inos') es \<and> gd_mem (gd_of s) \<le> gd_mem (gd_of s') + eop_mem e \<and> room (bmap s) \<le> room (bmap s') + eop_blocks e \<and>
    room (imap s) \<le> room (imap s') + eop_inodes e"
proof (cases e)
  case ECreate
  obtain a s' where n: "efs_i_new s = Inr (a, s')" "files_ok ll_rw contents usable nblocks (inos @ [a]) s'" "file_of contents s' a = []"
    "\<forall>x\<in>set inos. file_of contents s' x = file_of contents s x" "gd_mem (gd_of s') = gd_mem (gd_of s) - 1" "bmap s' = bmap s" "room (imap s') = room (imap s) - 1"
    using new_correct [OF ok] b ECreate by auto
  then show ?thesis using sp e b ECreate by (intro exI [of _ "inos @ [a]"] exI [of _ s']) auto
next
  case (ERead f off len)
  let ?a = "inos ! f"
  have f: "f < length inos" "?a \<in> set inos" using e ERead by auto
  define r where "r = (if unat off + unat len < 2 ^ 32 then min (unat len) (fsize s ?a - unat off) else 0)"
  have m: "13 * (unat len div 4096 + 2) + 2 \<le> gd_mem (gd_of s)" using b ERead by simp
  have v: "unat len \<le> length (replicate (unat len) (0 :: u8))" by simp
  obtain s' where s': "efs_i_read ?a off len (replicate (unat len) 0) s = Some (Inr (int r, take r (drop (unat off) (file_of contents s ?a)) @ drop r (replicate (unat len) 0), s'))"
    "files_ok ll_rw contents usable nblocks inos s'" "\<forall>x\<in>set inos. file_of contents s' x = file_of contents s x"
    "gd_mem (gd_of s) \<le> gd_mem (gd_of s') + 13 * (unat len div 4096 + 2)" "room (bmap s) \<le> room (bmap s')" "imap s' = imap s"
    using i_read_correct [OF ok f(2) v m r_def] by blast
  then show ?thesis using sp e f ERead by (intro exI [of _ inos] exI [of _ s']) (auto simp: r_def Let_def iobind_def)
next
  case (EWrite f off d)
  let ?a = "inos ! f" and ?len = "of_nat (length d) :: u32"
  have f: "f < length inos" "?a \<in> set inos" "length d < 2 ^ 32" using e EWrite by auto
  have l: "unat ?len = length d" using f(3) by (intro unat_of_nat_id) simp
  show ?thesis
  proof (cases "fsize s ?a < unat off \<or> unat off + length d \<ge> 2 ^ 32 \<or> unat off + length d \<ge> MAXFILE * 4096")
    case True
    then show ?thesis using sp e f(1) EWrite ok(1) write_refused [OF f(3) True]
      by (intro exI [of _ inos] exI [of _ s]) (auto simp: Let_def iobind_def split: if_splits)
  next
    case False
    have m: "13 * (unat ?len div 4096 + 2) + 2 \<le> gd_mem (gd_of s)" "2 * (unat ?len div 4096 + 2) \<le> room (bmap s)" "unat off \<le> fsize s ?a"
      "unat off + unat ?len < MAXFILE * 4096" using b EWrite l False by simp_all
    obtain s' where s': "efs_i_write ?a off ?len d s = Some (Inr (int (length d), s'))" "files_ok ll_rw contents usable nblocks inos s'"
      "\<forall>x\<in>set inos. file_of contents s' x = (if x = ?a then take (unat off) (file_of contents s ?a) @ d @ drop (unat off + length d) (file_of contents s ?a) else file_of contents s x)"
      "gd_mem (gd_of s) \<le> gd_mem (gd_of s') + 13 * (unat ?len div 4096 + 2)" "room (bmap s) \<le> room (bmap s') + 2 * (unat ?len div 4096 + 2)" "imap s' = imap s"
      using i_write_correct [OF ok f(2) _ _ m, of d d] l by auto
    have "distinct inos" using ok(1) by (simp add: files_ok_def)
    then have "map (file_of contents s') inos = fs"
      using s'(3) sp f(1) False EWrite by (intro nth_equalityI) (auto simp: Let_def nth_list_update nth_eq_iff_index_eq)
    then show ?thesis using s' sp e f(1) EWrite False l by (intro exI [of _ inos] exI [of _ s']) (auto simp: Let_def iobind_def)
  qed
qed

lemma run_efs_correct:
  assumes "files_ok ll_rw contents usable nblocks inos s" "nblocks \<le> 2 ^ 32" "efs_ops_ok (length inos) ops"
    "sum_list (map eop_mem ops) \<le> gd_mem (gd_of s)" "sum_list (map eop_blocks ops) \<le> room (bmap s)" "sum_list (map eop_inodes ops) \<le> room (imap s)"
  shows "\<exists>inos' s'. run_efs ops inos s = Some (Inr (fst (efs_spec ops (map (file_of contents s) inos)), inos', s')) \<and>
    files_ok ll_rw contents usable nblocks inos' s' \<and> map (file_of contents s') inos' = snd (efs_spec ops (map (file_of contents s) inos))"
  using assms
proof (induction ops arbitrary: inos s)
  case (Cons e es)
  obtain x fs where sp: "eop_spec e (map (file_of contents s) inos) = (x, fs)" by fastforce
  obtain inos1 s1 where r: "run_eop e inos s = Some (Inr (x, inos1, s1))" "files_ok ll_rw contents usable nblocks inos1 s1" "map (file_of contents s1) inos1 = fs"
    "efs_ops_ok (length inos1) es" "gd_mem (gd_of s) \<le> gd_mem (gd_of s1) + eop_mem e" "room (bmap s) \<le> room (bmap s1) + eop_blocks e" "room (imap s) \<le> room (imap s1) + eop_inodes e"
    using run_eop_correct [OF Cons.prems(1-3) _ _ _ sp] Cons.prems(4-6) by auto
  obtain inos2 s2 where "run_efs es inos1 s1 = Some (Inr (fst (efs_spec es fs), inos2, s2))" "files_ok ll_rw contents usable nblocks inos2 s2"
    "map (file_of contents s2) inos2 = snd (efs_spec es fs)"
    using Cons.IH [OF r(2) Cons.prems(2) r(4)] Cons.prems(4-6) r(3,5-7) by auto
  then show ?case using r(1) sp by (intro exI [of _ inos2] exI [of _ s2]) (simp add: iobind_def split_beta Let_def)
qed simp

end

text \<open>
  C9: Over every driver that transfers whole blocks, any sequence of creating files and of reading and writing them at any offset with any length
  returns, and behaves as on a list of byte strings: a read gives the bytes of the file from the offset to its end or to the length asked for, a write
  replaces or extends the bytes of its file alone, a write behind the end or with a wrapping offset gives 0, and one that reaches the maximal
  size gives -1; no two files ever share a block.  Memory, data blocks and inode numbers must suffice, and free data blocks must hold zeros.
\<close>

theorem efs_files_refine:
  assumes "block_driver ll_rw contents usable nblocks" "nblocks \<le> 2 ^ 32" "files_ok ll_rw contents usable nblocks inos s" "efs_ops_ok (length inos) ops"
    "sum_list (map eop_mem ops) \<le> gd_mem (gd_of s)" "sum_list (map eop_blocks ops) \<le> room (bmap s)" "sum_list (map eop_inodes ops) \<le> room (imap s)"
  shows "\<exists>inos' s'. run_efs ops inos s = Some (Inr (fst (efs_spec ops (map (file_of contents s) inos)), inos', s')) \<and>
    files_ok ll_rw contents usable nblocks inos' s' \<and> map (file_of contents s') inos' = snd (efs_spec ops (map (file_of contents s) inos))"
  by (rule block_driver.run_efs_correct [OF assms(1,3,2,4-7)])

text \<open>Two files on a RAM disk of zeros behind an empty bitmap of 64 blocks.\<close>

definition efs_zero_disk :: "mem gendisk" where
  "efs_zero_disk = mvirt_disk\<lparr>gd_dev := (\<lambda>_. 0), gd_mem := 1000\<rparr>"

definition efs_empty_map :: "nat \<Rightarrow> bitmap" where
  "efs_empty_map w = \<lparr>bm_map = replicate w 0, bm_size = 64 * w, bm_unused = int (64 * w), bm_allocation = 1\<rparr>"

definition efs_fresh :: "'d driver \<Rightarrow> nat \<Rightarrow> 'd gendisk \<Rightarrow> 'd efs" where
  "efs_fresh drv w gd = \<lparr>efs_bd = \<lparr>bd_dev = 0, bd_disk_size = 0, bd_gd = gd, bd_ll_rw = drv, bd_private = 0\<rparr>,
    s_ds = \<lparr>inode_count = 64, inode_free = 63, inode_size = 72, inode_map_start = 0, inode_area_start = 0, block_count = 64, block_free = 63, block_size = 4096,
      block_map_start = 0, block_area_start = 1, sb_name = [], sb_magic = 0\<rparr>,
    s_flags = 0, s_ihash = \<lparr>ht_size = 2, ht_count = 0, ht_heads = [[], []]\<rparr>, s_ilist = [], s_idirty_list = [], imap = efs_empty_map 1, bmap = efs_empty_map w,
    efs_inode = (\<lambda>_. \<lparr>i_di = \<lparr>i_no = 0, i_type = 0, i_devno = 0, i_pad = 0, i_size = 0, i_addrs = [], i_nlink = 0\<rparr>, i_slock = False, i_refcnt = 0, i_flags = 0, i_indir = None\<rparr>),
    efs_stale = (\<lambda>_. 0), efs_next = 2\<rparr>"

lemma efs_empty_map_ok: "bm_ok (efs_empty_map w)" "room (efs_empty_map w) = 64 * w - 1"
proof -
  have "{k. k < bm_size (efs_empty_map w) \<and> \<not> (k = 0 \<or> used (efs_empty_map w) k)} = {1..<64 * w}" by (auto simp: efs_empty_map_def used_def less_mult_imp_div_less mult.commute)
  then show r: "room (efs_empty_map w) = 64 * w - 1" unfolding room_def by simp
  then show "bm_ok (efs_empty_map w)" by (simp add: bm_ok_def bm_wf_def) (simp add: efs_empty_map_def)
qed

lemma efs_fresh_files_ok:
  assumes "disk_ok usable gd" "clean C n gd" "gd_queue gd = []" "\<And>p. flat C gd p = 0" "0 < w" "64 * w \<le> n"
  shows "files_ok drv C usable n [] (efs_fresh drv w gd)"
proof -
  let ?s = "efs_fresh drv w gd"
  have p: "gd_of ?s = gd" "bmap ?s = efs_empty_map w" "imap ?s = efs_empty_map 1" "bd_ll_rw (efs_bd ?s) = drv" "block_area_start (s_ds ?s) = 1"
    "ht_size (s_ihash ?s) = 2" "ht_heads (s_ihash ?s) = [[], []]" by (simp_all add: gd_of_def efs_fresh_def)
  have "bm_size (efs_empty_map u) = 64 * u" for u by (simp add: efs_empty_map_def)
  then show ?thesis using assms efs_empty_map_ok(1) unfolding files_ok_def efs_ok_def fs_map_def p by simp
qed

lemma efs_fresh_ok:
  "\<exists>gd. gendisk_init (Some mvirt_blk_ll_rw) efs_zero_disk = Inr (mvirt_blk_ll_rw, gd) \<and> gd_mem gd = 999 \<and>
    files_ok mvirt_blk_ll_rw mvirt_contents (\<lambda>_. True) 1024 [] (efs_fresh mvirt_blk_ll_rw 1 gd)"
proof -
  obtain gd where g: "gendisk_init (Some mvirt_blk_ll_rw) efs_zero_disk = Inr (mvirt_blk_ll_rw, gd)" "disk_ok (\<lambda>_. True) gd" "clean mvirt_contents 1024 gd"
    "gd_queue gd = []" "gd_mem gd = 999" "\<forall>b. view mvirt_contents gd b = mvirt_contents (\<lambda>_. 0) b"
    using mvirt.gendisk_init_correct [of efs_zero_disk 1024] by (auto simp: efs_zero_disk_def mvirt_disk_def)
  have "flat mvirt_contents gd p = 0" for p using g(6) by (simp add: flat_def mvirt_contents_def)
  then show ?thesis using g(1,5) efs_fresh_files_ok [OF g(2-4), of 1] by simp
qed

lemma efs_fresh_parts: "gd_of (efs_fresh drv w gd) = gd" "bmap (efs_fresh drv w gd) = efs_empty_map w" "imap (efs_fresh drv w gd) = efs_empty_map 1" "efs_next (efs_fresh drv w gd) = 2"
  by (simp_all add: gd_of_def efs_fresh_def)

definition efs_sample :: "eop list" where
  "efs_sample = [ECreate, ECreate, EWrite 0 0 [1, 2, 3], EWrite 1 0 [9], EWrite 0 2 [7, 8], ERead 0 1 5, EWrite 1 2 [5], EWrite 1 0xFFFFFFFF [5, 5]]"

theorem efs_files_refine_witness:
  "\<exists>gd inos s. gendisk_init (Some mvirt_blk_ll_rw) efs_zero_disk = Inr (mvirt_blk_ll_rw, gd) \<and>
    run_efs efs_sample [] (efs_fresh mvirt_blk_ll_rw 1 gd) = Some (Inr ([(0, []), (0, []), (3, []), (1, []), (2, []), (3, [2, 7, 8, 0, 0]), (0, []), (0, [])], inos, s)) \<and>
    map (file_of mvirt_contents s) inos = [[1, 2, 7, 8], [9]]"
proof -
  obtain gd where g: "gendisk_init (Some mvirt_blk_ll_rw) efs_zero_disk = Inr (mvirt_blk_ll_rw, gd)" "gd_mem gd = 999"
    "files_ok mvirt_blk_ll_rw mvirt_contents (\<lambda>_. True) 1024 [] (efs_fresh mvirt_blk_ll_rw 1 gd)" using efs_fresh_ok by blast
  have r2: "replicate 2 (0 :: u8) = [0, 0]" by (simp add: numeral_2_eq_2)
  have sp: "efs_spec efs_sample [] = ([(0, []), (0, []), (3, []), (1, []), (2, []), (3, [2, 7, 8, 0, 0]), (0, []), (0, [])], [[1, 2, 7, 8], [9]])"
    using r2 by (simp add: efs_sample_def n_defs Let_def)
  have "efs_ops_ok (length []) efs_sample" "sum_list (map eop_mem efs_sample) \<le> gd_mem (gd_of (efs_fresh mvirt_blk_ll_rw 1 gd))"
    "sum_list (map eop_blocks efs_sample) \<le> room (bmap (efs_fresh mvirt_blk_ll_rw 1 gd))" "sum_list (map eop_inodes efs_sample) \<le> room (imap (efs_fresh mvirt_blk_ll_rw 1 gd))"
    unfolding efs_fresh_parts efs_empty_map_ok(2) g(2) by (simp_all add: efs_sample_def)
  from efs_files_refine [OF mvirt.block_driver_axioms _ g(3) this] show ?thesis using g(1) sp by auto
qed

end
