(* ===== verification/OpenFile.thy ===== *)
theory OpenFile
  imports EfsRun
begin

text \<open>
  Open files (kernel/file.c) and the table of descriptors of a task (kernel/proc/proc.c) over the inodes of the file system.  A file object is an
  address and 0 is the null pointer; \<open>of_file\<close> holds its contents.  File objects and pages come from the pool of the kernel memory.  Finding an inode
  by its path is the matter of the directories: \<open>file_open\<close> takes the inode that \<open>efs_d_namei\<close> found, or 0.  The buffers of the callers are
  in a byte addressed memory.

  The theorem on runs says what the system calls on descriptors do to the files and to the offsets.
\<close>

section \<open>File objects\<close>

definition FILE_READ :: u32 where "FILE_READ = push_bit 0 1"
definition FILE_WRITE :: u32 where "FILE_WRITE = push_bit 1 1"

definition SEEK_SET :: int where "SEEK_SET = 0"
definition SEEK_CUR :: int where "SEEK_CUR = 1"
definition SEEK_END :: int where "SEEK_END = 2"

definition NOFILE :: nat where "NOFILE = 16"

definition ENOENT :: int where "ENOENT = 2"
definition ENOMEM :: int where "ENOMEM = 12"
definition EMFILE :: int where "EMFILE = 24"

record file_obj =
  f_ref :: atomic
  f_flags :: u32
  f_ip :: addr
  f_off :: u32
  f_mutex :: bool

text \<open>The table \<open>fdt\<close> of a task.\<close>

type_synonym files_struct = "addr list"

record 'd ofs =
  of_efs :: "'d efs"
  of_file :: "addr \<Rightarrow> file_obj"

definition upd_file :: "addr \<Rightarrow> (file_obj \<Rightarrow> file_obj) \<Rightarrow> 'd ofs \<Rightarrow> 'd ofs" where
  "upd_file a g s = s\<lparr>of_file := (of_file s)(a := g (of_file s a))\<rparr>"

text \<open>An object goes back to the pool.\<close>

definition kfree_obj :: "'d efs \<Rightarrow> 'd efs" where
  "kfree_obj e = set_gd ((gd_of e)\<lparr>gd_mem := gd_mem (gd_of e) + 1\<rparr>) e"

definition file_alloc :: "u32 \<Rightarrow> 'd ofs \<Rightarrow> (addr \<times> 'd ofs) kres" where
  "file_alloc flags s = (case kalloc (of_efs s) of
      (None, _) \<Rightarrow> Inl (Fault ''file_alloc'')
    | (Some a, e) \<Rightarrow> Inr (a, upd_file a (\<lambda>_. \<lparr>f_ref = 0, f_flags = flags, f_ip = 0, f_off = 0, f_mutex = False\<rparr>) (s\<lparr>of_efs := e\<rparr>)))"

definition file_free :: "addr \<Rightarrow> 'd ofs \<Rightarrow> 'd ofs kres" where
  "file_free a s = kbind (kassert (a \<noteq> 0) ''file_free'') (\<lambda>_. Inr (s\<lparr>of_efs := kfree_obj (of_efs s)\<rparr>))"

definition file_dup :: "addr \<Rightarrow> 'd ofs \<Rightarrow> 'd ofs kres" where
  "file_dup a s = kbind (kassert (sint (f_ref (of_file s a)) > 0) ''file_dup'') (\<lambda>_.
    Inr (upd_file a (\<lambda>f. f\<lparr>f_ref := atomic_inc (f_ref f)\<rparr>) s))"

definition file_open :: "addr \<Rightarrow> u32 \<Rightarrow> 'd ofs \<Rightarrow> (addr \<times> 'd ofs) kres" where
  "file_open i flags s =
    (if i = 0 then Inr (0, s)
     else kbind (file_alloc flags s) (\<lambda>(a, s1). Inr (a, upd_file a (\<lambda>f. f\<lparr>f_ref := 1, f_ip := i, f_off := 0\<rparr>) s1)))"

definition file_close :: "addr \<Rightarrow> 'd ofs \<Rightarrow> 'd ofs kres" where
  "file_close a s =
    kbind (kassert (sint (f_ref (of_file s a)) > 0) ''file_close'') (\<lambda>_.
    let (last_ref, n) = atomic_dec_and_test (f_ref (of_file s a));
        s1 = upd_file a (\<lambda>f. f\<lparr>f_ref := n\<rparr>) s
    in if last_ref then kbind (efs_i_put (f_ip (of_file s1 a)) (of_efs s1)) (\<lambda>e. file_free a (s1\<lparr>of_efs := e\<rparr>)) else Inr s1)"

definition file_read :: "addr \<Rightarrow> u32 \<Rightarrow> u8 list \<Rightarrow> 'd ofs \<Rightarrow> (int \<times> u8 list \<times> 'd ofs) kres option" where
  "file_read a len v s =
    (let f = of_file s a in
     if TEST_FLAG (f_flags f) FILE_READ = 0 then Some (Inr (-1, v, s))
     else if f_ip f = 0 then Some (Inl (Panic ''file_read f->f_ip''))
     else iobind (efs_i_read (f_ip f) (f_off f) len v (of_efs s)) (\<lambda>(r, v1, e).
       if r \<ge> 0 then Some (Inr (r, v1, upd_file a (\<lambda>f. f\<lparr>f_off := f_off f + of_int r\<rparr>) (s\<lparr>of_efs := e\<rparr>)))
       else Some (Inl (Panic ''file_read r''))))"

definition file_write :: "addr \<Rightarrow> u32 \<Rightarrow> u8 list \<Rightarrow> 'd ofs \<Rightarrow> (int \<times> 'd ofs) kres option" where
  "file_write a len v s =
    (let f = of_file s a in
     if TEST_FLAG (f_flags f) FILE_WRITE = 0 then Some (Inr (-1, s))
     else if f_ip f = 0 then Some (Inl (Panic ''file_write f->f_ip''))
     else iobind (efs_i_write (f_ip f) (f_off f) len v (of_efs s)) (\<lambda>(w, e).
       if w \<ge> 0 then Some (Inr (w, upd_file a (\<lambda>f. f\<lparr>f_off := f_off f + of_int w\<rparr>) (s\<lparr>of_efs := e\<rparr>)))
       else Some (Inl (Panic ''file_write''))))"

text \<open>The comparisons with \<open>efs_i_size\<close> are unsigned, and \<open>new_offset < 0\<close> is never true.\<close>

definition file_llseek :: "addr \<Rightarrow> u32 \<Rightarrow> int \<Rightarrow> 'd ofs \<Rightarrow> (int \<times> 'd ofs) kres" where
  "file_llseek a offset whence s =
    (let f = of_file s a; sz = of_int (efs_i_size (f_ip f) (of_efs s)) :: u32;
         seek = (\<lambda>x. if x > sz then Inr (-1, s) else Inr (0, upd_file a (\<lambda>f. f\<lparr>f_off := x\<rparr>) s)) in
     if f_ip f = 0 then Inl (Panic ''file_llseek f->f_ip'')
     else if whence = SEEK_SET then seek offset
     else if whence = SEEK_CUR then seek (f_off f + offset)
     else if whence = SEEK_END then seek (sz + offset)
     else Inr (-1, s))"

definition file_read_no_off :: "addr \<Rightarrow> u32 \<Rightarrow> u32 \<Rightarrow> u8 list \<Rightarrow> 'd ofs \<Rightarrow> (int \<times> u8 list \<times> 'd ofs) kres option" where
  "file_read_no_off a off len v s =
    (let f = of_file s a; tmp = f_off f in
     if TEST_FLAG (f_flags f) FILE_READ = 0 then Some (Inr (-1, v, s))
     else if f_ip f = 0 then Some (Inl (Panic ''file_read f->f_ip''))
     else iobind (Some (file_llseek a off SEEK_SET s)) (\<lambda>(_, s1).
       iobind (efs_i_read (f_ip f) (f_off (of_file s1 a)) len v (of_efs s1)) (\<lambda>(r, v1, e).
       if r \<ge> 0 then iobind (Some (file_llseek a tmp SEEK_SET (s1\<lparr>of_efs := e\<rparr>))) (\<lambda>(_, s2). Some (Inr (r, v1, s2)))
       else Some (Inl (Panic ''file_read r'')))))"

definition file_lock :: "addr \<Rightarrow> 'd ofs \<Rightarrow> 'd ofs kres option" where
  "file_lock a s = (if f_mutex (of_file s a) then None else Some (Inr (upd_file a (\<lambda>f. f\<lparr>f_mutex := True\<rparr>) s)))"

definition file_unlock :: "addr \<Rightarrow> 'd ofs \<Rightarrow> 'd ofs" where
  "file_unlock a s = upd_file a (\<lambda>f. f\<lparr>f_mutex := False\<rparr>) s"

section \<open>Descriptors\<close>

definition files_init :: files_struct where
  "files_init = replicate NOFILE 0"

fun unused_from :: "nat \<Rightarrow> files_struct \<Rightarrow> int" where
  "unused_from i [] = - EMFILE"
| "unused_from i (f # fs) = (if f = 0 then int i else unused_from (i + 1) fs)"

definition get_unused_fd :: "files_struct \<Rightarrow> int" where
  "get_unused_fd fdt = unused_from 0 fdt"

definition fd_ok :: "int \<Rightarrow> bool" where
  "fd_ok fd = (fd > -1 \<and> fd < int NOFILE)"

definition fd_install :: "int \<Rightarrow> addr \<Rightarrow> files_struct \<Rightarrow> files_struct kres" where
  "fd_install fd f fdt = kbind (kassert (f \<noteq> 0) ''fd_install'') (\<lambda>_.
    kbind (kassert (fd_ok fd) ''fd_install fd'') (\<lambda>_. Inr (fdt[nat fd := f])))"

definition fd_close :: "int \<Rightarrow> files_struct \<Rightarrow> 'd ofs \<Rightarrow> (files_struct \<times> 'd ofs) kres" where
  "fd_close fd fdt s = kbind (kassert (fd_ok fd) ''fd_close fd'') (\<lambda>_.
    if fdt ! nat fd \<noteq> 0 then kbind (file_close (fdt ! nat fd) s) (\<lambda>s1. Inr (fdt[nat fd := 0], s1)) else Inr (fdt, s))"

fun fd_close_all :: "files_struct \<Rightarrow> 'd ofs \<Rightarrow> (files_struct \<times> 'd ofs) kres" where
  "fd_close_all [] s = Inr ([], s)"
| "fd_close_all (f # fs) s = kbind (if f \<noteq> 0 then file_close f s else Inr s) (\<lambda>s1.
    kbind (fd_close_all fs s1) (\<lambda>(fs', s2). Inr (0 # fs', s2)))"

definition do_open :: "addr \<Rightarrow> u32 \<Rightarrow> files_struct \<Rightarrow> 'd ofs \<Rightarrow> (int \<times> files_struct \<times> 'd ofs) kres" where
  "do_open i flags fdt s = kbind (file_open i flags s) (\<lambda>(f, s1).
    if f = 0 then Inr (- ENOENT, fdt, s1)
    else let fd = get_unused_fd fdt in
    if fd = - EMFILE then kbind (file_close f s1) (\<lambda>s2. Inr (- ENOENT, fdt, s2))
    else kbind (fd_install fd f fdt) (\<lambda>fdt1. Inr (fd, fdt1, s1)))"

definition do_close :: "int \<Rightarrow> files_struct \<Rightarrow> 'd ofs \<Rightarrow> (int \<times> files_struct \<times> 'd ofs) kres" where
  "do_close fd fdt s = kbind (kassert (fd_ok fd) ''do_close fd'') (\<lambda>_. kbind (fd_close fd fdt s) (\<lambda>(fdt1, s1). Inr (0, fdt1, s1)))"

definition fget :: "int \<Rightarrow> files_struct \<Rightarrow> 'd ofs \<Rightarrow> (addr \<times> 'd ofs) kres" where
  "fget fd fdt s = kbind (kassert (fd_ok fd) ''fget fd'') (\<lambda>_.
    let f = fdt ! nat fd in
    if f = 0 then Inl (Panic ''fget file NULL'') else kbind (file_dup f s) (\<lambda>s1. Inr (f, s1)))"

definition fput :: "addr \<Rightarrow> 'd ofs \<Rightarrow> 'd ofs kres" where
  "fput f s = kbind (kassert (f \<noteq> 0) ''fput'') (\<lambda>_. file_close f s)"

text \<open>The loop of \<open>copy_files\<close> from entry \<open>i\<close> on: it reads the table \<open>pa_fdt\<close> and stores into the table \<open>ch_fdt\<close>.\<close>

function copy_loop :: "nat \<Rightarrow> files_struct \<Rightarrow> files_struct \<Rightarrow> 'd ofs \<Rightarrow> (files_struct \<times> 'd ofs) kres" where
  "copy_loop i pa_fdt ch_fdt s =
    (if i < NOFILE then
       kbind (if pa_fdt ! i \<noteq> 0 then file_dup (pa_fdt ! i) s else Inr s) (\<lambda>s1.
       copy_loop (i + 1) pa_fdt (ch_fdt[i := pa_fdt ! i]) s1)
     else Inr (ch_fdt, s))"
  by pat_completeness auto
termination
  by (relation "measure (\<lambda>(i, _). NOFILE - i)") auto

declare copy_loop.simps [simp del]

text \<open>Called with the tables of the new task \<open>ch\<close> and of the forking task \<open>pa\<close>, and giving them back; the first two lines of the source
  take \<open>pa_files\<close> from the new task and \<open>ch_files\<close> from the forking one.\<close>

definition copy_files :: "files_struct \<Rightarrow> files_struct \<Rightarrow> 'd ofs \<Rightarrow> (files_struct \<times> files_struct \<times> 'd ofs) kres" where
  "copy_files ch pa s =
    (let pa_fdt = ch; ch_fdt = pa in
     kbind (copy_loop 0 pa_fdt ch_fdt s) (\<lambda>(ch_fdt1, s1). Inr (pa_fdt, ch_fdt1, s1)))"

section \<open>Reading and writing through a descriptor\<close>

definition put_bytes :: "nat \<Rightarrow> u8 list \<Rightarrow> mem \<Rightarrow> mem" where
  "put_bytes p bs m = (\<lambda>q. if p \<le> q \<and> q < p + length bs then bs ! (q - p) else m q)"

definition get_bytes :: "nat \<Rightarrow> nat \<Rightarrow> mem \<Rightarrow> u8 list" where
  "get_bytes p n m = map m [p..<p + n]"

partial_function (option) do_read_loop :: "addr \<Rightarrow> nat \<Rightarrow> int \<Rightarrow> int \<Rightarrow> u8 list \<Rightarrow> mem \<Rightarrow> 'd ofs \<Rightarrow> (int \<times> mem \<times> 'd ofs) kres option" where
  "do_read_loop f ub count tot kbuf um s =
    (if count > 0 then
       Option.bind (file_read f (of_int (min count 4096)) kbuf s) (\<lambda>x. case x of
         Inl e \<Rightarrow> Some (Inl e)
       | Inr q \<Rightarrow>
         if fst q < 0 then Some (Inr (fst q, um, snd (snd q)))
         else if fst q = 0 then Some (Inr (tot, um, snd (snd q)))
         else do_read_loop f (ub + nat (fst q)) (count - fst q) (tot + fst q) (fst (snd q)) (put_bytes ub (take (nat (fst q)) (fst (snd q))) um) (snd (snd q)))
     else Some (Inr (tot, um, s)))"

definition do_read :: "int \<Rightarrow> nat \<Rightarrow> int \<Rightarrow> files_struct \<Rightarrow> mem \<Rightarrow> 'd ofs \<Rightarrow> (int \<times> mem \<times> 'd ofs) kres option" where
  "do_read fd ub count fdt um s =
    (if count = 0 then Some (Inr (0, um, s))
     else if \<not> count > 0 then Some (Inl (Panic ''do_read count''))
     else iobind (Some (fget fd fdt s)) (\<lambda>(f, s1).
       case kalloc (of_efs s1) of
         (None, _) \<Rightarrow> iobind (Some (fput f s1)) (\<lambda>s2. Some (Inr (- ENOMEM, um, s2)))
       | (Some _, e) \<Rightarrow>
         iobind (file_lock f (s1\<lparr>of_efs := e\<rparr>)) (\<lambda>s2.
         iobind (do_read_loop f ub count 0 (replicate 4096 0) um s2) (\<lambda>(tot, um1, s3).
         let s4 = file_unlock f s3; s5 = s4\<lparr>of_efs := kfree_obj (of_efs s4)\<rparr> in
         iobind (Some (fput f s5)) (\<lambda>s6. Some (Inr (tot, um1, s6)))))))"

partial_function (option) do_write_loop :: "addr \<Rightarrow> nat \<Rightarrow> int \<Rightarrow> int \<Rightarrow> u8 list \<Rightarrow> mem \<Rightarrow> 'd ofs \<Rightarrow> (int \<times> 'd ofs) kres option" where
  "do_write_loop f ub count tot kbuf um s =
    (if count > 0 then
       (let n = min count 4096; kb = get_bytes ub (nat n) um @ drop (nat n) kbuf in
        Option.bind (file_write f (of_int n) kb s) (\<lambda>x. case x of
          Inl e \<Rightarrow> Some (Inl e)
        | Inr q \<Rightarrow>
          if fst q < 0 then Some (Inr (fst q, snd q))
          else if fst q = 0 then Some (Inr (tot, snd q))
          else do_write_loop f (ub + nat (fst q)) (count - fst q) (tot + fst q) kb um (snd q)))
     else Some (Inr (tot, s)))"

definition do_write :: "int \<Rightarrow> nat \<Rightarrow> int \<Rightarrow> files_struct \<Rightarrow> mem \<Rightarrow> 'd ofs \<Rightarrow> (int \<times> 'd ofs) kres option" where
  "do_write fd ub count fdt um s =
    (if count = 0 then Some (Inr (0, s))
     else if \<not> count > 0 then Some (Inl (Panic ''do_write count''))
     else iobind (Some (fget fd fdt s)) (\<lambda>(f, s1).
       case kalloc (of_efs s1) of
         (None, _) \<Rightarrow> iobind (Some (fput f s1)) (\<lambda>s2. Some (Inr (- ENOMEM, s2)))
       | (Some _, e) \<Rightarrow>
         iobind (file_lock f (s1\<lparr>of_efs := e\<rparr>)) (\<lambda>s2.
         iobind (do_write_loop f ub count 0 (replicate 4096 0) um s2) (\<lambda>(tot, s3).
         let s4 = file_unlock f s3; s5 = s4\<lparr>of_efs := kfree_obj (of_efs s4)\<rparr> in
         iobind (Some (fput f s5)) (\<lambda>s6. Some (Inr (tot, s6)))))))"

section \<open>Basic facts\<close>

lemma iobind_Inr [simp]: "iobind (Some (Inr x)) f = f x"
  by (simp add: iobind_def)

lemma put_bytes_append: "put_bytes (p + length xs) ys (put_bytes p xs m) = put_bytes p (xs @ ys) m"
  by (auto simp: put_bytes_def fun_eq_iff nth_append)

lemma put_bytes_Nil [simp]: "put_bytes p [] m = m"
  by (auto simp: put_bytes_def fun_eq_iff)

lemma get_put_bytes [simp]: "get_bytes p (length xs) (put_bytes p xs m) = xs"
  by (intro nth_equalityI) (simp_all add: get_bytes_def put_bytes_def)

lemma length_get_bytes [simp]: "length (get_bytes p n m) = n"
  by (simp add: get_bytes_def)

lemma get_bytes_add: "get_bytes p (i + j) m = get_bytes p i m @ get_bytes (p + i) j m"
  by (intro nth_equalityI) (auto simp: get_bytes_def nth_append)

lemma length_splice_end: "p \<le> length x \<Longrightarrow> length (splice p d x) = max (length x) (p + length d)"
  by (simp add: splice_def)

lemma splice_splice_end: "p \<le> length x \<Longrightarrow> splice (p + length d) d' (splice p d x) = splice p (d @ d') x"
  by (simp add: splice_def ac_simps)

lemma splice_Nil [simp]: "splice p [] x = x"
  by (simp add: splice_def)

lemma upd_file_simps [simp]:
  "of_efs (upd_file a g s) = of_efs s" "of_file (upd_file a g s) b = (if b = a then g (of_file s a) else of_file s b)"
  "upd_file a g (upd_file a h s) = upd_file a (g \<circ> h) s" "(upd_file a g s)\<lparr>of_efs := e\<rparr> = upd_file a g (s\<lparr>of_efs := e\<rparr>)"
  by (simp_all add: upd_file_def)

lemma upd_file_id: "g (of_file s a) = of_file s a \<Longrightarrow> upd_file a g s = s"
  by (simp add: upd_file_def)

lemma files_ok_mem:
  assumes "files_ok ll_rw C usable n inos e" "e' = (set_gd ((gd_of e)\<lparr>gd_mem := m\<rparr>) e)\<lparr>efs_next := k\<rparr>" "efs_next e \<le> k"
  shows "files_ok ll_rw C usable n inos e'" "file_of C e' = file_of C e" "fsize e' = fsize e" "gd_mem (gd_of e') = m" "bmap e' = bmap e" "imap e' = imap e"
proof -
  let ?gd = "(gd_of e)\<lparr>gd_mem := m\<rparr>"
  have ok: "efs_ok ll_rw C usable n inos (\<lambda>a. blks (fsize e a)) e" using assms(1) by (simp add: files_ok_def)
  have c: "cache_ok ?gd" "cached ?gd = cached (gd_of e)"
    using efs_ok_parts(2) [OF ok] by (auto intro!: cache_frame [of "gd_of e"] simp: disk_ok_def)
  have v: "flat C ?gd = flat C (gd_of e)" using c(2) by (simp add: flat_def view_def newb_def fun_eq_iff split: option.split)
  have g: "gd_of e' = ?gd" by (simp add: assms(2) gd_of_def set_gd_def)
  show f: "fsize e' = fsize e" by (simp add: assms(2) set_gd_def fsize_def fun_eq_iff)
  have "clean C n ?gd" "disk_ok usable ?gd" using efs_ok_parts(2,3) [OF ok] c(1) by (auto simp: clean_def newb_def disk_ok_def)
  then have "efs_ok ll_rw C usable n inos (\<lambda>a. blks (fsize e a)) e'" using ok v g by (simp add: efs_ok_def) (simp add: assms(2) set_gd_def)
  then show "files_ok ll_rw C usable n inos e'" using assms(1,3) f by (auto simp: files_ok_def) (auto simp: assms(2) set_gd_def)
  have "efs_inode e' = efs_inode e" by (simp add: assms(2) set_gd_def)
  then show "file_of C e' = file_of C e" using f v g by (intro ext) (simp add: file_of_def)
  show "gd_mem (gd_of e') = m" "bmap e' = bmap e" "imap e' = imap e" using g by (simp_all add: assms(2) set_gd_def)
qed

lemma kalloc_obj:
  assumes "files_ok ll_rw C usable n inos e" "0 < gd_mem (gd_of e)"
  shows "\<exists>e'. kalloc e = (Some (efs_next e), e') \<and> files_ok ll_rw C usable n inos e' \<and> file_of C e' = file_of C e \<and> fsize e' = fsize e \<and>
    gd_mem (gd_of e') = gd_mem (gd_of e) - 1 \<and> bmap e' = bmap e \<and> imap e' = imap e"
  using files_ok_mem [OF assms(1) refl, of "efs_next e + 1" "gd_mem (gd_of e) - 1"] assms(2) by (simp add: kalloc_def Let_def)

lemma kfree_obj_ok:
  assumes "files_ok ll_rw C usable n inos e"
  shows "files_ok ll_rw C usable n inos (kfree_obj e)" "file_of C (kfree_obj e) = file_of C e" "fsize (kfree_obj e) = fsize e"
    "gd_mem (gd_of (kfree_obj e)) = gd_mem (gd_of e) + 1" "bmap (kfree_obj e) = bmap e" "imap (kfree_obj e) = imap e"
proof -
  have "kfree_obj e = (set_gd ((gd_of e)\<lparr>gd_mem := gd_mem (gd_of e) + 1\<rparr>) e)\<lparr>efs_next := efs_next e\<rparr>" by (simp add: kfree_obj_def set_gd_def)
  from files_ok_mem [OF assms this order_refl] show "files_ok ll_rw C usable n inos (kfree_obj e)" "file_of C (kfree_obj e) = file_of C e" "fsize (kfree_obj e) = fsize e"
    "gd_mem (gd_of (kfree_obj e)) = gd_mem (gd_of e) + 1" "bmap (kfree_obj e) = bmap e" "imap (kfree_obj e) = imap e" by simp_all
qed

lemma files_size_bound: "files_ok ll_rw C usable n inos e \<Longrightarrow> a \<in> set inos \<Longrightarrow> fsize e a < 2 ^ 31"
  using file_size_bound [of ll_rw C usable n inos "\<lambda>a. blks (fsize e a)" e a "fsize e a"] blks_le [of "fsize e a"] by (simp add: files_ok_def)

text \<open>A descriptor that may be used: its object is referenced and nobody holds its mutex.\<close>

definition desc_ok :: "addr list \<Rightarrow> 'd ofs \<Rightarrow> addr \<Rightarrow> bool" where
  "desc_ok inos s a = (let f = of_file s a in a \<noteq> 0 \<and> 0 < sint (f_ref f) \<and> sint (f_ref f) < 2 ^ 31 - 1 \<and> f_ip f \<in> set inos \<and> f_ip f \<noteq> 0 \<and>
    unat (f_off f) \<le> fsize (of_efs s) (f_ip f))"

text \<open>Taking and dropping the reference around a call.\<close>

lemma ref_inc: "0 < sint (r :: u32) \<Longrightarrow> sint r < 2 ^ 31 - 1 \<Longrightarrow> sint (r + 1) = sint r + 1"
proof -
  assume "0 < sint r" "sint r < 2 ^ 31 - 1"
  then have "signed_take_bit 31 (sint r + 1) = sint r + 1" by (intro signed_take_bit_int_eq_self) linarith+
  then show ?thesis by (simp add: sint_word_ariths(1) signed_take_bit_add)
qed

lemma fget_ok:
  assumes "desc_ok inos s f" "fd_ok fd" "fdt ! nat fd = f"
  shows "fget fd fdt s = Inr (f, upd_file f (\<lambda>x. x\<lparr>f_ref := f_ref x + 1\<rparr>) s)"
  using assms by (simp add: fget_def file_dup_def desc_ok_def Let_def kassert_def atomic_inc_def atomic_add_def)

lemma fput_ok:
  assumes "f \<noteq> 0" "f_ref (of_file s f) = r + 1" "0 < sint r" "sint r < 2 ^ 31 - 1"
  shows "fput f s = Inr (upd_file f (\<lambda>x. x\<lparr>f_ref := r\<rparr>) s)"
proof -
  have "r + 1 \<noteq> 1" using assms(3) by auto
  moreover have "0 < sint (r + 1)" using ref_inc [OF assms(3,4)] assms(3) by simp
  ultimately show ?thesis using assms(1,2) by (simp add: fput_def file_close_def kassert_def atomic_dec_and_test_def Let_def)
qed

text \<open>What a call does around its loop.\<close>

definition in_call :: "addr \<Rightarrow> 'd efs \<Rightarrow> 'd ofs \<Rightarrow> 'd ofs" where
  "in_call f e s = upd_file f (\<lambda>x. x\<lparr>f_ref := f_ref x + 1, f_mutex := True\<rparr>) (s\<lparr>of_efs := e\<rparr>)"

definition moved :: "addr \<Rightarrow> u32 \<Rightarrow> 'd efs \<Rightarrow> 'd ofs \<Rightarrow> 'd ofs" where
  "moved f d e s = upd_file f (\<lambda>x. x\<lparr>f_off := f_off x + d\<rparr>) (s\<lparr>of_efs := e\<rparr>)"

lemma moved_moved: "moved f d' e' (moved f d e s) = moved f (d + d') e' s"
  by (simp add: moved_def comp_def add.assoc)

lemma moved_simps [simp]:
  "of_efs (moved f d e s) = e" "of_file (moved f d e s) x = (if x = f then (of_file s f)\<lparr>f_off := f_off (of_file s f) + d\<rparr> else of_file s x)"
  "of_efs (in_call f e s) = e" "of_file (in_call f e s) x = (if x = f then (of_file s f)\<lparr>f_ref := f_ref (of_file s f) + 1, f_mutex := True\<rparr> else of_file s x)"
  by (simp_all add: moved_def in_call_def)

lemma unlocked_again: "\<not> f_mutex x \<Longrightarrow> x\<lparr>f_off := y, f_mutex := False\<rparr> = x\<lparr>f_off := y\<rparr>"
  by (cases x) simp

lemma end_call:
  assumes "desc_ok inos s f" "\<not> f_mutex (of_file s f)"
  shows "fput f ((file_unlock f (moved f d e1 (in_call f e s)))\<lparr>of_efs := kfree_obj e1\<rparr>) = Inr (moved f d (kfree_obj e1) s)"
proof -
  have d: "f \<noteq> 0" "0 < sint (f_ref (of_file s f))" "sint (f_ref (of_file s f)) < 2 ^ 31 - 1" using assms(1) by (simp_all add: desc_ok_def Let_def)
  let ?t = "(file_unlock f (moved f d e1 (in_call f e s)))\<lparr>of_efs := kfree_obj e1\<rparr>"
  have "f_ref (of_file ?t f) = f_ref (of_file s f) + 1" by (simp add: file_unlock_def moved_def in_call_def)
  from fput_ok [OF d(1) this d(2,3)] have "fput f ?t = Inr (upd_file f (\<lambda>x. x\<lparr>f_ref := f_ref (of_file s f)\<rparr>) ?t)" .
  moreover have "upd_file f (\<lambda>x. x\<lparr>f_ref := f_ref (of_file s f)\<rparr>) ?t = moved f d (kfree_obj e1) s"
    using assms(2) by (simp add: file_unlock_def moved_def in_call_def upd_file_def unlocked_again)
  ultimately show ?thesis by simp
qed

lemma do_read_call:
  assumes "desc_ok inos s f" "\<not> f_mutex (of_file s f)" "fd_ok fd" "fdt ! nat fd = f" "0 < count" "kalloc (of_efs s) = (Some p, e)"
    "do_read_loop f ub count 0 (replicate 4096 0) um (in_call f e s) = Some (Inr (t, um', moved f d e1 (in_call f e s)))"
  shows "do_read fd ub count fdt um s = Some (Inr (t, um', moved f d (kfree_obj e1) s))"
proof -
  have l: "file_lock f ((upd_file f (\<lambda>x. x\<lparr>f_ref := f_ref x + 1\<rparr>) s)\<lparr>of_efs := e\<rparr>) = Some (Inr (in_call f e s))"
    using assms(2) by (simp add: file_lock_def in_call_def comp_def)
  show ?thesis
    using assms(5,6) end_call [OF assms(1,2), where d = d and e = e and ?e1.0 = e1] l by (simp add: do_read_def fget_ok [OF assms(1,3,4)] assms(7) file_unlock_def Let_def)
qed

lemma do_write_call:
  assumes "desc_ok inos s f" "\<not> f_mutex (of_file s f)" "fd_ok fd" "fdt ! nat fd = f" "0 < count" "kalloc (of_efs s) = (Some p, e)"
    "do_write_loop f ub count 0 (replicate 4096 0) um (in_call f e s) = Some (Inr (t, moved f d e1 (in_call f e s)))"
  shows "do_write fd ub count fdt um s = Some (Inr (t, moved f d (kfree_obj e1) s))"
proof -
  have l: "file_lock f ((upd_file f (\<lambda>x. x\<lparr>f_ref := f_ref x + 1\<rparr>) s)\<lparr>of_efs := e\<rparr>) = Some (Inr (in_call f e s))"
    using assms(2) by (simp add: file_lock_def in_call_def comp_def)
  show ?thesis
    using assms(5,6) end_call [OF assms(1,2), where d = d and e = e and ?e1.0 = e1] l by (simp add: do_write_def fget_ok [OF assms(1,3,4)] assms(7) file_unlock_def Let_def)
qed

section \<open>The loops\<close>

text \<open>What one page of a transfer may cost.\<close>

definition pages_of :: "nat \<Rightarrow> nat" where
  "pages_of n = (n + 4095) div 4096"

lemma pages_of_step: "m \<le> n \<Longrightarrow> 0 < m \<Longrightarrow> m \<noteq> 4096 \<longrightarrow> m = n \<Longrightarrow> m \<le> 4096 \<Longrightarrow> pages_of n = Suc (pages_of (n - m))"
  by (cases "m = 4096") (auto simp: pages_of_def le_div_geq)

lemma pages_of_mono: "m \<le> n \<Longrightarrow> pages_of m \<le> pages_of n"
  by (simp add: pages_of_def div_le_mono)

lemma unat_of_int: "0 \<le> k \<Longrightarrow> k < 2 ^ 32 \<Longrightarrow> unat (of_int k :: u32) = nat k"
  using unat_of_nat_id [of "nat k", where 'a = 32] by (simp add: nat_less_iff)

lemma page_sizes:
  fixes m c a r :: nat
  assumes "m = min (min c 4096) a" "r = min c a"
  shows "m \<le> r" "m \<le> 4096" "m \<le> c" "m \<noteq> 4096 \<longrightarrow> m = r" "m \<le> a" "0 < c \<Longrightarrow> m = 0 \<longrightarrow> r = 0"
  using assms by (auto simp: min_def)

lemma page_cost: "n \<le> 4096 \<Longrightarrow> 13 * (n div 4096 + 2) \<le> 39" "n \<le> 4096 \<Longrightarrow> 2 * (n div 4096 + 2) \<le> 6" for n :: nat
  by (cases "n = 4096"; simp)+

context block_driver
begin

lemma file_read_ok:
  assumes ok: "files_ok ll_rw contents usable nblocks inos (of_efs s)" "nblocks \<le> 2 ^ 32" and ip: "i = f_ip (of_file s f)" "i \<in> set inos" "i \<noteq> 0"
    and fl: "TEST_FLAG (f_flags (of_file s f)) FILE_READ \<noteq> 0" and len: "unat len \<le> 4096" "unat len \<le> length v"
    and mem: "41 \<le> gd_mem (gd_of (of_efs s))" and o: "o' = unat (f_off (of_file s f))" "o' \<le> fsize (of_efs s) i"
    and r: "r = min (unat len) (fsize (of_efs s) i - o')"
  shows "\<exists>e. file_read f len v s = Some (Inr (int r, take r (drop o' (file_of contents (of_efs s) i)) @ drop r v, moved f (of_nat r) e s)) \<and>
    files_ok ll_rw contents usable nblocks inos e \<and> (\<forall>x\<in>set inos. file_of contents e x = file_of contents (of_efs s) x) \<and>
    gd_mem (gd_of (of_efs s)) \<le> gd_mem (gd_of e) + 39 \<and> room (bmap (of_efs s)) \<le> room (bmap e) \<and> imap e = imap (of_efs s)"
proof -
  have d: "13 * (unat len div 4096 + 2) \<le> 39" by (rule page_cost(1) [OF len(1)])
  have m: "13 * (unat len div 4096 + 2) + 2 \<le> gd_mem (gd_of (of_efs s))" using add_right_mono [OF d, of 2] mem by simp
  have "o' + unat len < 2 ^ 32" using files_size_bound [OF ok(1) ip(2)] o(2) len(1) by simp
  then have r': "r = (if unat (f_off (of_file s f)) + unat len < 2 ^ 32 then min (unat len) (fsize (of_efs s) i - unat (f_off (of_file s f))) else 0)" using r o(1) by simp
  obtain e where e: "efs_i_read i (f_off (of_file s f)) len v (of_efs s) = Some (Inr (int r, take r (drop o' (file_of contents (of_efs s) i)) @ drop r v, e))"
    "files_ok ll_rw contents usable nblocks inos e" "\<forall>x\<in>set inos. file_of contents e x = file_of contents (of_efs s) x"
    "gd_mem (gd_of (of_efs s)) \<le> gd_mem (gd_of e) + 13 * (unat len div 4096 + 2)" "room (bmap (of_efs s)) \<le> room (bmap e)" "imap e = imap (of_efs s)"
    using i_read_correct [OF ok ip(2) len(2) m r'] o(1) by blast
  have "gd_mem (gd_of (of_efs s)) \<le> gd_mem (gd_of e) + 39" using le_trans [OF e(4) add_left_mono [OF d]] .
  then show ?thesis using e fl ip by (intro exI [of _ e]) (simp add: file_read_def Let_def moved_def)
qed

lemma do_read_piece:
  assumes ok: "files_ok ll_rw contents usable nblocks inos (of_efs s)" "nblocks \<le> 2 ^ 32" and ip: "i = f_ip (of_file s f)" "i \<in> set inos" "i \<noteq> 0"
    and fl: "TEST_FLAG (f_flags (of_file s f)) FILE_READ \<noteq> 0" and kbuf: "length kbuf = 4096" and mem: "41 \<le> gd_mem (gd_of (of_efs s))"
    and o: "o' = unat (f_off (of_file s f))" "o' \<le> fsize (of_efs s) i" and r: "r = min (min (nat count) 4096) (fsize (of_efs s) i - o')" and count: "0 < count"
  shows "\<exists>e kb. do_read_loop f ub count t kbuf um s = (if r = 0 then Some (Inr (t, um, moved f 0 e s)) else
      do_read_loop f (ub + r) (count - int r) (t + int r) kb (put_bytes ub (take r (drop o' (file_of contents (of_efs s) i))) um) (moved f (of_nat r) e s)) \<and>
    length kb = 4096 \<and> files_ok ll_rw contents usable nblocks inos e \<and> (\<forall>x\<in>set inos. file_of contents e x = file_of contents (of_efs s) x) \<and>
    gd_mem (gd_of (of_efs s)) \<le> gd_mem (gd_of e) + 39 \<and> room (bmap (of_efs s)) \<le> room (bmap e) \<and> imap e = imap (of_efs s) \<and>
    unat (f_off (of_file (moved f (of_nat r) e s) f)) = o' + r"
proof -
  define len :: u32 where "len = of_int (min count 4096)"
  have len: "unat len = min (nat count) 4096" using count by (simp add: len_def unat_of_int)
  have r': "r = min (unat len) (fsize (of_efs s) i - o')" by (simp add: len r)
  have le: "unat len \<le> 4096" "unat len \<le> length kbuf" "r \<le> 4096" "o' + r \<le> fsize (of_efs s) i" using kbuf o(2) by (auto simp: len r)
  obtain e where e: "file_read f len kbuf s = Some (Inr (int r, take r (drop o' (file_of contents (of_efs s) i)) @ drop r kbuf, moved f (of_nat r) e s))"
    "files_ok ll_rw contents usable nblocks inos e" "\<forall>x\<in>set inos. file_of contents e x = file_of contents (of_efs s) x"
    "gd_mem (gd_of (of_efs s)) \<le> gd_mem (gd_of e) + 39" "room (bmap (of_efs s)) \<le> room (bmap e)" "imap e = imap (of_efs s)"
    using file_read_ok [OF ok ip fl le(1,2) mem o r'] by blast
  define kb where "kb = take r (drop o' (file_of contents (of_efs s) i)) @ drop r kbuf"
  have kb: "length kb = 4096" "take r kb = take r (drop o' (file_of contents (of_efs s) i))" using le(3,4) kbuf by (simp_all add: kb_def)
  have "unat (f_off (of_file s f) + of_nat r) = o' + r"
    using files_size_bound [OF ok(1) ip(2)] le(3,4) o(1) by (simp add: unat_add_le unat_of_nat_id)
  moreover have "do_read_loop f ub count t kbuf um s = (if r = 0 then Some (Inr (t, um, moved f 0 e s)) else
      do_read_loop f (ub + r) (count - int r) (t + int r) kb (put_bytes ub (take r kb) um) (moved f (of_nat r) e s))"
    using count by (subst do_read_loop.simps) (simp add: len_def [symmetric] e(1) kb_def)
  ultimately show ?thesis using e kb by (intro exI [of _ e] exI [of _ kb]) simp
qed

lemma do_read_loop_ok:
  assumes "files_ok ll_rw contents usable nblocks inos (of_efs s)" "nblocks \<le> 2 ^ 32" "i = f_ip (of_file s f)" "i \<in> set inos" "i \<noteq> 0"
    "TEST_FLAG (f_flags (of_file s f)) FILE_READ \<noteq> 0" "length kbuf = 4096" "39 * (pages_of r + 1) + 2 \<le> gd_mem (gd_of (of_efs s))"
    "o' = unat (f_off (of_file s f))" "o' \<le> fsize (of_efs s) i" "r = min (nat count) (fsize (of_efs s) i - o')" "0 \<le> count"
  shows "\<exists>e. do_read_loop f ub count t kbuf um s =
      Some (Inr (t + int r, put_bytes ub (take r (drop o' (file_of contents (of_efs s) i))) um, moved f (of_nat r) e s)) \<and>
    files_ok ll_rw contents usable nblocks inos e \<and> (\<forall>x\<in>set inos. file_of contents e x = file_of contents (of_efs s) x) \<and>
    gd_mem (gd_of (of_efs s)) \<le> gd_mem (gd_of e) + 39 * (pages_of r + 1) \<and> room (bmap (of_efs s)) \<le> room (bmap e) \<and> imap e = imap (of_efs s)"
  using assms
proof (induction "nat count" arbitrary: count ub t kbuf um s o' r rule: less_induct)
  case less
  show ?case
  proof (cases "0 < count")
    case False
    then have "count = 0" "r = 0" using less.prems(11,12) by auto
    then show ?thesis using less.prems(1) by (subst do_read_loop.simps) (auto simp: moved_def upd_file_def intro!: exI [of _ "of_efs s"])
  next
    case True
    define r0 where "r0 = min (min (nat count) 4096) (fsize (of_efs s) i - o')"
    have le: "r0 \<le> r" "r0 \<le> 4096" "r0 \<le> nat count" "r0 \<noteq> 4096 \<longrightarrow> r0 = r" "o' + r0 \<le> fsize (of_efs s) i" "r0 = 0 \<longrightarrow> r = 0"
      using page_sizes [OF r0_def less.prems(11)] less.prems(10) True by simp_all
    have mem: "41 \<le> gd_mem (gd_of (of_efs s))" using less.prems(8) by simp
    obtain e kb where e: "do_read_loop f ub count t kbuf um s = (if r0 = 0 then Some (Inr (t, um, moved f 0 e s)) else
        do_read_loop f (ub + r0) (count - int r0) (t + int r0) kb (put_bytes ub (take r0 (drop o' (file_of contents (of_efs s) i))) um) (moved f (of_nat r0) e s))"
      "length kb = 4096" "files_ok ll_rw contents usable nblocks inos e" "\<forall>x\<in>set inos. file_of contents e x = file_of contents (of_efs s) x"
      "gd_mem (gd_of (of_efs s)) \<le> gd_mem (gd_of e) + 39" "room (bmap (of_efs s)) \<le> room (bmap e)" "imap e = imap (of_efs s)"
      "unat (f_off (of_file (moved f (of_nat r0) e s) f)) = o' + r0"
      using do_read_piece [OF less.prems(1-7) mem less.prems(9,10) r0_def True, where ub = ub and t = t and um = um] by blast
    show ?thesis
    proof (cases "r0 = 0")
      case True
      then show ?thesis using e le(6) by (intro exI [of _ e]) simp
    next
      case nz: False
      define s1 where "s1 = moved f (of_nat r0) e s"
      let ?x = "file_of contents (of_efs s) i" and ?um = "put_bytes ub (take r0 (drop o' (file_of contents (of_efs s) i))) um"
      have pg: "pages_of r = Suc (pages_of (r - r0))" using le nz by (intro pages_of_step) auto
      have sz: "fsize e i = fsize (of_efs s) i" using e(4) less.prems(4) by (metis length_file)
      have nat: "nat (count - int r0) = nat count - r0" using le(3) by (simp add: nat_diff_distrib')
      have a: "nat (count - int r0) < nat count" "0 \<le> count - int r0" using nat nz True le(3) by linarith+
      have f1: "i = f_ip (of_file s1 f)" "TEST_FLAG (f_flags (of_file s1 f)) FILE_READ \<noteq> 0" "o' + r0 = unat (f_off (of_file s1 f))" "of_efs s1 = e"
        using less.prems(3,6) e(8) unfolding s1_def by simp_all
      have b: "o' + r0 \<le> fsize (of_efs s1) i" using le(5) unfolding f1(4) sz .
      have c: "r - r0 = min (nat (count - int r0)) (fsize (of_efs s1) i - (o' + r0))" unfolding f1(4) sz nat less.prems(11) by (simp add: min_diff)
      have d: "files_ok ll_rw contents usable nblocks inos (of_efs s1)" "39 * (pages_of (r - r0) + 1) + 2 \<le> gd_mem (gd_of (of_efs s1))"
        using e(3,5) less.prems(8) pg unfolding f1(4) by simp_all
      obtain e1 where e1: "do_read_loop f (ub + r0) (count - int r0) (t + int r0) kb ?um s1 =
          Some (Inr (t + int r0 + int (r - r0), put_bytes (ub + r0) (take (r - r0) (drop (o' + r0) (file_of contents (of_efs s1) i))) ?um, moved f (of_nat (r - r0)) e1 s1))"
        "files_ok ll_rw contents usable nblocks inos e1" "\<forall>x\<in>set inos. file_of contents e1 x = file_of contents (of_efs s1) x"
        "gd_mem (gd_of (of_efs s1)) \<le> gd_mem (gd_of e1) + 39 * (pages_of (r - r0) + 1)" "room (bmap (of_efs s1)) \<le> room (bmap e1)" "imap e1 = imap (of_efs s1)"
        using less.hyps [OF a(1) d(1) less.prems(2) f1(1) less.prems(4,5) f1(2) e(2) d(2) f1(3) b c a(2), where ub = "ub + r0" and t = "t + int r0" and um = ?um] by blast
      have "put_bytes (ub + r0) (take (r - r0) (drop (o' + r0) ?x)) ?um = put_bytes ub (take r (drop o' ?x)) um"
        using put_bytes_append [of ub "take r0 (drop o' ?x)"] le(1,5) take_add [of r0 "r - r0" "drop o' ?x"] by (simp add: add.commute)
      moreover have "moved f (of_nat (r - r0)) e1 s1 = moved f (of_nat r) e1 s" using le(1) by (simp add: s1_def moved_moved of_nat_diff)
      ultimately show ?thesis using e e1 pg le(1) less.prems(4) nz by (intro exI [of _ e1]) (auto simp: s1_def)
    qed
  qed
qed

lemma file_write_ok:
  assumes ok: "files_ok ll_rw contents usable nblocks inos (of_efs s)" "nblocks \<le> 2 ^ 32" and ip: "i = f_ip (of_file s f)" "i \<in> set inos" "i \<noteq> 0"
    and fl: "TEST_FLAG (f_flags (of_file s f)) FILE_WRITE \<noteq> 0" and len: "unat len \<le> 4096" "unat len \<le> length v"
    and mem: "41 \<le> gd_mem (gd_of (of_efs s))" "6 \<le> room (bmap (of_efs s))"
    and o: "o' = unat (f_off (of_file s f))" "o' \<le> fsize (of_efs s) i" "o' + unat len < MAXFILE * 4096"
  shows "\<exists>e. file_write f len v s = Some (Inr (int (unat len), moved f len e s)) \<and> files_ok ll_rw contents usable nblocks inos e \<and>
    (\<forall>x\<in>set inos. file_of contents e x = (if x = i then splice o' (take (unat len) v) (file_of contents (of_efs s) i) else file_of contents (of_efs s) x)) \<and>
    gd_mem (gd_of (of_efs s)) \<le> gd_mem (gd_of e) + 39 \<and> room (bmap (of_efs s)) \<le> room (bmap e) + 6 \<and> imap e = imap (of_efs s)"
proof -
  have d: "13 * (unat len div 4096 + 2) \<le> 39" "2 * (unat len div 4096 + 2) \<le> 6" using page_cost [OF len(1)] by blast+
  have m: "13 * (unat len div 4096 + 2) + 2 \<le> gd_mem (gd_of (of_efs s))" "2 * (unat len div 4096 + 2) \<le> room (bmap (of_efs s))"
    using add_right_mono [OF d(1), of 2] mem(1) le_trans [OF d(2) mem(2)] by simp_all
  obtain e where e: "efs_i_write i (f_off (of_file s f)) len v (of_efs s) = Some (Inr (int (unat len), e))" "files_ok ll_rw contents usable nblocks inos e"
    "\<forall>x\<in>set inos. file_of contents e x = (if x = i then take o' (file_of contents (of_efs s) i) @ take (unat len) v @ drop (o' + unat len) (file_of contents (of_efs s) i) else file_of contents (of_efs s) x)"
    "gd_mem (gd_of (of_efs s)) \<le> gd_mem (gd_of e) + 13 * (unat len div 4096 + 2)" "room (bmap (of_efs s)) \<le> room (bmap e) + 2 * (unat len div 4096 + 2)" "imap e = imap (of_efs s)"
    using i_write_correct [OF ok ip(2) len(2) refl m, of "f_off (of_file s f)"] o by auto
  have "gd_mem (gd_of (of_efs s)) \<le> gd_mem (gd_of e) + 39" "room (bmap (of_efs s)) \<le> room (bmap e) + 6"
    using le_trans [OF e(4) add_left_mono [OF d(1)]] le_trans [OF e(5) add_left_mono [OF d(2)]] by blast+
  then show ?thesis using e(1-3,6) fl ip len(2) by (intro exI [of _ e]) (simp add: file_write_def Let_def moved_def splice_def)
qed

lemma file_write_full:
  assumes ok: "files_ok ll_rw contents usable nblocks inos (of_efs s)" and ip: "i = f_ip (of_file s f)" "i \<in> set inos" "i \<noteq> 0"
    and fl: "TEST_FLAG (f_flags (of_file s f)) FILE_WRITE \<noteq> 0" and len: "unat len \<le> 4096"
    and o: "o' = unat (f_off (of_file s f))" "o' \<le> fsize (of_efs s) i" "MAXFILE * 4096 \<le> o' + unat len"
  shows "file_write f len v s = Some (Inl (Panic ''file_write''))"
proof -
  have w: "o' + unat len < 2 ^ 32" using files_size_bound [OF ok ip(2)] o(2) len(1) by simp
  then have "unat (f_off (of_file s f) + len) = o' + unat len" "\<not> f_off (of_file s f) + len < f_off (of_file s f)" using o(1) unfolding u32_wraps by (simp_all add: unat_add_le)
  moreover have "\<not> i_size (i_di (efs_inode (of_efs s) i)) < f_off (of_file s f)" using o(1,2) by (simp add: fsize_def word_less_nat_alt)
  ultimately have "efs_i_write i (f_off (of_file s f)) len v (of_efs s) = Some (Inr (-1, of_efs s))" using o(3) by (simp add: efs_i_write_def)
  then show ?thesis using fl ip by (simp add: file_write_def Let_def iobind_def)
qed

lemma do_write_piece:
  assumes ok: "files_ok ll_rw contents usable nblocks inos (of_efs s)" "nblocks \<le> 2 ^ 32" and ip: "i = f_ip (of_file s f)" "i \<in> set inos" "i \<noteq> 0"
    and fl: "TEST_FLAG (f_flags (of_file s f)) FILE_WRITE \<noteq> 0" and kbuf: "length kbuf = 4096"
    and mem: "41 \<le> gd_mem (gd_of (of_efs s))" "6 \<le> room (bmap (of_efs s))"
    and o: "o' = unat (f_off (of_file s f))" "o' \<le> fsize (of_efs s) i" "o' + n < MAXFILE * 4096" and n: "n = min (nat count) 4096" and count: "0 < count"
  shows "\<exists>e kb. do_write_loop f ub count t kbuf um s = do_write_loop f (ub + n) (count - int n) (t + int n) kb um (moved f (of_nat n) e s) \<and>
    length kb = 4096 \<and> files_ok ll_rw contents usable nblocks inos e \<and>
    (\<forall>x\<in>set inos. file_of contents e x = (if x = i then splice o' (get_bytes ub n um) (file_of contents (of_efs s) i) else file_of contents (of_efs s) x)) \<and>
    gd_mem (gd_of (of_efs s)) \<le> gd_mem (gd_of e) + 39 \<and> room (bmap (of_efs s)) \<le> room (bmap e) + 6 \<and> imap e = imap (of_efs s) \<and>
    unat (f_off (of_file (moved f (of_nat n) e s) f)) = o' + n"
proof -
  define len :: u32 where "len = of_nat n"
  have n': "int n = min count 4096" "n \<le> 4096" "0 < n" using count by (auto simp: n)
  have len: "unat len = n" using n'(2) by (simp add: len_def unat_of_nat_id)
  have li: "of_int (min count 4096) = len" unfolding n'(1) [symmetric] by (simp add: len_def)
  define kb where "kb = get_bytes ub n um @ drop n kbuf"
  have kb: "length kb = 4096" "take n kb = get_bytes ub n um" using n'(2) kbuf by (simp_all add: kb_def)
  have le: "unat len \<le> 4096" "unat len \<le> length kb" "o' + unat len < MAXFILE * 4096" using len n'(2) kb(1) o(3) by simp_all
  obtain e where e: "file_write f len kb s = Some (Inr (int n, moved f len e s))" "files_ok ll_rw contents usable nblocks inos e"
    "\<forall>x\<in>set inos. file_of contents e x = (if x = i then splice o' (get_bytes ub n um) (file_of contents (of_efs s) i) else file_of contents (of_efs s) x)"
    "gd_mem (gd_of (of_efs s)) \<le> gd_mem (gd_of e) + 39" "room (bmap (of_efs s)) \<le> room (bmap e) + 6" "imap e = imap (of_efs s)"
    using file_write_ok [OF ok ip fl le(1,2) mem o(1,2) le(3)] unfolding len kb(2) by blast
  have "unat (f_off (of_file s f) + len) = o' + n"
    using files_size_bound [OF ok(1) ip(2)] o(1,2) n'(2) len by (simp add: unat_add_le)
  moreover have "do_write_loop f ub count t kbuf um s = do_write_loop f (ub + n) (count - int n) (t + int n) kb um (moved f len e s)"
  proof -
    have "nat (min count 4096) = n" using n'(1) by linarith
    then show ?thesis using count n'(3) by (subst do_write_loop.simps) (simp add: li Let_def kb_def [symmetric] e(1))
  qed
  ultimately show ?thesis using e kb by (intro exI [of _ e] exI [of _ kb]) (simp add: len_def)
qed

lemma do_write_loop_ok:
  assumes "files_ok ll_rw contents usable nblocks inos (of_efs s)" "nblocks \<le> 2 ^ 32" "i = f_ip (of_file s f)" "i \<in> set inos" "i \<noteq> 0"
    "TEST_FLAG (f_flags (of_file s f)) FILE_WRITE \<noteq> 0" "length kbuf = 4096" "39 * pages_of r + 2 \<le> gd_mem (gd_of (of_efs s))" "6 * pages_of r \<le> room (bmap (of_efs s))"
    "o' = unat (f_off (of_file s f))" "o' \<le> fsize (of_efs s) i" "o' + r < MAXFILE * 4096"
  shows "\<exists>e. do_write_loop f ub (int r) t kbuf um s = Some (Inr (t + int r, moved f (of_nat r) e s)) \<and> files_ok ll_rw contents usable nblocks inos e \<and>
    (\<forall>x\<in>set inos. file_of contents e x = (if x = i then splice o' (get_bytes ub r um) (file_of contents (of_efs s) i) else file_of contents (of_efs s) x)) \<and>
    gd_mem (gd_of (of_efs s)) \<le> gd_mem (gd_of e) + 39 * pages_of r \<and> room (bmap (of_efs s)) \<le> room (bmap e) + 6 * pages_of r \<and> imap e = imap (of_efs s)"
  using assms
proof (induction r arbitrary: ub t kbuf s o' rule: less_induct)
  case (less r)
  show ?case
  proof (cases "r = 0")
    case True
    then show ?thesis using less.prems(1) by (subst do_write_loop.simps) (auto simp: moved_def upd_file_def get_bytes_def intro!: exI [of _ "of_efs s"])
  next
    case False
    define n where "n = min (nat (int r)) 4096"
    have n: "n \<le> r" "0 < n" "n \<noteq> 4096 \<longrightarrow> n = r" "n \<le> 4096" using False by (auto simp: n_def)
    have pg: "pages_of r = Suc (pages_of (r - n))" using n by (intro pages_of_step)
    have q: "0 < int r" "41 \<le> gd_mem (gd_of (of_efs s))" "6 \<le> room (bmap (of_efs s))" "o' + n < MAXFILE * 4096" using False less.prems(8,9,12) pg n(1) by simp_all
    obtain e kb where e: "do_write_loop f ub (int r) t kbuf um s = do_write_loop f (ub + n) (int r - int n) (t + int n) kb um (moved f (of_nat n) e s)"
      "length kb = 4096" "files_ok ll_rw contents usable nblocks inos e"
      "\<forall>x\<in>set inos. file_of contents e x = (if x = i then splice o' (get_bytes ub n um) (file_of contents (of_efs s) i) else file_of contents (of_efs s) x)"
      "gd_mem (gd_of (of_efs s)) \<le> gd_mem (gd_of e) + 39" "room (bmap (of_efs s)) \<le> room (bmap e) + 6" "imap e = imap (of_efs s)"
      "unat (f_off (of_file (moved f (of_nat n) e s) f)) = o' + n"
      using do_write_piece [OF less.prems(1-7) q(2,3) less.prems(10,11) q(4) n_def q(1), where ub = ub and t = t and um = um] by blast
    define s1 where "s1 = moved f (of_nat n) e s"
    let ?x = "file_of contents (of_efs s) i"
    have sz: "fsize e i = max (fsize (of_efs s) i) (o' + n)" using e(4) less.prems(4,11) length_splice_end [of o' ?x] by (metis length_file length_get_bytes)
    have f1: "i = f_ip (of_file s1 f)" "TEST_FLAG (f_flags (of_file s1 f)) FILE_WRITE \<noteq> 0" "o' + n = unat (f_off (of_file s1 f))" "of_efs s1 = e"
      using less.prems(3,6) e(8) unfolding s1_def by simp_all
    have a: "r - n < r" "o' + n \<le> fsize (of_efs s1) i" "o' + n + (r - n) < MAXFILE * 4096" "files_ok ll_rw contents usable nblocks inos (of_efs s1)"
      "39 * pages_of (r - n) + 2 \<le> gd_mem (gd_of (of_efs s1))" "6 * pages_of (r - n) \<le> room (bmap (of_efs s1))"
      using n(1,2) less.prems(8,9,12) e(3,5,6) pg unfolding f1(4) sz by simp_all
    obtain e1 where e1: "do_write_loop f (ub + n) (int (r - n)) (t + int n) kb um s1 = Some (Inr (t + int n + int (r - n), moved f (of_nat (r - n)) e1 s1))"
      "files_ok ll_rw contents usable nblocks inos e1"
      "\<forall>x\<in>set inos. file_of contents e1 x = (if x = i then splice (o' + n) (get_bytes (ub + n) (r - n) um) (file_of contents (of_efs s1) i) else file_of contents (of_efs s1) x)"
      "gd_mem (gd_of (of_efs s1)) \<le> gd_mem (gd_of e1) + 39 * pages_of (r - n)" "room (bmap (of_efs s1)) \<le> room (bmap e1) + 6 * pages_of (r - n)" "imap e1 = imap (of_efs s1)"
      using less.IH [OF a(1,4) less.prems(2) f1(1) less.prems(4,5) f1(2) e(2) a(5,6) f1(3) a(2,3), where ub = "ub + n" and t = "t + int n"] by blast
    have "splice (o' + n) (get_bytes (ub + n) (r - n) um) (splice o' (get_bytes ub n um) ?x) = splice o' (get_bytes ub r um) ?x"
      using splice_splice_end [of o' ?x "get_bytes ub n um"] less.prems(11) n(1) get_bytes_add [of ub n "r - n"] by simp
    moreover have "moved f (of_nat (r - n)) e1 s1 = moved f (of_nat r) e1 s" using n(1) by (simp add: s1_def moved_moved of_nat_diff)
    moreover have "int (r - n) = int r - int n" using n(1) by simp
    ultimately show ?thesis using e e1 pg n(1) less.prems(4) unfolding f1(4) by (intro exI [of _ e1]) (simp add: s1_def)
  qed
qed

text \<open>A transfer that would make the file reach its maximal size.\<close>

lemma do_write_loop_full:
  assumes "files_ok ll_rw contents usable nblocks inos (of_efs s)" "nblocks \<le> 2 ^ 32" "i = f_ip (of_file s f)" "i \<in> set inos" "i \<noteq> 0"
    "TEST_FLAG (f_flags (of_file s f)) FILE_WRITE \<noteq> 0" "length kbuf = 4096" "39 * pages_of r + 2 \<le> gd_mem (gd_of (of_efs s))" "6 * pages_of r \<le> room (bmap (of_efs s))"
    "o' = unat (f_off (of_file s f))" "o' \<le> fsize (of_efs s) i" "MAXFILE * 4096 \<le> o' + r" "0 < r"
  shows "do_write_loop f ub (int r) t kbuf um s = Some (Inl (Panic ''file_write''))"
  using assms
proof (induction r arbitrary: ub t kbuf s o' rule: less_induct)
  case (less r)
  define n where "n = min (nat (int r)) 4096"
  have n: "n \<le> r" "0 < n" "n \<noteq> 4096 \<longrightarrow> n = r" "n \<le> 4096" using less.prems(13) by (auto simp: n_def)
  have ni: "min (int r) 4096 = int n" by (simp add: n_def)
  show ?case
  proof (cases "o' + n < MAXFILE * 4096")
    case False
    have "unat (of_nat n :: u32) = n" using n(4) by (simp add: unat_of_nat_id)
    then have "file_write f (of_nat n) v s = Some (Inl (Panic ''file_write''))" for v
      using file_write_full [OF less.prems(1,3-6) _ less.prems(10,11)] False n(4) by simp
    then show ?thesis using less.prems(13) by (subst do_write_loop.simps) (simp add: Let_def ni)
  next
    case True
    have pg: "pages_of r = Suc (pages_of (r - n))" using n by (intro pages_of_step)
    have q: "0 < int r" "41 \<le> gd_mem (gd_of (of_efs s))" "6 \<le> room (bmap (of_efs s))" using less.prems(8,9,13) pg by simp_all
    obtain e kb where e: "do_write_loop f ub (int r) t kbuf um s = do_write_loop f (ub + n) (int r - int n) (t + int n) kb um (moved f (of_nat n) e s)"
      "length kb = 4096" "files_ok ll_rw contents usable nblocks inos e"
      "\<forall>x\<in>set inos. file_of contents e x = (if x = i then splice o' (get_bytes ub n um) (file_of contents (of_efs s) i) else file_of contents (of_efs s) x)"
      "gd_mem (gd_of (of_efs s)) \<le> gd_mem (gd_of e) + 39" "room (bmap (of_efs s)) \<le> room (bmap e) + 6" "imap e = imap (of_efs s)"
      "unat (f_off (of_file (moved f (of_nat n) e s) f)) = o' + n"
      using do_write_piece [OF less.prems(1-7) q(2,3) less.prems(10,11) True n_def q(1), where ub = ub and t = t and um = um] by blast
    define s1 where "s1 = moved f (of_nat n) e s"
    let ?x = "file_of contents (of_efs s) i"
    have sz: "fsize e i = max (fsize (of_efs s) i) (o' + n)" using e(4) less.prems(4,11) length_splice_end [of o' ?x] by (metis length_file length_get_bytes)
    have f1: "i = f_ip (of_file s1 f)" "TEST_FLAG (f_flags (of_file s1 f)) FILE_WRITE \<noteq> 0" "o' + n = unat (f_off (of_file s1 f))" "of_efs s1 = e"
      using less.prems(3,6) e(8) unfolding s1_def by simp_all
    have a: "r - n < r" "o' + n \<le> fsize (of_efs s1) i" "MAXFILE * 4096 \<le> o' + n + (r - n)" "files_ok ll_rw contents usable nblocks inos (of_efs s1)"
      "39 * pages_of (r - n) + 2 \<le> gd_mem (gd_of (of_efs s1))" "6 * pages_of (r - n) \<le> room (bmap (of_efs s1))" "0 < r - n"
      using n(1,2) less.prems(8,9,12) e(3,5,6) pg True unfolding f1(4) sz by simp_all
    from less.IH [OF a(1,4) less.prems(2) f1(1) less.prems(4,5) f1(2) e(2) a(5,6) f1(3) a(2,3,7)] show ?thesis unfolding e(1) s1_def using n(1) by (simp add: of_nat_diff)
  qed
qed

end

section \<open>Seeking\<close>

lemma uint_add_signed:
  fixes b d :: u32
  assumes "uint b < 2 ^ 31"
  shows "uint (b + d) = (if uint b + sint d < 0 then uint b + sint d + 2 ^ 32 else uint b + sint d)"
proof -
  have r: "- 2147483648 \<le> sint d" "sint d < 2147483648" "0 \<le> uint b" "uint b < 2147483648" using sint_ge [of d] sint_lt [of d] assms by simp_all
  have "b + d = word_of_int (uint b + sint d)" by simp
  then have e: "uint (b + d) = (uint b + sint d) mod 4294967296" by (simp only: uint_word_of_int) simp
  show ?thesis
  proof (cases "uint b + sint d < 0")
    case True
    have "(uint b + sint d + 4294967296) mod 4294967296 = uint b + sint d + 4294967296" using True r by (intro mod_pos_pos_trivial) linarith+
    then show ?thesis unfolding e mod_add_self2 using True by simp
  next
    case False
    have "(uint b + sint d) mod 4294967296 = uint b + sint d" using False r by (intro mod_pos_pos_trivial) linarith+
    then show ?thesis unfolding e using False by simp
  qed
qed

definition seek_base :: "int \<Rightarrow> nat \<Rightarrow> nat \<Rightarrow> nat" where
  "seek_base whence off sz = (if whence = SEEK_SET then 0 else if whence = SEEK_CUR then off else sz)"

lemma llseek_exact:
  assumes "f_ip (of_file s a) = i" "i \<noteq> 0" "unat (f_off (of_file s a)) \<le> fsize (of_efs s) i" "fsize (of_efs s) i < 2 ^ 31"
  shows "file_llseek a offset whence s =
    (let y = int (seek_base whence (unat (f_off (of_file s a))) (fsize (of_efs s) i)) + sint offset in
     if whence \<in> {SEEK_SET, SEEK_CUR, SEEK_END} \<and> 0 \<le> y \<and> y \<le> int (fsize (of_efs s) i)
     then Inr (0, upd_file a (\<lambda>f. f\<lparr>f_off := of_int y\<rparr>) s) else Inr (-1, s))"
proof -
  define sz where "sz = i_size (i_di (efs_inode (of_efs s) i))"
  have sz: "fsize (of_efs s) i = unat sz" "of_int (efs_i_size i (of_efs s)) = sz" by (simp_all add: fsize_def sz_def efs_i_size_def)
  have key: "(b + offset \<le> sz) = (0 \<le> uint b + sint offset \<and> uint b + sint offset \<le> uint sz)" "of_int (uint b + sint offset) = b + offset" if "unat b \<le> unat sz" for b :: u32
  proof -
    have "unat sz < 2147483648" using assms(4) unfolding sz(1) by simp
    then have l: "uint b \<le> uint sz" "uint sz < 2147483648" using that unfolding uint_nat by linarith+
    have r: "- 2147483648 \<le> sint offset" "0 \<le> uint b" using sint_ge [of offset] by simp_all
    have "uint (b + offset) = (if uint b + sint offset < 0 then uint b + sint offset + 4294967296 else uint b + sint offset)"
      using l by (subst uint_add_signed) simp_all
    then show "(b + offset \<le> sz) = (0 \<le> uint b + sint offset \<and> uint b + sint offset \<le> uint sz)"
      unfolding word_le_def using l r by (cases "uint b + sint offset < 0") (simp_all only: if_True if_False, linarith+)
  qed simp
  have i: "int (unat b) = uint b" for b :: u32 by simp
  show ?thesis
    using key [of 0] key [of "f_off (of_file s a)"] key [of sz] assms(1-3) unfolding file_llseek_def Let_def sz assms(1) not_less [symmetric]
    by (auto simp: seek_base_def i SEEK_SET_def SEEK_CUR_def SEEK_END_def not_less not_le)
qed

section \<open>Runs\<close>

text \<open>A write takes its bytes from address 0 of the memory of the caller, which the call carries.\<close>

datatype fop = FRead int int | FWrite int int mem | FSeek int u32 int

fun run_fop :: "files_struct \<Rightarrow> fop \<Rightarrow> 'd ofs \<Rightarrow> ((int \<times> u8 list) \<times> 'd ofs) kres option" where
  "run_fop fdt (FRead fd count) s = iobind (do_read fd 0 count fdt (\<lambda>_. 0) s) (\<lambda>(r, um, s'). Some (Inr ((r, get_bytes 0 (nat r) um), s')))"
| "run_fop fdt (FWrite fd count um) s = iobind (do_write fd 0 count fdt um s) (\<lambda>(r, s'). Some (Inr ((r, []), s')))"
| "run_fop fdt (FSeek fd offset whence) s = iobind (Some (file_llseek (fdt ! nat fd) offset whence s)) (\<lambda>(r, s'). Some (Inr ((r, []), s')))"

fun run_fops :: "files_struct \<Rightarrow> fop list \<Rightarrow> 'd ofs \<Rightarrow> ((int \<times> u8 list) list \<times> 'd ofs) kres option" where
  "run_fops fdt [] s = Some (Inr ([], s))"
| "run_fops fdt (p # ps) s = iobind (run_fop fdt p s) (\<lambda>(x, s1). iobind (run_fops fdt ps s1) (\<lambda>(xs, s2). Some (Inr (x # xs, s2))))"

text \<open>The contract: byte strings and the offset of each open file; \<open>ip\<close> is the number of the file behind an open file and \<open>fl\<close> its flags.\<close>

type_synonym fview = "u8 list list \<times> (addr \<Rightarrow> nat)"

fun fop_spec :: "files_struct \<Rightarrow> (addr \<Rightarrow> nat) \<Rightarrow> (addr \<Rightarrow> u32) \<Rightarrow> fop \<Rightarrow> fview \<Rightarrow> (int \<times> u8 list) \<times> fview" where
  "fop_spec fdt ip fl (FRead fd count) (fs, off) = (let a = fdt ! nat fd; x = fs ! ip a; r = min (nat count) (length x - off a) in
    if count = 0 then ((0, []), (fs, off)) else if TEST_FLAG (fl a) FILE_READ = 0 then ((-1, []), (fs, off))
    else ((int r, take r (drop (off a) x)), (fs, off(a := off a + r))))"
| "fop_spec fdt ip fl (FWrite fd count um) (fs, off) = (let a = fdt ! nat fd; x = fs ! ip a; d = get_bytes 0 (nat count) um in
    if count = 0 then ((0, []), (fs, off)) else if TEST_FLAG (fl a) FILE_WRITE = 0 then ((-1, []), (fs, off))
    else ((int (length d), []), (fs[ip a := splice (off a) d x], off(a := off a + length d))))"
| "fop_spec fdt ip fl (FSeek fd offset whence) (fs, off) = (let a = fdt ! nat fd; x = fs ! ip a; y = int (seek_base whence (off a) (length x)) + sint offset in
    if whence \<in> {SEEK_SET, SEEK_CUR, SEEK_END} \<and> 0 \<le> y \<and> y \<le> int (length x) then ((0, []), (fs, off(a := nat y))) else ((-1, []), (fs, off)))"

definition fd_open :: "files_struct \<Rightarrow> int \<Rightarrow> bool" where
  "fd_open fdt fd = (fd_ok fd \<and> fdt ! nat fd \<noteq> 0)"

text \<open>The calls that panic: a negative count, a descriptor out of range or not open, and a write that would reach the maximal size of a file.\<close>

fun fop_err :: "files_struct \<Rightarrow> (addr \<Rightarrow> u32) \<Rightarrow> fop \<Rightarrow> fview \<Rightarrow> kerr option" where
  "fop_err fdt fl (FRead fd count) v =
    (if count = 0 then None
     else if count < 0 then Some (Panic ''do_read count'')
     else if \<not> fd_ok fd then Some (Panic ''fget fd'')
     else if fdt ! nat fd = 0 then Some (Panic ''fget file NULL'')
     else None)"
| "fop_err fdt fl (FWrite fd count um) v =
    (if count = 0 then None
     else if count < 0 then Some (Panic ''do_write count'')
     else if \<not> fd_ok fd then Some (Panic ''fget fd'')
     else if fdt ! nat fd = 0 then Some (Panic ''fget file NULL'')
     else if TEST_FLAG (fl (fdt ! nat fd)) FILE_WRITE \<noteq> 0 \<and> MAXFILE * 4096 \<le> snd v (fdt ! nat fd) + nat count then Some (Panic ''file_write'')
     else None)"
| "fop_err fdt fl (FSeek fd offset whence) v = None"

fun fops_spec :: "files_struct \<Rightarrow> (addr \<Rightarrow> nat) \<Rightarrow> (addr \<Rightarrow> u32) \<Rightarrow> fop list \<Rightarrow> fview \<Rightarrow> ((int \<times> u8 list) list \<times> fview) kres" where
  "fops_spec fdt ip fl [] v = Inr ([], v)"
| "fops_spec fdt ip fl (p # ps) v = (case fop_err fdt fl p v of
      Some e \<Rightarrow> Inl e
    | None \<Rightarrow> let (x, v1) = fop_spec fdt ip fl p v in kbind (fops_spec fdt ip fl ps v1) (\<lambda>(xs, v2). Inr (x # xs, v2)))"

text \<open>A seek is on an open descriptor; the other calls may be given any descriptor.\<close>

fun fop_ok :: "files_struct \<Rightarrow> fop \<Rightarrow> bool" where
  "fop_ok fdt (FSeek fd offset whence) = fd_open fdt fd"
| "fop_ok fdt _ = True"

fun fop_mem :: "fop \<Rightarrow> nat" where
  "fop_mem (FRead fd count) = 39 * (pages_of (nat count) + 1) + 3"
| "fop_mem (FWrite fd count um) = 39 * pages_of (nat count) + 3"
| "fop_mem (FSeek fd offset whence) = 0"

fun fop_blocks :: "fop \<Rightarrow> nat" where
  "fop_blocks (FWrite fd count um) = 6 * pages_of (nat count)"
| "fop_blocks _ = 0"

text \<open>The invariant: every descriptor in the table is usable, and \<open>v\<close> is what the files hold.\<close>

definition open_ok :: "'d driver \<Rightarrow> ('d \<Rightarrow> u32 \<Rightarrow> page_data) \<Rightarrow> ('d \<Rightarrow> bool) \<Rightarrow> nat \<Rightarrow> addr list \<Rightarrow> files_struct \<Rightarrow> (addr \<Rightarrow> nat) \<Rightarrow> (addr \<Rightarrow> u32) \<Rightarrow> fview \<Rightarrow> 'd ofs \<Rightarrow> bool" where
  "open_ok ll_rw C usable n inos fdt ip fl v s = (files_ok ll_rw C usable n inos (of_efs s) \<and> length fdt = NOFILE \<and> fst v = map (file_of C (of_efs s)) inos \<and>
    (\<forall>a\<in>set fdt. a \<noteq> 0 \<longrightarrow> desc_ok inos s a \<and> \<not> f_mutex (of_file s a) \<and> ip a < length inos \<and> inos ! ip a = f_ip (of_file s a) \<and>
      fl a = f_flags (of_file s a) \<and> snd v a = unat (f_off (of_file s a))))"

lemma open_ok_desc:
  assumes "open_ok ll_rw C usable n inos fdt ip fl v s" "fd_open fdt fd" "a = fdt ! nat fd"
  shows "fd_ok fd" "a \<in> set fdt" "a \<noteq> 0" "desc_ok inos s a" "\<not> f_mutex (of_file s a)" "ip a < length inos" "inos ! ip a = f_ip (of_file s a)" "fl a = f_flags (of_file s a)"
    "snd v a = unat (f_off (of_file s a))" "f_ip (of_file s a) \<in> set inos" "f_ip (of_file s a) \<noteq> 0" "snd v a \<le> fsize (of_efs s) (f_ip (of_file s a))"
    "fst v ! ip a = file_of C (of_efs s) (f_ip (of_file s a))" "files_ok ll_rw C usable n inos (of_efs s)"
proof -
  have "nat fd < length fdt" using assms(1,2) by (auto simp: open_ok_def fd_open_def fd_ok_def NOFILE_def)
  then show a: "a \<in> set fdt" using assms(3) by simp
  show f: "fd_ok fd" "a \<noteq> 0" using assms(2,3) by (simp_all add: fd_open_def)
  show g: "desc_ok inos s a" "\<not> f_mutex (of_file s a)" "ip a < length inos" "inos ! ip a = f_ip (of_file s a)" "fl a = f_flags (of_file s a)"
    "snd v a = unat (f_off (of_file s a))" "files_ok ll_rw C usable n inos (of_efs s)" using assms(1) a f by (simp_all add: open_ok_def)
  then show "f_ip (of_file s a) \<in> set inos" "f_ip (of_file s a) \<noteq> 0" "snd v a \<le> fsize (of_efs s) (f_ip (of_file s a))" by (simp_all add: desc_ok_def Let_def)
  show "fst v ! ip a = file_of C (of_efs s) (f_ip (of_file s a))" using assms(1) g by (simp add: open_ok_def)
qed

text \<open>A call keeps the invariant when it moves the offset of its file within the new contents.\<close>

lemma open_ok_moved:
  assumes ok: "open_ok ll_rw C usable n inos fdt ip fl v s" and e: "files_ok ll_rw C usable n inos e" and fs: "fs = map (file_of C e) inos"
    and a: "a \<in> set fdt" "a \<noteq> 0" and o: "unat (f_off (of_file s a) + d) = y" "y \<le> fsize e (f_ip (of_file s a))"
    and g: "\<And>x. x \<in> set inos \<Longrightarrow> fsize (of_efs s) x \<le> fsize e x"
  shows "open_ok ll_rw C usable n inos fdt ip fl (fs, (snd v)(a := y)) (moved a d e s)"
proof -
  have "desc_ok inos (moved a d e s) b \<and> \<not> f_mutex (of_file (moved a d e s) b) \<and> ip b < length inos \<and> inos ! ip b = f_ip (of_file (moved a d e s) b) \<and>
    fl b = f_flags (of_file (moved a d e s) b) \<and> ((snd v)(a := y)) b = unat (f_off (of_file (moved a d e s) b))" if b: "b \<in> set fdt" "b \<noteq> 0" for b
  proof -
    have h: "desc_ok inos s b" "\<not> f_mutex (of_file s b)" "ip b < length inos" "inos ! ip b = f_ip (of_file s b)" "fl b = f_flags (of_file s b)" "snd v b = unat (f_off (of_file s b))"
      using ok b by (simp_all add: open_ok_def)
    have "fsize (of_efs s) (f_ip (of_file s b)) \<le> fsize e (f_ip (of_file s b))" using g h(1) by (simp add: desc_ok_def Let_def)
    then have "desc_ok inos (moved a d e s) b" using h(1) o by (auto simp: desc_ok_def Let_def)
    then show ?thesis using h(2-6) o(1) by auto
  qed
  then show ?thesis using ok e fs by (simp add: open_ok_def)
qed

lemma open_ok_id: "open_ok ll_rw C usable n inos fdt ip fl (fs, off) s \<Longrightarrow> fs = map (file_of C (of_efs s)) inos"
  by (simp add: open_ok_def)

lemma open_ok_view: "open_ok ll_rw C usable n inos fdt ip fl (fs, off) s \<Longrightarrow> off a = y \<Longrightarrow> open_ok ll_rw C usable n inos fdt ip fl (fs, off(a := y)) s"
  by (simp add: fun_upd_idem)

text \<open>A call on a file whose flags forbid it, and one that may go on.\<close>

lemma call_begin:
  assumes ok: "open_ok ll_rw C usable n inos fdt ip fl (fs, off) s" and fd: "fd_open fdt fd" "a = fdt ! nat fd" and mem: "0 < gd_mem (gd_of (of_efs s))"
  shows "\<exists>e. kalloc (of_efs s) = (Some (efs_next (of_efs s)), e) \<and> files_ok ll_rw C usable n inos e \<and> file_of C e = file_of C (of_efs s) \<and> fsize e = fsize (of_efs s) \<and>
    gd_mem (gd_of e) = gd_mem (gd_of (of_efs s)) - 1 \<and> bmap e = bmap (of_efs s) \<and> open_ok ll_rw C usable n inos fdt ip fl (fs, off) (moved a 0 (kfree_obj e) s) \<and>
    gd_mem (gd_of (kfree_obj e)) = gd_mem (gd_of (of_efs s)) \<and> bmap (kfree_obj e) = bmap (of_efs s)"
proof -
  note d = open_ok_desc [OF ok fd]
  obtain e where e: "kalloc (of_efs s) = (Some (efs_next (of_efs s)), e)" "files_ok ll_rw C usable n inos e" "file_of C e = file_of C (of_efs s)"
    "fsize e = fsize (of_efs s)" "gd_mem (gd_of e) = gd_mem (gd_of (of_efs s)) - 1" "bmap e = bmap (of_efs s)"
    using kalloc_obj [OF d(14) mem] by auto
  have "open_ok ll_rw C usable n inos fdt ip fl (fs, off) (moved a 0 (kfree_obj e) s)"
    using open_ok_moved [OF ok kfree_obj_ok(1) [OF e(2)] _ d(2,3), of fs 0 "off a"] d(9,12) kfree_obj_ok(2,3) [OF e(2)] e(3,4) open_ok_id [OF ok] by simp
  then show ?thesis using e kfree_obj_ok(4,5) [OF e(2)] mem by (intro exI [of _ e]) simp
qed

context block_driver
begin

lemma do_read_ok:
  assumes ok: "open_ok ll_rw contents usable nblocks inos fdt ip fl (fs, off) s" "nblocks \<le> 2 ^ 32" and p: "fop_err fdt fl (FRead fd count) (fs, off) = None"
    and mem: "fop_mem (FRead fd count) \<le> gd_mem (gd_of (of_efs s))" and sp: "fop_spec fdt ip fl (FRead fd count) (fs, off) = (x, v)"
  shows "\<exists>s'. run_fop fdt (FRead fd count) s = Some (Inr (x, s')) \<and> open_ok ll_rw contents usable nblocks inos fdt ip fl v s' \<and>
    gd_mem (gd_of (of_efs s)) \<le> gd_mem (gd_of (of_efs s')) + fop_mem (FRead fd count) \<and> room (bmap (of_efs s)) \<le> room (bmap (of_efs s'))"
proof (cases "count = 0")
  case True
  then show ?thesis using sp ok by (auto simp: do_read_def get_bytes_def)
next
  case False
  define a i where "a = fdt ! nat fd" and "i = f_ip (of_file s a)"
  have fd: "fd_open fdt fd" "0 < count" using p False by (auto simp: fd_open_def split: if_splits)
  note d = open_ok_desc [OF ok(1) fd(1) a_def, folded i_def]
  obtain e where e: "kalloc (of_efs s) = (Some (efs_next (of_efs s)), e)" "files_ok ll_rw contents usable nblocks inos e" "file_of contents e = file_of contents (of_efs s)"
    "fsize e = fsize (of_efs s)" "gd_mem (gd_of e) = gd_mem (gd_of (of_efs s)) - 1" "bmap e = bmap (of_efs s)"
    "open_ok ll_rw contents usable nblocks inos fdt ip fl (fs, off) (moved a 0 (kfree_obj e) s)" "gd_mem (gd_of (kfree_obj e)) = gd_mem (gd_of (of_efs s))" "bmap (kfree_obj e) = bmap (of_efs s)"
    using call_begin [OF ok(1) fd(1) a_def] mem by auto
  let ?s = "in_call a e s" and ?x = "file_of contents (of_efs s) i"
  show ?thesis
  proof (cases "TEST_FLAG (fl a) FILE_READ = 0")
    case True
    have l: "do_read_loop a 0 count 0 (replicate 4096 0) (\<lambda>_. 0) ?s = Some (Inr (-1, (\<lambda>_. 0), moved a 0 e ?s))"
      using fd(2) True d(8) by (subst do_read_loop.simps) (simp add: file_read_def moved_def upd_file_def in_call_def)
    show ?thesis using do_read_call [OF d(4,5,1) a_def [symmetric] fd(2) e(1) l] sp False True e(7-9)
      by (intro exI [of _ "moved a 0 (kfree_obj e) s"]) (simp add: a_def [symmetric] get_bytes_def)
  next
    case fl: False
    define r where "r = min (nat count) (fsize e i - off a)"
    have pg: "pages_of r \<le> pages_of (nat count)" by (simp add: r_def pages_of_mono)
    have q: "files_ok ll_rw contents usable nblocks inos (of_efs ?s)" "i = f_ip (of_file ?s a)" "TEST_FLAG (f_flags (of_file ?s a)) FILE_READ \<noteq> 0"
      "length (replicate 4096 (0 :: u8)) = 4096" "off a = unat (f_off (of_file ?s a))" "off a \<le> fsize (of_efs ?s) i" "r = min (nat count) (fsize (of_efs ?s) i - off a)" "0 \<le> count"
      using e(2,4) d(8,9,12) fl fd(2) by (simp_all add: i_def r_def)
    have q9: "39 * (pages_of r + 1) + 2 \<le> gd_mem (gd_of (of_efs ?s))" using mem pg unfolding moved_simps(3) e(5) fop_mem.simps by arith
    obtain e1 where e1: "do_read_loop a 0 count 0 (replicate 4096 0) (\<lambda>_. 0) ?s = Some (Inr (0 + int r, put_bytes 0 (take r (drop (off a) (file_of contents e i))) (\<lambda>_. 0), moved a (of_nat r) e1 ?s))"
      "files_ok ll_rw contents usable nblocks inos e1" "\<forall>x\<in>set inos. file_of contents e1 x = file_of contents e x"
      "gd_mem (gd_of e) \<le> gd_mem (gd_of e1) + 39 * (pages_of r + 1)" "room (bmap e) \<le> room (bmap e1)"
      using do_read_loop_ok [OF q(1) ok(2) q(2) d(10,11) q(3,4) q9 q(5-8)] unfolding moved_simps(3) by blast
    have sz: "fsize e1 y = fsize (of_efs s) y" if "y \<in> set inos" for y using e1(3) e(4) that by (metis length_file)
    have r: "r = min (nat count) (length ?x - off a)" "off a + r \<le> fsize (of_efs s) i" using d(12) by (simp_all add: r_def e(4))
    have o: "unat (f_off (of_file s a) + of_nat r) = off a + r" using files_size_bound [OF d(14,10)] r(2) d(9) by (simp add: unat_add_le unat_of_nat_id)
    have "open_ok ll_rw contents usable nblocks inos fdt ip fl (fs, off(a := off a + r)) (moved a (of_nat r) (kfree_obj e1) s)"
      using open_ok_moved [OF ok(1) kfree_obj_ok(1) [OF e1(2)] _ d(2,3) o, of fs] r(2) kfree_obj_ok(2,3) [OF e1(2)] e1(3) e(3) sz d(10) open_ok_id [OF ok(1)] by (simp add: i_def)
    moreover have "x = (int r, take r (drop (off a) ?x))" "v = (fs, off(a := off a + r))" using sp False fl d(13) unfolding r(1) by (simp_all add: a_def [symmetric] Let_def)
    moreover have "length (take r (drop (off a) ?x)) = r" using r(2) by simp
    then have "get_bytes 0 r (put_bytes 0 (take r (drop (off a) ?x)) (\<lambda>_. 0)) = take r (drop (off a) ?x)" using get_put_bytes by metis
    then have "run_fop fdt (FRead fd count) s = Some (Inr ((int r, take r (drop (off a) ?x)), moved a (of_nat r) (kfree_obj e1) s))"
      using do_read_call [OF d(4,5,1) a_def [symmetric] fd(2) e(1) e1(1)] by (simp add: e(3))
    moreover have "gd_mem (gd_of (of_efs s)) \<le> gd_mem (gd_of (kfree_obj e1)) + fop_mem (FRead fd count)" "room (bmap (of_efs s)) \<le> room (bmap (kfree_obj e1))"
      using e1(4,5) pg unfolding kfree_obj_ok(4,5) [OF e1(2)] e(5,6) fop_mem.simps by arith+
    ultimately show ?thesis by (intro exI [of _ "moved a (of_nat r) (kfree_obj e1) s"]) simp
  qed
qed

lemma do_write_ok:
  assumes ok: "open_ok ll_rw contents usable nblocks inos fdt ip fl (fs, off) s" "nblocks \<le> 2 ^ 32" and p: "fop_err fdt fl (FWrite fd count um) (fs, off) = None"
    and mem: "fop_mem (FWrite fd count um) \<le> gd_mem (gd_of (of_efs s))" "fop_blocks (FWrite fd count um) \<le> room (bmap (of_efs s))"
    and sp: "fop_spec fdt ip fl (FWrite fd count um) (fs, off) = (x, v)"
  shows "\<exists>s'. run_fop fdt (FWrite fd count um) s = Some (Inr (x, s')) \<and> open_ok ll_rw contents usable nblocks inos fdt ip fl v s' \<and>
    gd_mem (gd_of (of_efs s)) \<le> gd_mem (gd_of (of_efs s')) + fop_mem (FWrite fd count um) \<and> room (bmap (of_efs s)) \<le> room (bmap (of_efs s')) + fop_blocks (FWrite fd count um)"
proof (cases "count = 0")
  case True
  then show ?thesis using sp ok by (auto simp: do_write_def)
next
  case False
  define a i where "a = fdt ! nat fd" and "i = f_ip (of_file s a)"
  have fd: "fd_open fdt fd" "TEST_FLAG (fl a) FILE_WRITE \<noteq> 0 \<Longrightarrow> off a + nat count < MAXFILE * 4096" "0 < count"
    using p False by (auto simp: fd_open_def a_def split: if_splits)
  note d = open_ok_desc [OF ok(1) fd(1) a_def, folded i_def]
  obtain e where e: "kalloc (of_efs s) = (Some (efs_next (of_efs s)), e)" "files_ok ll_rw contents usable nblocks inos e" "file_of contents e = file_of contents (of_efs s)"
    "fsize e = fsize (of_efs s)" "gd_mem (gd_of e) = gd_mem (gd_of (of_efs s)) - 1" "bmap e = bmap (of_efs s)"
    "open_ok ll_rw contents usable nblocks inos fdt ip fl (fs, off) (moved a 0 (kfree_obj e) s)" "gd_mem (gd_of (kfree_obj e)) = gd_mem (gd_of (of_efs s))" "bmap (kfree_obj e) = bmap (of_efs s)"
    using call_begin [OF ok(1) fd(1) a_def] mem by auto
  let ?s = "in_call a e s" and ?x = "file_of contents (of_efs s) i" and ?dat = "get_bytes 0 (nat count) um" and ?r = "nat count"
  show ?thesis
  proof (cases "TEST_FLAG (fl a) FILE_WRITE = 0")
    case True
    have l: "do_write_loop a 0 count 0 (replicate 4096 0) um ?s = Some (Inr (-1, moved a 0 e ?s))"
      using fd(3) True d(8) by (subst do_write_loop.simps) (simp add: file_write_def moved_def upd_file_def in_call_def Let_def)
    show ?thesis using do_write_call [OF d(4,5,1) a_def [symmetric] fd(3) e(1) l] sp False True e(7-9)
      by (intro exI [of _ "moved a 0 (kfree_obj e) s"]) (simp add: a_def [symmetric])
  next
    case fl: False
    have q: "files_ok ll_rw contents usable nblocks inos (of_efs ?s)" "i = f_ip (of_file ?s a)" "TEST_FLAG (f_flags (of_file ?s a)) FILE_WRITE \<noteq> 0"
      "length (replicate 4096 (0 :: u8)) = 4096" "off a = unat (f_off (of_file ?s a))" "off a \<le> fsize (of_efs ?s) i" using e(2,4) d(8,9,12) fl by (simp_all add: i_def)
    have m: "39 * pages_of ?r + 2 \<le> gd_mem (gd_of (of_efs ?s))" "6 * pages_of ?r \<le> room (bmap (of_efs ?s))"
      using mem unfolding moved_simps(3) e(5,6) fop_mem.simps fop_blocks.simps by arith+
    obtain e1 where e1: "do_write_loop a 0 count 0 (replicate 4096 0) um ?s = Some (Inr (0 + int ?r, moved a (of_nat ?r) e1 ?s))" "files_ok ll_rw contents usable nblocks inos e1"
      "\<forall>x\<in>set inos. file_of contents e1 x = (if x = i then splice (off a) ?dat ?x else file_of contents (of_efs s) x)"
      "gd_mem (gd_of e) \<le> gd_mem (gd_of e1) + 39 * pages_of ?r" "room (bmap e) \<le> room (bmap e1) + 6 * pages_of ?r"
      using do_write_loop_ok [OF q(1) ok(2) q(2) d(10,11) q(3,4) m q(5,6) fd(2) [OF fl], where ub = 0 and t = 0 and um = um] fd(3) unfolding moved_simps(3) e(3) by auto
    have sz: "fsize e1 y = (if y = i then max (fsize (of_efs s) i) (off a + ?r) else fsize (of_efs s) y)" if "y \<in> set inos" for y
      using e1(3) that d(12) length_splice_end [of "off a" ?x ?dat] length_file [of contents e1 y] by (auto simp: i_def)
    have o: "unat (f_off (of_file s a) + of_nat ?r) = off a + ?r" using fd(2) [OF fl] d(9) by (simp add: unat_add_le unat_of_nat_id n_defs)
    have fs: "fs[ip a := splice (off a) ?dat ?x] = map (file_of contents (kfree_obj e1)) inos"
    proof (rule nth_equalityI)
      have dist: "distinct inos" using d(14) by (simp add: files_ok_def)
      show "fs[ip a := splice (off a) ?dat ?x] ! k = map (file_of contents (kfree_obj e1)) inos ! k" if "k < length (fs[ip a := splice (off a) ?dat ?x])" for k
        using that e1(3) d(6,7) dist open_ok_id [OF ok(1)] nth_eq_iff_index_eq [OF dist, of k "ip a"] by (auto simp: kfree_obj_ok(2) [OF e1(2)] nth_list_update)
    qed (use open_ok_id [OF ok(1)] in simp)
    have "open_ok ll_rw contents usable nblocks inos fdt ip fl (fs[ip a := splice (off a) ?dat ?x], off(a := off a + ?r)) (moved a (of_nat ?r) (kfree_obj e1) s)"
      using open_ok_moved [OF ok(1) kfree_obj_ok(1) [OF e1(2)] fs d(2,3) o] kfree_obj_ok(3) [OF e1(2)] sz d(10) by (simp add: i_def)
    moreover have "x = (int ?r, [])" "v = (fs[ip a := splice (off a) ?dat ?x], off(a := off a + ?r))" using sp False fl d(13) by (simp_all add: a_def [symmetric] Let_def)
    moreover have "run_fop fdt (FWrite fd count um) s = Some (Inr ((int ?r, []), moved a (of_nat ?r) (kfree_obj e1) s))"
      using do_write_call [OF d(4,5,1) a_def [symmetric] fd(3) e(1) e1(1)] by simp
    moreover have "gd_mem (gd_of (of_efs s)) \<le> gd_mem (gd_of (kfree_obj e1)) + fop_mem (FWrite fd count um)" "room (bmap (of_efs s)) \<le> room (bmap (kfree_obj e1)) + fop_blocks (FWrite fd count um)"
      using e1(4,5) unfolding kfree_obj_ok(4,5) [OF e1(2)] e(5,6) fop_mem.simps fop_blocks.simps by arith+
    ultimately show ?thesis by (intro exI [of _ "moved a (of_nat ?r) (kfree_obj e1) s"]) simp
  qed
qed

lemma seek_ok:
  assumes ok: "open_ok ll_rw contents usable nblocks inos fdt ip fl (fs, off) s" and p: "fop_ok fdt (FSeek fd offset whence)"
    and sp: "fop_spec fdt ip fl (FSeek fd offset whence) (fs, off) = (x, v)"
  shows "\<exists>s'. run_fop fdt (FSeek fd offset whence) s = Some (Inr (x, s')) \<and> open_ok ll_rw contents usable nblocks inos fdt ip fl v s' \<and> of_efs s' = of_efs s"
proof -
  define a i where "a = fdt ! nat fd" and "i = f_ip (of_file s a)"
  have fd: "fd_open fdt fd" using p by simp
  note d = open_ok_desc [OF ok fd a_def, folded i_def]
  define y where "y = int (seek_base whence (off a) (fsize (of_efs s) i)) + sint offset"
  have sz: "fsize (of_efs s) i < 2 ^ 31" by (rule files_size_bound [OF d(14,10)])
  define P where "P = (whence \<in> {SEEK_SET, SEEK_CUR, SEEK_END} \<and> 0 \<le> y \<and> y \<le> int (fsize (of_efs s) i))"
  have l: "file_llseek a offset whence s = (if P then Inr (0, upd_file a (\<lambda>f. f\<lparr>f_off := of_int y\<rparr>) s) else Inr (-1, s))"
    using llseek_exact [OF i_def [symmetric] d(11) _ sz, of offset whence] d(9,12) by (simp add: P_def y_def Let_def)
  have sp': "(x, v) = (if P then ((0, []), (fs, off(a := nat y))) else ((-1, []), (fs, off)))"
    using d(13) unfolding sp [symmetric] fop_spec.simps Let_def a_def [symmetric] P_def y_def by simp
  show ?thesis
  proof (cases P)
    case False
    then show ?thesis using l sp' ok by (intro exI [of _ s]) (simp add: a_def [symmetric])
  next
    case True
    let ?d = "of_int y - f_off (of_file s a)"
    have y: "0 \<le> y" "y \<le> int (fsize (of_efs s) i)" using True by (simp_all add: P_def)
    have m: "upd_file a (\<lambda>f. f\<lparr>f_off := of_int y\<rparr>) s = moved a ?d (of_efs s) s" by (simp add: moved_def upd_file_def)
    have u: "unat (f_off (of_file s a) + ?d) = nat y" using y sz by (simp add: unat_of_int)
    have "nat y \<le> fsize (of_efs s) i" using y by simp
    then have "open_ok ll_rw contents usable nblocks inos fdt ip fl (fs, (snd (fs, off))(a := nat y)) (moved a ?d (of_efs s) s)"
      using open_ok_id [OF ok] by (intro open_ok_moved [OF ok d(14) _ d(2,3) u]) (simp_all add: i_def)
    then show ?thesis using l sp' True m by (intro exI [of _ "moved a ?d (of_efs s) s"]) (simp add: a_def [symmetric])
  qed
qed

lemma run_fop_ok:
  assumes "open_ok ll_rw contents usable nblocks inos fdt ip fl v s" "nblocks \<le> 2 ^ 32" "fop_ok fdt p" "fop_err fdt fl p v = None"
    "fop_mem p \<le> gd_mem (gd_of (of_efs s))" "fop_blocks p \<le> room (bmap (of_efs s))"
  shows "\<exists>s'. run_fop fdt p s = Some (Inr (fst (fop_spec fdt ip fl p v), s')) \<and> open_ok ll_rw contents usable nblocks inos fdt ip fl (snd (fop_spec fdt ip fl p v)) s' \<and>
    gd_mem (gd_of (of_efs s)) \<le> gd_mem (gd_of (of_efs s')) + fop_mem p \<and> room (bmap (of_efs s)) \<le> room (bmap (of_efs s')) + fop_blocks p"
proof -
  obtain fs off where v: "v = (fs, off)" by fastforce
  obtain x w where sp: "fop_spec fdt ip fl p (fs, off) = (x, w)" by (rule prod.exhaust)
  show ?thesis
  proof (cases p)
    case (FRead fd count)
    note a = assms [unfolded v FRead]
    from do_read_ok [OF a(1,2,4,5) sp [unfolded FRead]] show ?thesis unfolding v FRead sp [unfolded FRead] by simp
  next
    case (FWrite fd count um)
    note a = assms [unfolded v FWrite]
    from do_write_ok [OF a(1,2,4,5,6) sp [unfolded FWrite]] show ?thesis unfolding v FWrite sp [unfolded FWrite] by simp
  next
    case (FSeek fd offset whence)
    then show ?thesis using seek_ok [of inos fdt ip fl fs off s fd offset whence x w] assms sp unfolding v by fastforce
  qed
qed

lemma do_write_full:
  assumes ok: "open_ok ll_rw contents usable nblocks inos fdt ip fl (fs, off) s" "nblocks \<le> 2 ^ 32" and fd: "fd_open fdt fd" "a = fdt ! nat fd" "TEST_FLAG (fl a) FILE_WRITE \<noteq> 0"
    and c: "0 < count" "MAXFILE * 4096 \<le> off a + nat count"
    and mem: "39 * pages_of (nat count) + 3 \<le> gd_mem (gd_of (of_efs s))" "6 * pages_of (nat count) \<le> room (bmap (of_efs s))"
  shows "do_write fd ub count fdt um s = Some (Inl (Panic ''file_write''))"
proof -
  define i where "i = f_ip (of_file s a)"
  note d = open_ok_desc [OF ok(1) fd(1,2), folded i_def]
  obtain e where e: "kalloc (of_efs s) = (Some (efs_next (of_efs s)), e)" "files_ok ll_rw contents usable nblocks inos e"
    "fsize e = fsize (of_efs s)" "gd_mem (gd_of e) = gd_mem (gd_of (of_efs s)) - 1" "bmap e = bmap (of_efs s)"
    using call_begin [OF ok(1) fd(1,2)] mem by auto
  let ?s = "in_call a e s"
  have l: "file_lock a ((upd_file a (\<lambda>x. x\<lparr>f_ref := f_ref x + 1\<rparr>) s)\<lparr>of_efs := e\<rparr>) = Some (Inr ?s)" using d(5) by (simp add: file_lock_def in_call_def comp_def)
  have q: "files_ok ll_rw contents usable nblocks inos (of_efs ?s)" "i = f_ip (of_file ?s a)" "TEST_FLAG (f_flags (of_file ?s a)) FILE_WRITE \<noteq> 0"
    "length (replicate 4096 (0 :: u8)) = 4096" "off a = unat (f_off (of_file ?s a))" "off a \<le> fsize (of_efs ?s) i" "0 < nat count" using e(2,3) d(8,9,12) fd(3) c(1) by (simp_all add: i_def)
  have m: "39 * pages_of (nat count) + 2 \<le> gd_mem (gd_of (of_efs ?s))" "6 * pages_of (nat count) \<le> room (bmap (of_efs ?s))" using mem unfolding moved_simps(3) e(4,5) by arith+
  have "do_write_loop a ub (int (nat count)) 0 (replicate 4096 0) um ?s = Some (Inl (Panic ''file_write''))"
    by (rule do_write_loop_full [OF q(1) ok(2) q(2) d(10,11) q(3,4) m q(5,6) c(2) q(7)])
  then show ?thesis using c(1) e(1) l by (simp add: do_write_def fget_ok [OF d(4,1) fd(2) [symmetric]] iobind_def)
qed

lemma run_fop_err:
  assumes "open_ok ll_rw contents usable nblocks inos fdt ip fl v s" "nblocks \<le> 2 ^ 32" "fop_err fdt fl p v = Some e"
    "fop_mem p \<le> gd_mem (gd_of (of_efs s))" "fop_blocks p \<le> room (bmap (of_efs s))"
  shows "run_fop fdt p s = Some (Inl e)"
proof (cases p)
  case (FRead fd count)
  then show ?thesis using assms(3) by (auto simp: do_read_def fget_def kassert_def iobind_def Let_def split: if_splits)
next
  case (FWrite fd count um)
  obtain fs off where v: "v = (fs, off)" by fastforce
  let ?a = "fdt ! nat fd"
  show ?thesis
  proof (cases "0 < count \<and> fd_ok fd \<and> ?a \<noteq> 0")
    case True
    then have "TEST_FLAG (fl ?a) FILE_WRITE \<noteq> 0" "MAXFILE * 4096 \<le> off ?a + nat count" "e = Panic ''file_write''"
      using assms(3) by (auto simp: FWrite v split: if_splits)
    then have "do_write fd 0 count fdt um s = Some (Inl e)"
      using do_write_full [OF assms(1) [unfolded v] assms(2) _ refl, of fd count 0 um] True assms(4,5) FWrite by (simp add: fd_open_def)
    then show ?thesis by (simp add: FWrite iobind_def)
  next
    case False
    then show ?thesis using assms(3) by (auto simp: FWrite do_write_def fget_def kassert_def iobind_def Let_def split: if_splits)
  qed
next
  case (FSeek fd offset whence)
  then show ?thesis using assms(3) by simp
qed

lemma run_fops_ok:
  assumes "open_ok ll_rw contents usable nblocks inos fdt ip fl v s" "nblocks \<le> 2 ^ 32" "\<forall>p\<in>set ps. fop_ok fdt p"
    "sum_list (map fop_mem ps) \<le> gd_mem (gd_of (of_efs s))" "sum_list (map fop_blocks ps) \<le> room (bmap (of_efs s))"
  shows "case fops_spec fdt ip fl ps v of
      Inl e \<Rightarrow> run_fops fdt ps s = Some (Inl e)
    | Inr (xs, w) \<Rightarrow> \<exists>s'. run_fops fdt ps s = Some (Inr (xs, s')) \<and> open_ok ll_rw contents usable nblocks inos fdt ip fl w s'"
  using assms
proof (induction ps arbitrary: v s)
  case (Cons p ps)
  have m: "fop_mem p \<le> gd_mem (gd_of (of_efs s))" "fop_blocks p \<le> room (bmap (of_efs s))" "fop_ok fdt p" using Cons.prems(3-5) by auto
  show ?case
  proof (cases "fop_err fdt fl p v")
    case (Some e)
    then show ?thesis using run_fop_err [OF Cons.prems(1,2) Some m(1,2)] by (simp add: iobind_def)
  next
    case None
    obtain x v1 where sp: "fop_spec fdt ip fl p v = (x, v1)" by (rule prod.exhaust)
    obtain s1 where r: "run_fop fdt p s = Some (Inr (x, s1))" "open_ok ll_rw contents usable nblocks inos fdt ip fl v1 s1"
      "gd_mem (gd_of (of_efs s)) \<le> gd_mem (gd_of (of_efs s1)) + fop_mem p" "room (bmap (of_efs s)) \<le> room (bmap (of_efs s1)) + fop_blocks p"
      using run_fop_ok [OF Cons.prems(1,2) m(3) None m(1,2), unfolded sp fst_conv snd_conv] by blast
    have q: "\<forall>p\<in>set ps. fop_ok fdt p" "sum_list (map fop_mem ps) \<le> gd_mem (gd_of (of_efs s1))" "sum_list (map fop_blocks ps) \<le> room (bmap (of_efs s1))"
      using Cons.prems(3-5) r(3,4) by auto
    note ih = Cons.IH [OF r(2) Cons.prems(2) q]
    have run: "run_fops fdt (p # ps) s = iobind (run_fops fdt ps s1) (\<lambda>(xs, s2). Some (Inr (x # xs, s2)))" by (simp add: r(1))
    have spec: "fops_spec fdt ip fl (p # ps) v = kbind (fops_spec fdt ip fl ps v1) (\<lambda>(xs, v2). Inr (x # xs, v2))" by (simp add: None sp)
    show ?thesis unfolding run spec using ih by (cases "fops_spec fdt ip fl ps v1") (auto simp: iobind_def)
  qed
qed simp

end

text \<open>
  C8: Over every driver that transfers whole blocks, any sequence of read and write calls with any descriptors and counts, and of seeks on open
  descriptors, from a consistent state (free data blocks hold zeros, as for the inodes), behaves as on a list of byte strings with one offset for each
  open file, provided the free pages and free blocks suffice for the calls: a
  read gives the bytes from the offset up to the count or the end of the file and moves the offset behind them, a write replaces or extends the file at the
  offset and moves it, a call that the flags of the file do not allow gives -1 and changes nothing, and a seek is exact with its argument taken as a signed
  number and gives -1 outside the file.  Descriptors that share an open file share its offset.  The run returns, unless it comes to a call with a negative
  count, with a descriptor that is out of range or not open, or to a write through a writable descriptor that would reach the maximal file size: there it
  panics, with the message of that call.
\<close>

theorem open_files_refine:
  assumes "block_driver ll_rw contents usable nblocks" "nblocks \<le> 2 ^ 32" "open_ok ll_rw contents usable nblocks inos fdt ip fl v s" "\<forall>p\<in>set ps. fop_ok fdt p"
    "sum_list (map fop_mem ps) \<le> gd_mem (gd_of (of_efs s))" "sum_list (map fop_blocks ps) \<le> room (bmap (of_efs s))"
  shows "case fops_spec fdt ip fl ps v of
      Inl e \<Rightarrow> run_fops fdt ps s = Some (Inl e)
    | Inr (xs, w) \<Rightarrow> \<exists>s'. run_fops fdt ps s = Some (Inr (xs, s')) \<and> open_ok ll_rw contents usable nblocks inos fdt ip fl w s'"
  by (rule block_driver.run_fops_ok [OF assms(1,3,2,4-6)])

text \<open>
  C36: A write call that would make its file reach the maximal size does not fail with an error: it panics the kernel, from any consistent state and
  for any descriptor that is open for writing, provided the free pages and free blocks suffice for the data.
\<close>

theorem do_write_reaching_max_panics:
  assumes "block_driver ll_rw contents usable nblocks" "nblocks \<le> 2 ^ 32" "open_ok ll_rw contents usable nblocks inos fdt ip fl (fs, off) s"
    "fd_open fdt fd" "TEST_FLAG (fl (fdt ! nat fd)) FILE_WRITE \<noteq> 0" "0 < count" "MAXFILE * 4096 \<le> off (fdt ! nat fd) + nat count"
    "39 * pages_of (nat count) + 3 \<le> gd_mem (gd_of (of_efs s))" "6 * pages_of (nat count) \<le> room (bmap (of_efs s))"
  shows "do_write fd ub count fdt um s = Some (Inl (Panic ''file_write''))"
  using assms by (intro block_driver.do_write_full [OF assms(1,3,2,4) refl])

text \<open>
  C37: A seek never leaves the file: whatever the offset and the origin are, it gives 0 or -1, the offset stays between 0 and the size, and it is
  the origin plus the signed argument exactly when that lies in the file.
\<close>

theorem file_llseek_bounds:
  assumes "f_ip (of_file s a) = i" "i \<noteq> 0" "unat (f_off (of_file s a)) \<le> fsize (of_efs s) i" "fsize (of_efs s) i < 2 ^ 31"
  shows "\<exists>r s'. file_llseek a offset whence s = Inr (r, s') \<and> unat (f_off (of_file s' a)) \<le> fsize (of_efs s') i \<and> of_efs s' = of_efs s \<and>
    (if whence \<in> {SEEK_SET, SEEK_CUR, SEEK_END} \<and> int (seek_base whence (unat (f_off (of_file s a))) (fsize (of_efs s) i)) + sint offset \<in> {0..int (fsize (of_efs s) i)}
     then r = 0 \<and> int (unat (f_off (of_file s' a))) = int (seek_base whence (unat (f_off (of_file s a))) (fsize (of_efs s) i)) + sint offset
     else r = -1 \<and> s' = s)"
proof -
  define y where "y = int (seek_base whence (unat (f_off (of_file s a))) (fsize (of_efs s) i)) + sint offset"
  define P where "P = (whence \<in> {SEEK_SET, SEEK_CUR, SEEK_END} \<and> 0 \<le> y \<and> y \<le> int (fsize (of_efs s) i))"
  have l: "file_llseek a offset whence s = (if P then Inr (0, upd_file a (\<lambda>f. f\<lparr>f_off := of_int y\<rparr>) s) else Inr (-1, s))"
    using llseek_exact [OF assms, of offset whence] by (simp add: P_def y_def Let_def)
  have u: "unat (of_int y :: u32) = nat y" if P using that assms(4) by (intro unat_of_int) (auto simp: P_def)
  show ?thesis
  proof (cases P)
    case True
    let ?t = "upd_file a (\<lambda>f. f\<lparr>f_off := of_int y\<rparr>) s"
    have "unat (f_off (of_file ?t a)) = nat y" using u [OF True] by simp
    then show ?thesis using l True unfolding y_def [symmetric] by (intro exI [of _ 0] exI [of _ ?t]) (auto simp: P_def)
  next
    case False
    then show ?thesis using l assms(3) unfolding y_def [symmetric] by (intro exI [of _ "-1"] exI [of _ s]) (auto simp: P_def)
  qed
qed

text \<open>The copied entries, and one reference more for each of them.\<close>

definition ref_room :: "files_struct \<Rightarrow> 'd ofs \<Rightarrow> bool" where
  "ref_room fdt s = (\<forall>f\<in>set fdt. f \<noteq> 0 \<longrightarrow> 0 < sint (f_ref (of_file s f)) \<and> sint (f_ref (of_file s f)) + int (count_list fdt f) < 2 ^ 31)"

definition more_refs :: "files_struct \<Rightarrow> 'd ofs \<Rightarrow> 'd ofs" where
  "more_refs fdt s = s\<lparr>of_file := (\<lambda>f. if f = 0 then of_file s f else (of_file s f)\<lparr>f_ref := f_ref (of_file s f) + of_nat (count_list fdt f)\<rparr>)\<rparr>"

lemma more_refs_same:
  assumes "\<forall>f. f \<noteq> 0 \<longrightarrow> count_list fdt f = 0"
  shows "more_refs fdt s = s"
proof -
  have "(\<lambda>f. if f = 0 then of_file s f else (of_file s f)\<lparr>f_ref := f_ref (of_file s f) + of_nat (count_list fdt f)\<rparr>) = of_file s"
    using assms by (intro ext) simp
  then show ?thesis by (simp add: more_refs_def)
qed

lemma copy_step:
  assumes "ref_room (f # fdt) s"
  shows "\<exists>s1. (if f \<noteq> 0 then file_dup f s else Inr s) = Inr s1 \<and> ref_room fdt s1 \<and> more_refs fdt s1 = more_refs (f # fdt) s"
proof (cases "f = 0")
  case True
  have "ref_room fdt s" using assms unfolding ref_room_def by (fastforce simp: True split: if_splits)
  moreover have "more_refs fdt s = more_refs (f # fdt) s" by (simp add: more_refs_def True cong: if_cong)
  ultimately show ?thesis using True by simp
next
  case False
  have r: "0 < sint (f_ref (of_file s f))" "sint (f_ref (of_file s f)) + int (count_list fdt f) < 2 ^ 31 - 1"
    using assms False by (auto simp: ref_room_def)
  let ?s = "upd_file f (\<lambda>x. x\<lparr>f_ref := f_ref x + 1\<rparr>) s"
  have i: "sint (f_ref (of_file s f) + 1) = sint (f_ref (of_file s f)) + 1" using r by (intro ref_inc) linarith+
  have "file_dup f s = Inr ?s" using r(1) by (simp add: file_dup_def kassert_def atomic_inc_def atomic_add_def)
  moreover have "ref_room fdt ?s" unfolding ref_room_def
  proof (intro ballI impI)
    fix g assume g: "g \<in> set fdt" "g \<noteq> 0"
    show "0 < sint (f_ref (of_file ?s g)) \<and> sint (f_ref (of_file ?s g)) + int (count_list fdt g) < 2 ^ 31"
      using assms g r i by (cases "g = f") (auto simp: ref_room_def)
  qed
  moreover have "more_refs fdt ?s = more_refs (f # fdt) s"
    using False by (auto simp: more_refs_def upd_file_def fun_eq_iff add.assoc add.commute)
  ultimately show ?thesis using False by auto
qed

lemma copy_loop_ok:
  assumes "length pa_fdt = NOFILE" "length ch_fdt = NOFILE" "i \<le> NOFILE" "ref_room (drop i pa_fdt) s"
  shows "copy_loop i pa_fdt ch_fdt s = Inr (take i ch_fdt @ drop i pa_fdt, more_refs (drop i pa_fdt) s)"
  using assms
proof (induction "NOFILE - i" arbitrary: i ch_fdt s)
  case 0
  then show ?case by (subst copy_loop.simps) (simp add: more_refs_same)
next
  case (Suc k)
  have i: "i < NOFILE" using Suc.hyps(2) by simp
  have d: "drop i pa_fdt = pa_fdt ! i # drop (i + 1) pa_fdt" using i Suc.prems(1) by (simp add: Cons_nth_drop_Suc)
  obtain s1 where s1: "(if pa_fdt ! i \<noteq> 0 then file_dup (pa_fdt ! i) s else Inr s) = Inr s1" "ref_room (drop (i + 1) pa_fdt) s1"
    "more_refs (drop (i + 1) pa_fdt) s1 = more_refs (drop i pa_fdt) s" using copy_step [OF Suc.prems(4) [unfolded d]] unfolding d by blast
  have "copy_loop (i + 1) pa_fdt (ch_fdt[i := pa_fdt ! i]) s1 = Inr (take (i + 1) (ch_fdt[i := pa_fdt ! i]) @ drop (i + 1) pa_fdt, more_refs (drop i pa_fdt) s)"
    using Suc.hyps(1) [of "i + 1" "ch_fdt[i := pa_fdt ! i]" s1] Suc.hyps(2) Suc.prems(1,2) s1(2,3) i by simp
  moreover have "take (i + 1) (ch_fdt[i := pa_fdt ! i]) = take i ch_fdt @ [pa_fdt ! i]" using i Suc.prems(2) by (simp add: take_Suc_conv_app_nth)
  ultimately show ?case using i s1(1) by (subst copy_loop.simps) (simp add: d)
qed

text \<open>
  C38: \<open>copy_files\<close> copies in the wrong direction.  For all tables of the two tasks, every entry of the parent's table is overwritten with the
  entry of the child's table, the child's table does not change, each file of the child's table gains one reference for each of its entries, and the reference
  counts of the files that only the parent had open are not changed.  In a fork the child's table is empty: the parent loses all its descriptors and
  nothing else changes, so its files stay open without a descriptor.
\<close>

theorem copy_files_overwrites_parent:
  assumes "length ch = NOFILE" "length pa = NOFILE" "ref_room ch s"
  shows "\<exists>s1. copy_files ch pa s = Inr (ch, ch, s1) \<and> of_efs s1 = of_efs s \<and>
    (\<forall>f. of_file s1 f = (if f \<in> set ch \<and> f \<noteq> 0 then (of_file s f)\<lparr>f_ref := f_ref (of_file s f) + of_nat (count_list ch f)\<rparr> else of_file s f)) \<and>
    (ch = files_init \<longrightarrow> s1 = s)"
proof -
  have "copy_files ch pa s = Inr (ch, ch, more_refs ch s)" using copy_loop_ok [of ch pa 0 s] assms by (simp add: copy_files_def Let_def)
  moreover have "of_file (more_refs ch s) f = (if f \<in> set ch \<and> f \<noteq> 0 then (of_file s f)\<lparr>f_ref := f_ref (of_file s f) + of_nat (count_list ch f)\<rparr> else of_file s f)" for f
    by (simp add: more_refs_def count_list_0_iff)
  moreover have "more_refs ch s = s" if "ch = files_init"
  proof -
    have "\<forall>f. f \<noteq> 0 \<longrightarrow> count_list ch f = 0" using that by (simp add: count_list_0_iff files_init_def)
    then show ?thesis by (rule more_refs_same)
  qed
  ultimately show ?thesis by (intro exI [of _ "more_refs ch s"]) (simp add: more_refs_def)
qed

section \<open>Examples\<close>

text \<open>A file on the RAM disk, open for reading and writing at descriptor 0 and for reading at descriptor 1.\<close>

definition sample_fdt :: files_struct where
  "sample_fdt = [100, 101] @ replicate 14 0"

definition sample_open :: "'d efs \<Rightarrow> 'd ofs" where
  "sample_open e = \<lparr>of_efs = e, of_file = (\<lambda>a. \<lparr>f_ref = 1, f_flags = (if a = 100 then 3 else 1), f_ip = 2, f_off = 0, f_mutex = False\<rparr>)\<rparr>"

definition sample_fops :: "fop list" where
  "sample_fops = [FWrite 0 4 (put_bytes 0 [1, 2, 3, 4] (\<lambda>_. 0)), FRead 1 3, FSeek 0 (-1) 2, FRead 0 7, FWrite 1 1 (\<lambda>_. 9), FSeek 1 5 0]"

definition sample_view :: fview where
  "sample_view = ([[]], (\<lambda>_. 0))"

lemma sample_open_ok:
  assumes "files_ok drv C usable n [2] e" "file_of C e 2 = []"
  shows "open_ok drv C usable n [2] sample_fdt (\<lambda>_. 0) (\<lambda>a. if a = 100 then 3 else 1) sample_view (sample_open e)"
proof -
  have "length sample_fdt = NOFILE" "set sample_fdt \<subseteq> {0, 100, 101}" by (auto simp: sample_fdt_def NOFILE_def)
  then show ?thesis using assms by (auto simp: open_ok_def sample_open_def sample_view_def desc_ok_def Let_def)
qed

lemma sample_file:
  assumes "files_ok drv C usable n [] (efs_fresh drv w gd)" "n \<le> 2 ^ 32" "0 < gd_mem gd"
  shows "\<exists>e. efs_i_new (efs_fresh drv w gd) = Inr (2, e) \<and> files_ok drv C usable n [2] e \<and> file_of C e 2 = [] \<and> gd_mem (gd_of e) = gd_mem gd - 1 \<and> bmap e = efs_empty_map w"
  using new_correct [OF assms(1,2)] assms(3) by (auto simp: efs_fresh_parts efs_empty_map_ok)

theorem open_files_refine_witness:
  "\<exists>gd e s'. gendisk_init (Some mvirt_blk_ll_rw) efs_zero_disk = Inr (mvirt_blk_ll_rw, gd) \<and> efs_i_new (efs_fresh mvirt_blk_ll_rw 1 gd) = Inr (2, e) \<and>
    run_fops sample_fdt sample_fops (sample_open e) = Some (Inr ([(4, []), (3, [1, 2, 3]), (0, []), (1, [4]), (-1, []), (-1, [])], s')) \<and> file_of mvirt_contents (of_efs s') 2 = [1, 2, 3, 4] \<and>
    run_fops sample_fdt [FRead 0 1, FRead 5 1] (sample_open e) = Some (Inl (Panic ''fget file NULL''))"
proof -
  obtain gd where g: "gendisk_init (Some mvirt_blk_ll_rw) efs_zero_disk = Inr (mvirt_blk_ll_rw, gd)" "gd_mem gd = 999"
    "files_ok mvirt_blk_ll_rw mvirt_contents (\<lambda>_. True) 1024 [] (efs_fresh mvirt_blk_ll_rw 1 gd)" using efs_fresh_ok by blast
  obtain e where e: "efs_i_new (efs_fresh mvirt_blk_ll_rw 1 gd) = Inr (2, e)" "files_ok mvirt_blk_ll_rw mvirt_contents (\<lambda>_. True) 1024 [2] e" "file_of mvirt_contents e 2 = []"
    "gd_mem (gd_of e) = 998" "bmap e = efs_empty_map 1" using sample_file [OF g(3)] g(2) by auto
  let ?fl = "\<lambda>a. if a = 100 then 3 else 1 :: u32"
  have t: "TEST_FLAG (3 :: u32) FILE_READ \<noteq> 0" "TEST_FLAG (1 :: u32) FILE_READ \<noteq> 0" "TEST_FLAG (3 :: u32) FILE_WRITE \<noteq> 0" "TEST_FLAG (1 :: u32) FILE_WRITE = 0"
    by (simp_all add: TEST_FLAG_def FILE_READ_def FILE_WRITE_def)
  have b: "get_bytes 0 4 (put_bytes 0 [1, 2, 3, 4] (\<lambda>_. 0)) = [1, 2, 3, 4]" using get_put_bytes [of 0 "[1, 2, 3, 4]" "\<lambda>_. 0"] by (simp add: eval_nat_numeral)
  note ev = sample_fops_def sample_fdt_def sample_view_def t b fd_ok_def NOFILE_def Let_def splice_def seek_base_def SEEK_SET_def SEEK_CUR_def SEEK_END_def n_defs
  obtain off where sp: "fops_spec sample_fdt (\<lambda>_. 0) ?fl sample_fops sample_view = Inr ([(4, []), (3, [1, 2, 3]), (0, []), (1, [4]), (-1, []), (-1, [])], [[1, 2, 3, 4]], off)"
    by (simp add: ev)
  have err: "fops_spec sample_fdt (\<lambda>_. 0) ?fl [FRead 0 1, FRead 5 1] sample_view = Inl (Panic ''fget file NULL'')" by (simp add: ev)
  have mem: "sum_list (map fop_mem sample_fops) \<le> gd_mem (gd_of (of_efs (sample_open e)))" "sum_list (map fop_blocks sample_fops) \<le> room (bmap (of_efs (sample_open e)))"
    "sum_list (map fop_mem [FRead 0 1, FRead 5 1]) \<le> gd_mem (gd_of (of_efs (sample_open e)))" "sum_list (map fop_blocks [FRead 0 1, FRead 5 1]) \<le> room (bmap (of_efs (sample_open e)))"
    using e(4,5) by (simp_all add: sample_open_def sample_fops_def pages_of_def efs_empty_map_ok)
  note ref = open_files_refine [OF mvirt.block_driver_axioms _ sample_open_ok [OF e(2,3)]]
  have "\<forall>p\<in>set sample_fops. fop_ok sample_fdt p" by (simp add: ev fd_open_def)
  then obtain s' where s': "run_fops sample_fdt sample_fops (sample_open e) = Some (Inr ([(4, []), (3, [1, 2, 3]), (0, []), (1, [4]), (-1, []), (-1, [])], s'))"
    "open_ok mvirt_blk_ll_rw mvirt_contents (\<lambda>_. True) 1024 [2] sample_fdt (\<lambda>_. 0) ?fl ([[1, 2, 3, 4]], off) s'"
    using ref [OF _ _ mem(1,2)] unfolding sp by auto
  have "run_fops sample_fdt [FRead 0 1, FRead 5 1] (sample_open e) = Some (Inl (Panic ''fget file NULL''))" using ref [OF _ _ mem(3,4)] unfolding err by simp
  moreover have "[file_of mvirt_contents (of_efs s') 2] = [[1, 2, 3, 4]]" using s'(2) unfolding open_ok_def by simp
  ultimately show ?thesis using g(1) e(1) s'(1) by auto
qed

text \<open>A disk of 8192 blocks, kept by an ideal driver.\<close>

definition ideal_ll_rw :: "(u32 \<Rightarrow> page_data) driver" where
  "ideal_ll_rw d b pg rw = (if rw = DEV_READ then Inr (d, d b) else Inr (d(b := pg), pg))"

definition ideal_disk :: "(u32 \<Rightarrow> page_data) gendisk" where
  "ideal_disk = \<lparr>gd_dev = (\<lambda>_ _. 0), gd_queue = [], gd_bufs = (\<lambda>_. \<lparr>bh_flags = 0, bh_blockno = 0, bh_locked = False, bh_refcnt = 0, bh_page = (\<lambda>_. 0)\<rparr>),
    gd_hash = \<lparr>ht_size = 0, ht_count = 0, ht_heads = []\<rparr>, gd_active = [], gd_inactive = [], gd_active_count = 0, gd_inactive_count = 0, gd_dirty = [],
    gd_mem = 100000, gd_next = 1\<rparr>"

lemma ideal_driver: "block_driver ideal_ll_rw (\<lambda>d. d) (\<lambda>_. True) n"
  by unfold_locales (auto simp: ideal_ll_rw_def DEV_READ_def DEV_WRITE_def)

theorem do_write_reaching_max_panics_witness:
  "\<exists>gd e. gendisk_init (Some ideal_ll_rw) ideal_disk = Inr (ideal_ll_rw, gd) \<and> efs_i_new (efs_fresh ideal_ll_rw 128 gd) = Inr (2, e) \<and>
    do_write 0 0 4243456 sample_fdt (\<lambda>_. 0) (sample_open e) = Some (Inl (Panic ''file_write''))"
proof -
  obtain gd where g: "gendisk_init (Some ideal_ll_rw) ideal_disk = Inr (ideal_ll_rw, gd)" "disk_ok (\<lambda>_. True) gd" "clean (\<lambda>d. d) 8192 gd" "gd_queue gd = []" "gd_mem gd = 99999"
    "\<forall>b. view (\<lambda>d. d) gd b = (\<lambda>_. 0)" using block_driver.gendisk_init_correct [OF ideal_driver, of ideal_disk 8192] by (auto simp: ideal_disk_def)
  have "flat (\<lambda>d. d) gd p = 0" for p using g(6) by (simp add: flat_def)
  then have "files_ok ideal_ll_rw (\<lambda>d. d) (\<lambda>_. True) 8192 [] (efs_fresh ideal_ll_rw 128 gd)" using efs_fresh_files_ok [OF g(2-4), of 128] by simp
  from sample_file [OF this] g(5) obtain e where e: "efs_i_new (efs_fresh ideal_ll_rw 128 gd) = Inr (2, e)" "files_ok ideal_ll_rw (\<lambda>d. d) (\<lambda>_. True) 8192 [2] e"
    "file_of (\<lambda>d. d) e 2 = []" "gd_mem (gd_of e) = 99998" "bmap e = efs_empty_map 128" by auto
  have "fd_open sample_fdt 0" "sample_fdt ! nat 0 = 100" by (simp_all add: fd_open_def fd_ok_def sample_fdt_def NOFILE_def)
  moreover have "TEST_FLAG (3 :: u32) FILE_WRITE \<noteq> 0" by (simp add: TEST_FLAG_def FILE_WRITE_def)
  ultimately have "do_write 0 0 4243456 sample_fdt (\<lambda>_. 0) (sample_open e) = Some (Inl (Panic ''file_write''))"
    using e(4,5) by (intro do_write_reaching_max_panics [OF ideal_driver _ sample_open_ok [OF e(2,3), unfolded sample_view_def]])
      (simp_all add: n_defs pages_of_def sample_open_def efs_empty_map_ok)
  then show ?thesis using g(1) e(1) by blast
qed

theorem file_llseek_bounds_witness:
  "\<exists>s'. file_llseek 100 (-3) SEEK_END (sample_open (upd_di 2 (\<lambda>di. di\<lparr>i_size := 10\<rparr>) (efs_fresh mvirt_blk_ll_rw 1 mvirt_disk))) = Inr (0, s') \<and> uint (f_off (of_file s' 100)) = 7"
proof -
  let ?s = "sample_open (upd_di 2 (\<lambda>di. di\<lparr>i_size := 10\<rparr>) (efs_fresh mvirt_blk_ll_rw 1 mvirt_disk))"
  have s: "f_ip (of_file ?s 100) = 2" "unat (f_off (of_file ?s 100)) = 0" "fsize (of_efs ?s) 2 = 10" by (simp_all add: sample_open_def fsize_def upd_di_def)
  have "sint (-3 :: u32) = -3" by simp
  then show ?thesis using file_llseek_bounds [of ?s 100 2 "-3" SEEK_END] s by (auto simp: seek_base_def SEEK_SET_def SEEK_CUR_def SEEK_END_def)
qed

text \<open>A fork of the task with the two open files.\<close>

theorem copy_files_overwrites_parent_witness:
  "let e = efs_fresh mvirt_blk_ll_rw 1 mvirt_disk in
   copy_files files_init sample_fdt (sample_open e) = Inr (files_init, files_init, sample_open e) \<and>
   (\<exists>s1. copy_files sample_fdt files_init (sample_open e) = Inr (sample_fdt, sample_fdt, s1) \<and> f_ref (of_file s1 100) = 2)"
proof -
  define e where "e = efs_fresh mvirt_blk_ll_rw 1 mvirt_disk"
  have l: "length files_init = NOFILE" "length sample_fdt = NOFILE" by (simp_all add: files_init_def sample_fdt_def NOFILE_def)
  have r: "ref_room files_init (sample_open e)" "ref_room sample_fdt (sample_open e)"
    by (auto simp: ref_room_def files_init_def sample_fdt_def sample_open_def NOFILE_def)
  have c: "count_list sample_fdt 100 = 1" "100 \<in> set sample_fdt" by (simp_all add: sample_fdt_def)
  have "copy_files files_init sample_fdt (sample_open e) = Inr (files_init, files_init, sample_open e)"
    using copy_files_overwrites_parent [OF l r(1)] by blast
  moreover obtain s1 where s1: "copy_files sample_fdt files_init (sample_open e) = Inr (sample_fdt, sample_fdt, s1)"
    "\<forall>f. of_file s1 f = (if f \<in> set sample_fdt \<and> f \<noteq> 0 then (of_file (sample_open e) f)\<lparr>f_ref := f_ref (of_file (sample_open e) f) + of_nat (count_list sample_fdt f)\<rparr> else of_file (sample_open e) f)"
    using copy_files_overwrites_parent [OF l(2,1) r(2)] by blast
  have "f_ref (of_file s1 100) = 2" using spec [OF s1(2), of 100] c by (simp add: sample_open_def)
  ultimately show ?thesis unfolding Let_def e_def [symmetric] using s1(1) by blast
qed

end
