(* ===== verification/Spec2Isabelle.thy ===== *)
theory Spec2Isabelle
  imports Fifo HeapBoot Bitmap BuddyRace Spinlock SchedLocks Rwlock Signal RBDelete Virtio OpenFile
begin

text \<open>
  Verification library of the RISC-V kernel under src/.

  The kernel is written in C for several cores (harts).  From bottom to top it consists of a small library (lists, queues, strings,
  bitmaps, hash tables, red-black trees), the memory allocators (pages, slabs, \<open>kmalloc\<close>), locks and the scheduler, signals, a block layer with
  a buffer cache and two disk drivers, a file system and the system calls on open files.  The theories follow this order.

  \<^bold>\<open>Conventions.\<close>  Prelude.thy: machine integers are words of their width, with wrap-around; an address is a natural number and 0 the null
  pointer.  A function that may panic or make a bad access returns \<open>'a kres\<close>, with \<open>Inl (Panic msg)\<close> and \<open>Inl (Fault msg)\<close>; the result of a function that
  may also fail to return (wait for ever, loop for ever) is an option of it, with \<open>None\<close> for not returning.  A theorem with a result
  \<open>Some (Inr x)\<close> thus says that the code returns.  Definitions carry the names of the source, with a suffix where a name is taken.  Locks: unless a
  theory says otherwise, a section under a spin lock is one step; Spinlock.thy is the reason why it may be.  Memory that the allocators deliver to the
  block layer and the file system is a budget \<open>gd_mem\<close> of objects; a theorem on runs assumes a budget that is computed from the run.

  \<^bold>\<open>Library\<close> (lib/, include/lib/).
  \<^item> CList.thy, Fifo.thy: list.h and fifo.h at pointer level.  \<open>dll h hd xs\<close> says which list a heap holds; every operation refines its counterpart
    on HOL lists and leaves disjoint lists alone, so the components above use HOL lists.  Locale \<open>queue_contract\<close> is interpreted on both levels.
  \<^item> LibMath.thy (math.c), LibString.thy (string.c), Bitmap.thy (bitmap.c), Containers.thy (stack.h, hash.h, hash.c, lru.c): functional correctness on every
    branch; the hash table satisfies the locale \<open>map_contract\<close>.
  \<^item> RBTree.thy, RBInsert.thy, RBErase.thy, RBDelete.thy: rbtree.c store by store.  Insertion, search, traversal and validation are totally correct; deletion is
    described exactly, with the case in which it loses the balance.
  \<^item> Bytes.thy, Serial.thy: words and structures as bytes in memory and on disk.

  \<^bold>\<open>Memory\<close> (mm/).
  \<^item> Page.thy (page.c, page.h, atomic.h), Buddy.thy, BuddyRun.thy (mm.c): the invariant \<open>buddy_inv\<close>, allocation and freeing, initialisation, defragmentation, and the
    contract \<open>page_provider\<close> of the layers above, interpreted on \<open>alloc_pages\<close> and \<open>free_pages\<close>.  BuddyRace.thy: the two stores that \<open>buddy_alloc\<close> makes
    after it has released the lock, interleaved with a second core.
  \<^item> Slab.thy, SlabCache.thy (slab.c), Kmalloc.thy (kmalloc.c): invariants and the exact effect of each operation; HeapRun.thy, HeapBoot.thy: runs of the heap as its
    clients see it (locale \<open>object_allocator\<close>), progress, and the heap after boot.

  \<^bold>\<open>Locks and threads\<close> (kernel/locks/, kernel/proc/).
  \<^item> Spinlock.thy (spinlock.c): every access to a shared variable is a step; mutual exclusion for any number of cores, and interrupt nesting.
  \<^item> Sched.thy (sched.c): threads, run queues and current threads; a call is one step.  SchedLocks.thy: the same code with every \<open>spin_lock\<close> and
    \<open>spin_unlock\<close> as a step, \<open>core_step\<close> for the scheduler and the thread of a core and \<open>waker_step\<close> for a call of \<open>wakeup_process\<close>, interleaved by \<open>kreach\<close>; the
    invariant \<open>kinv\<close> with assertions at each program point, absence of deadlock, and the proof that the sections of a call in a row are the step of
    Sched.thy.  \<open>wakeup_process\<close> does not check the state of its thread; that its callers wake only new or sleeping threads, one caller at a time, is a condition
    of these theorems (\<open>kact_ok\<close>), and lemma \<open>wake_runnable_breaks\<close> shows that it is needed.
  \<^item> Semaphore.thy (semaphore.c, mutex.c, sleeplock.c), Rwlock.thy (rwlock.c): step relations over the scheduler of Sched.thy; counting, order of wakeups, exclusion.
  \<^item> Signal.thy (signal.c): sending, delivery order, handlers and the return from a handler.

  \<^bold>\<open>Block devices\<close> (kernel/dev/, drivers/blk/).
  \<^item> Bio.thy (bio.c), BufCache.thy (buf.c), Gendisk.thy (request.c, gendisk.c, blk_dev.c), Flush.thy (flush.c, mvir_blk.c), Devs.thy (devs.c): the driver is an
    argument; locale \<open>block_driver\<close> is what the layer relies on, interpreted on the RAM disk.  Over any such driver the layer is an array of bytes, and a round of
    the flush thread writes it to the device.  A second theorem shows the update that the flush thread loses when a writer comes in between.
  \<^item> Virtio.thy (virtio_disk.c): the device is an argument with the rules of the virtio specification for one request as the hypothesis \<open>virtio_device\<close>, which
    covers the devices that complete every request within the disk with status 0; the driver over such a device keeps the contract \<open>block_driver\<close>.  The
    writes to the registers are recorded, but the device does not depend on them.

  \<^bold>\<open>File system\<close> (fs/easyfs/, kernel/file.c).
  \<^item> Efs.thy (super.c, fs.c, inode.c): all operations below the directories.  EfsMap.thy: which block belongs to which file; EfsFile.thy, EfsRun.thy: any run of
    creating, reading and writing files behaves as on a list of byte strings.
  \<^item> OpenFile.thy (file.c, the descriptor table and \<open>copy_files\<close> of proc.c): system calls on descriptors behave as on byte strings with an offset for each open file,
    and panic exactly where the specification \<open>fop_err\<close> says.

  \<^bold>\<open>Bounds and fuel.\<close>  No definition has fuel: loops are structural recursion, \<open>function\<close> with a measure, or partial functions into option with a theorem that they
  return.  \<open>NCPU\<close>, \<open>NOFILE\<close>, \<open>ALL_PFN\<close> and the other sizes have the values of the headers.  Counters of fifos, hash tables and the rwlock are unbounded integers;
  names of locks, caches and devices, which nothing reads, are not stored.

  \<^bold>\<open>Not modelled.\<close>  Directories and paths (dentry.c): the file layer takes the inode that the lookup found.  Virtual memory (vm.c, vma.c, kswapd.c, wbackd.c), traps, system
  call entry and assembly (kernel/trap/, boot/, swtch.S), program loading (elf.c), the rest of proc.c and \<open>kthread_create\<close>: they are about page tables, control
  registers and machine state that has no counterpart here.  Timers (timer.c) and work queues (work.c): threads around the modelled scheduler, semaphores and
  queues.  Console, UART, interrupt controller and printing: input and output.  Modules and probes: patching of machine code.  User programs, host tools and
  tests.  Of the modelled files, functions that only print or do nothing, the zeroing of pages whose contents are not part of the state, the acknowledgement of
  the disk interrupt, and the page table switch inside \<open>sched\<close> are left out.
\<close>

end
